(* ===== verification/Prelude.thy ===== *)
theory Prelude
  imports Main "HOL-Library.Word" "HOL-Library.Monad_Syntax"
begin

text \<open>
  Shared vocabulary of the development: the bounds of the machine integers, Rust's checked and
  saturating arithmetic, the error values of the runtime contract, and the generic lemmas on
  options and lists that the component theories use.

  A Rust integer that only sees checked or saturating arithmetic is a \<^typ>\<open>nat\<close> whose bound is
  written out at each operation; an integer that wraps around or is packed into bits is a
  \<^typ>\<open>'a word\<close> of its width. The width of \<open>usize\<close> is that of the target, \<open>riscv32\<close>.

  A call that panics, dereferences a dangling pointer or never returns is the value \<open>None\<close> of an
  option type; a call that returns \<open>Err e\<close> is \<open>Inl e\<close>.
\<close>

named_theorems budget_simps \<open>defining equations of the quota operations\<close>
named_theorems panic_free \<open>calls that return under the invariant of their component\<close>

subsection \<open>Machine integers\<close>

abbreviation (input) U8_MAX :: nat where "U8_MAX \<equiv> 255"
abbreviation (input) U16_MAX :: nat where "U16_MAX \<equiv> 65535"
abbreviation (input) U32_MAX :: nat where "U32_MAX \<equiv> 4294967295"
abbreviation (input) U64_MAX :: nat where "U64_MAX \<equiv> 18446744073709551615"
abbreviation (input) USIZE_MAX :: nat where "USIZE_MAX \<equiv> 4294967295"

definition nonzero_u32 :: "nat \<Rightarrow> bool" where
  "nonzero_u32 n \<longleftrightarrow> 0 < n \<and> n \<le> U32_MAX"

text \<open>\<open>saturating_add\<close>, \<open>saturating_mul\<close>; \<open>saturating_sub\<close> is the subtraction of \<^typ>\<open>nat\<close>.\<close>

definition sat_add :: "nat \<Rightarrow> nat \<Rightarrow> nat \<Rightarrow> nat" where
  "sat_add mx a b = min (a + b) mx"

definition sat_mul :: "nat \<Rightarrow> nat \<Rightarrow> nat \<Rightarrow> nat" where
  "sat_mul mx a b = min (a * b) mx"

abbreviation (input) sat_sub :: "nat \<Rightarrow> nat \<Rightarrow> nat" where
  "sat_sub a b \<equiv> a - b"

text \<open>\<open>checked_add\<close> and \<open>checked_sub\<close>, and the plain operators of a build with overflow checks.\<close>

definition chk_add :: "nat \<Rightarrow> nat \<Rightarrow> nat \<Rightarrow> nat option" where
  "chk_add mx a b = (if a + b \<le> mx then Some (a + b) else None)"

definition chk_sub :: "nat \<Rightarrow> nat \<Rightarrow> nat option" where
  "chk_sub a b = (if b \<le> a then Some (a - b) else None)"

lemma sat_add_le [simp]: "sat_add mx a b \<le> mx"
  by (simp add: sat_add_def)

lemma sat_add_exact: "a + b \<le> mx \<Longrightarrow> sat_add mx a b = a + b"
  by (simp add: sat_add_def)

lemma sat_add_ge: "a \<le> mx \<Longrightarrow> a \<le> sat_add mx a b"
  by (simp add: sat_add_def)

lemma chk_add_Some: "chk_add mx a b = Some c \<longleftrightarrow> c = a + b \<and> a + b \<le> mx"
  by (auto simp: chk_add_def)

lemma chk_sub_Some: "chk_sub a b = Some c \<longleftrightarrow> c = a - b \<and> b \<le> a"
  by (auto simp: chk_sub_def)

lemma chk_add_exact [simp]: "a + b \<le> mx \<Longrightarrow> chk_add mx a b = Some (a + b)"
  by (simp add: chk_add_def)

lemma chk_sub_exact [simp]: "b \<le> a \<Longrightarrow> chk_sub a b = Some (a - b)"
  by (simp add: chk_sub_def)

subsection \<open>Results\<close>

text \<open>The error values the sources name; they are constants of the contract crate.\<close>

datatype driver_error =
    NoTaskSlots
  | ResourceExhausted
  | InvalidHandle
  | InvalidContext
  | RuntimeError
  | IncompatibleExecutionProfile
  | IncompatibleContract

type_synonym 'a res = "driver_error + 'a"

text \<open>\<open>assert!(b)\<close>: a failed assertion panics.\<close>

definition assert_that :: "bool \<Rightarrow> unit option" where
  "assert_that b = (if b then Some () else None)"

lemma assert_that_True [simp]: "assert_that True = Some ()"
  by (simp add: assert_that_def)

lemma assert_that_Some [simp]: "assert_that b = Some u \<longleftrightarrow> b"
  by (simp add: assert_that_def)

lemma bind_eq_Some: "Option.bind m f = Some y \<longleftrightarrow> (\<exists>x. m = Some x \<and> f x = Some y)"
  by (cases m) auto

subsection \<open>Lists\<close>

text \<open>\<open>iter().position(p)\<close> and \<open>iter().find(p)\<close> over indices: the first index that satisfies \<open>p\<close>.\<close>

fun find_index_from :: "nat \<Rightarrow> ('a \<Rightarrow> bool) \<Rightarrow> 'a list \<Rightarrow> nat option" where
  "find_index_from i p [] = None"
| "find_index_from i p (x # xs) = (if p x then Some i else find_index_from (Suc i) p xs)"

abbreviation position :: "('a \<Rightarrow> bool) \<Rightarrow> 'a list \<Rightarrow> nat option" where
  "position p xs \<equiv> find_index_from 0 p xs"

lemma find_index_from_SomeD:
  "find_index_from i p xs = Some j \<Longrightarrow>
    i \<le> j \<and> j < i + length xs \<and> p (xs ! (j - i)) \<and> (\<forall>k < j - i. \<not> p (xs ! k))"
proof (induction xs arbitrary: i)
  case Nil
  then show ?case by simp
next
  case (Cons x xs)
  show ?case
  proof (cases "p x")
    case True
    with Cons.prems show ?thesis by simp
  next
    case False
    with Cons.prems have "find_index_from (Suc i) p xs = Some j" by simp
    from Cons.IH [OF this] have ih: "Suc i \<le> j" "j < Suc i + length xs" "p (xs ! (j - Suc i))"
      "\<forall>k < j - Suc i. \<not> p (xs ! k)" by auto
    moreover from ih(1) have "j - i = Suc (j - Suc i)" by simp
    ultimately show ?thesis using False by (auto simp: less_Suc_eq_0_disj)
  qed
qed

lemma find_index_from_None: "find_index_from i p xs = None \<longleftrightarrow> (\<forall>x \<in> set xs. \<not> p x)"
  by (induction xs arbitrary: i) auto

lemma position_SomeD:
  assumes "position p xs = Some j"
  shows "j < length xs" "p (xs ! j)" "k < j \<Longrightarrow> \<not> p (xs ! k)"
  using find_index_from_SomeD [OF assms] by auto

lemma position_ex: "x \<in> set xs \<Longrightarrow> p x \<Longrightarrow> \<exists>j. position p xs = Some j"
  using find_index_from_None [of 0 p xs] by (cases "position p xs") auto

text \<open>\<open>for x in xs { f(x) }\<close> over a state, and \<open>iter().min()\<close>.\<close>

fun for_each :: "('a \<Rightarrow> 's \<Rightarrow> 's option) \<Rightarrow> 'a list \<Rightarrow> 's \<Rightarrow> 's option" where
  "for_each f [] s = Some s"
| "for_each f (x # xs) s = do { s \<leftarrow> f x s; for_each f xs s }"

text \<open>A loop whose every round keeps an invariant returns, and keeps it.\<close>

lemma for_each_inv:
  assumes "\<And>x s. x \<in> set xs \<Longrightarrow> I s \<Longrightarrow> \<exists>s'. f x s = Some s' \<and> I s'"
  shows "I s \<Longrightarrow> \<exists>s'. for_each f xs s = Some s' \<and> I s'"
  using assms
proof (induction xs arbitrary: s)
  case (Cons x xs)
  from Cons.prems(2) [of x s] Cons.prems(1) obtain s1 where "f x s = Some s1" "I s1" by auto
  with Cons.IH [of s1] Cons.prems(2) show ?case by auto
qed simp

lemma for_each_append: "for_each f (xs @ ys) s = Option.bind (for_each f xs s) (for_each f ys)"
proof (induction xs arbitrary: s)
  case (Cons x xs)
  then show ?case by (cases "f x s") auto
qed simp

definition iter_min :: "nat list \<Rightarrow> nat option" where
  "iter_min xs = (if xs = [] then None else Some (Min (set xs)))"

lemma iter_min_None [simp]: "iter_min xs = None \<longleftrightarrow> xs = []"
  by (simp add: iter_min_def)

lemma iter_min_SomeD: "iter_min xs = Some m \<Longrightarrow> m \<in> set xs \<and> (\<forall>x \<in> set xs. m \<le> x)"
  by (auto simp: iter_min_def split: if_splits)

fun opt_list :: "'a option \<Rightarrow> 'a list" where
  "opt_list None = []"
| "opt_list (Some x) = [x]"

lemma set_opt_list [simp]: "set (opt_list x) = set_option x" "opt_list x = [] \<longleftrightarrow> x = None"
  by (cases x; simp)+

lemma sum_list_update:
  fixes f :: "'a \<Rightarrow> nat"
  assumes "i < length xs"
  shows "sum_list (map f (xs[i := v])) + f (xs ! i) = sum_list (map f xs) + f v"
  using assms
proof (induction xs arbitrary: i)
  case Nil
  then show ?case by simp
next
  case (Cons x xs)
  then show ?case by (cases i) (auto simp: algebra_simps)
qed

lemma sum_list_member_le:
  fixes f :: "'a \<Rightarrow> nat"
  assumes "i < length xs"
  shows "f (xs ! i) \<le> sum_list (map f xs)"
  using assms
proof (induction xs arbitrary: i)
  case Nil
  then show ?case by simp
next
  case (Cons x xs)
  then show ?case by (cases i) (auto simp: trans_le_add2)
qed

lemma filter_count_update:
  assumes "i < length xs"
  shows "length (filter p (xs[i := v])) + (if p (xs ! i) then 1 else 0)
    = length (filter p xs) + (if p v then 1 else 0)"
  using assms
proof (induction xs arbitrary: i)
  case Nil
  then show ?case by simp
next
  case (Cons x xs)
  then show ?case by (cases i) auto
qed

end
