(* ===== verification/Budget.thy ===== *)
theory Budget
  imports Prelude
begin

text \<open>
  The periodic CPU quota of \<open>scheduling.rs\<close>: \<open>BudgetSpec\<close>, \<open>RunPolicy\<close> and the pure state
  \<open>BudgetState\<close> that the scheduler keeps in every task control block. Times are milliseconds of
  the 64-bit monotonic clock.
\<close>

subsection \<open>Specification of a quota and run policies\<close>

record budget_spec =
  capacity :: nat
  replenishment_period :: nat

definition try_new :: "nat \<Rightarrow> nat \<Rightarrow> budget_spec option" where
  "try_new cap period =
     (if cap \<le> period
      then Some \<lparr>capacity = cap, replenishment_period = period\<rparr>
      else None)"

datatype run_policy = Cooperative | Budgeted budget_spec | Preemptive (time_slice: nat)

datatype budget_expiry = NotBudgeted | StillAvailable | ThrottleNow | DeferredBySchedulerLock

subsection \<open>Quota state and its operations\<close>

record budget_state =
  spec :: "budget_spec option"
  remaining :: nat
  replenishes_at :: nat
  running_since :: "nat option"
  lock_overrun_pending :: bool

definition budget_none :: budget_state where
  "budget_none = \<lparr>spec = None, remaining = 0, replenishes_at = 0, running_since = None,
     lock_overrun_pending = False\<rparr>"

definition for_policy :: "run_policy \<Rightarrow> nat \<Rightarrow> budget_state" where
  "for_policy policy now =
     (case policy of
        Budgeted sp \<Rightarrow> \<lparr>spec = Some sp, remaining = capacity sp,
          replenishes_at = sat_add U64_MAX now (replenishment_period sp),
          running_since = None, lock_overrun_pending = False\<rparr>
      | _ \<Rightarrow> budget_none)"

definition charge_until :: "nat \<Rightarrow> budget_state \<Rightarrow> budget_state" where
  "charge_until now b =
     (case running_since b of
        None \<Rightarrow> b
      | Some started \<Rightarrow>
          let elapsed = min (sat_sub now started) U32_MAX
          in b\<lparr>remaining := sat_sub (remaining b) elapsed, running_since := Some now\<rparr>)"

text \<open>The \<open>+ 1\<close> on the number of elapsed periods is a plain addition, so it is checked.\<close>

definition replenish_if_due :: "nat \<Rightarrow> budget_state \<Rightarrow> (bool \<times> budget_state) option" where
  "replenish_if_due now b =
     (case spec b of
        None \<Rightarrow> Some (False, b)
      | Some sp \<Rightarrow>
          if lock_overrun_pending b \<or> now < replenishes_at b then Some (False, b)
          else do {
            let period = replenishment_period sp;
            elapsed_periods \<leftarrow> chk_add U64_MAX ((now - replenishes_at b) div period) 1;
            Some (True, b\<lparr>replenishes_at :=
                sat_add U64_MAX (replenishes_at b) (sat_mul U64_MAX elapsed_periods period),
              remaining := capacity sp\<rparr>)
          })"

definition budget_on_dispatch :: "nat \<Rightarrow> budget_state \<Rightarrow> budget_state option" where
  "budget_on_dispatch now b = do {
     (_, b) \<leftarrow> replenish_if_due now b;
     Some (if spec b \<noteq> None then b\<lparr>running_since := Some now\<rparr> else b)
   }"

definition budget_on_switch_out :: "nat \<Rightarrow> budget_state \<Rightarrow> budget_state" where
  "budget_on_switch_out now b = (charge_until now b)\<lparr>running_since := None\<rparr>"

definition exhaustion_deadline :: "budget_state \<Rightarrow> nat option" where
  "exhaustion_deadline b =
     (case running_since b of
        None \<Rightarrow> None
      | Some started \<Rightarrow>
          if remaining b \<noteq> 0 then Some (sat_add U64_MAX started (remaining b)) else None)"

definition budget_on_timer :: "nat \<Rightarrow> bool \<Rightarrow> budget_state \<Rightarrow> budget_expiry \<times> budget_state" where
  "budget_on_timer now scheduler_locked b =
     (if spec b = None then (NotBudgeted, b)
      else let b = charge_until now b in
        if remaining b \<noteq> 0 then (StillAvailable, b)
        else let b = b\<lparr>running_since := None\<rparr> in
          if scheduler_locked then (DeferredBySchedulerLock, b\<lparr>lock_overrun_pending := True\<rparr>)
          else (ThrottleNow, b))"

text \<open>The loop of \<open>throttle_after_lock_overrun\<close>: step boundary by boundary until after \<open>now\<close>.\<close>

function advance_boundary :: "nat \<Rightarrow> nat \<Rightarrow> nat \<Rightarrow> nat" where
  "advance_boundary now period at =
     (if at \<le> now
      then let nxt = sat_add U64_MAX at period in
        if nxt = at then U64_MAX else advance_boundary now period nxt
      else at)"
  by pat_completeness auto
termination
  by (relation "measure (\<lambda>(now, period, at). if at \<le> U64_MAX then U64_MAX - at else Suc U64_MAX)")
    (auto simp: sat_add_def min_def split: if_splits)

declare advance_boundary.simps [simp del]

definition throttle_after_lock_overrun :: "nat \<Rightarrow> budget_state \<Rightarrow> nat option \<times> budget_state" where
  "throttle_after_lock_overrun now b =
     (if \<not> lock_overrun_pending b then (None, b)
      else case spec b of
        None \<Rightarrow> (None, b)
      | Some sp \<Rightarrow>
          let b = b\<lparr>lock_overrun_pending := False, remaining := 0, running_since := None,
                replenishes_at :=
                  advance_boundary now (replenishment_period sp) (replenishes_at b)\<rparr>
          in (Some (replenishes_at b), b))"

lemmas budget_op_defs =
  try_new_def budget_none_def for_policy_def charge_until_def replenish_if_due_def
  budget_on_dispatch_def budget_on_switch_out_def exhaustion_deadline_def budget_on_timer_def
  throttle_after_lock_overrun_def

subsection \<open>Invariant\<close>

definition spec_ok :: "budget_spec \<Rightarrow> bool" where
  "spec_ok sp \<longleftrightarrow> nonzero_u32 (capacity sp) \<and> nonzero_u32 (replenishment_period sp)
     \<and> capacity sp \<le> replenishment_period sp"

fun policy_ok :: "run_policy \<Rightarrow> bool" where
  "policy_ok Cooperative = True"
| "policy_ok (Budgeted sp) = spec_ok sp"
| "policy_ok (Preemptive ts) = nonzero_u32 ts"

definition budget_inv :: "budget_state \<Rightarrow> bool" where
  "budget_inv b \<longleftrightarrow>
     (case spec b of
        None \<Rightarrow> b = budget_none
      | Some sp \<Rightarrow> spec_ok sp \<and> remaining b \<le> capacity sp
          \<and> 0 < replenishes_at b \<and> replenishes_at b \<le> U64_MAX
          \<and> (lock_overrun_pending b \<longrightarrow> remaining b = 0))"


lemma budget_inv_None [simp]: "spec b = None \<Longrightarrow> budget_inv b \<longleftrightarrow> b = budget_none"
  by (simp add: budget_inv_def)

lemma budget_inv_Some:
  "spec b = Some sp \<Longrightarrow> budget_inv b \<longleftrightarrow> spec_ok sp \<and> remaining b \<le> capacity sp
    \<and> 0 < replenishes_at b \<and> replenishes_at b \<le> U64_MAX
    \<and> (lock_overrun_pending b \<longrightarrow> remaining b = 0)"
  by (simp add: budget_inv_def)

lemma budget_none_inv [simp]: "budget_inv budget_none"
  by (simp add: budget_inv_def budget_none_def)

lemma budget_none_sel [simp]:
  "spec budget_none = None" "remaining budget_none = 0" "replenishes_at budget_none = 0"
  "running_since budget_none = None" "\<not> lock_overrun_pending budget_none"
  by (simp_all add: budget_none_def)

lemma spec_ok_pos: "spec_ok sp \<Longrightarrow> 0 < capacity sp \<and> 0 < replenishment_period sp"
  by (simp add: spec_ok_def nonzero_u32_def)

lemma spec_ok_bounds: "spec_ok sp \<Longrightarrow> capacity sp \<le> U32_MAX \<and> replenishment_period sp \<le> U32_MAX"
  by (simp add: spec_ok_def nonzero_u32_def)

lemma for_policy_inv: "policy_ok policy \<Longrightarrow> budget_inv (for_policy policy now)"
  by (cases policy)
    (auto simp: for_policy_def budget_inv_Some spec_ok_def nonzero_u32_def sat_add_def)

subsection \<open>Replenishment boundaries\<close>

text \<open>
  The boundary both replenishment paths compute: the first one after \<open>now\<close> in the phase of
  \<open>at\<close>, clamped to the largest timestamp.
\<close>

definition next_boundary :: "nat \<Rightarrow> nat \<Rightarrow> nat \<Rightarrow> nat" where
  "next_boundary now period at =
     (if at \<le> now then min (at + ((now - at) div period + 1) * period) U64_MAX else at)"

lemma next_boundary_step:
  assumes "0 < period" "at \<le> now" "at < U64_MAX" "at \<le> U64_MAX"
  shows "next_boundary now period (sat_add U64_MAX at period) = next_boundary now period at"
proof (cases "at + period \<le> now")
  case True
  have split: "(now - at) div period = (now - (at + period)) div period + 1"
    using True assms(1) by (simp add: le_div_geq diff_diff_eq)
  show ?thesis
  proof (cases "at + period \<le> U64_MAX")
    case True
    then show ?thesis
      using \<open>at + period \<le> now\<close> assms(2) split
      by (simp add: next_boundary_def sat_add_def algebra_simps)
  next
    case False
    then have "U64_MAX \<le> at + ((now - at) div period + 1) * period"
      by (simp add: algebra_simps)
    with False \<open>at + period \<le> now\<close> assms(2) show ?thesis
      by (simp add: next_boundary_def sat_add_def)
  qed
next
  case False
  then have "(now - at) div period = 0" using assms(2) by (simp add: less_diff_conv2)
  with False assms show ?thesis
    by (auto simp: next_boundary_def sat_add_def min_def)
qed

lemma advance_boundary_closed:
  assumes "0 < period" "at \<le> U64_MAX"
  shows "advance_boundary now period at = next_boundary now period at"
  using assms
proof (induction now period at rule: advance_boundary.induct)
  case (1 now period at)
  show ?case
  proof (cases "at \<le> now")
    case False
    then show ?thesis by (simp add: advance_boundary.simps [of now period at] next_boundary_def)
  next
    case le: True
    show ?thesis
    proof (cases "sat_add U64_MAX at period = at")
      case True
      then have "at = U64_MAX" using "1.prems" by (auto simp: sat_add_def min_def split: if_splits)
      with le show ?thesis
        by (subst advance_boundary.simps) (simp add: next_boundary_def sat_add_def)
    next
      case False
      then have lt: "at < U64_MAX" using "1.prems" by (auto simp: sat_add_def)
      have "advance_boundary now period (sat_add U64_MAX at period)
          = next_boundary now period (sat_add U64_MAX at period)"
        using "1.IH" [OF le refl False] "1.prems" by simp
      with next_boundary_step [OF "1.prems"(1) le lt "1.prems"(2)] le False show ?thesis
        by (simp add: advance_boundary.simps [of now period at])
    qed
  qed
qed

lemma replenish_boundary:
  assumes "at \<le> now"
  shows "sat_add U64_MAX at (sat_mul U64_MAX ((now - at) div period + 1) period)
    = next_boundary now period at"
  using assms by (auto simp: next_boundary_def sat_add_def sat_mul_def min_def)

lemma next_boundary_after:
  assumes "0 < period"
  shows "now < next_boundary now period at \<or> next_boundary now period at = U64_MAX"
proof (cases "at \<le> now")
  case True
  have "now - at < ((now - at) div period + 1) * period"
    using assms dividend_less_div_times [of period "now - at"] by (simp add: algebra_simps)
  with True show ?thesis by (auto simp: next_boundary_def min_def)
next
  case False
  then show ?thesis by (simp add: next_boundary_def)
qed

lemma next_boundary_bounds:
  assumes "0 < period" "at \<le> now" "now + period \<le> U64_MAX"
  shows "now < next_boundary now period at" "next_boundary now period at \<le> now + period"
    "next_boundary now period at mod period = at mod period"
proof -
  let ?q = "(now - at) div period"
  have lo: "?q * period \<le> now - at" by simp
  have hi: "now - at < (?q + 1) * period"
    using assms(1) dividend_less_div_times [of period "now - at"] by (simp add: algebra_simps)
  have up: "at + (?q + 1) * period \<le> now + period"
    using add_mono [OF lo, of "at + period" "at + period"] assms(2) by (simp add: algebra_simps)
  then have fit: "at + (?q + 1) * period \<le> U64_MAX" using assms(3) by (rule order_trans)
  have eq: "next_boundary now period at = at + (?q + 1) * period"
    using assms(2,3) fit by (simp add: next_boundary_def)
  show "now < next_boundary now period at" using hi assms(2) eq by linarith
  show "next_boundary now period at \<le> now + period"
    using up unfolding eq .
  show "next_boundary now period at mod period = at mod period"
    unfolding eq by (simp only: mod_mult_self1)
qed

lemma next_boundary_least:
  assumes "0 < period" "at \<le> now" "now + period \<le> U64_MAX"
    and "now < t" "t mod period = at mod period"
  shows "next_boundary now period at \<le> t"
proof (rule ccontr)
  let ?nb = "next_boundary now period at"
  assume "\<not> ?nb \<le> t"
  then have lt: "t < ?nb" by simp
  note nb = next_boundary_bounds [OF assms(1-3)]
  have "period dvd ?nb - t"
    using nb(3) assms(5) lt by (metis less_imp_le mod_eq_dvd_iff_nat)
  then have "period \<le> ?nb - t" using lt by (simp add: dvd_imp_le)
  with nb(2) assms(4) lt show False by linarith
qed

subsection \<open>Operations keep the invariant\<close>

lemma charge_until_sel [simp]:
  "spec (charge_until now b) = spec b"
  "replenishes_at (charge_until now b) = replenishes_at b"
  "lock_overrun_pending (charge_until now b) = lock_overrun_pending b"
  by (simp_all add: charge_until_def Let_def split: option.splits)

lemma charge_until_remaining: "remaining (charge_until now b) \<le> remaining b"
  by (simp add: charge_until_def Let_def split: option.splits)

lemma charge_until_inv:
  assumes "budget_inv b"
  shows "budget_inv (charge_until now b)"
proof (cases "spec b")
  case None
  with assms show ?thesis by (simp add: charge_until_def)
next
  case (Some sp)
  with assms charge_until_remaining [of now b] show ?thesis
    by (auto simp: budget_inv_Some)
qed

lemma budget_inv_running [simp]:
  "spec b \<noteq> None \<Longrightarrow> budget_inv (b\<lparr>running_since := t\<rparr>) = budget_inv b"
  by (auto simp: budget_inv_Some)

lemma budget_on_switch_out_inv: "budget_inv b \<Longrightarrow> budget_inv (budget_on_switch_out now b)"
proof (cases "spec b = None")
  case True
  moreover assume "budget_inv b"
  ultimately show ?thesis
    by (simp add: budget_on_switch_out_def charge_until_def budget_none_def budget_inv_def)
qed (simp add: budget_on_switch_out_def charge_until_inv)

lemma budget_on_timer_inv: "budget_inv b \<Longrightarrow> budget_inv (snd (budget_on_timer now locked b))"
proof (cases "spec b")
  case (Some sp)
  moreover assume "budget_inv b"
  ultimately show ?thesis
    using charge_until_inv [of b now]
    by (auto simp: budget_on_timer_def Let_def budget_inv_Some)
qed (simp add: budget_on_timer_def)

lemma replenish_if_due_cases:
  assumes "budget_inv b" "now \<le> U64_MAX"
  shows "replenish_if_due now b =
    (case spec b of
       None \<Rightarrow> Some (False, b)
     | Some sp \<Rightarrow>
         if lock_overrun_pending b \<or> now < replenishes_at b then Some (False, b)
         else Some (True, b\<lparr>
            replenishes_at := next_boundary now (replenishment_period sp) (replenishes_at b),
            remaining := capacity sp\<rparr>))"
proof (cases "spec b")
  case None
  then show ?thesis by (simp add: replenish_if_due_def)
next
  case (Some sp)
  show ?thesis
  proof (cases "lock_overrun_pending b \<or> now < replenishes_at b")
    case True
    with Some show ?thesis by (auto simp: replenish_if_due_def)
  next
    case False
    let ?p = "replenishment_period sp" and ?r = "replenishes_at b"
    from assms(1) Some have "0 < ?r" by (simp add: budget_inv_Some)
    have "(now - ?r) div ?p \<le> now - ?r" by (rule div_le_dividend)
    with \<open>0 < ?r\<close> assms(2) False have "(now - ?r) div ?p + 1 \<le> U64_MAX" by linarith
    then show ?thesis
      using Some False replenish_boundary [of ?r now ?p]
      by (simp add: replenish_if_due_def Let_def)
  qed
qed

lemma next_boundary_range:
  "0 < at \<Longrightarrow> at \<le> U64_MAX \<Longrightarrow> 0 < next_boundary now p at \<and> next_boundary now p at \<le> U64_MAX"
  by (auto simp: next_boundary_def)

lemma replenish_if_due_inv:
  assumes "budget_inv b" "now \<le> U64_MAX"
  obtains due b' where "replenish_if_due now b = Some (due, b')" "budget_inv b'" "spec b' = spec b"
proof (cases "spec b")
  case None
  then have "replenish_if_due now b = Some (False, b)" by (simp add: replenish_if_due_def)
  then show ?thesis using that assms(1) by blast
next
  case (Some sp)
  show ?thesis
  proof (cases "lock_overrun_pending b \<or> now < replenishes_at b")
    case True
    with Some assms have "replenish_if_due now b = Some (False, b)"
      by (simp add: replenish_if_due_cases)
    then show ?thesis using that assms(1) by blast
  next
    case False
    let ?b = "b\<lparr>replenishes_at := next_boundary now (replenishment_period sp) (replenishes_at b),
      remaining := capacity sp\<rparr>"
    from False Some assms have "replenish_if_due now b = Some (True, ?b)"
      by (simp add: replenish_if_due_cases)
    moreover have "budget_inv ?b"
      using Some assms(1) False
        next_boundary_range [of "replenishes_at b" now "replenishment_period sp"]
      by (simp add: budget_inv_Some)
    ultimately show ?thesis using that by simp
  qed
qed

lemma budget_on_dispatch_inv:
  assumes "budget_inv b" "now \<le> U64_MAX"
  obtains b' where "budget_on_dispatch now b = Some b'" "budget_inv b'" "spec b' = spec b"
proof (rule replenish_if_due_inv [OF assms])
  fix due b'
  assume "replenish_if_due now b = Some (due, b')" "budget_inv b'" "spec b' = spec b"
  then show thesis using that [of "if spec b' \<noteq> None then b'\<lparr>running_since := Some now\<rparr> else b'"]
    by (auto simp: budget_on_dispatch_def)
qed

lemma throttle_after_lock_overrun_inv:
  assumes "budget_inv b"
  shows "budget_inv (snd (throttle_after_lock_overrun now b))"
proof (cases "spec b")
  case (Some sp)
  with assms have "0 < replenishment_period sp" "replenishes_at b \<le> U64_MAX" "0 < replenishes_at b"
    by (auto simp: budget_inv_Some dest: spec_ok_pos)
  with Some assms next_boundary_range [of "replenishes_at b" now "replenishment_period sp"]
  show ?thesis
    by (auto simp: throttle_after_lock_overrun_def Let_def budget_inv_Some advance_boundary_closed)
qed (use assms in \<open>simp add: throttle_after_lock_overrun_def\<close>)

subsection \<open>Sequences of quota events\<close>

text \<open>The calls the scheduler makes on the quota of one task, in any order and at any times.\<close>

datatype budget_op =
    Dispatch nat
  | SwitchOut nat
  | TimerTick nat bool
  | ThrottleAfterLock nat
  | ReplenishIfDue nat

fun budget_op_time :: "budget_op \<Rightarrow> nat" where
  "budget_op_time (Dispatch t) = t"
| "budget_op_time (SwitchOut t) = t"
| "budget_op_time (TimerTick t locked) = t"
| "budget_op_time (ThrottleAfterLock t) = t"
| "budget_op_time (ReplenishIfDue t) = t"

fun budget_step :: "budget_op \<Rightarrow> budget_state \<Rightarrow> budget_state option" where
  "budget_step (Dispatch t) b = budget_on_dispatch t b"
| "budget_step (SwitchOut t) b = Some (budget_on_switch_out t b)"
| "budget_step (TimerTick t locked) b = Some (snd (budget_on_timer t locked b))"
| "budget_step (ThrottleAfterLock t) b = Some (snd (throttle_after_lock_overrun t b))"
| "budget_step (ReplenishIfDue t) b = map_option snd (replenish_if_due t b)"

fun budget_run :: "budget_op list \<Rightarrow> budget_state \<Rightarrow> budget_state option" where
  "budget_run [] b = Some b"
| "budget_run (e # es) b = do { b \<leftarrow> budget_step e b; budget_run es b }"

lemma budget_step_inv:
  assumes "budget_inv b" "budget_op_time e \<le> U64_MAX"
  obtains b' where "budget_step e b = Some b'" "budget_inv b'" "spec b' = spec b"
proof (cases e)
  case (Dispatch t)
  with assms budget_on_dispatch_inv [of b t] that show ?thesis by auto
next
  case (SwitchOut t)
  with assms that [of "budget_on_switch_out t b"] budget_on_switch_out_inv [of b t]
  show ?thesis by (simp add: budget_on_switch_out_def)
next
  case (TimerTick t locked)
  with assms that [of "snd (budget_on_timer t locked b)"] budget_on_timer_inv [of b t locked]
  show ?thesis by (simp add: budget_on_timer_def Let_def)
next
  case (ThrottleAfterLock t)
  with assms that [of "snd (throttle_after_lock_overrun t b)"]
    throttle_after_lock_overrun_inv [of b t]
  show ?thesis by (simp add: throttle_after_lock_overrun_def Let_def split: option.splits)
next
  case (ReplenishIfDue t)
  show ?thesis
  proof (rule replenish_if_due_inv [of b t])
    show "budget_inv b" "t \<le> U64_MAX" using assms ReplenishIfDue by auto
  next
    fix due b'
    assume "replenish_if_due t b = Some (due, b')" "budget_inv b'" "spec b' = spec b"
    then show thesis using that [of b'] ReplenishIfDue by simp
  qed
qed

lemma budget_run_inv:
  assumes "budget_inv b" "\<forall>e \<in> set es. budget_op_time e \<le> U64_MAX"
  shows "\<exists>b'. budget_run es b = Some b' \<and> budget_inv b' \<and> spec b' = spec b"
  using assms
proof (induction es arbitrary: b)
  case Nil
  then show ?case by simp
next
  case (Cons e es)
  from Cons.prems have "budget_inv b" "budget_op_time e \<le> U64_MAX" by auto
  then obtain b1 where b1: "budget_step e b = Some b1" "budget_inv b1" "spec b1 = spec b"
    by (rule budget_step_inv)
  with Cons.IH [of b1] Cons.prems(2) show ?case by simp
qed

subsection \<open>Properties\<close>

text \<open>
  C4. Whatever the scheduler does to the quota of a budgeted task, in whatever order and at
  whatever times, no call panics (the unchecked \<open>+ 1\<close> of \<open>replenish_if_due\<close> included) and the
  remaining budget never exceeds the capacity of the policy.
\<close>

theorem budget_remaining_bounded:
  assumes "spec_ok sp" "\<forall>e \<in> set es. budget_op_time e \<le> U64_MAX"
  shows "\<exists>b. budget_run es (for_policy (Budgeted sp) now) = Some b
    \<and> spec b = Some sp \<and> remaining b \<le> capacity sp"
proof -
  have "budget_inv (for_policy (Budgeted sp) now)"
    using assms(1) by (simp add: for_policy_inv)
  from budget_run_inv [OF this assms(2)] show ?thesis
    by (auto simp: for_policy_def budget_inv_Some)
qed

theorem budget_remaining_bounded_witness:
  "\<exists>b. budget_run [Dispatch 102, TimerTick 103 False, SwitchOut 104, ReplenishIfDue 145]
      (for_policy (Budgeted \<lparr>capacity = 5, replenishment_period = 20\<rparr>) 100) = Some b
    \<and> spec b = Some \<lparr>capacity = 5, replenishment_period = 20\<rparr> \<and> remaining b \<le> 5"
  using budget_remaining_bounded [of "\<lparr>capacity = 5, replenishment_period = 20\<rparr>"
      "[Dispatch 102, TimerTick 103 False, SwitchOut 104, ReplenishIfDue 145]" 100]
  by (simp add: spec_ok_def nonzero_u32_def)

text \<open>
  A due replenishment restores exactly the capacity and moves the deadline to the first
  boundary after \<open>now\<close> that keeps the phase of the old deadline, whatever number of periods was
  missed; nothing else of the quota changes.
\<close>

theorem replenish_keeps_phase:
  assumes "budget_inv b" "spec b = Some sp" "\<not> lock_overrun_pending b"
    and "replenishes_at b \<le> now" "now + replenishment_period sp \<le> U64_MAX"
  shows "\<exists>at. replenish_if_due now b
      = Some (True, b\<lparr>replenishes_at := at, remaining := capacity sp\<rparr>)
    \<and> now < at \<and> at mod replenishment_period sp = replenishes_at b mod replenishment_period sp
    \<and> (\<forall>t. now < t \<and> t mod replenishment_period sp = replenishes_at b mod replenishment_period sp
         \<longrightarrow> at \<le> t)"
proof -
  have p: "0 < replenishment_period sp"
    using assms(1,2) spec_ok_pos by (simp add: budget_inv_Some)
  note b = next_boundary_bounds [OF p assms(4,5)] next_boundary_least [OF p assms(4,5)]
  have "now \<le> U64_MAX" using assms(5) by simp
  with assms b show ?thesis by (auto simp: replenish_if_due_cases)
qed

theorem replenish_keeps_phase_witness:
  "\<exists>at. replenish_if_due 1000 (for_policy (Budgeted \<lparr>capacity = 5, replenishment_period = 20\<rparr>) 100)
      = Some (True, (for_policy (Budgeted \<lparr>capacity = 5, replenishment_period = 20\<rparr>) 100)
          \<lparr>replenishes_at := at, remaining := 5\<rparr>)
    \<and> 1000 < at \<and> at mod 20 = 120 mod 20 \<and> (\<forall>t. 1000 < t \<and> t mod 20 = 120 mod 20 \<longrightarrow> at \<le> t)"
  using replenish_keeps_phase [of "for_policy (Budgeted \<lparr>capacity = 5, replenishment_period = 20\<rparr>) 100"
      "\<lparr>capacity = 5, replenishment_period = 20\<rparr>" 1000]
  by (simp add: for_policy_def budget_inv_def spec_ok_def nonzero_u32_def sat_add_def)

text \<open>
  C36. The boundary-by-boundary loop of \<open>throttle_after_lock_overrun\<close> always ends, and it ends on
  the boundary that the division of \<open>replenish_if_due\<close> computes for the same quota: the two
  replenishment paths agree, also where the deadline saturates.
\<close>

theorem throttle_loop_equals_division:
  assumes "budget_inv b" "spec b = Some sp" "lock_overrun_pending b"
    and "replenishes_at b \<le> now" "now \<le> U64_MAX"
  shows "\<exists>b'. replenish_if_due now (b\<lparr>lock_overrun_pending := False\<rparr>) = Some (True, b')
    \<and> fst (throttle_after_lock_overrun now b) = Some (replenishes_at b')
    \<and> remaining (snd (throttle_after_lock_overrun now b)) = 0"
proof -
  have p: "0 < replenishment_period sp" and r: "replenishes_at b \<le> U64_MAX"
    using assms(1,2) spec_ok_pos by (auto simp: budget_inv_Some)
  have "budget_inv (b\<lparr>lock_overrun_pending := False\<rparr>)"
    using assms(1,2) by (simp add: budget_inv_Some)
  from replenish_if_due_cases [OF this assms(5)] assms(2-4) show ?thesis
    by (simp add: throttle_after_lock_overrun_def Let_def advance_boundary_closed [OF p r])
qed

theorem throttle_loop_equals_division_witness:
  "\<exists>b'. replenish_if_due 145 ((\<lparr>spec = Some \<lparr>capacity = 5, replenishment_period = 20\<rparr>,
        remaining = 0, replenishes_at = 120, running_since = None, lock_overrun_pending = True\<rparr>)
        \<lparr>lock_overrun_pending := False\<rparr>) = Some (True, b')
    \<and> fst (throttle_after_lock_overrun 145 \<lparr>spec = Some \<lparr>capacity = 5, replenishment_period = 20\<rparr>,
        remaining = 0, replenishes_at = 120, running_since = None, lock_overrun_pending = True\<rparr>)
      = Some (replenishes_at b')"
  using throttle_loop_equals_division [of
      "\<lparr>spec = Some \<lparr>capacity = 5, replenishment_period = 20\<rparr>, remaining = 0, replenishes_at = 120,
        running_since = None, lock_overrun_pending = True\<rparr>"
      "\<lparr>capacity = 5, replenishment_period = 20\<rparr>" 145]
  by (auto simp: budget_inv_def spec_ok_def nonzero_u32_def)

text \<open>A task that is dispatched and switched out repeatedly, and how long it ran in all.\<close>

fun run_intervals :: "(nat \<times> nat) list \<Rightarrow> budget_state \<Rightarrow> budget_state option" where
  "run_intervals [] b = Some b"
| "run_intervals ((start, stop) # is) b =
     do { b \<leftarrow> budget_on_dispatch start b; run_intervals is (budget_on_switch_out stop b) }"

definition total_runtime :: "(nat \<times> nat) list \<Rightarrow> nat" where
  "total_runtime is = sum_list (map (\<lambda>(start, stop). stop - start) is)"

lemma interval_charge:
  assumes "budget_inv b" "spec b = Some sp" "start < replenishes_at b" "start \<le> U64_MAX"
  shows "\<exists>b1. budget_on_dispatch start b = Some b1
    \<and> budget_inv (budget_on_switch_out stop b1)
    \<and> spec (budget_on_switch_out stop b1) = Some sp
    \<and> replenishes_at (budget_on_switch_out stop b1) = replenishes_at b
    \<and> remaining (budget_on_switch_out stop b1) = remaining b - (stop - start)"
proof -
  let ?b1 = "b\<lparr>running_since := Some start\<rparr>"
  have d: "budget_on_dispatch start b = Some ?b1"
    using assms by (simp add: budget_on_dispatch_def replenish_if_due_cases)
  have "remaining b \<le> U32_MAX"
    using assms(1,2) spec_ok_bounds [of sp] by (simp add: budget_inv_Some)
  then have "remaining b - min (stop - start) U32_MAX = remaining b - (stop - start)"
    by (simp add: min_def)
  moreover have "budget_inv (budget_on_switch_out stop ?b1)"
    using assms(1,2) by (simp add: budget_on_switch_out_inv)
  ultimately show ?thesis
    using d assms(2) by (simp add: budget_on_switch_out_def charge_until_def)
qed

text \<open>
  C22. Between two boundaries the whole wall time a budgeted task spends dispatched is charged and
  nothing is refunded by yielding, blocking or sleeping: after any number of runs that start
  before the boundary, the remaining budget is the old one less the total runtime, or zero.
\<close>

theorem runtime_is_charged:
  assumes "budget_inv b" "spec b = Some sp"
    and "\<forall>(start, stop) \<in> set is. start < replenishes_at b"
  shows "\<exists>b'. run_intervals is b = Some b' \<and> remaining b' = remaining b - total_runtime is
    \<and> replenishes_at b' = replenishes_at b"
  using assms
proof (induction "is" arbitrary: b)
  case Nil
  then show ?case by (simp add: total_runtime_def)
next
  case (Cons i "is")
  obtain start stop where i: "i = (start, stop)" by force
  have "start \<le> U64_MAX" "start < replenishes_at b"
    using Cons.prems i by (auto simp: budget_inv_Some)
  from interval_charge [OF Cons.prems(1,2) this(2,1), of stop] obtain b1 where
    b1: "budget_on_dispatch start b = Some b1" "budget_inv (budget_on_switch_out stop b1)"
      "spec (budget_on_switch_out stop b1) = Some sp"
      "replenishes_at (budget_on_switch_out stop b1) = replenishes_at b"
      "remaining (budget_on_switch_out stop b1) = remaining b - (stop - start)"
    by blast
  from Cons.IH [OF b1(2,3)] b1(4) Cons.prems(3) obtain b' where
    "run_intervals is (budget_on_switch_out stop b1) = Some b'"
    "remaining b' = remaining b - (stop - start) - total_runtime is"
    "replenishes_at b' = replenishes_at b"
    using b1(5) by auto
  with b1(1) i show ?case by (simp add: total_runtime_def)
qed

theorem runtime_is_charged_witness:
  "\<exists>b'. run_intervals [(102, 104), (110, 111)]
        (for_policy (Budgeted \<lparr>capacity = 5, replenishment_period = 20\<rparr>) 100) = Some b'
      \<and> remaining b' = 5 - total_runtime [(102, 104), (110, 111)]
      \<and> replenishes_at b' = 120"
  using runtime_is_charged [of "for_policy (Budgeted \<lparr>capacity = 5, replenishment_period = 20\<rparr>) 100"
      "\<lparr>capacity = 5, replenishment_period = 20\<rparr>" "[(102, 104), (110, 111)]"]
  by (simp add: for_policy_def budget_inv_def spec_ok_def nonzero_u32_def sat_add_def)

lemma pending_step:
  assumes "budget_inv b" "lock_overrun_pending b" "budget_op_time e \<le> U64_MAX"
    and "\<nexists>t. e = ThrottleAfterLock t" "budget_step e b = Some b'"
  shows "lock_overrun_pending b'"
proof -
  from assms(1,2) obtain sp where "spec b = Some sp"
    by (cases "spec b") auto
  with assms show ?thesis
    by (cases e) (auto simp: budget_on_dispatch_def budget_on_switch_out_def budget_on_timer_def
        Let_def replenish_if_due_cases)
qed

lemma pending_run:
  assumes "budget_inv b" "lock_overrun_pending b"
    and "\<forall>e \<in> set es. budget_op_time e \<le> U64_MAX \<and> (\<nexists>t. e = ThrottleAfterLock t)"
    and "budget_run es b = Some b'"
  shows "lock_overrun_pending b' \<and> budget_inv b' \<and> spec b' = spec b"
  using assms
proof (induction es arbitrary: b)
  case Nil
  then show ?case by simp
next
  case (Cons e es)
  have e: "budget_op_time e \<le> U64_MAX" "\<nexists>t. e = ThrottleAfterLock t"
    using Cons.prems(3) by auto
  from Cons.prems(1) e(1) obtain b1 where
    b1: "budget_step e b = Some b1" "budget_inv b1" "spec b1 = spec b"
    by (rule budget_step_inv)
  have "lock_overrun_pending b1"
    using pending_step [OF Cons.prems(1,2) e b1(1)] .
  with Cons.IH [OF b1(2)] Cons.prems(3,4) b1(1,3) show ?case by simp
qed

text \<open>
  C35. A scheduler lock cannot erase an exhaustion: once the quota ran out under the lock, every
  sequence of dispatches, switches, timer ticks and replenishment attempts leaves the task with
  no budget, and the throttle at the outermost unlock makes it ineligible for the rest of the
  period in which it unlocks.
\<close>

theorem lock_cannot_erase_exhaustion:
  assumes "budget_inv b" "spec b = Some sp" "lock_overrun_pending b"
    and "\<forall>e \<in> set es. budget_op_time e \<le> U64_MAX \<and> (\<nexists>t. e = ThrottleAfterLock t)"
    and "budget_run es b = Some b'" "now + replenishment_period sp \<le> U64_MAX"
    and "throttle_after_lock_overrun now b' = (wake, b'')"
  shows "remaining b' = 0 \<and> remaining b'' = 0
    \<and> (\<exists>at > now. wake = Some at \<and> (\<forall>t < at. replenish_if_due t b'' = Some (False, b'')))"
proof -
  have b': "lock_overrun_pending b'" "budget_inv b'" "spec b' = Some sp"
    using pending_run [OF assms(1,3-5)] assms(2) by auto
  then have p: "0 < replenishment_period sp" and r: "replenishes_at b' \<le> U64_MAX" "remaining b' = 0"
    using spec_ok_pos by (auto simp: budget_inv_Some)
  let ?at = "next_boundary now (replenishment_period sp) (replenishes_at b')"
  have "now < ?at"
  proof (cases "replenishes_at b' \<le> now")
    case True
    from next_boundary_bounds(1) [OF p True assms(6)] show ?thesis .
  next
    case False
    then show ?thesis by (simp add: next_boundary_def)
  qed
  moreover have "wake = Some ?at" "remaining b'' = 0"
    and "\<forall>t < ?at. replenish_if_due t b'' = Some (False, b'')"
    using assms(7) b'(1,3)
    by (auto simp: throttle_after_lock_overrun_def Let_def advance_boundary_closed [OF p r(1)]
        replenish_if_due_def)
  ultimately show ?thesis using r(2) by blast
qed

theorem lock_cannot_erase_exhaustion_witness:
  "\<exists>at > 145. fst (throttle_after_lock_overrun 145
      \<lparr>spec = Some \<lparr>capacity = 5, replenishment_period = 20\<rparr>, remaining = 0, replenishes_at = 120,
        running_since = None, lock_overrun_pending = True\<rparr>) = Some at"
proof -
  let ?b = "\<lparr>spec = Some \<lparr>capacity = 5, replenishment_period = 20\<rparr>, remaining = 0,
    replenishes_at = 120, running_since = None, lock_overrun_pending = True\<rparr>"
  have run: "budget_run [ReplenishIfDue 145] ?b = Some ?b"
    by (simp add: replenish_if_due_def)
  obtain wake b'' where th: "throttle_after_lock_overrun 145 ?b = (wake, b'')" by force
  have "budget_inv ?b" by (simp add: budget_inv_def spec_ok_def nonzero_u32_def)
  from lock_cannot_erase_exhaustion [OF this _ _ _ run _ th] th show ?thesis by auto
qed

end
