(* ===== verification/Config.thy ===== *)
theory Config
  imports Budget
begin

text \<open>
  Constants, configuration and diagnostics types of \<open>config.rs\<close>, with the constants of
  \<open>runtime.rs\<close> that fix the shape of the scheduler tables. A counter of \<open>Diagnostics\<close> is a
  \<^typ>\<open>nat\<close>; its saturation at the width of its type is written at the operations that count.
\<close>

subsection \<open>Table sizes and sentinels\<close>

definition ADOPTED_MAIN_TASKS :: nat where "ADOPTED_MAIN_TASKS = 1"
definition INTERNAL_IDLE_TASKS :: nat where "INTERNAL_IDLE_TASKS = 1"
definition DYNAMIC_TASK_CAPACITY :: nat where "DYNAMIC_TASK_CAPACITY = 15"
definition NO_READY_QUEUE_BUCKET :: nat where "NO_READY_QUEUE_BUCKET = U8_MAX"

definition TASK_SLOT_COUNT :: nat where
  "TASK_SLOT_COUNT = ADOPTED_MAIN_TASKS + INTERNAL_IDLE_TASKS + DYNAMIC_TASK_CAPACITY"

text \<open>
  \<open>PRIORITY_LEVELS\<close> is \<open>TASK_PRIORITY_LEVELS\<close> of the contract: priorities run from 0, the
  highest, to 31, the lowest.
\<close>

definition PRIORITY_LEVELS :: nat where "PRIORITY_LEVELS = 32"
definition IDLE_SLOT :: nat where "IDLE_SLOT = 1"
definition IDLE_STACK_SIZE :: nat where "IDLE_STACK_SIZE = 2048"
definition NIL :: nat where "NIL = USIZE_MAX"
definition NO_TIMESTAMP :: nat where "NO_TIMESTAMP = U64_MAX"

lemma TASK_SLOT_COUNT_eq: "TASK_SLOT_COUNT = 17"
  by (simp add: TASK_SLOT_COUNT_def ADOPTED_MAIN_TASKS_def INTERNAL_IDLE_TASKS_def
      DYNAMIC_TASK_CAPACITY_def)

lemma NIL_out_of_table [simp]: "\<not> NIL < TASK_SLOT_COUNT" "IDLE_SLOT < TASK_SLOT_COUNT"
  by (simp_all add: NIL_def TASK_SLOT_COUNT_eq IDLE_SLOT_def)

lemma slot_not_NIL: "i < TASK_SLOT_COUNT \<Longrightarrow> i \<noteq> NIL"
  by (auto simp: NIL_def TASK_SLOT_COUNT_eq)

lemmas table_sizes = TASK_SLOT_COUNT_eq DYNAMIC_TASK_CAPACITY_def PRIORITY_LEVELS_def IDLE_SLOT_def
  NIL_def NO_TIMESTAMP_def ADOPTED_MAIN_TASKS_def INTERNAL_IDLE_TASKS_def NO_READY_QUEUE_BUCKET_def

subsection \<open>Contract violations and configuration\<close>

datatype contract_violation =
  SchedulerLockOverrun (task_slot: nat) (held_ms: nat) (limit_ms: nat)

record cooperative_config =
  cc_minimum_stack_size :: nat

record ported_config =
  pc_minimum_stack_size :: nat
  pc_radio_task_policy :: run_policy
  pc_max_scheduler_lock_duration :: nat

definition cooperative_config_default :: cooperative_config where
  "cooperative_config_default = \<lparr>cc_minimum_stack_size = 24 * 1024\<rparr>"

definition ported_config_default :: ported_config where
  "ported_config_default = \<lparr>
     pc_minimum_stack_size = cc_minimum_stack_size cooperative_config_default,
     pc_radio_task_policy = Cooperative,
     pc_max_scheduler_lock_duration = 100\<rparr>"

datatype start_error = AlreadyStarted | DriverFailure driver_error

subsection \<open>Diagnostics\<close>

record diagnostics =
  d_context_switches :: nat
  d_irq_preemptions :: nat
  d_timer_interrupts :: nat
  d_software_interrupts :: nat
  d_switch_race_recoveries :: nat
  d_switch_intents_created :: nat
  d_switch_intents_committed :: nat
  d_switch_intents_cancelled_stale :: nat
  d_switch_intents_cancelled_identity :: nat
  d_switch_intents_completed :: nat
  d_detached_pending_priority_mutations :: nat
  d_detached_pending_policy_mutations :: nat
  d_ready_ownership_violations :: nat
  d_ready_queue_duplicate_memberships :: nat
  d_ready_queue_wrong_priorities :: nat
  d_ready_queue_invalid_links :: nat
  d_time_slice_preemptions :: nat
  d_priority_inheritances :: nat
  d_yields :: nat
  d_sleeps :: nat
  d_sleeper_wakes :: nat
  d_semaphore_blocks :: nat
  d_semaphore_wakes :: nat
  d_semaphore_timeouts :: nat
  d_scheduler_locks :: nat
  d_scheduler_lock_overruns :: nat
  d_budget_exhaustions :: nat
  d_budget_throttles :: nat
  d_budget_replenishments :: nat
  d_budget_lock_overruns :: nat
  d_current_task :: nat
  d_ready_tasks :: nat
  d_blocked_tasks :: nat
  d_sleeping_tasks :: nat
  d_throttled_tasks :: nat
  d_internal_tasks :: nat
  d_dynamic_capacity :: nat
  d_dynamic_used :: nat
  d_dynamic_reserved :: nat
  d_dynamic_free :: nat
  d_current_lock_depth :: nat

definition diagnostics_EMPTY :: diagnostics where
  "diagnostics_EMPTY = \<lparr>
     d_context_switches = 0,
     d_irq_preemptions = 0,
     d_timer_interrupts = 0,
     d_software_interrupts = 0,
     d_switch_race_recoveries = 0,
     d_switch_intents_created = 0,
     d_switch_intents_committed = 0,
     d_switch_intents_cancelled_stale = 0,
     d_switch_intents_cancelled_identity = 0,
     d_switch_intents_completed = 0,
     d_detached_pending_priority_mutations = 0,
     d_detached_pending_policy_mutations = 0,
     d_ready_ownership_violations = 0,
     d_ready_queue_duplicate_memberships = 0,
     d_ready_queue_wrong_priorities = 0,
     d_ready_queue_invalid_links = 0,
     d_time_slice_preemptions = 0,
     d_priority_inheritances = 0,
     d_yields = 0,
     d_sleeps = 0,
     d_sleeper_wakes = 0,
     d_semaphore_blocks = 0,
     d_semaphore_wakes = 0,
     d_semaphore_timeouts = 0,
     d_scheduler_locks = 0,
     d_scheduler_lock_overruns = 0,
     d_budget_exhaustions = 0,
     d_budget_throttles = 0,
     d_budget_replenishments = 0,
     d_budget_lock_overruns = 0,
     d_current_task = 0,
     d_ready_tasks = 0,
     d_blocked_tasks = 0,
     d_sleeping_tasks = 0,
     d_throttled_tasks = 0,
     d_internal_tasks = ADOPTED_MAIN_TASKS + INTERNAL_IDLE_TASKS,
     d_dynamic_capacity = DYNAMIC_TASK_CAPACITY,
     d_dynamic_used = 0,
     d_dynamic_reserved = 0,
     d_dynamic_free = DYNAMIC_TASK_CAPACITY,
     d_current_lock_depth = 0\<rparr>"

datatype task_state = TFree | TReady | TRunning | TBlocked | TSleeping | TThrottled

record task_diagnostic =
  td_task :: nat
  td_generation :: "16 word"
  td_state :: task_state
  td_ready_queued :: bool
  td_pending_switch_target :: bool
  td_ready_queue_bucket :: nat
  td_ready_queue_memberships :: nat
  td_entry :: nat
  td_stack_size :: nat
  td_waiting_sem :: nat
  td_waiting_mutex :: nat
  td_wake_at :: nat
  td_base_priority :: nat
  td_priority :: nat
  td_scheduler_lock_depth :: nat
  td_run_policy :: run_policy
  td_budget_remaining :: nat
  td_budget_replenishes_at :: nat
  td_cpu_time_ms :: nat
  td_irq_time_ms :: nat
  td_dispatches :: nat
  td_budget_exhaustions :: nat
  td_max_continuous_run_ms :: nat
  td_max_ready_latency_ms :: nat
  td_scheduler_lock_entries :: nat
  td_max_scheduler_lock_ms :: nat
  td_irq_entries :: nat
  td_max_irq_span_ms :: nat

end
