(* ===== verification/Handles.thy ===== *)
theory Handles
  imports Config
begin

text \<open>
  Generation-bearing identities: the \<open>TaskId\<close> encoding of \<open>runtime.rs\<close> and the resource handle
  registry of \<open>resource.rs\<close>. Both pack a slot and a generation into one 32-bit word; the
  locale \<open>slot_codec\<close> states what such an encoding promises, the locale \<open>registry\<close> what the
  table behind the handles promises to the driver.
\<close>

unbundle bit_operations_syntax

subsection \<open>Packing a slot below a generation\<close>

definition pack8 :: "32 word \<Rightarrow> 32 word \<Rightarrow> 32 word" where
  "pack8 hi lo = (push_bit 8 hi OR lo)"

lemma pack8_low:
  assumes "take_bit 8 lo = lo"
  shows "pack8 hi lo AND 255 = lo"
proof -
  have "pack8 hi lo AND 255 = take_bit 8 (pack8 hi lo)"
    by (simp add: take_bit_eq_mask mask_eq_exp_minus_1)
  also have "\<dots> = take_bit 8 lo"
    by (rule bit_word_eqI) (auto simp: pack8_def bit_simps)
  finally show ?thesis using assms by simp
qed

lemma pack8_high:
  assumes "take_bit 8 lo = lo" "take_bit 24 hi = hi"
  shows "drop_bit 8 (pack8 hi lo) = hi"
proof (rule bit_word_eqI)
  fix n
  assume "n < LENGTH(32)"
  have lo: "\<not> bit lo (8 + n)" using assms(1) by (metis bit_take_bit_iff not_add_less1)
  show "bit (drop_bit 8 (pack8 hi lo)) n = bit hi n"
  proof (cases "n < 24")
    case True
    with lo show ?thesis by (simp add: pack8_def bit_simps)
  next
    case False
    then have "\<not> bit hi n" using assms(2) by (metis bit_take_bit_iff)
    with False lo show ?thesis by (simp add: pack8_def bit_simps)
  qed
qed

lemma pack8_split: "pack8 (drop_bit 8 w) (w AND 255) = w"
proof -
  have "w AND 255 = take_bit 8 w" by (simp add: take_bit_eq_mask mask_eq_exp_minus_1)
  then show ?thesis
    unfolding pack8_def
    by (intro bit_word_eqI) (auto simp: bit_simps)
qed

lemma take_bit_of_small: "n < 256 \<Longrightarrow> take_bit 8 (of_nat n :: 32 word) = of_nat n"
  by (simp add: take_bit_of_nat take_bit_nat_eq_self)

lemma take_bit_ucast16: "take_bit 24 (ucast (g :: 16 word) :: 32 word) = ucast g"
  by (rule bit_word_eqI) (auto simp: bit_simps dest: bit_imp_le_length)

lemma unat_of_small: "n < 256 \<Longrightarrow> unat (of_nat n :: 32 word) = n"
  by (simp add: unat_of_nat)

lemma unat_low: "unat (w AND 255 :: 32 word) < 256"
proof -
  have "unat (w AND 255) \<le> unat (255 :: 32 word)"
    by (rule word_and_le1 [THEN word_le_nat_alt [THEN iffD1]])
  then show ?thesis by simp
qed

lemma unat_high: "unat (drop_bit 8 w :: 32 word) < 2 ^ 24"
  using unsigned_less [of w, where ?'a = nat] by (simp add: drop_bit_eq_div unat_div_distrib less_mult_imp_div_less)

lemma ucast_roundtrip:
  assumes "unat (w :: 32 word) < 65536"
  shows "ucast (ucast w :: 16 word) = w"
proof (rule bit_word_eqI)
  fix n
  assume "n < LENGTH(32)"
  have "take_bit 16 (unat w) = unat w" using assms by (simp add: take_bit_nat_eq_self)
  then have "bit (unat w) n \<Longrightarrow> n < 16" by (metis bit_take_bit_iff)
  then show "bit (ucast (ucast w :: 16 word) :: 32 word) n = bit w n"
    using \<open>n < LENGTH(32)\<close> by (auto simp: bit_simps bit_unsigned_iff)
qed

subsection \<open>The contract of an identity encoding\<close>

text \<open>
  An encoding accepts the valid pairs, decoding inverts it, and a word that decodes is the encoding
  of what it decodes to: no two words name the same slot and generation.
\<close>

locale slot_codec =
  fixes encode :: "nat \<Rightarrow> 'g \<Rightarrow> 'w res"
    and decode :: "'w \<Rightarrow> (nat \<times> 'g) res"
    and valid :: "nat \<Rightarrow> 'g \<Rightarrow> bool"
  assumes encode_valid: "valid slot g \<Longrightarrow> \<exists>w. encode slot g = Inr w \<and> decode w = Inr (slot, g)"
    and decode_valid: "decode w = Inr (slot, g) \<Longrightarrow> valid slot g \<and> encode slot g = Inr w"
begin

lemma decode_iff: "decode w = Inr (slot, g) \<longleftrightarrow> valid slot g \<and> encode slot g = Inr w"
  using encode_valid [of slot g] decode_valid [of w slot g] by auto

lemma encode_inj:
  "valid slot g \<Longrightarrow> valid slot' g' \<Longrightarrow> encode slot g = encode slot' g' \<Longrightarrow> slot = slot' \<and> g = g'"
  using encode_valid [of slot g] encode_valid [of slot' g'] by auto

end

subsection \<open>Task identities\<close>

definition TASK_SLOT_BITS :: nat where "TASK_SLOT_BITS = 8"
definition TASK_SLOT_MASK :: "32 word" where "TASK_SLOT_MASK = push_bit TASK_SLOT_BITS 1 - 1"

lemma TASK_SLOT_MASK_eq: "TASK_SLOT_MASK = 255"
  by (simp add: TASK_SLOT_MASK_def TASK_SLOT_BITS_def push_bit_eq_mult)

definition encode_task_id :: "nat \<Rightarrow> 16 word \<Rightarrow> (32 word) res" where
  "encode_task_id slot generation =
     (if slot \<ge> TASK_SLOT_COUNT \<or> slot > unat TASK_SLOT_MASK \<or> generation = 0
      then Inl InvalidHandle
      else if slot > U32_MAX then Inl RuntimeError
      else Inr (push_bit TASK_SLOT_BITS (ucast generation) OR of_nat slot))"

text \<open>\<open>u16::try_from\<close> fails where the generation field does not fit 16 bits.\<close>

definition decode_task_id :: "32 word \<Rightarrow> (nat \<times> 16 word) res" where
  "decode_task_id raw =
     (let slot = unat (raw AND TASK_SLOT_MASK);
          generation = drop_bit TASK_SLOT_BITS raw
      in if unat generation > U16_MAX then Inl InvalidHandle
         else if slot \<ge> TASK_SLOT_COUNT \<or> ucast generation = (0 :: 16 word)
         then Inl InvalidHandle
         else Inr (slot, ucast generation))"

definition task_id_valid :: "nat \<Rightarrow> 16 word \<Rightarrow> bool" where
  "task_id_valid slot generation \<longleftrightarrow> slot < TASK_SLOT_COUNT \<and> generation \<noteq> 0"

lemma encode_task_id_pack:
  "task_id_valid slot g \<Longrightarrow> encode_task_id slot g = Inr (pack8 (ucast g) (of_nat slot))"
  by (simp add: task_id_valid_def encode_task_id_def TASK_SLOT_MASK_eq TASK_SLOT_COUNT_eq
      TASK_SLOT_BITS_def pack8_def)

lemma decode_task_id_pack:
  assumes "task_id_valid slot g"
  shows "decode_task_id (pack8 (ucast g) (of_nat slot)) = Inr (slot, g)"
proof -
  have slot: "slot < 256" "slot < TASK_SLOT_COUNT" and g: "g \<noteq> 0"
    using assms by (auto simp: task_id_valid_def TASK_SLOT_COUNT_eq)
  have hi: "drop_bit 8 (pack8 (ucast g) (of_nat slot)) = (ucast g :: 32 word)"
    using slot(1) by (simp add: pack8_high take_bit_of_small take_bit_ucast16)
  have lo: "unat (pack8 (ucast g) (of_nat slot) AND 255) = slot"
    using slot(1) by (simp add: pack8_low take_bit_of_small unat_of_small)
  have "unat (ucast g :: 32 word) < 65536"
    using unsigned_less [of g, where ?'a = nat] by (simp add: unsigned_ucast_eq take_bit_nat_eq_self)
  moreover have "ucast (ucast g :: 32 word) = g"
    by (rule bit_word_eqI) (auto simp: bit_simps dest: bit_imp_le_length)
  ultimately show ?thesis
    using slot g hi lo by (simp add: decode_task_id_def Let_def TASK_SLOT_BITS_def TASK_SLOT_MASK_eq)
qed

lemma decode_task_id_InrD:
  assumes "decode_task_id raw = Inr (slot, g)"
  shows "task_id_valid slot g \<and> raw = pack8 (ucast g) (of_nat slot)"
proof -
  have *: "unat (drop_bit 8 raw) < 65536" "slot = unat (raw AND 255)" "slot < TASK_SLOT_COUNT"
    "g = ucast (drop_bit 8 raw)" "g \<noteq> 0"
    using assms by (auto simp: decode_task_id_def Let_def TASK_SLOT_BITS_def TASK_SLOT_MASK_eq
        split: if_splits)
  have "pack8 (ucast g) (of_nat slot) = pack8 (drop_bit 8 raw) (raw AND 255)"
    using * by (simp add: ucast_roundtrip)
  with * show ?thesis by (simp add: task_id_valid_def pack8_split)
qed

interpretation task_id: slot_codec encode_task_id decode_task_id task_id_valid
proof unfold_locales
  fix slot g
  assume "task_id_valid slot g"
  then show "\<exists>w. encode_task_id slot g = Inr w \<and> decode_task_id w = Inr (slot, g)"
    by (simp add: encode_task_id_pack decode_task_id_pack)
next
  fix w slot g
  assume "decode_task_id w = Inr (slot, g)"
  from decode_task_id_InrD [OF this]
  show "task_id_valid slot g \<and> encode_task_id slot g = Inr w"
    by (simp add: encode_task_id_pack)
qed

subsection \<open>Resource handles\<close>

definition HANDLE_SLOT_BITS :: nat where "HANDLE_SLOT_BITS = 8"
definition HANDLE_SLOT_MASK :: "32 word" where "HANDLE_SLOT_MASK = push_bit HANDLE_SLOT_BITS 1 - 1"
definition HANDLE_GENERATION_MAX :: "32 word" where
  "HANDLE_GENERATION_MAX = drop_bit HANDLE_SLOT_BITS (- 1)"
definition RESOURCE_HANDLE_CAPACITY :: nat where "RESOURCE_HANDLE_CAPACITY = 32"

lemma handle_constants:
  "HANDLE_SLOT_MASK = 255" "HANDLE_GENERATION_MAX = 0xFFFFFF" "unat HANDLE_GENERATION_MAX = 0xFFFFFF"
  by (simp_all add: HANDLE_SLOT_MASK_def HANDLE_GENERATION_MAX_def HANDLE_SLOT_BITS_def
      push_bit_eq_mult drop_bit_eq_div)

datatype resource_kind = KSemaphore | KMutex

record resource_slot =
  rs_pointer :: nat
  rs_generation :: "32 word"
  rs_kind :: resource_kind

type_synonym resource_table = "resource_slot list"

definition resource_slot_EMPTY :: resource_slot where
  "resource_slot_EMPTY = \<lparr>rs_pointer = 0, rs_generation = 0, rs_kind = KSemaphore\<rparr>"

text \<open>\<open>ResourceTable::<N>::new\<close> asserts that every slot index can be encoded.\<close>

definition resource_table_new :: "nat \<Rightarrow> resource_table option" where
  "resource_table_new n = do {
     assert_that (n > 0 \<and> n \<le> unat HANDLE_SLOT_MASK);
     Some (replicate n resource_slot_EMPTY)
   }"

definition next_generation :: "32 word \<Rightarrow> 32 word" where
  "next_generation current =
     (if current = 0 \<or> current = HANDLE_GENERATION_MAX then 1 else current + 1)"

definition encode_handle :: "nat \<Rightarrow> 32 word \<Rightarrow> (32 word) res" where
  "encode_handle slot generation =
     (if slot \<ge> unat HANDLE_SLOT_MASK \<or> generation = 0 \<or> generation > HANDLE_GENERATION_MAX
      then Inl RuntimeError
      else let raw = push_bit HANDLE_SLOT_BITS generation OR of_nat (slot + 1)
        in if raw = 0 then Inl RuntimeError else Inr raw)"

definition decode_handle :: "nat \<Rightarrow> 32 word \<Rightarrow> (nat \<times> 32 word) res" where
  "decode_handle n raw =
     (let encoded_slot = unat (raw AND HANDLE_SLOT_MASK);
          generation = drop_bit HANDLE_SLOT_BITS raw
      in if encoded_slot = 0 \<or> encoded_slot > n \<or> generation = 0 then Inl InvalidHandle
         else Inr (encoded_slot - 1, generation))"

definition resource_insert ::
  "nat \<Rightarrow> resource_kind \<Rightarrow> resource_table \<Rightarrow> (32 word) res \<times> resource_table" where
  "resource_insert pointer kind table =
     (case position (\<lambda>entry. rs_pointer entry = 0) table of
        None \<Rightarrow> (Inl ResourceExhausted, table)
      | Some slot \<Rightarrow>
          let generation = next_generation (rs_generation (table ! slot))
          in (encode_handle slot generation,
              table[slot := \<lparr>rs_pointer = pointer, rs_generation = generation, rs_kind = kind\<rparr>]))"

definition resource_resolve :: "32 word \<Rightarrow> resource_kind \<Rightarrow> resource_table \<Rightarrow> nat res" where
  "resource_resolve handle kind table =
     (case decode_handle (length table) handle of
        Inl e \<Rightarrow> Inl e
      | Inr (slot, generation) \<Rightarrow>
          let entry = table ! slot
          in if rs_pointer entry = 0 \<or> rs_generation entry \<noteq> generation \<or> rs_kind entry \<noteq> kind
             then Inl InvalidHandle
             else Inr (rs_pointer entry))"

definition resource_remove ::
  "32 word \<Rightarrow> resource_kind \<Rightarrow> resource_table \<Rightarrow> nat res \<times> resource_table" where
  "resource_remove handle kind table =
     (case resource_resolve handle kind table of
        Inl e \<Rightarrow> (Inl e, table)
      | Inr pointer \<Rightarrow>
          (case decode_handle (length table) handle of
             Inl e \<Rightarrow> (Inl e, table)
           | Inr (slot, _) \<Rightarrow> (Inr pointer, table[slot := (table ! slot)\<lparr>rs_pointer := 0\<rparr>])))"

lemmas resource_op_defs = resource_insert_def resource_resolve_def resource_remove_def

subsection \<open>The handle encoding keeps its contract\<close>

definition handle_valid :: "nat \<Rightarrow> nat \<Rightarrow> 32 word \<Rightarrow> bool" where
  "handle_valid n slot g \<longleftrightarrow> slot < n \<and> g \<noteq> 0 \<and> g \<le> HANDLE_GENERATION_MAX"

text \<open>The word of a slot and a generation; slots are counted from one.\<close>

definition slot_handle :: "nat \<Rightarrow> 32 word \<Rightarrow> 32 word" where
  "slot_handle slot g = pack8 g (of_nat (slot + 1))"

lemma handle_generation_fits:
  assumes "g \<le> HANDLE_GENERATION_MAX"
  shows "take_bit 24 g = g"
proof -
  have "unat g \<le> 0xFFFFFF" using assms handle_constants by (simp add: word_le_nat_alt)
  then have "drop_bit 24 g = 0"
    by (simp add: drop_bit_eq_div word_unat_eq_iff unat_div_distrib)
  then show ?thesis by (simp add: take_bit_eq_self_iff_drop_bit_eq_0)
qed

lemma handle_high_le: "drop_bit 8 w \<le> HANDLE_GENERATION_MAX"
  using unat_high [of w] handle_constants by (simp add: word_le_nat_alt)

lemma encode_handle_pack:
  assumes "handle_valid n slot g" "n \<le> 255"
  shows "encode_handle slot g = Inr (slot_handle slot g)"
proof -
  have slot: "slot < 255" and g: "g \<noteq> 0" "g \<le> HANDLE_GENERATION_MAX"
    using assms by (auto simp: handle_valid_def)
  have "slot_handle slot g AND 255 = of_nat (slot + 1)"
    unfolding slot_handle_def using slot by (intro pack8_low take_bit_of_small) simp
  moreover have "unat (of_nat (slot + 1) :: 32 word) = slot + 1"
    using slot by (intro unat_of_small) simp
  ultimately have "slot_handle slot g \<noteq> 0" by (auto simp del: of_nat_Suc of_nat_add)
  with slot g show ?thesis
    by (simp add: encode_handle_def handle_constants HANDLE_SLOT_BITS_def slot_handle_def pack8_def
        Let_def)
qed

lemma decode_handle_pack:
  assumes "handle_valid n slot g" "n \<le> 255"
  shows "decode_handle n (slot_handle slot g) = Inr (slot, g)"
proof -
  have slot: "slot < n" "slot + 1 < 256" and g: "g \<noteq> 0" "g \<le> HANDLE_GENERATION_MAX"
    using assms by (auto simp: handle_valid_def)
  note lo = pack8_low [OF take_bit_of_small [OF slot(2)], of g]
  note hi = pack8_high [OF take_bit_of_small [OF slot(2)] handle_generation_fits [OF g(2)]]
  from unat_of_small [OF slot(2)] slot(1) g(1) show ?thesis
    unfolding decode_handle_def Let_def handle_constants HANDLE_SLOT_BITS_def slot_handle_def lo hi
    by simp
qed

lemma decode_handle_InrD:
  assumes "decode_handle n w = Inr (slot, g)"
  shows "handle_valid n slot g \<and> w = slot_handle slot g"
proof -
  have *: "slot + 1 = unat (w AND 255)" "slot < n" "g = drop_bit 8 w" "g \<noteq> 0"
    using assms by (auto simp: decode_handle_def Let_def handle_constants HANDLE_SLOT_BITS_def
        split: if_splits)
  have "slot_handle slot g = w"
    unfolding slot_handle_def *(1,3) by (simp add: pack8_split)
  with * handle_high_le [of w] show ?thesis by (simp add: handle_valid_def)
qed

lemma handle_codec:
  assumes "n \<le> 255"
  shows "slot_codec encode_handle (decode_handle n) (handle_valid n)"
proof unfold_locales
  fix slot g
  assume "handle_valid n slot g"
  then show "\<exists>w. encode_handle slot g = Inr w \<and> decode_handle n w = Inr (slot, g)"
    using assms by (metis encode_handle_pack decode_handle_pack)
next
  fix w slot g
  assume "decode_handle n w = Inr (slot, g)"
  from decode_handle_InrD [OF this] show "handle_valid n slot g \<and> encode_handle slot g = Inr w"
    using assms by (metis encode_handle_pack)
qed

interpretation handle_id: slot_codec encode_handle "decode_handle RESOURCE_HANDLE_CAPACITY"
  "handle_valid RESOURCE_HANDLE_CAPACITY"
  by (rule handle_codec) (simp add: RESOURCE_HANDLE_CAPACITY_def)

subsection \<open>The contract of the registry\<close>

text \<open>
  What the driver relies on when it creates, uses and destroys a resource through its handle.
\<close>

locale registry =
  fixes ins :: "nat \<Rightarrow> 'k \<Rightarrow> 't \<Rightarrow> 'h res \<times> 't"
    and lookup :: "'h \<Rightarrow> 'k \<Rightarrow> 't \<Rightarrow> nat res"
    and del :: "'h \<Rightarrow> 'k \<Rightarrow> 't \<Rightarrow> nat res \<times> 't"
    and ok :: "'t \<Rightarrow> bool"
  assumes ins_ok: "ok t \<Longrightarrow> p \<noteq> 0 \<Longrightarrow> ins p k t = (r, t') \<Longrightarrow> ok t'"
    and ins_hit: "ok t \<Longrightarrow> p \<noteq> 0 \<Longrightarrow> ins p k t = (Inr h, t') \<Longrightarrow>
      lookup h k' t' = (if k' = k then Inr p else Inl InvalidHandle)"
    and ins_fresh: "ok t \<Longrightarrow> p \<noteq> 0 \<Longrightarrow> ins p k t = (Inr h, t') \<Longrightarrow> lookup h k' t = Inl InvalidHandle"
    and ins_frame: "ok t \<Longrightarrow> p \<noteq> 0 \<Longrightarrow> ins p k t = (Inr h, t') \<Longrightarrow> h' \<noteq> h \<Longrightarrow>
      lookup h' k' t' = lookup h' k' t"
    and ins_full: "ok t \<Longrightarrow> p \<noteq> 0 \<Longrightarrow> ins p k t = (Inl e, t') \<Longrightarrow> t' = t"
    and del_ok: "ok t \<Longrightarrow> del h k t = (d, t') \<Longrightarrow> ok t'"
    and del_hit: "ok t \<Longrightarrow> lookup h k t = Inr p \<Longrightarrow> fst (del h k t) = Inr p"
    and del_gone: "ok t \<Longrightarrow> del h k t = (Inr p, t') \<Longrightarrow> lookup h k' t' = Inl InvalidHandle"
    and del_frame: "ok t \<Longrightarrow> del h k t = (Inr p, t') \<Longrightarrow> h' \<noteq> h \<Longrightarrow> lookup h' k' t' = lookup h' k' t"
    and del_miss: "ok t \<Longrightarrow> lookup h k t = Inl e \<Longrightarrow> del h k t = (Inl e, t)"
begin

lemma del_twice:
  assumes "ok t" "del h k t = (Inr p, t')"
  shows "del h k' t' = (Inl InvalidHandle, t')"
  using del_miss [OF del_ok [OF assms] del_gone [OF assms]] .

lemma ins_del:
  assumes "ok t" "p \<noteq> 0" "ins p k t = (Inr h, t')" "del h k t' = (r, t'')"
  shows "r = Inr p" "lookup h' k' t'' = lookup h' k' t"
proof -
  note ok' = ins_ok [OF assms(1-3)]
  have hit: "lookup h k t' = Inr p" using ins_hit [OF assms(1-3)] by simp
  then show r: "r = Inr p" using del_hit [OF ok' hit] assms(4) by simp
  show "lookup h' k' t'' = lookup h' k' t"
  proof (cases "h' = h")
    case True
    then show ?thesis
      using del_gone [OF ok', of h k p t''] ins_fresh [OF assms(1-3)] assms(4) r by simp
  next
    case False
    then show ?thesis
      using del_frame [OF ok', of h k p t'' h'] ins_frame [OF assms(1-3) False] assms(4) r by simp
  qed
qed

lemma ins_distinct:
  assumes "ok t" "p \<noteq> 0" "lookup h k t = Inr q" "ins p k' t = (Inr h', t')"
  shows "h' \<noteq> h \<and> lookup h k t' = Inr q"
  using ins_fresh [OF assms(1,2,4), of k] ins_frame [OF assms(1,2,4), of h k] assms(3)
  by (cases "h = h'") auto

end

subsection \<open>The resource table keeps the registry contract\<close>

definition resource_table_ok :: "resource_table \<Rightarrow> bool" where
  "resource_table_ok t \<longleftrightarrow> length t \<le> 255
     \<and> (\<forall>e \<in> set t. rs_generation e \<le> HANDLE_GENERATION_MAX
          \<and> (rs_pointer e \<noteq> 0 \<longrightarrow> rs_generation e \<noteq> 0))"

lemma resource_table_new_ok: "resource_table_new n = Some t \<Longrightarrow> resource_table_ok t"
  by (auto simp: resource_table_new_def resource_table_ok_def resource_slot_EMPTY_def
      handle_constants bind_eq_Some)

lemma next_generation_valid:
  assumes "g \<le> HANDLE_GENERATION_MAX"
  shows "next_generation g \<noteq> 0" "next_generation g \<le> HANDLE_GENERATION_MAX" "next_generation g \<noteq> g"
proof -
  have g: "unat g \<le> 0xFFFFFF" using assms handle_constants by (simp add: word_le_nat_alt)
  then have suc: "unat (g + 1) = unat g + 1" by (simp add: unat_plus_if')
  show "next_generation g \<noteq> 0"
    using suc by (auto simp: next_generation_def word_unat_eq_iff)
  show "next_generation g \<le> HANDLE_GENERATION_MAX"
    using g suc by (auto simp: next_generation_def word_le_nat_alt word_unat_eq_iff handle_constants)
  show "next_generation g \<noteq> g"
    by (auto simp: next_generation_def handle_constants)
qed

lemma resource_table_nth:
  assumes "resource_table_ok t" "i < length t"
  shows "rs_generation (t ! i) \<le> HANDLE_GENERATION_MAX"
    "rs_pointer (t ! i) \<noteq> 0 \<Longrightarrow> handle_valid (length t) i (rs_generation (t ! i))"
  using assms by (auto simp: resource_table_ok_def handle_valid_def)

text \<open>A handle resolves exactly when it is the encoding of a live slot of the right kind.\<close>

lemma resource_resolve_Inr:
  assumes "resource_table_ok t"
  shows "resource_resolve h k t = Inr p \<longleftrightarrow>
    (\<exists>i < length t. h = slot_handle i (rs_generation (t ! i)) \<and> rs_pointer (t ! i) = p
       \<and> p \<noteq> 0 \<and> rs_kind (t ! i) = k)" (is "_ \<longleftrightarrow> (\<exists>i < _. ?live i)")
proof
  assume "resource_resolve h k t = Inr p"
  then obtain i g where dec: "decode_handle (length t) h = Inr (i, g)"
    and *: "rs_pointer (t ! i) = p" "p \<noteq> 0" "rs_generation (t ! i) = g" "rs_kind (t ! i) = k"
    by (auto simp: resource_resolve_def Let_def split: sum.splits if_splits)
  from decode_handle_InrD [OF dec] * show "\<exists>i < length t. ?live i"
    by (auto simp: handle_valid_def)
next
  assume "\<exists>i < length t. ?live i"
  then obtain i where i: "i < length t" "?live i" by blast
  then have "decode_handle (length t) h = Inr (i, rs_generation (t ! i))"
    using assms decode_handle_pack [of "length t" i] resource_table_nth [OF assms i(1)]
    by (simp add: resource_table_ok_def)
  with i show "resource_resolve h k t = Inr p"
    by (simp add: resource_resolve_def Let_def)
qed

lemma resource_resolve_Inl: "resource_resolve h k t = Inl e \<Longrightarrow> e = InvalidHandle"
  by (auto simp: resource_resolve_def decode_handle_def Let_def split: sum.splits if_splits)

lemma resource_resolve_eqI:
  assumes "resource_table_ok t" "resource_table_ok t'"
    and "\<And>p. resource_resolve h k t = Inr p \<longleftrightarrow> resource_resolve h k t' = Inr p"
  shows "resource_resolve h k t = resource_resolve h k t'"
  using assms(3) resource_resolve_Inl by (metis sum.exhaust)

text \<open>What a successful insertion did: it filled the first free slot with a new generation.\<close>

lemma resource_insert_InrD:
  assumes ok: "resource_table_ok t" and ins: "resource_insert p k t = (r, t')"
  shows "(r = Inl ResourceExhausted \<and> t' = t) \<or>
    (\<exists>i g. i < length t \<and> rs_pointer (t ! i) = 0 \<and> g = next_generation (rs_generation (t ! i))
      \<and> r = Inr (slot_handle i g)
      \<and> t' = t[i := \<lparr>rs_pointer = p, rs_generation = g, rs_kind = k\<rparr>])"
proof (cases "position (\<lambda>entry. rs_pointer entry = 0) t")
  case None
  with ins show ?thesis by (simp add: resource_insert_def)
next
  case (Some i)
  note i = position_SomeD(1,2) [OF Some]
  let ?g = "next_generation (rs_generation (t ! i))"
  have "handle_valid (length t) i ?g"
    using i(1) next_generation_valid [OF resource_table_nth(1) [OF ok i(1)]]
    by (simp add: handle_valid_def)
  with ok have "encode_handle i ?g = Inr (slot_handle i ?g)"
    by (intro encode_handle_pack [of "length t"]) (simp_all add: resource_table_ok_def)
  with Some ins i show ?thesis by (auto simp: resource_insert_def Let_def)
qed

lemma resource_table_ok_update:
  assumes "resource_table_ok t" "rs_generation e \<le> HANDLE_GENERATION_MAX"
    "rs_pointer e \<noteq> 0 \<longrightarrow> rs_generation e \<noteq> 0"
  shows "resource_table_ok (t[i := e])"
  using assms set_update_subset_insert [of t i e] by (auto simp: resource_table_ok_def)

text \<open>Two handles of one table are equal only for the same slot and generation.\<close>

lemma slot_handle_inj:
  assumes "slot_handle i g = slot_handle j g'" "i < 255" "j < 255"
    "g \<le> HANDLE_GENERATION_MAX" "g' \<le> HANDLE_GENERATION_MAX"
  shows "i = j \<and> g = g'"
proof -
  have i: "i + 1 < 256" and j: "j + 1 < 256" using assms by auto
  note eq = assms(1) [unfolded slot_handle_def]
  have "of_nat (i + 1) = (of_nat (j + 1) :: 32 word)"
    using pack8_low [OF take_bit_of_small [OF i], of g] pack8_low [OF take_bit_of_small [OF j], of g']
      eq by simp
  then have "i + 1 = j + 1" using unat_of_small [OF i] unat_of_small [OF j] by metis
  moreover have "g = g'"
    using pack8_high [OF take_bit_of_small [OF i] handle_generation_fits [OF assms(4)]]
      pack8_high [OF take_bit_of_small [OF j] handle_generation_fits [OF assms(5)]] eq by simp
  ultimately show ?thesis by simp
qed

lemma resource_update_frame:
  assumes ok: "resource_table_ok t" and ok': "resource_table_ok (t[i := e])" and i: "i < length t"
    and other: "rs_pointer e \<noteq> 0 \<Longrightarrow> h \<noteq> slot_handle i (rs_generation e)"
      "rs_pointer (t ! i) \<noteq> 0 \<Longrightarrow> h \<noteq> slot_handle i (rs_generation (t ! i))"
  shows "resource_resolve h k (t[i := e]) = resource_resolve h k t"
proof (rule resource_resolve_eqI [OF ok' ok])
  fix p
  have "(j < length t \<and> h = slot_handle j (rs_generation (t[i := e] ! j))
        \<and> rs_pointer (t[i := e] ! j) = p \<and> p \<noteq> 0 \<and> rs_kind (t[i := e] ! j) = k)
    \<longleftrightarrow> (j < length t \<and> h = slot_handle j (rs_generation (t ! j))
        \<and> rs_pointer (t ! j) = p \<and> p \<noteq> 0 \<and> rs_kind (t ! j) = k)" for j
    using other i by (cases "j = i") auto
  then show "resource_resolve h k (t[i := e]) = Inr p \<longleftrightarrow> resource_resolve h k t = Inr p"
    unfolding resource_resolve_Inr [OF ok'] resource_resolve_Inr [OF ok] length_list_update by simp
qed

lemma resource_remove_InrD:
  assumes ok: "resource_table_ok t" and rem: "resource_remove h k t = (Inr p, t')"
  shows "\<exists>i < length t. h = slot_handle i (rs_generation (t ! i)) \<and> rs_pointer (t ! i) = p
    \<and> p \<noteq> 0 \<and> t' = t[i := (t ! i)\<lparr>rs_pointer := 0\<rparr>]"
proof -
  from rem obtain j g where res: "resource_resolve h k t = Inr p"
    and dec: "decode_handle (length t) h = Inr (j, g)"
    and t': "t' = t[j := (t ! j)\<lparr>rs_pointer := 0\<rparr>]"
    by (auto simp: resource_remove_def split: sum.splits)
  from res [unfolded resource_resolve_Inr [OF ok]] obtain i where
    i: "i < length t" "h = slot_handle i (rs_generation (t ! i))" "rs_pointer (t ! i) = p" "p \<noteq> 0"
    by blast
  have "decode_handle (length t) h = Inr (i, rs_generation (t ! i))"
    using i ok decode_handle_pack [of "length t" i] resource_table_nth(2) [OF ok i(1)]
    by (simp add: resource_table_ok_def)
  with dec have "j = i" by simp
  with i t' show ?thesis by blast
qed

lemma resource_remove_ok:
  assumes ok: "resource_table_ok t" and rem: "resource_remove h k t = (r, t')"
  shows "resource_table_ok t'"
proof (cases r)
  case (Inr p)
  from resource_remove_InrD [OF ok rem [unfolded Inr]] obtain i where
    "i < length t" "t' = t[i := (t ! i)\<lparr>rs_pointer := 0\<rparr>]" by blast
  with ok show ?thesis
    by (simp add: resource_table_ok_update resource_table_nth(1))
next
  case (Inl e)
  with ok rem show ?thesis by (auto simp: resource_remove_def split: sum.splits)
qed

lemma resource_insert_ok:
  assumes ok: "resource_table_ok t" and ins: "resource_insert p k t = (r, t')"
  shows "resource_table_ok t'"
  using resource_insert_InrD [OF ok ins] ok next_generation_valid
  by (auto intro!: resource_table_ok_update simp: resource_table_nth(1))

lemma resource_insert_hit:
  assumes ok: "resource_table_ok t" and "p \<noteq> 0" and ins: "resource_insert p k t = (Inr h, t')"
  shows "resource_resolve h k' t' = (if k' = k then Inr p else Inl InvalidHandle)"
proof -
  note ok' = resource_insert_ok [OF ok ins]
  from resource_insert_InrD [OF ok ins] obtain i g where
    i: "i < length t" "g = next_generation (rs_generation (t ! i))" "h = slot_handle i g"
      "t' = t[i := \<lparr>rs_pointer = p, rs_generation = g, rs_kind = k\<rparr>]"
    by auto
  have t': "length t' = length t" "t' ! i = \<lparr>rs_pointer = p, rs_generation = g, rs_kind = k\<rparr>"
    using i by auto
  have "i < 255" "length t < 256" "g \<le> HANDLE_GENERATION_MAX"
    using i ok next_generation_valid(2) [OF resource_table_nth(1) [OF ok i(1)]]
    by (auto simp: resource_table_ok_def)
  then have at: "h = slot_handle j (rs_generation (t' ! j)) \<longleftrightarrow> j = i" if "j < length t'" for j
    using slot_handle_inj [of i g j "rs_generation (t' ! j)"] i(3) t' that
      resource_table_nth(1) [OF ok' that] by auto
  have live: "resource_resolve h k' t' = Inr q \<longleftrightarrow> k' = k \<and> q = p" for q
    unfolding resource_resolve_Inr [OF ok'] using at i(1) t' \<open>p \<noteq> 0\<close>
    by (metis resource_slot.select_convs(1,3))
  show ?thesis
  proof (cases "k' = k")
    case True
    with live [of p] show ?thesis by simp
  next
    case False
    with live have "\<nexists>q. resource_resolve h k' t' = Inr q" by simp
    with False show ?thesis using resource_resolve_Inl by (metis sum.exhaust)
  qed
qed

lemma resource_not_live:
  assumes ok: "resource_table_ok t" and i: "i < length t" "rs_pointer (t ! i) = 0"
    and g: "g \<le> HANDLE_GENERATION_MAX"
  shows "resource_resolve (slot_handle i g) k t = Inl InvalidHandle"
proof -
  have "\<nexists>p. resource_resolve (slot_handle i g) k t = Inr p"
  proof
    assume "\<exists>p. resource_resolve (slot_handle i g) k t = Inr p"
    then obtain j where j: "j < length t" "rs_pointer (t ! j) \<noteq> 0"
      "slot_handle i g = slot_handle j (rs_generation (t ! j))"
      unfolding resource_resolve_Inr [OF ok] by auto
    moreover have "i < 255" "j < 255" using ok i j by (auto simp: resource_table_ok_def)
    ultimately have "i = j"
      using slot_handle_inj [of i g j "rs_generation (t ! j)"] g resource_table_nth(1) [OF ok j(1)] by blast
    with i j show False by simp
  qed
  then show ?thesis using resource_resolve_Inl by (metis sum.exhaust)
qed

interpretation resources: registry resource_insert resource_resolve resource_remove resource_table_ok
proof unfold_locales
  fix t p k r t'
  assume "resource_table_ok t" "resource_insert p k t = (r, t')"
  then show "resource_table_ok t'" by (rule resource_insert_ok)
next
  fix t p k h t' k'
  assume "resource_table_ok t" "p \<noteq> 0" "resource_insert p k t = (Inr h, t')"
  then show "resource_resolve h k' t' = (if k' = k then Inr p else Inl InvalidHandle)"
    by (rule resource_insert_hit)
next
  fix t p k h t' k'
  assume a: "resource_table_ok t" "resource_insert p k t = (Inr h, t')"
  from resource_insert_InrD [OF this] show "resource_resolve h k' t = Inl InvalidHandle"
    using a(1) by (auto intro!: resource_not_live next_generation_valid resource_table_nth(1))
next
  fix t p k h t' h' k'
  assume a: "resource_table_ok t" "resource_insert p k t = (Inr h, t')" and ne: "h' \<noteq> h"
  from resource_insert_InrD [OF a] ne show "resource_resolve h' k' t' = resource_resolve h' k' t"
    using a(1) resource_insert_ok [OF a] by (auto intro!: resource_update_frame)
next
  fix t p k e t'
  assume "resource_table_ok t" "resource_insert p k t = (Inl e, t')"
  from resource_insert_InrD [OF this] show "t' = t" by auto
next
  fix t h k r t'
  assume "resource_table_ok t" "resource_remove h k t = (r, t')"
  then show "resource_table_ok t'" by (rule resource_remove_ok)
next
  fix t h k p
  assume "resource_table_ok t" "resource_resolve h k t = Inr p"
  then show "fst (resource_remove h k t) = Inr p"
    by (auto simp: resource_remove_def resource_resolve_def split: sum.splits)
next
  fix t h k p t' k'
  assume a: "resource_table_ok t" "resource_remove h k t = (Inr p, t')"
  from resource_remove_InrD [OF this] show "resource_resolve h k' t' = Inl InvalidHandle"
    using resource_remove_ok [OF a] a(1)
    by (auto intro!: resource_not_live simp: resource_table_nth(1))
next
  fix t h k p t' h' k'
  assume a: "resource_table_ok t" "resource_remove h k t = (Inr p, t')" and ne: "h' \<noteq> h"
  from resource_remove_InrD [OF a] ne show "resource_resolve h' k' t' = resource_resolve h' k' t"
    using resource_remove_ok [OF a] a(1) by (auto intro!: resource_update_frame)
next
  fix t h k e
  assume "resource_table_ok t" "resource_resolve h k t = Inl e"
  then show "resource_remove h k t = (Inl e, t)" by (simp add: resource_remove_def)
qed

subsection \<open>Sequences of registry calls\<close>

datatype resource_op = RInsert nat resource_kind | RRemove "32 word" resource_kind

fun resource_step :: "resource_op \<Rightarrow> resource_table \<Rightarrow> resource_table" where
  "resource_step (RInsert p k) t = snd (resource_insert p k t)"
| "resource_step (RRemove h k) t = snd (resource_remove h k t)"

definition resource_run :: "resource_op list \<Rightarrow> resource_table \<Rightarrow> resource_table" where
  "resource_run es t = fold resource_step es t"

definition insertions :: "resource_op list \<Rightarrow> nat" where
  "insertions es = length (filter (\<lambda>e. case e of RInsert _ _ \<Rightarrow> True | _ \<Rightarrow> False) es)"

lemma unat_next_generation:
  assumes "g \<noteq> 0" "g \<le> HANDLE_GENERATION_MAX"
  shows "unat (next_generation g) = unat g mod 0xFFFFFF + 1"
proof -
  have g: "unat g \<le> 0xFFFFFF" using assms(2) handle_constants by (simp add: word_le_nat_alt)
  show ?thesis
  proof (cases "g = HANDLE_GENERATION_MAX")
    case True
    then show ?thesis using assms by (simp add: next_generation_def handle_constants)
  next
    case False
    then have "unat g < 0xFFFFFF" using g by (auto simp: word_unat_eq_iff handle_constants)
    with False assms(1) show ?thesis by (simp add: next_generation_def unat_plus_if')
  qed
qed

lemma next_generation_pow:
  assumes "g \<noteq> 0" "g \<le> HANDLE_GENERATION_MAX"
  shows "(next_generation ^^ m) g \<noteq> 0 \<and> (next_generation ^^ m) g \<le> HANDLE_GENERATION_MAX
    \<and> unat ((next_generation ^^ m) g) = (unat g - 1 + m) mod 0xFFFFFF + 1"
proof (induction m)
  case 0
  have "unat g \<le> 0xFFFFFF" "unat g \<noteq> 0"
    using assms handle_constants by (auto simp: word_le_nat_alt unat_eq_0)
  then show ?case using assms by auto
next
  case (Suc m)
  let ?g = "(next_generation ^^ m) g"
  have "unat (next_generation ?g) = unat ?g mod 0xFFFFFF + 1"
    using Suc unat_next_generation by blast
  also have "\<dots> = (unat g - 1 + Suc m) mod 0xFFFFFF + 1"
    using Suc by (simp add: mod_Suc_eq)
  finally show ?case using Suc next_generation_valid [of ?g] by simp
qed

lemma next_generation_pow_fresh:
  assumes "g \<noteq> 0" "g \<le> HANDLE_GENERATION_MAX" "0 < m" "m < 0xFFFFFF"
  shows "(next_generation ^^ m) g \<noteq> g"
proof
  assume cycle: "(next_generation ^^ m) g = g"
  have eq: "unat g = (unat g - 1 + m) mod 0xFFFFFF + 1"
    using next_generation_pow [OF assms(1,2), of m] unfolding cycle by blast
  have "unat g \<le> 0xFFFFFF" using assms(2) handle_constants by (simp add: word_le_nat_alt)
  then obtain x where x: "unat g = Suc x" "x < 0xFFFFFF"
    using assms(1) by (cases "unat g") (auto simp: unat_eq_0)
  with eq have "(x + m) mod 0xFFFFFF = x" by simp
  moreover have "(x + m) mod 0xFFFFFF = (if x + m < 0xFFFFFF then x + m else x + m - 0xFFFFFF)"
    using x(2) assms(4) by (simp add: mod_if [of "x + m"])
  ultimately show False using assms(3,4) by (simp split: if_splits)
qed

text \<open>The slot of a removed handle: it has been refilled \<open>m\<close> times, and is empty while \<open>m\<close> is 0.\<close>

definition retired_slot :: "nat \<Rightarrow> 32 word \<Rightarrow> nat \<Rightarrow> resource_table \<Rightarrow> bool" where
  "retired_slot i g n t \<longleftrightarrow> resource_table_ok t \<and> i < length t
     \<and> (\<exists>m \<le> n. rs_generation (t ! i) = (next_generation ^^ m) g \<and> (m = 0 \<longrightarrow> rs_pointer (t ! i) = 0))"

lemma retired_slot_update:
  assumes "retired_slot i g n t" "resource_table_ok (t[j := (t ! j)\<lparr>rs_pointer := 0\<rparr>])" "j < length t"
  shows "retired_slot i g n (t[j := (t ! j)\<lparr>rs_pointer := 0\<rparr>])"
  using assms by (cases "j = i") (auto simp: retired_slot_def)

lemma retired_slot_step:
  assumes "retired_slot i g n t"
  shows "retired_slot i g (n + insertions [e]) (resource_step e t)"
proof (cases e)
  case (RInsert p k)
  obtain r t' where ins: "resource_insert p k t = (r, t')" by force
  have ok: "resource_table_ok t" using assms by (simp add: retired_slot_def)
  from resource_insert_InrD [OF ok ins] have "retired_slot i g (Suc n) t'"
  proof (elim disjE exE conjE)
    assume "t' = t"
    with assms show ?thesis by (auto simp: retired_slot_def intro: le_SucI)
  next
    fix j g'
    assume j: "g' = next_generation (rs_generation (t ! j))"
      and t': "t' = t[j := \<lparr>rs_pointer = p, rs_generation = g', rs_kind = k\<rparr>]"
    from assms obtain m where m: "m \<le> n" "i < length t" "rs_generation (t ! i) = (next_generation ^^ m) g"
      "m = 0 \<longrightarrow> rs_pointer (t ! i) = 0" by (auto simp: retired_slot_def)
    show ?thesis
    proof (cases "j = i")
      case True
      then have "rs_generation (t' ! i) = (next_generation ^^ Suc m) g" using j t' m by simp
      with m t' resource_insert_ok [OF ok ins] show ?thesis
        unfolding retired_slot_def by (metis Suc_le_mono length_list_update nat.distinct(1))
    next
      case False
      with m t' resource_insert_ok [OF ok ins] show ?thesis
        by (auto simp: retired_slot_def intro: le_SucI)
    qed
  qed
  with RInsert ins show ?thesis by (simp add: insertions_def)
next
  case (RRemove h k)
  obtain r t' where rem: "resource_remove h k t = (r, t')" by force
  have ok: "resource_table_ok t" using assms by (simp add: retired_slot_def)
  have "retired_slot i g n t'"
  proof (cases r)
    case (Inr p)
    from resource_remove_InrD [OF ok rem [unfolded Inr]] resource_remove_ok [OF ok rem] show ?thesis
      using retired_slot_update [OF assms] by auto
  next
    case (Inl err)
    with rem have "t' = t" by (auto simp: resource_remove_def split: sum.splits)
    with assms show ?thesis by simp
  qed
  with RRemove rem show ?thesis by (simp add: insertions_def)
qed

lemma retired_slot_run:
  "retired_slot i g n t \<Longrightarrow> retired_slot i g (n + insertions es) (resource_run es t)"
proof (induction es arbitrary: n t)
  case Nil
  then show ?case by (simp add: resource_run_def insertions_def)
next
  case (Cons e es)
  from Cons.IH [OF retired_slot_step [OF Cons.prems, of e]] show ?case
    by (auto simp: resource_run_def insertions_def algebra_simps split: resource_op.splits)
qed

lemma retired_slot_dead:
  assumes "retired_slot i g n t" "n < 0xFFFFFF" "g \<noteq> 0" "g \<le> HANDLE_GENERATION_MAX"
  shows "resource_resolve (slot_handle i g) k t = Inl InvalidHandle"
proof -
  from assms(1) obtain m where ok: "resource_table_ok t" and i: "i < length t" and
    m: "m \<le> n" "rs_generation (t ! i) = (next_generation ^^ m) g" "m = 0 \<longrightarrow> rs_pointer (t ! i) = 0"
    by (auto simp: retired_slot_def)
  have "\<nexists>p. resource_resolve (slot_handle i g) k t = Inr p"
  proof
    assume "\<exists>p. resource_resolve (slot_handle i g) k t = Inr p"
    then obtain j where j: "j < length t" "rs_pointer (t ! j) \<noteq> 0"
      "slot_handle i g = slot_handle j (rs_generation (t ! j))"
      unfolding resource_resolve_Inr [OF ok] by auto
    have "i < 255" "j < 255" using ok i j by (auto simp: resource_table_ok_def)
    with slot_handle_inj [OF j(3)] assms(4) resource_table_nth(1) [OF ok j(1)]
    have "i = j" "g = rs_generation (t ! j)" by auto
    with m j(2) next_generation_pow_fresh [OF assms(3,4), of m] assms(2) show False
      by (cases "m = 0") auto
  qed
  then show ?thesis using resource_resolve_Inl by (metis sum.exhaust)
qed

subsection \<open>Properties\<close>

text \<open>
  C37. A task identity can be encoded exactly for a slot of the task table and a non-zero
  generation, and decoding is its exact inverse: a word decodes to a slot and a generation if and
  only if it is their encoding, so every other bit pattern is refused.
\<close>

theorem task_id_roundtrip:
  "(decode_task_id w = Inr (slot, g) \<longleftrightarrow> encode_task_id slot g = Inr w)
   \<and> ((\<exists>w. encode_task_id slot g = Inr w) \<longleftrightarrow> slot < TASK_SLOT_COUNT \<and> g \<noteq> 0)"
proof -
  have "encode_task_id slot g = Inr w' \<Longrightarrow> task_id_valid slot g" for w'
    by (auto simp: encode_task_id_def task_id_valid_def split: if_splits)
  then show ?thesis
    using task_id.decode_iff task_id.encode_valid by (metis task_id_valid_def)
qed

text \<open>
  The life of a resource handle: after registration it resolves to its pointer under its own
  kind and under no other, destroying it returns the pointer and leaves every handle resolving as
  it did before the registration, and destroying it again is refused.
\<close>

theorem resource_handle_lifecycle:
  assumes "resource_table_ok t" "p \<noteq> 0" "resource_insert p kind t = (Inr h, t')"
  shows "(\<forall>kind'. resource_resolve h kind' t' = (if kind' = kind then Inr p else Inl InvalidHandle))
    \<and> (\<exists>t''. resource_remove h kind t' = (Inr p, t'')
        \<and> (\<forall>h' kind'. resource_resolve h' kind' t'' = resource_resolve h' kind' t)
        \<and> (\<forall>kind'. resource_remove h kind' t'' = (Inl InvalidHandle, t'')))"
proof -
  obtain r t'' where rem: "resource_remove h kind t' = (r, t'')" by force
  note del = resources.ins_del [OF assms rem]
  from resources.del_twice [OF resources.ins_ok [OF assms], of h kind p t''] rem del
    resources.ins_hit [OF assms] show ?thesis by auto
qed

theorem resource_handle_lifecycle_witness:
  "\<exists>h t' t''. resource_insert 4096 KMutex [resource_slot_EMPTY, resource_slot_EMPTY] = (Inr h, t')
    \<and> resource_resolve h KMutex t' = Inr 4096 \<and> resource_resolve h KSemaphore t' = Inl InvalidHandle
    \<and> resource_remove h KMutex t' = (Inr 4096, t'')
    \<and> resource_remove h KMutex t'' = (Inl InvalidHandle, t'')"
proof -
  let ?t = "[resource_slot_EMPTY, resource_slot_EMPTY]"
  have ok: "resource_table_ok ?t"
    by (simp add: resource_table_ok_def resource_slot_EMPTY_def)
  have ins: "resource_insert 4096 KMutex ?t = (Inr 257, ?t[0 := \<lparr>rs_pointer = 4096,
      rs_generation = 1, rs_kind = KMutex\<rparr>])"
    by (simp add: resource_insert_def resource_slot_EMPTY_def next_generation_def encode_handle_def
        handle_constants HANDLE_SLOT_BITS_def push_bit_eq_mult)
  from resource_handle_lifecycle [OF ok _ ins] ins show ?thesis by auto
qed

text \<open>
  C38. A destroyed handle stays dead: whatever is registered and destroyed afterwards, also in the
  slot it named, it is refused with \<open>InvalidHandle\<close> as long as fewer registrations than there are
  generations have happened.
\<close>

theorem stale_handle_stays_dead:
  assumes "resource_table_ok t" "resource_remove h kind t = (Inr p, t')"
    and "insertions es < unat HANDLE_GENERATION_MAX"
  shows "resource_resolve h kind' (resource_run es t') = Inl InvalidHandle"
proof -
  from resource_remove_InrD [OF assms(1,2)] obtain i where
    i: "i < length t" "h = slot_handle i (rs_generation (t ! i))" "rs_pointer (t ! i) \<noteq> 0"
      "t' = t[i := (t ! i)\<lparr>rs_pointer := 0\<rparr>]" by auto
  let ?g = "rs_generation (t ! i)"
  have "retired_slot i ?g 0 t'"
    using i resource_remove_ok [OF assms(1,2)] by (simp add: retired_slot_def)
  from retired_slot_run [OF this, of es] have "retired_slot i ?g (insertions es) (resource_run es t')"
    by simp
  from retired_slot_dead [OF this] assms(1,3) i show ?thesis
    using resource_table_nth [OF assms(1) i(1)] by (auto simp: handle_constants handle_valid_def)
qed

theorem stale_handle_stays_dead_witness:
  "resource_resolve 257 KMutex (resource_run [RInsert 8192 KMutex]
     (snd (resource_remove 257 KMutex
        [\<lparr>rs_pointer = 4096, rs_generation = 1, rs_kind = KMutex\<rparr>]))) = Inl InvalidHandle"
proof -
  let ?t = "[\<lparr>rs_pointer = 4096, rs_generation = 1, rs_kind = KMutex\<rparr>]"
  have ok: "resource_table_ok ?t" by (simp add: resource_table_ok_def handle_constants)
  have rem: "resource_remove 257 KMutex ?t = (Inr 4096, [(?t ! 0)\<lparr>rs_pointer := 0\<rparr>])"
    by (simp add: resource_op_defs decode_handle_def handle_constants HANDLE_SLOT_BITS_def Let_def
        drop_bit_eq_div)
  have "insertions [RInsert 8192 KMutex] < unat HANDLE_GENERATION_MAX"
    by (simp add: insertions_def handle_constants)
  from stale_handle_stays_dead [OF ok rem this] rem show ?thesis by simp
qed

end
