(* ===== verification/Reservation.thy ===== *)
theory Reservation
  imports Handles
begin

text \<open>
  Owner-bound reservations of task slots and task stacks, \<open>reservation.rs\<close>. The number of entries
  of the table is \<open>TASK_RESOURCE_GROUP_CAPACITY\<close> of the contract crate and so a parameter: the
  length of \<open>rt_entries\<close>. Of the contract types \<open>TaskResourceRequirements\<close> and
  \<open>TaskResourcePlan\<close> the model has what the sources read of them; the type \<open>'o\<close> of a group's
  owner is left open.
\<close>

subsection \<open>Types\<close>

definition RESERVATION_SLOT_BITS :: nat where "RESERVATION_SLOT_BITS = 8"
definition RESERVATION_SLOT_MASK :: "32 word" where
  "RESERVATION_SLOT_MASK = push_bit RESERVATION_SLOT_BITS 1 - 1"

lemma RESERVATION_SLOT_MASK_eq: "RESERVATION_SLOT_MASK = 255"
  by (simp add: RESERVATION_SLOT_MASK_def RESERVATION_SLOT_BITS_def push_bit_eq_mult)

datatype 'o task_admission_error =
    InsufficientTaskSlots nat nat
  | InsufficientTaskGroupSlots 'o nat nat
  | InsufficientTaskStackMemory nat nat
  | InsufficientTaskGroupStackMemory 'o nat nat nat
  | AdmissionRuntime driver_error

record task_resource_requirements =
  task_slots :: nat
  stack_bytes_per_task :: nat
  total_stack_bytes :: nat

record 'o task_resource_group =
  group_owner :: 'o
  group_resources :: task_resource_requirements

record reservation_entry =
  re_generation :: "16 word"
  re_remaining :: nat
  re_next_stack :: nat
  re_stack_count :: nat
  re_stack_size :: nat
  re_stacks :: "nat list"
  re_active :: bool

definition reservation_entry_EMPTY :: reservation_entry where
  "reservation_entry_EMPTY = \<lparr>re_generation = 0, re_remaining = 0, re_next_stack = 0,
     re_stack_count = 0, re_stack_size = 0, re_stacks = replicate DYNAMIC_TASK_CAPACITY 0,
     re_active = False\<rparr>"

record reserved_stack =
  stk_pointer :: nat
  stk_size :: nat

record released_task_resources =
  released_stacks :: "nat list"
  released_count :: nat

record reservation_table =
  rt_entries :: "reservation_entry list"
  rt_total_remaining :: nat

definition reservation_table_new :: "nat \<Rightarrow> reservation_table" where
  "reservation_table_new n =
     \<lparr>rt_entries = replicate n reservation_entry_EMPTY, rt_total_remaining = 0\<rparr>"

definition set_entry :: "nat \<Rightarrow> reservation_entry \<Rightarrow> reservation_table \<Rightarrow> reservation_table" where
  "set_entry slot e t = t\<lparr>rt_entries := (rt_entries t)[slot := e]\<rparr>"

subsection \<open>Tokens\<close>

definition reservation_resolve_slot :: "32 word \<Rightarrow> reservation_table \<Rightarrow> nat res" where
  "reservation_resolve_slot raw t =
     (if drop_bit (RESERVATION_SLOT_BITS + 16) raw \<noteq> 0 then Inl InvalidHandle
      else let encoded_slot = unat (raw AND RESERVATION_SLOT_MASK);
               generation = (ucast (drop_bit RESERVATION_SLOT_BITS raw) :: 16 word)
        in if encoded_slot = 0 \<or> generation = 0 then Inl InvalidHandle
           else let slot = encoded_slot - 1
             in if slot \<ge> length (rt_entries t) then Inl InvalidHandle
                else let entry = rt_entries t ! slot
                  in if \<not> re_active entry \<or> re_generation entry \<noteq> generation
                     then Inl InvalidHandle else Inr slot)"

definition reservation_resolve :: "32 word \<Rightarrow> reservation_table \<Rightarrow> reservation_entry res" where
  "reservation_resolve raw t =
     (case reservation_resolve_slot raw t of
        Inl e \<Rightarrow> Inl e
      | Inr slot \<Rightarrow> Inr (rt_entries t ! slot))"

text \<open>\<open>wrapping_add(1).max(1)\<close>\<close>

definition bump_generation :: "16 word \<Rightarrow> 16 word" where
  "bump_generation g = max (g + 1) 1"

subsection \<open>Reserving\<close>

definition reserved_entry :: "nat \<Rightarrow> reservation_entry \<Rightarrow> reservation_entry" where
  "reserved_entry required entry =
     entry\<lparr>re_generation := bump_generation (re_generation entry),
       re_remaining := required, re_next_stack := 0, re_stack_count := 0,
       re_stack_size := 0, re_stacks := replicate DYNAMIC_TASK_CAPACITY 0, re_active := True\<rparr>"

definition reserve ::
  "nat \<Rightarrow> nat \<Rightarrow> reservation_table \<Rightarrow>
     (('o task_admission_error + 32 word) \<times> reservation_table) option" where
  "reserve required available t =
     (if required > available then Some (Inl (InsufficientTaskSlots required available), t)
      else case position (\<lambda>entry. \<not> re_active entry) (rt_entries t) of
        None \<Rightarrow> Some (Inl (AdmissionRuntime ResourceExhausted), t)
      | Some slot \<Rightarrow>
          if required > U8_MAX then Some (Inl (AdmissionRuntime ResourceExhausted), t)
          else do {
            let entry = reserved_entry required (rt_entries t ! slot);
            total \<leftarrow> chk_add USIZE_MAX (rt_total_remaining t) required;
            assert_that (slot + 1 \<le> U32_MAX);
            let raw = push_bit RESERVATION_SLOT_BITS (ucast (re_generation entry))
              OR of_nat (slot + 1);
            assert_that (raw \<noteq> 0);
            Some (Inr raw, (set_entry slot entry t)\<lparr>rt_total_remaining := total\<rparr>)
          })"

definition reserve_with_stacks ::
  "task_resource_requirements \<Rightarrow> nat \<Rightarrow> nat list \<Rightarrow> reservation_table \<Rightarrow>
     (('o task_admission_error + 32 word) \<times> reservation_table) option" where
  "reserve_with_stacks required available stacks t = do {
     (r, t) \<leftarrow> reserve (task_slots required) available t;
     (case r of
        Inl e \<Rightarrow> Some (Inl e, t)
      | Inr reservation \<Rightarrow>
          (case reservation_resolve_slot reservation t of
             Inl e \<Rightarrow> Some (Inl (AdmissionRuntime e), t)
           | Inr slot \<Rightarrow>
               if task_slots required > U8_MAX
               then Some (Inl (AdmissionRuntime ResourceExhausted), t)
               else Some (Inr reservation,
                 set_entry slot ((rt_entries t ! slot)\<lparr>re_stack_count := task_slots required,
                   re_stack_size := stack_bytes_per_task required, re_stacks := stacks\<rparr>) t)))
   }"

subsection \<open>Consuming and releasing\<close>

definition reservation_stack_size :: "32 word \<Rightarrow> reservation_table \<Rightarrow> (nat option) res" where
  "reservation_stack_size raw t =
     (case reservation_resolve raw t of
        Inl e \<Rightarrow> Inl e
      | Inr entry \<Rightarrow> Inr (if re_stack_count entry \<noteq> 0 then Some (re_stack_size entry) else None))"

definition ensure_consumable :: "32 word \<Rightarrow> reservation_table \<Rightarrow> unit res" where
  "ensure_consumable raw t =
     (case reservation_resolve raw t of
        Inl e \<Rightarrow> Inl e
      | Inr entry \<Rightarrow> if re_remaining entry = 0 then Inl NoTaskSlots else Inr ())"

definition consume ::
  "32 word \<Rightarrow> reservation_table \<Rightarrow> ((reserved_stack option) res \<times> reservation_table) option" where
  "consume raw t =
     (case reservation_resolve_slot raw t of
        Inl e \<Rightarrow> Some (Inl e, t)
      | Inr slot \<Rightarrow>
          let entry = rt_entries t ! slot in
          if re_remaining entry = 0 then Some (Inl NoTaskSlots, t)
          else do {
            (stack, entry) \<leftarrow>
              (if re_stack_count entry = 0 then Some (None, entry)
               else do {
                 let index = re_next_stack entry;
                 assert_that (index < length (re_stacks entry));
                 let pointer = re_stacks entry ! index;
                 assert_that (pointer \<noteq> 0);
                 nxt \<leftarrow> chk_add U8_MAX (re_next_stack entry) 1;
                 Some (Some \<lparr>stk_pointer = pointer, stk_size = re_stack_size entry\<rparr>,
                   entry\<lparr>re_stacks := (re_stacks entry)[index := 0], re_next_stack := nxt\<rparr>)
               });
            rem \<leftarrow> chk_sub (re_remaining entry) 1;
            total \<leftarrow> chk_sub (rt_total_remaining t) 1;
            Some (Inr stack,
              (set_entry slot (entry\<lparr>re_remaining := rem\<rparr>) t)\<lparr>rt_total_remaining := total\<rparr>)
          })"

text \<open>The loop of \<open>release\<close>: the non-null pointers of the slice, packed to the front.\<close>

fun pack_released :: "nat list \<Rightarrow> released_task_resources \<Rightarrow> released_task_resources option" where
  "pack_released [] r = Some r"
| "pack_released (pointer # ps) r =
     (if pointer \<noteq> 0
      then do {
        assert_that (released_count r < length (released_stacks r));
        pack_released ps (r\<lparr>released_stacks := (released_stacks r)[released_count r := pointer],
          released_count := released_count r + 1\<rparr>)
      }
      else pack_released ps r)"

definition released_entry :: "reservation_entry \<Rightarrow> reservation_entry" where
  "released_entry entry =
     entry\<lparr>re_remaining := 0, re_next_stack := 0, re_stack_count := 0, re_stack_size := 0,
       re_stacks := replicate DYNAMIC_TASK_CAPACITY 0, re_active := False\<rparr>"

definition release ::
  "32 word \<Rightarrow> reservation_table \<Rightarrow> (released_task_resources res \<times> reservation_table) option" where
  "release raw t =
     (case reservation_resolve_slot raw t of
        Inl e \<Rightarrow> Some (Inl e, t)
      | Inr slot \<Rightarrow> do {
          let entry = rt_entries t ! slot;
          assert_that (re_next_stack entry \<le> re_stack_count entry
            \<and> re_stack_count entry \<le> length (re_stacks entry));
          released \<leftarrow> pack_released
            (drop (re_next_stack entry) (take (re_stack_count entry) (re_stacks entry)))
            \<lparr>released_stacks = replicate DYNAMIC_TASK_CAPACITY 0, released_count = 0\<rparr>;
          total \<leftarrow> chk_sub (rt_total_remaining t) (re_remaining entry);
          Some (Inr released,
            (set_entry slot (released_entry entry) t)\<lparr>rt_total_remaining := total\<rparr>)
        })"

subsection \<open>Reserving a plan\<close>

text \<open>The pre-check of every group against what the earlier groups leave.\<close>

fun plan_check ::
  "'o task_resource_group list \<Rightarrow> nat \<Rightarrow> 'o task_admission_error option" where
  "plan_check [] remaining_available = None"
| "plan_check (grp # groups) remaining_available =
     (let required = task_slots (group_resources grp) in
      if required > remaining_available
      then Some (InsufficientTaskGroupSlots (group_owner grp) required remaining_available)
      else plan_check groups (remaining_available - required))"

fun release_all :: "32 word list \<Rightarrow> reservation_table \<Rightarrow> reservation_table option" where
  "release_all [] t = Some t"
| "release_all (r # rs) t = do { (_, t) \<leftarrow> release r t; release_all rs t }"

text \<open>The commit loop: \<open>taken\<close> is the sum over the groups before \<open>index\<close>, and \<open>acc\<close> their tokens.\<close>

fun plan_commit ::
  "'o task_resource_group list \<Rightarrow> nat \<Rightarrow> nat \<Rightarrow> nat \<Rightarrow> nat list list \<Rightarrow> 32 word list \<Rightarrow>
     reservation_table \<Rightarrow> (('o task_admission_error + 32 word list) \<times> reservation_table) option" where
  "plan_commit [] index taken available stacks acc t = Some (Inr acc, t)"
| "plan_commit (grp # groups) index taken available stacks acc t = do {
     assert_that (index < length stacks);
     (r, t) \<leftarrow> reserve_with_stacks (group_resources grp) (sat_sub available taken)
       (stacks ! index) t;
     (case r of
        Inr reservation \<Rightarrow> do {
          assert_that (index < length (rt_entries t));
          plan_commit groups (index + 1) (taken + task_slots (group_resources grp)) available
            stacks (acc @ [reservation]) t
        }
      | Inl e \<Rightarrow> do { t \<leftarrow> release_all acc t; Some (Inl e, t) })
   }"

definition reserve_plan_with_stacks ::
  "'o task_resource_group list \<Rightarrow> nat \<Rightarrow> nat list list \<Rightarrow> reservation_table \<Rightarrow>
     (('o task_admission_error + 32 word list) \<times> reservation_table) option" where
  "reserve_plan_with_stacks groups available stacks t =
     (case plan_check groups available of
        Some e \<Rightarrow> Some (Inl e, t)
      | None \<Rightarrow>
          if length (filter (\<lambda>entry. \<not> re_active entry) (rt_entries t)) < length groups
          then Some (Inl (AdmissionRuntime ResourceExhausted), t)
          else plan_commit groups 0 0 available stacks [] t)"

lemmas reservation_op_defs = reserve_def reserve_with_stacks_def reservation_stack_size_def
  ensure_consumable_def consume_def release_def reserve_plan_with_stacks_def

subsection \<open>Invariant\<close>

text \<open>
  An inactive entry promises nothing; an entry with stacks holds one unconsumed, non-null stack
  for every slot it still promises; the total is the sum of what the entries promise.
\<close>

definition entry_ok :: "reservation_entry \<Rightarrow> bool" where
  "entry_ok e \<longleftrightarrow> length (re_stacks e) = DYNAMIC_TASK_CAPACITY
     \<and> re_remaining e \<le> U8_MAX
     \<and> (re_active e \<longrightarrow> re_generation e \<noteq> 0)
     \<and> (\<not> re_active e \<longrightarrow> re_remaining e = 0)
     \<and> (re_stack_count e = 0 \<longrightarrow> re_next_stack e = 0)
     \<and> (re_stack_count e \<noteq> 0 \<longrightarrow> re_next_stack e + re_remaining e = re_stack_count e
          \<and> re_stack_count e \<le> DYNAMIC_TASK_CAPACITY
          \<and> (\<forall>i. re_next_stack e \<le> i \<and> i < re_stack_count e \<longrightarrow> re_stacks e ! i \<noteq> 0))"

definition reservation_table_ok :: "reservation_table \<Rightarrow> bool" where
  "reservation_table_ok t \<longleftrightarrow> length (rt_entries t) \<le> 255
     \<and> (\<forall>e \<in> set (rt_entries t). entry_ok e)
     \<and> rt_total_remaining t = sum_list (map re_remaining (rt_entries t))"

lemma set_entry_simps [simp]:
  "rt_entries (set_entry i e t) = (rt_entries t)[i := e]"
  "rt_total_remaining (set_entry i e t) = rt_total_remaining t"
  by (simp_all add: set_entry_def)

lemma entry_ok_nth: "reservation_table_ok t \<Longrightarrow> i < length (rt_entries t) \<Longrightarrow> entry_ok (rt_entries t ! i)"
  by (simp add: reservation_table_ok_def)

lemma reservation_table_new_ok: "n \<le> 255 \<Longrightarrow> reservation_table_ok (reservation_table_new n)"
  by (simp add: reservation_table_ok_def reservation_table_new_def entry_ok_def
      reservation_entry_EMPTY_def sum_list_replicate)

lemma total_remaining_bound:
  assumes "reservation_table_ok t"
  shows "rt_total_remaining t \<le> 65025"
proof -
  have "sum_list (map re_remaining (rt_entries t)) \<le> sum_list (map (\<lambda>_. 255) (rt_entries t))"
    using assms by (intro sum_list_mono) (auto simp: reservation_table_ok_def entry_ok_def)
  also have "\<dots> \<le> 65025" using assms by (simp add: sum_list_triv reservation_table_ok_def)
  finally show ?thesis using assms by (simp add: reservation_table_ok_def)
qed

lemma total_remaining_entry:
  "reservation_table_ok t \<Longrightarrow> i < length (rt_entries t) \<Longrightarrow>
    re_remaining (rt_entries t ! i) \<le> rt_total_remaining t"
  by (simp add: reservation_table_ok_def sum_list_member_le)

lemma reservation_table_ok_set:
  assumes "reservation_table_ok t" "i < length (rt_entries t)" "entry_ok e"
    and "tot + re_remaining (rt_entries t ! i) = rt_total_remaining t + re_remaining e"
  shows "reservation_table_ok ((set_entry i e t)\<lparr>rt_total_remaining := tot\<rparr>)"
proof -
  have "\<forall>x \<in> set ((rt_entries t)[i := e]). entry_ok x"
    using assms(1,3) set_update_subset_insert [of "rt_entries t" i e]
    by (auto simp: reservation_table_ok_def)
  moreover have "tot = sum_list (map re_remaining ((rt_entries t)[i := e]))"
    using sum_list_update [OF assms(2), of re_remaining e] assms(1,4)
    by (simp add: reservation_table_ok_def)
  ultimately show ?thesis using assms(1) by (simp add: reservation_table_ok_def)
qed

lemma bump_generation_nonzero [simp]: "bump_generation g \<noteq> 0"
  by (auto simp: bump_generation_def max_def)

subsection \<open>Tokens of live entries\<close>

abbreviation token_at :: "reservation_table \<Rightarrow> nat \<Rightarrow> 32 word" where
  "token_at t i \<equiv> slot_handle i (ucast (re_generation (rt_entries t ! i)))"

lemma ucast16_le: "(ucast (g :: 16 word) :: 32 word) \<le> HANDLE_GENERATION_MAX"
proof -
  have "unat (ucast g :: 32 word) < 65536"
    using unsigned_less [of g, where ?'a = nat] by (simp add: unsigned_ucast_eq take_bit_nat_eq_self)
  then show ?thesis by (simp add: word_le_nat_alt handle_constants)
qed

lemma ucast16_back: "(ucast (ucast (g :: 16 word) :: 32 word) :: 16 word) = g"
  by (rule bit_word_eqI) (auto simp: bit_simps dest: bit_imp_le_length)

lemma slot_handle_fields:
  assumes "i < 255"
  shows "unat (slot_handle i (ucast (g :: 16 word)) AND 255) = i + 1"
    "drop_bit 8 (slot_handle i (ucast g)) = ucast g"
    "drop_bit 24 (slot_handle i (ucast g)) = 0"
proof -
  have i: "i + 1 < 256" using assms by simp
  show "unat (slot_handle i (ucast g) AND 255) = i + 1"
    unfolding slot_handle_def pack8_low [OF take_bit_of_small [OF i]] by (rule unat_of_small [OF i])
  show hi: "drop_bit 8 (slot_handle i (ucast g)) = ucast g"
    unfolding slot_handle_def by (rule pack8_high [OF take_bit_of_small [OF i] take_bit_ucast16])
  have "drop_bit 24 (slot_handle i (ucast g)) = drop_bit 16 (drop_bit 8 (slot_handle i (ucast g)))"
    by (simp add: drop_bit_drop_bit)
  also have "\<dots> = 0" unfolding hi by (rule bit_word_eqI) (auto simp: bit_simps dest: bit_imp_le_length)
  finally show "drop_bit 24 (slot_handle i (ucast g)) = 0" .
qed

lemma slot_handle_of_fields:
  assumes "drop_bit 24 (raw :: 32 word) = 0" "unat (raw AND 255) = i + 1"
  shows "raw = slot_handle i (ucast (ucast (drop_bit 8 raw) :: 16 word))"
proof -
  have "unat raw div 2 ^ 24 = 0"
    using assms(1) by (simp add: drop_bit_eq_div word_unat_eq_iff unat_div_distrib)
  then have "unat raw div 256 < 65536" by (simp add: div_eq_0_iff less_mult_imp_div_less)
  then have "ucast (ucast (drop_bit 8 raw) :: 16 word) = drop_bit 8 raw"
    by (intro ucast_roundtrip) (simp add: drop_bit_eq_div unat_div_distrib)
  then show ?thesis
    unfolding slot_handle_def assms(2) [symmetric] by (simp add: pack8_split)
qed

text \<open>A token resolves exactly to the active entry whose slot and generation it packs.\<close>

lemma resolve_slot_iff:
  assumes "reservation_table_ok t"
  shows "reservation_resolve_slot raw t = Inr i \<longleftrightarrow>
    i < length (rt_entries t) \<and> re_active (rt_entries t ! i) \<and> raw = token_at t i" (is "_ \<longleftrightarrow> ?live")
proof
  assume "reservation_resolve_slot raw t = Inr i"
  then have *: "drop_bit 24 raw = 0" "unat (raw AND 255) = i + 1" "i < length (rt_entries t)"
    "re_active (rt_entries t ! i)"
    "re_generation (rt_entries t ! i) = (ucast (drop_bit 8 raw) :: 16 word)"
    by (auto simp: reservation_resolve_slot_def Let_def RESERVATION_SLOT_BITS_def
        RESERVATION_SLOT_MASK_eq split: if_splits)
  from slot_handle_of_fields [OF *(1,2)] * show ?live by simp
next
  assume live: ?live
  then have "i < 255" using assms by (simp add: reservation_table_ok_def)
  note f = slot_handle_fields [OF this, of "re_generation (rt_entries t ! i)"]
  have "re_generation (rt_entries t ! i) \<noteq> 0"
    using entry_ok_nth [OF assms] live by (simp add: entry_ok_def)
  with live f show "reservation_resolve_slot raw t = Inr i"
    by (simp add: reservation_resolve_slot_def Let_def RESERVATION_SLOT_BITS_def
        RESERVATION_SLOT_MASK_eq ucast16_back)
qed

lemma resolve_slot_Inl: "reservation_resolve_slot raw t = Inl e \<Longrightarrow> e = InvalidHandle"
  by (auto simp: reservation_resolve_slot_def Let_def split: if_splits)

lemma resolve_slot_cases:
  assumes "reservation_table_ok t"
  obtains (dead) "reservation_resolve_slot raw t = Inl InvalidHandle"
  | (live) i where "reservation_resolve_slot raw t = Inr i" "i < length (rt_entries t)"
      "re_active (rt_entries t ! i)" "raw = token_at t i" "entry_ok (rt_entries t ! i)"
proof (cases "reservation_resolve_slot raw t")
  case (Inl e)
  then show ?thesis using dead resolve_slot_Inl by simp
next
  case (Inr i)
  then show ?thesis using live resolve_slot_iff [OF assms, of raw i] entry_ok_nth [OF assms] by blast
qed

subsection \<open>Reserving\<close>

lemma reserved_entry_ok:
  "entry_ok e \<Longrightarrow> required \<le> U8_MAX \<Longrightarrow> entry_ok (reserved_entry required e)"
  by (simp add: entry_ok_def reserved_entry_def)

definition after_reserve :: "nat \<Rightarrow> nat \<Rightarrow> reservation_table \<Rightarrow> reservation_table" where
  "after_reserve i required t = (set_entry i (reserved_entry required (rt_entries t ! i)) t)
     \<lparr>rt_total_remaining := rt_total_remaining t + required\<rparr>"

lemma reserve_cases:
  assumes "reservation_table_ok t"
  shows "reserve required available t =
    (if required > available then Some (Inl (InsufficientTaskSlots required available), t)
     else case position (\<lambda>entry. \<not> re_active entry) (rt_entries t) of
       None \<Rightarrow> Some (Inl (AdmissionRuntime ResourceExhausted), t)
     | Some i \<Rightarrow>
         if required > U8_MAX then Some (Inl (AdmissionRuntime ResourceExhausted), t)
         else Some (Inr (token_at (after_reserve i required t) i), after_reserve i required t))"
proof (cases "position (\<lambda>entry. \<not> re_active entry) (rt_entries t)")
  case None
  then show ?thesis by (simp add: reserve_def)
next
  case (Some i)
  note i = position_SomeD(1) [OF Some]
  then have i255: "i < 255" using assms by (simp add: reservation_table_ok_def)
  let ?e = "reserved_entry required (rt_entries t ! i)"
  let ?raw = "slot_handle i (ucast (re_generation ?e))"
  have raw: "push_bit 8 (ucast (re_generation ?e)) OR of_nat (i + 1) = ?raw"
    by (simp only: slot_handle_def pack8_def)
  have "?raw \<noteq> 0" using slot_handle_fields(1) [OF i255, of "re_generation ?e"] by auto
  moreover have "required \<le> 255 \<Longrightarrow> rt_total_remaining t + required \<le> U32_MAX"
    using total_remaining_bound [OF assms] by simp
  ultimately show ?thesis
    using Some i i255 raw
    by (simp add: reserve_def Let_def RESERVATION_SLOT_BITS_def after_reserve_def
        del: of_nat_Suc of_nat_add)
qed

lemma after_reserve_ok:
  assumes "reservation_table_ok t" "i < length (rt_entries t)" "\<not> re_active (rt_entries t ! i)"
    "required \<le> U8_MAX"
  shows "reservation_table_ok (after_reserve i required t)"
proof -
  note e = entry_ok_nth [OF assms(1,2)]
  from e assms(3) have "re_remaining (rt_entries t ! i) = 0" by (simp add: entry_ok_def)
  then show ?thesis
    unfolding after_reserve_def
    by (intro reservation_table_ok_set [OF assms(1,2) reserved_entry_ok [OF e assms(4)]])
      (simp add: reserved_entry_def)
qed

lemma reserve_inv:
  assumes "reservation_table_ok t"
  shows "\<exists>r t'. reserve required available t = Some (r, t') \<and> reservation_table_ok t'"
proof (cases "position (\<lambda>entry. \<not> re_active entry) (rt_entries t)")
  case None
  then show ?thesis using assms by (simp add: reserve_cases)
next
  case (Some i)
  from position_SomeD(1,2) [OF Some] after_reserve_ok [OF assms, of i required]
  show ?thesis using assms Some by (simp add: reserve_cases)
qed

text \<open>A reservation with stacks: the entry of a plain one, with the stacks attached.\<close>

definition after_reserve_stacks ::
  "nat \<Rightarrow> task_resource_requirements \<Rightarrow> nat list \<Rightarrow> reservation_table \<Rightarrow> reservation_table" where
  "after_reserve_stacks i required stacks t =
     (let t' = after_reserve i (task_slots required) t
      in set_entry i ((rt_entries t' ! i)\<lparr>re_stack_count := task_slots required,
           re_stack_size := stack_bytes_per_task required, re_stacks := stacks\<rparr>) t')"

lemma after_reserve_at:
  assumes "i < length (rt_entries t)"
  shows "rt_entries (after_reserve i required t) ! i = reserved_entry required (rt_entries t ! i)"
    "length (rt_entries (after_reserve i required t)) = length (rt_entries t)"
    "j \<noteq> i \<Longrightarrow> rt_entries (after_reserve i required t) ! j = rt_entries t ! j"
  using assms by (simp_all add: after_reserve_def)

lemma after_reserve_stacks_at:
  assumes "i < length (rt_entries t)"
  shows "rt_entries (after_reserve_stacks i required stacks t) ! i =
      (reserved_entry (task_slots required) (rt_entries t ! i))\<lparr>re_stack_count := task_slots required,
         re_stack_size := stack_bytes_per_task required, re_stacks := stacks\<rparr>"
    "length (rt_entries (after_reserve_stacks i required stacks t)) = length (rt_entries t)"
    "j \<noteq> i \<Longrightarrow> rt_entries (after_reserve_stacks i required stacks t) ! j = rt_entries t ! j"
  using assms by (simp_all add: after_reserve_stacks_def Let_def after_reserve_at)

lemma reserve_with_stacks_cases:
  assumes "reservation_table_ok t"
  shows "reserve_with_stacks required available stacks t =
    (if task_slots required > available
     then Some (Inl (InsufficientTaskSlots (task_slots required) available), t)
     else case position (\<lambda>entry. \<not> re_active entry) (rt_entries t) of
       None \<Rightarrow> Some (Inl (AdmissionRuntime ResourceExhausted), t)
     | Some i \<Rightarrow>
         if task_slots required > U8_MAX then Some (Inl (AdmissionRuntime ResourceExhausted), t)
         else Some (Inr (token_at (after_reserve_stacks i required stacks t) i),
            after_reserve_stacks i required stacks t))"
proof (cases "position (\<lambda>entry. \<not> re_active entry) (rt_entries t)")
  case None
  then show ?thesis by (simp add: reserve_with_stacks_def reserve_cases [OF assms])
next
  case (Some i)
  note i = position_SomeD(1,2) [OF Some]
  have "reservation_resolve_slot (token_at (after_reserve i (task_slots required) t) i)
      (after_reserve i (task_slots required) t) = Inr i" if "task_slots required \<le> U8_MAX"
    using resolve_slot_iff [OF after_reserve_ok [OF assms i that]] i
    by (simp add: after_reserve_at reserved_entry_def)
  with i Some show ?thesis
    by (simp add: reserve_with_stacks_def reserve_cases [OF assms] after_reserve_at
        after_reserve_stacks_at)
      (simp add: after_reserve_stacks_def after_reserve_at reserved_entry_def Let_def)
qed

definition stacks_fit :: "task_resource_requirements \<Rightarrow> nat list \<Rightarrow> bool" where
  "stacks_fit required stacks \<longleftrightarrow> length stacks = DYNAMIC_TASK_CAPACITY
     \<and> task_slots required \<le> DYNAMIC_TASK_CAPACITY \<and> (\<forall>i < task_slots required. stacks ! i \<noteq> 0)"

lemma after_reserve_stacks_ok:
  assumes "reservation_table_ok t" "i < length (rt_entries t)" "\<not> re_active (rt_entries t ! i)"
    "stacks_fit required stacks"
  shows "reservation_table_ok (after_reserve_stacks i required stacks t)"
proof -
  have small: "task_slots required \<le> U8_MAX"
    using assms(4) by (simp add: stacks_fit_def DYNAMIC_TASK_CAPACITY_def)
  note ok = after_reserve_ok [OF assms(1-3) small]
  let ?t = "after_reserve i (task_slots required) t"
  let ?e = "(rt_entries ?t ! i)\<lparr>re_stack_count := task_slots required,
     re_stack_size := stack_bytes_per_task required, re_stacks := stacks\<rparr>"
  have "entry_ok ?e"
    using assms(2,4) small by (simp add: after_reserve_at entry_ok_def reserved_entry_def stacks_fit_def)
  then have "reservation_table_ok ((set_entry i ?e ?t)\<lparr>rt_total_remaining := rt_total_remaining ?t\<rparr>)"
    using ok assms(2) by (intro reservation_table_ok_set) (simp_all add: after_reserve_at)
  then show ?thesis by (simp add: after_reserve_stacks_def Let_def set_entry_def)
qed

subsection \<open>Consuming\<close>

definition consumed_entry :: "reservation_entry \<Rightarrow> reservation_entry" where
  "consumed_entry e = (if re_stack_count e = 0 then e\<lparr>re_remaining := re_remaining e - 1\<rparr>
     else e\<lparr>re_stacks := (re_stacks e)[re_next_stack e := 0], re_next_stack := re_next_stack e + 1,
       re_remaining := re_remaining e - 1\<rparr>)"

definition next_stack :: "reservation_entry \<Rightarrow> reserved_stack option" where
  "next_stack e = (if re_stack_count e = 0 then None
     else Some \<lparr>stk_pointer = re_stacks e ! re_next_stack e, stk_size = re_stack_size e\<rparr>)"

lemma consumed_entry_ok: "entry_ok e \<Longrightarrow> re_active e \<Longrightarrow> re_remaining e \<noteq> 0 \<Longrightarrow> entry_ok (consumed_entry e)"
  by (auto simp: entry_ok_def consumed_entry_def nth_list_update)

lemma consume_live:
  assumes "reservation_table_ok t" "reservation_resolve_slot raw t = Inr i"
  shows "consume raw t =
    (let e = rt_entries t ! i in
     if re_remaining e = 0 then Some (Inl NoTaskSlots, t)
     else Some (Inr (next_stack e),
       (set_entry i (consumed_entry e) t)\<lparr>rt_total_remaining := rt_total_remaining t - 1\<rparr>))"
proof -
  have i: "i < length (rt_entries t)" using assms resolve_slot_iff by blast
  note e = entry_ok_nth [OF assms(1) i]
  have "re_remaining (rt_entries t ! i) \<noteq> 0 \<Longrightarrow> 1 \<le> rt_total_remaining t"
    using total_remaining_entry [OF assms(1) i] by simp
  moreover have "re_remaining (rt_entries t ! i) \<noteq> 0 \<Longrightarrow> re_stack_count (rt_entries t ! i) \<noteq> 0 \<Longrightarrow>
      re_next_stack (rt_entries t ! i) < length (re_stacks (rt_entries t ! i))
      \<and> re_stacks (rt_entries t ! i) ! re_next_stack (rt_entries t ! i) \<noteq> 0
      \<and> re_next_stack (rt_entries t ! i) + 1 \<le> U8_MAX"
    using e by (auto simp: entry_ok_def DYNAMIC_TASK_CAPACITY_def)
  ultimately show ?thesis
    using assms(2) by (auto simp: consume_def Let_def consumed_entry_def next_stack_def)
qed

lemma consume_dead:
  "reservation_resolve_slot raw t = Inl e \<Longrightarrow> consume raw t = Some (Inl e, t)"
  by (simp add: consume_def)

lemma consume_inv:
  assumes "reservation_table_ok t"
  shows "\<exists>r t'. consume raw t = Some (r, t') \<and> reservation_table_ok t'"
  using assms
proof (cases rule: resolve_slot_cases [where raw = raw])
  case dead
  with assms show ?thesis by (simp add: consume_dead)
next
  case (live i)
  show ?thesis
  proof (cases "re_remaining (rt_entries t ! i) = 0")
    case True
    with assms show ?thesis by (simp add: consume_live [OF assms live(1)])
  next
    case False
    have "reservation_table_ok ((set_entry i (consumed_entry (rt_entries t ! i)) t)
        \<lparr>rt_total_remaining := rt_total_remaining t - 1\<rparr>)"
      using consumed_entry_ok [OF live(5,3) False] total_remaining_entry [OF assms live(2)] False
      by (intro reservation_table_ok_set [OF assms live(2)]) (simp_all add: consumed_entry_def)
    with False show ?thesis by (simp add: consume_live [OF assms live(1)] Let_def)
  qed
qed

subsection \<open>Releasing\<close>

definition unconsumed :: "reservation_entry \<Rightarrow> nat list" where
  "unconsumed e = drop (re_next_stack e) (take (re_stack_count e) (re_stacks e))"

lemma pack_released_eq:
  assumes "released_count r + length (filter (\<lambda>p. p \<noteq> 0) ps) \<le> length (released_stacks r)"
  shows "pack_released ps r = Some \<lparr>
    released_stacks = take (released_count r) (released_stacks r) @ filter (\<lambda>p. p \<noteq> 0) ps
      @ drop (released_count r + length (filter (\<lambda>p. p \<noteq> 0) ps)) (released_stacks r),
    released_count = released_count r + length (filter (\<lambda>p. p \<noteq> 0) ps)\<rparr>"
  using assms
proof (induction ps arbitrary: r)
  case Nil
  then show ?case by simp
next
  case (Cons p ps)
  show ?case
  proof (cases "p = 0")
    case True
    with Cons show ?thesis by simp
  next
    case False
    let ?r = "r\<lparr>released_stacks := (released_stacks r)[released_count r := p],
      released_count := released_count r + 1\<rparr>"
    have lt: "released_count r < length (released_stacks r)" using Cons.prems False by simp
    have "take (Suc (released_count r)) ((released_stacks r)[released_count r := p])
        = take (released_count r) (released_stacks r) @ [p]"
      using lt by (simp add: take_Suc_conv_app_nth)
    with Cons.IH [of ?r] Cons.prems False lt show ?thesis by simp
  qed
qed

lemma unconsumed_nonzero: "entry_ok e \<Longrightarrow> filter (\<lambda>p. p \<noteq> 0) (unconsumed e) = unconsumed e"
proof (rule filter_True, rule ballI)
  fix p
  assume e: "entry_ok e" and "p \<in> set (unconsumed e)"
  then obtain k where k: "k < length (unconsumed e)" "p = unconsumed e ! k"
    by (metis in_set_conv_nth)
  moreover have "re_next_stack e \<le> length (take (re_stack_count e) (re_stacks e))"
    using k(1) unfolding unconsumed_def by (metis drop_all le_cases length_0_conv not_less0)
  ultimately have "p = re_stacks e ! (re_next_stack e + k)" "re_next_stack e + k < re_stack_count e"
    by (auto simp: unconsumed_def)
  with e show "p \<noteq> 0" by (auto simp: entry_ok_def)
qed

lemma unconsumed_length: "entry_ok e \<Longrightarrow> re_stack_count e \<noteq> 0 \<Longrightarrow> length (unconsumed e) = re_remaining e"
  by (auto simp: entry_ok_def unconsumed_def)

lemma unconsumed_none: "re_stack_count e = 0 \<Longrightarrow> unconsumed e = []"
  by (simp add: unconsumed_def)

lemma unconsumed_le: "entry_ok e \<Longrightarrow> length (unconsumed e) \<le> DYNAMIC_TASK_CAPACITY"
  by (auto simp: entry_ok_def unconsumed_def)

definition released_of :: "reservation_entry \<Rightarrow> released_task_resources" where
  "released_of e = \<lparr>released_stacks = unconsumed e
       @ replicate (DYNAMIC_TASK_CAPACITY - length (unconsumed e)) 0,
     released_count = length (unconsumed e)\<rparr>"

lemma release_live:
  assumes "reservation_table_ok t" "reservation_resolve_slot raw t = Inr i"
  shows "release raw t = Some (Inr (released_of (rt_entries t ! i)),
    (set_entry i (released_entry (rt_entries t ! i)) t)
      \<lparr>rt_total_remaining := rt_total_remaining t - re_remaining (rt_entries t ! i)\<rparr>)"
proof -
  have i: "i < length (rt_entries t)" using assms resolve_slot_iff by blast
  let ?e = "rt_entries t ! i"
  note e = entry_ok_nth [OF assms(1) i]
  have "re_next_stack ?e \<le> re_stack_count ?e \<and> re_stack_count ?e \<le> length (re_stacks ?e)"
    using e by (auto simp: entry_ok_def)
  moreover have "pack_released (unconsumed ?e)
      \<lparr>released_stacks = replicate DYNAMIC_TASK_CAPACITY 0, released_count = 0\<rparr> = Some (released_of ?e)"
    using unconsumed_nonzero [OF e] unconsumed_le [OF e]
    by (subst pack_released_eq) (simp_all add: released_of_def)
  ultimately show ?thesis
    using assms(2) total_remaining_entry [OF assms(1) i]
    by (simp add: release_def Let_def unconsumed_def)
qed

lemma release_dead: "reservation_resolve_slot raw t = Inl e \<Longrightarrow> release raw t = Some (Inl e, t)"
  by (simp add: release_def)

lemma released_entry_ok: "entry_ok e \<Longrightarrow> entry_ok (released_entry e)"
  by (simp add: entry_ok_def released_entry_def)

lemma release_inv:
  assumes "reservation_table_ok t"
  shows "\<exists>r t'. release raw t = Some (r, t') \<and> reservation_table_ok t'"
  using assms
proof (cases rule: resolve_slot_cases [where raw = raw])
  case dead
  with assms show ?thesis by (simp add: release_dead)
next
  case (live i)
  have "reservation_table_ok ((set_entry i (released_entry (rt_entries t ! i)) t)
      \<lparr>rt_total_remaining := rt_total_remaining t - re_remaining (rt_entries t ! i)\<rparr>)"
    using released_entry_ok [OF live(5)] total_remaining_entry [OF assms live(2)]
    by (intro reservation_table_ok_set [OF assms live(2)]) (simp_all add: released_entry_def)
  then show ?thesis by (simp add: release_live [OF assms live(1)])
qed

subsection \<open>Other reservations are not touched\<close>

definition holds_entry :: "32 word \<Rightarrow> reservation_entry \<Rightarrow> reservation_table \<Rightarrow> bool" where
  "holds_entry raw e t \<longleftrightarrow> (\<exists>i. reservation_resolve_slot raw t = Inr i \<and> rt_entries t ! i = e)"

lemma token_at_inj:
  assumes "reservation_table_ok t" "i < length (rt_entries t)" "j < length (rt_entries t)"
    "token_at t i = token_at t j"
  shows "i = j"
proof -
  have "i < 255" "j < 255" using assms by (auto simp: reservation_table_ok_def)
  from slot_handle_inj [OF assms(4) this ucast16_le ucast16_le] show ?thesis by simp
qed

lemma holds_entry_frame:
  assumes ok: "reservation_table_ok t" and ok': "reservation_table_ok t'"
    and len: "length (rt_entries t') = length (rt_entries t)"
    and same: "\<And>j. j \<noteq> i \<Longrightarrow> rt_entries t' ! j = rt_entries t ! j"
    and other: "reservation_resolve_slot raw t \<noteq> Inr i"
    and h: "holds_entry raw e t"
  shows "holds_entry raw e t'"
proof -
  from h obtain j where j: "reservation_resolve_slot raw t = Inr j" "rt_entries t ! j = e"
    by (auto simp: holds_entry_def)
  have "j \<noteq> i" using j other by auto
  from j(1) have "reservation_resolve_slot raw t' = Inr j"
    unfolding resolve_slot_iff [OF ok] resolve_slot_iff [OF ok'] using same [OF \<open>j \<noteq> i\<close>] len by simp
  with same [OF \<open>j \<noteq> i\<close>] j(2) show ?thesis by (auto simp: holds_entry_def)
qed

lemma resolve_inactive:
  "reservation_table_ok t \<Longrightarrow> \<not> re_active (rt_entries t ! i) \<Longrightarrow> reservation_resolve_slot raw t \<noteq> Inr i"
  using resolve_slot_iff by blast

subsection \<open>The commit loop of a plan cannot fail after the pre-check\<close>

definition granted_entry :: "task_resource_requirements \<Rightarrow> nat list \<Rightarrow> reservation_entry \<Rightarrow> bool" where
  "granted_entry required stacks e \<longleftrightarrow> re_remaining e = task_slots required
     \<and> re_stack_count e = task_slots required \<and> re_stack_size e = stack_bytes_per_task required
     \<and> re_next_stack e = 0 \<and> re_stacks e = stacks"

definition free_entries :: "reservation_table \<Rightarrow> nat" where
  "free_entries t = length (filter (\<lambda>entry. \<not> re_active entry) (rt_entries t))"

lemma reserve_with_stacks_granted:
  assumes ok: "reservation_table_ok t" and fit: "stacks_fit required stacks"
    and avail: "task_slots required \<le> available" and free: "0 < free_entries t"
  shows "\<exists>raw t' e. reserve_with_stacks required available stacks t = Some (Inr raw, t')
    \<and> reservation_table_ok t' \<and> holds_entry raw e t' \<and> granted_entry required stacks e
    \<and> free_entries t' = free_entries t - 1 \<and> length (rt_entries t') = length (rt_entries t)
    \<and> rt_total_remaining t' = rt_total_remaining t + task_slots required
    \<and> (\<forall>raw' e'. holds_entry raw' e' t \<longrightarrow> raw' \<noteq> raw \<and> holds_entry raw' e' t')"
proof -
  obtain entry where "entry \<in> set (rt_entries t)" "\<not> re_active entry"
    using free by (auto simp: free_entries_def filter_empty_conv)
  then obtain i where pos: "position (\<lambda>entry. \<not> re_active entry) (rt_entries t) = Some i"
    using position_ex [of entry "rt_entries t" "\<lambda>entry. \<not> re_active entry"] by auto
  note i = position_SomeD(1,2) [OF pos]
  let ?t = "after_reserve_stacks i required stacks t"
  have small: "task_slots required \<le> U8_MAX"
    using fit by (simp add: stacks_fit_def DYNAMIC_TASK_CAPACITY_def)
  note ok' = after_reserve_stacks_ok [OF ok i fit]
  note at = after_reserve_stacks_at [OF i(1), where required = required and stacks = stacks]
  have res: "reserve_with_stacks required available stacks t = Some (Inr (token_at ?t i), ?t)"
    using avail small pos by (simp add: reserve_with_stacks_cases [OF ok])
  have live: "reservation_resolve_slot (token_at ?t i) ?t = Inr i"
    using resolve_slot_iff [OF ok'] i at by (simp add: reserved_entry_def)
  then have "holds_entry (token_at ?t i) (rt_entries ?t ! i) ?t" by (auto simp: holds_entry_def)
  moreover have "granted_entry required stacks (rt_entries ?t ! i)"
    by (simp add: at granted_entry_def reserved_entry_def)
  moreover have "free_entries ?t = free_entries t - 1"
    using filter_count_update [OF i(1), of "\<lambda>entry. \<not> re_active entry" "rt_entries ?t ! i"] i
    by (simp add: free_entries_def after_reserve_stacks_def after_reserve_def Let_def reserved_entry_def)
  moreover have "rt_total_remaining ?t = rt_total_remaining t + task_slots required"
    by (simp add: after_reserve_stacks_def after_reserve_def Let_def)
  moreover have "raw' \<noteq> token_at ?t i \<and> holds_entry raw' e' ?t" if h: "holds_entry raw' e' t" for raw' e'
  proof
    show held: "holds_entry raw' e' ?t"
      using holds_entry_frame [OF ok ok' at(2,3) resolve_inactive [OF ok i(2)] h] .
    from h obtain j where j: "reservation_resolve_slot raw' t = Inr j" by (auto simp: holds_entry_def)
    then have "j \<noteq> i" "j < length (rt_entries t)" "raw' = token_at t j"
      using resolve_slot_iff [OF ok] i by auto
    with at(3) [of j] show "raw' \<noteq> token_at ?t i"
      using token_at_inj [OF ok', of j i] i(1) at(2) by auto
  qed
  ultimately show ?thesis
    using res ok' at(2) by (intro exI [of _ "token_at ?t i"] exI [of _ ?t] exI [of _ "rt_entries ?t ! i"]) simp
qed

text \<open>Every group of a plan has its own live reservation, and no earlier one is lost.\<close>

definition plan_granted ::
  "'o task_resource_group list \<Rightarrow> nat list list \<Rightarrow> 32 word list \<Rightarrow> reservation_table \<Rightarrow>
     reservation_table \<Rightarrow> bool" where
  "plan_granted groups stacks tokens t t' \<longleftrightarrow> reservation_table_ok t' \<and> length tokens = length groups
     \<and> (\<forall>k < length groups. \<exists>e. holds_entry (tokens ! k) e t'
          \<and> granted_entry (group_resources (groups ! k)) (stacks ! k) e)
     \<and> rt_total_remaining t' = rt_total_remaining t
         + sum_list (map (\<lambda>g. task_slots (group_resources g)) groups)
     \<and> (\<forall>raw e. holds_entry raw e t \<longrightarrow> holds_entry raw e t')"

lemma plan_granted_Cons:
  assumes "plan_granted groups stacks tokens t1 t'" "holds_entry raw e t1"
    "granted_entry (group_resources grp) stk e"
    "rt_total_remaining t1 = rt_total_remaining t + task_slots (group_resources grp)"
    "\<forall>raw e. holds_entry raw e t \<longrightarrow> holds_entry raw e t1"
  shows "plan_granted (grp # groups) (stk # stacks) (raw # tokens) t t'"
proof -
  have "\<exists>e. holds_entry ((raw # tokens) ! k) e t'
      \<and> granted_entry (group_resources ((grp # groups) ! k)) ((stk # stacks) ! k) e"
    if "k < length (grp # groups)" for k
    using that assms(1-3) by (cases k) (auto simp: plan_granted_def)
  then show ?thesis using assms by (simp add: plan_granted_def)
qed

lemma plan_commit_granted:
  assumes "reservation_table_ok t" "plan_check groups (available - taken) = None"
    and "length groups \<le> free_entries t"
    and "index + length groups \<le> length stacks" "index + length groups \<le> length (rt_entries t)"
    and "\<forall>k < length groups. stacks_fit (group_resources (groups ! k)) (drop index stacks ! k)"
  shows "\<exists>tokens t'. plan_commit groups index taken available stacks acc t
      = Some (Inr (acc @ tokens), t') \<and> plan_granted groups (drop index stacks) tokens t t'"
  using assms
proof (induction groups arbitrary: t index taken acc)
  case Nil
  then show ?case by (simp add: plan_granted_def)
next
  case (Cons grp groups)
  let ?req = "group_resources grp"
  have index: "index < length stacks" using Cons.prems(4) by simp
  have avail: "task_slots ?req \<le> available - taken"
    and rest: "plan_check groups (available - (taken + task_slots ?req)) = None"
    using Cons.prems(2) by (auto simp: Let_def diff_diff_eq split: if_splits)
  have fit: "stacks_fit ?req (stacks ! index)"
    using Cons.prems(6) index by (auto dest: spec [of _ 0])
  have fits: "\<forall>k < length groups. stacks_fit (group_resources (groups ! k)) (drop (index + 1) stacks ! k)"
  proof (intro allI impI)
    fix k
    assume "k < length groups"
    with Cons.prems(6) have "stacks_fit (group_resources (groups ! k)) (drop index stacks ! Suc k)"
      by (auto dest: spec [of _ "Suc k"])
    with index show "stacks_fit (group_resources (groups ! k)) (drop (index + 1) stacks ! k)"
      by (simp add: Cons_nth_drop_Suc [symmetric])
  qed
  have free: "0 < free_entries t" using Cons.prems(3) by simp
  from reserve_with_stacks_granted [OF Cons.prems(1) fit avail free] obtain raw t1 e where
    r: "reserve_with_stacks ?req (available - taken) (stacks ! index) t
        = Some (Inr raw :: 'a task_admission_error + 32 word, t1)"
    and t1: "reservation_table_ok t1" "holds_entry raw e t1" "granted_entry ?req (stacks ! index) e"
      "free_entries t1 = free_entries t - 1" "length (rt_entries t1) = length (rt_entries t)"
      "rt_total_remaining t1 = rt_total_remaining t + task_slots ?req"
      "\<forall>raw' e'. holds_entry raw' e' t \<longrightarrow> holds_entry raw' e' t1"
    by blast
  have pre: "length groups \<le> free_entries t1" "index + 1 + length groups \<le> length stacks"
    "index + 1 + length groups \<le> length (rt_entries t1)"
    using Cons.prems(3-5) t1(4,5) by auto
  from Cons.IH [OF t1(1) rest pre fits, of "acc @ [raw]"] obtain tokens t' where
    c: "plan_commit groups (index + 1) (taken + task_slots ?req) available stacks (acc @ [raw]) t1
        = Some (Inr ((acc @ [raw]) @ tokens), t')"
    and g: "plan_granted groups (drop (index + 1) stacks) tokens t1 t'" by blast
  have "plan_commit (grp # groups) index taken available stacks acc t
      = Some (Inr (acc @ (raw # tokens)), t')"
    using r c Cons.prems(5) index t1(5) by simp
  moreover have "plan_granted (grp # groups) (drop index stacks) (raw # tokens) t t'"
    using plan_granted_Cons [OF g t1(2,3,6,7)] Cons_nth_drop_Suc [OF index] by simp
  ultimately show ?case by blast
qed

subsection \<open>Sequences of calls\<close>

datatype reservation_op =
    OReserve nat nat
  | OReserveStacks task_resource_requirements nat "nat list"
  | OConsume "32 word"
  | ORelease "32 word"

fun reservation_step :: "reservation_op \<Rightarrow> reservation_table \<Rightarrow> reservation_table option" where
  "reservation_step (OReserve n available) t =
     map_option snd (reserve n available t :: ((unit task_admission_error + 32 word) \<times> _) option)"
| "reservation_step (OReserveStacks required available stacks) t =
     map_option snd (reserve_with_stacks required available stacks t
       :: ((unit task_admission_error + 32 word) \<times> _) option)"
| "reservation_step (OConsume raw) t = map_option snd (consume raw t)"
| "reservation_step (ORelease raw) t = map_option snd (release raw t)"

fun reservation_run :: "reservation_op list \<Rightarrow> reservation_table \<Rightarrow> reservation_table option" where
  "reservation_run [] t = Some t"
| "reservation_run (x # xs) t = do { t \<leftarrow> reservation_step x t; reservation_run xs t }"

fun reservation_op_ok :: "reservation_op \<Rightarrow> bool" where
  "reservation_op_ok (OReserveStacks required available stacks) = stacks_fit required stacks"
| "reservation_op_ok _ = True"

lemma reserve_with_stacks_inv:
  assumes "reservation_table_ok t" "stacks_fit required stacks"
  shows "\<exists>r t'. reserve_with_stacks required available stacks t = Some (r, t') \<and> reservation_table_ok t'"
proof (cases "position (\<lambda>entry. \<not> re_active entry) (rt_entries t)")
  case None
  then show ?thesis using assms by (simp add: reserve_with_stacks_cases)
next
  case (Some i)
  from after_reserve_stacks_ok [OF assms(1) position_SomeD(1,2) [OF Some] assms(2)] Some show ?thesis
    using assms(1) by (simp add: reserve_with_stacks_cases)
qed

lemma reservation_step_inv:
  assumes "reservation_table_ok t" "reservation_op_ok x"
  shows "\<exists>t'. reservation_step x t = Some t' \<and> reservation_table_ok t'"
proof (cases x)
  case (OReserve n available)
  from reserve_inv [OF assms(1), where 'a = unit, of n available] OReserve show ?thesis by auto
next
  case (OReserveStacks required available stacks)
  from reserve_with_stacks_inv [OF assms(1), where 'a = unit, of required stacks available]
    OReserveStacks assms(2) show ?thesis by auto
next
  case (OConsume raw)
  from consume_inv [OF assms(1), of raw] OConsume show ?thesis by auto
next
  case (ORelease raw)
  from release_inv [OF assms(1), of raw] ORelease show ?thesis by auto
qed

lemma reservation_run_inv:
  "reservation_table_ok t \<Longrightarrow> \<forall>x \<in> set xs. reservation_op_ok x \<Longrightarrow>
    \<exists>t'. reservation_run xs t = Some t' \<and> reservation_table_ok t'"
proof (induction xs arbitrary: t)
  case Nil
  then show ?case by simp
next
  case (Cons x xs)
  from reservation_step_inv [OF Cons.prems(1), of x] Cons.prems(2) obtain t1 where
    "reservation_step x t = Some t1" "reservation_table_ok t1" by auto
  with Cons.IH [of t1] Cons.prems(2) show ?case by simp
qed

subsection \<open>Properties\<close>

text \<open>
  C39. The reservation table never promises more or less than its live entries hold: after any
  sequence of reservations, consumptions and releases, with live, stale or forged tokens, no call
  has panicked (no counter under- or overflowed and no stack index was out of range) and the total
  that guards ordinary task creation is the sum of what the active entries still promise.
\<close>

theorem reservation_total_exact:
  assumes "n \<le> 255" "\<forall>x \<in> set xs. reservation_op_ok x"
  shows "\<exists>t. reservation_run xs (reservation_table_new n) = Some t \<and> reservation_table_ok t
    \<and> rt_total_remaining t = sum_list (map re_remaining (filter re_active (rt_entries t)))"
proof -
  from reservation_run_inv [OF reservation_table_new_ok [OF assms(1)] assms(2)] obtain t where
    t: "reservation_run xs (reservation_table_new n) = Some t" "reservation_table_ok t" by blast
  have "sum_list (map re_remaining es) = sum_list (map re_remaining (filter re_active es))"
    if "\<forall>e \<in> set es. entry_ok e" for es
    using that by (induction es) (auto simp: entry_ok_def)
  from this [of "rt_entries t"] have
    "rt_total_remaining t = sum_list (map re_remaining (filter re_active (rt_entries t)))"
    using t(2) unfolding reservation_table_ok_def by (elim conjE) (drule meta_mp, assumption, simp only:)
  with t show ?thesis by blast
qed

theorem reservation_total_exact_witness:
  "\<exists>t. reservation_run [OReserve 3 15, OConsume 257, ORelease 999] (reservation_table_new 4) = Some t
    \<and> reservation_table_ok t
    \<and> rt_total_remaining t = sum_list (map re_remaining (filter re_active (rt_entries t)))"
  using reservation_total_exact [of 4 "[OReserve 3 15, OConsume 257, ORelease 999]"] by simp

fun consume_n :: "nat \<Rightarrow> 32 word \<Rightarrow> reservation_table \<Rightarrow> (nat list \<times> reservation_table) option" where
  "consume_n 0 raw t = Some ([], t)"
| "consume_n (Suc k) raw t = do {
     (r, t) \<leftarrow> consume raw t;
     (case r of
        Inr (Some stack) \<Rightarrow> do {
          (ps, t) \<leftarrow> consume_n k raw t;
          Some (stk_pointer stack # ps, t)
        }
      | _ \<Rightarrow> None)
   }"

lemma consume_holds:
  assumes "reservation_table_ok t" "holds_entry raw e t" "re_remaining e \<noteq> 0" "re_stack_count e \<noteq> 0"
  shows "\<exists>t'. consume raw t = Some (Inr (next_stack e), t') \<and> reservation_table_ok t'
    \<and> holds_entry raw (consumed_entry e) t' \<and> rt_total_remaining t' = rt_total_remaining t - 1"
proof -
  from assms(2) obtain i where i: "reservation_resolve_slot raw t = Inr i" "rt_entries t ! i = e"
    by (auto simp: holds_entry_def)
  then have len: "i < length (rt_entries t)" and raw: "raw = token_at t i" "re_active e"
    using resolve_slot_iff [OF assms(1)] by auto
  let ?t = "(set_entry i (consumed_entry e) t)\<lparr>rt_total_remaining := rt_total_remaining t - 1\<rparr>"
  have c: "consume raw t = Some (Inr (next_stack e), ?t)"
    using consume_live [OF assms(1) i(1)] i(2) assms(3) by (simp add: Let_def)
  with consume_inv [OF assms(1), of raw] have ok: "reservation_table_ok ?t" by auto
  have "reservation_resolve_slot raw ?t = Inr i"
    using resolve_slot_iff [OF ok] len raw i(2) by (simp add: consumed_entry_def)
  with c ok len show ?thesis by (auto simp: holds_entry_def)
qed

lemma unconsumed_step:
  assumes "entry_ok e" "re_remaining e \<noteq> 0" "re_stack_count e \<noteq> 0"
  shows "unconsumed e = re_stacks e ! re_next_stack e # unconsumed (consumed_entry e)"
proof -
  let ?n = "re_next_stack e" and ?c = "re_stack_count e"
  have n: "?n < ?c" "?c \<le> length (re_stacks e)" using assms by (auto simp: entry_ok_def)
  then have "unconsumed e = re_stacks e ! ?n # drop (Suc ?n) (take ?c (re_stacks e))"
    by (simp add: unconsumed_def Cons_nth_drop_Suc [symmetric])
  also have "drop (Suc ?n) (take ?c (re_stacks e)) = unconsumed (consumed_entry e)"
    using assms(3) by (simp add: unconsumed_def consumed_entry_def take_update_swap drop_update_cancel)
  finally show ?thesis .
qed

lemma consume_n_holds:
  assumes "reservation_table_ok t" "holds_entry raw e t" "re_stack_count e \<noteq> 0" "k \<le> re_remaining e"
  shows "\<exists>t' e'. consume_n k raw t = Some (take k (unconsumed e), t') \<and> reservation_table_ok t'
    \<and> holds_entry raw e' t' \<and> unconsumed e' = drop k (unconsumed e)
    \<and> re_remaining e' = re_remaining e - k \<and> re_stack_count e' \<noteq> 0
    \<and> rt_total_remaining t' = rt_total_remaining t - k"
  using assms
proof (induction k arbitrary: t e)
  case 0
  then show ?case by (intro exI [of _ t] exI [of _ e]) simp
next
  case (Suc k)
  have rem: "re_remaining e \<noteq> 0" using Suc.prems(4) by simp
  from consume_holds [OF Suc.prems(1,2) rem Suc.prems(3)] obtain t1 where
    t1: "consume raw t = Some (Inr (next_stack e), t1)" "reservation_table_ok t1"
      "holds_entry raw (consumed_entry e) t1" "rt_total_remaining t1 = rt_total_remaining t - 1"
    by blast
  from Suc.prems(1,2) have "entry_ok e"
    by (auto simp: holds_entry_def resolve_slot_iff dest: entry_ok_nth)
  note split = unconsumed_step [OF this rem Suc.prems(3)]
  have "re_stack_count (consumed_entry e) \<noteq> 0" "k \<le> re_remaining (consumed_entry e)"
    using Suc.prems(3,4) by (auto simp: consumed_entry_def)
  from Suc.IH [OF t1(2,3) this] obtain t' e' where
    "consume_n k raw t1 = Some (take k (unconsumed (consumed_entry e)), t')" "reservation_table_ok t'"
    "holds_entry raw e' t'" "unconsumed e' = drop k (unconsumed (consumed_entry e))"
    "re_remaining e' = re_remaining (consumed_entry e) - k" "re_stack_count e' \<noteq> 0"
    "rt_total_remaining t' = rt_total_remaining t1 - k" by blast
  with t1 split Suc.prems(3) show ?case
    by (intro exI [of _ t'] exI [of _ e']) (simp add: next_stack_def consumed_entry_def)
qed

lemma release_holds:
  assumes "reservation_table_ok t" "holds_entry raw e t"
  shows "\<exists>t'. release raw t = Some (Inr (released_of e), t') \<and> reservation_table_ok t'
    \<and> rt_total_remaining t' = rt_total_remaining t - re_remaining e
    \<and> reservation_resolve_slot raw t' = Inl InvalidHandle"
proof -
  from assms(2) obtain i where i: "reservation_resolve_slot raw t = Inr i" "rt_entries t ! i = e"
    by (auto simp: holds_entry_def)
  then have len: "i < length (rt_entries t)" and raw: "raw = token_at t i"
    using resolve_slot_iff [OF assms(1)] by auto
  let ?t = "(set_entry i (released_entry e) t)\<lparr>rt_total_remaining := rt_total_remaining t - re_remaining e\<rparr>"
  have r: "release raw t = Some (Inr (released_of e), ?t)"
    using release_live [OF assms(1) i(1)] i(2) by simp
  with release_inv [OF assms(1), of raw] have ok: "reservation_table_ok ?t" by auto
  have "reservation_resolve_slot raw ?t \<noteq> Inr j" for j
  proof
    assume "reservation_resolve_slot raw ?t = Inr j"
    then have j: "j < length (rt_entries t)" "re_active (rt_entries ?t ! j)" "raw = token_at ?t j"
      using resolve_slot_iff [OF ok] by auto
    have "token_at ?t i = raw" using raw len i(2) by (simp add: released_entry_def)
    with j have "i = j" using token_at_inj [OF ok, of i j] len by simp
    with j(2) len show False by (simp add: released_entry_def)
  qed
  then have "reservation_resolve_slot raw ?t = Inl InvalidHandle"
    using resolve_slot_Inl by (metis sum.exhaust)
  with r ok show ?thesis by simp
qed

text \<open>
  Stacks are neither lost nor handed out twice: a reservation with stacks gives them to the
  spawns that consume it one by one in their order, releasing it returns exactly the stacks not yet
  consumed and takes back the slots it still promised, and from then on the token is refused.
\<close>

theorem reserved_stacks_conserved:
  assumes "reservation_table_ok t" "stacks_fit required stacks" "0 < task_slots required"
    and "reserve_with_stacks required available stacks t
      = Some (Inr raw :: 'o task_admission_error + 32 word, t1)"
    and "k \<le> task_slots required"
  shows "\<exists>t2 released t3. consume_n k raw t1 = Some (take k stacks, t2)
    \<and> (k = task_slots required \<longrightarrow> consume raw t2 = Some (Inl NoTaskSlots, t2))
    \<and> release raw t2 = Some (Inr released, t3)
    \<and> take (released_count released) (released_stacks released)
        = drop k (take (task_slots required) stacks)
    \<and> rt_total_remaining t3 = rt_total_remaining t
    \<and> consume raw t3 = Some (Inl InvalidHandle, t3) \<and> release raw t3 = Some (Inl InvalidHandle, t3)"
proof -
  have avail: "task_slots required \<le> available" and free: "0 < free_entries t"
    using assms(4) position_SomeD(1,2) [of "\<lambda>entry. \<not> re_active entry" "rt_entries t"]
    by (auto simp: reserve_with_stacks_cases [OF assms(1)] free_entries_def filter_empty_conv
        split: if_splits option.splits dest!: nth_mem)
  from reserve_with_stacks_granted [OF assms(1,2) avail free, where 'a = 'o] assms(4) obtain e where
    t1: "reservation_table_ok t1" "holds_entry raw e t1" "granted_entry required stacks e"
      "rt_total_remaining t1 = rt_total_remaining t + task_slots required"
    by (elim exE conjE) simp
  then have e: "unconsumed e = take (task_slots required) stacks" "re_remaining e = task_slots required"
    "re_stack_count e \<noteq> 0"
    using assms(3) by (auto simp: granted_entry_def unconsumed_def)
  from e(2) assms(5) have "k \<le> re_remaining e" by simp
  from consume_n_holds [OF t1(1,2) e(3) this] obtain t2 e2 where
    t2: "consume_n k raw t1 = Some (take k (unconsumed e), t2)" "reservation_table_ok t2"
      "holds_entry raw e2 t2" "unconsumed e2 = drop k (unconsumed e)"
      "re_remaining e2 = re_remaining e - k" "re_stack_count e2 \<noteq> 0"
      "rt_total_remaining t2 = rt_total_remaining t1 - k" by blast
  from release_holds [OF t2(2,3)] obtain t3 where
    t3: "release raw t2 = Some (Inr (released_of e2), t3)"
      "rt_total_remaining t3 = rt_total_remaining t2 - re_remaining e2"
      "reservation_resolve_slot raw t3 = Inl InvalidHandle" by blast
  have "k = task_slots required \<longrightarrow> consume raw t2 = Some (Inl NoTaskSlots, t2)"
    using t2(3,5) e(2) consume_live [OF t2(2)] by (auto simp: holds_entry_def Let_def)
  then show ?thesis
    using t2 t3 e assms(5) t1(4) consume_dead [OF t3(3)] release_dead [OF t3(3)]
    by (intro exI [of _ t2] exI [of _ "released_of e2"] exI [of _ t3]) (simp add: released_of_def min_def)
qed

theorem reserved_stacks_conserved_witness:
  "\<exists>t1 t2 released t3. (reserve_with_stacks \<lparr>task_slots = 2, stack_bytes_per_task = 1024,
        total_stack_bytes = 2048\<rparr> 15 ([4096, 8192] @ replicate 13 0) (reservation_table_new 4)
        :: ((unit task_admission_error + 32 word) \<times> reservation_table) option) = Some (Inr 257, t1)
    \<and> consume_n 1 257 t1 = Some ([4096], t2) \<and> release 257 t2 = Some (Inr released, t3)
    \<and> take (released_count released) (released_stacks released) = [8192]"
proof -
  let ?req = "\<lparr>task_slots = 2, stack_bytes_per_task = 1024, total_stack_bytes = 2048\<rparr>"
  let ?stacks = "[4096, 8192] @ replicate 13 0"
  let ?t = "reservation_table_new 4"
  have ok: "reservation_table_ok ?t" by (simp add: reservation_table_new_ok)
  have fit: "stacks_fit ?req ?stacks"
    by (auto simp: stacks_fit_def DYNAMIC_TASK_CAPACITY_def less_Suc_eq numeral_2_eq_2)
  have "rt_entries ?t = reservation_entry_EMPTY # replicate 3 reservation_entry_EMPTY"
    by (simp add: reservation_table_new_def flip: replicate_Suc)
  then obtain t1 where r: "(reserve_with_stacks ?req 15 ?stacks ?t
      :: ((unit task_admission_error + 32 word) \<times> reservation_table) option)
      = Some (Inr (slot_handle 0 1), t1)"
    by (simp add: reserve_with_stacks_cases [OF ok] after_reserve_stacks_at reserved_entry_def
        reservation_entry_EMPTY_def bump_generation_def)
  moreover have "slot_handle 0 1 = 257" by (simp add: slot_handle_def pack8_def push_bit_eq_mult)
  ultimately have r: "(reserve_with_stacks ?req 15 ?stacks ?t
      :: ((unit task_admission_error + 32 word) \<times> reservation_table) option) = Some (Inr 257, t1)"
    by simp
  from reserved_stacks_conserved [OF ok fit _ r, of 1] r show ?thesis by auto
qed

text \<open>
  Admission of a resource plan is all or nothing: either it is refused and the table is
  exactly what it was, or every group has its own live reservation with its slots and stacks, no
  earlier reservation is lost, and the total grows by the slots of the plan. In particular the
  rollback of the commit loop is never needed once the pre-check has passed.
\<close>

lemma plan_admission_atomic:
  assumes "reservation_table_ok t"
    and "length groups \<le> length stacks" "length groups \<le> length (rt_entries t)"
    and "\<forall>k < length groups. stacks_fit (group_resources (groups ! k)) (stacks ! k)"
  shows "(\<exists>e. reserve_plan_with_stacks groups available stacks t = Some (Inl e, t))
    \<or> (\<exists>tokens t'. reserve_plan_with_stacks groups available stacks t = Some (Inr tokens, t')
        \<and> plan_granted groups stacks tokens t t')"
proof (cases "plan_check groups available")
  case (Some e)
  then show ?thesis by (simp add: reserve_plan_with_stacks_def)
next
  case None
  show ?thesis
  proof (cases "free_entries t < length groups")
    case True
    with None show ?thesis by (simp add: reserve_plan_with_stacks_def free_entries_def)
  next
    case False
    from plan_commit_granted [OF assms(1), of groups available 0 0 stacks "[]"] None False assms(2-4)
    show ?thesis by (simp add: reserve_plan_with_stacks_def free_entries_def)
  qed
qed


end
