(* ===== verification/Sched_State.thy ===== *)
theory Sched_State
  imports Config Handles Reservation
begin

text \<open>
  The state of the scheduler: \<open>struct Tcb\<close>, \<open>struct Sched\<close> and the small records around them
  (\<open>runtime/scheduler.rs\<close>), the synchronisation objects they point to (\<open>runtime/sync.rs\<close>), the
  saved context (\<open>context.rs\<close>) and the per-task metrics.

  The scheduler reaches semaphores and mutexes through raw addresses kept in a \<open>Tcb\<close>. Those
  objects live in \<open>sem_mem\<close> and \<open>mutex_mem\<close>, finite maps from addresses to contents, which are the
  only fields of \<open>sched\<close> that \<open>struct Sched\<close> does not have; a dereference of an address outside
  the map is the value \<open>None\<close>. Array accesses are bounds checked: \<open>task_at\<close> and \<open>upd_task\<close> are
  \<open>None\<close> where Rust panics.
\<close>

named_theorems sched_simps \<open>selectors over the primitive updates of the scheduler state\<close>

subsection \<open>Saved context\<close>

record task_context =
  cx_mstatus :: "32 word"
  cx_mepc :: "32 word"
  cx_tp :: "32 word"
  cx_sp :: "32 word"
  cx_s :: "32 word list"
  cx_caller_gpr :: "32 word list"
  cx_f :: "32 word list"
  cx_fcsr :: "32 word"
  cx_reserved :: "32 word list"

definition task_context_zero :: task_context where
  "task_context_zero = \<lparr>cx_mstatus = 0, cx_mepc = 0, cx_tp = 0, cx_sp = 0, cx_s = replicate 12 0,
     cx_caller_gpr = replicate 16 0, cx_f = replicate 32 0, cx_fcsr = 0, cx_reserved = replicate 3 0\<rparr>"

subsection \<open>Task states, task references and switch intents\<close>

datatype tstate = Free | Ready | Running | Blocked | Sleeping | Throttled

record task_ref =
  ref_slot :: nat
  ref_identity_generation :: "16 word"

record switch_intent =
  si_sequence :: nat
  si_previous :: task_ref
  si_target :: task_ref
  si_previous_resume_generation :: "32 word"

record pending_switch =
  ps_sequence :: nat
  ps_previous :: task_ref
  ps_target :: task_ref

subsection \<open>Metrics\<close>

record task_metrics =
  m_cpu_time_ms :: nat
  m_irq_time_ms :: nat
  m_dispatches :: nat
  m_budget_exhaustions :: nat
  m_max_continuous_run_ms :: nat
  m_max_ready_latency_ms :: nat
  m_scheduler_lock_entries :: nat
  m_max_scheduler_lock_ms :: nat
  m_irq_entries :: nat
  m_max_irq_span_ms :: nat
  m_run_started_at :: nat
  m_ready_since :: nat

definition task_metrics_empty :: task_metrics where
  "task_metrics_empty = \<lparr>m_cpu_time_ms = 0, m_irq_time_ms = 0, m_dispatches = 0,
     m_budget_exhaustions = 0, m_max_continuous_run_ms = 0, m_max_ready_latency_ms = 0,
     m_scheduler_lock_entries = 0, m_max_scheduler_lock_ms = 0, m_irq_entries = 0,
     m_max_irq_span_ms = 0, m_run_started_at = NO_TIMESTAMP, m_ready_since = NO_TIMESTAMP\<rparr>"

definition metrics_on_ready :: "nat \<Rightarrow> task_metrics \<Rightarrow> task_metrics" where
  "metrics_on_ready now m = (if m_ready_since m = NO_TIMESTAMP then m\<lparr>m_ready_since := now\<rparr> else m)"

definition metrics_on_dispatch :: "nat \<Rightarrow> task_metrics \<Rightarrow> task_metrics" where
  "metrics_on_dispatch now m =
     (let m = (if m_ready_since m \<noteq> NO_TIMESTAMP
               then m\<lparr>m_max_ready_latency_ms :=
                        max (m_max_ready_latency_ms m) (sat_sub now (m_ready_since m)),
                      m_ready_since := NO_TIMESTAMP\<rparr>
               else m)
      in m\<lparr>m_run_started_at := now, m_dispatches := sat_add U32_MAX (m_dispatches m) 1\<rparr>)"

definition metrics_on_switch_out :: "nat \<Rightarrow> task_metrics \<Rightarrow> task_metrics" where
  "metrics_on_switch_out now m =
     (if m_run_started_at m = NO_TIMESTAMP then m
      else let elapsed = sat_sub now (m_run_started_at m)
           in m\<lparr>m_cpu_time_ms := sat_add U64_MAX (m_cpu_time_ms m) elapsed,
                m_max_continuous_run_ms := max (m_max_continuous_run_ms m) elapsed,
                m_run_started_at := NO_TIMESTAMP\<rparr>)"

definition running_elapsed :: "nat \<Rightarrow> task_metrics \<Rightarrow> nat" where
  "running_elapsed now m =
     (if m_run_started_at m \<noteq> NO_TIMESTAMP then sat_sub now (m_run_started_at m) else 0)"

subsection \<open>Task control blocks\<close>

record tcb =
  t_ctx :: task_context
  t_saved_frame :: nat
  t_resume_generation :: "32 word"
  t_state :: tstate
  t_stack :: nat
  t_stack_size :: nat
  t_entry :: "nat option"
  t_arg :: nat
  t_next :: nat
  t_wake_at :: nat
  t_waiting_sem :: nat
  t_waiting_mutex :: nat
  t_sem_granted :: bool
  t_granted_sem :: nat
  t_granted_mutex :: nat
  t_base_priority :: nat
  t_priority :: nat
  t_inherited_waiters :: "nat list"
  t_scheduler_lock_depth :: nat
  t_scheduler_lock_started_at :: "nat option"
  t_identity_generation :: "16 word"
  t_run_policy :: run_policy
  t_budget :: budget_state
  t_metrics :: task_metrics

definition tcb_empty :: tcb where
  "tcb_empty = \<lparr>
     t_ctx = task_context_zero,
     t_saved_frame = 0,
     t_resume_generation = 0,
     t_state = Free,
     t_stack = 0,
     t_stack_size = 0,
     t_entry = None,
     t_arg = 0,
     t_next = NIL,
     t_wake_at = 0,
     t_waiting_sem = 0,
     t_waiting_mutex = 0,
     t_sem_granted = False,
     t_granted_sem = 0,
     t_granted_mutex = 0,
     t_base_priority = PRIORITY_LEVELS - 1,
     t_priority = PRIORITY_LEVELS - 1,
     t_inherited_waiters = replicate PRIORITY_LEVELS 0,
     t_scheduler_lock_depth = 0,
     t_scheduler_lock_started_at = None,
     t_identity_generation = 0,
     t_run_policy = Cooperative,
     t_budget = budget_none,
     t_metrics = task_metrics_empty\<rparr>"

definition tcb_max_scheduler_lock_ms :: "nat \<Rightarrow> tcb \<Rightarrow> nat" where
  "tcb_max_scheduler_lock_ms now t =
     (let held = (case t_scheduler_lock_started_at t of
                    Some started_at \<Rightarrow> sat_sub now started_at | None \<Rightarrow> 0)
      in max (m_max_scheduler_lock_ms (t_metrics t)) held)"

subsection \<open>Synchronisation objects\<close>

record sem_state =
  sm_count :: int
  sm_wait_head :: nat
  sm_wait_tail :: nat

record mutex_state =
  mx_owner :: nat
  mx_depth :: nat
  mx_wait_head :: nat
  mx_wait_tail :: nat

definition semaphore_new :: "int \<Rightarrow> sem_state" where
  "semaphore_new count = \<lparr>sm_count = count, sm_wait_head = NIL, sm_wait_tail = NIL\<rparr>"

definition mutex_new :: mutex_state where
  "mutex_new = \<lparr>mx_owner = NIL, mx_depth = 0, mx_wait_head = NIL, mx_wait_tail = NIL\<rparr>"

subsection \<open>The scheduler\<close>

record sched =
  tasks :: "tcb list"
  current :: nat
  ready_head :: "nat list"
  ready_tail :: "nat list"
  retired_stacks :: "nat list"
  retired_count :: nat
  slot_generations :: "16 word list"
  reservations :: reservation_table
  time_slice_pending :: bool
  time_slice_deadline :: nat
  pending_switch :: "pending_switch option"
  next_switch_sequence :: nat
  last_consumed_switch_sequence :: nat
  started :: bool
  diagnostics :: diagnostics
  irq_started_at :: nat
  irq_task :: nat
  sem_mem :: "nat \<Rightarrow> sem_state option"
  mutex_mem :: "nat \<Rightarrow> mutex_state option"

text \<open>The number of reservation entries is \<open>TASK_RESOURCE_GROUP_CAPACITY\<close> of the contract crate.\<close>

definition sched_new :: "nat \<Rightarrow> sched" where
  "sched_new group_capacity = \<lparr>
     tasks = replicate TASK_SLOT_COUNT tcb_empty,
     current = 0,
     ready_head = replicate PRIORITY_LEVELS NIL,
     ready_tail = replicate PRIORITY_LEVELS NIL,
     retired_stacks = replicate TASK_SLOT_COUNT 0,
     retired_count = 0,
     slot_generations = replicate TASK_SLOT_COUNT 0,
     reservations = reservation_table_new group_capacity,
     time_slice_pending = False,
     time_slice_deadline = 0,
     pending_switch = None,
     next_switch_sequence = 0,
     last_consumed_switch_sequence = 0,
     started = False,
     diagnostics = diagnostics_EMPTY,
     irq_started_at = NO_TIMESTAMP,
     irq_task = NIL,
     sem_mem = Map.empty,
     mutex_mem = Map.empty\<rparr>"

subsection \<open>Primitive accesses\<close>

definition task_at :: "nat \<Rightarrow> sched \<Rightarrow> tcb option" where
  "task_at i s = (if i < length (tasks s) then Some (tasks s ! i) else None)"

definition mod_task :: "nat \<Rightarrow> (tcb \<Rightarrow> tcb) \<Rightarrow> sched \<Rightarrow> sched" where
  "mod_task i f s = s\<lparr>tasks := (tasks s)[i := f (tasks s ! i)]\<rparr>"

definition upd_task :: "nat \<Rightarrow> (tcb \<Rightarrow> tcb) \<Rightarrow> sched \<Rightarrow> sched option" where
  "upd_task i f s = (if i < length (tasks s) then Some (mod_task i f s) else None)"

definition arr_at :: "'a list \<Rightarrow> nat \<Rightarrow> 'a option" where
  "arr_at xs i = (if i < length xs then Some (xs ! i) else None)"

definition mod_head :: "nat \<Rightarrow> nat \<Rightarrow> sched \<Rightarrow> sched" where
  "mod_head p v s = s\<lparr>ready_head := (ready_head s)[p := v]\<rparr>"

definition mod_tail :: "nat \<Rightarrow> nat \<Rightarrow> sched \<Rightarrow> sched" where
  "mod_tail p v s = s\<lparr>ready_tail := (ready_tail s)[p := v]\<rparr>"

definition set_ready_head :: "nat \<Rightarrow> nat \<Rightarrow> sched \<Rightarrow> sched option" where
  "set_ready_head p v s = (if p < length (ready_head s) then Some (mod_head p v s) else None)"

definition set_ready_tail :: "nat \<Rightarrow> nat \<Rightarrow> sched \<Rightarrow> sched option" where
  "set_ready_tail p v s = (if p < length (ready_tail s) then Some (mod_tail p v s) else None)"

definition diag :: "(diagnostics \<Rightarrow> diagnostics) \<Rightarrow> sched \<Rightarrow> sched" where
  "diag f s = s\<lparr>diagnostics := f (diagnostics s)\<rparr>"

text \<open>\<open>counter.saturating_add(1)\<close> on a \<open>u32\<close> counter.\<close>

abbreviation (input) bump32 :: "nat \<Rightarrow> nat" where
  "bump32 n \<equiv> sat_add U32_MAX n 1"

lemma task_at_Some [simp]: "i < length (tasks s) \<Longrightarrow> task_at i s = Some (tasks s ! i)"
  by (simp add: task_at_def)

lemma upd_task_Some [simp]: "i < length (tasks s) \<Longrightarrow> upd_task i f s = Some (mod_task i f s)"
  by (simp add: upd_task_def)

lemma arr_at_Some [simp]: "i < length xs \<Longrightarrow> arr_at xs i = Some (xs ! i)"
  by (simp add: arr_at_def)

lemma set_ready_head_Some [simp]:
  "p < length (ready_head s) \<Longrightarrow> set_ready_head p v s = Some (mod_head p v s)"
  by (simp add: set_ready_head_def)

lemma set_ready_tail_Some [simp]:
  "p < length (ready_tail s) \<Longrightarrow> set_ready_tail p v s = Some (mod_tail p v s)"
  by (simp add: set_ready_tail_def)

lemma mod_task_sel [simp, sched_simps]:
  "length (tasks (mod_task i f s)) = length (tasks s)"
  "current (mod_task i f s) = current s"
  "ready_head (mod_task i f s) = ready_head s"
  "ready_tail (mod_task i f s) = ready_tail s"
  "retired_stacks (mod_task i f s) = retired_stacks s"
  "retired_count (mod_task i f s) = retired_count s"
  "slot_generations (mod_task i f s) = slot_generations s"
  "reservations (mod_task i f s) = reservations s"
  "time_slice_pending (mod_task i f s) = time_slice_pending s"
  "time_slice_deadline (mod_task i f s) = time_slice_deadline s"
  "pending_switch (mod_task i f s) = pending_switch s"
  "next_switch_sequence (mod_task i f s) = next_switch_sequence s"
  "last_consumed_switch_sequence (mod_task i f s) = last_consumed_switch_sequence s"
  "started (mod_task i f s) = started s"
  "diagnostics (mod_task i f s) = diagnostics s"
  "irq_started_at (mod_task i f s) = irq_started_at s"
  "irq_task (mod_task i f s) = irq_task s"
  "sem_mem (mod_task i f s) = sem_mem s"
  "mutex_mem (mod_task i f s) = mutex_mem s"
  by (simp_all add: mod_task_def)

lemma mod_task_nth [simp]:
  "i < length (tasks s) \<Longrightarrow> tasks (mod_task i f s) ! i = f (tasks s ! i)"
  "j \<noteq> i \<Longrightarrow> tasks (mod_task i f s) ! j = tasks s ! j"
  by (simp_all add: mod_task_def)

lemma mod_task_at:
  "i < length (tasks s) \<Longrightarrow>
    tasks (mod_task i f s) ! j = (if j = i then f (tasks s ! i) else tasks s ! j)"
  by (simp add: mod_task_def)

lemma mod_head_sel [simp, sched_simps]:
  "tasks (mod_head p v s) = tasks s"
  "current (mod_head p v s) = current s"
  "ready_head (mod_head p v s) = (ready_head s)[p := v]"
  "ready_tail (mod_head p v s) = ready_tail s"
  "retired_stacks (mod_head p v s) = retired_stacks s"
  "retired_count (mod_head p v s) = retired_count s"
  "slot_generations (mod_head p v s) = slot_generations s"
  "reservations (mod_head p v s) = reservations s"
  "time_slice_pending (mod_head p v s) = time_slice_pending s"
  "time_slice_deadline (mod_head p v s) = time_slice_deadline s"
  "pending_switch (mod_head p v s) = pending_switch s"
  "next_switch_sequence (mod_head p v s) = next_switch_sequence s"
  "last_consumed_switch_sequence (mod_head p v s) = last_consumed_switch_sequence s"
  "started (mod_head p v s) = started s"
  "diagnostics (mod_head p v s) = diagnostics s"
  "irq_started_at (mod_head p v s) = irq_started_at s"
  "irq_task (mod_head p v s) = irq_task s"
  "sem_mem (mod_head p v s) = sem_mem s"
  "mutex_mem (mod_head p v s) = mutex_mem s"
  by (simp_all add: mod_head_def)

lemma mod_tail_sel [simp, sched_simps]:
  "tasks (mod_tail p v s) = tasks s"
  "current (mod_tail p v s) = current s"
  "ready_head (mod_tail p v s) = ready_head s"
  "ready_tail (mod_tail p v s) = (ready_tail s)[p := v]"
  "retired_stacks (mod_tail p v s) = retired_stacks s"
  "retired_count (mod_tail p v s) = retired_count s"
  "slot_generations (mod_tail p v s) = slot_generations s"
  "reservations (mod_tail p v s) = reservations s"
  "time_slice_pending (mod_tail p v s) = time_slice_pending s"
  "time_slice_deadline (mod_tail p v s) = time_slice_deadline s"
  "pending_switch (mod_tail p v s) = pending_switch s"
  "next_switch_sequence (mod_tail p v s) = next_switch_sequence s"
  "last_consumed_switch_sequence (mod_tail p v s) = last_consumed_switch_sequence s"
  "started (mod_tail p v s) = started s"
  "diagnostics (mod_tail p v s) = diagnostics s"
  "irq_started_at (mod_tail p v s) = irq_started_at s"
  "irq_task (mod_tail p v s) = irq_task s"
  "sem_mem (mod_tail p v s) = sem_mem s"
  "mutex_mem (mod_tail p v s) = mutex_mem s"
  by (simp_all add: mod_tail_def)

lemma diag_sel [simp, sched_simps]:
  "tasks (diag f s) = tasks s"
  "current (diag f s) = current s"
  "ready_head (diag f s) = ready_head s"
  "ready_tail (diag f s) = ready_tail s"
  "retired_stacks (diag f s) = retired_stacks s"
  "retired_count (diag f s) = retired_count s"
  "slot_generations (diag f s) = slot_generations s"
  "reservations (diag f s) = reservations s"
  "time_slice_pending (diag f s) = time_slice_pending s"
  "time_slice_deadline (diag f s) = time_slice_deadline s"
  "pending_switch (diag f s) = pending_switch s"
  "next_switch_sequence (diag f s) = next_switch_sequence s"
  "last_consumed_switch_sequence (diag f s) = last_consumed_switch_sequence s"
  "started (diag f s) = started s"
  "diagnostics (diag f s) = f (diagnostics s)"
  "irq_started_at (diag f s) = irq_started_at s"
  "irq_task (diag f s) = irq_task s"
  "sem_mem (diag f s) = sem_mem s"
  "mutex_mem (diag f s) = mutex_mem s"
  by (simp_all add: diag_def)

text \<open>The shape of the fixed-size arrays, and slots and priorities within them.\<close>

definition shape_ok :: "sched \<Rightarrow> bool" where
  "shape_ok s \<longleftrightarrow> length (tasks s) = TASK_SLOT_COUNT \<and> length (ready_head s) = PRIORITY_LEVELS
     \<and> length (ready_tail s) = PRIORITY_LEVELS \<and> length (retired_stacks s) = TASK_SLOT_COUNT
     \<and> length (slot_generations s) = TASK_SLOT_COUNT \<and> current s < TASK_SLOT_COUNT
     \<and> (\<forall>i < TASK_SLOT_COUNT. t_priority (tasks s ! i) < PRIORITY_LEVELS)"

lemma shape_okD:
  assumes "shape_ok s"
  shows "length (tasks s) = TASK_SLOT_COUNT" "length (ready_head s) = PRIORITY_LEVELS"
    "length (ready_tail s) = PRIORITY_LEVELS" "length (slot_generations s) = TASK_SLOT_COUNT"
    "length (retired_stacks s) = TASK_SLOT_COUNT"
    "current s < TASK_SLOT_COUNT" "i < TASK_SLOT_COUNT \<Longrightarrow> t_priority (tasks s ! i) < PRIORITY_LEVELS"
  using assms by (auto simp: shape_ok_def)

lemma shape_ok_mod_task:
  assumes "shape_ok s" "i < TASK_SLOT_COUNT" "t_priority (f (tasks s ! i)) < PRIORITY_LEVELS"
  shows "shape_ok (mod_task i f s)"
  using assms by (auto simp: shape_ok_def mod_task_at)

lemma shape_ok_mod_head [simp]: "shape_ok (mod_head p v s) = shape_ok s"
  by (simp add: shape_ok_def)

lemma shape_ok_mod_tail [simp]: "shape_ok (mod_tail p v s) = shape_ok s"
  by (simp add: shape_ok_def)

lemma shape_ok_diag [simp]: "shape_ok (diag f s) = shape_ok s"
  by (simp add: shape_ok_def)

lemma sched_new_shape: "shape_ok (sched_new n)"
  by (simp add: shape_ok_def sched_new_def tcb_empty_def PRIORITY_LEVELS_def TASK_SLOT_COUNT_eq)

subsection \<open>Metrics never lose time\<close>

definition metrics_ok :: "task_metrics \<Rightarrow> bool" where
  "metrics_ok m \<longleftrightarrow> m_max_continuous_run_ms m \<le> m_cpu_time_ms m \<and> m_cpu_time_ms m \<le> U64_MAX
     \<and> m_run_started_at m \<le> U64_MAX \<and> m_ready_since m \<le> U64_MAX"

lemma metrics_ok_steps:
  assumes "metrics_ok m" "now \<le> U64_MAX"
  shows "metrics_ok task_metrics_empty" "metrics_ok (metrics_on_ready now m)"
    "metrics_ok (metrics_on_dispatch now m)" "metrics_ok (metrics_on_switch_out now m)"
  using assms
  by (auto simp: metrics_ok_def task_metrics_empty_def metrics_on_ready_def metrics_on_dispatch_def
      metrics_on_switch_out_def NO_TIMESTAMP_def sat_add_def Let_def min_def max_def)

end
