(* ===== verification/Ready_Queue.thy ===== *)
theory Ready_Queue
  imports Sched_State "HOL-Library.Multiset"
begin

text \<open>
  The ready queue of \<open>runtime/scheduler.rs\<close>: one intrusive singly linked list per priority, with a
  head and a tail array and the link stored in \<open>Tcb::next\<close>. The abstract view is a family of lists
  of slots, one per priority; \<open>chain\<close> relates a head and the links to such a list.

  A bounded \<open>for\<close> loop is structural recursion on its counter; the \<open>while\<close> loop of
  \<open>ready_remove\<close>, which does not end on a cyclic list, is a \<open>partial_function\<close>.
\<close>

subsection \<open>Operations\<close>

definition ready_priority :: "nat \<Rightarrow> sched \<Rightarrow> nat option" where
  "ready_priority task s = do { t \<leftarrow> task_at task s; Some (t_priority t) }"

definition ready_push :: "nat \<Rightarrow> sched \<Rightarrow> sched option" where
  "ready_push i s = do {
     priority \<leftarrow> ready_priority i s;
     s \<leftarrow> upd_task i (\<lambda>t. t\<lparr>t_next := NIL\<rparr>) s;
     tail \<leftarrow> arr_at (ready_tail s) priority;
     s \<leftarrow> (if tail = NIL then set_ready_head priority i s
           else upd_task tail (\<lambda>t. t\<lparr>t_next := i\<rparr>) s);
     set_ready_tail priority i s
   }"

definition make_ready :: "nat \<Rightarrow> nat \<Rightarrow> sched \<Rightarrow> sched option" where
  "make_ready task now s = do {
     s \<leftarrow> upd_task task (\<lambda>t. t\<lparr>t_state := Ready, t_metrics := metrics_on_ready now (t_metrics t)\<rparr>) s;
     (if task \<noteq> IDLE_SLOT then ready_push task s else Some s)
   }"

fun ready_pop_scan :: "nat list \<Rightarrow> sched \<Rightarrow> (nat \<times> sched) option" where
  "ready_pop_scan [] s = Some (NIL, s)"
| "ready_pop_scan (priority # ps) s = do {
     i \<leftarrow> arr_at (ready_head s) priority;
     (if i \<noteq> NIL then do {
        t \<leftarrow> task_at i s;
        s \<leftarrow> set_ready_head priority (t_next t) s;
        s \<leftarrow> (if t_next t = NIL then set_ready_tail priority NIL s else Some s);
        s \<leftarrow> upd_task i (\<lambda>t. t\<lparr>t_next := NIL\<rparr>) s;
        Some (i, s)
      } else ready_pop_scan ps s)
   }"

definition ready_pop :: "sched \<Rightarrow> (nat \<times> sched) option" where
  "ready_pop s = ready_pop_scan [0..<PRIORITY_LEVELS] s"

definition ready_pop_or_idle :: "sched \<Rightarrow> (nat \<times> sched) option" where
  "ready_pop_or_idle s = do {
     (i, s) \<leftarrow> ready_pop s;
     Some (if i = NIL then IDLE_SLOT else i, s)
   }"

partial_function (option) ready_remove_loop ::
  "nat \<Rightarrow> nat \<Rightarrow> nat \<Rightarrow> nat \<Rightarrow> sched \<Rightarrow> sched option" where
  "ready_remove_loop priority task previous cur s =
     (if cur = NIL then Some s
      else if cur = task then do {
        t \<leftarrow> task_at cur s;
        let nxt = t_next t;
        s \<leftarrow> (if previous = NIL then set_ready_head priority nxt s
              else upd_task previous (\<lambda>t. t\<lparr>t_next := nxt\<rparr>) s);
        tail \<leftarrow> arr_at (ready_tail s) priority;
        s \<leftarrow> (if tail = cur then set_ready_tail priority previous s else Some s);
        upd_task cur (\<lambda>t. t\<lparr>t_next := NIL\<rparr>) s
      } else do {
        t \<leftarrow> task_at cur s;
        ready_remove_loop priority task cur (t_next t) s
      })"

declare ready_remove_loop.simps [code]

definition ready_remove :: "nat \<Rightarrow> sched \<Rightarrow> sched option" where
  "ready_remove task s = do {
     priority \<leftarrow> ready_priority task s;
     cur \<leftarrow> arr_at (ready_head s) priority;
     ready_remove_loop priority task NIL cur s
   }"

fun contains_walk :: "nat \<Rightarrow> nat \<Rightarrow> nat \<Rightarrow> sched \<Rightarrow> bool option" where
  "contains_walk 0 task cur s = Some False"
| "contains_walk (Suc n) task cur s =
     (if cur = NIL then Some False
      else if cur = task then Some True
      else do { t \<leftarrow> task_at cur s; contains_walk n task (t_next t) s })"

fun contains_scan :: "nat list \<Rightarrow> nat \<Rightarrow> sched \<Rightarrow> bool option" where
  "contains_scan [] task s = Some False"
| "contains_scan (priority # ps) task s = do {
     h \<leftarrow> arr_at (ready_head s) priority;
     found \<leftarrow> contains_walk TASK_SLOT_COUNT task h s;
     (if found then Some True else contains_scan ps task s)
   }"

definition ready_contains :: "nat \<Rightarrow> sched \<Rightarrow> bool option" where
  "ready_contains task s = contains_scan [0..<PRIORITY_LEVELS] task s"

subsection \<open>Linked lists\<close>

fun chain :: "(nat \<Rightarrow> nat) \<Rightarrow> nat \<Rightarrow> nat list \<Rightarrow> bool" where
  "chain nx h [] \<longleftrightarrow> h = NIL"
| "chain nx h (x # xs) \<longleftrightarrow> h = x \<and> x \<noteq> NIL \<and> chain nx (nx x) xs"

definition last_or_NIL :: "nat list \<Rightarrow> nat" where
  "last_or_NIL xs = (if xs = [] then NIL else last xs)"

lemma last_or_NIL_simps [simp]:
  "last_or_NIL [] = NIL" "last_or_NIL (xs @ [x]) = x" "xs \<noteq> [] \<Longrightarrow> last_or_NIL xs = last xs"
  by (simp_all add: last_or_NIL_def)

lemma chain_cong: "(\<And>x. x \<in> set xs \<Longrightarrow> nx x = nx' x) \<Longrightarrow> chain nx h xs = chain nx' h xs"
  by (induction xs arbitrary: h) auto

lemma chain_head: "chain nx h xs \<Longrightarrow> h = (if xs = [] then NIL else hd xs)"
  by (cases xs) auto

lemma chain_not_NIL: "chain nx h xs \<Longrightarrow> x \<in> set xs \<Longrightarrow> x \<noteq> NIL"
  by (induction xs arbitrary: h) auto

lemma chain_unique: "chain nx h xs \<Longrightarrow> chain nx h ys \<Longrightarrow> xs = ys"
proof (induction xs arbitrary: h ys)
  case Nil
  then show ?case by (cases ys) auto
next
  case (Cons x xs)
  then show ?case by (cases ys) auto
qed

lemma chain_split:
  "chain nx h (xs @ x # ys) \<Longrightarrow> chain nx x (x # ys) \<and> chain nx (nx x) ys"
  by (induction xs arbitrary: h) auto

lemma chain_distinct: "chain nx h xs \<Longrightarrow> distinct xs"
proof (induction xs arbitrary: h)
  case Nil
  then show ?case by simp
next
  case (Cons x xs)
  have "x \<notin> set xs"
  proof
    assume "x \<in> set xs"
    then obtain ys zs where xs: "xs = ys @ x # zs" by (auto dest: split_list)
    with Cons.prems have "chain nx (nx x) (ys @ x # zs)" by simp
    with chain_split have "chain nx (nx x) zs" by blast
    with \<open>chain nx (nx x) (ys @ x # zs)\<close> have "ys @ x # zs = zs" by (rule chain_unique)
    then have "length (ys @ x # zs) = length zs" by (rule arg_cong)
    then show False by simp
  qed
  with Cons show ?case by auto
qed

lemma chain_update_outside: "i \<notin> set xs \<Longrightarrow> chain (nx(i := v)) h xs = chain nx h xs"
  by (rule chain_cong) auto

text \<open>Appending at the tail, and unlinking an inner node.\<close>

lemma chain_snoc:
  assumes "chain nx h xs" "i \<notin> set xs" "i \<noteq> NIL" "xs \<noteq> []"
  shows "chain ((nx(i := NIL))(last xs := i)) h (xs @ [i])"
  using assms
proof (induction xs arbitrary: h)
  case Nil
  then show ?case by simp
next
  case (Cons x xs)
  show ?case
  proof (cases "xs = []")
    case True
    with Cons.prems show ?thesis by auto
  next
    case False
    have "x \<noteq> last xs"
      using chain_distinct [OF Cons.prems(1)] False by auto
    with Cons False show ?thesis by auto
  qed
qed

lemma chain_unlink:
  assumes "chain nx h (xs @ y # i # zs)"
  shows "chain ((nx(y := nx i))(i := NIL)) h (xs @ y # zs)"
  using assms
proof (induction xs arbitrary: h)
  case Nil
  then have "distinct (y # i # zs)" using chain_distinct by fastforce
  moreover from this have "chain ((nx(y := nx i))(i := NIL)) (nx i) zs = chain nx (nx i) zs"
    by (intro chain_cong) auto
  ultimately show ?case using Nil by (simp add: fun_upd_def)
next
  case (Cons x xs)
  then have "distinct (x # xs @ y # i # zs)" using chain_distinct by fastforce
  with Cons show ?case by auto
qed

lemma chain_successor: "chain nx h (xs @ x # ys) \<Longrightarrow> nx x = (if ys = [] then NIL else hd ys)"
  using chain_split chain_head by blast

text \<open>Walking the links from a head collects the list.\<close>

fun walk :: "nat \<Rightarrow> (nat \<Rightarrow> nat) \<Rightarrow> nat \<Rightarrow> nat list" where
  "walk 0 nx h = []"
| "walk (Suc n) nx h = (if h = NIL then [] else h # walk n nx (nx h))"

lemma walk_chain: "chain nx h xs \<Longrightarrow> length xs \<le> n \<Longrightarrow> walk n nx h = xs"
proof (induction n arbitrary: h xs)
  case 0
  then show ?case by simp
next
  case (Suc n)
  then show ?case by (cases xs) auto
qed

lemma distinct_slots_length:
  assumes "distinct xs" "\<forall>x \<in> set xs. x < TASK_SLOT_COUNT"
  shows "length xs \<le> TASK_SLOT_COUNT"
proof -
  have "set xs \<subseteq> {..<TASK_SLOT_COUNT}" using assms(2) by auto
  then have "card (set xs) \<le> card {..<TASK_SLOT_COUNT}" by (intro card_mono) auto
  with assms(1) show ?thesis by (simp add: distinct_card)
qed

subsection \<open>The abstract view\<close>

definition links :: "sched \<Rightarrow> nat \<Rightarrow> nat" where
  "links s i = t_next (tasks s ! i)"

definition bucket_ok :: "sched \<Rightarrow> nat \<Rightarrow> nat list \<Rightarrow> bool" where
  "bucket_ok s p q \<longleftrightarrow> chain (links s) (ready_head s ! p) q \<and> ready_tail s ! p = last_or_NIL q
     \<and> (\<forall>i \<in> set q. i < TASK_SLOT_COUNT \<and> t_priority (tasks s ! i) = p)"

definition ready_rep :: "sched \<Rightarrow> (nat \<Rightarrow> nat list) \<Rightarrow> bool" where
  "ready_rep s Q \<longleftrightarrow> (\<forall>p < PRIORITY_LEVELS. bucket_ok s p (Q p))"

definition queued :: "(nat \<Rightarrow> nat list) \<Rightarrow> nat set" where
  "queued Q = (\<Union>p < PRIORITY_LEVELS. set (Q p))"

text \<open>What a queue operation may change: the ready heads and tails, and the links of some slots.\<close>

definition relinked :: "nat set \<Rightarrow> sched \<Rightarrow> sched \<Rightarrow> bool" where
  "relinked X s s' \<longleftrightarrow> (\<exists>ts hs tls. s' = s\<lparr>tasks := ts, ready_head := hs, ready_tail := tls\<rparr>
     \<and> length ts = length (tasks s) \<and> length hs = length (ready_head s)
     \<and> length tls = length (ready_tail s)
     \<and> (\<forall>j < length ts. \<exists>n. ts ! j = (tasks s ! j)\<lparr>t_next := n\<rparr>)
     \<and> (\<forall>j < length ts. j \<notin> X \<longrightarrow> ts ! j = tasks s ! j))"

lemma links_mod_task:
  "i < length (tasks s) \<Longrightarrow> links (mod_task i f s) = (links s)(i := t_next (f (tasks s ! i)))"
  by (auto simp: links_def mod_task_at)

lemma links_frame [simp]:
  "links (mod_head p v s) = links s" "links (mod_tail p v s) = links s" "links (diag f s) = links s"
  by (auto simp: links_def)

lemma tcb_next_self [simp]: "\<exists>n. t = t\<lparr>t_next := n\<rparr>" for t :: tcb
  by (rule exI [of _ "t_next t"]) simp

lemma relinked_refl [simp]: "relinked X s s"
  unfolding relinked_def
  by (rule exI [of _ "tasks s"], rule exI [of _ "ready_head s"], rule exI [of _ "ready_tail s"])
    auto

lemma relinked_trans:
  assumes "relinked X s s1" "relinked Y s1 s2"
  shows "relinked (X \<union> Y) s s2"
proof -
  from assms(1) obtain ts hs tls where 1: "s1 = s\<lparr>tasks := ts, ready_head := hs, ready_tail := tls\<rparr>"
    "length ts = length (tasks s)" "length hs = length (ready_head s)"
    "length tls = length (ready_tail s)" "\<forall>j < length ts. \<exists>n. ts ! j = (tasks s ! j)\<lparr>t_next := n\<rparr>"
    "\<forall>j < length ts. j \<notin> X \<longrightarrow> ts ! j = tasks s ! j" by (auto simp: relinked_def)
  from assms(2) obtain ts' hs' tls' where 2: "s2 = s1\<lparr>tasks := ts', ready_head := hs', ready_tail := tls'\<rparr>"
    "length ts' = length ts" "length hs' = length hs"
    "length tls' = length tls" "\<forall>j < length ts'. \<exists>n. ts' ! j = (ts ! j)\<lparr>t_next := n\<rparr>"
    "\<forall>j < length ts'. j \<notin> Y \<longrightarrow> ts' ! j = ts ! j" by (auto simp: relinked_def 1)
  have "\<forall>j < length ts'. \<exists>n. ts' ! j = (tasks s ! j)\<lparr>t_next := n\<rparr>"
  proof (intro allI impI)
    fix j
    assume j: "j < length ts'"
    with 1(5) 2(2) obtain n where "ts ! j = (tasks s ! j)\<lparr>t_next := n\<rparr>" by auto
    moreover from 2(5) j obtain m where "ts' ! j = (ts ! j)\<lparr>t_next := m\<rparr>" by auto
    ultimately show "\<exists>n. ts' ! j = (tasks s ! j)\<lparr>t_next := n\<rparr>" by auto
  qed
  with 1 2 show ?thesis
    unfolding relinked_def
    by (intro exI [of _ ts'] exI [of _ hs'] exI [of _ tls']) auto
qed

lemma relinked_mono: "relinked X s s' \<Longrightarrow> X \<subseteq> Y \<Longrightarrow> relinked Y s s'"
  unfolding relinked_def by blast

lemma relinked_mod_task:
  assumes "i \<in> X"
  shows "relinked X s (mod_task i (\<lambda>t. t\<lparr>t_next := n\<rparr>) s)"
  unfolding relinked_def
proof (intro exI conjI)
  show "mod_task i (\<lambda>t. t\<lparr>t_next := n\<rparr>) s = s\<lparr>tasks := (tasks s)[i := (tasks s ! i)\<lparr>t_next := n\<rparr>],
      ready_head := ready_head s, ready_tail := ready_tail s\<rparr>" by (simp add: mod_task_def)
  show "\<forall>j < length ((tasks s)[i := (tasks s ! i)\<lparr>t_next := n\<rparr>]). \<exists>m.
      (tasks s)[i := (tasks s ! i)\<lparr>t_next := n\<rparr>] ! j = (tasks s ! j)\<lparr>t_next := m\<rparr>"
  proof (intro allI impI)
    fix j
    assume "j < length ((tasks s)[i := (tasks s ! i)\<lparr>t_next := n\<rparr>])"
    then show "\<exists>m. (tasks s)[i := (tasks s ! i)\<lparr>t_next := n\<rparr>] ! j = (tasks s ! j)\<lparr>t_next := m\<rparr>"
      by (cases "j = i") auto
  qed
  show "\<forall>j < length ((tasks s)[i := (tasks s ! i)\<lparr>t_next := n\<rparr>]). j \<notin> X \<longrightarrow>
      (tasks s)[i := (tasks s ! i)\<lparr>t_next := n\<rparr>] ! j = tasks s ! j"
    using assms by (metis nth_list_update_neq)
qed simp_all

lemma relinked_mod_head: "relinked X s (mod_head p v s)"
  unfolding relinked_def
  by (rule exI [of _ "tasks s"], rule exI [of _ "(ready_head s)[p := v]"], rule exI [of _ "ready_tail s"])
    (auto simp: mod_head_def)

lemma relinked_mod_tail: "relinked X s (mod_tail p v s)"
  unfolding relinked_def
  by (rule exI [of _ "tasks s"], rule exI [of _ "ready_head s"], rule exI [of _ "(ready_tail s)[p := v]"])
    (auto simp: mod_tail_def)

text \<open>Consequences of the frame for every field.\<close>

lemma relinked_sel:
  assumes "relinked X s s'"
  shows "length (tasks s') = length (tasks s)" "length (ready_head s') = length (ready_head s)"
    "length (ready_tail s') = length (ready_tail s)" "current s' = current s"
    "retired_stacks s' = retired_stacks s" "retired_count s' = retired_count s"
    "slot_generations s' = slot_generations s" "reservations s' = reservations s"
    "time_slice_pending s' = time_slice_pending s" "time_slice_deadline s' = time_slice_deadline s"
    "pending_switch s' = pending_switch s" "next_switch_sequence s' = next_switch_sequence s"
    "last_consumed_switch_sequence s' = last_consumed_switch_sequence s" "started s' = started s"
    "diagnostics s' = diagnostics s" "irq_started_at s' = irq_started_at s" "irq_task s' = irq_task s"
    "sem_mem s' = sem_mem s" "mutex_mem s' = mutex_mem s"
  using assms by (auto simp: relinked_def)

lemma relinked_task:
  assumes "relinked X s s'" "j < length (tasks s)"
  shows "\<exists>n. tasks s' ! j = (tasks s ! j)\<lparr>t_next := n\<rparr>" "j \<notin> X \<Longrightarrow> tasks s' ! j = tasks s ! j"
  using assms by (auto simp: relinked_def)

lemma relinked_fields:
  assumes "relinked X s s'" "j < length (tasks s)"
  shows "t_ctx (tasks s' ! j) = t_ctx (tasks s ! j)"
    "t_saved_frame (tasks s' ! j) = t_saved_frame (tasks s ! j)"
    "t_resume_generation (tasks s' ! j) = t_resume_generation (tasks s ! j)"
    "t_state (tasks s' ! j) = t_state (tasks s ! j)"
    "t_stack (tasks s' ! j) = t_stack (tasks s ! j)"
    "t_wake_at (tasks s' ! j) = t_wake_at (tasks s ! j)"
    "t_waiting_sem (tasks s' ! j) = t_waiting_sem (tasks s ! j)"
    "t_waiting_mutex (tasks s' ! j) = t_waiting_mutex (tasks s ! j)"
    "t_sem_granted (tasks s' ! j) = t_sem_granted (tasks s ! j)"
    "t_granted_sem (tasks s' ! j) = t_granted_sem (tasks s ! j)"
    "t_granted_mutex (tasks s' ! j) = t_granted_mutex (tasks s ! j)"
    "t_base_priority (tasks s' ! j) = t_base_priority (tasks s ! j)"
    "t_priority (tasks s' ! j) = t_priority (tasks s ! j)"
    "t_inherited_waiters (tasks s' ! j) = t_inherited_waiters (tasks s ! j)"
    "t_scheduler_lock_depth (tasks s' ! j) = t_scheduler_lock_depth (tasks s ! j)"
    "t_scheduler_lock_started_at (tasks s' ! j) = t_scheduler_lock_started_at (tasks s ! j)"
    "t_identity_generation (tasks s' ! j) = t_identity_generation (tasks s ! j)"
    "t_run_policy (tasks s' ! j) = t_run_policy (tasks s ! j)"
    "t_budget (tasks s' ! j) = t_budget (tasks s ! j)"
    "t_metrics (tasks s' ! j) = t_metrics (tasks s ! j)"
  using relinked_task(1) [OF assms] by auto

lemma relinked_shape:
  assumes "relinked X s s'" "shape_ok s"
  shows "shape_ok s'"
  using assms(2) relinked_sel [OF assms(1)] relinked_fields(13) [OF assms(1)]
  by (simp add: shape_ok_def)

subsection \<open>Refinement of each operation\<close>

lemma ready_repD:
  assumes "ready_rep s Q" "p < PRIORITY_LEVELS"
  shows "chain (links s) (ready_head s ! p) (Q p)" "ready_tail s ! p = last_or_NIL (Q p)"
    "i \<in> set (Q p) \<Longrightarrow> i < TASK_SLOT_COUNT" "i \<in> set (Q p) \<Longrightarrow> t_priority (tasks s ! i) = p"
  using assms by (auto simp: ready_rep_def bucket_ok_def)

lemma queued_iff: "i \<in> queued Q \<longleftrightarrow> (\<exists>p < PRIORITY_LEVELS. i \<in> set (Q p))"
  by (auto simp: queued_def)

lemma queued_slot: "ready_rep s Q \<Longrightarrow> i \<in> queued Q \<Longrightarrow> i < TASK_SLOT_COUNT"
  by (auto simp: queued_iff dest: ready_repD)

lemma queued_bucket:
  "ready_rep s Q \<Longrightarrow> i \<in> queued Q \<longleftrightarrow> i \<in> set (Q (t_priority (tasks s ! i))) \<and> t_priority (tasks s ! i) < PRIORITY_LEVELS"
  by (auto simp: queued_iff dest: ready_repD)

lemma buckets_disjoint:
  "ready_rep s Q \<Longrightarrow> p < PRIORITY_LEVELS \<Longrightarrow> p' < PRIORITY_LEVELS \<Longrightarrow> i \<in> set (Q p) \<Longrightarrow> i \<in> set (Q p') \<Longrightarrow> p = p'"
  by (auto dest: ready_repD)

lemma bucket_length: "ready_rep s Q \<Longrightarrow> p < PRIORITY_LEVELS \<Longrightarrow> length (Q p) \<le> TASK_SLOT_COUNT"
  by (intro distinct_slots_length chain_distinct) (auto dest: ready_repD)

text \<open>A bucket whose head, tail, links and priorities are unchanged keeps its list.\<close>

lemma bucket_ok_frame:
  assumes "bucket_ok s p q" "ready_head s' ! p = ready_head s ! p" "ready_tail s' ! p = ready_tail s ! p"
    and "\<And>i. i \<in> set q \<Longrightarrow> links s' i = links s i \<and> t_priority (tasks s' ! i) = t_priority (tasks s ! i)"
  shows "bucket_ok s' p q"
  using assms chain_cong [of q "links s'" "links s"] by (auto simp: bucket_ok_def)

lemma ready_rep_frame:
  assumes "ready_rep s Q" "ready_head s' = ready_head s" "ready_tail s' = ready_tail s"
    and "\<And>i. i \<in> queued Q \<Longrightarrow> links s' i = links s i \<and> t_priority (tasks s' ! i) = t_priority (tasks s ! i)"
  shows "ready_rep s' Q"
  unfolding ready_rep_def
proof (intro allI impI)
  fix p
  assume p: "p < PRIORITY_LEVELS"
  with assms(1) have "bucket_ok s p (Q p)" by (simp add: ready_rep_def)
  then show "bucket_ok s' p (Q p)"
    by (rule bucket_ok_frame) (use assms(2-4) p in \<open>auto simp: queued_iff\<close>)
qed

lemma ready_rep_diag [simp]: "ready_rep (diag f s) Q = ready_rep s Q"
  by (simp add: ready_rep_def bucket_ok_def)

text \<open>An update of a queued or unqueued slot that keeps its link and priority.\<close>

lemma ready_rep_mod_task:
  assumes "ready_rep s Q" "i < length (tasks s)"
    and "i \<in> queued Q \<Longrightarrow> t_next (f (tasks s ! i)) = t_next (tasks s ! i)
        \<and> t_priority (f (tasks s ! i)) = t_priority (tasks s ! i)"
  shows "ready_rep (mod_task i f s) Q"
  using assms by (intro ready_rep_frame [OF assms(1)]) (auto simp: links_def mod_task_at)

text \<open>A change to one bucket.\<close>

lemma ready_rep_upd:
  assumes rep: "ready_rep s Q" and p: "p < PRIORITY_LEVELS" and new: "bucket_ok s' p q"
    and ht: "\<And>p'. p' \<noteq> p \<Longrightarrow> ready_head s' ! p' = ready_head s ! p' \<and> ready_tail s' ! p' = ready_tail s ! p'"
    and same: "\<And>j. j \<in> queued Q \<Longrightarrow> j \<notin> set (Q p) \<Longrightarrow>
      links s' j = links s j \<and> t_priority (tasks s' ! j) = t_priority (tasks s ! j)"
  shows "ready_rep s' (Q(p := q))"
  unfolding ready_rep_def
proof (intro allI impI)
  fix p'
  assume p': "p' < PRIORITY_LEVELS"
  show "bucket_ok s' p' ((Q(p := q)) p')"
  proof (cases "p' = p")
    case True
    with new show ?thesis by simp
  next
    case False
    from rep p' have "bucket_ok s p' (Q p')" by (simp add: ready_rep_def)
    then have "bucket_ok s' p' (Q p')"
    proof (rule bucket_ok_frame)
      fix j
      assume j: "j \<in> set (Q p')"
      have "j \<notin> set (Q p)" using buckets_disjoint [OF rep p' p j] False by blast
      moreover have "j \<in> queued Q" using j p' by (auto simp: queued_iff)
      ultimately show "links s' j = links s j \<and> t_priority (tasks s' ! j) = t_priority (tasks s ! j)"
        by (intro same)
    qed (use ht [OF False] in auto)
    with False show ?thesis by simp
  qed
qed

lemma ready_push_spec:
  assumes ok: "shape_ok s" and rep: "ready_rep s Q" and i: "i < TASK_SLOT_COUNT" and fresh: "i \<notin> queued Q"
    and p: "p = t_priority (tasks s ! i)"
  shows "\<exists>s'. ready_push i s = Some s' \<and> ready_rep s' (Q(p := Q p @ [i]))
    \<and> relinked (insert i (set (Q p))) s s'"
proof -
  note len = shape_okD(1-3) [OF ok]
  have pl: "p < PRIORITY_LEVELS" using shape_okD(7) [OF ok i] p by simp
  note b = ready_repD [OF rep pl]
  have iq: "i \<notin> set (Q p)" using fresh pl by (auto simp: queued_iff)
  let ?s0 = "mod_task i (\<lambda>t. t\<lparr>t_next := NIL\<rparr>) s"
  let ?l = "last (Q p)"
  let ?s1 = "if Q p = [] then mod_head p i ?s0 else mod_task ?l (\<lambda>t. t\<lparr>t_next := i\<rparr>) ?s0"
  let ?s2 = "mod_tail p i ?s1"
  have l: "?l < TASK_SLOT_COUNT" "?l \<noteq> i" "?l \<noteq> NIL" if "Q p \<noteq> []"
    using that b(3) iq chain_not_NIL [OF b(1)] last_in_set [OF that] by auto
  have run: "ready_push i s = Some ?s2"
    using i l len pl b(2) p by (auto simp: ready_push_def ready_priority_def)
  have lk: "links ?s2 = (if Q p = [] then (links s)(i := NIL) else ((links s)(i := NIL))(?l := i))"
    using i l len by (simp add: links_mod_task)
  have pr: "t_priority (tasks ?s2 ! j) = t_priority (tasks s ! j)" for j
    using i l len by (simp add: mod_task_at)
  have "chain (links ?s2) (ready_head ?s2 ! p) (Q p @ [i])"
    using chain_snoc [OF b(1) iq slot_not_NIL [OF i]] slot_not_NIL [OF i] lk pl len by auto
  with i b(3,4) pr p pl len have "bucket_ok ?s2 p (Q p @ [i])" by (auto simp: bucket_ok_def)
  then have "ready_rep ?s2 (Q(p := Q p @ [i]))"
  proof (rule ready_rep_upd [OF rep pl])
    fix j
    assume "j \<in> queued Q" "j \<notin> set (Q p)"
    then have "j \<noteq> i" "Q p \<noteq> [] \<Longrightarrow> j \<noteq> ?l" using fresh by auto
    then show "links ?s2 j = links s j \<and> t_priority (tasks ?s2 ! j) = t_priority (tasks s ! j)"
      unfolding lk pr by simp
  qed (use pl in auto)
  moreover have "relinked (insert i (set (Q p))) s ?s2"
  proof -
    have 1: "relinked (insert i (set (Q p))) s ?s0" by (simp add: relinked_mod_task)
    have 2: "relinked (insert i (set (Q p))) ?s0 ?s1" by (simp add: relinked_mod_head relinked_mod_task)
    from relinked_trans [OF relinked_trans [OF 1 2] relinked_mod_tail [of "{}"]] show ?thesis by simp
  qed
  ultimately show ?thesis using run by blast
qed

definition first_bucket :: "(nat \<Rightarrow> nat list) \<Rightarrow> nat option" where
  "first_bucket Q = find_index_from 0 (\<lambda>p. Q p \<noteq> []) [0..<PRIORITY_LEVELS]"

lemma find_index_upt:
  "find_index_from k p [k..<n] = Some j \<Longrightarrow> k \<le> j \<and> j < n \<and> p j \<and> (\<forall>m. k \<le> m \<and> m < j \<longrightarrow> \<not> p m)"
proof (induction "n - k" arbitrary: k)
  case 0
  then show ?case by simp
next
  case (Suc d)
  then have k: "k < n" "[k..<n] = k # [Suc k..<n]" by (simp_all add: upt_conv_Cons)
  show ?case
  proof (cases "p k")
    case True
    with Suc.prems k show ?thesis by auto
  next
    case False
    with Suc.prems k have "find_index_from (Suc k) p [Suc k..<n] = Some j" by simp
    moreover have "d = n - Suc k" using Suc.hyps(2) by simp
    ultimately have ih: "Suc k \<le> j \<and> j < n \<and> p j \<and> (\<forall>m. Suc k \<le> m \<and> m < j \<longrightarrow> \<not> p m)"
      using Suc.hyps(1) by blast
    have "\<not> p m" if "k \<le> m" "m < j" for m
      using that ih False by (cases "m = k") auto
    with ih show ?thesis by auto
  qed
qed

lemma first_bucket_Some:
  assumes "first_bucket Q = Some p"
  shows "p < PRIORITY_LEVELS" "Q p \<noteq> []" "p' < p \<Longrightarrow> Q p' = []"
  using find_index_upt [OF assms [unfolded first_bucket_def]] by auto

lemma first_bucket_None: "first_bucket Q = None \<longleftrightarrow> queued Q = {}"
  by (auto simp: first_bucket_def find_index_from_None queued_def)

text \<open>Popping the head of a bucket.\<close>

definition after_pop :: "nat \<Rightarrow> nat \<Rightarrow> sched \<Rightarrow> sched" where
  "after_pop p i s =
     (let n = links s i; s = mod_head p n s; s = (if n = NIL then mod_tail p NIL s else s)
      in mod_task i (\<lambda>t. t\<lparr>t_next := NIL\<rparr>) s)"

lemma ready_pop_scan_run:
  assumes "shape_ok s" "ready_rep s Q" "ps = [k..<PRIORITY_LEVELS]"
  shows "ready_pop_scan ps s = Some (case find_index_from k (\<lambda>p. Q p \<noteq> []) ps of
      None \<Rightarrow> (NIL, s) | Some p \<Rightarrow> (hd (Q p), after_pop p (hd (Q p)) s))"
  using assms(3)
proof (induction ps arbitrary: k)
  case Nil
  then show ?case by simp
next
  case (Cons p ps)
  then have k: "k = p" "p < PRIORITY_LEVELS" "ps = [Suc p..<PRIORITY_LEVELS]"
    using upt_eq_Cons_conv [of k PRIORITY_LEVELS p ps] by auto
  note b = ready_repD [OF assms(2) k(2)] and len = shape_okD(1-3) [OF assms(1)]
  show ?case
  proof (cases "Q p")
    case Nil
    with b(1) len k show ?thesis using Cons.IH [of "Suc p"] by simp
  next
    case (Cons i q)
    then have "ready_head s ! p = i" "i \<noteq> NIL" "i < TASK_SLOT_COUNT" using b by auto
    with Cons k len show ?thesis by (simp add: after_pop_def links_def Let_def)
  qed
qed

lemma after_pop_spec:
  assumes ok: "shape_ok s" and rep: "ready_rep s Q" and p: "p < PRIORITY_LEVELS" and q: "Q p = i # q"
  shows "ready_rep (after_pop p i s) (Q(p := q))" "relinked {i} s (after_pop p i s)"
proof -
  note len = shape_okD(1-3) [OF ok] and b = ready_repD [OF rep p]
  have i: "i < TASK_SLOT_COUNT" "i \<notin> set q" "i \<noteq> NIL"
    using b q chain_distinct [OF b(1)] by auto
  have n: "links s i = NIL \<longleftrightarrow> q = []"
    using b(1) q chain_head [of "links s" "links s i" q] chain_not_NIL [of "links s" "links s i" q] by auto
  let ?s = "after_pop p i s"
  have lk: "links ?s = (links s)(i := NIL)" and pr: "t_priority (tasks ?s ! j) = t_priority (tasks s ! j)"
    and hd: "ready_head ?s = (ready_head s)[p := links s i]"
    and tl: "ready_tail ?s = (if q = [] then (ready_tail s)[p := NIL] else ready_tail s)" for j
    using i len n by (auto simp: after_pop_def Let_def links_mod_task mod_task_at)
  have "bucket_ok ?s p q"
    using b q i p len by (auto simp: bucket_ok_def lk pr hd tl chain_update_outside)
  then show "ready_rep ?s (Q(p := q))"
  proof (rule ready_rep_upd [OF rep p])
    show "links ?s j = links s j \<and> t_priority (tasks ?s ! j) = t_priority (tasks s ! j)"
      if "j \<in> queued Q" "j \<notin> set (Q p)" for j
      using that q unfolding lk pr by auto
  qed (auto simp: hd tl)
  let ?h = "mod_head p (links s i) s"
  have "relinked {i} s (if links s i = NIL then mod_tail p NIL ?h else ?h)"
    using relinked_trans [OF relinked_mod_head [of "{i}" s p NIL] relinked_mod_tail [of "{i}" _ p NIL]]
    by (simp add: relinked_mod_head)
  from relinked_trans [OF this relinked_mod_task [of i "{i}"]] show "relinked {i} s ?s"
    by (simp add: after_pop_def Let_def)
qed

lemma ready_pop_spec:
  assumes ok: "shape_ok s" and rep: "ready_rep s Q"
  shows "first_bucket Q = None \<Longrightarrow> ready_pop s = Some (NIL, s)"
    and "first_bucket Q = Some p \<Longrightarrow> \<exists>s'. ready_pop s = Some (hd (Q p), s')
      \<and> ready_rep s' (Q(p := tl (Q p))) \<and> relinked {hd (Q p)} s s'"
proof -
  have run: "ready_pop s = Some (case first_bucket Q of
      None \<Rightarrow> (NIL, s) | Some p \<Rightarrow> (hd (Q p), after_pop p (hd (Q p)) s))"
    using ready_pop_scan_run [OF ok rep refl, of 0] by (simp add: ready_pop_def first_bucket_def)
  then show "first_bucket Q = None \<Longrightarrow> ready_pop s = Some (NIL, s)" by simp
  assume p: "first_bucket Q = Some p"
  note b = first_bucket_Some [OF p]
  from b(2) have "Q p = hd (Q p) # tl (Q p)" by simp
  from after_pop_spec [OF ok rep b(1) this] run p show "\<exists>s'. ready_pop s = Some (hd (Q p), s')
      \<and> ready_rep s' (Q(p := tl (Q p))) \<and> relinked {hd (Q p)} s s'" by simp
qed

text \<open>Searching a bucket, and the bounded search of \<open>ready_contains\<close>.\<close>

lemma contains_walk_chain:
  assumes "chain (links s) h xs" "\<forall>x \<in> set xs. x < length (tasks s)" "length xs \<le> n"
  shows "contains_walk n task h s = Some (task \<in> set xs)"
  using assms
proof (induction n arbitrary: h xs)
  case 0
  then show ?case by simp
next
  case (Suc n)
  show ?case
  proof (cases xs)
    case Nil
    with Suc.prems show ?thesis by simp
  next
    case (Cons x ys)
    with Suc.prems show ?thesis using Suc.IH [of "links s x" ys] by (auto simp: links_def)
  qed
qed

lemma ready_contains_spec:
  assumes "shape_ok s" "ready_rep s Q"
  shows "ready_contains task s = Some (task \<in> queued Q)"
proof -
  have "contains_scan ps task s = Some (\<exists>p \<in> set ps. task \<in> set (Q p))"
    if "\<forall>p \<in> set ps. p < PRIORITY_LEVELS" for ps
    using that
  proof (induction ps)
    case Nil
    then show ?case by simp
  next
    case (Cons p ps)
    then have p: "p < PRIORITY_LEVELS" by simp
    note b = ready_repD [OF assms(2) p] and len = shape_okD(1-3) [OF assms(1)]
    have "contains_walk TASK_SLOT_COUNT task (ready_head s ! p) s = Some (task \<in> set (Q p))"
      using contains_walk_chain [OF b(1) _ bucket_length [OF assms(2) p]] b(3) len by simp
    with Cons p len show ?case by simp
  qed
  from this [of "[0..<PRIORITY_LEVELS]"] show ?thesis
    by (auto simp: ready_contains_def queued_iff)
qed

text \<open>Unlinking a slot from its bucket.\<close>

lemma ready_remove_loop_run:
  assumes len: "\<forall>x \<in> set (xs @ ys). x < length (tasks s)" "p < length (ready_head s)" "p < length (ready_tail s)"
    and ch: "chain (links s) (ready_head s ! p) (xs @ ys)" and fresh: "task \<notin> set xs"
  shows "ready_remove_loop p task (last_or_NIL xs) (if ys = [] then NIL else hd ys) s =
    (if task \<notin> set ys then Some s
     else let zs = xs @ takeWhile (\<lambda>x. x \<noteq> task) ys;
              s = (if zs = [] then mod_head p (links s task) s
                   else mod_task (last zs) (\<lambda>t. t\<lparr>t_next := links s task\<rparr>) s);
              s = (if ready_tail s ! p = task then mod_tail p (last_or_NIL zs) s else s)
          in Some (mod_task task (\<lambda>t. t\<lparr>t_next := NIL\<rparr>) s))"
  using assms
proof (induction ys arbitrary: xs)
  case Nil
  then show ?case by (simp add: ready_remove_loop.simps)
next
  case (Cons y ys)
  have y: "y \<noteq> NIL" "y < length (tasks s)"
    using Cons.prems chain_not_NIL by fastforce+
  show ?case
  proof (cases "y = task")
    case True
    have "\<forall>x \<in> set xs. x < length (tasks s) \<and> x \<noteq> NIL"
      using Cons.prems chain_not_NIL by fastforce
    with True y Cons.prems show ?thesis
      by (subst ready_remove_loop.simps) (auto simp: Let_def links_def last_or_NIL_def)
  next
    case False
    have nx: "links s y = (if ys = [] then NIL else hd ys)"
      using Cons.prems(4) chain_successor by blast
    have "ready_remove_loop p task (last_or_NIL xs) y s =
        ready_remove_loop p task y (links s y) s"
      using y False by (subst ready_remove_loop.simps) (simp add: links_def)
    with Cons.IH [of "xs @ [y]"] Cons.prems False nx show ?thesis by (simp add: Let_def)
  qed
qed

definition after_remove :: "nat \<Rightarrow> nat \<Rightarrow> nat list \<Rightarrow> sched \<Rightarrow> sched" where
  "after_remove p task zs s =
     (let s1 = (if zs = [] then mod_head p (links s task) s
                else mod_task (last zs) (\<lambda>t. t\<lparr>t_next := links s task\<rparr>) s);
          s2 = (if ready_tail s ! p = task then mod_tail p (last_or_NIL zs) s1 else s1)
      in mod_task task (\<lambda>t. t\<lparr>t_next := NIL\<rparr>) s2)"

lemma after_remove_spec:
  assumes ok: "shape_ok s" and rep: "ready_rep s Q" and p: "p < PRIORITY_LEVELS"
    and q: "Q p = zs @ task # ws"
  shows "ready_rep (after_remove p task zs s) (Q(p := zs @ ws))"
    "relinked (set (Q p)) s (after_remove p task zs s)"
proof -
  note len = shape_okD(1-3) [OF ok] and b = ready_repD [OF rep p]
  have d: "distinct (zs @ task # ws)" using chain_distinct [OF b(1)] q by simp
  have slots: "task < TASK_SLOT_COUNT" "\<And>x. x \<in> set zs \<Longrightarrow> x < TASK_SLOT_COUNT"
    "\<And>x. x \<in> set zs \<Longrightarrow> x \<noteq> task"
    using b(3) q d by auto
  have tl: "ready_tail s ! p = task \<longleftrightarrow> ws = []"
    using b(2) q d last_in_set [of ws] by (auto simp: last_or_NIL_def)
  let ?s = "after_remove p task zs s"
  have lk: "links ?s = (if zs = [] then (links s)(task := NIL)
      else ((links s)(last zs := links s task))(task := NIL))"
    using len slots last_in_set [of zs] by (auto simp: after_remove_def Let_def links_mod_task)
  have pr: "t_priority (tasks ?s ! j) = t_priority (tasks s ! j)" for j
    using len slots last_in_set [of zs] by (auto simp: after_remove_def Let_def mod_task_at)
  have hd: "ready_head ?s = (if zs = [] then (ready_head s)[p := links s task] else ready_head s)"
    and tail: "ready_tail ?s = (if ws = [] then (ready_tail s)[p := last_or_NIL zs] else ready_tail s)"
    by (auto simp: after_remove_def Let_def tl)
  have ch: "chain (links ?s) (ready_head ?s ! p) (zs @ ws)"
  proof (cases zs rule: rev_cases)
    case Nil
    then show ?thesis using b(1) q d p len lk hd by (simp add: chain_update_outside)
  next
    case (snoc us y)
    with chain_unlink [of "links s" "ready_head s ! p" us y task ws] b(1) q lk hd
    show ?thesis by simp
  qed
  have "bucket_ok ?s p (zs @ ws)"
    using ch b q p len by (auto simp: bucket_ok_def pr tail last_or_NIL_def)
  then show "ready_rep ?s (Q(p := zs @ ws))"
  proof (rule ready_rep_upd [OF rep p])
    fix j
    assume "j \<in> queued Q" "j \<notin> set (Q p)"
    then have "j \<noteq> task" "zs \<noteq> [] \<Longrightarrow> j \<noteq> last zs" using q by auto
    then show "links ?s j = links s j \<and> t_priority (tasks ?s ! j) = t_priority (tasks s ! j)"
      unfolding lk pr by simp
  qed (auto simp: hd tail)
  have "relinked (set (Q p)) s (if zs = [] then mod_head p (links s task) s
      else mod_task (last zs) (\<lambda>t. t\<lparr>t_next := links s task\<rparr>) s)" (is "relinked _ _ ?s1")
    using q by (simp add: relinked_mod_head relinked_mod_task)
  moreover have "relinked (set (Q p)) ?s1 (if ready_tail s ! p = task then mod_tail p (last_or_NIL zs) ?s1 else ?s1)"
    by (simp add: relinked_mod_tail)
  ultimately show "relinked (set (Q p)) s ?s"
    using relinked_trans [OF relinked_trans relinked_mod_task [of task "set (Q p)"], of "set (Q p)" s]
    q unfolding after_remove_def Let_def by fastforce
qed

lemma remove1_split: "task \<notin> set zs \<Longrightarrow> remove1 task (zs @ task # ws) = zs @ ws"
  by (induction zs) auto

lemma takeWhile_split: "task \<notin> set zs \<Longrightarrow> takeWhile (\<lambda>x. x \<noteq> task) (zs @ task # ws) = zs"
  by (induction zs) auto

lemma ready_remove_spec:
  assumes ok: "shape_ok s" and rep: "ready_rep s Q" and task: "task < TASK_SLOT_COUNT"
    and p: "p = t_priority (tasks s ! task)"
  shows "task \<notin> queued Q \<Longrightarrow> ready_remove task s = Some s"
    and "task \<in> queued Q \<Longrightarrow> \<exists>s'. ready_remove task s = Some s'
      \<and> ready_rep s' (Q(p := remove1 task (Q p))) \<and> relinked (set (Q p)) s s'"
proof -
  note len = shape_okD(1-3) [OF ok]
  have pl: "p < PRIORITY_LEVELS" using shape_okD(7) [OF ok task] p by simp
  note b = ready_repD [OF rep pl]
  have mem: "task \<in> queued Q \<longleftrightarrow> task \<in> set (Q p)" using queued_bucket [OF rep] p pl by simp
  have "ready_head s ! p = (if Q p = [] then NIL else hd (Q p))" using chain_head [OF b(1)] .
  then have run: "ready_remove task s = ready_remove_loop p task (last_or_NIL []) (if Q p = [] then NIL else hd (Q p)) s"
    using task pl len p by (simp add: ready_remove_def ready_priority_def)
  have slots: "\<forall>x \<in> set ([] @ Q p). x < length (tasks s)" using b(3) len by simp
  have ch: "chain (links s) (ready_head s ! p) ([] @ Q p)" using b(1) by simp
  note loop = ready_remove_loop_run [OF slots _ _ ch, of task]
  show "ready_remove task s = Some s" if "task \<notin> queued Q"
    unfolding run using loop that pl len mem by simp
  assume "task \<in> queued Q"
  with mem obtain zs ws where q: "Q p = zs @ task # ws" "task \<notin> set zs"
    using split_list_first by fastforce
  have "ready_remove task s = Some (after_remove p task zs s)"
    unfolding run using loop q pl len takeWhile_split [OF q(2), of ws]
    by (auto simp: after_remove_def Let_def)
  with after_remove_spec [OF ok rep pl q(1)] remove1_split [OF q(2)] q(1)
  show "\<exists>s'. ready_remove task s = Some s' \<and> ready_rep s' (Q(p := remove1 task (Q p)))
      \<and> relinked (set (Q p)) s s'" by (intro exI [of _ "after_remove p task zs s"]) simp
qed

lemmas ready_queue_specs = ready_push_spec ready_pop_spec ready_remove_spec ready_contains_spec

subsection \<open>The interface of a priority queue\<close>

fun push_all :: "(nat \<Rightarrow> 's \<Rightarrow> 's option) \<Rightarrow> nat list \<Rightarrow> 's \<Rightarrow> 's option" where
  "push_all push [] s = Some s"
| "push_all push (i # xs) s = do { s \<leftarrow> push i s; push_all push xs s }"

fun drain :: "('s \<Rightarrow> (nat \<times> 's) option) \<Rightarrow> nat \<Rightarrow> nat \<Rightarrow> 's \<Rightarrow> (nat list \<times> 's) option" where
  "drain pop nil 0 s = Some ([], s)"
| "drain pop nil (Suc n) s = do {
     (i, s) \<leftarrow> pop s;
     (if i = nil then Some ([], s)
      else do { (xs, s) \<leftarrow> drain pop nil n s; Some (i # xs, s) })
   }"

definition buckets :: "nat \<Rightarrow> (nat \<Rightarrow> nat list) \<Rightarrow> nat list" where
  "buckets n Q = concat (map Q [0..<n])"

lemma buckets_first:
  assumes "p < n" "Q p \<noteq> []" "\<forall>p' < p. Q p' = []"
  shows "buckets n Q = hd (Q p) # buckets n (Q(p := tl (Q p)))"
proof -
  have split: "[0..<n] = [0..<p] @ p # [Suc p..<n]"
    using assms(1) upt_add_eq_append [of 0 p "n - p"] by (simp add: upt_conv_Cons)
  have none: "concat (map Q [0..<p]) = []" using assms(3) by auto
  have same: "map (Q(p := v)) [0..<p] = map Q [0..<p]" "map (Q(p := v)) [Suc p..<n] = map Q [Suc p..<n]" for v
    by simp_all
  have "buckets n (Q(p := v)) = v @ concat (map Q [Suc p..<n])" for v
    unfolding buckets_def split map_append concat_append list.map concat.simps same none by simp
  from this [of "Q p"] this [of "tl (Q p)"] assms(2) show ?thesis by simp
qed

lemma buckets_sort_key:
  assumes "\<forall>i \<in> set xs. f i < n"
  shows "buckets n (\<lambda>p. filter (\<lambda>i. f i = p) xs) = sort_key f xs"
proof (rule sym, rule properties_for_sort_key)
  let ?b = "\<lambda>k. concat (map (\<lambda>p. filter (\<lambda>i. f i = p) xs) [0..<k])"
  have eq: "buckets n (\<lambda>p. filter (\<lambda>i. f i = p) xs) = ?b n" by (simp add: buckets_def)
  have filt: "filter (\<lambda>i. f i = v) (?b k) = (if v < k then filter (\<lambda>i. f i = v) xs else [])" for v k
  proof (induction k)
    case 0
    then show ?case by simp
  next
    case (Suc k)
    have "filter (\<lambda>i. f i = v \<and> f i = k) xs = (if v = k then filter (\<lambda>i. f i = v) xs else [])"
      by (auto simp: filter_empty_conv intro: filter_cong)
    with Suc show ?case by (auto simp: less_Suc_eq)
  qed
  have mem: "set (?b k) = {i \<in> set xs. f i < k}" for k by auto
  show "mset (buckets n (\<lambda>p. filter (\<lambda>i. f i = p) xs)) = mset xs"
  proof (rule multiset_eqI)
    fix x
    have c: "count (mset ys) x = length (filter (\<lambda>i. i = x) (filter (\<lambda>i. f i = f x) ys))" for ys
      by (induction ys) auto
    show "count (mset (buckets n (\<lambda>p. filter (\<lambda>i. f i = p) xs))) x = count (mset xs) x"
    proof (cases "f x < n")
      case True
      then show ?thesis unfolding c eq filt by simp
    next
      case False
      with assms have "x \<notin> set xs" by auto
      moreover have "x \<notin> set (?b n)" using False by auto
      ultimately show ?thesis unfolding eq by (metis count_mset_0_iff)
    qed
  qed
  show "filter (\<lambda>x. f k = f x) (buckets n (\<lambda>p. filter (\<lambda>i. f i = p) xs)) = filter (\<lambda>x. f k = f x) xs"
    if "k \<in> set (buckets n (\<lambda>p. filter (\<lambda>i. f i = p) xs))" for k
  proof -
    from that have "f k < n" unfolding eq by auto
    moreover have "(\<lambda>x. f k = f x) = (\<lambda>x. f x = f k)" by auto
    ultimately show ?thesis unfolding eq using filt [of "f k" n] by simp
  qed
  have "sorted (map f (?b k))" for k
  proof (induction k)
    case 0
    then show ?case by simp
  next
    case (Suc k)
    have "map f (filter (\<lambda>i. f i = k) xs) = replicate (length (filter (\<lambda>i. f i = k) xs)) k"
      by (induction xs) auto
    moreover have "v \<le> k" if "v \<in> set (map f (?b k))" for v using that mem [of k] by auto
    ultimately show ?case using Suc by (auto simp: sorted_append)
  qed
  then show "sorted (map f (buckets n (\<lambda>p. filter (\<lambda>i. f i = p) xs)))" by (simp add: eq)
qed

text \<open>
  A queue of slots with \<open>levels\<close> priorities, 0 first, that is first-in first-out within a priority.
  \<open>rep s Q\<close> says that the state \<open>s\<close> holds the lists \<open>Q\<close>.
\<close>

locale priority_fifo =
  fixes rep :: "'s \<Rightarrow> (nat \<Rightarrow> nat list) \<Rightarrow> bool"
    and prio :: "'s \<Rightarrow> nat \<Rightarrow> nat"
    and slot :: "nat \<Rightarrow> bool"
    and levels :: nat
    and nil :: nat
    and push :: "nat \<Rightarrow> 's \<Rightarrow> 's option"
    and pop :: "'s \<Rightarrow> (nat \<times> 's) option"
  assumes slot_not_nil: "slot i \<Longrightarrow> i \<noteq> nil"
    and prio_bound: "rep s Q \<Longrightarrow> slot i \<Longrightarrow> prio s i < levels"
    and rep_slot: "rep s Q \<Longrightarrow> p < levels \<Longrightarrow> i \<in> set (Q p) \<Longrightarrow> slot i"
    and push_law: "rep s Q \<Longrightarrow> slot i \<Longrightarrow> \<forall>p < levels. i \<notin> set (Q p) \<Longrightarrow>
      \<exists>s'. push i s = Some s' \<and> rep s' (Q(prio s i := Q (prio s i) @ [i]))
        \<and> (\<forall>j. slot j \<longrightarrow> prio s' j = prio s j)"
    and pop_empty: "rep s Q \<Longrightarrow> \<forall>p < levels. Q p = [] \<Longrightarrow> pop s = Some (nil, s)"
    and pop_head: "rep s Q \<Longrightarrow> p < levels \<Longrightarrow> Q p \<noteq> [] \<Longrightarrow> \<forall>p' < p. Q p' = [] \<Longrightarrow>
      \<exists>s'. pop s = Some (hd (Q p), s') \<and> rep s' (Q(p := tl (Q p)))"
begin

lemma push_all_rep:
  assumes "rep s Q" "distinct xs" "\<forall>i \<in> set xs. slot i \<and> (\<forall>p < levels. i \<notin> set (Q p))"
  shows "\<exists>s'. push_all push xs s = Some s' \<and> rep s' (\<lambda>p. Q p @ filter (\<lambda>i. prio s i = p) xs)"
  using assms
proof (induction xs arbitrary: s Q)
  case Nil
  then show ?case by simp
next
  case (Cons x xs)
  then have x: "slot x" "\<forall>p < levels. x \<notin> set (Q p)" by auto
  from push_law [OF Cons.prems(1) x] obtain s1 where s1: "push x s = Some s1"
    "rep s1 (Q(prio s x := Q (prio s x) @ [x]))" "\<forall>j. slot j \<longrightarrow> prio s1 j = prio s j" by blast
  let ?Q = "Q(prio s x := Q (prio s x) @ [x])"
  have "\<forall>i \<in> set xs. slot i \<and> (\<forall>p < levels. i \<notin> set (?Q p))" using Cons.prems(2,3) by auto
  from Cons.IH [OF s1(2) _ this] Cons.prems(2) obtain s' where
    s': "push_all push xs s1 = Some s'" "rep s' (\<lambda>p. ?Q p @ filter (\<lambda>i. prio s1 i = p) xs)" by auto
  have "(\<lambda>p. ?Q p @ filter (\<lambda>i. prio s1 i = p) xs) = (\<lambda>p. Q p @ filter (\<lambda>i. prio s i = p) (x # xs))"
  proof
    fix p
    have "filter (\<lambda>i. prio s1 i = p) xs = filter (\<lambda>i. prio s i = p) xs"
      using s1(3) Cons.prems(3) by (intro filter_cong) auto
    then show "?Q p @ filter (\<lambda>i. prio s1 i = p) xs = Q p @ filter (\<lambda>i. prio s i = p) (x # xs)" by simp
  qed
  with s' s1(1) show ?case by auto
qed

lemma drain_buckets:
  assumes "rep s Q" "length (buckets levels Q) \<le> n"
  shows "\<exists>s'. drain pop nil n s = Some (buckets levels Q, s')"
  using assms
proof (induction n arbitrary: s Q)
  case 0
  then show ?case by simp
next
  case (Suc n)
  show ?case
  proof (cases "\<forall>p < levels. Q p = []")
    case True
    then have "buckets levels Q = []" by (simp add: buckets_def)
    with pop_empty [OF Suc.prems(1) True] show ?thesis by simp
  next
    case False
    then obtain p where p: "p < levels" "Q p \<noteq> []" "\<forall>p' < p. Q p' = []"
      using exists_least_iff [of "\<lambda>p. p < levels \<and> Q p \<noteq> []"] by (metis less_trans)
    note first = buckets_first [of p levels Q, OF p]
    from pop_head [OF Suc.prems(1) p] obtain s1 where
      s1: "pop s = Some (hd (Q p), s1)" "rep s1 (Q(p := tl (Q p)))" by blast
    have "hd (Q p) \<noteq> nil"
      using slot_not_nil rep_slot [OF Suc.prems(1) p(1)] hd_in_set [OF p(2)] by auto
    moreover have "length (buckets levels (Q(p := tl (Q p)))) \<le> n" using Suc.prems(2) first by simp
    moreover from Suc.IH [OF s1(2) this] obtain s' where
      "drain pop nil n s1 = Some (buckets levels (Q(p := tl (Q p))), s')" by blast
    ultimately show ?thesis using s1(1) first by simp
  qed
qed

lemma drain_sorts:
  assumes "rep s (\<lambda>_. [])" "distinct xs" "\<forall>i \<in> set xs. slot i"
  shows "\<exists>s1 s2. push_all push xs s = Some s1
    \<and> drain pop nil (length xs) s1 = Some (sort_key (prio s) xs, s2)"
proof -
  from push_all_rep [OF assms(1,2)] assms(3) obtain s1 where
    s1: "push_all push xs s = Some s1" "rep s1 (\<lambda>p. filter (\<lambda>i. prio s i = p) xs)" by auto
  have eq: "buckets levels (\<lambda>p. filter (\<lambda>i. prio s i = p) xs) = sort_key (prio s) xs"
    using assms(3) prio_bound [OF assms(1)] by (intro buckets_sort_key) auto
  from drain_buckets [OF s1(2), of "length xs"] s1(1) show ?thesis by (auto simp: eq)
qed

end

definition ready_ok :: "sched \<Rightarrow> (nat \<Rightarrow> nat list) \<Rightarrow> bool" where
  "ready_ok s Q \<longleftrightarrow> shape_ok s \<and> ready_rep s Q"

interpretation ready: priority_fifo ready_ok "\<lambda>s i. t_priority (tasks s ! i)" "\<lambda>i. i < TASK_SLOT_COUNT"
  PRIORITY_LEVELS NIL ready_push ready_pop
proof (unfold_locales, goal_cases)
  case (1 i)
  then show ?case by (rule slot_not_NIL)
next
  case (2 s Q i)
  then show ?case by (auto simp: ready_ok_def dest: shape_okD)
next
  case (3 s Q p i)
  then show ?case by (auto simp: ready_ok_def dest: ready_repD)
next
  case (4 s Q i)
  then have "shape_ok s" "ready_rep s Q" "i \<notin> queued Q" by (auto simp: ready_ok_def queued_iff)
  from ready_push_spec [OF this(1,2) 4(2) this(3) refl] this(1) 4 show ?case
    by (auto simp: ready_ok_def relinked_shape relinked_fields shape_okD)
next
  case (5 s Q)
  then have "first_bucket Q = None" by (auto simp: first_bucket_None queued_def)
  with 5 show ?case by (auto simp: ready_ok_def intro: ready_pop_spec)
next
  case (6 s Q p)
  have "first_bucket Q = Some p"
  proof (cases "first_bucket Q")
    case None
    with 6 show ?thesis by (auto simp: first_bucket_None queued_def)
  next
    case (Some p')
    from first_bucket_Some [OF Some] 6 show ?thesis using Some by (metis linorder_neqE_nat)
  qed
  with 6 ready_pop_spec(2) [of s Q p] show ?case by (auto simp: ready_ok_def relinked_shape)
qed

subsection \<open>Properties\<close>

text \<open>
  C1. The ready queue is a stable priority queue: tasks made ready in any order are taken out
  highest priority first, and in their arrival order within a priority, whatever the links and
  counters of the scheduler were before.
\<close>

theorem ready_queue_stable_priority_order:
  assumes "shape_ok s" "ready_rep s (\<lambda>_. [])" "distinct xs" "\<forall>i \<in> set xs. i < TASK_SLOT_COUNT"
  shows "\<exists>s1 s2. push_all ready_push xs s = Some s1
    \<and> drain ready_pop NIL (length xs) s1 = Some (sort_key (\<lambda>i. t_priority (tasks s ! i)) xs, s2)"
  using ready.drain_sorts [of s xs] assms by (simp add: ready_ok_def)

lemma ready_rep_new: "ready_rep (sched_new n) (\<lambda>_. [])"
  by (simp add: ready_rep_def bucket_ok_def sched_new_def)

theorem ready_queue_stable_priority_order_witness:
  "\<exists>s1 s2. push_all ready_push [5, 3, 4] (mod_task 4 (\<lambda>t. t\<lparr>t_priority := 2\<rparr>) (sched_new 8)) = Some s1
    \<and> drain ready_pop NIL 3 s1 = Some ([4, 5, 3], s2)"
proof -
  let ?s = "mod_task 4 (\<lambda>t. t\<lparr>t_priority := 2\<rparr>) (sched_new 8)"
  have len: "length (tasks (sched_new 8)) = 17" by (simp add: sched_new_def TASK_SLOT_COUNT_eq)
  have ok: "shape_ok ?s"
    by (rule shape_ok_mod_task) (simp_all add: sched_new_shape TASK_SLOT_COUNT_eq PRIORITY_LEVELS_def)
  have rep: "ready_rep ?s (\<lambda>_. [])"
    by (rule ready_rep_mod_task) (simp_all add: ready_rep_new len queued_def)
  have "tasks ?s ! 4 = tcb_empty\<lparr>t_priority := 2\<rparr>" "tasks ?s ! 5 = tcb_empty" "tasks ?s ! 3 = tcb_empty"
    by (simp_all add: len) (simp_all add: sched_new_def TASK_SLOT_COUNT_eq)
  then have "sort_key (\<lambda>i. t_priority (tasks ?s ! i)) [5, 3, 4] = [4, 5, 3]"
    by (simp add: tcb_empty_def PRIORITY_LEVELS_def)
  moreover have "distinct [5, 3, 4 :: nat]" "\<forall>i \<in> set [5, 3, 4]. i < TASK_SLOT_COUNT"
    "length [5, 3, 4 :: nat] = 3" by (simp_all add: TASK_SLOT_COUNT_eq)
  ultimately show ?thesis
    using ready_queue_stable_priority_order [OF ok rep, of "[5, 3, 4]"] by (simp only:)
qed

lemma bucket_without:
  assumes rep: "ready_rep s Q" and p: "p = t_priority (tasks s ! task)" and p': "p' < PRIORITY_LEVELS"
  shows "(Q(p := remove1 task (Q p))) p' = filter (\<lambda>j. j \<noteq> task) (Q p')"
proof (cases "p' = p")
  case True
  then show ?thesis
    using distinct_remove1_removeAll [OF chain_distinct [OF ready_repD(1) [OF rep p']], of task]
    by (simp add: removeAll_filter_not_eq eq_commute)
next
  case False
  have "task \<notin> set (Q p')" using ready_repD(4) [OF rep p', of task] p False by auto
  then have "filter (\<lambda>j. j \<noteq> task) (Q p') = Q p'" by (intro filter_True) auto
  with False show ?thesis by simp
qed

text \<open>
  Removing a task from the ready queue always returns on a well-linked queue, although its loop
  has no bound; it takes out that task and nothing else, keeps the order of every bucket, and from
  then on the bounded membership test denies the task and answers as before for every other one.
\<close>

theorem ready_remove_exact:
  assumes "shape_ok s" "ready_rep s Q" "task < TASK_SLOT_COUNT"
  shows "\<exists>s' Q'. ready_remove task s = Some s' \<and> ready_rep s' Q'
    \<and> (\<forall>p < PRIORITY_LEVELS. Q' p = filter (\<lambda>j. j \<noteq> task) (Q p))
    \<and> ready_contains task s' = Some False
    \<and> (\<forall>j. j \<noteq> task \<longrightarrow> ready_contains j s' = ready_contains j s)"
proof -
  let ?p = "t_priority (tasks s ! task)"
  let ?Q = "Q(?p := remove1 task (Q ?p))"
  note filt = bucket_without [OF assms(2) refl, of _ task]
  obtain s' where s': "ready_remove task s = Some s'" "ready_rep s' ?Q" "shape_ok s'"
  proof (cases "task \<in> queued Q")
    case True
    with ready_remove_spec(2) [OF assms refl] that relinked_shape assms(1) show ?thesis by blast
  next
    case False
    have "?Q = Q"
      using False queued_bucket [OF assms(2), of task] shape_okD(7) [OF assms(1,3)]
      by (simp add: remove1_idem)
    with False ready_remove_spec(1) [OF assms refl] that assms show ?thesis by simp
  qed
  have "queued ?Q = queued Q - {task}" unfolding queued_def using filt by auto
  then have "ready_contains j s' = Some (j \<in> queued Q \<and> j \<noteq> task)" for j
    using ready_contains_spec [OF s'(3,2)] by simp
  with s' filt ready_contains_spec [OF assms(1,2)] show ?thesis by (intro exI [of _ s'] exI [of _ ?Q]) simp
qed

definition one_ready :: sched where
  "one_ready = mod_tail 31 3 (mod_head 31 3 (mod_task 3 (\<lambda>t. t\<lparr>t_state := Ready\<rparr>) (sched_new 8)))"

lemma one_ready_queue: "shape_ok one_ready" "ready_rep one_ready (\<lambda>p. if p = 31 then [3] else [])"
proof -
  have len: "3 < length (tasks (sched_new 8))" by (simp add: sched_new_def TASK_SLOT_COUNT_eq)
  have t: "tasks one_ready ! 3 = tcb_empty\<lparr>t_state := Ready\<rparr>"
    using len by (simp add: one_ready_def) (simp add: sched_new_def TASK_SLOT_COUNT_eq)
  show "shape_ok one_ready"
    using shape_ok_mod_task [OF sched_new_shape, of 3] shape_okD(7) [OF sched_new_shape, of 3]
    by (simp add: one_ready_def TASK_SLOT_COUNT_eq)
  show "ready_rep one_ready (\<lambda>p. if p = 31 then [3] else [])"
    using t by (auto simp: ready_rep_def bucket_ok_def links_def one_ready_def sched_new_def
        table_sizes nth_list_update tcb_empty_def)
qed

theorem ready_remove_exact_witness:
  "\<exists>s' Q'. ready_remove 3 one_ready = Some s' \<and> ready_rep s' Q'
    \<and> (\<forall>p < PRIORITY_LEVELS. Q' p = []) \<and> ready_contains 3 s' = Some False"
proof -
  have "3 < TASK_SLOT_COUNT" by (simp add: TASK_SLOT_COUNT_eq)
  from ready_remove_exact [OF one_ready_queue this] show ?thesis by (auto split: if_splits)
qed

end
