(* ===== verification/Wait_Queues.thy ===== *)
theory Wait_Queues
  imports Ready_Queue
begin

text \<open>
  The wait queues of semaphores and mutexes (\<open>runtime/sync.rs\<close>): intrusive lists over the same
  \<open>Tcb::next\<close> link as the ready queue, kept in priority order. The two structs of the source have
  the same pair of ends and the same two routines; \<open>wait_insert\<close> and \<open>wait_unlink\<close> are the common
  bodies on the pair (head, tail), and each routine of the source is its instance.
\<close>

subsection \<open>Operations\<close>

partial_function (option) wait_scan ::
  "nat \<Rightarrow> nat \<Rightarrow> nat \<Rightarrow> sched \<Rightarrow> (nat \<times> nat) option" where
  "wait_scan priority previous cur s =
     (if cur = NIL then Some (previous, cur)
      else do {
        t \<leftarrow> task_at cur s;
        (if t_priority t \<le> priority then wait_scan priority cur (t_next t) s
         else Some (previous, cur))
      })"

declare wait_scan.simps [code]

definition wait_insert :: "nat \<Rightarrow> nat \<times> nat \<Rightarrow> sched \<Rightarrow> ((nat \<times> nat) \<times> sched) option" where
  "wait_insert task ends s = do {
     let (head, tail) = ends;
     t \<leftarrow> task_at task s;
     (previous, cur) \<leftarrow> wait_scan (t_priority t) NIL head s;
     s \<leftarrow> upd_task task (\<lambda>t. t\<lparr>t_next := cur\<rparr>) s;
     s \<leftarrow> (if previous = NIL then Some s else upd_task previous (\<lambda>t. t\<lparr>t_next := task\<rparr>) s);
     Some ((if previous = NIL then task else head, if cur = NIL then task else tail), s)
   }"

fun wait_unlink_loop ::
  "nat \<Rightarrow> nat \<Rightarrow> nat \<Rightarrow> nat \<Rightarrow> nat \<times> nat \<Rightarrow> sched \<Rightarrow> ((nat \<times> nat) \<times> sched) option" where
  "wait_unlink_loop 0 task previous cur ends s = do {
     assert_that (cur = NIL);
     Some (ends, s)
   }"
| "wait_unlink_loop (Suc n) task previous cur ends s =
     (if cur = NIL then Some (ends, s)
      else if cur = task then do {
        let (head, tail) = ends;
        t \<leftarrow> task_at cur s;
        let nxt = t_next t;
        s \<leftarrow> (if previous = NIL then Some s else upd_task previous (\<lambda>t. t\<lparr>t_next := nxt\<rparr>) s);
        s \<leftarrow> upd_task cur (\<lambda>t. t\<lparr>t_next := NIL\<rparr>) s;
        Some ((if previous = NIL then nxt else head, if tail = cur then previous else tail), s)
      } else do {
        t \<leftarrow> task_at cur s;
        wait_unlink_loop n task cur (t_next t) ends s
      })"

definition wait_unlink :: "nat \<Rightarrow> nat \<times> nat \<Rightarrow> sched \<Rightarrow> ((nat \<times> nat) \<times> sched) option" where
  "wait_unlink task ends s = wait_unlink_loop TASK_SLOT_COUNT task NIL (fst ends) ends s"

text \<open>The routines of the source.\<close>

definition sem_ends :: "sem_state \<Rightarrow> nat \<times> nat" where
  "sem_ends st = (sm_wait_head st, sm_wait_tail st)"

definition sem_with_ends :: "sem_state \<Rightarrow> nat \<times> nat \<Rightarrow> sem_state" where
  "sem_with_ends st e = st\<lparr>sm_wait_head := fst e, sm_wait_tail := snd e\<rparr>"

definition mutex_ends :: "mutex_state \<Rightarrow> nat \<times> nat" where
  "mutex_ends st = (mx_wait_head st, mx_wait_tail st)"

definition mutex_with_ends :: "mutex_state \<Rightarrow> nat \<times> nat \<Rightarrow> mutex_state" where
  "mutex_with_ends st e = st\<lparr>mx_wait_head := fst e, mx_wait_tail := snd e\<rparr>"

definition enqueue_waiter :: "sem_state \<Rightarrow> nat \<Rightarrow> sched \<Rightarrow> (sem_state \<times> sched) option" where
  "enqueue_waiter st task s = do {
     (e, s) \<leftarrow> wait_insert task (sem_ends st) s;
     Some (sem_with_ends st e, s)
   }"

definition remove_waiter :: "sem_state \<Rightarrow> nat \<Rightarrow> sched \<Rightarrow> (sem_state \<times> sched) option" where
  "remove_waiter st task s = do {
     (e, s) \<leftarrow> wait_unlink task (sem_ends st) s;
     Some (sem_with_ends st e, s)
   }"

definition enqueue_mutex_waiter :: "mutex_state \<Rightarrow> nat \<Rightarrow> sched \<Rightarrow> (mutex_state \<times> sched) option" where
  "enqueue_mutex_waiter st task s = do {
     (e, s) \<leftarrow> wait_insert task (mutex_ends st) s;
     Some (mutex_with_ends st e, s)
   }"

definition remove_mutex_waiter :: "mutex_state \<Rightarrow> nat \<Rightarrow> sched \<Rightarrow> (mutex_state \<times> sched) option" where
  "remove_mutex_waiter st task s = do {
     (e, s) \<leftarrow> wait_unlink task (mutex_ends st) s;
     Some (mutex_with_ends st e, s)
   }"

definition pop_mutex_waiter :: "mutex_state \<Rightarrow> sched \<Rightarrow> (nat \<times> mutex_state \<times> sched) option" where
  "pop_mutex_waiter st s =
     (let task = mx_wait_head st
      in if task \<noteq> NIL then do {
           t \<leftarrow> task_at task s;
           let st = st\<lparr>mx_wait_head := t_next t\<rparr>;
           let st = (if mx_wait_head st = NIL then st\<lparr>mx_wait_tail := NIL\<rparr> else st);
           s \<leftarrow> upd_task task (\<lambda>t. t\<lparr>t_next := NIL\<rparr>) s;
           Some (task, st, s)
         } else Some (task, st, s))"

subsection \<open>Insertion in priority order\<close>

definition insert_prio :: "('a \<Rightarrow> nat) \<Rightarrow> 'a \<Rightarrow> 'a list \<Rightarrow> 'a list" where
  "insert_prio f i q = takeWhile (\<lambda>j. f j \<le> f i) q @ i # dropWhile (\<lambda>j. f j \<le> f i) q"

lemma set_insert_prio [simp]: "set (insert_prio f i q) = insert i (set q)"
proof -
  have "set q = set (takeWhile (\<lambda>j. f j \<le> f i) q) \<union> set (dropWhile (\<lambda>j. f j \<le> f i) q)"
    by (metis set_append takeWhile_dropWhile_id)
  then show ?thesis by (auto simp: insert_prio_def)
qed

lemma mset_insert_prio [simp]: "mset (insert_prio f i q) = add_mset i (mset q)"
proof -
  have "mset q = mset (takeWhile (\<lambda>j. f j \<le> f i) q) + mset (dropWhile (\<lambda>j. f j \<le> f i) q)"
    by (metis mset_append takeWhile_dropWhile_id)
  then show ?thesis by (simp add: insert_prio_def)
qed

lemma insert_prio_sorted:
  assumes "sorted (map f q)"
  shows "sorted (map f (insert_prio f i q))"
  using assms
proof (induction q)
  case Nil
  then show ?case by (simp add: insert_prio_def)
next
  case (Cons x q)
  show ?case
  proof (cases "f x \<le> f i")
    case True
    have eq: "insert_prio f i (x # q) = x # insert_prio f i q" using True by (simp add: insert_prio_def)
    from Cons True show ?thesis by (auto simp: eq)
  next
    case False
    with Cons.prems show ?thesis by (auto simp: insert_prio_def)
  qed
qed

lemma insert_prio_cong:
  "(\<And>j. j \<in> insert i (set q) \<Longrightarrow> f j = g j) \<Longrightarrow> insert_prio f i q = insert_prio g i q"
  unfolding insert_prio_def by (auto intro!: arg_cong2 [of _ _ _ _ append] takeWhile_cong dropWhile_cong)

text \<open>A task goes behind every task of its own priority.\<close>

lemma insert_prio_filter:
  assumes "sorted (map f q)"
  shows "filter (\<lambda>j. f j = v) (insert_prio f i q) = filter (\<lambda>j. f j = v) q @ (if f i = v then [i] else [])"
  using assms
proof (induction q)
  case Nil
  then show ?case by (simp add: insert_prio_def)
next
  case (Cons x q)
  show ?case
  proof (cases "f x \<le> f i")
    case True
    have eq: "insert_prio f i (x # q) = x # insert_prio f i q" using True by (simp add: insert_prio_def)
    from Cons show ?thesis by (simp add: eq)
  next
    case False
    then have "\<forall>j \<in> set (x # q). f j \<noteq> f i" using Cons.prems by auto
    then show ?thesis using False by (auto simp: insert_prio_def filter_empty_conv)
  qed
qed

lemma insert_all_sort_key: "foldl (\<lambda>q i. insert_prio f i q) [] xs = sort_key f xs"
proof -
  have "sorted (map f (foldl (\<lambda>q i. insert_prio f i q) [] xs))
      \<and> mset (foldl (\<lambda>q i. insert_prio f i q) [] xs) = mset xs
      \<and> (\<forall>v. filter (\<lambda>j. f j = v) (foldl (\<lambda>q i. insert_prio f i q) [] xs) = filter (\<lambda>j. f j = v) xs)"
    by (induction xs rule: rev_induct) (auto simp: insert_prio_sorted insert_prio_filter)
  moreover have "(\<lambda>x. f k = f x) = (\<lambda>x. f x = f k)" for k by auto
  ultimately show ?thesis by (intro properties_for_sort_key [symmetric]) auto
qed

subsection \<open>The abstract view of a wait queue\<close>

abbreviation prio_of :: "sched \<Rightarrow> nat \<Rightarrow> nat" where
  "prio_of s i \<equiv> t_priority (tasks s ! i)"

definition hd_or_NIL :: "nat list \<Rightarrow> nat" where
  "hd_or_NIL xs = (if xs = [] then NIL else hd xs)"

lemma hd_or_NIL_simps [simp]: "hd_or_NIL [] = NIL" "hd_or_NIL (x # xs) = x"
  by (simp_all add: hd_or_NIL_def)

definition wait_rep :: "sched \<Rightarrow> nat \<times> nat \<Rightarrow> nat list \<Rightarrow> bool" where
  "wait_rep s e q \<longleftrightarrow> chain (links s) (fst e) q \<and> snd e = last_or_NIL q
     \<and> (\<forall>i \<in> set q. i < TASK_SLOT_COUNT)"

text \<open>What a wait-queue operation may change: the links of some slots and nothing else.\<close>

definition rewired :: "nat set \<Rightarrow> sched \<Rightarrow> sched \<Rightarrow> bool" where
  "rewired X s s' \<longleftrightarrow> relinked X s s' \<and> ready_head s' = ready_head s \<and> ready_tail s' = ready_tail s"

lemma rewired_refl [simp]: "rewired X s s"
  by (simp add: rewired_def)

lemma rewired_trans: "rewired X s s1 \<Longrightarrow> rewired Y s1 s2 \<Longrightarrow> rewired (X \<union> Y) s s2"
  by (auto simp: rewired_def intro: relinked_trans)

lemma rewired_mono: "rewired X s s' \<Longrightarrow> X \<subseteq> Y \<Longrightarrow> rewired Y s s'"
  by (auto simp: rewired_def intro: relinked_mono)

lemma rewired_mod_task: "i \<in> X \<Longrightarrow> rewired X s (mod_task i (\<lambda>t. t\<lparr>t_next := n\<rparr>) s)"
  by (simp add: rewired_def relinked_mod_task)

lemma rewired_relinked: "rewired X s s' \<Longrightarrow> relinked X s s'"
  by (simp add: rewired_def)

lemma links_outside:
  assumes "relinked X s s'" "j < length (tasks s)" "j \<notin> X"
  shows "links s' j = links s j"
  using relinked_task(2) [OF assms(1,2)] assms(3) by (simp add: links_def)

text \<open>Queues that own none of the rewired slots are unchanged.\<close>

lemma rewired_ready_rep:
  assumes "rewired X s s'" "ready_rep s Q" "queued Q \<inter> X = {}" "length (tasks s) = TASK_SLOT_COUNT"
  shows "ready_rep s' Q"
proof (rule ready_rep_frame [OF assms(2)])
  fix i
  assume i: "i \<in> queued Q"
  then have "i < length (tasks s)" "i \<notin> X" using queued_slot [OF assms(2)] assms(3,4) by auto
  then show "links s' i = links s i \<and> t_priority (tasks s' ! i) = t_priority (tasks s ! i)"
    using assms(1) links_outside relinked_fields(13) by (auto simp: rewired_def)
qed (use assms(1) in \<open>auto simp: rewired_def\<close>)

lemma wait_rep_frame:
  assumes "wait_rep s e q" "\<And>i. i \<in> set q \<Longrightarrow> links s' i = links s i"
  shows "wait_rep s' e q"
  using assms chain_cong [of q "links s'" "links s"] by (auto simp: wait_rep_def)

lemma relinked_wait_rep:
  assumes "relinked X s s'" "wait_rep s e q" "set q \<inter> X = {}" "length (tasks s) = TASK_SLOT_COUNT"
  shows "wait_rep s' e q"
  using assms(2)
proof (rule wait_rep_frame)
  fix i
  assume "i \<in> set q"
  then have "i < length (tasks s)" "i \<notin> X" using assms(2-4) by (auto simp: wait_rep_def)
  then show "links s' i = links s i" using links_outside [OF assms(1)] by blast
qed

lemma wait_rep_mod_task:
  assumes "wait_rep s e q" "i < length (tasks s)" "i \<in> set q \<Longrightarrow> t_next (f (tasks s ! i)) = t_next (tasks s ! i)"
  shows "wait_rep (mod_task i f s) e q"
  using assms(1) by (rule wait_rep_frame) (use assms(2,3) in \<open>auto simp: links_def mod_task_at\<close>)

lemma wait_rep_sel:
  assumes "wait_rep s e q"
  shows "fst e = hd_or_NIL q" "snd e = last_or_NIL q" "distinct q" "i \<in> set q \<Longrightarrow> i < TASK_SLOT_COUNT"
    "fst e = NIL \<longleftrightarrow> q = []"
  using assms chain_head [of "links s" "fst e" q] chain_distinct [of "links s" "fst e" q]
    chain_not_NIL [of "links s" "fst e" q]
  by (auto simp: wait_rep_def hd_or_NIL_def)

lemma wait_rep_empty [simp]: "wait_rep s (NIL, NIL) []"
  by (simp add: wait_rep_def)

subsection \<open>Refinement\<close>

lemma wait_scan_run:
  assumes "chain (links s) (hd_or_NIL ys) ys" "\<forall>y \<in> set ys. y < length (tasks s)"
  shows "wait_scan p (last_or_NIL xs) (hd_or_NIL ys) s =
    Some (last_or_NIL (xs @ takeWhile (\<lambda>j. prio_of s j \<le> p) ys),
          hd_or_NIL (dropWhile (\<lambda>j. prio_of s j \<le> p) ys))"
  using assms
proof (induction ys arbitrary: xs)
  case Nil
  then show ?case by (simp add: wait_scan.simps)
next
  case (Cons y ys)
  then have y: "y \<noteq> NIL" "y < length (tasks s)" "chain (links s) (links s y) ys" by auto
  then have nx: "t_next (tasks s ! y) = hd_or_NIL ys"
    using chain_head [OF y(3)] by (simp add: links_def hd_or_NIL_def)
  show ?case
  proof (cases "prio_of s y \<le> p")
    case True
    have "wait_scan p (last_or_NIL xs) y s = wait_scan p (last_or_NIL (xs @ [y])) (hd_or_NIL ys) s"
      using y True nx by (subst wait_scan.simps) simp
    with Cons.IH [of "xs @ [y]"] Cons.prems y(3) nx True show ?thesis
      by (simp add: links_def)
  next
    case False
    with y show ?thesis by (subst wait_scan.simps) simp
  qed
qed

lemma chain_insert:
  assumes "chain nx h (xs @ ys)" "i \<notin> set (xs @ ys)" "i \<noteq> NIL"
  shows "chain (if xs = [] then nx(i := hd_or_NIL ys) else (nx(i := hd_or_NIL ys))(last xs := i))
    (if xs = [] then i else h) (xs @ i # ys)"
  using assms
proof (induction xs arbitrary: h)
  case Nil
  then have "h = hd_or_NIL ys" using chain_head [of nx h ys] by (simp add: hd_or_NIL_def)
  moreover from Nil have "chain (nx(i := hd_or_NIL ys)) h ys" by (simp add: chain_update_outside)
  ultimately show ?case using Nil by (simp add: fun_upd_def)
next
  case (Cons x xs)
  then have ih: "chain (if xs = [] then nx(i := hd_or_NIL ys) else (nx(i := hd_or_NIL ys))(last xs := i))
      (if xs = [] then i else nx x) (xs @ i # ys)" and x: "h = x" "x \<noteq> NIL" by auto
  have d: "distinct (x # xs @ ys)" "x \<noteq> i" using chain_distinct [OF Cons.prems(1)] Cons.prems by auto
  show ?case
  proof (cases "xs = []")
    case True
    have "chain ((nx(i := hd_or_NIL ys))(x := i)) (hd_or_NIL ys) ys
        = chain (nx(i := hd_or_NIL ys)) (hd_or_NIL ys) ys"
      using d True by (intro chain_update_outside) simp
    with ih True x d Cons.prems show ?thesis by (simp add: fun_upd_def)
  next
    case False
    with ih x d last_in_set [OF False] show ?thesis by (auto simp: fun_upd_def)
  qed
qed

lemma wait_insert_spec:
  assumes ok: "length (tasks s) = TASK_SLOT_COUNT" and rep: "wait_rep s e q"
    and i: "i < TASK_SLOT_COUNT" and fresh: "i \<notin> set q"
  shows "\<exists>e' s'. wait_insert i e s = Some (e', s') \<and> wait_rep s' e' (insert_prio (prio_of s) i q)
    \<and> rewired (insert i (set q)) s s'"
proof -
  let ?P = "\<lambda>j. prio_of s j \<le> prio_of s i"
  let ?xs = "takeWhile ?P q" and ?ys = "dropWhile ?P q"
  have split: "?xs @ ?ys = q" by simp
  have ch: "chain (links s) (fst e) (?xs @ ?ys)" using rep by (simp add: wait_rep_def)
  note sel = wait_rep_sel [OF rep]
  have scan: "wait_scan (prio_of s i) NIL (fst e) s = Some (last_or_NIL ?xs, hd_or_NIL ?ys)"
    using wait_scan_run [of s q "prio_of s i" "[]"] rep sel(1,4) ok by (simp add: wait_rep_def)
  have mem: "set ?xs \<subseteq> set q" "set ?ys \<subseteq> set q" by (auto dest: set_takeWhileD set_dropWhileD)
  have l: "last ?xs < TASK_SLOT_COUNT" "last ?xs \<noteq> i" "last_or_NIL ?xs \<noteq> NIL" "last ?xs \<in> set q" if "?xs \<noteq> []"
  proof -
    have "last ?xs \<in> set q" using last_in_set [OF that] mem by auto
    then show "last ?xs < TASK_SLOT_COUNT" "last ?xs \<noteq> i" "last_or_NIL ?xs \<noteq> NIL" "last ?xs \<in> set q"
      using sel(4) fresh that slot_not_NIL by auto
  qed
  have y: "hd_or_NIL ?ys = NIL \<longleftrightarrow> ?ys = []"
    unfolding hd_or_NIL_def by (metis hd_in_set mem(2) sel(4) slot_not_NIL subsetD)
  let ?s0 = "mod_task i (\<lambda>t. t\<lparr>t_next := hd_or_NIL ?ys\<rparr>) s"
  let ?s1 = "if ?xs = [] then ?s0 else mod_task (last ?xs) (\<lambda>t. t\<lparr>t_next := i\<rparr>) ?s0"
  let ?e = "(if ?xs = [] then i else fst e, if ?ys = [] then i else snd e)"
  have run: "wait_insert i e s = Some (?e, ?s1)"
    using i ok scan l y by (cases e) (auto simp: wait_insert_def)
  have lk: "links ?s1 = (if ?xs = [] then (links s)(i := hd_or_NIL ?ys)
      else ((links s)(i := hd_or_NIL ?ys))(last ?xs := i))"
    using i l ok by (simp add: links_mod_task)
  have "chain (links ?s1) (fst ?e) (?xs @ i # ?ys)"
    using chain_insert [OF ch _ slot_not_NIL [OF i]] fresh split unfolding lk by simp
  moreover have "snd ?e = last_or_NIL (?xs @ i # ?ys)"
  proof (cases "?ys = []")
    case True
    then show ?thesis by (simp add: last_or_NIL_def)
  next
    case False
    then have "last q = last ?ys" using split by (metis last_appendR)
    moreover have "q \<noteq> []" using False by auto
    ultimately show ?thesis using False sel(2) by (simp add: last_or_NIL_def del: dropWhile_eq_Nil_conv)
  qed
  ultimately have "wait_rep ?s1 ?e (insert_prio (prio_of s) i q)"
    using sel(4) i mem by (auto simp: wait_rep_def insert_prio_def)
  moreover have "rewired (insert i (set q)) s ?s1"
    using rewired_trans [OF rewired_mod_task [of i "insert i (set q)"] rewired_mod_task [of "last ?xs" "insert i (set q)"]] l
    by (auto simp: rewired_mod_task)
  ultimately show ?thesis using run by blast
qed

lemma wait_unlink_loop_run:
  assumes "\<forall>x \<in> set (xs @ ys). x < length (tasks s)" "chain (links s) (fst e) (xs @ ys)" "task \<notin> set xs"
    and "length ys \<le> n"
  shows "wait_unlink_loop n task (last_or_NIL xs) (hd_or_NIL ys) e s =
    (if task \<notin> set ys then Some (e, s)
     else let zs = xs @ takeWhile (\<lambda>x. x \<noteq> task) ys;
              s1 = (if zs = [] then s else mod_task (last zs) (\<lambda>t. t\<lparr>t_next := links s task\<rparr>) s)
          in Some ((if zs = [] then links s task else fst e, if snd e = task then last_or_NIL zs else snd e),
                   mod_task task (\<lambda>t. t\<lparr>t_next := NIL\<rparr>) s1))"
  using assms
proof (induction ys arbitrary: xs n)
  case Nil
  then show ?case by (cases n) (auto simp: wait_rep_def)
next
  case (Cons y ys)
  have y: "y \<noteq> NIL" "y < length (tasks s)"
    using Cons.prems chain_not_NIL by fastforce+
  from Cons.prems(4) obtain m where n: "n = Suc m" "length ys \<le> m" by (cases n) auto
  show ?case
  proof (cases "y = task")
    case True
    have "\<forall>x \<in> set xs. x < length (tasks s) \<and> x \<noteq> NIL"
      using Cons.prems chain_not_NIL by fastforce
    with True y Cons.prems n show ?thesis
      by (cases e) (auto simp: Let_def links_def last_or_NIL_def)
  next
    case False
    have "links s y = hd_or_NIL ys"
      using chain_successor [OF Cons.prems(2)] by (simp add: hd_or_NIL_def)
    then have nx: "t_next (tasks s ! y) = hd_or_NIL ys" by (simp add: links_def)
    with Cons.IH [of "xs @ [y]" m] Cons.prems False n y show ?thesis by (simp add: Let_def)
  qed
qed

lemma wait_unlink_spec:
  assumes ok: "length (tasks s) = TASK_SLOT_COUNT" and rep: "wait_rep s e q"
  shows "\<exists>e' s'. wait_unlink task e s = Some (e', s') \<and> wait_rep s' e' (remove1 task q)
    \<and> rewired (set q) s s' \<and> (task \<notin> set q \<longrightarrow> e' = e \<and> s' = s)"
proof -
  note sel = wait_rep_sel [OF rep]
  have len: "length q \<le> TASK_SLOT_COUNT" using distinct_slots_length sel(3,4) by blast
  have slots: "\<forall>x \<in> set ([] @ q). x < length (tasks s)" using sel(4) ok by simp
  have ch: "chain (links s) (fst e) ([] @ q)" using rep by (simp add: wait_rep_def)
  note loop = wait_unlink_loop_run [OF slots ch _ len, of task]
  show ?thesis
  proof (cases "task \<in> set q")
    case False
    have "wait_unlink task e s = Some (e, s)"
      using loop False sel(1) by (simp add: wait_unlink_def)
    with False rep show ?thesis by (simp add: remove1_idem)
  next
    case True
    then obtain zs ws where q: "q = zs @ task # ws" "task \<notin> set zs" using split_list_first by fastforce
    have d: "distinct (zs @ task # ws)" using sel(3) q by simp
    have slot: "task < TASK_SLOT_COUNT" "zs \<noteq> [] \<Longrightarrow> last zs < TASK_SLOT_COUNT"
      "zs \<noteq> [] \<Longrightarrow> last zs \<noteq> task" using sel(4) q by auto
    let ?s1 = "if zs = [] then s else mod_task (last zs) (\<lambda>t. t\<lparr>t_next := links s task\<rparr>) s"
    let ?s = "mod_task task (\<lambda>t. t\<lparr>t_next := NIL\<rparr>) ?s1"
    let ?e = "(if zs = [] then links s task else fst e, if snd e = task then last_or_NIL zs else snd e)"
    have run: "wait_unlink task e s = Some (?e, ?s)"
      using loop q sel(1) takeWhile_split [OF q(2), of ws] by (simp add: wait_unlink_def Let_def)
    have lk: "links ?s = (if zs = [] then (links s)(task := NIL)
        else ((links s)(last zs := links s task))(task := NIL))"
      using ok slot by (simp add: links_mod_task)
    have c: "chain (links s) (fst e) (zs @ task # ws)" using rep q by (simp add: wait_rep_def)
    have "chain (links ?s) (fst ?e) (zs @ ws)"
    proof (cases zs rule: rev_cases)
      case Nil
      have "chain ((links s)(task := NIL)) (links s task) ws"
        using c Nil d chain_update_outside [of task ws "links s"] by simp
      then show ?thesis unfolding lk using Nil by simp
    next
      case (snoc us y)
      with chain_unlink [of "links s" "fst e" us y task ws] c show ?thesis unfolding lk by simp
    qed
    moreover have "snd ?e = last_or_NIL (zs @ ws)"
      using sel(2) q d last_in_set [of ws] by (auto simp: last_or_NIL_def)
    ultimately have "wait_rep ?s ?e (remove1 task q)"
      using q sel(4) remove1_split [OF q(2), of ws] by (auto simp: wait_rep_def)
    moreover have "rewired (set q) s ?s1" using q by (simp add: rewired_mod_task)
    from rewired_trans [OF this rewired_mod_task [of task "set q"]] True have "rewired (set q) s ?s" by simp
    ultimately show ?thesis using run True by blast
  qed
qed

subsection \<open>The interface of a wait queue\<close>

fun enqueue_all ::
  "('w \<Rightarrow> nat \<Rightarrow> sched \<Rightarrow> ('w \<times> sched) option) \<Rightarrow> nat list \<Rightarrow> 'w \<Rightarrow> sched \<Rightarrow> ('w \<times> sched) option" where
  "enqueue_all enq [] w s = Some (w, s)"
| "enqueue_all enq (i # xs) w s = do { (w, s) \<leftarrow> enq w i s; enqueue_all enq xs w s }"

text \<open>
  An object with a wait queue: \<open>ends\<close> are its head and tail, \<open>payload\<close> is the rest of it. Queue
  operations touch only the links of the queue's own slots and keep the payload.
\<close>

locale wait_queue =
  fixes ends :: "'w \<Rightarrow> nat \<times> nat"
    and payload :: "'w \<Rightarrow> 'p"
    and enqueue :: "'w \<Rightarrow> nat \<Rightarrow> sched \<Rightarrow> ('w \<times> sched) option"
    and remove :: "'w \<Rightarrow> nat \<Rightarrow> sched \<Rightarrow> ('w \<times> sched) option"
  assumes enqueue_law: "length (tasks s) = TASK_SLOT_COUNT \<Longrightarrow> wait_rep s (ends w) q \<Longrightarrow>
      i < TASK_SLOT_COUNT \<Longrightarrow> i \<notin> set q \<Longrightarrow>
      \<exists>w' s'. enqueue w i s = Some (w', s') \<and> wait_rep s' (ends w') (insert_prio (prio_of s) i q)
        \<and> rewired (insert i (set q)) s s' \<and> payload w' = payload w"
    and remove_law: "length (tasks s) = TASK_SLOT_COUNT \<Longrightarrow> wait_rep s (ends w) q \<Longrightarrow>
      \<exists>w' s'. remove w i s = Some (w', s') \<and> wait_rep s' (ends w') (remove1 i q)
        \<and> rewired (set q) s s' \<and> payload w' = payload w"
begin

lemma enqueue_all_rep:
  assumes "length (tasks s) = TASK_SLOT_COUNT" "wait_rep s (ends w) q" "distinct xs"
    "\<forall>i \<in> set xs. i < TASK_SLOT_COUNT \<and> i \<notin> set q"
  shows "\<exists>w' s'. enqueue_all enqueue xs w s = Some (w', s')
    \<and> wait_rep s' (ends w') (foldl (\<lambda>q i. insert_prio (prio_of s) i q) q xs)
    \<and> rewired (set xs \<union> set q) s s' \<and> payload w' = payload w"
  using assms
proof (induction xs arbitrary: w s q)
  case Nil
  then show ?case by simp
next
  case (Cons x xs)
  then have x: "x < TASK_SLOT_COUNT" "x \<notin> set q" by auto
  from enqueue_law [OF Cons.prems(1,2) x] obtain w1 s1 where
    1: "enqueue w x s = Some (w1, s1)" "wait_rep s1 (ends w1) (insert_prio (prio_of s) x q)"
      "rewired (insert x (set q)) s s1" "payload w1 = payload w" by blast
  let ?q = "insert_prio (prio_of s) x q"
  note re = rewired_relinked [OF 1(3)]
  have len: "length (tasks s1) = TASK_SLOT_COUNT" using relinked_sel(1) [OF re] Cons.prems(1) by simp
  have "\<forall>i \<in> set xs. i < TASK_SLOT_COUNT \<and> i \<notin> set ?q" "distinct xs" using Cons.prems(3,4) by auto
  from Cons.IH [OF len 1(2) this(2,1)] obtain w' s' where
    2: "enqueue_all enqueue xs w1 s1 = Some (w', s')"
      "wait_rep s' (ends w') (foldl (\<lambda>q i. insert_prio (prio_of s1) i q) ?q xs)"
      "rewired (set xs \<union> set ?q) s1 s'" "payload w' = payload w1" by blast
  have same: "prio_of s1 i = prio_of s i" if "i < TASK_SLOT_COUNT" for i
    using relinked_fields(13) [OF re] Cons.prems(1) that by simp
  have "foldl (\<lambda>q i. insert_prio (prio_of s1) i q) r ys = foldl (\<lambda>q i. insert_prio (prio_of s) i q) r ys"
    if "\<forall>i \<in> set ys \<union> set r. i < TASK_SLOT_COUNT" for ys r
    using that
  proof (induction ys arbitrary: r)
    case Nil
    then show ?case by simp
  next
    case (Cons y ys)
    have "insert_prio (prio_of s1) y r = insert_prio (prio_of s) y r"
      using Cons.prems same by (intro insert_prio_cong) auto
    with Cons show ?case by auto
  qed
  from this [of xs ?q] have "foldl (\<lambda>q i. insert_prio (prio_of s1) i q) ?q xs
      = foldl (\<lambda>q i. insert_prio (prio_of s) i q) ?q xs"
    using Cons.prems(4) x(1) wait_rep_sel(4) [OF Cons.prems(2)] by auto
  moreover have "rewired (set (x # xs) \<union> set q) s s'"
    by (rule rewired_mono [OF rewired_trans [OF 1(3) 2(3)]]) auto
  ultimately show ?case using 1 2 by (intro exI [of _ w'] exI [of _ s']) simp
qed

lemma served_in_order:
  assumes "length (tasks s) = TASK_SLOT_COUNT" "ends w = (NIL, NIL)" "distinct xs"
    "\<forall>i \<in> set xs. i < TASK_SLOT_COUNT"
  shows "\<exists>w' s'. enqueue_all enqueue xs w s = Some (w', s')
    \<and> wait_rep s' (ends w') (sort_key (prio_of s) xs) \<and> payload w' = payload w"
  using enqueue_all_rep [OF assms(1) _ assms(3), of w "[]"] assms(2,4)
  by (auto simp: insert_all_sort_key)

text \<open>Leaving the queue keeps the order of the others; so does coming back with a new priority.\<close>

lemma remove_keeps_order:
  assumes "length (tasks s) = TASK_SLOT_COUNT" "wait_rep s (ends w) q" "sorted (map (prio_of s) q)"
  shows "\<exists>w' s'. remove w i s = Some (w', s') \<and> wait_rep s' (ends w') (filter (\<lambda>j. j \<noteq> i) q)
    \<and> sorted (map (prio_of s') (filter (\<lambda>j. j \<noteq> i) q)) \<and> payload w' = payload w"
proof -
  from remove_law [OF assms(1,2), of i] obtain w' s' where
    1: "remove w i s = Some (w', s')" "wait_rep s' (ends w') (remove1 i q)" "rewired (set q) s s'"
      "payload w' = payload w" by blast
  have eq: "remove1 i q = filter (\<lambda>j. j \<noteq> i) q"
    using wait_rep_sel(3) [OF assms(2)] by (simp add: distinct_remove1_removeAll removeAll_filter_not_eq eq_commute)
  have "map (prio_of s') (filter (\<lambda>j. j \<noteq> i) q) = map (prio_of s) (filter (\<lambda>j. j \<noteq> i) q)"
    using relinked_fields(13) [OF rewired_relinked [OF 1(3)]] wait_rep_sel(4) [OF assms(2)] assms(1) by auto
  then have "sorted (map (prio_of s') (filter (\<lambda>j. j \<noteq> i) q))"
    using sorted_filter [OF assms(3), of "\<lambda>j. j \<noteq> i"] by (simp only:)
  with 1 show ?thesis by (simp add: eq)
qed

end

interpretation sem_queue: wait_queue sem_ends sm_count enqueue_waiter remove_waiter
proof (unfold_locales, goal_cases)
  case (1 s w q i)
  from wait_insert_spec [OF 1] show ?case
    by (auto simp: enqueue_waiter_def sem_ends_def sem_with_ends_def)
next
  case (2 s w q i)
  from wait_unlink_spec [OF 2, of i] show ?case
    by (auto simp: remove_waiter_def sem_ends_def sem_with_ends_def)
qed

interpretation mutex_queue: wait_queue mutex_ends "\<lambda>m. (mx_owner m, mx_depth m)"
  enqueue_mutex_waiter remove_mutex_waiter
proof (unfold_locales, goal_cases)
  case (1 s w q i)
  from wait_insert_spec [OF 1] show ?case
    by (auto simp: enqueue_mutex_waiter_def mutex_ends_def mutex_with_ends_def)
next
  case (2 s w q i)
  from wait_unlink_spec [OF 2, of i] show ?case
    by (auto simp: remove_mutex_waiter_def mutex_ends_def mutex_with_ends_def)
qed

lemma pop_mutex_waiter_spec:
  assumes "length (tasks s) = TASK_SLOT_COUNT" "wait_rep s (mutex_ends m) q"
  shows "\<exists>m' s'. pop_mutex_waiter m s = Some (hd_or_NIL q, m', s') \<and> wait_rep s' (mutex_ends m') (tl q)
    \<and> rewired (set q) s s' \<and> mx_owner m' = mx_owner m \<and> mx_depth m' = mx_depth m
    \<and> (q = [] \<longrightarrow> m' = m \<and> s' = s)"
proof (cases q)
  case Nil
  with assms show ?thesis by (auto simp: pop_mutex_waiter_def wait_rep_def mutex_ends_def)
next
  case (Cons x xs)
  note sel = wait_rep_sel [OF assms(2)]
  have x: "mx_wait_head m = x" "x < TASK_SLOT_COUNT" "x \<noteq> NIL" "x \<notin> set xs" "chain (links s) (links s x) xs"
    using assms(2) Cons sel(3) by (auto simp: wait_rep_def mutex_ends_def)
  let ?s = "mod_task x (\<lambda>t. t\<lparr>t_next := NIL\<rparr>) s"
  let ?m = "if links s x = NIL then m\<lparr>mx_wait_head := links s x, mx_wait_tail := NIL\<rparr>
    else m\<lparr>mx_wait_head := links s x\<rparr>"
  have run: "pop_mutex_waiter m s = Some (x, ?m, ?s)"
    using x assms(1) by (simp add: pop_mutex_waiter_def links_def)
  have nil: "links s x = NIL \<longleftrightarrow> xs = []"
    using chain_head [OF x(5)] chain_not_NIL [OF x(5)] by (cases xs) auto
  have "chain (links ?s) (links s x) xs"
    using x assms(1) by (simp add: links_mod_task chain_update_outside)
  then have "wait_rep ?s (mutex_ends ?m) xs"
    using assms(2) Cons nil by (auto simp: wait_rep_def mutex_ends_def)
  then show ?thesis using run Cons rewired_mod_task [of x "set q" s NIL] by auto
qed

subsection \<open>Properties\<close>

text \<open>
  Waiters of a semaphore and of a mutex are queued highest priority first and in arrival order
  within a priority: blocking tasks one after the other on an empty queue produces the stable sort
  of the arrival sequence by priority, without touching the count, the owner or the depth.
\<close>

theorem waiters_queued_priority_fifo:
  assumes "length (tasks s) = TASK_SLOT_COUNT" "distinct xs" "\<forall>i \<in> set xs. i < TASK_SLOT_COUNT"
  shows "(\<exists>st s'. enqueue_all enqueue_waiter xs (semaphore_new n) s = Some (st, s')
      \<and> wait_rep s' (sem_ends st) (sort_key (prio_of s) xs) \<and> sm_count st = n)
    \<and> (\<exists>m s'. enqueue_all enqueue_mutex_waiter xs mutex_new s = Some (m, s')
      \<and> wait_rep s' (mutex_ends m) (sort_key (prio_of s) xs) \<and> mx_owner m = NIL \<and> mx_depth m = 0)"
  using sem_queue.served_in_order [OF assms(1) _ assms(2,3), of "semaphore_new n"]
    mutex_queue.served_in_order [OF assms(1) _ assms(2,3), of mutex_new]
  by (simp add: semaphore_new_def sem_ends_def mutex_new_def mutex_ends_def)

theorem waiters_queued_priority_fifo_witness:
  "\<exists>st s'. enqueue_all enqueue_waiter [5, 3, 4] (semaphore_new 0)
        (mod_task 4 (\<lambda>t. t\<lparr>t_priority := 2\<rparr>) (sched_new 8)) = Some (st, s')
      \<and> wait_rep s' (sem_ends st) [4, 5, 3] \<and> sm_count st = 0"
proof -
  let ?s = "mod_task 4 (\<lambda>t. t\<lparr>t_priority := 2\<rparr>) (sched_new 8)"
  have len: "length (tasks (sched_new 8)) = 17" by (simp add: sched_new_def TASK_SLOT_COUNT_eq)
  have "tasks ?s ! 4 = tcb_empty\<lparr>t_priority := 2\<rparr>" "tasks ?s ! 5 = tcb_empty" "tasks ?s ! 3 = tcb_empty"
    by (simp_all add: len) (simp_all add: sched_new_def TASK_SLOT_COUNT_eq)
  then have sorted: "sort_key (prio_of ?s) [5, 3, 4] = [4, 5, 3]"
    by (simp add: tcb_empty_def PRIORITY_LEVELS_def)
  have "length (tasks ?s) = TASK_SLOT_COUNT" "distinct [5, 3, 4 :: nat]"
    "\<forall>i \<in> set [5, 3, 4]. i < TASK_SLOT_COUNT" by (simp_all add: TASK_SLOT_COUNT_eq len)
  from waiters_queued_priority_fifo [OF this, of 0] show ?thesis unfolding sorted by simp
qed

end
