(* ===== verification/Inheritance.thy ===== *)
theory Inheritance
  imports Wait_Queues
begin

text \<open>
  Effective priorities and priority inheritance (\<open>Sched::set_effective_priority\<close> to
  \<open>Sched::remove_inheritance\<close> of \<open>runtime/scheduler.rs\<close>). Every task that waits for a mutex donates
  its effective priority to the owner; the owner keeps one counter per priority and its effective
  priority is the best of its base priority and the donations. A change travels along the chain of
  owners; the depth of that recursion is bounded by the assertion of the source, which makes the
  two mutually recursive functions terminate on every state.
\<close>

subsection \<open>Access to a semaphore or mutex through its address\<close>

definition on_sem :: "nat \<Rightarrow> (sem_state \<Rightarrow> sched \<Rightarrow> (sem_state \<times> sched) option) \<Rightarrow> sched \<Rightarrow> sched option" where
  "on_sem a f s = do {
     st \<leftarrow> sem_mem s a;
     (st, s) \<leftarrow> f st s;
     Some (s\<lparr>sem_mem := (sem_mem s)(a \<mapsto> st)\<rparr>)
   }"

definition on_mutex :: "nat \<Rightarrow> (mutex_state \<Rightarrow> sched \<Rightarrow> (mutex_state \<times> sched) option) \<Rightarrow> sched \<Rightarrow> sched option" where
  "on_mutex a f s = do {
     st \<leftarrow> mutex_mem s a;
     (st, s) \<leftarrow> f st s;
     Some (s\<lparr>mutex_mem := (mutex_mem s)(a \<mapsto> st)\<rparr>)
   }"

definition pending_target :: "sched \<Rightarrow> nat option" where
  "pending_target s = map_option (\<lambda>p. ref_slot (ps_target p)) (pending_switch s)"

subsection \<open>Effective priority\<close>

definition set_effective_priority :: "nat \<Rightarrow> nat \<Rightarrow> sched \<Rightarrow> sched option" where
  "set_effective_priority task priority s = do {
     t \<leftarrow> task_at task s;
     (if t_priority t = priority then Some s
      else do {
        ready_queued \<leftarrow> (if t_state t = Ready then ready_contains task s else Some False);
        let s = (if t_state t = Ready \<and> \<not> ready_queued \<and> pending_target s = Some task
                 then diag (\<lambda>d. d\<lparr>d_detached_pending_priority_mutations :=
                                   bump32 (d_detached_pending_priority_mutations d)\<rparr>) s
                 else s);
        let waiting_sem = t_waiting_sem t;
        s \<leftarrow> (if ready_queued then ready_remove task s else Some s);
        s \<leftarrow> (if waiting_sem \<noteq> 0 then on_sem waiting_sem (\<lambda>st s. remove_waiter st task s) s else Some s);
        s \<leftarrow> upd_task task (\<lambda>t. t\<lparr>t_priority := priority\<rparr>) s;
        s \<leftarrow> (if ready_queued then ready_push task s else Some s);
        (if waiting_sem \<noteq> 0 then on_sem waiting_sem (\<lambda>st s. enqueue_waiter st task s) s else Some s)
      })
   }"

text \<open>The best donated priority, or the base priority when nobody donates.\<close>

definition inherited_priority :: "tcb \<Rightarrow> nat" where
  "inherited_priority t =
     (case position (\<lambda>count. count \<noteq> 0) (t_inherited_waiters t) of
        Some priority \<Rightarrow> priority
      | None \<Rightarrow> t_base_priority t)"

definition wanted_priority :: "tcb \<Rightarrow> nat" where
  "wanted_priority t = min (t_base_priority t) (inherited_priority t)"

definition replace_donation :: "nat \<Rightarrow> nat \<Rightarrow> nat list \<Rightarrow> nat list option" where
  "replace_donation old new counts = do {
     old_count \<leftarrow> arr_at counts old;
     old_count \<leftarrow> chk_sub old_count 1;
     let counts = counts[old := old_count];
     new_count \<leftarrow> arr_at counts new;
     new_count \<leftarrow> chk_add U8_MAX new_count 1;
     Some (counts[new := new_count])
   }"

function (sequential)
  refresh_inherited_priority :: "nat \<Rightarrow> nat \<Rightarrow> sched \<Rightarrow> sched option"
  and replace_inheritance :: "nat \<Rightarrow> nat \<Rightarrow> nat \<Rightarrow> nat \<Rightarrow> sched \<Rightarrow> sched option"
where
  "refresh_inherited_priority task depth s =
     (if depth < TASK_SLOT_COUNT then do {
        t \<leftarrow> task_at task s;
        let old = t_priority t;
        let new = wanted_priority t;
        (if old = new then Some s
         else do {
           s \<leftarrow> set_effective_priority task new s;
           t \<leftarrow> task_at task s;
           let waiting_mutex = t_waiting_mutex t;
           (if waiting_mutex \<noteq> 0 then do {
              s \<leftarrow> on_mutex waiting_mutex (\<lambda>st s. do {
                     (st, s) \<leftarrow> remove_mutex_waiter st task s;
                     enqueue_mutex_waiter st task s
                   }) s;
              st \<leftarrow> mutex_mem s waiting_mutex;
              (if mx_owner st \<noteq> NIL then replace_inheritance (mx_owner st) old new (depth + 1) s
               else Some s)
            } else Some s)
         })
      } else None)"
| "replace_inheritance owner old new depth s =
     (if old = new then Some s
      else do {
        t \<leftarrow> task_at owner s;
        counts \<leftarrow> replace_donation old new (t_inherited_waiters t);
        s \<leftarrow> upd_task owner (\<lambda>t. t\<lparr>t_inherited_waiters := counts\<rparr>) s;
        refresh_inherited_priority owner depth s
      })"
  by pat_completeness auto

termination
  by (relation "measure (\<lambda>x. case x of
        Inl (task, depth, s) \<Rightarrow> 2 * (TASK_SLOT_COUNT - depth)
      | Inr (owner, old, new, depth, s) \<Rightarrow> 2 * (TASK_SLOT_COUNT - depth) + 1)") auto

declare refresh_inherited_priority.simps [simp del] replace_inheritance.simps [simp del]

definition add_inheritance :: "nat \<Rightarrow> nat \<Rightarrow> sched \<Rightarrow> sched option" where
  "add_inheritance owner priority s = do {
     t \<leftarrow> task_at owner s;
     count \<leftarrow> arr_at (t_inherited_waiters t) priority;
     count \<leftarrow> chk_add U8_MAX count 1;
     s \<leftarrow> upd_task owner (\<lambda>t. t\<lparr>t_inherited_waiters := (t_inherited_waiters t)[priority := count]\<rparr>) s;
     let s = diag (\<lambda>d. d\<lparr>d_priority_inheritances := bump32 (d_priority_inheritances d)\<rparr>) s;
     refresh_inherited_priority owner 0 s
   }"

definition remove_inheritance :: "nat \<Rightarrow> nat \<Rightarrow> sched \<Rightarrow> sched option" where
  "remove_inheritance owner priority s = do {
     t \<leftarrow> task_at owner s;
     count \<leftarrow> arr_at (t_inherited_waiters t) priority;
     count \<leftarrow> chk_sub count 1;
     s \<leftarrow> upd_task owner (\<lambda>t. t\<lparr>t_inherited_waiters := (t_inherited_waiters t)[priority := count]\<rparr>) s;
     refresh_inherited_priority owner 0 s
   }"

subsection \<open>Queue operations change nothing but links\<close>

text \<open>
  These frame facts hold on every state on which the operation returns, well formed or not.
\<close>

lemma relinked_step: "relinked UNIV s s1 \<Longrightarrow> relinked UNIV s1 s2 \<Longrightarrow> relinked UNIV s s2"
  using relinked_trans [of UNIV s s1 UNIV s2] by simp

lemma upd_task_relinks: "upd_task i (\<lambda>t. t\<lparr>t_next := n\<rparr>) s = Some s' \<Longrightarrow> relinked UNIV s s'"
  by (auto simp: upd_task_def relinked_mod_task split: if_splits)

lemma set_ready_head_relinks: "set_ready_head p v s = Some s' \<Longrightarrow> relinked UNIV s s'"
  by (auto simp: set_ready_head_def relinked_mod_head split: if_splits)

lemma set_ready_tail_relinks: "set_ready_tail p v s = Some s' \<Longrightarrow> relinked UNIV s s'"
  by (auto simp: set_ready_tail_def relinked_mod_tail split: if_splits)

lemmas relinks = upd_task_relinks set_ready_head_relinks set_ready_tail_relinks

lemma ready_push_relinks: "ready_push i s = Some s' \<Longrightarrow> relinked UNIV s s'"
  by (auto simp: ready_push_def bind_eq_Some split: if_splits elim!: relinked_step dest!: relinks)

lemma ready_remove_loop_relinks:
  assumes "ready_remove_loop p task prev cur s = Some s'"
  shows "relinked UNIV s s'"
proof (rule ready_remove_loop.raw_induct [of "\<lambda>p task prev cur s s'. relinked UNIV s s'", OF _ assms])
  fix loop p task prev cur s s'
  assume ih: "\<And>p task prev cur s s'. loop p task prev cur s = Some s' \<Longrightarrow> relinked UNIV s s'"
    and run: "(if cur = NIL then Some s
      else if cur = task then do {
        t \<leftarrow> task_at cur s;
        let nxt = t_next t;
        s \<leftarrow> (if prev = NIL then set_ready_head p nxt s
              else upd_task prev (\<lambda>t. t\<lparr>t_next := nxt\<rparr>) s);
        tail \<leftarrow> arr_at (ready_tail s) p;
        s \<leftarrow> (if tail = cur then set_ready_tail p prev s else Some s);
        upd_task cur (\<lambda>t. t\<lparr>t_next := NIL\<rparr>) s
      } else do {
        t \<leftarrow> task_at cur s;
        loop p task cur (t_next t) s
      }) = Some s'"
  from run show "relinked UNIV s s'"
    by (auto simp: bind_eq_Some Let_def split: if_splits elim!: relinked_step dest!: relinks dest: ih)
qed

lemma ready_remove_relinks: "ready_remove task s = Some s' \<Longrightarrow> relinked UNIV s s'"
  by (auto simp: ready_remove_def bind_eq_Some dest: ready_remove_loop_relinks)

lemma wait_insert_relinks: "wait_insert i e s = Some (e', s') \<Longrightarrow> relinked UNIV s s'"
  by (auto simp: wait_insert_def bind_eq_Some split: if_splits prod.splits elim!: relinked_step dest!: relinks)

lemma wait_unlink_relinks:
  "wait_unlink_loop n task prev cur e s = Some (e', s') \<Longrightarrow> relinked UNIV s s'"
  by (induction n task prev cur e s rule: wait_unlink_loop.induct)
    (auto simp: bind_eq_Some Let_def split: if_splits prod.splits elim!: relinked_step dest!: relinks)

lemma waiter_relinks:
  "enqueue_waiter st task s = Some (st', s') \<Longrightarrow> relinked UNIV s s'"
  "remove_waiter st task s = Some (st', s') \<Longrightarrow> relinked UNIV s s'"
  "enqueue_mutex_waiter m task s = Some (m', s') \<Longrightarrow> relinked UNIV s s'"
  "remove_mutex_waiter m task s = Some (m', s') \<Longrightarrow> relinked UNIV s s'"
  by (auto simp: enqueue_waiter_def remove_waiter_def enqueue_mutex_waiter_def remove_mutex_waiter_def
      wait_unlink_def bind_eq_Some dest: wait_insert_relinks wait_unlink_relinks)

subsection \<open>Effective priorities follow the donations\<close>

text \<open>What set-effective-priority and the propagation leave alone.\<close>

definition prio_frame :: "nat \<Rightarrow> sched \<Rightarrow> sched \<Rightarrow> bool" where
  "prio_frame i s s' \<longleftrightarrow> t_base_priority (tasks s' ! i) = t_base_priority (tasks s ! i)
     \<and> t_inherited_waiters (tasks s' ! i) = t_inherited_waiters (tasks s ! i)
     \<and> t_waiting_mutex (tasks s' ! i) = t_waiting_mutex (tasks s ! i)
     \<and> t_state (tasks s' ! i) = t_state (tasks s ! i)"

lemma relinked_prio_frame: "relinked X s s' \<Longrightarrow> i < length (tasks s) \<Longrightarrow> prio_frame i s s'"
  by (simp add: prio_frame_def relinked_fields)

lemma prio_frame_trans: "prio_frame i s s1 \<Longrightarrow> prio_frame i s1 s2 \<Longrightarrow> prio_frame i s s2"
  by (simp add: prio_frame_def)

definition keeps_prio :: "sched \<Rightarrow> sched \<Rightarrow> bool" where
  "keeps_prio s s' \<longleftrightarrow> length (tasks s') = length (tasks s) \<and> (\<forall>i < length (tasks s).
     prio_frame i s s' \<and> t_priority (tasks s' ! i) = t_priority (tasks s ! i))"

lemma relinked_keeps_prio: "relinked X s s' \<Longrightarrow> keeps_prio s s'"
  by (simp add: keeps_prio_def relinked_prio_frame relinked_fields relinked_sel)

lemma keeps_prio_refl [simp]: "keeps_prio s s"
  by (simp add: keeps_prio_def prio_frame_def)

lemma keeps_prio_trans: "keeps_prio s s1 \<Longrightarrow> keeps_prio s1 s2 \<Longrightarrow> keeps_prio s s2"
  by (auto simp: keeps_prio_def intro: prio_frame_trans)

lemma keeps_prio_mem [simp]:
  "keeps_prio s (s'\<lparr>sem_mem := m\<rparr>) = keeps_prio s s'"
  "keeps_prio s (s'\<lparr>mutex_mem := m'\<rparr>) = keeps_prio s s'"
  by (simp_all add: keeps_prio_def prio_frame_def)

lemma on_sem_keeps_prio:
  assumes "on_sem a f s = Some s'" "\<And>st st' s1. f st s = Some (st', s1) \<Longrightarrow> relinked UNIV s s1"
  shows "keeps_prio s s'"
proof -
  from assms(1) obtain st st' s1 where "f st s = Some (st', s1)" "s' = s1\<lparr>sem_mem := (sem_mem s1)(a \<mapsto> st')\<rparr>"
    by (auto simp: on_sem_def bind_eq_Some)
  with relinked_keeps_prio [OF assms(2)] show ?thesis by simp
qed

lemma on_mutex_keeps_prio:
  assumes "on_mutex a f s = Some s'" "\<And>st st' s1. f st s = Some (st', s1) \<Longrightarrow> relinked UNIV s s1"
  shows "keeps_prio s s'"
proof -
  from assms(1) obtain st st' s1 where "f st s = Some (st', s1)" "s' = s1\<lparr>mutex_mem := (mutex_mem s1)(a \<mapsto> st')\<rparr>"
    by (auto simp: on_mutex_def bind_eq_Some)
  with relinked_keeps_prio [OF assms(2)] show ?thesis by simp
qed

lemma set_effective_priority_effect:
  assumes "set_effective_priority task p s = Some s'"
  shows "length (tasks s') = length (tasks s) \<and> task < length (tasks s) \<and> (\<forall>i < length (tasks s).
    prio_frame i s s' \<and> t_priority (tasks s' ! i) = (if i = task then p else t_priority (tasks s ! i)))"
proof (cases "task < length (tasks s) \<and> t_priority (tasks s ! task) \<noteq> p")
  case False
  with assms show ?thesis
    by (auto simp: set_effective_priority_def task_at_def prio_frame_def split: if_splits)
next
  case True
  let ?t = "tasks s ! task"
  let ?s0 = "\<lambda>rq. if t_state ?t = Ready \<and> \<not> rq \<and> pending_target s = Some task
    then diag (\<lambda>d. d\<lparr>d_detached_pending_priority_mutations :=
                       bump32 (d_detached_pending_priority_mutations d)\<rparr>) s
    else s"
  from assms True obtain rq s1 s2 sm s3 where
    1: "(if rq then ready_remove task (?s0 rq) else Some (?s0 rq)) = Some s1"
    and 2: "(if t_waiting_sem ?t \<noteq> 0
        then on_sem (t_waiting_sem ?t) (\<lambda>st s. remove_waiter st task s) s1 else Some s1) = Some s2"
    and m: "upd_task task (\<lambda>t. t\<lparr>t_priority := p\<rparr>) s2 = Some sm"
    and 3: "(if rq then ready_push task sm else Some sm) = Some s3"
    and 4: "(if t_waiting_sem ?t \<noteq> 0
        then on_sem (t_waiting_sem ?t) (\<lambda>st s. enqueue_waiter st task s) s3 else Some s3) = Some s'"
    unfolding set_effective_priority_def Let_def by (simp add: bind_eq_Some) blast
  from m have len: "task < length (tasks s2)" and sm: "sm = mod_task task (\<lambda>t. t\<lparr>t_priority := p\<rparr>) s2"
    by (auto simp: upd_task_def split: if_splits)
  have k0: "keeps_prio s (?s0 rq)" by (simp add: keeps_prio_def prio_frame_def)
  have k1: "keeps_prio (?s0 rq) s1"
    using 1 relinked_keeps_prio [OF ready_remove_relinks] by (cases rq) auto
  have k2: "keeps_prio s1 s2"
    using 2 on_sem_keeps_prio [OF _ waiter_relinks(2)] by (auto split: if_splits)
  have k3: "keeps_prio sm s3"
    using 3 relinked_keeps_prio [OF ready_push_relinks] by (cases rq) auto
  have k4: "keeps_prio s3 s'"
    using 4 on_sem_keeps_prio [OF _ waiter_relinks(1)] by (auto split: if_splits)
  note k = keeps_prio_trans [OF k0 keeps_prio_trans [OF k1 k2]] keeps_prio_trans [OF k3 k4]
  show ?thesis using k len True unfolding sm by (auto simp: keeps_prio_def prio_frame_def mod_task_at)
qed

definition settled :: "sched \<Rightarrow> nat \<Rightarrow> bool" where
  "settled s i \<longleftrightarrow> t_priority (tasks s ! i) = wanted_priority (tasks s ! i)"

definition settled_but :: "nat set \<Rightarrow> sched \<Rightarrow> bool" where
  "settled_but X s \<longleftrightarrow> (\<forall>i < length (tasks s). i \<notin> X \<longrightarrow> settled s i)"

text \<open>Propagation keeps base priorities, task states and what each task waits for.\<close>

definition same_roles :: "sched \<Rightarrow> sched \<Rightarrow> bool" where
  "same_roles s s' \<longleftrightarrow> length (tasks s') = length (tasks s) \<and> (\<forall>i < length (tasks s).
     t_base_priority (tasks s' ! i) = t_base_priority (tasks s ! i)
     \<and> t_state (tasks s' ! i) = t_state (tasks s ! i)
     \<and> t_waiting_mutex (tasks s' ! i) = t_waiting_mutex (tasks s ! i))"

lemma same_roles_refl [simp]: "same_roles s s"
  by (simp add: same_roles_def)

lemma same_roles_trans: "same_roles s s1 \<Longrightarrow> same_roles s1 s2 \<Longrightarrow> same_roles s s2"
  by (simp add: same_roles_def)

lemma wanted_frame: "prio_frame i s s' \<Longrightarrow> wanted_priority (tasks s' ! i) = wanted_priority (tasks s ! i)"
  by (simp add: prio_frame_def wanted_priority_def inherited_priority_def split: option.split)

lemma keeps_prio_settled:
  assumes "keeps_prio s s'"
  shows "settled_but X s' = settled_but X s" "same_roles s s'"
  using assms
  by (auto simp: keeps_prio_def settled_but_def settled_def wanted_frame)
    (auto simp: same_roles_def prio_frame_def)

lemma set_effective_priority_settles:
  assumes "set_effective_priority task (wanted_priority (tasks s ! task)) s = Some s'" "settled_but {task} s"
  shows "settled_but {} s'" "same_roles s s'"
proof -
  note e = set_effective_priority_effect [OF assms(1)]
  have "settled s' i" if i: "i < length (tasks s)" for i
  proof (cases "i = task")
    case True
    with e i show ?thesis by (auto simp: settled_def wanted_frame)
  next
    case False
    with assms(2) i have "settled s i" by (simp add: settled_but_def)
    with False e i show ?thesis by (auto simp: settled_def wanted_frame)
  qed
  with e show "settled_but {} s'" by (simp add: settled_but_def)
  from e show "same_roles s s'" by (simp add: same_roles_def prio_frame_def)
qed

lemma requeue_mutex_waiter_relinks:
  "do { (st, s) \<leftarrow> remove_mutex_waiter st task s; enqueue_mutex_waiter st task s } = Some (st', s') \<Longrightarrow>
    relinked UNIV s s'"
  by (auto simp: bind_eq_Some elim!: relinked_step dest!: waiter_relinks)

lemma settled_but_mod_donations:
  "owner < length (tasks s) \<Longrightarrow> settled_but {} s \<Longrightarrow>
    settled_but {owner} (mod_task owner (\<lambda>t. t\<lparr>t_inherited_waiters := c\<rparr>) s)
    \<and> same_roles s (mod_task owner (\<lambda>t. t\<lparr>t_inherited_waiters := c\<rparr>) s)"
  by (auto simp: settled_but_def settled_def same_roles_def mod_task_at)

lemma propagation_settles:
  "refresh_inherited_priority task depth s = Some s' \<Longrightarrow> settled_but {task} s \<Longrightarrow>
    settled_but {} s' \<and> same_roles s s'"
  "replace_inheritance owner old new depth s = Some s' \<Longrightarrow> settled_but {} s \<Longrightarrow>
    settled_but {} s' \<and> same_roles s s'"
proof (induction task depth s and owner old new depth s arbitrary: s' and s'
    rule: refresh_inherited_priority_replace_inheritance.induct)
  case (1 task depth s)
  let ?t = "tasks s ! task"
  from "1.prems"(1) have depth: "depth < TASK_SLOT_COUNT" and task: "task < length (tasks s)"
    by (auto simp: refresh_inherited_priority.simps task_at_def bind_eq_Some split: if_splits)
  show ?case
  proof (cases "t_priority ?t = wanted_priority ?t")
    case True
    with "1.prems" depth task have "s' = s" by (simp add: refresh_inherited_priority.simps)
    with "1.prems"(2) True show ?thesis by (auto simp: settled_but_def settled_def)
  next
    case False
    with "1.prems"(1) depth task obtain s1 where
      s1: "set_effective_priority task (wanted_priority ?t) s = Some s1"
      by (auto simp: refresh_inherited_priority.simps bind_eq_Some Let_def)
    note st = set_effective_priority_settles [OF s1 "1.prems"(2)]
    have task1: "task < length (tasks s1)" using set_effective_priority_effect [OF s1] by simp
    let ?a = "t_waiting_mutex (tasks s1 ! task)"
    show ?thesis
    proof (cases "?a = 0")
      case True
      with "1.prems"(1) depth task False s1 task1 have "s' = s1"
        by (simp add: refresh_inherited_priority.simps)
      with st show ?thesis by simp
    next
      case a: False
      with "1.prems"(1) depth task False s1 task1 obtain s2 m where
        s2: "on_mutex ?a (\<lambda>st s. do {
              (st, s) \<leftarrow> remove_mutex_waiter st task s; enqueue_mutex_waiter st task s }) s1 = Some s2"
        and m: "mutex_mem s2 ?a = Some m"
        and rest: "(if mx_owner m \<noteq> NIL
          then replace_inheritance (mx_owner m) (t_priority ?t) (wanted_priority ?t) (depth + 1) s2
          else Some s2) = Some s'"
        by (auto simp: refresh_inherited_priority.simps bind_eq_Some Let_def)
      from on_mutex_keeps_prio [OF s2 requeue_mutex_waiter_relinks] have k: "keeps_prio s1 s2" by simp
      from keeps_prio_settled [OF k] st have
        st2: "settled_but {} s2" "same_roles s s2" using same_roles_trans by blast+
      show ?thesis
      proof (cases "mx_owner m = NIL")
        case True
        with rest st2 show ?thesis by simp
      next
        case own: False
        from "1.IH" [OF depth _ refl refl False s1 _ refl a s2 m own, of s'] rest own st2 task task1
        show ?thesis using same_roles_trans by auto
      qed
    qed
  qed
next
  case (2 owner old new depth s)
  show ?case
  proof (cases "old = new")
    case True
    with "2.prems" show ?thesis by (simp add: replace_inheritance.simps)
  next
    case False
    with "2.prems"(1) obtain c where
      c: "replace_donation old new (t_inherited_waiters (tasks s ! owner)) = Some c"
      and owner: "owner < length (tasks s)"
      and run: "refresh_inherited_priority owner depth
        (mod_task owner (\<lambda>t. t\<lparr>t_inherited_waiters := c\<rparr>) s) = Some s'"
      by (auto simp: replace_inheritance.simps bind_eq_Some task_at_def upd_task_def split: if_splits)
    let ?s = "mod_task owner (\<lambda>t. t\<lparr>t_inherited_waiters := c\<rparr>) s"
    from settled_but_mod_donations [OF owner "2.prems"(2)] have
      m: "settled_but {owner} ?s" "same_roles s ?s" by blast+
    from "2.IH" [OF False, of "tasks s ! owner" c ?s s'] owner c run m
    show ?thesis using same_roles_trans by auto
  qed
qed

subsection \<open>Properties\<close>

text \<open>
  C34. Priority inheritance is exact: when every task runs at the better of its base priority and
  the best donation it holds, adding or removing a donation, or changing a base priority and
  refreshing, leaves every task so, along the whole chain of owners; it changes no base priority,
  no task state and nobody's mutex.
\<close>

theorem effective_priorities_follow_donations:
  assumes "settled_but {} s"
    and "add_inheritance owner p s = Some s' \<or> remove_inheritance owner p s = Some s'
      \<or> (owner < length (tasks s)
          \<and> refresh_inherited_priority owner 0 (mod_task owner (\<lambda>t. t\<lparr>t_base_priority := p\<rparr>) s) = Some s')"
  shows "(\<forall>i < length (tasks s'). t_priority (tasks s' ! i) = wanted_priority (tasks s' ! i))
    \<and> length (tasks s') = length (tasks s)
    \<and> (\<forall>i < length (tasks s). t_state (tasks s' ! i) = t_state (tasks s ! i)
        \<and> t_waiting_mutex (tasks s' ! i) = t_waiting_mutex (tasks s ! i)
        \<and> (i \<noteq> owner \<longrightarrow> t_base_priority (tasks s' ! i) = t_base_priority (tasks s ! i)))"
proof -
  obtain s0 where s0: "refresh_inherited_priority owner 0 s0 = Some s'" "settled_but {owner} s0"
    "length (tasks s0) = length (tasks s)" "\<forall>i < length (tasks s). t_state (tasks s0 ! i) = t_state (tasks s ! i)
        \<and> t_waiting_mutex (tasks s0 ! i) = t_waiting_mutex (tasks s ! i)
        \<and> (i \<noteq> owner \<longrightarrow> t_base_priority (tasks s0 ! i) = t_base_priority (tasks s ! i))"
    using assms
    by (auto simp: add_inheritance_def remove_inheritance_def bind_eq_Some Let_def upd_task_def
        settled_but_def settled_def mod_task_at split: if_splits)
  from propagation_settles(1) [OF s0(1,2)] s0(3,4) show ?thesis
    by (auto simp: settled_but_def settled_def same_roles_def)
qed

lemma settled_new: "settled_but {} (sched_new n)"
  by (auto simp: settled_but_def settled_def sched_new_def wanted_priority_def inherited_priority_def
      tcb_empty_def split: option.splits dest!: find_index_from_SomeD)

theorem effective_priorities_follow_donations_witness:
  "\<exists>s'. add_inheritance 0 3 (sched_new 8) = Some s' \<and> t_priority (tasks s' ! 0) = 3
    \<and> wanted_priority (tasks s' ! 0) = 3"
proof -
  let ?s = "sched_new 8"
  let ?c = "(replicate 32 (0::nat))[3 := 1]"
  let ?s1 = "diag (\<lambda>d. d\<lparr>d_priority_inheritances := bump32 (d_priority_inheritances d)\<rparr>)
    (mod_task 0 (\<lambda>t. t\<lparr>t_inherited_waiters := (t_inherited_waiters t)[3 := 1]\<rparr>) ?s)"
  have len: "length (tasks ?s) = 17" and t0: "tasks ?s ! 0 = tcb_empty"
    by (simp_all add: sched_new_def TASK_SLOT_COUNT_eq)
  have t1: "tasks ?s1 ! 0 = tcb_empty\<lparr>t_inherited_waiters := ?c\<rparr>"
    using len t0 by (simp add: tcb_empty_def PRIORITY_LEVELS_def)
  have pos: "position (\<lambda>count. count \<noteq> 0) ?c = Some 3" by (simp add: numeral_eq_Suc)
  have w: "wanted_priority (tcb_empty\<lparr>t_inherited_waiters := ?c\<rparr>) = 3"
    using pos by (simp add: wanted_priority_def inherited_priority_def tcb_empty_def PRIORITY_LEVELS_def)
  have "add_inheritance 0 3 ?s = refresh_inherited_priority 0 0 ?s1"
    using len t0 by (simp add: add_inheritance_def tcb_empty_def PRIORITY_LEVELS_def Let_def)
  also have "\<dots> = Some (mod_task 0 (\<lambda>t. t\<lparr>t_priority := 3\<rparr>) ?s1)"
    using len t1 w by (simp add: refresh_inherited_priority.simps set_effective_priority_def Let_def
        tcb_empty_def table_sizes)
  finally have run: "add_inheritance 0 3 ?s = Some (mod_task 0 (\<lambda>t. t\<lparr>t_priority := 3\<rparr>) ?s1)" .
  let ?s2 = "mod_task 0 (\<lambda>t. t\<lparr>t_priority := 3\<rparr>) ?s1"
  have all: "\<forall>i < length (tasks ?s2). t_priority (tasks ?s2 ! i) = wanted_priority (tasks ?s2 ! i)"
    using effective_priorities_follow_donations [OF settled_new, of 0 3 8, OF disjI1, OF run]
    by (rule conjunct1)
  have in_range: "0 < length (tasks ?s2)" and p: "t_priority (tasks ?s2 ! 0) = 3" using len by simp_all
  from all in_range have "t_priority (tasks ?s2 ! 0) = wanted_priority (tasks ?s2 ! 0)" by (elim allE impE)
  then have w2: "wanted_priority (tasks ?s2 ! 0) = 3" unfolding p by (rule sym)
  show ?thesis by (rule exI [of _ ?s2]) (intro conjI run p w2)
qed

end
