(* ===== verification/Switching.thy ===== *)
theory Switching
  imports Inheritance
begin

text \<open>
  Context switches (\<open>runtime/scheduler.rs\<close>): choosing a target, the switch intents that carry a
  detached target from the decision to the trap that performs it, the trap itself, the scheduler
  lock, and the accounting of a switch. A method that returns \<open>Option\<close> returns the option inside
  the outer option of the model, whose \<open>None\<close> is a failed assertion or an index out of range.
\<close>

subsection \<open>Task references and switch intents\<close>

definition task_ref_of :: "nat \<Rightarrow> sched \<Rightarrow> task_ref option" where
  "task_ref_of slot s = do {
     t \<leftarrow> task_at slot s;
     Some \<lparr>ref_slot = slot, ref_identity_generation = t_identity_generation t\<rparr>
   }"

definition task_ref_is_current :: "task_ref \<Rightarrow> sched \<Rightarrow> bool" where
  "task_ref_is_current r s =
     (case task_at (ref_slot r) s of
        Some t \<Rightarrow> t_identity_generation t = ref_identity_generation r
      | None \<Rightarrow> False)"

definition prepare_switch_intent :: "nat \<Rightarrow> nat \<Rightarrow> sched \<Rightarrow> (switch_intent \<times> sched) option" where
  "prepare_switch_intent previous target s = do {
     assert_that (pending_switch s = None);
     detached \<leftarrow> (if target = previous \<or> target = IDLE_SLOT then Some True
                  else do {
                    t \<leftarrow> task_at target s;
                    (if t_state t = Ready then do { c \<leftarrow> ready_contains target s; Some (\<not> c) }
                     else Some False)
                  });
     assert_that detached;
     sequence \<leftarrow> chk_add U64_MAX (next_switch_sequence s) 1;
     let s = s\<lparr>next_switch_sequence := sequence\<rparr>;
     previous_ref \<leftarrow> task_ref_of previous s;
     target_ref \<leftarrow> task_ref_of target s;
     p \<leftarrow> task_at previous s;
     Some (\<lparr>si_sequence = sequence, si_previous = previous_ref, si_target = target_ref,
            si_previous_resume_generation = t_resume_generation p\<rparr>,
           diag (\<lambda>d. d\<lparr>d_switch_intents_created := bump32 (d_switch_intents_created d)\<rparr>) s)
   }"

definition restore_detached_switch_target :: "nat \<Rightarrow> sched \<Rightarrow> sched option" where
  "restore_detached_switch_target target s =
     (if target \<noteq> IDLE_SLOT then do {
        t \<leftarrow> task_at target s;
        (if t_state t = Ready then do {
           c \<leftarrow> ready_contains target s;
           (if \<not> c then ready_push target s else Some s)
         } else Some s)
      } else Some s)"

definition recover_completed_switch_request :: "nat \<Rightarrow> nat \<Rightarrow> sched \<Rightarrow> (bool \<times> sched) option" where
  "recover_completed_switch_request previous detached_next s = do {
     running \<leftarrow> (if current s \<noteq> previous then Some False
                 else do { p \<leftarrow> task_at previous s; Some (t_state p = Running) });
     (if \<not> running then Some (False, s)
      else do {
        s \<leftarrow> restore_detached_switch_target detached_next s;
        Some (True, diag (\<lambda>d. d\<lparr>d_switch_race_recoveries := bump32 (d_switch_race_recoveries d)\<rparr>) s)
      })
   }"

definition commit_switch_intent :: "switch_intent \<Rightarrow> sched \<Rightarrow> (bool \<times> sched) option" where
  "commit_switch_intent intent s = do {
     let previous_identity_matches = task_ref_is_current (si_previous intent) s;
     let target_identity_matches = task_ref_is_current (si_target intent) s;
     (if \<not> previous_identity_matches \<or> \<not> target_identity_matches then do {
        s \<leftarrow> (if target_identity_matches
              then restore_detached_switch_target (ref_slot (si_target intent)) s else Some s);
        Some (False, diag (\<lambda>d. d\<lparr>d_switch_intents_cancelled_identity :=
                                  bump32 (d_switch_intents_cancelled_identity d)\<rparr>) s)
      } else do {
        let previous = ref_slot (si_previous intent);
        let target = ref_slot (si_target intent);
        p \<leftarrow> task_at previous s;
        (if current s \<noteq> previous
            \<or> t_resume_generation p \<noteq> si_previous_resume_generation intent
            \<or> t_state p = Running then do {
           s \<leftarrow> (if current s = previous \<and> t_state p = Running
                 then do { (_, s) \<leftarrow> recover_completed_switch_request previous target s; Some s }
                 else restore_detached_switch_target target s);
           Some (False, diag (\<lambda>d. d\<lparr>d_switch_intents_cancelled_stale :=
                                     bump32 (d_switch_intents_cancelled_stale d)\<rparr>) s)
         } else do {
           assert_that (pending_switch s = None);
           let s = s\<lparr>pending_switch := Some \<lparr>ps_sequence = si_sequence intent,
                       ps_previous = si_previous intent, ps_target = si_target intent\<rparr>\<rparr>;
           Some (True, diag (\<lambda>d. d\<lparr>d_switch_intents_committed :=
                                    bump32 (d_switch_intents_committed d)\<rparr>) s)
         })
      })
   }"

definition prepare_committed_switch_intent :: "nat \<Rightarrow> nat \<Rightarrow> sched \<Rightarrow> (switch_intent \<times> sched) option" where
  "prepare_committed_switch_intent previous target s = do {
     (intent, s) \<leftarrow> prepare_switch_intent previous target s;
     (committed, s) \<leftarrow> commit_switch_intent intent s;
     assert_that committed;
     Some (intent, s)
   }"

definition prepare_switch_away_decision ::
  "nat \<Rightarrow> 32 word \<Rightarrow> bool \<Rightarrow> sched \<Rightarrow> (switch_intent option \<times> sched) option" where
  "prepare_switch_away_decision previous expected_resume_generation commit_before_unlock s = do {
     unchanged \<leftarrow> (if current s = previous then do {
                       p \<leftarrow> task_at previous s;
                       Some (t_state p \<noteq> Running \<and> t_resume_generation p = expected_resume_generation)
                     } else Some False);
     (if \<not> unchanged then Some (None, s)
      else do {
        (target, s) \<leftarrow> ready_pop_or_idle s;
        (intent, s) \<leftarrow> prepare_switch_intent previous target s;
        (if commit_before_unlock then do {
           (committed, s) \<leftarrow> commit_switch_intent intent s;
           Some (if committed then Some intent else None, s)
         } else Some (Some intent, s))
      })
   }"

definition consume_pending_switch :: "sched \<Rightarrow> ((nat \<times> nat) option \<times> sched) option" where
  "consume_pending_switch s =
     (case pending_switch s of
        None \<Rightarrow> Some (None, s)
      | Some pending \<Rightarrow> do {
          let s = s\<lparr>pending_switch := None\<rparr>;
          assert_that (task_ref_is_current (ps_previous pending) s
                       \<and> task_ref_is_current (ps_target pending) s);
          assert_that (last_consumed_switch_sequence s < ps_sequence pending);
          let s = s\<lparr>last_consumed_switch_sequence := ps_sequence pending\<rparr>;
          Some (Some (ref_slot (ps_previous pending), ref_slot (ps_target pending)),
                diag (\<lambda>d. d\<lparr>d_switch_intents_completed := bump32 (d_switch_intents_completed d)\<rparr>) s)
        })"

subsection \<open>Choosing a target\<close>

definition take_yield_target :: "nat \<Rightarrow> nat \<Rightarrow> sched \<Rightarrow> (nat option \<times> sched) option" where
  "take_yield_target cur now s = do {
     (nxt, s) \<leftarrow> ready_pop s;
     (if nxt = NIL then Some (None, s)
      else do {
        s \<leftarrow> make_ready cur now s;
        Some (Some nxt, s)
      })
   }"

fun is_preemptive :: "run_policy \<Rightarrow> bool" where
  "is_preemptive (Preemptive _) = True"
| "is_preemptive _ = False"

text \<open>\<open>(0..end).any(|priority| self.ready_head[priority] != NIL)\<close>, with the index check.\<close>

fun any_ready_below :: "nat list \<Rightarrow> sched \<Rightarrow> bool option" where
  "any_ready_below [] s = Some False"
| "any_ready_below (p # ps) s = do {
     h \<leftarrow> arr_at (ready_head s) p;
     (if h \<noteq> NIL then Some True else any_ready_below ps s)
   }"

definition take_reschedule_target ::
  "bool \<Rightarrow> nat \<Rightarrow> sched \<Rightarrow> ((nat \<times> nat) option \<times> sched) option" where
  "take_reschedule_target allow_equal_priority now s = do {
     let cur = current s;
     t \<leftarrow> task_at cur s;
     (if t_state t \<noteq> Running \<or> t_scheduler_lock_depth t \<noteq> 0 then Some (None, s)
      else if cur = IDLE_SLOT then do {
        (nxt, s) \<leftarrow> ready_pop s;
        (if nxt = NIL then Some (None, s)
         else do {
           s \<leftarrow> make_ready cur now s;
           Some (Some (cur, nxt), s)
         })
      }
      else if \<not> is_preemptive (t_run_policy t) then Some (None, s)
      else do {
        let limit = (if allow_equal_priority then sat_add USIZE_MAX (t_priority t) 1 else t_priority t);
        any \<leftarrow> any_ready_below [0..<limit] s;
        (if \<not> any then Some (None, s)
         else do {
           (nxt, s) \<leftarrow> ready_pop s;
           assert_that (nxt \<noteq> NIL);
           s \<leftarrow> make_ready cur now s;
           Some (Some (cur, nxt), s)
         })
      })
   }"

subsection \<open>Performing a switch\<close>

definition account_switch :: "nat \<Rightarrow> nat \<Rightarrow> nat \<Rightarrow> sched \<Rightarrow> sched option" where
  "account_switch previous nxt now s = do {
     s \<leftarrow> upd_task previous (\<lambda>t. t\<lparr>t_budget := budget_on_switch_out now (t_budget t)\<rparr>) s;
     n \<leftarrow> task_at nxt s;
     b \<leftarrow> budget_on_dispatch now (t_budget n);
     s \<leftarrow> upd_task nxt (\<lambda>t. t\<lparr>t_budget := b\<rparr>) s;
     s \<leftarrow> upd_task previous (\<lambda>t. t\<lparr>t_metrics := metrics_on_switch_out now (t_metrics t)\<rparr>) s;
     s \<leftarrow> upd_task nxt (\<lambda>t. t\<lparr>t_metrics := metrics_on_dispatch now (t_metrics t)\<rparr>) s;
     Some (s\<lparr>time_slice_deadline := 0\<rparr>)
   }"

text \<open>The second half of \<open>schedule_from_trap\<close>, once a target is chosen.\<close>

definition trap_switch ::
  "nat \<Rightarrow> nat \<Rightarrow> nat \<Rightarrow> bool \<Rightarrow> nat \<Rightarrow> nat \<Rightarrow> sched \<Rightarrow> (nat \<times> sched) option" where
  "trap_switch previous nxt frame sliced current_priority now s = do {
     s \<leftarrow> account_switch previous nxt now s;
     p \<leftarrow> task_at previous s;
     s \<leftarrow> (if t_state p \<noteq> Free
           then upd_task previous (\<lambda>t. t\<lparr>t_saved_frame := frame\<rparr>) s else Some s);
     n \<leftarrow> task_at nxt s;
     let next_frame = t_saved_frame n;
     assert_that (next_frame \<noteq> 0);
     s \<leftarrow> upd_task nxt (\<lambda>t. t\<lparr>t_saved_frame := 0, t_state := Running,
                             t_resume_generation := t_resume_generation t + 1\<rparr>) s;
     let s = s\<lparr>current := nxt\<rparr>;
     let s = diag (\<lambda>d. d\<lparr>d_context_switches := bump32 (d_context_switches d),
                         d_irq_preemptions := bump32 (d_irq_preemptions d)\<rparr>) s;
     let s = (if sliced \<and> t_priority n = current_priority
              then diag (\<lambda>d. d\<lparr>d_time_slice_preemptions := bump32 (d_time_slice_preemptions d)\<rparr>) s
              else s);
     Some (next_frame, s\<lparr>time_slice_pending := False\<rparr>)
   }"

definition schedule_from_trap :: "nat \<Rightarrow> nat \<Rightarrow> nat \<Rightarrow> sched \<Rightarrow> (nat \<times> sched) option" where
  "schedule_from_trap frame interrupt_depth now s =
     (if \<not> started s \<or> interrupt_depth \<noteq> 0 then Some (frame, s)
      else do {
        let cur = current s;
        c \<leftarrow> task_at cur s;
        let current_priority = t_priority c;
        let sliced = time_slice_pending s;
        (target, s) \<leftarrow>
          (if pending_switch s \<noteq> None then consume_pending_switch s
           else if t_state c \<noteq> Running then do {
             (nxt, s) \<leftarrow> ready_pop_or_idle s;
             Some (Some (cur, nxt), s)
           } else take_reschedule_target sliced now s);
        (case target of
           None \<Rightarrow> Some (frame, s)
         | Some (previous, nxt) \<Rightarrow> trap_switch previous nxt frame sliced current_priority now s)
      })"

definition retire_stack :: "nat \<Rightarrow> sched \<Rightarrow> sched option" where
  "retire_stack stack s =
     (if stack \<noteq> 0 then do {
        assert_that (retired_count s < TASK_SLOT_COUNT);
        assert_that (retired_count s < length (retired_stacks s));
        count \<leftarrow> chk_add USIZE_MAX (retired_count s) 1;
        Some (s\<lparr>retired_stacks := (retired_stacks s)[retired_count s := stack], retired_count := count\<rparr>)
      } else Some s)"

subsection \<open>The scheduler lock\<close>

definition lock_current :: "nat \<Rightarrow> sched \<Rightarrow> (unit res \<times> sched) option" where
  "lock_current now s = do {
     t \<leftarrow> task_at (current s) s;
     s \<leftarrow> (if t_scheduler_lock_depth t = 0
           then upd_task (current s) (\<lambda>t. t\<lparr>t_scheduler_lock_started_at := Some now,
                  t_metrics := (t_metrics t)\<lparr>m_scheduler_lock_entries :=
                    bump32 (m_scheduler_lock_entries (t_metrics t))\<rparr>\<rparr>) s
           else Some s);
     (case chk_add U16_MAX (t_scheduler_lock_depth t) 1 of
        None \<Rightarrow> Some (Inl RuntimeError, s)
      | Some depth \<Rightarrow> do {
          s \<leftarrow> upd_task (current s) (\<lambda>t. t\<lparr>t_scheduler_lock_depth := depth\<rparr>) s;
          Some (Inr (), diag (\<lambda>d. d\<lparr>d_scheduler_locks := bump32 (d_scheduler_locks d)\<rparr>) s)
        })
   }"

definition unlock_current :: "nat \<Rightarrow> sched \<Rightarrow> (unit res \<times> sched) option" where
  "unlock_current now s = do {
     t \<leftarrow> task_at (current s) s;
     (if t_scheduler_lock_depth t = 0 then Some (Inl InvalidContext, s)
      else do {
        let depth = t_scheduler_lock_depth t - 1;
        s \<leftarrow> upd_task (current s) (\<lambda>t. t\<lparr>t_scheduler_lock_depth := depth\<rparr>) s;
        (if depth = 0 then do {
           started_at \<leftarrow> t_scheduler_lock_started_at t;
           s \<leftarrow> upd_task (current s) (\<lambda>t. t\<lparr>t_metrics := (t_metrics t)\<lparr>m_max_scheduler_lock_ms :=
                    max (m_max_scheduler_lock_ms (t_metrics t)) (sat_sub now started_at)\<rparr>,
                  t_scheduler_lock_started_at := None\<rparr>) s;
           Some (Inr (), s)
         } else Some (Inr (), s))
      })
   }"

definition unlock_current_and_take_preemption ::
  "nat \<Rightarrow> sched \<Rightarrow> (((nat \<times> nat) option) res \<times> sched) option" where
  "unlock_current_and_take_preemption now s = do {
     (r, s) \<leftarrow> unlock_current now s;
     (case r of
        Inl e \<Rightarrow> Some (Inl e, s)
      | Inr _ \<Rightarrow> do {
          t \<leftarrow> task_at (current s) s;
          (if t_scheduler_lock_depth t = 0 \<and> lock_overrun_pending (t_budget t) then do {
             let cur = current s;
             let (boundary, b) = throttle_after_lock_overrun now (t_budget t);
             _ \<leftarrow> boundary;
             s \<leftarrow> upd_task cur (\<lambda>t. t\<lparr>t_budget := b, t_state := Throttled\<rparr>) s;
             let s = diag (\<lambda>d. d\<lparr>d_budget_throttles := bump32 (d_budget_throttles d)\<rparr>) s;
             (nxt, s) \<leftarrow> ready_pop_or_idle s;
             Some (Inr (Some (cur, nxt)), s)
           } else do {
             (target, s) \<leftarrow> take_reschedule_target (time_slice_pending s) now s;
             Some (Inr target, if target \<noteq> None then s\<lparr>time_slice_pending := False\<rparr> else s)
           })
        })
   }"

definition current_switch_guard :: "sched \<Rightarrow> (nat res) option" where
  "current_switch_guard s = do {
     t \<leftarrow> task_at (current s) s;
     Some (if t_scheduler_lock_depth t \<noteq> 0 then Inl InvalidContext else Inr (current s))
   }"

end
