(* ===== verification/Ownership.thy ===== *)
theory Ownership
  imports Switching
begin

text \<open>
  Ready ownership: at every stable point each ready task belongs to exactly one place, a bucket of
  the ready queue or the pending switch, the idle task is never queued, and at most the current
  task is running. \<open>owned_but X\<close> is that invariant with the tasks of \<open>X\<close> allowed to be ready and
  in no place, which is the situation between taking a task from the queue and recording it.
\<close>

subsection \<open>The invariant\<close>

abbreviation state_of :: "sched \<Rightarrow> nat \<Rightarrow> tstate" where
  "state_of s i \<equiv> t_state (tasks s ! i)"

definition pending_ok :: "sched \<Rightarrow> (nat \<Rightarrow> nat list) \<Rightarrow> pending_switch \<Rightarrow> bool" where
  "pending_ok s Q p \<longleftrightarrow> task_ref_is_current (ps_target p) s
     \<and> ref_slot (ps_target p) \<notin> queued Q \<and> state_of s (ref_slot (ps_target p)) = Ready
     \<and> ref_slot (ps_previous p) = current s \<and> state_of s (current s) \<noteq> Running"

definition owned_but :: "nat set \<Rightarrow> sched \<Rightarrow> (nat \<Rightarrow> nat list) \<Rightarrow> bool" where
  "owned_but X s Q \<longleftrightarrow> shape_ok s \<and> ready_rep s Q
     \<and> (\<forall>i \<in> queued Q. state_of s i = Ready \<and> i \<noteq> IDLE_SLOT)
     \<and> (\<forall>i < TASK_SLOT_COUNT. state_of s i = Ready \<and> i \<noteq> IDLE_SLOT \<and> i \<notin> X \<longrightarrow>
          i \<in> queued Q \<or> pending_target s = Some i)
     \<and> (\<forall>p. pending_switch s = Some p \<longrightarrow> pending_ok s Q p)
     \<and> (\<forall>i < TASK_SLOT_COUNT. state_of s i = Running \<longrightarrow> i = current s)"

definition owned :: "sched \<Rightarrow> (nat \<Rightarrow> nat list) \<Rightarrow> bool" where
  "owned s Q \<longleftrightarrow> owned_but {} s Q \<and> (pending_switch s = None \<longrightarrow> state_of s (current s) = Running)"

lemma task_ref_is_current_iff:
  "task_ref_is_current r s \<longleftrightarrow> ref_slot r < length (tasks s)
    \<and> t_identity_generation (tasks s ! ref_slot r) = ref_identity_generation r"
  by (simp add: task_ref_is_current_def task_at_def)

lemma links_fields [simp]:
  "links (s\<lparr>last_consumed_switch_sequence := m\<rparr>) = links s"
  "links (s\<lparr>next_switch_sequence := m\<rparr>) = links s"
  "links (s\<lparr>current := n\<rparr>) = links s" "links (s\<lparr>pending_switch := p\<rparr>) = links s"
  by (auto simp: links_def)

lemma owned_butD:
  assumes "owned_but X s Q"
  shows "shape_ok s" "ready_rep s Q"
    "i \<in> queued Q \<Longrightarrow> state_of s i = Ready" "i \<in> queued Q \<Longrightarrow> i \<noteq> IDLE_SLOT"
    "i < TASK_SLOT_COUNT \<Longrightarrow> state_of s i = Ready \<Longrightarrow> i \<noteq> IDLE_SLOT \<Longrightarrow> i \<notin> X \<Longrightarrow>
      i \<in> queued Q \<or> pending_target s = Some i"
    "pending_switch s = Some p \<Longrightarrow> pending_ok s Q p"
    "i < TASK_SLOT_COUNT \<Longrightarrow> state_of s i = Running \<Longrightarrow> i = current s"
    "length (tasks s) = TASK_SLOT_COUNT" "current s < TASK_SLOT_COUNT"
  using assms by (auto simp: owned_but_def dest: shape_okD)

lemma owned_butI:
  assumes "shape_ok s" "ready_rep s Q"
    "\<And>i. i \<in> queued Q \<Longrightarrow> state_of s i = Ready \<and> i \<noteq> IDLE_SLOT"
    "\<And>i. i < TASK_SLOT_COUNT \<Longrightarrow> state_of s i = Ready \<Longrightarrow> i \<noteq> IDLE_SLOT \<Longrightarrow> i \<notin> X \<Longrightarrow>
      i \<in> queued Q \<or> pending_target s = Some i"
    "\<And>p. pending_switch s = Some p \<Longrightarrow> pending_ok s Q p"
    "\<And>i. i < TASK_SLOT_COUNT \<Longrightarrow> state_of s i = Running \<Longrightarrow> i = current s"
  shows "owned_but X s Q"
  using assms by (auto simp: owned_but_def)

lemma owned_but_mono: "owned_but X s Q \<Longrightarrow> X \<subseteq> Y \<Longrightarrow> owned_but Y s Q"
  by (auto simp: owned_but_def)

text \<open>The invariant only looks at some fields.\<close>

definition same_view :: "sched \<Rightarrow> sched \<Rightarrow> bool" where
  "same_view s s' \<longleftrightarrow> length (tasks s') = length (tasks s) \<and> current s' = current s
     \<and> ready_head s' = ready_head s \<and> ready_tail s' = ready_tail s
     \<and> length (retired_stacks s') = length (retired_stacks s)
     \<and> length (slot_generations s') = length (slot_generations s)
     \<and> pending_switch s' = pending_switch s
     \<and> (\<forall>i < length (tasks s). t_state (tasks s' ! i) = t_state (tasks s ! i)
         \<and> t_priority (tasks s' ! i) = t_priority (tasks s ! i)
         \<and> t_next (tasks s' ! i) = t_next (tasks s ! i)
         \<and> t_identity_generation (tasks s' ! i) = t_identity_generation (tasks s ! i))"

lemma same_view_refl [simp]: "same_view s s"
  by (simp add: same_view_def)

lemma same_view_trans: "same_view s s1 \<Longrightarrow> same_view s1 s2 \<Longrightarrow> same_view s s2"
  by (simp add: same_view_def)

lemma same_view_diag [simp]: "same_view s (diag f s') = same_view s s'"
  by (simp add: same_view_def)

lemma same_view_fields [simp]:
  "same_view s (s'\<lparr>next_switch_sequence := n\<rparr>) = same_view s s'"
  "same_view s (s'\<lparr>last_consumed_switch_sequence := n\<rparr>) = same_view s s'"
  "same_view s (s'\<lparr>time_slice_deadline := n\<rparr>) = same_view s s'"
  "same_view s (s'\<lparr>time_slice_pending := b\<rparr>) = same_view s s'"
  by (simp_all add: same_view_def)

lemma same_view_mod_task:
  assumes "same_view s s'" "\<And>t. t_state (f t) = t_state t" "\<And>t. t_priority (f t) = t_priority t"
    "\<And>t. t_next (f t) = t_next t" "\<And>t. t_identity_generation (f t) = t_identity_generation t"
  shows "same_view s (mod_task i f s')"
proof (cases "i < length (tasks s')")
  case True
  with assms show ?thesis by (simp add: same_view_def mod_task_at)
next
  case False
  then have "mod_task i f s' = s'" by (simp add: mod_task_def list_update_beyond)
  with assms(1) show ?thesis by simp
qed

lemma owned_but_view:
  assumes "owned_but X s Q" "same_view s s'"
  shows "owned_but X s' Q"
proof -
  note d = owned_butD [OF assms(1)]
  note v = assms(2) [unfolded same_view_def]
  have sh: "shape_ok s'" using d(1) v by (simp add: shape_ok_def)
  have q: "i < TASK_SLOT_COUNT" if "i \<in> queued Q" for i using queued_slot [OF d(2) that] .
  have rep: "ready_rep s' Q"
    using d(2) by (rule ready_rep_frame) (use v d(8) q in \<open>auto simp: links_def\<close>)
  have "pending_ok s' Q p" if "pending_switch s' = Some p" for p
  proof -
    have p: "pending_ok s Q p" using d(6) that v by simp
    then have "ref_slot (ps_target p) < length (tasks s)"
      by (simp add: pending_ok_def task_ref_is_current_iff)
    with p v d(8,9) show ?thesis by (auto simp: pending_ok_def task_ref_is_current_iff)
  qed
  with assms(1) sh rep v d(8) q show ?thesis by (auto simp: owned_but_def pending_target_def)
qed

subsection \<open>Taking and returning a task\<close>

lemma owned_but_queue:
  assumes own: "owned_but X s Q" and re: "relinked R s s'" and rep: "ready_rep s' Q'"
    and sub: "queued Q' \<subseteq> queued Q \<union> A"
    and keep: "\<And>i. i \<in> queued Q \<union> X \<Longrightarrow> i \<notin> Y \<Longrightarrow> i \<in> queued Q'"
    and A: "\<And>i. i \<in> A \<Longrightarrow> i < TASK_SLOT_COUNT \<and> state_of s i = Ready \<and> i \<noteq> IDLE_SLOT \<and> pending_target s \<noteq> Some i"
  shows "owned_but Y s' Q'"
proof -
  note d = owned_butD [OF own] and sel = relinked_sel [OF re] and fl = relinked_fields [OF re]
  have sh: "shape_ok s'" using relinked_shape [OF re d(1)] .
  have pt: "pending_target s' = pending_target s" by (simp add: pending_target_def sel)
  have slot: "i < TASK_SLOT_COUNT" if "i \<in> queued Q'" for i using queued_slot [OF rep that] .
  have "pending_ok s' Q' p" if "pending_switch s' = Some p" for p
  proof -
    have p: "pending_ok s Q p" and ps: "pending_switch s = Some p" using d(6) that sel by simp_all
    then have t: "ref_slot (ps_target p) < length (tasks s)"
      by (simp add: pending_ok_def task_ref_is_current_iff)
    have "ref_slot (ps_target p) \<notin> A" using A ps by (auto simp: pending_target_def)
    with p sub t d(8,9) sel fl show ?thesis
      by (auto simp: pending_ok_def task_ref_is_current_iff)
  qed
  moreover have "state_of s' i = Ready \<and> i \<noteq> IDLE_SLOT" if "i \<in> queued Q'" for i
    using that sub A d(3,4,8) slot [OF that] fl(4) by auto
  moreover have "i \<in> queued Q' \<or> pending_target s' = Some i"
    if "i < TASK_SLOT_COUNT" "state_of s' i = Ready" "i \<noteq> IDLE_SLOT" "i \<notin> Y" for i
    using that d(5) [of i] d(8) fl(4) [of i] keep [of i] pt by auto
  moreover have "i = current s'" if "i < TASK_SLOT_COUNT" "state_of s' i = Running" for i
    using that d(7) [of i] d(8) fl(4) [of i] sel by auto
  ultimately show ?thesis using sh rep by (simp add: owned_but_def)
qed

lemma queued_upd: "p < PRIORITY_LEVELS \<Longrightarrow> queued (Q(p := q)) = (\<Union>p' \<in> {..<PRIORITY_LEVELS} - {p}. set (Q p')) \<union> set q"
  by (auto simp: queued_def split: if_splits)

lemma queued_snoc: "p < PRIORITY_LEVELS \<Longrightarrow> queued (Q(p := Q p @ [i])) = insert i (queued Q)"
  by (auto simp: queued_def split: if_splits)

lemma queued_tl:
  assumes "ready_rep s Q" "p < PRIORITY_LEVELS" "Q p \<noteq> []"
  shows "queued (Q(p := tl (Q p))) = queued Q - {hd (Q p)}"
proof -
  have d: "distinct (Q p)" using chain_distinct ready_repD(1) [OF assms(1,2)] by blast
  have e: "Q p = hd (Q p) # tl (Q p)" using assms(3) by simp
  then have n: "hd (Q p) \<notin> set (tl (Q p))" using d by (metis distinct.simps(2))
  have "hd (Q p) \<notin> set (Q p')" if "p' < PRIORITY_LEVELS" "p' \<noteq> p" for p'
    using buckets_disjoint [OF assms(1) that(1) assms(2)] that(2) hd_in_set [OF assms(3)] by blast
  moreover have "set (Q p) = insert (hd (Q p)) (set (tl (Q p)))" using e by (metis list.simps(15))
  moreover have "queued Q = (\<Union>p' \<in> {..<PRIORITY_LEVELS} - {p}. set (Q p')) \<union> set (Q p)"
    using queued_upd [OF assms(2), of Q "Q p"] by simp
  ultimately show ?thesis using n by (auto simp: queued_upd [OF assms(2)])
qed

lemma owned_pop:
  assumes own: "owned_but X s Q" and p: "first_bucket Q = Some p"
  shows "\<exists>s'. ready_pop s = Some (hd (Q p), s') \<and> owned_but (insert (hd (Q p)) X) s' (Q(p := tl (Q p)))
    \<and> relinked {hd (Q p)} s s' \<and> queued (Q(p := tl (Q p))) = queued Q - {hd (Q p)}"
proof -
  note d = owned_butD [OF own] and b = first_bucket_Some [OF p]
  from ready_pop_spec(2) [OF d(1,2) p] obtain s' where
    s': "ready_pop s = Some (hd (Q p), s')" "ready_rep s' (Q(p := tl (Q p)))" "relinked {hd (Q p)} s s'" by blast
  note q = queued_tl [OF d(2) b(1,2)]
  have "owned_but (insert (hd (Q p)) X) s' (Q(p := tl (Q p)))"
    by (rule owned_but_queue [OF own s'(3,2), of "{}"]) (auto simp: q)
  with s' q show ?thesis by blast
qed

lemma owned_pop_target:
  assumes own: "owned_but X s Q" and p: "first_bucket Q = Some p"
  shows "hd (Q p) < TASK_SLOT_COUNT" "state_of s (hd (Q p)) = Ready" "hd (Q p) \<noteq> IDLE_SLOT"
    "hd (Q p) \<in> queued Q" "pending_target s \<noteq> Some (hd (Q p))"
proof -
  note d = owned_butD [OF own] and b = first_bucket_Some [OF p]
  show q: "hd (Q p) \<in> queued Q" using b hd_in_set [OF b(2)] by (auto simp: queued_iff)
  show "hd (Q p) < TASK_SLOT_COUNT" using queued_slot [OF d(2) q] .
  show "state_of s (hd (Q p)) = Ready" "hd (Q p) \<noteq> IDLE_SLOT" using d(3,4) q by auto
  show "pending_target s \<noteq> Some (hd (Q p))"
    using d(6) q by (auto simp: pending_target_def pending_ok_def)
qed

lemma owned_push:
  assumes own: "owned_but X s Q" and i: "i < TASK_SLOT_COUNT" "state_of s i = Ready" "i \<noteq> IDLE_SLOT"
    "i \<notin> queued Q" "pending_target s \<noteq> Some i"
  shows "\<exists>s'. ready_push i s = Some s' \<and> owned_but (X - {i}) s' (Q(prio_of s i := Q (prio_of s i) @ [i]))
    \<and> relinked (insert i (set (Q (prio_of s i)))) s s'"
proof -
  note d = owned_butD [OF own]
  have pl: "prio_of s i < PRIORITY_LEVELS" using shape_okD(7) [OF d(1) i(1)] .
  from ready_push_spec [OF d(1,2) i(1,4) refl] obtain s' where
    s': "ready_push i s = Some s'" "ready_rep s' (Q(prio_of s i := Q (prio_of s i) @ [i]))"
      "relinked (insert i (set (Q (prio_of s i)))) s s'" by blast
  note q = queued_snoc [OF pl, of Q i]
  have "owned_but (X - {i}) s' (Q(prio_of s i := Q (prio_of s i) @ [i]))"
    by (rule owned_but_queue [OF own s'(3,2), of "{i}"]) (use i in \<open>auto simp: q\<close>)
  with s' show ?thesis by blast
qed

lemma owned_remove:
  assumes own: "owned_but X s Q" and i: "i \<in> queued Q" and p: "p = prio_of s i"
  shows "\<exists>s'. ready_remove i s = Some s' \<and> owned_but (insert i X) s' (Q(p := remove1 i (Q p))) \<and> relinked (set (Q p)) s s'"
    "queued (Q(p := remove1 i (Q p))) = queued Q - {i}" "p < PRIORITY_LEVELS"
proof -
  note d = owned_butD [OF own]
  have il: "i < TASK_SLOT_COUNT" using queued_slot [OF d(2) i] .
  show pl: "p < PRIORITY_LEVELS" using shape_okD(7) [OF d(1) il] p by simp
  from ready_remove_spec(2) [OF d(1,2) il p i] obtain s1 where
    1: "ready_remove i s = Some s1" "ready_rep s1 (Q(p := remove1 i (Q p)))" "relinked (set (Q p)) s s1" by blast
  have "distinct (Q p)" using chain_distinct ready_repD(1) [OF d(2) pl] by blast
  moreover have "i \<notin> set (Q p')" if "p' < PRIORITY_LEVELS" "p' \<noteq> p" for p'
    using buckets_disjoint [OF d(2) that(1) pl] queued_bucket [OF d(2)] i that(2) p by blast
  moreover have "queued Q = (\<Union>p' \<in> {..<PRIORITY_LEVELS} - {p}. set (Q p')) \<union> set (Q p)"
    using queued_upd [OF pl, of Q "Q p"] by simp
  ultimately show q: "queued (Q(p := remove1 i (Q p))) = queued Q - {i}" by (auto simp: queued_upd [OF pl])
  have "owned_but (insert i X) s1 (Q(p := remove1 i (Q p)))"
    by (rule owned_but_queue [OF own 1(3,2), of "{}"]) (auto simp: q)
  with 1 show "\<exists>s'. ready_remove i s = Some s' \<and> owned_but (insert i X) s' (Q(p := remove1 i (Q p))) \<and> relinked (set (Q p)) s s'" by blast
qed

lemma owned_contains: "owned_but X s Q \<Longrightarrow> ready_contains i s = Some (i \<in> queued Q)"
  by (rule ready_contains_spec) (auto dest: owned_butD)

subsection \<open>Changing the state of a task\<close>

lemma owned_mod_task:
  assumes own: "owned_but X s Q" and i: "i < TASK_SLOT_COUNT" "i \<notin> queued Q" "pending_target s \<noteq> Some i"
    and f: "t_priority (f (tasks s ! i)) < PRIORITY_LEVELS"
      "t_state (f (tasks s ! i)) = Running \<Longrightarrow> i = current s \<and> pending_switch s = None"
    and Y: "X \<subseteq> Y" "t_state (f (tasks s ! i)) = Ready \<Longrightarrow> i \<noteq> IDLE_SLOT \<Longrightarrow> i \<in> Y"
  shows "owned_but Y (mod_task i f s) Q"
proof -
  note d = owned_butD [OF own]
  let ?s = "mod_task i f s"
  have at: "tasks ?s ! j = (if j = i then f (tasks s ! i) else tasks s ! j)" for j
    using i(1) d(8) by (simp add: mod_task_at)
  have sh: "shape_ok ?s" using shape_ok_mod_task [OF d(1) i(1), of f] f(1) .
  have rep: "ready_rep ?s Q" using i d(8) by (intro ready_rep_mod_task [OF d(2)]) auto
  have pt: "pending_target ?s = pending_target s" by (simp add: pending_target_def)
  show ?thesis
  proof (rule owned_butI [OF sh rep])
    show "state_of ?s j = Ready \<and> j \<noteq> IDLE_SLOT" if "j \<in> queued Q" for j
      using d(3,4) [OF that] i(2) that by (auto simp: at)
    show "j \<in> queued Q \<or> pending_target ?s = Some j"
      if "j < TASK_SLOT_COUNT" "state_of ?s j = Ready" "j \<noteq> IDLE_SLOT" "j \<notin> Y" for j
      using that d(5) [of j] Y pt by (cases "j = i") (auto simp: at)
    show "j = current ?s" if "j < TASK_SLOT_COUNT" "state_of ?s j = Running" for j
      using that d(7) [of j] f(2) by (cases "j = i") (auto simp: at)
    show "pending_ok ?s Q p" if "pending_switch ?s = Some p" for p
    proof -
      have p: "pending_switch s = Some p" using that by simp
      then have "ref_slot (ps_target p) \<noteq> i" using i(3) by (auto simp: pending_target_def)
      with d(6) [OF p] f(2) p show ?thesis
        by (auto simp: pending_ok_def task_ref_is_current_iff at)
    qed
  qed
qed

text \<open>Dispatching a detached task.\<close>

lemma owned_dispatch:
  assumes own: "owned_but X s Q" and nopend: "pending_switch s = None"
    and n: "n < TASK_SLOT_COUNT" "n \<notin> queued Q"
    and f: "t_priority (f (tasks s ! n)) < PRIORITY_LEVELS" "t_state (f (tasks s ! n)) = Running"
    and alone: "\<And>i. i < TASK_SLOT_COUNT \<Longrightarrow> state_of s i = Running \<Longrightarrow> i = n"
  shows "owned_but (X - {n}) ((mod_task n f s)\<lparr>current := n\<rparr>) Q"
    "state_of ((mod_task n f s)\<lparr>current := n\<rparr>) n = Running"
proof -
  note d = owned_butD [OF own]
  let ?s = "(mod_task n f s)\<lparr>current := n\<rparr>"
  have at: "tasks ?s ! j = (if j = n then f (tasks s ! n) else tasks s ! j)" for j
    using n(1) d(8) by (simp add: mod_task_at)
  have "shape_ok (mod_task n f s)" using shape_ok_mod_task [OF d(1) n(1), of f] f(1) .
  then have sh: "shape_ok ?s" using n(1) by (simp add: shape_ok_def)
  have "ready_rep (mod_task n f s) Q" using n d(8) by (intro ready_rep_mod_task [OF d(2)]) auto
  then have rep: "ready_rep ?s Q" by (simp add: ready_rep_def bucket_ok_def)
  show "owned_but (X - {n}) ?s Q"
  proof (rule owned_butI [OF sh rep])
    show "state_of ?s j = Ready \<and> j \<noteq> IDLE_SLOT" if "j \<in> queued Q" for j
      using d(3,4) [OF that] n(2) that unfolding at by auto
    show "j \<in> queued Q \<or> pending_target ?s = Some j"
      if "j < TASK_SLOT_COUNT" "state_of ?s j = Ready" "j \<noteq> IDLE_SLOT" "j \<notin> X - {n}" for j
      using that(2) unfolding at using that(1,3,4) d(5) [of j] f(2) nopend
      by (cases "j = n") (auto simp: pending_target_def)
    show "j = current ?s" if "j < TASK_SLOT_COUNT" "state_of ?s j = Running" for j
    proof (rule ccontr)
      assume "j \<noteq> current ?s"
      then have "j \<noteq> n" by simp
      moreover from this that(2) have "state_of s j = Running" unfolding at by simp
      ultimately show False using alone that(1) by blast
    qed
    show "pending_ok ?s Q p" if "pending_switch ?s = Some p" for p
      using that nopend by simp
  qed
  show "state_of ?s n = Running" using f(2) by (simp only: at) simp
qed

definition ready_mark :: "nat \<Rightarrow> tcb \<Rightarrow> tcb" where
  "ready_mark now t = t\<lparr>t_state := Ready, t_metrics := metrics_on_ready now (t_metrics t)\<rparr>"

lemma owned_make_ready:
  assumes own: "owned_but X s Q" and i: "i < TASK_SLOT_COUNT" "i \<notin> queued Q" "pending_target s \<noteq> Some i"
  shows "\<exists>s' Q'. make_ready i now s = Some s' \<and> owned_but (X - {i}) s' Q'
    \<and> queued Q' = (if i = IDLE_SLOT then queued Q else insert i (queued Q))
    \<and> relinked (insert i (queued Q)) (mod_task i (ready_mark now) s) s'"
proof -
  note d = owned_butD [OF own]
  let ?s = "mod_task i (ready_mark now) s"
  have at: "tasks ?s ! i = ready_mark now (tasks s ! i)" using i(1) d(8) by simp
  have pr: "t_priority (ready_mark now (tasks s ! i)) < PRIORITY_LEVELS"
    using shape_okD(7) [OF d(1) i(1)] by (simp add: ready_mark_def)
  have st: "owned_but (if i = IDLE_SLOT then X else insert i X) ?s Q"
    by (rule owned_mod_task [OF own i, where f = "ready_mark now", OF pr]) (auto simp: ready_mark_def)
  have run: "make_ready i now s = (if i \<noteq> IDLE_SLOT then ready_push i ?s else Some ?s)"
    using i(1) d(8) by (simp add: make_ready_def ready_mark_def [abs_def])
  show ?thesis
  proof (cases "i = IDLE_SLOT")
    case True
    have "owned_but (X - {i}) ?s Q"
      using st True unfolding owned_but_def by auto
    with True run show ?thesis by auto
  next
    case False
    let ?Q = "Q(prio_of ?s i := Q (prio_of ?s i) @ [i])"
    have "pending_target ?s \<noteq> Some i" using i(3) by (simp add: pending_target_def)
    with owned_push [OF st i(1) _ False i(2)] obtain s' where
      s': "ready_push i ?s = Some s'" "owned_but ((if i = IDLE_SLOT then X else insert i X) - {i}) s' ?Q"
        "relinked (insert i (set (Q (prio_of ?s i)))) ?s s'"
      by (auto simp: at ready_mark_def)
    have "queued ?Q = insert i (queued Q)"
      by (rule queued_snoc) (simp add: at pr)
    moreover have "set (Q (prio_of ?s i)) \<subseteq> queued Q" using pr by (auto simp: queued_iff at)
    ultimately show ?thesis using s' False run relinked_mono [OF s'(3), of "insert i (queued Q)"]
      by (intro exI [of _ s'] exI [of _ ?Q]) auto
  qed
qed

text \<open>
  The effect of scheduling decisions on everything but the links: the tasks of \<open>X\<close> were made ready.
\<close>

definition readied :: "nat set \<Rightarrow> nat \<Rightarrow> sched \<Rightarrow> sched \<Rightarrow> bool" where
  "readied X now s s' \<longleftrightarrow> (\<exists>ts hs tls. s' = s\<lparr>tasks := ts, ready_head := hs, ready_tail := tls\<rparr>
     \<and> length ts = length (tasks s)
     \<and> (\<forall>j < length ts. \<exists>n. ts ! j =
          (if j \<in> X then ready_mark now (tasks s ! j) else tasks s ! j)\<lparr>t_next := n\<rparr>)
     \<and> (\<forall>j < length ts. j \<notin> X \<longrightarrow> state_of s j = Blocked \<longrightarrow> ts ! j = tasks s ! j))"

lemma readied_relinked:
  assumes "relinked R s s'" "\<And>j. j \<in> R \<Longrightarrow> state_of s j \<noteq> Blocked"
  shows "readied {} now s s'"
proof -
  from assms(1) obtain ts hs tls where r: "s' = s\<lparr>tasks := ts, ready_head := hs, ready_tail := tls\<rparr>"
    "length ts = length (tasks s)" "\<forall>j < length ts. \<exists>n. ts ! j = (tasks s ! j)\<lparr>t_next := n\<rparr>"
    "\<forall>j < length ts. j \<notin> R \<longrightarrow> ts ! j = tasks s ! j" by (auto simp: relinked_def)
  then show ?thesis using assms(2) unfolding readied_def
    by (intro exI [of _ ts] exI [of _ hs] exI [of _ tls]) auto
qed

lemma readied_refl [simp]: "readied {} now s s"
  by (rule readied_relinked [of "{}"]) simp_all

lemma readied_make_ready:
  assumes "readied X now s s1" "relinked R (mod_task i (ready_mark now) s1) s2" "i \<notin> X"
    and R: "\<And>j. j \<in> R \<Longrightarrow> j = i \<or> state_of s1 j \<noteq> Blocked"
  shows "readied (insert i X) now s s2"
proof -
  from assms(1) obtain ts hs tls where 1: "s1 = s\<lparr>tasks := ts, ready_head := hs, ready_tail := tls\<rparr>"
    "length ts = length (tasks s)"
    "\<forall>j < length ts. \<exists>n. ts ! j = (if j \<in> X then ready_mark now (tasks s ! j) else tasks s ! j)\<lparr>t_next := n\<rparr>"
    "\<forall>j < length ts. j \<notin> X \<longrightarrow> state_of s j = Blocked \<longrightarrow> ts ! j = tasks s ! j"
    by (auto simp: readied_def)
  let ?ts = "ts[i := ready_mark now (ts ! i)]"
  from assms(2) obtain ts' hs' tls' where 2: "s2 = s\<lparr>tasks := ts', ready_head := hs', ready_tail := tls'\<rparr>"
    "length ts' = length ts" "\<forall>j < length ts'. \<exists>n. ts' ! j = (?ts ! j)\<lparr>t_next := n\<rparr>"
    "\<forall>j < length ts'. j \<notin> R \<longrightarrow> ts' ! j = ?ts ! j"
    by (auto simp: relinked_def mod_task_def 1(1))
  have blocked: "ts' ! j = tasks s ! j" if "j < length ts'" "j \<notin> insert i X" "state_of s j = Blocked" for j
  proof -
    have e: "ts ! j = tasks s ! j" using 1(4) 2(2) that by simp
    then have "j \<notin> R" using R [of j] that 1(1) by auto
    then show ?thesis using 2(4) that e by simp
  qed
  have "\<exists>n. ts' ! j = (if j \<in> insert i X then ready_mark now (tasks s ! j) else tasks s ! j)\<lparr>t_next := n\<rparr>"
    if j: "j < length ts'" for j
  proof -
    from 1(3) j 2(2) obtain n where
      n: "ts ! j = (if j \<in> X then ready_mark now (tasks s ! j) else tasks s ! j)\<lparr>t_next := n\<rparr>" by auto
    from 2(3) j obtain m where m: "ts' ! j = (?ts ! j)\<lparr>t_next := m\<rparr>" by auto
    show ?thesis
    proof (cases "j = i")
      case True
      with n m j assms(3) 2(2) show ?thesis by (auto simp: ready_mark_def)
    next
      case False
      with n m show ?thesis by auto
    qed
  qed
  with 1(2) 2(1,2) blocked show ?thesis
    unfolding readied_def by (intro exI [of _ ts'] exI [of _ hs'] exI [of _ tls']) simp
qed

lemma readied_sel:
  assumes "readied X now s s'"
  shows "length (tasks s') = length (tasks s)" "current s' = current s"
    "retired_stacks s' = retired_stacks s" "retired_count s' = retired_count s"
    "slot_generations s' = slot_generations s" "reservations s' = reservations s"
    "time_slice_pending s' = time_slice_pending s" "time_slice_deadline s' = time_slice_deadline s"
    "pending_switch s' = pending_switch s" "next_switch_sequence s' = next_switch_sequence s"
    "last_consumed_switch_sequence s' = last_consumed_switch_sequence s" "started s' = started s"
    "diagnostics s' = diagnostics s" "sem_mem s' = sem_mem s" "mutex_mem s' = mutex_mem s"
  using assms by (auto simp: readied_def)

lemma readied_task:
  assumes "readied X now s s'" "j < length (tasks s)"
  shows "\<exists>n. tasks s' ! j = (if j \<in> X then ready_mark now (tasks s ! j) else tasks s ! j)\<lparr>t_next := n\<rparr>"
  using assms unfolding readied_def by (elim exE conjE) simp

lemma readied_blocked:
  assumes "readied X now s s'" "j < length (tasks s)" "j \<notin> X" "state_of s j = Blocked"
  shows "tasks s' ! j = tasks s ! j"
  using assms unfolding readied_def by (elim exE conjE) simp

lemma readied_fields:
  assumes "readied X now s s'" "j < length (tasks s)"
  shows "t_state (tasks s' ! j) = (if j \<in> X then Ready else t_state (tasks s ! j))"
    "t_priority (tasks s' ! j) = t_priority (tasks s ! j)"
    "t_budget (tasks s' ! j) = t_budget (tasks s ! j)"
    "t_saved_frame (tasks s' ! j) = t_saved_frame (tasks s ! j)"
    "t_identity_generation (tasks s' ! j) = t_identity_generation (tasks s ! j)"
    "t_resume_generation (tasks s' ! j) = t_resume_generation (tasks s ! j)"
    "t_scheduler_lock_depth (tasks s' ! j) = t_scheduler_lock_depth (tasks s ! j)"
    "t_run_policy (tasks s' ! j) = t_run_policy (tasks s ! j)"
  using readied_task [OF assms] by (auto simp: ready_mark_def)

subsection \<open>Scheduling decisions\<close>

lemma any_ready_below_run:
  assumes "ready_rep s Q" "length (ready_head s) = PRIORITY_LEVELS" "\<forall>p \<in> set ps. p < PRIORITY_LEVELS"
  shows "any_ready_below ps s = Some (\<exists>p \<in> set ps. Q p \<noteq> [])"
  using assms(3)
proof (induction ps)
  case Nil
  then show ?case by simp
next
  case (Cons p ps)
  then have "ready_head s ! p = (if Q p = [] then NIL else hd (Q p))" "p < PRIORITY_LEVELS"
    using chain_head [OF ready_repD(1) [OF assms(1)]] by auto
  moreover have "hd (Q p) \<noteq> NIL" if "Q p \<noteq> []"
    using ready_repD(3) [OF assms(1) \<open>p < PRIORITY_LEVELS\<close>] hd_in_set [OF that] slot_not_NIL by auto
  ultimately show ?case using Cons assms(2) by auto
qed

definition wants_switch :: "bool \<Rightarrow> sched \<Rightarrow> (nat \<Rightarrow> nat list) \<Rightarrow> bool" where
  "wants_switch allow_equal s Q \<longleftrightarrow> state_of s (current s) = Running
     \<and> t_scheduler_lock_depth (tasks s ! current s) = 0
     \<and> (if current s = IDLE_SLOT then queued Q \<noteq> {}
        else is_preemptive (t_run_policy (tasks s ! current s))
          \<and> (\<exists>i \<in> queued Q. prio_of s i < prio_of s (current s)
               \<or> allow_equal \<and> prio_of s i = prio_of s (current s)))"

lemma front_is_best:
  assumes "ready_rep s Q" "first_bucket Q = Some p" "i \<in> queued Q"
  shows "p \<le> prio_of s i" "prio_of s (hd (Q p)) = p"
proof -
  note b = first_bucket_Some [OF assms(2)]
  show "prio_of s (hd (Q p)) = p" using ready_repD(4) [OF assms(1) b(1)] hd_in_set [OF b(2)] by blast
  from assms(3) obtain p' where p': "p' < PRIORITY_LEVELS" "i \<in> set (Q p')" by (auto simp: queued_iff)
  then have "prio_of s i = p'" using ready_repD(4) [OF assms(1)] by blast
  moreover have "\<not> p' < p" using b(3) [of p'] p' by auto
  ultimately show "p \<le> prio_of s i" by simp
qed

lemma switch_to_front:
  assumes own: "owned_but X s Q" and nopend: "pending_switch s = None" and p: "first_bucket Q = Some p"
    and cur: "state_of s (current s) = Running"
  shows "\<exists>s' Q'. do { (nxt, s) \<leftarrow> ready_pop s; s \<leftarrow> make_ready (current s) now s; Some (nxt, s) } = Some (hd (Q p), s')
    \<and> owned_but (insert (hd (Q p)) X - {current s}) s' Q' \<and> readied {current s} now s s'
    \<and> hd (Q p) \<notin> queued Q' \<and> hd (Q p) \<noteq> current s"
proof -
  note d = owned_butD [OF own] and tg = owned_pop_target [OF own p]
  let ?Q = "Q(p := tl (Q p))"
  from owned_pop [OF own p] obtain s1 where s1: "ready_pop s = Some (hd (Q p), s1)"
    "owned_but (insert (hd (Q p)) X) s1 ?Q" "relinked {hd (Q p)} s s1" "queued ?Q = queued Q - {hd (Q p)}" by blast
  have c: "current s \<noteq> hd (Q p)" using cur tg(2) by auto
  have "current s \<notin> queued ?Q" using d(3) cur s1(4) by auto
  moreover have c1: "current s1 = current s" "pending_target s1 \<noteq> Some (current s)"
    using relinked_sel [OF s1(3)] nopend by (simp_all add: pending_target_def)
  ultimately obtain s2 Q2 where s2: "make_ready (current s) now s1 = Some s2"
    "owned_but (insert (hd (Q p)) X - {current s}) s2 Q2"
    "queued Q2 = (if current s = IDLE_SLOT then queued ?Q else insert (current s) (queued ?Q))"
    "relinked (insert (current s) (queued ?Q)) (mod_task (current s) (ready_mark now) s1) s2"
    using owned_make_ready [OF s1(2) d(9), of now] by blast
  have "readied {current s} now s s2"
  proof (rule readied_make_ready [OF readied_relinked [OF s1(3)] s2(4), simplified])
    show "state_of s (hd (Q p)) \<noteq> Blocked" using tg(2) by simp
    show "j = current s \<or> state_of s1 j \<noteq> Blocked" if "j = current s \<or> j \<in> queued ?Q" for j
      using owned_butD(3) [OF s1(2), of j] that by auto
  qed
  with s1(1) s2(1-3) c c1 s1(4) show ?thesis by (intro exI [of _ s2] exI [of _ Q2]) auto
qed

lemma ready_below_iff:
  assumes "ready_rep s Q" "limit \<le> PRIORITY_LEVELS"
  shows "(\<exists>p \<in> set [0..<limit]. Q p \<noteq> []) \<longleftrightarrow> (\<exists>i \<in> queued Q. prio_of s i < limit)"
proof
  assume "\<exists>p \<in> set [0..<limit]. Q p \<noteq> []"
  then obtain p where p: "p < limit" "Q p \<noteq> []" by auto
  then have "p < PRIORITY_LEVELS" using assms(2) by simp
  with p have "hd (Q p) \<in> queued Q" "prio_of s (hd (Q p)) = p"
    using ready_repD(4) [OF assms(1)] hd_in_set [OF p(2)] by (auto simp: queued_iff)
  with p(1) show "\<exists>i \<in> queued Q. prio_of s i < limit" by (intro bexI [of _ "hd (Q p)"]) simp_all
next
  assume "\<exists>i \<in> queued Q. prio_of s i < limit"
  then obtain i where i: "i \<in> queued Q" "prio_of s i < limit" by auto
  then have "i \<in> set (Q (prio_of s i))" using queued_bucket [OF assms(1)] by blast
  with i(2) show "\<exists>p \<in> set [0..<limit]. Q p \<noteq> []" by (intro bexI [of _ "prio_of s i"]) auto
qed

lemma take_reschedule_target_spec:
  assumes own: "owned_but {} s Q" and nopend: "pending_switch s = None"
  shows "\<not> wants_switch eq s Q \<Longrightarrow> take_reschedule_target eq now s = Some (None, s)"
    and "wants_switch eq s Q \<Longrightarrow> \<exists>p s' Q'. first_bucket Q = Some p
      \<and> take_reschedule_target eq now s = Some (Some (current s, hd (Q p)), s')
      \<and> owned_but {hd (Q p)} s' Q' \<and> readied {current s} now s s'
      \<and> hd (Q p) \<notin> queued Q' \<and> hd (Q p) \<noteq> current s"
proof -
  note d = owned_butD [OF own]
  let ?c = "current s"
  let ?t = "tasks s ! ?c"
  let ?limit = "if eq then Suc (t_priority ?t) else t_priority ?t"
  have pl: "t_priority ?t < PRIORITY_LEVELS" using shape_okD(7) [OF d(1,9)] .
  have lim: "(if eq then sat_add USIZE_MAX (t_priority ?t) 1 else t_priority ?t) = ?limit"
    using pl by (simp add: sat_add_def PRIORITY_LEVELS_def)
  have "?limit \<le> PRIORITY_LEVELS" using pl by auto
  then have any: "any_ready_below [0..<?limit] s = Some (\<exists>i \<in> queued Q. prio_of s i < ?limit)"
    using any_ready_below_run [OF d(2) shape_okD(2) [OF d(1)], of "[0..<?limit]"]
      ready_below_iff [OF d(2), of ?limit] by auto
  have w: "wants_switch eq s Q \<longleftrightarrow> state_of s ?c = Running \<and> t_scheduler_lock_depth ?t = 0
      \<and> (if ?c = IDLE_SLOT then queued Q \<noteq> {}
         else is_preemptive (t_run_policy ?t) \<and> (\<exists>i \<in> queued Q. prio_of s i < ?limit))"
    by (auto simp: wants_switch_def less_Suc_eq)
  have empty: "ready_pop s = Some (NIL, s)" if "queued Q = {}"
    using ready_pop_spec(1) [OF d(1,2)] that by (simp add: first_bucket_None)
  show "take_reschedule_target eq now s = Some (None, s)" if "\<not> wants_switch eq s Q"
    using that d(8,9) any empty unfolding w by (auto simp: take_reschedule_target_def lim Let_def)
  assume ws: "wants_switch eq s Q"
  then have "queued Q \<noteq> {}" unfolding w by (auto split: if_splits)
  then obtain p where p: "first_bucket Q = Some p" using first_bucket_None by (cases "first_bucket Q") auto
  from ws have run: "state_of s ?c = Running" by (simp add: wants_switch_def)
  from switch_to_front [OF own nopend p run] obtain s' Q' where
    s': "do { (nxt, s) \<leftarrow> ready_pop s; s \<leftarrow> make_ready (current s) now s; Some (nxt, s) } = Some (hd (Q p), s')"
      "owned_but (insert (hd (Q p)) {} - {?c}) s' Q'" "readied {?c} now s s'" "hd (Q p) \<notin> queued Q'"
      "hd (Q p) \<noteq> ?c" by blast
  from s'(1) obtain s1 where s1: "ready_pop s = Some (hd (Q p), s1)" "make_ready (current s1) now s1 = Some s'"
    by (auto simp: bind_eq_Some)
  obtain s1' where "ready_pop s = Some (hd (Q p), s1')" "relinked {hd (Q p)} s s1'"
    using owned_pop [OF own p] by blast
  with s1 have c1: "current s1 = ?c" by (simp add: relinked_sel)
  have n: "hd (Q p) \<noteq> NIL" using owned_pop_target(1) [OF own p] slot_not_NIL by blast
  have "take_reschedule_target eq now s = Some (Some (?c, hd (Q p)), s')"
    using ws d(8,9) any s1 c1 n unfolding w by (auto simp: take_reschedule_target_def lim Let_def)
  moreover have "owned_but {hd (Q p)} s' Q'" using s'(2) owned_but_mono by blast
  ultimately show "\<exists>p s' Q'. first_bucket Q = Some p
      \<and> take_reschedule_target eq now s = Some (Some (current s, hd (Q p)), s')
      \<and> owned_but {hd (Q p)} s' Q' \<and> readied {current s} now s s'
      \<and> hd (Q p) \<notin> queued Q' \<and> hd (Q p) \<noteq> current s"
    using p s'(3-5) by blast
qed

subsection \<open>The trap\<close>

text \<open>What every task needs for a switch to it: a sound quota and, off the processor, a frame.\<close>

definition budgets_ok :: "sched \<Rightarrow> bool" where
  "budgets_ok s \<longleftrightarrow> (\<forall>i < TASK_SLOT_COUNT. budget_inv (t_budget (tasks s ! i)))"

definition frames_ok :: "sched \<Rightarrow> bool" where
  "frames_ok s \<longleftrightarrow> state_of s IDLE_SLOT \<noteq> Free \<and>
     (\<forall>i < TASK_SLOT_COUNT. i \<noteq> current s \<and> state_of s i \<noteq> Free \<longrightarrow> t_saved_frame (tasks s ! i) \<noteq> 0)"

definition ticket_ok :: "sched \<Rightarrow> bool" where
  "ticket_ok s \<longleftrightarrow> (\<forall>p. pending_switch s = Some p \<longrightarrow>
     task_ref_is_current (ps_previous p) s \<and> last_consumed_switch_sequence s < ps_sequence p)"

lemma account_switch_spec:
  assumes len: "length (tasks s) = TASK_SLOT_COUNT" and pn: "previous < TASK_SLOT_COUNT" "nxt < TASK_SLOT_COUNT"
    and b: "budgets_ok s" and now: "now \<le> U64_MAX"
  shows "\<exists>s'. account_switch previous nxt now s = Some s' \<and> same_view s s' \<and> budgets_ok s'
    \<and> started s' = started s
    \<and> last_consumed_switch_sequence s' = last_consumed_switch_sequence s
    \<and> (\<forall>i < TASK_SLOT_COUNT. t_saved_frame (tasks s' ! i) = t_saved_frame (tasks s ! i))"
proof -
  let ?s1 = "mod_task previous (\<lambda>t. t\<lparr>t_budget := budget_on_switch_out now (t_budget t)\<rparr>) s"
  have at1: "tasks ?s1 ! i = (if i = previous then (tasks s ! i)\<lparr>t_budget :=
      budget_on_switch_out now (t_budget (tasks s ! i))\<rparr> else tasks s ! i)" for i
    using len pn by (simp add: mod_task_at)
  have b1: "budgets_ok ?s1"
    using b pn unfolding budgets_ok_def by (auto simp: at1 budget_on_switch_out_inv)
  then have "budget_inv (t_budget (tasks ?s1 ! nxt))" using pn by (simp add: budgets_ok_def)
  from budget_on_dispatch_inv [OF this now] obtain bd where
    bd: "budget_on_dispatch now (t_budget (tasks ?s1 ! nxt)) = Some bd" "budget_inv bd" by blast
  let ?s2 = "mod_task nxt (\<lambda>t. t\<lparr>t_budget := bd\<rparr>) ?s1"
  let ?s3 = "mod_task previous (\<lambda>t. t\<lparr>t_metrics := metrics_on_switch_out now (t_metrics t)\<rparr>) ?s2"
  let ?s4 = "mod_task nxt (\<lambda>t. t\<lparr>t_metrics := metrics_on_dispatch now (t_metrics t)\<rparr>) ?s3"
  have run: "account_switch previous nxt now s = Some (?s4\<lparr>time_slice_deadline := 0\<rparr>)"
    using len pn bd(1) by (simp add: account_switch_def)
  have b2: "budgets_ok ?s2" using b1 bd(2) len pn unfolding budgets_ok_def by (auto simp: mod_task_at)
  have b4: "budgets_ok (?s4\<lparr>time_slice_deadline := 0\<rparr>)"
    using b2 len pn unfolding budgets_ok_def by (auto simp: mod_task_at [of _ ?s2] mod_task_at [of _ ?s3])
  have view: "same_view s (?s4\<lparr>time_slice_deadline := 0\<rparr>)"
    unfolding same_view_fields by (intro same_view_mod_task same_view_refl) simp_all
  have "t_saved_frame (tasks ?s4 ! i) = t_saved_frame (tasks s ! i)" for i
    using len pn by (simp add: mod_task_at)
  with run b4 view show ?thesis by (intro exI [of _ "?s4\<lparr>time_slice_deadline := 0\<rparr>"]) simp
qed

lemma trap_switch_spec:
  assumes own: "owned_but {nxt} s Q" and nopend: "pending_switch s = None"
    and pn: "previous < TASK_SLOT_COUNT" "nxt < TASK_SLOT_COUNT" "nxt \<notin> queued Q"
    and idle: "\<And>i. i < TASK_SLOT_COUNT \<Longrightarrow> state_of s i \<noteq> Running"
    and b: "budgets_ok s" and now: "now \<le> U64_MAX"
    and cur: "previous = current s" and fr: "frames_ok s" "frame \<noteq> 0"
    and target: "state_of s nxt \<noteq> Free"
  shows "\<exists>f s'. trap_switch previous nxt frame ts cp now s = Some (f, s') \<and> f \<noteq> 0
    \<and> owned_but {} s' Q \<and> current s' = nxt \<and> state_of s' nxt = Running
    \<and> pending_switch s' = None \<and> budgets_ok s' \<and> frames_ok s'"
proof -
  note d = owned_butD [OF own]
  from account_switch_spec [OF d(8) pn(1,2) b now] obtain s1 where
    s1: "account_switch previous nxt now s = Some s1" "same_view s s1" "budgets_ok s1"
      "\<forall>i < TASK_SLOT_COUNT. t_saved_frame (tasks s1 ! i) = t_saved_frame (tasks s ! i)" by blast
  note v = s1(2) [unfolded same_view_def]
  have len1: "length (tasks s1) = TASK_SLOT_COUNT" using v d(8) by simp
  have st1: "state_of s1 i = state_of s i" if "i < TASK_SLOT_COUNT" for i using v that d(8) by simp
  define s2 where "s2 = (if state_of s1 previous \<noteq> Free
    then mod_task previous (\<lambda>t. t\<lparr>t_saved_frame := frame\<rparr>) s1 else s1)"
  have view2: "same_view s s2" using s1(2) by (simp add: s2_def same_view_mod_task)
  have own2: "owned_but {nxt} s2 Q" by (rule owned_but_view [OF own view2])
  have len2: "length (tasks s2) = TASK_SLOT_COUNT" using len1 by (simp add: s2_def)
  have frames2: "t_saved_frame (tasks s2 ! i) =
      (if i = previous \<and> state_of s i \<noteq> Free then frame else t_saved_frame (tasks s ! i))"
    if "i < TASK_SLOT_COUNT" for i
    using that s1(4) st1 pn len1 by (auto simp: s2_def mod_task_at)
  have nf: "t_saved_frame (tasks s2 ! nxt) \<noteq> 0"
    using frames2 [OF pn(2)] fr target cur pn(2) by (auto simp: frames_ok_def)
  let ?f = "\<lambda>t. t\<lparr>t_saved_frame := 0, t_state := Running, t_resume_generation := t_resume_generation t + 1\<rparr>"
  let ?s3 = "(mod_task nxt ?f s2)\<lparr>current := nxt\<rparr>"
  have view23: "state_of s2 i = state_of s i" if "i < TASK_SLOT_COUNT" for i
    using view2 that d(8) unfolding same_view_def by simp
  have pl: "t_priority (?f (tasks s2 ! nxt)) < PRIORITY_LEVELS"
    using shape_okD(7) [OF owned_butD(1) [OF own2] pn(2)] by simp
  have np2: "pending_switch s2 = None" using view2 nopend unfolding same_view_def by simp
  have alone: "i = nxt" if "i < TASK_SLOT_COUNT" "state_of s2 i = Running" for i
    using that view23 idle by simp
  note disp = owned_dispatch [where f = ?f, OF own2 np2 pn(2,3) pl _ alone]
  have step2: "(if t_state (tasks s1 ! previous) \<noteq> Free
      then upd_task previous (\<lambda>t. t\<lparr>t_saved_frame := frame\<rparr>) s1 else Some s1) = Some s2"
    using pn(1) len1 by (simp add: s2_def)
  define g where "g = (\<lambda>d :: diagnostics. if ts \<and> t_priority (tasks s2 ! nxt) = cp
    then d\<lparr>d_context_switches := bump32 (d_context_switches d), d_irq_preemptions := bump32 (d_irq_preemptions d),
           d_time_slice_preemptions := bump32 (d_time_slice_preemptions d)\<rparr>
    else d\<lparr>d_context_switches := bump32 (d_context_switches d), d_irq_preemptions := bump32 (d_irq_preemptions d)\<rparr>)"
  have run: "trap_switch previous nxt frame ts cp now s
      = Some (t_saved_frame (tasks s2 ! nxt), (diag g ?s3)\<lparr>time_slice_pending := False\<rparr>)"
    using s1(1) pn len1 len2 nf step2 unfolding trap_switch_def
    by (simp add: Let_def diag_def g_def)
  let ?s4 = "(diag g ?s3)\<lparr>time_slice_pending := False\<rparr>"
  have "same_view ?s3 ?s4" unfolding same_view_fields same_view_diag by (rule same_view_refl)
  moreover have "owned_but ({nxt} - {nxt}) ?s3 Q" by (rule disp(1)) simp
  ultimately have "owned_but ({nxt} - {nxt}) ?s4 Q" using owned_but_view by blast
  then have own4: "owned_but {} ?s4 Q" unfolding Diff_cancel .
  have at4: "tasks ?s4 ! i = (if i = nxt then ?f (tasks s2 ! nxt) else tasks s2 ! i)" for i
    using len2 pn(2) by (simp add: mod_task_at)
  have bud2: "t_budget (tasks s2 ! i) = t_budget (tasks s1 ! i)" for i
    using pn len1 by (simp add: s2_def mod_task_at)
  have "budgets_ok ?s4" using s1(3) bud2 unfolding budgets_ok_def at4 by auto
  moreover have "frames_ok ?s4"
    unfolding frames_ok_def at4 using frames2 view23 fr cur by (auto simp: frames_ok_def TASK_SLOT_COUNT_eq IDLE_SLOT_def)
  moreover have "state_of ?s4 nxt = Running" "pending_switch ?s4 = None" "current ?s4 = nxt"
    using np2 at4 [of nxt] by simp_all
  ultimately show ?thesis using run nf own4 by blast
qed

definition trap_inv :: "sched \<Rightarrow> (nat \<Rightarrow> nat list) \<Rightarrow> bool" where
  "trap_inv s Q \<longleftrightarrow> owned_but {} s Q \<and> budgets_ok s \<and> frames_ok s \<and> ticket_ok s"

text \<open>The task the trap must run next.\<close>

definition next_task :: "sched \<Rightarrow> (nat \<Rightarrow> nat list) \<Rightarrow> nat" where
  "next_task s Q =
     (case pending_target s of
        Some target \<Rightarrow> target
      | None \<Rightarrow>
          if state_of s (current s) \<noteq> Running
          then (case first_bucket Q of Some p \<Rightarrow> hd (Q p) | None \<Rightarrow> IDLE_SLOT)
          else if wants_switch (time_slice_pending s) s Q
          then (case first_bucket Q of Some p \<Rightarrow> hd (Q p) | None \<Rightarrow> IDLE_SLOT)
          else current s)"

lemma consume_pending_spec:
  assumes inv: "trap_inv s Q" and p: "pending_switch s = Some p"
  shows "\<exists>s'. consume_pending_switch s = Some (Some (current s, ref_slot (ps_target p)), s')
    \<and> owned_but {ref_slot (ps_target p)} s' Q \<and> pending_switch s' = None \<and> current s' = current s
    \<and> tasks s' = tasks s"
proof -
  have own: "owned_but {} s Q" and tk: "task_ref_is_current (ps_previous p) s"
    "last_consumed_switch_sequence s < ps_sequence p"
    using inv p by (auto simp: trap_inv_def ticket_ok_def)
  note d = owned_butD [OF own]
  note pk = d(6) [OF p, unfolded pending_ok_def]
  let ?s = "diag (\<lambda>d. d\<lparr>d_switch_intents_completed := bump32 (d_switch_intents_completed d)\<rparr>)
    (s\<lparr>pending_switch := None, last_consumed_switch_sequence := ps_sequence p\<rparr>)"
  have run: "consume_pending_switch s = Some (Some (current s, ref_slot (ps_target p)), ?s)"
    using p tk pk by (simp add: consume_pending_switch_def task_ref_is_current_iff Let_def)
  have "ready_rep ?s Q" using d(2) by (simp add: ready_rep_def bucket_ok_def)
  moreover have "shape_ok ?s" using d(1) by (simp add: shape_ok_def)
  moreover have "i \<in> queued Q" if "i < TASK_SLOT_COUNT" "state_of s i = Ready" "i \<noteq> IDLE_SLOT"
    "i \<noteq> ref_slot (ps_target p)" for i
    using d(5) [OF that(1-3)] that(4) p by (auto simp: pending_target_def)
  ultimately have "owned_but {ref_slot (ps_target p)} ?s Q"
    using d(3,4,7) by (intro owned_butI) auto
  with run show ?thesis by (intro exI [of _ ?s]) simp
qed

lemma pop_or_idle_spec:
  assumes own: "owned_but {} s Q" and nopend: "pending_switch s = None"
  shows "\<exists>n s' Q'. ready_pop_or_idle s = Some (n, s') \<and> n = (case first_bucket Q of Some p \<Rightarrow> hd (Q p) | None \<Rightarrow> IDLE_SLOT)
    \<and> owned_but {n} s' Q' \<and> n \<notin> queued Q' \<and> n < TASK_SLOT_COUNT \<and> relinked {n} s s'
    \<and> (n \<noteq> IDLE_SLOT \<longrightarrow> state_of s n = Ready)"
proof (cases "first_bucket Q")
  case None
  note d = owned_butD [OF own]
  have "ready_pop s = Some (NIL, s)" using ready_pop_spec(1) [OF d(1,2) None] .
  moreover have "owned_but {IDLE_SLOT} s Q" using owned_but_mono [OF own] by simp
  ultimately show ?thesis using None d(4)
    by (intro exI [of _ IDLE_SLOT] exI [of _ s] exI [of _ Q]) (auto simp: ready_pop_or_idle_def)
next
  case (Some p)
  note tg = owned_pop_target [OF own Some]
  from owned_pop [OF own Some] obtain s' where s': "ready_pop s = Some (hd (Q p), s')"
    "owned_but {hd (Q p)} s' (Q(p := tl (Q p)))" "relinked {hd (Q p)} s s'"
    "queued (Q(p := tl (Q p))) = queued Q - {hd (Q p)}" by blast
  have "hd (Q p) \<noteq> NIL" using tg(1) slot_not_NIL by blast
  with s' tg Some show ?thesis
    by (intro exI [of _ "hd (Q p)"] exI [of _ s'] exI [of _ "Q(p := tl (Q p))"])
      (auto simp: ready_pop_or_idle_def)
qed

lemma trap_dispatches:
  assumes own: "owned_but {n} s1 Q1" and n: "n < TASK_SLOT_COUNT" "n \<notin> queued Q1" "state_of s1 n \<noteq> Free"
    and np: "pending_switch s1 = None" and cur: "current s1 = current s"
    and quiet: "\<And>i. i < TASK_SLOT_COUNT \<Longrightarrow> state_of s1 i \<noteq> Running"
    and inv: "trap_inv s Q" and now: "now \<le> U64_MAX" "frame \<noteq> 0"
    and keep: "\<And>i. i < TASK_SLOT_COUNT \<Longrightarrow> t_budget (tasks s1 ! i) = t_budget (tasks s ! i)
      \<and> t_saved_frame (tasks s1 ! i) = t_saved_frame (tasks s ! i)
      \<and> (state_of s1 i = Free \<longleftrightarrow> state_of s i = Free)"
  shows "\<exists>f s' Q'. trap_switch (current s) n frame ts cp now s1 = Some (f, s') \<and> f \<noteq> 0
    \<and> trap_inv s' Q' \<and> owned s' Q' \<and> current s' = n \<and> state_of s' n = Running \<and> pending_switch s' = None"
proof -
  have c: "current s < TASK_SLOT_COUNT" using inv owned_butD(9) by (auto simp: trap_inv_def)
  have b: "budgets_ok s1" using inv keep by (simp add: trap_inv_def budgets_ok_def)
  have "state_of s1 IDLE_SLOT \<noteq> Free" using inv keep [of IDLE_SLOT] by (simp add: trap_inv_def frames_ok_def)
  then have f: "frames_ok s1" using inv keep cur unfolding trap_inv_def frames_ok_def by simp
  from trap_switch_spec [OF own np c n(1,2) quiet b now(1) cur [symmetric] f now(2) n(3), of ts cp]
  obtain fr s' where s': "trap_switch (current s) n frame ts cp now s1 = Some (fr, s')" "fr \<noteq> 0"
    "owned_but {} s' Q1" "current s' = n" "state_of s' n = Running" "pending_switch s' = None"
    "budgets_ok s'" "frames_ok s'" by blast
  then have "trap_inv s' Q1" "owned s' Q1" by (auto simp: trap_inv_def ticket_ok_def owned_def)
  with s' show ?thesis by blast
qed

text \<open>
  What the trap does with the task it picked. It picks the target of the pending switch, the best task
  when the current one does not run, or the task that preempts it.
\<close>

lemma schedule_from_trap_run:
  assumes "owned_but {} s Q" "started s"
  shows "schedule_from_trap frame 0 now s = do {
      (target, s1) \<leftarrow> (if pending_switch s \<noteq> None then consume_pending_switch s
         else if state_of s (current s) \<noteq> Running then do { (nxt, s1) \<leftarrow> ready_pop_or_idle s; Some (Some (current s, nxt), s1) }
         else take_reschedule_target (time_slice_pending s) now s);
      (case target of None \<Rightarrow> Some (frame, s1)
       | Some (previous, n) \<Rightarrow> trap_switch previous n frame (time_slice_pending s) (prio_of s (current s)) now s1) }"
  using assms(2) owned_butD(8,9) [OF assms(1)] by (simp add: schedule_from_trap_def Let_def)

abbreviation dispatched :: "sched \<Rightarrow> (nat \<Rightarrow> nat list) \<Rightarrow> (nat \<times> sched) option \<Rightarrow> bool" where
  "dispatched s Q r \<equiv> \<exists>f s' Q'. r = Some (f, s') \<and> f \<noteq> 0 \<and> owned s' Q' \<and> trap_inv s' Q' \<and> pending_switch s' = None
    \<and> current s' = next_task s Q \<and> state_of s' (current s') = Running"

lemma trap_takes_pending:
  assumes inv: "trap_inv s Q" and p: "pending_switch s = Some p" and now: "now \<le> U64_MAX" "frame \<noteq> 0"
  shows "\<exists>s1. consume_pending_switch s = Some (Some (current s, next_task s Q), s1)
    \<and> dispatched s Q (trap_switch (current s) (next_task s Q) frame ts pr now s1)"
proof -
  have own: "owned_but {} s Q" using inv by (simp add: trap_inv_def)
  note d = owned_butD [OF own]
  have nt: "next_task s Q = ref_slot (ps_target p)" using p by (simp add: next_task_def pending_target_def)
  have pk: "next_task s Q < TASK_SLOT_COUNT" "next_task s Q \<notin> queued Q" "state_of s (next_task s Q) = Ready" "state_of s (current s) \<noteq> Running"
    using d(6) [OF p] d(8) unfolding nt by (auto simp: pending_ok_def task_ref_is_current_iff)
  from consume_pending_spec [OF inv p] obtain s1 where
    s1: "consume_pending_switch s = Some (Some (current s, next_task s Q), s1)" "owned_but {next_task s Q} s1 Q"
      "pending_switch s1 = None" "current s1 = current s" "tasks s1 = tasks s" unfolding nt by blast
  have quiet: "state_of s1 i \<noteq> Running" if "i < TASK_SLOT_COUNT" for i
    using d(7) [OF that] pk(4) s1(5) by auto
  from trap_dispatches [OF s1(2) pk(1,2) _ s1(3,4) quiet inv now, of ts pr] s1(5) pk(3)
  have "dispatched s Q (trap_switch (current s) (next_task s Q) frame ts pr now s1)" by auto
  with s1(1) show ?thesis by blast
qed

lemma trap_takes_best:
  assumes inv: "trap_inv s Q" and c: "pending_switch s = None" "state_of s (current s) \<noteq> Running" and now: "now \<le> U64_MAX" "frame \<noteq> 0"
  shows "\<exists>s1. ready_pop_or_idle s = Some (next_task s Q, s1) \<and> current s1 = current s
    \<and> dispatched s Q (trap_switch (current s) (next_task s Q) frame ts pr now s1)"
proof -
  have own: "owned_but {} s Q" and fr: "frames_ok s" using inv by (auto simp: trap_inv_def)
  note d = owned_butD [OF own]
  from pop_or_idle_spec [OF own c(1)] obtain n s1 Q1 where
    s1: "ready_pop_or_idle s = Some (n, s1)" "n = (case first_bucket Q of Some p \<Rightarrow> hd (Q p) | None \<Rightarrow> IDLE_SLOT)"
      "owned_but {n} s1 Q1" "n \<notin> queued Q1" "n < TASK_SLOT_COUNT" "relinked {n} s s1"
      "n \<noteq> IDLE_SLOT \<longrightarrow> state_of s n = Ready" by blast
  note sel = relinked_sel [OF s1(6)] and fl = relinked_fields [OF s1(6)]
  have quiet: "state_of s1 i \<noteq> Running" if "i < TASK_SLOT_COUNT" for i
    using d(7) [OF that] c(2) fl(4) [of i] that d(8) by auto
  have alive: "state_of s1 n \<noteq> Free" using s1(5,7) fr fl(4) [of n] d(8) by (auto simp: frames_ok_def)
  have nt: "next_task s Q = n" using c s1(2) by (simp add: next_task_def pending_target_def)
  from trap_dispatches [OF s1(3,5,4) alive _ _ quiet inv now, of ts pr] sel fl d(8) c(1)
  have "dispatched s Q (trap_switch (current s) n frame ts pr now s1)" unfolding nt by auto
  with s1(1) sel nt show ?thesis by auto
qed

lemma trap_preempts:
  assumes inv: "trap_inv s Q" and c: "pending_switch s = None" "state_of s (current s) = Running"
    and ws: "wants_switch (time_slice_pending s) s Q" and now: "now \<le> U64_MAX" "frame \<noteq> 0"
  shows "\<exists>s1. take_reschedule_target (time_slice_pending s) now s = Some (Some (current s, next_task s Q), s1)
    \<and> dispatched s Q (trap_switch (current s) (next_task s Q) frame ts pr now s1)"
proof -
  have own: "owned_but {} s Q" using inv by (simp add: trap_inv_def)
  note d = owned_butD [OF own]
  from take_reschedule_target_spec(2) [OF own c(1) ws] obtain p s1 Q1 where
    s1: "first_bucket Q = Some p" "take_reschedule_target (time_slice_pending s) now s = Some (Some (current s, hd (Q p)), s1)"
      "owned_but {hd (Q p)} s1 Q1" "readied {current s} now s s1" "hd (Q p) \<notin> queued Q1" "hd (Q p) \<noteq> current s" by blast
  note tg = owned_pop_target [OF own s1(1)] and sel = readied_sel [OF s1(4)] and fl = readied_fields [OF s1(4)]
  have quiet: "state_of s1 i \<noteq> Running" if "i < TASK_SLOT_COUNT" for i
    using d(7) [OF that] fl(1) [of i] that d(8) by (auto split: if_splits)
  have alive: "state_of s1 (hd (Q p)) \<noteq> Free" using tg(1,2) fl(1) d(8) by simp
  have nt: "next_task s Q = hd (Q p)" using c ws s1(1) by (simp add: next_task_def pending_target_def)
  have keep: "t_budget (tasks s1 ! i) = t_budget (tasks s ! i)
      \<and> t_saved_frame (tasks s1 ! i) = t_saved_frame (tasks s ! i)
      \<and> (state_of s1 i = Free \<longleftrightarrow> state_of s i = Free)" if "i < TASK_SLOT_COUNT" for i
    using fl [of i] that d(8) c(2) by simp
  have np: "pending_switch s1 = None" using sel(9) c(1) by simp
  from trap_dispatches [OF s1(3) tg(1) s1(5) alive np sel(2) quiet inv now keep, of ts pr]
  have "dispatched s Q (trap_switch (current s) (hd (Q p)) frame ts pr now s1)" unfolding nt by auto
  with s1(2) nt show ?thesis by auto
qed

lemma trap_dispatch_spec:
  assumes "trap_inv s Q" "started s" "now \<le> U64_MAX" "frame \<noteq> 0"
  shows "dispatched s Q (schedule_from_trap frame 0 now s)"
proof -
  have own: "owned_but {} s Q" using assms(1) by (simp add: trap_inv_def)
  note run = schedule_from_trap_run [OF own assms(2), of frame now]
  consider (pending) p where "pending_switch s = Some p"
    | (best) "pending_switch s = None" "state_of s (current s) \<noteq> Running"
    | (preempt) "pending_switch s = None" "state_of s (current s) = Running" "wants_switch (time_slice_pending s) s Q"
    | (stay) "pending_switch s = None" "state_of s (current s) = Running" "\<not> wants_switch (time_slice_pending s) s Q" by (cases "pending_switch s") auto
  then show ?thesis
  proof cases
    case pending
    from trap_takes_pending [OF assms(1) pending assms(3,4), of "time_slice_pending s" "prio_of s (current s)"] run pending
    show ?thesis by fastforce
  next
    case best
    from trap_takes_best [OF assms(1) best assms(3,4), of "time_slice_pending s" "prio_of s (current s)"] run best
    show ?thesis by fastforce
  next
    case preempt
    from trap_preempts [OF assms(1) preempt assms(3,4), of "time_slice_pending s" "prio_of s (current s)"] run preempt
    show ?thesis by fastforce
  next
    case stay
    have "schedule_from_trap frame 0 now s = Some (frame, s)"
      using run stay take_reschedule_target_spec(1) [OF own stay(1,3)] by simp
    moreover have "owned s Q" using own stay by (simp add: owned_def)
    moreover have "next_task s Q = current s" using stay by (simp add: next_task_def pending_target_def)
    ultimately show ?thesis using assms(1,4) stay by auto
  qed
qed


text \<open>A small scheduler: the blocked current task 0, the idle task, and task 3 in the ready queue.\<close>

definition demo :: sched where
  "demo = (mod_task 3 (\<lambda>t. t\<lparr>t_saved_frame := 4096, t_identity_generation := 1\<rparr>)
     (mod_task 1 (\<lambda>t. t\<lparr>t_state := Ready, t_saved_frame := 8192, t_identity_generation := 1\<rparr>)
       (mod_task 0 (\<lambda>t. t\<lparr>t_state := Blocked, t_identity_generation := 1\<rparr>) one_ready)))\<lparr>started := True\<rparr>"

definition demo_queue :: "nat \<Rightarrow> nat list" where
  "demo_queue p = (if p = 31 then [3] else [])"

lemma demo_sel:
  "length (tasks demo) = 17" "current demo = 0" "pending_switch demo = None" "started demo"
  "time_slice_pending demo = False" "last_consumed_switch_sequence demo = 0" "next_switch_sequence demo = 0"
  by (simp_all add: demo_def one_ready_def sched_new_def TASK_SLOT_COUNT_eq)

lemma demo_tasks:
  "tasks demo ! 0 = tcb_empty\<lparr>t_state := Blocked, t_identity_generation := 1\<rparr>"
  "tasks demo ! 1 = tcb_empty\<lparr>t_state := Ready, t_saved_frame := 8192, t_identity_generation := 1\<rparr>"
  "tasks demo ! 3 = tcb_empty\<lparr>t_state := Ready, t_saved_frame := 4096, t_identity_generation := 1\<rparr>"
  "i < 17 \<Longrightarrow> i \<notin> {0, 1, 3} \<Longrightarrow> tasks demo ! i = tcb_empty"
proof -
  have len: "length (tasks (sched_new 8)) = 17" and e: "i < 17 \<Longrightarrow> tasks (sched_new 8) ! i = tcb_empty" for i
    by (simp_all add: sched_new_def TASK_SLOT_COUNT_eq)
  show "tasks demo ! 0 = tcb_empty\<lparr>t_state := Blocked, t_identity_generation := 1\<rparr>"
    "tasks demo ! 1 = tcb_empty\<lparr>t_state := Ready, t_saved_frame := 8192, t_identity_generation := 1\<rparr>"
    "tasks demo ! 3 = tcb_empty\<lparr>t_state := Ready, t_saved_frame := 4096, t_identity_generation := 1\<rparr>"
    "i < 17 \<Longrightarrow> i \<notin> {0, 1, 3} \<Longrightarrow> tasks demo ! i = tcb_empty"
    by (simp_all add: demo_def one_ready_def len mod_task_at e)
qed

lemma demo_queued: "queued demo_queue = {3}" "first_bucket demo_queue = Some 31"
proof -
  show "queued demo_queue = {3}" by (auto simp: queued_def demo_queue_def PRIORITY_LEVELS_def)
  then obtain p where p: "first_bucket demo_queue = Some p"
    using first_bucket_None [of demo_queue] by (cases "first_bucket demo_queue") auto
  with first_bucket_Some(2) [OF p] show "first_bucket demo_queue = Some 31"
    by (simp add: demo_queue_def split: if_splits)
qed

lemma demo_slot: "i < 17 \<Longrightarrow> i = 0 \<or> i = 1 \<or> i = 3 \<or> tasks demo ! i = tcb_empty"
  using demo_tasks(4) [of i] by auto

lemma demo_inv: "trap_inv demo demo_queue"
proof -
  have pr: "t_priority (tasks demo ! i) = 31 \<and> budget_inv (t_budget (tasks demo ! i))" if "i < 17" for i
    using demo_slot [OF that] demo_tasks(1-3) by (auto simp: tcb_empty_def PRIORITY_LEVELS_def)
  have st: "state_of demo i = Ready \<longrightarrow> i = 1 \<or> i = 3" "state_of demo i \<noteq> Running"
    "state_of demo i \<noteq> Free \<and> i \<noteq> 0 \<longrightarrow> t_saved_frame (tasks demo ! i) \<noteq> 0" if "i < 17" for i
    using demo_slot [OF that] demo_tasks(1-3) by (auto simp: tcb_empty_def)
  have sh: "shape_ok demo"
    using demo_sel pr by (auto simp: shape_ok_def demo_def one_ready_def sched_new_def table_sizes)
  have rep: "ready_rep demo demo_queue"
    using demo_tasks(3) by (auto simp: ready_rep_def bucket_ok_def links_def demo_queue_def tcb_empty_def)
      (auto simp: demo_def one_ready_def sched_new_def table_sizes nth_list_update)
  have "owned_but {} demo demo_queue"
    by (rule owned_butI [OF sh rep])
      (use st demo_sel demo_tasks(3) in \<open>auto simp: demo_queued TASK_SLOT_COUNT_eq IDLE_SLOT_def\<close>)
  then show ?thesis
    using pr st demo_sel demo_tasks(2)
    by (auto simp: trap_inv_def budgets_ok_def frames_ok_def ticket_ok_def TASK_SLOT_COUNT_eq IDLE_SLOT_def)
qed


subsection \<open>Switch intents\<close>

lemma diag_diag: "diag f (diag g s) = diag (f \<circ> g) s"
  by (simp add: diag_def)

lemma prepare_switch_intent_spec:
  assumes own: "owned_but X s Q" and nopend: "pending_switch s = None"
    and pt: "previous < TASK_SLOT_COUNT" "target < TASK_SLOT_COUNT"
    and det: "target = previous \<or> target = IDLE_SLOT \<or> (state_of s target = Ready \<and> target \<notin> queued Q)"
    and seq: "next_switch_sequence s < U64_MAX"
  shows "\<exists>s'. prepare_switch_intent previous target s = Some (\<lparr>si_sequence = next_switch_sequence s + 1,
        si_previous = \<lparr>ref_slot = previous, ref_identity_generation = t_identity_generation (tasks s ! previous)\<rparr>,
        si_target = \<lparr>ref_slot = target, ref_identity_generation = t_identity_generation (tasks s ! target)\<rparr>,
        si_previous_resume_generation = t_resume_generation (tasks s ! previous)\<rparr>, s')
    \<and> same_view s s' \<and> tasks s' = tasks s \<and> next_switch_sequence s' = next_switch_sequence s + 1
    \<and> last_consumed_switch_sequence s' = last_consumed_switch_sequence s"
proof -
  note d = owned_butD [OF own]
  have "(if target = previous \<or> target = IDLE_SLOT then Some True
      else do { t \<leftarrow> task_at target s;
        (if t_state t = Ready then do { c \<leftarrow> ready_contains target s; Some (\<not> c) } else Some False) }) = Some True"
    using det pt d(8) owned_contains [OF own, of target] by auto
  then show ?thesis
    using nopend pt d(8) seq
    by (simp add: prepare_switch_intent_def task_ref_of_def Let_def)
qed

lemma restore_detached_spec:
  assumes own: "owned_but {target} s Q" and t: "target < TASK_SLOT_COUNT" and nopend: "pending_switch s = None"
  shows "\<exists>s' Q'. restore_detached_switch_target target s = Some s' \<and> owned_but {} s' Q' \<and> relinked UNIV s s'"
proof -
  note d = owned_butD [OF own]
  have run: "restore_detached_switch_target target s =
      (if target \<noteq> IDLE_SLOT \<and> state_of s target = Ready \<and> target \<notin> queued Q then ready_push target s else Some s)"
    using t d(8) owned_contains [OF own, of target] by (auto simp: restore_detached_switch_target_def)
  have pt: "pending_target s = None" using nopend by (simp add: pending_target_def)
  show ?thesis
  proof (cases "target \<noteq> IDLE_SLOT \<and> state_of s target = Ready \<and> target \<notin> queued Q")
    case True
    with owned_push [OF own t] pt obtain s' where "ready_push target s = Some s'"
      "owned_but ({target} - {target}) s' (Q(prio_of s target := Q (prio_of s target) @ [target]))"
      "relinked (insert target (set (Q (prio_of s target)))) s s'" by auto
    with True run show ?thesis using relinked_mono by auto
  next
    case False
    then have "owned_but {} s Q" using own unfolding owned_but_def by auto
    with False run show ?thesis by auto
  qed
qed

definition committed :: "switch_intent \<Rightarrow> sched \<Rightarrow> sched" where
  "committed intent s = diag (\<lambda>d. d\<lparr>d_switch_intents_committed := bump32 (d_switch_intents_committed d)\<rparr>)
     (s\<lparr>pending_switch := Some \<lparr>ps_sequence = si_sequence intent, ps_previous = si_previous intent,
        ps_target = si_target intent\<rparr>\<rparr>)"

lemma commit_fresh_spec:
  assumes own: "owned_but {ref_slot (si_target intent)} s Q" and nopend: "pending_switch s = None"
    and f: "task_ref_is_current (si_previous intent) s" "task_ref_is_current (si_target intent) s"
      "current s = ref_slot (si_previous intent)" "state_of s (ref_slot (si_previous intent)) \<noteq> Running"
      "t_resume_generation (tasks s ! ref_slot (si_previous intent)) = si_previous_resume_generation intent"
    and det: "state_of s (ref_slot (si_target intent)) = Ready" "ref_slot (si_target intent) \<notin> queued Q"
  shows "commit_switch_intent intent s = Some (True, committed intent s)"
    "owned_but {} (committed intent s) Q" "pending_target (committed intent s) = Some (ref_slot (si_target intent))"
proof -
  note d = owned_butD [OF own]
  let ?s = "committed intent s"
  have "ref_slot (si_previous intent) < TASK_SLOT_COUNT" using f(1) d(8) by (simp add: task_ref_is_current_iff)
  with f d(8) nopend show "commit_switch_intent intent s = Some (True, ?s)"
    unfolding commit_switch_intent_def Let_def committed_def by simp
  show pt: "pending_target ?s = Some (ref_slot (si_target intent))" by (simp add: pending_target_def committed_def)
  show "owned_but {} ?s Q"
  proof (rule owned_butI)
    show "shape_ok ?s" using d(1) by (simp add: shape_ok_def committed_def)
    show "ready_rep ?s Q" using d(2) by (simp add: ready_rep_def bucket_ok_def committed_def)
    show "state_of ?s i = Ready \<and> i \<noteq> IDLE_SLOT" if "i \<in> queued Q" for i
      using d(3,4) [OF that] by (simp add: committed_def)
    show "i \<in> queued Q \<or> pending_target ?s = Some i"
      if "i < TASK_SLOT_COUNT" "state_of ?s i = Ready" "i \<noteq> IDLE_SLOT" "i \<notin> {}" for i
      using d(5) [of i] that pt nopend by (auto simp: pending_target_def committed_def)
    show "pending_ok ?s Q p" if "pending_switch ?s = Some p" for p
      using that f det by (auto simp: pending_ok_def task_ref_is_current_iff committed_def)
    show "i = current ?s" if "i < TASK_SLOT_COUNT" "state_of ?s i = Running" for i
      using d(7) that by (simp add: committed_def)
  qed
qed

text \<open>An intent that is stale in any way is cancelled: its target goes back to the queue.\<close>

lemma commit_stale_run:
  assumes pc: "task_ref_is_current (si_previous intent) s" and tc: "task_ref_is_current (si_target intent) s"
    and len: "length (tasks s) = TASK_SLOT_COUNT" and r: "restore_detached_switch_target (ref_slot (si_target intent)) s = Some s'"
    and stale: "current s \<noteq> ref_slot (si_previous intent) \<or> state_of s (ref_slot (si_previous intent)) = Running
      \<or> t_resume_generation (tasks s ! ref_slot (si_previous intent)) \<noteq> si_previous_resume_generation intent"
  shows "\<exists>g. commit_switch_intent intent s = Some (False, diag g s')"
proof -
  let ?p = "ref_slot (si_previous intent)" and ?t = "ref_slot (si_target intent)"
  have at: "task_at ?p s = Some (tasks s ! ?p)" using pc len by (simp add: task_ref_is_current_iff)
  show ?thesis
  proof (cases "current s = ?p \<and> state_of s ?p = Running")
    case True
    then have "recover_completed_switch_request ?p ?t s = Some (True,
        diag (\<lambda>d. d\<lparr>d_switch_race_recoveries := bump32 (d_switch_race_recoveries d)\<rparr>) s')"
      using at r by (simp add: recover_completed_switch_request_def)
    with True pc tc at have "commit_switch_intent intent s = Some (False,
        diag (\<lambda>d. d\<lparr>d_switch_intents_cancelled_stale := bump32 (d_switch_intents_cancelled_stale d)\<rparr>)
          (diag (\<lambda>d. d\<lparr>d_switch_race_recoveries := bump32 (d_switch_race_recoveries d)\<rparr>) s'))"
      unfolding commit_switch_intent_def Let_def by simp
    then show ?thesis unfolding diag_diag by blast
  next
    case False
    have "commit_switch_intent intent s = Some (False,
        diag (\<lambda>d. d\<lparr>d_switch_intents_cancelled_stale := bump32 (d_switch_intents_cancelled_stale d)\<rparr>) s')"
      unfolding commit_switch_intent_def Let_def using pc tc stale False at r by simp blast
    then show ?thesis by blast
  qed
qed

definition intent_fresh :: "switch_intent \<Rightarrow> sched \<Rightarrow> bool" where
  "intent_fresh intent s \<longleftrightarrow> task_ref_is_current (si_previous intent) s \<and> task_ref_is_current (si_target intent) s
     \<and> current s = ref_slot (si_previous intent)
     \<and> t_resume_generation (tasks s ! current s) = si_previous_resume_generation intent \<and> state_of s (current s) \<noteq> Running"

lemma commit_cancelled:
  assumes own: "owned_but (if task_ref_is_current (si_target intent) s then {ref_slot (si_target intent)} else {}) s Q"
    and nopend: "pending_switch s = None" and stale: "\<not> intent_fresh intent s"
  shows "\<exists>s' Q' g. commit_switch_intent intent s = Some (False, diag g s') \<and> owned_but {} s' Q' \<and> relinked UNIV s s'"
proof -
  note d = owned_butD [OF own]
  let ?t = "ref_slot (si_target intent)"
  let ?pc = "task_ref_is_current (si_previous intent) s" and ?tc = "task_ref_is_current (si_target intent) s"
  have slot: "?tc \<Longrightarrow> ?t < TASK_SLOT_COUNT" using d(8) by (auto simp: task_ref_is_current_iff)
  from restore_detached_spec [of ?t s Q] own slot nopend obtain s' Q' where
    r: "(if ?tc then restore_detached_switch_target ?t s else Some s) = Some s'" "owned_but {} s' Q'" "relinked UNIV s s'"
    by (cases ?tc) auto
  have "\<exists>g. commit_switch_intent intent s = Some (False, diag g s')"
  proof (cases "?pc \<and> ?tc")
    case True
    then have "current s \<noteq> ref_slot (si_previous intent) \<or> state_of s (ref_slot (si_previous intent)) = Running
        \<or> t_resume_generation (tasks s ! ref_slot (si_previous intent)) \<noteq> si_previous_resume_generation intent"
      using stale unfolding intent_fresh_def by metis
    with True r(1) d(8) show ?thesis by (intro commit_stale_run) simp_all
  qed (use r(1) in \<open>auto simp: commit_switch_intent_def\<close>)
  with r show ?thesis by blast
qed

lemma commit_switch_intent_spec:
  assumes own: "owned_but (if task_ref_is_current (si_target intent) s then {ref_slot (si_target intent)} else {}) s Q"
    and nopend: "pending_switch s = None"
    and det: "task_ref_is_current (si_target intent) s \<Longrightarrow>
      state_of s (ref_slot (si_target intent)) = Ready \<and> ref_slot (si_target intent) \<notin> queued Q"
  shows "\<exists>b s' Q'. commit_switch_intent intent s = Some (b, s') \<and> owned_but {} s' Q' \<and> (b \<longleftrightarrow> intent_fresh intent s)
    \<and> pending_target s' = (if b then Some (ref_slot (si_target intent)) else None)
    \<and> (\<not> b \<and> task_ref_is_current (si_target intent) s \<and> ref_slot (si_target intent) \<noteq> IDLE_SLOT \<longrightarrow>
        ready_contains (ref_slot (si_target intent)) s' = Some True)"
proof (cases "intent_fresh intent s")
  case True
  let ?t = "ref_slot (si_target intent)"
  from True have f: "task_ref_is_current (si_previous intent) s" "task_ref_is_current (si_target intent) s"
    "current s = ref_slot (si_previous intent)" "state_of s (ref_slot (si_previous intent)) \<noteq> Running"
    "t_resume_generation (tasks s ! ref_slot (si_previous intent)) = si_previous_resume_generation intent" by (auto simp: intent_fresh_def)
  have "owned_but {?t} s Q" "state_of s ?t = Ready" "?t \<notin> queued Q" using own det f(2) by auto
  from commit_fresh_spec [OF this(1) nopend f this(2,3)] True show ?thesis
    by (intro exI [of _ True] exI [of _ "committed intent s"] exI [of _ Q]) simp
next
  case False
  note d = owned_butD [OF own]
  let ?t = "ref_slot (si_target intent)"
  from commit_cancelled [OF own nopend False] obtain s' Q' g where
    s': "commit_switch_intent intent s = Some (False, diag g s')" "owned_but {} s' Q'" "relinked UNIV s s'" by blast
  have own': "owned_but {} (diag g s') Q'" using owned_but_view [OF s'(2)] by simp
  have np: "pending_target (diag g s') = None" using relinked_sel [OF s'(3)] nopend by (simp add: pending_target_def)
  have "ready_contains ?t (diag g s') = Some True" if tc: "task_ref_is_current (si_target intent) s" and i: "?t \<noteq> IDLE_SLOT"
  proof -
    have tl: "?t < TASK_SLOT_COUNT" using tc d(8) by (auto simp: task_ref_is_current_iff)
    have "state_of (diag g s') ?t = Ready" using det [OF tc] relinked_fields(4) [OF s'(3)] tl d(8) by simp
    then have "?t \<in> queued Q'" using owned_butD(5) [OF own' tl] i np by auto
    then show ?thesis using owned_contains [OF own'] by simp
  qed
  with s'(1) own' np False show ?thesis by (intro exI [of _ False] exI [of _ "diag g s'"] exI [of _ Q']) auto
qed

text \<open>
  A switch intent is never lost: whatever happened since it was prepared, committing it returns.
  If both identities still match and the source has not resumed, the target becomes the pending
  switch; otherwise nothing is pending and a target that is still the same ready task is back in
  the ready queue. In both cases every ready task is in exactly one place again.
\<close>

theorem intent_committed_or_target_restored:
  assumes own: "owned_but (if task_ref_is_current (si_target intent) s then {ref_slot (si_target intent)} else {}) s Q"
    and nopend: "pending_switch s = None"
    and det: "task_ref_is_current (si_target intent) s \<Longrightarrow>
      state_of s (ref_slot (si_target intent)) = Ready \<and> ref_slot (si_target intent) \<notin> queued Q"
  shows "\<exists>b s' Q'. commit_switch_intent intent s = Some (b, s') \<and> owned_but {} s' Q'
    \<and> (b \<longleftrightarrow> task_ref_is_current (si_previous intent) s \<and> task_ref_is_current (si_target intent) s
        \<and> current s = ref_slot (si_previous intent)
        \<and> t_resume_generation (tasks s ! current s) = si_previous_resume_generation intent
        \<and> state_of s (current s) \<noteq> Running)
    \<and> pending_target s' = (if b then Some (ref_slot (si_target intent)) else None)
    \<and> (\<not> b \<and> task_ref_is_current (si_target intent) s \<and> ref_slot (si_target intent) \<noteq> IDLE_SLOT \<longrightarrow>
        ready_contains (ref_slot (si_target intent)) s' = Some True)"
  using commit_switch_intent_spec [OF own nopend det] unfolding intent_fresh_def .

theorem intent_committed_or_target_restored_witness:
  "\<exists>s1 s2 s3 Q'. ready_pop demo = Some (3, s1)
    \<and> prepare_switch_intent 0 3 s1 = Some (\<lparr>si_sequence = 1,
        si_previous = \<lparr>ref_slot = 0, ref_identity_generation = 1\<rparr>,
        si_target = \<lparr>ref_slot = 3, ref_identity_generation = 1\<rparr>,
        si_previous_resume_generation = 0\<rparr>, s2)
    \<and> commit_switch_intent \<lparr>si_sequence = 1,
        si_previous = \<lparr>ref_slot = 0, ref_identity_generation = 1\<rparr>,
        si_target = \<lparr>ref_slot = 3, ref_identity_generation = 1\<rparr>,
        si_previous_resume_generation = 0\<rparr> s2 = Some (True, s3)
    \<and> owned_but {} s3 Q' \<and> pending_target s3 = Some 3"
proof -
  let ?i = "\<lparr>si_sequence = 1, si_previous = \<lparr>ref_slot = 0, ref_identity_generation = 1\<rparr>,
    si_target = \<lparr>ref_slot = 3, ref_identity_generation = 1\<rparr>, si_previous_resume_generation = 0\<rparr>"
  let ?Q = "demo_queue(31 := tl (demo_queue 31))"
  have own: "owned_but {} demo demo_queue" using demo_inv by (simp add: trap_inv_def)
  have hd: "hd (demo_queue 31) = 3" by (simp add: demo_queue_def)
  from owned_pop [OF own demo_queued(2)] obtain s1 where
    s1: "ready_pop demo = Some (3, s1)" "owned_but {3} s1 ?Q" "relinked {3} demo s1" "queued ?Q = {}"
    unfolding hd demo_queued by auto
  note sel = relinked_sel [OF s1(3)] and fl = relinked_fields [OF s1(3)]
  have t: "t_identity_generation (tasks s1 ! 0) = 1" "t_identity_generation (tasks s1 ! 3) = 1"
    "t_resume_generation (tasks s1 ! 0) = 0" "state_of s1 3 = Ready" "state_of s1 0 = Blocked"
    using fl [of 0] fl [of 3] demo_sel(1) demo_tasks(1,3) by (simp_all add: tcb_empty_def)
  have q: "pending_switch s1 = None" "next_switch_sequence s1 = 0" "length (tasks s1) = 17" "current s1 = 0"
    using sel demo_sel by simp_all
  from prepare_switch_intent_spec [OF s1(2) q(1), of 0 3] t q s1(4) obtain s2 where
    s2: "prepare_switch_intent 0 3 s1 = Some (?i, s2)" "same_view s1 s2" "tasks s2 = tasks s1"
    by (auto simp: TASK_SLOT_COUNT_eq)
  have v: "pending_switch s2 = None" "current s2 = 0" "owned_but {3} s2 ?Q"
    using s2(2) q owned_but_view [OF s1(2) s2(2)] by (simp_all add: same_view_def)
  have cur: "task_ref_is_current (si_target ?i) s2" "task_ref_is_current (si_previous ?i) s2"
    using t q s2(3) by (simp_all add: task_ref_is_current_iff)
  have "owned_but (if task_ref_is_current (si_target ?i) s2 then {ref_slot (si_target ?i)} else {}) s2 ?Q"
    using v(3) cur by simp
  from intent_committed_or_target_restored [OF this v(1)] obtain b s3 Q' where
    s3: "commit_switch_intent ?i s2 = Some (b, s3)" "owned_but {} s3 Q'"
      "b \<longleftrightarrow> task_ref_is_current (si_previous ?i) s2 \<and> task_ref_is_current (si_target ?i) s2
        \<and> current s2 = ref_slot (si_previous ?i)
        \<and> t_resume_generation (tasks s2 ! current s2) = si_previous_resume_generation ?i
        \<and> state_of s2 (current s2) \<noteq> Running"
      "pending_target s3 = (if b then Some (ref_slot (si_target ?i)) else None)"
    using t(4) s1(4) s2(3) by auto
  have b using s3(3) cur v(2) t s2(3) by simp
  with s1(1) s2(1) s3 show ?thesis by auto
qed

end
