(* ===== verification/Handoff.thy ===== *)
theory Handoff
  imports Ownership
begin

text \<open>
  Giving up the processor: the decision a blocking task makes under the scheduler's critical
  section, the decision to preempt, and the scheduler lock that forbids it. The lemmas connect
  each decision with the trap that carries it out.
\<close>

subsection \<open>Leaving a blocked task\<close>

text \<open>The front of the ready queue, or the idle task.\<close>

definition best_ready :: "(nat \<Rightarrow> nat list) \<Rightarrow> nat" where
  "best_ready Q = (case first_bucket Q of Some p \<Rightarrow> hd (Q p) | None \<Rightarrow> IDLE_SLOT)"

definition still_away :: "nat \<Rightarrow> 32 word \<Rightarrow> sched \<Rightarrow> bool" where
  "still_away previous g s \<longleftrightarrow> current s = previous \<and> state_of s previous \<noteq> Running
     \<and> t_resume_generation (tasks s ! previous) = g"

lemma trap_inv_relinked:
  assumes "trap_inv s Q" "relinked X s s1" "pending_switch s = None"
  shows "budgets_ok s1" "frames_ok s1"
proof -
  note sel = relinked_sel [OF assms(2)] and fl = relinked_fields [OF assms(2)]
  have len: "length (tasks s) = TASK_SLOT_COUNT" using assms(1) owned_butD(8) by (auto simp: trap_inv_def)
  show "budgets_ok s1" using assms(1) fl len by (simp add: trap_inv_def budgets_ok_def)
  have "state_of s1 IDLE_SLOT = state_of s IDLE_SLOT" using fl(4) len by (simp add: TASK_SLOT_COUNT_eq IDLE_SLOT_def)
  then show "frames_ok s1" using assms(1) fl len sel unfolding trap_inv_def frames_ok_def by simp
qed

lemma switch_away_spec:
  assumes inv: "trap_inv s Q" and nopend: "pending_switch s = None" and idle: "state_of s IDLE_SLOT = Ready"
    and seq: "next_switch_sequence s < U64_MAX" "last_consumed_switch_sequence s \<le> next_switch_sequence s"
    and away: "still_away previous g s"
  shows "\<exists>intent s' Q'. prepare_switch_away_decision previous g True s = Some (Some intent, s')
    \<and> trap_inv s' Q' \<and> pending_target s' = Some (best_ready Q)
    \<and> si_target intent = \<lparr>ref_slot = best_ready Q,
        ref_identity_generation = t_identity_generation (tasks s ! best_ready Q)\<rparr>
    \<and> ref_slot (si_previous intent) = previous \<and> current s' = previous \<and> started s' = started s
    \<and> (\<exists>s1. relinked {best_ready Q} s s1 \<and> tasks s' = tasks s1)
    \<and> sem_mem s' = sem_mem s \<and> mutex_mem s' = mutex_mem s
    \<and> next_switch_sequence s' = next_switch_sequence s + 1
    \<and> last_consumed_switch_sequence s' = last_consumed_switch_sequence s
    \<and> (\<forall>p. pending_switch s' = Some p \<longrightarrow> ps_sequence p = next_switch_sequence s + 1)"
proof -
  have own: "owned_but {} s Q" using inv by (simp add: trap_inv_def)
  note d = owned_butD [OF own]
  from away have cur: "current s = previous" "state_of s previous \<noteq> Running"
    "t_resume_generation (tasks s ! previous) = g" by (auto simp: still_away_def)
  have pl: "previous < TASK_SLOT_COUNT" using d(9) cur(1) by simp
  from pop_or_idle_spec [OF own nopend] obtain n s1 Q1 where
    s1: "ready_pop_or_idle s = Some (n, s1)" "n = best_ready Q" "owned_but {n} s1 Q1" "n \<notin> queued Q1"
      "n < TASK_SLOT_COUNT" "relinked {n} s s1" "n \<noteq> IDLE_SLOT \<longrightarrow> state_of s n = Ready"
    unfolding best_ready_def by blast
  note sel = relinked_sel [OF s1(6)] and fl = relinked_fields [OF s1(6)]
  note d1 = owned_butD [OF s1(3)]
  have n1: "state_of s1 n = Ready" using s1(5,7) idle fl(4) [of n] d(8) by (cases "n = IDLE_SLOT") auto
  have np1: "pending_switch s1 = None" "next_switch_sequence s1 < U64_MAX" using sel nopend seq(1) by simp_all
  let ?i = "\<lparr>si_sequence = next_switch_sequence s1 + 1,
        si_previous = \<lparr>ref_slot = previous, ref_identity_generation = t_identity_generation (tasks s1 ! previous)\<rparr>,
        si_target = \<lparr>ref_slot = n, ref_identity_generation = t_identity_generation (tasks s1 ! n)\<rparr>,
        si_previous_resume_generation = t_resume_generation (tasks s1 ! previous)\<rparr>"
  from prepare_switch_intent_spec [OF s1(3) np1(1) pl s1(5) _ np1(2)] n1 s1(4) obtain s2 where
    s2: "prepare_switch_intent previous n s1 = Some (?i, s2)" "same_view s1 s2" "tasks s2 = tasks s1"
      "last_consumed_switch_sequence s2 = last_consumed_switch_sequence s1" by blast
  have own2: "owned_but {ref_slot (si_target ?i)} s2 Q1" using owned_but_view [OF s1(3) s2(2)] by simp
  have v: "pending_switch s2 = None" "current s2 = previous" "length (tasks s2) = TASK_SLOT_COUNT"
    using s2(2,3) np1 sel cur d1(8) by (simp_all add: same_view_def)
  have fresh: "task_ref_is_current (si_previous ?i) s2" "task_ref_is_current (si_target ?i) s2"
      "current s2 = ref_slot (si_previous ?i)" "state_of s2 (ref_slot (si_previous ?i)) \<noteq> Running"
      "t_resume_generation (tasks s2 ! ref_slot (si_previous ?i)) = si_previous_resume_generation ?i"
      "state_of s2 (ref_slot (si_target ?i)) = Ready" "ref_slot (si_target ?i) \<notin> queued Q1"
    using pl s1(4,5) v s2(3) n1 cur fl [of previous] d(8) by (simp_all add: task_ref_is_current_iff)
  note cm = commit_fresh_spec [OF own2 v(1) fresh]
  let ?s3 = "committed ?i s2"
  have run: "prepare_switch_away_decision previous g True s = Some (Some ?i, ?s3)"
    using cur pl d(8) s1(1) s2(1) cm(1) by (simp add: prepare_switch_away_decision_def)
  have t3: "tasks ?s3 = tasks s1" using s2(3) by (simp add: committed_def)
  have c3: "current ?s3 = current s1" using v(2) sel cur by (simp add: committed_def)
  have "budgets_ok ?s3" using trap_inv_relinked(1) [OF inv s1(6) nopend] t3 by (simp add: budgets_ok_def)
  moreover have "frames_ok ?s3" using trap_inv_relinked(2) [OF inv s1(6) nopend] unfolding frames_ok_def t3 c3 .
  moreover have "ticket_ok ?s3"
    using fresh(1) s2(4) sel seq(2) by (auto simp: ticket_ok_def committed_def task_ref_is_current_iff)
  ultimately have "trap_inv ?s3 Q1" using cm(2) by (simp add: trap_inv_def)
  moreover have "t_identity_generation (tasks s1 ! n) = t_identity_generation (tasks s ! n)"
    using fl s1(5) d(8) by simp
  moreover have "started ?s3 = started s"
    using s2(1) sel by (auto simp: committed_def prepare_switch_intent_def bind_eq_Some Let_def)
  moreover have "\<exists>s1. relinked {best_ready Q} s s1 \<and> tasks ?s3 = tasks s1" using s1(2,6) t3 by blast
  moreover have "sem_mem ?s3 = sem_mem s" "mutex_mem ?s3 = mutex_mem s"
      "next_switch_sequence ?s3 = next_switch_sequence s + 1"
      "last_consumed_switch_sequence ?s3 = last_consumed_switch_sequence s"
    using s2(1,4) sel by (auto simp: committed_def prepare_switch_intent_def bind_eq_Some Let_def chk_add_def split: if_splits)
  moreover have "\<forall>p. pending_switch ?s3 = Some p \<longrightarrow> ps_sequence p = next_switch_sequence s + 1"
    using sel by (simp add: committed_def)
  ultimately show ?thesis using run cm(3) s1(2) v(2)
    by (intro exI [of _ ?i] exI [of _ ?s3] exI [of _ Q1]) (simp add: committed_def)
qed

text \<open>
  C8. A task that gave up the processor is left exactly once, for the right task: while it is still
  the current task, not running and not resumed since, the decision returns, commits the front of
  the highest ready priority (or the idle task) as the pending switch and keeps every other ready
  task queued, and the next trap then runs exactly that task with nothing pending; otherwise the
  decision is dropped and changes nothing.
\<close>

theorem switch_away_hands_over:
  assumes "trap_inv s Q" "pending_switch s = None" "state_of s IDLE_SLOT = Ready"
    "next_switch_sequence s < U64_MAX" "last_consumed_switch_sequence s \<le> next_switch_sequence s"
    "started s" "now \<le> U64_MAX" "frame \<noteq> 0" "previous < TASK_SLOT_COUNT"
  shows "(still_away previous g s \<longrightarrow> (\<exists>intent s1 f s2 Q2.
        prepare_switch_away_decision previous g True s = Some (Some intent, s1)
        \<and> ref_slot (si_target intent) = best_ready Q \<and> pending_target s1 = Some (best_ready Q)
        \<and> schedule_from_trap frame 0 now s1 = Some (f, s2) \<and> f \<noteq> 0 \<and> current s2 = best_ready Q
        \<and> owned s2 Q2 \<and> pending_switch s2 = None))
    \<and> (\<not> still_away previous g s \<longrightarrow> prepare_switch_away_decision previous g True s = Some (None, s))"
proof (intro conjI impI)
  assume away: "still_away previous g s"
  from switch_away_spec [OF assms(1-5) away] obtain intent s1 Q1 where
    s1: "prepare_switch_away_decision previous g True s = Some (Some intent, s1)" "trap_inv s1 Q1"
      "pending_target s1 = Some (best_ready Q)" "ref_slot (si_target intent) = best_ready Q"
      "started s1 = started s" by auto
  have "next_task s1 Q1 = best_ready Q" using s1(3) by (simp add: next_task_def)
  moreover from trap_dispatch_spec [OF s1(2) _ assms(7,8)] s1(5) assms(6) obtain f s2 Q2 where
    "schedule_from_trap frame 0 now s1 = Some (f, s2)" "f \<noteq> 0" "owned s2 Q2" "pending_switch s2 = None"
    "current s2 = next_task s1 Q1" by auto
  ultimately show "\<exists>intent s1 f s2 Q2.
        prepare_switch_away_decision previous g True s = Some (Some intent, s1)
        \<and> ref_slot (si_target intent) = best_ready Q \<and> pending_target s1 = Some (best_ready Q)
        \<and> schedule_from_trap frame 0 now s1 = Some (f, s2) \<and> f \<noteq> 0 \<and> current s2 = best_ready Q
        \<and> owned s2 Q2 \<and> pending_switch s2 = None"
    using s1 by (intro exI [of _ intent] exI [of _ s1] exI [of _ f] exI [of _ s2] exI [of _ Q2]) simp
next
  assume "\<not> still_away previous g s"
  moreover have "length (tasks s) = TASK_SLOT_COUNT" using assms(1) owned_butD(8) by (auto simp: trap_inv_def)
  ultimately show "prepare_switch_away_decision previous g True s = Some (None, s)"
    using assms(9) by (auto simp: prepare_switch_away_decision_def still_away_def)
qed

theorem switch_away_hands_over_witness:
  "\<exists>intent s1 f s2. prepare_switch_away_decision 0 0 True demo = Some (Some intent, s1)
    \<and> pending_target s1 = Some 3 \<and> schedule_from_trap 12288 0 5 s1 = Some (f, s2) \<and> current s2 = 3"
proof -
  have "best_ready demo_queue = 3" by (simp add: best_ready_def demo_queued demo_queue_def)
  moreover have "still_away 0 0 demo" using demo_sel demo_tasks(1) by (simp add: still_away_def tcb_empty_def)
  moreover have "state_of demo IDLE_SLOT = Ready" using demo_tasks(2) by (simp add: IDLE_SLOT_def)
  ultimately show ?thesis
    using switch_away_hands_over [OF demo_inv demo_sel(3), of 5 12288 0 0] demo_sel
    by (auto simp: TASK_SLOT_COUNT_eq)
qed

subsection \<open>Preemption\<close>

text \<open>
  Preemption is decided exactly by the policy: the running task is replaced if and only if it
  holds no scheduler lock and either it is the idle task and something is ready, or it is
  preemptible and some queued task has a better priority (an equal one, when its time slice is
  over). The replacement is the front of the best queue, the preempted task goes back to the
  queue behind its equals, and when there is no replacement the scheduler is unchanged.
\<close>

theorem preemption_decided_by_policy:
  assumes "owned_but {} s Q" "pending_switch s = None"
  shows "\<exists>s'. take_reschedule_target allow_equal now s
        = Some (if wants_switch allow_equal s Q then Some (current s, best_ready Q) else None, s')
    \<and> (\<not> wants_switch allow_equal s Q \<longrightarrow> s' = s)
    \<and> (wants_switch allow_equal s Q \<longrightarrow> (\<forall>i \<in> queued Q. prio_of s (best_ready Q) \<le> prio_of s i)
        \<and> best_ready Q \<in> queued Q \<and> state_of s' (current s) = Ready
        \<and> ready_contains (current s) s' = Some (current s \<noteq> IDLE_SLOT)
        \<and> ready_contains (best_ready Q) s' = Some False)"
proof (cases "wants_switch allow_equal s Q")
  case False
  with take_reschedule_target_spec(1) [OF assms, of allow_equal now] show ?thesis
    by (intro exI [of _ s]) simp
next
  case True
  note d = owned_butD [OF assms(1)]
  let ?c = "current s"
  from take_reschedule_target_spec(2) [OF assms, of allow_equal now] True obtain p s' Q' where
    s': "first_bucket Q = Some p" "take_reschedule_target allow_equal now s = Some (Some (?c, hd (Q p)), s')"
      "owned_but {hd (Q p)} s' Q'" "readied {?c} now s s'" "hd (Q p) \<notin> queued Q'" "hd (Q p) \<noteq> ?c" by metis
  have b: "best_ready Q = hd (Q p)" using s'(1) by (simp add: best_ready_def)
  have best: "\<forall>i \<in> queued Q. prio_of s (best_ready Q) \<le> prio_of s i" "best_ready Q \<in> queued Q"
    using front_is_best [OF d(2) s'(1)] owned_pop_target(4) [OF assms(1) s'(1)] b by auto
  have st: "state_of s' ?c = Ready" using readied_fields(1) [OF s'(4)] d(8,9) by simp
  have "pending_target s' = None" using readied_sel(9) [OF s'(4)] assms(2) by (simp add: pending_target_def)
  then have "?c \<in> queued Q' \<longleftrightarrow> ?c \<noteq> IDLE_SLOT"
    using owned_butD(4,5) [OF s'(3)] st d(9) s'(6) by (metis option.distinct(1) singletonD)
  moreover note owned_contains [OF s'(3)]
  ultimately have rc: "ready_contains ?c s' = Some (?c \<noteq> IDLE_SLOT)" "ready_contains (best_ready Q) s' = Some False"
    using s'(5) b by simp_all
  have run: "take_reschedule_target allow_equal now s = Some (Some (?c, best_ready Q), s')" using s'(2) b by simp
  show ?thesis
    by (rule exI [of _ s'], subst run, use True best st rc in simp)
qed

text \<open>The same small scheduler with the preemptible task 0 running.\<close>

definition demo_running :: sched where
  "demo_running = mod_task 0 (\<lambda>t. t\<lparr>t_state := Running, t_run_policy := Preemptive 10\<rparr>) demo"

lemma demo_running_owned: "owned_but {} demo_running demo_queue"
proof -
  have own: "owned_but {} demo demo_queue" using demo_inv by (simp add: trap_inv_def)
  show ?thesis unfolding demo_running_def
    by (rule owned_mod_task [OF own])
      (use demo_sel demo_tasks(1) in \<open>simp_all add: demo_queued pending_target_def TASK_SLOT_COUNT_eq
        PRIORITY_LEVELS_def tcb_empty_def\<close>)
qed

theorem preemption_decided_by_policy_witness:
  "\<exists>s'. take_reschedule_target True 7 demo_running = Some (Some (0, 3), s') \<and> ready_contains 0 s' = Some True"
proof -
  have "best_ready demo_queue = 3" by (simp add: best_ready_def demo_queued demo_queue_def)
  moreover have "wants_switch True demo_running demo_queue"
    using demo_sel demo_tasks(1,3)
    by (simp add: wants_switch_def demo_running_def demo_queued tcb_empty_def IDLE_SLOT_def)
  moreover have "current demo_running = 0" "pending_switch demo_running = None"
    using demo_sel by (simp_all add: demo_running_def)
  ultimately show ?thesis
    using preemption_decided_by_policy [OF demo_running_owned, of True 7] by (auto simp: IDLE_SLOT_def)
qed

subsection \<open>The scheduler lock\<close>

definition lock_ok :: "tcb \<Rightarrow> bool" where
  "lock_ok t \<longleftrightarrow> (t_scheduler_lock_depth t = 0 \<longleftrightarrow> t_scheduler_lock_started_at t = None)
     \<and> t_scheduler_lock_depth t \<le> U16_MAX"

definition lock_entered :: "nat \<Rightarrow> tcb \<Rightarrow> tcb" where
  "lock_entered now t =
     (if t_scheduler_lock_depth t = 0
      then t\<lparr>t_scheduler_lock_started_at := Some now,
             t_metrics := (t_metrics t)\<lparr>m_scheduler_lock_entries := bump32 (m_scheduler_lock_entries (t_metrics t))\<rparr>,
             t_scheduler_lock_depth := 1\<rparr>
      else t\<lparr>t_scheduler_lock_depth := t_scheduler_lock_depth t + 1\<rparr>)"

lemma mod_task_twice: "mod_task i f (mod_task i g s) = mod_task i (f \<circ> g) s" if "i < length (tasks s)"
  using that by (simp add: mod_task_def)

lemma lock_current_run:
  assumes "current s < length (tasks s)" "t_scheduler_lock_depth (tasks s ! current s) < U16_MAX"
  shows "\<exists>s'. lock_current now s = Some (Inr (), s') \<and> current s' = current s
    \<and> tasks s' = (tasks s)[current s := lock_entered now (tasks s ! current s)]"
  using assms
  by (cases "t_scheduler_lock_depth (tasks s ! current s) = 0")
    (auto simp: lock_current_def lock_entered_def mod_task_def)

lemma unlock_current_run:
  assumes "current s < length (tasks s)" "lock_ok (tasks s ! current s)"
    "t_scheduler_lock_depth (tasks s ! current s) \<noteq> 0"
  shows "\<exists>s'. unlock_current now s = Some (Inr (), s') \<and> current s' = current s
    \<and> t_scheduler_lock_depth (tasks s' ! current s) = t_scheduler_lock_depth (tasks s ! current s) - 1
    \<and> lock_ok (tasks s' ! current s)
    \<and> (t_scheduler_lock_depth (tasks s ! current s) = 1 \<longrightarrow>
        m_max_scheduler_lock_ms (t_metrics (tasks s' ! current s)) = tcb_max_scheduler_lock_ms now (tasks s ! current s))"
proof -
  let ?c = "current s"
  let ?t = "tasks s ! ?c"
  from assms(2,3) obtain at where at: "t_scheduler_lock_started_at ?t = Some at"
    by (cases "t_scheduler_lock_started_at ?t") (auto simp: lock_ok_def)
  show ?thesis
  proof (cases "t_scheduler_lock_depth ?t = 1")
    case True
    then show ?thesis using assms at
      by (auto simp: unlock_current_def Let_def lock_ok_def tcb_max_scheduler_lock_ms_def)
  next
    case False
    then have "t_scheduler_lock_depth ?t - 1 \<noteq> 0" using assms(3) by simp
    then show ?thesis using assms at False by (simp add: unlock_current_def Let_def lock_ok_def)
  qed
qed

text \<open>
  The scheduler lock nests and excludes preemption: taking it returns, adds one level and makes
  every preemption decision of the holder come out empty and unchanged; releasing it right after
  gives back the depth of before, and the outermost release records the time it was held. Releasing
  a lock that is not held and taking one more than 65535 levels are refused without a change.
\<close>

theorem scheduler_lock_nests:
  assumes "current s < length (tasks s)" "lock_ok (tasks s ! current s)"
  shows "(if t_scheduler_lock_depth (tasks s ! current s) < U16_MAX
      then \<exists>s1 s2. lock_current now s = Some (Inr (), s1)
        \<and> t_scheduler_lock_depth (tasks s1 ! current s) = t_scheduler_lock_depth (tasks s ! current s) + 1
        \<and> take_reschedule_target eq now s1 = Some (None, s1)
        \<and> unlock_current now' s1 = Some (Inr (), s2) \<and> current s2 = current s
        \<and> t_scheduler_lock_depth (tasks s2 ! current s) = t_scheduler_lock_depth (tasks s ! current s)
        \<and> lock_ok (tasks s2 ! current s)
        \<and> (t_scheduler_lock_depth (tasks s ! current s) = 0 \<longrightarrow>
            now' - now \<le> m_max_scheduler_lock_ms (t_metrics (tasks s2 ! current s)))
      else lock_current now s = Some (Inl RuntimeError, s))
    \<and> (t_scheduler_lock_depth (tasks s ! current s) = 0 \<longrightarrow> unlock_current now s = Some (Inl InvalidContext, s))"
proof -
  let ?c = "current s"
  let ?t = "tasks s ! ?c"
  have err: "lock_current now s = Some (Inl RuntimeError, s)" if "\<not> t_scheduler_lock_depth ?t < U16_MAX"
    using that assms by (simp add: lock_current_def chk_add_def lock_ok_def)
  have zero: "t_scheduler_lock_depth ?t = 0 \<longrightarrow> unlock_current now s = Some (Inl InvalidContext, s)"
    using assms(1) by (simp add: unlock_current_def)
  have "\<exists>s1 s2. lock_current now s = Some (Inr (), s1)
      \<and> t_scheduler_lock_depth (tasks s1 ! ?c) = t_scheduler_lock_depth ?t + 1
      \<and> take_reschedule_target eq now s1 = Some (None, s1)
      \<and> unlock_current now' s1 = Some (Inr (), s2) \<and> current s2 = ?c
      \<and> t_scheduler_lock_depth (tasks s2 ! ?c) = t_scheduler_lock_depth ?t
      \<and> lock_ok (tasks s2 ! ?c)
      \<and> (t_scheduler_lock_depth ?t = 0 \<longrightarrow> now' - now \<le> m_max_scheduler_lock_ms (t_metrics (tasks s2 ! ?c)))"
    if room: "t_scheduler_lock_depth ?t < U16_MAX"
  proof -
    from lock_current_run [OF assms(1) room] obtain s1 where
      s1: "lock_current now s = Some (Inr (), s1)" "current s1 = ?c" "tasks s1 = (tasks s)[?c := lock_entered now ?t]"
      by blast
    have t1: "tasks s1 ! ?c = lock_entered now ?t" "?c < length (tasks s1)" using s1(3) assms(1) by simp_all
    have d1: "t_scheduler_lock_depth (lock_entered now ?t) = t_scheduler_lock_depth ?t + 1"
      "lock_ok (lock_entered now ?t)"
      using assms(2) room by (auto simp: lock_entered_def lock_ok_def)
    have no: "take_reschedule_target eq now s1 = Some (None, s1)"
      using t1 d1(1) s1(2) by (simp add: take_reschedule_target_def)
    from unlock_current_run [of s1 now'] t1 d1 s1(2) obtain s2 where
      s2: "unlock_current now' s1 = Some (Inr (), s2)" "current s2 = ?c"
        "t_scheduler_lock_depth (tasks s2 ! ?c) = t_scheduler_lock_depth ?t" "lock_ok (tasks s2 ! ?c)"
        "t_scheduler_lock_depth ?t = 0 \<longrightarrow> m_max_scheduler_lock_ms (t_metrics (tasks s2 ! ?c))
          = tcb_max_scheduler_lock_ms now' (lock_entered now ?t)" by auto
    have "t_scheduler_lock_depth ?t = 0 \<longrightarrow> now' - now \<le> tcb_max_scheduler_lock_ms now' (lock_entered now ?t)"
      by (simp add: tcb_max_scheduler_lock_ms_def lock_entered_def)
    with s1(1) s2 no t1(1) d1(1) show ?thesis by auto
  qed
  with err zero show ?thesis by simp
qed

theorem scheduler_lock_nests_witness:
  "\<exists>s1 s2. lock_current 5 demo_running = Some (Inr (), s1)
    \<and> take_reschedule_target True 5 s1 = Some (None, s1) \<and> unlock_current 9 s1 = Some (Inr (), s2)
    \<and> t_scheduler_lock_depth (tasks s2 ! 0) = 0 \<and> 4 \<le> m_max_scheduler_lock_ms (t_metrics (tasks s2 ! 0))"
proof -
  have c: "current demo_running = 0" "0 < length (tasks demo_running)"
    "t_scheduler_lock_depth (tasks demo_running ! 0) = 0" "lock_ok (tasks demo_running ! 0)"
    using demo_sel demo_tasks(1) by (simp_all add: demo_running_def lock_ok_def tcb_empty_def)
  from scheduler_lock_nests [of demo_running 5 True 9] c show ?thesis by auto
qed

end
