(* ===== verification/Sync.thy ===== *)
theory Sync
  imports Handoff
begin

text \<open>
  Counting semaphores and recursive mutexes (\<open>runtime/sync.rs\<close>): the critical sections of every
  operation. A blocking operation has two of them: the first one either finishes the call or parks
  the calling task and prepares the switch away, the second one runs when the task is resumed and
  reads the grant it was resumed with; the name of the second one ends in \<open>_resumed\<close>. Objects are
  named by their address. A routine that may run while other objects of its kind change
  (\<open>release_mutex_locked\<close> and its callers, through priority inheritance) takes the address and
  reads and writes the fields where the source does.
\<close>

subsection \<open>Semaphores\<close>

abbreviation (input) I32_MAX :: int where "I32_MAX \<equiv> 2147483647"

definition chk_i32 :: "int \<Rightarrow> int option" where
  "chk_i32 n = (if - I32_MAX - 1 \<le> n \<and> n \<le> I32_MAX then Some n else None)"

definition with_sem ::
  "nat \<Rightarrow> (sem_state \<Rightarrow> sched \<Rightarrow> ('r \<times> sem_state \<times> sched) option) \<Rightarrow> sched \<Rightarrow> ('r \<times> sched) option" where
  "with_sem a f s = do {
     st \<leftarrow> sem_mem s a;
     (r, st, s) \<leftarrow> f st s;
     Some (r, s\<lparr>sem_mem := (sem_mem s)(a \<mapsto> st)\<rparr>)
   }"

definition release_semaphore_locked :: "nat \<Rightarrow> sem_state \<Rightarrow> sched \<Rightarrow> (nat \<times> sem_state \<times> sched) option" where
  "release_semaphore_locked now st s =
     (let waiter = sm_wait_head st
      in if waiter = NIL then do {
           count \<leftarrow> chk_i32 (sm_count st + 1);
           Some (NIL, st\<lparr>sm_count := count\<rparr>, s)
         } else do {
           t \<leftarrow> task_at waiter s;
           let st = st\<lparr>sm_wait_head := t_next t\<rparr>;
           let st = (if sm_wait_head st = NIL then st\<lparr>sm_wait_tail := NIL\<rparr> else st);
           s \<leftarrow> upd_task waiter (\<lambda>t. t\<lparr>t_next := NIL, t_wake_at := 0, t_granted_sem := t_waiting_sem t,
                                      t_waiting_sem := 0, t_sem_granted := True\<rparr>) s;
           s \<leftarrow> make_ready waiter now s;
           Some (waiter, st, diag (\<lambda>d. d\<lparr>d_semaphore_wakes := bump32 (d_semaphore_wakes d)\<rparr>) s)
         })"

definition consume_semaphore_grant_locked :: "nat \<Rightarrow> sched \<Rightarrow> (bool \<times> sched) option" where
  "consume_semaphore_grant_locked task s = do {
     t \<leftarrow> task_at task s;
     s \<leftarrow> upd_task task (\<lambda>t. t\<lparr>t_sem_granted := False, t_granted_sem := 0\<rparr>) s;
     Some (t_sem_granted t, s)
   }"

text \<open>\<open>prepare_switch_away_locked\<close> of \<open>runtime.rs\<close>: a ported runtime commits the switch at once.\<close>

definition prepare_switch_away_locked ::
  "bool \<Rightarrow> nat \<Rightarrow> 32 word \<Rightarrow> sched \<Rightarrow> (switch_intent option \<times> sched) option" where
  "prepare_switch_away_locked ported previous g s = prepare_switch_away_decision previous g ported s"

text \<open>
  The part \<open>down\<close> and \<open>down_timeout\<close> share: the count is used up, the caller parks itself on the
  queue of the semaphore at \<open>a\<close> until \<open>wake_at\<close> (0 is no deadline) and leaves.
\<close>

definition semaphore_park ::
  "bool \<Rightarrow> bool \<Rightarrow> nat \<Rightarrow> nat \<Rightarrow> sched \<Rightarrow> (switch_intent res \<times> sched) option" where
  "semaphore_park ported available a wake_at s =
     (if \<not> available then Some (Inl InvalidContext, s)
      else do {
        guard \<leftarrow> current_switch_guard s;
        (case guard of
           Inl e \<Rightarrow> Some (Inl e, s)
         | Inr cur \<Rightarrow> do {
             t \<leftarrow> task_at cur s;
             let resume_generation = t_resume_generation t;
             let s = diag (\<lambda>d. d\<lparr>d_semaphore_blocks := bump32 (d_semaphore_blocks d)\<rparr>) s;
             s \<leftarrow> upd_task cur (\<lambda>t. t\<lparr>t_state := Blocked, t_wake_at := wake_at,
                                     t_waiting_sem := a, t_sem_granted := False\<rparr>) s;
             s \<leftarrow> on_sem a (\<lambda>st s. enqueue_waiter st cur s) s;
             (intent, s) \<leftarrow> prepare_switch_away_locked ported cur resume_generation s;
             intent \<leftarrow> intent;
             Some (Inr intent, s)
           })
      })"

definition semaphore_take :: "nat \<Rightarrow> sched \<Rightarrow> (bool \<times> sched) option" where
  "semaphore_take a s = do {
     st \<leftarrow> sem_mem s a;
     (if 0 < sm_count st then do {
        count \<leftarrow> chk_i32 (sm_count st - 1);
        Some (True, s\<lparr>sem_mem := (sem_mem s)(a \<mapsto> st\<lparr>sm_count := count\<rparr>)\<rparr>)
      } else Some (False, s))
   }"

text \<open>\<open>down\<close>: \<open>None\<close> for a count that was taken at once, the switch intent of the parked caller else.\<close>

definition semaphore_down :: "bool \<Rightarrow> bool \<Rightarrow> nat \<Rightarrow> sched \<Rightarrow> (switch_intent option res \<times> sched) option" where
  "semaphore_down ported available a s = do {
     (taken, s) \<leftarrow> semaphore_take a s;
     (if taken then Some (Inr None, s)
      else do {
        (r, s) \<leftarrow> semaphore_park ported available a 0 s;
        Some (case r of Inl e \<Rightarrow> Inl e | Inr intent \<Rightarrow> Inr (Some intent), s)
      })
   }"

text \<open>\<open>down_timeout\<close>: the immediate result, or the switch intent of the parked caller.\<close>

definition semaphore_down_timeout ::
  "bool \<Rightarrow> bool \<Rightarrow> nat \<Rightarrow> nat \<Rightarrow> nat \<Rightarrow> sched
    \<Rightarrow> ((bool option \<times> switch_intent option) res \<times> sched) option" where
  "semaphore_down_timeout ported available a timeout_ms now s =
     (if timeout_ms = U32_MAX then do {
        (r, s) \<leftarrow> semaphore_down ported available a s;
        Some (case r of Inl e \<Rightarrow> Inl e | Inr None \<Rightarrow> Inr (Some True, None)
              | Inr (Some intent) \<Rightarrow> Inr (None, Some intent), s)
      } else do {
        let deadline = sat_add U64_MAX now timeout_ms;
        (taken, s) \<leftarrow> semaphore_take a s;
        (if taken then Some (Inr (Some True, None), s)
         else if timeout_ms = 0 then Some (Inr (Some False, None), s)
         else do {
           (r, s) \<leftarrow> semaphore_park ported available a deadline s;
           Some (case r of Inl e \<Rightarrow> Inl e | Inr intent \<Rightarrow> Inr (None, Some intent), s)
         })
      })"

definition semaphore_down_resumed :: "sched \<Rightarrow> (bool \<times> sched) option" where
  "semaphore_down_resumed s = consume_semaphore_grant_locked (current s) s"

text \<open>\<open>up\<close>: the result is whether a deferred switch is requested.\<close>

definition semaphore_up :: "nat \<Rightarrow> nat \<Rightarrow> nat \<Rightarrow> sched \<Rightarrow> (bool \<times> sched) option" where
  "semaphore_up interrupt_depth a now s = do {
     (waiter, s) \<leftarrow> with_sem a (release_semaphore_locked now) s;
     Some (waiter \<noteq> NIL \<and> interrupt_depth = 0, s)
   }"

definition cancel_semaphore_wait_locked :: "nat \<Rightarrow> nat \<Rightarrow> sched \<Rightarrow> (bool \<times> sched) option" where
  "cancel_semaphore_wait_locked task now s = do {
     t \<leftarrow> task_at task s;
     (if t_waiting_sem t \<noteq> 0 then do {
        s \<leftarrow> on_sem (t_waiting_sem t) (\<lambda>st s. remove_waiter st task s) s;
        s \<leftarrow> upd_task task (\<lambda>t. t\<lparr>t_waiting_sem := 0, t_wake_at := 0, t_sem_granted := False\<rparr>) s;
        t \<leftarrow> task_at task s;
        s \<leftarrow> (if t_state t = Blocked then make_ready task now s else Some s);
        Some (True, s)
      } else if t_granted_sem t \<noteq> 0 then do {
        let granted_sem = t_granted_sem t;
        s \<leftarrow> upd_task task (\<lambda>t. t\<lparr>t_granted_sem := 0, t_sem_granted := False\<rparr>) s;
        (_, s) \<leftarrow> with_sem granted_sem (release_semaphore_locked now) s;
        Some (True, s)
      } else Some (False, s))
   }"

definition timeout_semaphore_waiter_locked :: "nat \<Rightarrow> nat \<Rightarrow> sched \<Rightarrow> (bool \<times> sched) option" where
  "timeout_semaphore_waiter_locked task now s = do {
     t \<leftarrow> task_at task s;
     (if t_state t \<noteq> Blocked \<or> t_waiting_sem t = 0 \<or> t_wake_at t = 0 \<or> now < t_wake_at t
      then Some (False, s)
      else do {
        s \<leftarrow> on_sem (t_waiting_sem t) (\<lambda>st s. remove_waiter st task s) s;
        s \<leftarrow> upd_task task (\<lambda>t. t\<lparr>t_waiting_sem := 0, t_sem_granted := False, t_granted_sem := 0,
                                 t_wake_at := 0\<rparr>) s;
        s \<leftarrow> make_ready task now s;
        Some (True, s)
      })
   }"

subsection \<open>Mutexes\<close>

definition mutex_update :: "nat \<Rightarrow> (mutex_state \<Rightarrow> mutex_state) \<Rightarrow> sched \<Rightarrow> sched option" where
  "mutex_update a f s = do {
     st \<leftarrow> mutex_mem s a;
     Some (s\<lparr>mutex_mem := (mutex_mem s)(a \<mapsto> f st)\<rparr>)
   }"

text \<open>
  \<open>while waiter != NIL { op(owner, tasks[waiter].priority); waiter = tasks[waiter].next }\<close>: the loop
  that moves the donations of the remaining waiters.
\<close>

partial_function (option) each_waiter ::
  "(nat \<Rightarrow> sched \<Rightarrow> sched option) \<Rightarrow> nat \<Rightarrow> sched \<Rightarrow> sched option" where
  "each_waiter donate waiter s =
     (if waiter = NIL then Some s
      else do {
        t \<leftarrow> task_at waiter s;
        s \<leftarrow> donate (t_priority t) s;
        t \<leftarrow> task_at waiter s;
        each_waiter donate (t_next t) s
      })"

declare each_waiter.simps [code]

definition release_mutex_locked :: "nat \<Rightarrow> nat \<Rightarrow> nat \<Rightarrow> sched \<Rightarrow> sched option" where
  "release_mutex_locked a owner now s = do {
     st \<leftarrow> mutex_mem s a;
     (nxt, st, s) \<leftarrow> pop_mutex_waiter st s;
     let s = s\<lparr>mutex_mem := (mutex_mem s)(a \<mapsto> st)\<rparr>;
     (if nxt = NIL then mutex_update a (\<lambda>st. st\<lparr>mx_owner := NIL\<rparr>) s
      else do {
        t \<leftarrow> task_at nxt s;
        s \<leftarrow> remove_inheritance owner (t_priority t) s;
        st \<leftarrow> mutex_mem s a;
        s \<leftarrow> each_waiter (remove_inheritance owner) (mx_wait_head st) s;
        s \<leftarrow> mutex_update a (\<lambda>st. st\<lparr>mx_owner := nxt, mx_depth := 1\<rparr>) s;
        s \<leftarrow> upd_task nxt (\<lambda>t. t\<lparr>t_granted_mutex := t_waiting_mutex t, t_waiting_mutex := 0,
                                t_wake_at := 0, t_sem_granted := True\<rparr>) s;
        s \<leftarrow> make_ready nxt now s;
        st \<leftarrow> mutex_mem s a;
        each_waiter (add_inheritance nxt) (mx_wait_head st) s
      })
   }"

fun chain_walk :: "nat \<Rightarrow> nat \<Rightarrow> nat \<Rightarrow> sched \<Rightarrow> bool option" where
  "chain_walk 0 owner sought s = Some True"
| "chain_walk (Suc n) owner sought s =
     (if owner = sought then Some True
      else do {
        t \<leftarrow> task_at owner s;
        (if t_waiting_mutex t = 0 then Some False
         else do {
           st \<leftarrow> mutex_mem s (t_waiting_mutex t);
           (if mx_owner st = NIL then Some False else chain_walk n (mx_owner st) sought s)
         })
      })"

definition mutex_chain_contains :: "nat \<Rightarrow> nat \<Rightarrow> sched \<Rightarrow> bool option" where
  "mutex_chain_contains owner sought s = chain_walk TASK_SLOT_COUNT owner sought s"

text \<open>The contended half of \<open>lock\<close>: the caller parks itself behind the owner and donates.\<close>

definition mutex_park :: "bool \<Rightarrow> nat \<Rightarrow> nat \<Rightarrow> nat \<Rightarrow> sched \<Rightarrow> (switch_intent \<times> sched) option" where
  "mutex_park ported a owner wake_at s = do {
     let cur = current s;
     t \<leftarrow> task_at cur s;
     let resume_generation = t_resume_generation t;
     s \<leftarrow> upd_task cur (\<lambda>t. t\<lparr>t_state := Blocked, t_wake_at := wake_at, t_waiting_mutex := a,
                             t_sem_granted := False\<rparr>) s;
     s \<leftarrow> on_mutex a (\<lambda>st s. enqueue_mutex_waiter st cur s) s;
     t \<leftarrow> task_at cur s;
     s \<leftarrow> add_inheritance owner (t_priority t) s;
     (intent, s) \<leftarrow> prepare_switch_away_locked ported cur resume_generation s;
     intent \<leftarrow> intent;
     Some (intent, s)
   }"

definition mutex_lock ::
  "bool \<Rightarrow> bool \<Rightarrow> nat \<Rightarrow> nat \<Rightarrow> nat \<Rightarrow> sched
    \<Rightarrow> ((bool option \<times> switch_intent option) res \<times> sched) option" where
  "mutex_lock ported available a timeout_ms now s = do {
     let deadline = sat_add U64_MAX now timeout_ms;
     let cur = current s;
     st \<leftarrow> mutex_mem s a;
     (if mx_owner st = cur then
        (case chk_add U32_MAX (mx_depth st) 1 of
           None \<Rightarrow> Some (Inl RuntimeError, s)
         | Some depth \<Rightarrow> do {
             s \<leftarrow> mutex_update a (\<lambda>st. st\<lparr>mx_depth := depth\<rparr>) s;
             Some (Inr (Some True, None), s)
           })
      else if mx_owner st = NIL then do {
        s \<leftarrow> mutex_update a (\<lambda>st. st\<lparr>mx_owner := cur, mx_depth := 1\<rparr>) s;
        Some (Inr (Some True, None), s)
      }
      else if timeout_ms = 0 then Some (Inr (Some False, None), s)
      else if \<not> available then Some (Inl InvalidContext, s)
      else do {
        guard \<leftarrow> current_switch_guard s;
        (case guard of
           Inl e \<Rightarrow> Some (Inl e, s)
         | Inr _ \<Rightarrow> do {
             cyclic \<leftarrow> mutex_chain_contains (mx_owner st) cur s;
             (if cyclic then Some (Inl InvalidContext, s)
              else do {
                (intent, s) \<leftarrow> mutex_park ported a (mx_owner st)
                                 (if timeout_ms = U32_MAX then 0 else deadline) s;
                Some (Inr (None, Some intent), s)
              })
           })
      })
   }"

definition mutex_lock_resumed :: "sched \<Rightarrow> (bool \<times> sched) option" where
  "mutex_lock_resumed s = do {
     t \<leftarrow> task_at (current s) s;
     s \<leftarrow> upd_task (current s) (\<lambda>t. t\<lparr>t_sem_granted := False, t_granted_mutex := 0\<rparr>) s;
     Some (t_sem_granted t, s)
   }"

text \<open>\<open>unlock\<close>: the result is whether a deferred switch is requested.\<close>

definition mutex_unlock :: "nat \<Rightarrow> nat \<Rightarrow> nat \<Rightarrow> sched \<Rightarrow> (bool res \<times> sched) option" where
  "mutex_unlock interrupt_depth a now s = do {
     let cur = current s;
     st \<leftarrow> mutex_mem s a;
     (if mx_owner st \<noteq> cur \<or> mx_depth st = 0 then Some (Inl InvalidContext, s)
      else do {
        s \<leftarrow> mutex_update a (\<lambda>st. st\<lparr>mx_depth := mx_depth st - 1\<rparr>) s;
        (if mx_depth st - 1 \<noteq> 0 then Some (Inr False, s)
         else do {
           let woke_waiter = (mx_wait_head st \<noteq> NIL);
           s \<leftarrow> release_mutex_locked a cur now s;
           Some (Inr (woke_waiter \<and> interrupt_depth = 0), s)
         })
      })
   }"

subsection \<open>Cancellation\<close>

datatype wait_cancellation_outcome = Cancelled | NotWaiting

text \<open>Taking a task off the queue of the mutex it waits for, with its donation.\<close>

definition abandon_mutex_wait :: "nat \<Rightarrow> nat \<Rightarrow> sched \<Rightarrow> sched option" where
  "abandon_mutex_wait task waiting_mutex s = do {
     s \<leftarrow> on_mutex waiting_mutex (\<lambda>st s. remove_mutex_waiter st task s) s;
     st \<leftarrow> mutex_mem s waiting_mutex;
     (if mx_owner st \<noteq> NIL then do {
        t \<leftarrow> task_at task s;
        remove_inheritance (mx_owner st) (t_priority t) s
      } else Some s)
   }"

definition cancel_wait_locked :: "nat \<Rightarrow> nat \<Rightarrow> sched \<Rightarrow> (wait_cancellation_outcome \<times> sched) option" where
  "cancel_wait_locked task now s = do {
     (cancelled, s) \<leftarrow> cancel_semaphore_wait_locked task now s;
     (if cancelled then Some (Cancelled, s)
      else do {
        t \<leftarrow> task_at task s;
        (if t_waiting_mutex t \<noteq> 0 then do {
           s \<leftarrow> abandon_mutex_wait task (t_waiting_mutex t) s;
           s \<leftarrow> upd_task task (\<lambda>t. t\<lparr>t_waiting_mutex := 0, t_wake_at := 0, t_sem_granted := False\<rparr>) s;
           t \<leftarrow> task_at task s;
           s \<leftarrow> (if t_state t = Blocked then make_ready task now s else Some s);
           Some (Cancelled, s)
         } else if t_granted_mutex t \<noteq> 0 then do {
           let granted_mutex = t_granted_mutex t;
           s \<leftarrow> upd_task task (\<lambda>t. t\<lparr>t_granted_mutex := 0, t_sem_granted := False\<rparr>) s;
           st \<leftarrow> mutex_mem s granted_mutex;
           assert_that (mx_owner st = task);
           assert_that (mx_depth st = 1);
           s \<leftarrow> mutex_update granted_mutex (\<lambda>st. st\<lparr>mx_depth := 0\<rparr>) s;
           s \<leftarrow> release_mutex_locked granted_mutex task now s;
           Some (Cancelled, s)
         } else Some (NotWaiting, s))
      })
   }"

end
