(* ===== verification/Timer.thy ===== *)
theory Timer
  imports Sync
begin

text \<open>
  Time: waking sleepers and timed waiters, replenishing and exhausting quotas, and the deadline the
  one-shot timer is armed for (\<open>wake_sleepers\<close> to \<open>on_timer\<close> and \<open>earliest_wake_deadline\<close> to
  \<open>has_equal_priority_ready\<close> of \<open>runtime/scheduler.rs\<close>, and \<open>runtime/time.rs\<close>).
\<close>

subsection \<open>Timer expiry\<close>

text \<open>The body of the loop of \<open>wake_sleepers\<close>.\<close>

definition wake_sleeper :: "nat \<Rightarrow> nat \<Rightarrow> sched \<Rightarrow> sched option" where
  "wake_sleeper now i s = do {
     t \<leftarrow> task_at i s;
     (if t_state t = Sleeping \<and> t_wake_at t \<le> now then do {
        s \<leftarrow> make_ready i now s;
        Some (diag (\<lambda>d. d\<lparr>d_sleeper_wakes := bump32 (d_sleeper_wakes d)\<rparr>) s)
      } else do {
        (timed_out, s) \<leftarrow> timeout_semaphore_waiter_locked i now s;
        (if timed_out then
           Some (diag (\<lambda>d. d\<lparr>d_semaphore_timeouts := bump32 (d_semaphore_timeouts d)\<rparr>) s)
         else if t_state t = Blocked \<and> t_waiting_mutex t \<noteq> 0 \<and> t_wake_at t \<noteq> 0 \<and> t_wake_at t \<le> now
         then do {
           s \<leftarrow> abandon_mutex_wait i (t_waiting_mutex t) s;
           s \<leftarrow> upd_task i (\<lambda>t. t\<lparr>t_waiting_mutex := 0, t_sem_granted := False, t_granted_mutex := 0,
                                 t_wake_at := 0\<rparr>) s;
           make_ready i now s
         } else Some s)
      })
   }"

definition replenish_budget :: "nat \<Rightarrow> nat \<Rightarrow> sched \<Rightarrow> sched option" where
  "replenish_budget now i s = do {
     t \<leftarrow> task_at i s;
     (if t_state t = Throttled then do {
        (due, b) \<leftarrow> replenish_if_due now (t_budget t);
        s \<leftarrow> upd_task i (\<lambda>t. t\<lparr>t_budget := b\<rparr>) s;
        (if due then do {
           s \<leftarrow> make_ready i now s;
           Some (diag (\<lambda>d. d\<lparr>d_budget_replenishments := bump32 (d_budget_replenishments d)\<rparr>) s)
         } else Some s)
      } else Some s)
   }"

definition replenish_budgets :: "nat \<Rightarrow> sched \<Rightarrow> sched option" where
  "replenish_budgets now s = for_each (replenish_budget now) [0..<TASK_SLOT_COUNT] s"

definition wake_sleepers :: "nat \<Rightarrow> sched \<Rightarrow> sched option" where
  "wake_sleepers now s = do {
     s \<leftarrow> for_each (wake_sleeper now) [0..<TASK_SLOT_COUNT] s;
     replenish_budgets now s
   }"

definition on_timer :: "nat \<Rightarrow> nat \<Rightarrow> sched \<Rightarrow> (contract_violation option \<times> sched) option" where
  "on_timer now max_scheduler_lock_duration s = do {
     s \<leftarrow> wake_sleepers now s;
     let cur = current s;
     t \<leftarrow> task_at cur s;
     (if t_state t \<noteq> Running then Some (None, s)
      else do {
        let locked = (t_scheduler_lock_depth t \<noteq> 0);
        let (expiry, b) = budget_on_timer now locked (t_budget t);
        s \<leftarrow> upd_task cur (\<lambda>t. t\<lparr>t_budget := b\<rparr>) s;
        s \<leftarrow> (case expiry of
                ThrottleNow \<Rightarrow> do {
                  s \<leftarrow> upd_task cur (\<lambda>t. t\<lparr>t_state := Throttled,
                          t_metrics := (t_metrics t)\<lparr>m_budget_exhaustions :=
                            bump32 (m_budget_exhaustions (t_metrics t))\<rparr>\<rparr>) s;
                  Some (diag (\<lambda>d. d\<lparr>d_budget_exhaustions := bump32 (d_budget_exhaustions d),
                                   d_budget_throttles := bump32 (d_budget_throttles d)\<rparr>) s)
                }
              | DeferredBySchedulerLock \<Rightarrow> do {
                  s \<leftarrow> upd_task cur (\<lambda>t. t\<lparr>t_metrics := (t_metrics t)\<lparr>m_budget_exhaustions :=
                            bump32 (m_budget_exhaustions (t_metrics t))\<rparr>\<rparr>) s;
                  Some (diag (\<lambda>d. d\<lparr>d_budget_exhaustions := bump32 (d_budget_exhaustions d),
                                   d_budget_lock_overruns := bump32 (d_budget_lock_overruns d)\<rparr>) s)
                }
              | _ \<Rightarrow> Some s);
        t \<leftarrow> task_at cur s;
        let violation = (case t_scheduler_lock_started_at t of
              None \<Rightarrow> None
            | Some started_at \<Rightarrow>
                let held = sat_sub now started_at
                in if max_scheduler_lock_duration \<le> held
                   then Some (SchedulerLockOverrun cur held max_scheduler_lock_duration) else None);
        Some (violation,
              if violation \<noteq> None
              then diag (\<lambda>d. d\<lparr>d_scheduler_lock_overruns := bump32 (d_scheduler_lock_overruns d)\<rparr>) s
              else s)
      })
   }"

subsection \<open>Deadlines\<close>

definition has_wake_deadline :: "tcb \<Rightarrow> bool" where
  "has_wake_deadline t \<longleftrightarrow> (t_state t = Sleeping \<or> t_state t = Blocked) \<and> t_wake_at t \<noteq> 0"

definition earliest_wake_deadline :: "sched \<Rightarrow> nat option" where
  "earliest_wake_deadline s = iter_min (map t_wake_at (filter has_wake_deadline (tasks s)))"

definition earliest_budget_deadline :: "sched \<Rightarrow> nat option option" where
  "earliest_budget_deadline s = do {
     t \<leftarrow> task_at (current s) s;
     let current_deadline = (if t_state t = Running then exhaustion_deadline (t_budget t) else None);
     let replenish_deadline = iter_min (filter (\<lambda>d. d \<noteq> 0)
           (map (\<lambda>t. replenishes_at (t_budget t)) (filter (\<lambda>t. t_state t = Throttled) (tasks s))));
     Some (iter_min (opt_list current_deadline @ opt_list replenish_deadline))
   }"

definition scheduler_lock_deadline :: "nat \<Rightarrow> sched \<Rightarrow> nat option option" where
  "scheduler_lock_deadline max_duration s = do {
     t \<leftarrow> task_at (current s) s;
     Some (if t_state t = Running \<and> t_scheduler_lock_depth t \<noteq> 0
           then map_option (\<lambda>started_at. sat_add U64_MAX started_at max_duration)
                  (t_scheduler_lock_started_at t)
           else None)
   }"

definition has_equal_priority_ready :: "nat \<Rightarrow> sched \<Rightarrow> bool option" where
  "has_equal_priority_ready priority s = do { h \<leftarrow> arr_at (ready_head s) priority; Some (h \<noteq> NIL) }"

definition next_time_slice_deadline :: "nat \<Rightarrow> sched \<Rightarrow> (nat option \<times> sched) option" where
  "next_time_slice_deadline now s = do {
     t \<leftarrow> task_at (current s) s;
     (case t_run_policy t of
        Preemptive ts \<Rightarrow> do {
          equal_ready \<leftarrow> has_equal_priority_ready (t_priority t) s;
          (if \<not> equal_ready then Some (None, s\<lparr>time_slice_deadline := 0\<rparr>)
           else do {
             let s = (if time_slice_deadline s = 0
                      then s\<lparr>time_slice_deadline := sat_add U64_MAX now ts\<rparr> else s);
             Some (Some (time_slice_deadline s), s)
           })
        }
      | _ \<Rightarrow> Some (None, s\<lparr>time_slice_deadline := 0\<rparr>))
   }"

text \<open>
  The slice \<open>ready_head[..limit]\<close> is evaluated only when the conditions before it hold, and panics
  when \<open>limit\<close> is beyond the table.
\<close>

definition next_dispatch_deadline :: "nat \<Rightarrow> sched \<Rightarrow> (nat option \<times> sched) option" where
  "next_dispatch_deadline now s = do {
     t \<leftarrow> task_at (current s) s;
     urgent \<leftarrow> (if t_state t = Running \<and> t_scheduler_lock_depth t = 0
                   \<and> (current s = IDLE_SLOT \<or> is_preemptive (t_run_policy t))
                then do {
                  let limit = (if current s = IDLE_SLOT then length (ready_head s) else t_priority t);
                  assert_that (limit \<le> length (ready_head s));
                  Some (\<exists>h \<in> set (take limit (ready_head s)). h \<noteq> NIL)
                } else Some False);
     (if urgent then Some (Some now, s) else next_time_slice_deadline now s)
   }"

definition earliest_deadline ::
  "nat option \<Rightarrow> nat option \<Rightarrow> nat option \<Rightarrow> nat option \<Rightarrow> nat option \<Rightarrow> nat option" where
  "earliest_deadline wake dispatch budget scheduler_lock embassy =
     iter_min (opt_list wake @ opt_list dispatch @ opt_list budget @ opt_list scheduler_lock
               @ opt_list embassy)"

text \<open>
  The embassy deadline: the expiry of the embassy queue, a parameter, is in ticks; \<open>tpm\<close> is
  \<open>EMBASSY_TICKS_PER_MILLISECOND\<close>.
\<close>

definition embassy_next_expiration_locked :: "(nat \<Rightarrow> nat) \<Rightarrow> nat \<Rightarrow> nat \<Rightarrow> nat option" where
  "embassy_next_expiration_locked next_expiration tpm now =
     (let now_ticks = sat_mul U64_MAX now tpm;
          deadline_ticks = next_expiration now_ticks
      in if deadline_ticks = U64_MAX then None
         else let remaining_ticks = sat_sub deadline_ticks now_ticks;
                  delay_ms = sat_add U64_MAX remaining_ticks (tpm - 1) div tpm
              in Some (sat_add U64_MAX now (max delay_ms 1)))"

subsection \<open>Arming the timer\<close>

definition claim_timer_rearm_generation :: "64 word \<Rightarrow> 64 word" where
  "claim_timer_rearm_generation cell = cell + 1"

definition timer_rearm_ticket_is_current :: "64 word \<Rightarrow> 64 word \<Rightarrow> bool" where
  "timer_rearm_ticket_is_current cell ticket \<longleftrightarrow> cell = ticket"

datatype timer_command = Arm nat | Disarm

text \<open>The first critical section of a pass of \<open>rearm_timer\<close>: a new ticket and the deadline.\<close>

definition rearm_plan ::
  "nat \<Rightarrow> nat option \<Rightarrow> nat \<Rightarrow> 64 word \<Rightarrow> sched \<Rightarrow> (nat option \<times> 64 word \<times> sched) option" where
  "rearm_plan lock_limit embassy now cell s = do {
     let wake = earliest_wake_deadline s;
     (dispatch, s) \<leftarrow> next_dispatch_deadline now s;
     budget \<leftarrow> earliest_budget_deadline s;
     lock \<leftarrow> scheduler_lock_deadline lock_limit s;
     Some (earliest_deadline wake dispatch budget lock embassy, claim_timer_rearm_generation cell, s)
   }"

definition timer_command_for :: "nat \<Rightarrow> nat \<Rightarrow> nat option \<Rightarrow> timer_command" where
  "timer_command_for max_timer_delay now deadline =
     (case deadline of
        Some deadline \<Rightarrow> Arm (min (max (sat_sub deadline now) 1) max_timer_delay)
      | None \<Rightarrow> Disarm)"

text \<open>The critical section of \<open>on_timer_interrupt\<close>.\<close>

definition on_timer_interrupt :: "nat \<Rightarrow> nat \<Rightarrow> sched \<Rightarrow> (contract_violation option \<times> sched) option" where
  "on_timer_interrupt now lock_limit s = do {
     let s = diag (\<lambda>d. d\<lparr>d_timer_interrupts := bump32 (d_timer_interrupts d)\<rparr>) s;
     (violation, s) \<leftarrow> on_timer now lock_limit s;
     Some (violation,
           if time_slice_deadline s \<noteq> 0 \<and> time_slice_deadline s \<le> now
           then s\<lparr>time_slice_pending := True, time_slice_deadline := 0\<rparr> else s)
   }"

definition on_software_interrupt :: "sched \<Rightarrow> sched" where
  "on_software_interrupt s =
     diag (\<lambda>d. d\<lparr>d_software_interrupts := bump32 (d_software_interrupts d)\<rparr>) s"

end
