(* ===== verification/Inspection.thy ===== *)
theory Inspection
  imports Handoff
begin

text \<open>
  What the scheduler reports about itself (\<open>runtime/scheduler.rs\<close>): the audit of ready ownership,
  the diagnostics snapshots and the interrupt accounting. The audit does not trust the structure it
  reads: every traversal is bounded and every index is checked.
\<close>

subsection \<open>The ownership audit\<close>

record ready_audit =
  a_memberships :: "nat list"
  a_buckets :: "nat list"
  a_violations :: nat
  a_duplicate_memberships :: nat
  a_wrong_priorities :: nat
  a_invalid_links :: nat

definition audit_empty :: ready_audit where
  "audit_empty = \<lparr>
     a_memberships = replicate TASK_SLOT_COUNT 0,
     a_buckets = replicate TASK_SLOT_COUNT NO_READY_QUEUE_BUCKET,
     a_violations = 0,
     a_duplicate_memberships = 0,
     a_wrong_priorities = 0,
     a_invalid_links = 0\<rparr>"

text \<open>\<open>counter.saturating_add(1)\<close> on a \<open>u8\<close> counter.\<close>

abbreviation (input) bump8 :: "nat \<Rightarrow> nat" where
  "bump8 n \<equiv> sat_add U8_MAX n 1"

definition violation :: "ready_audit \<Rightarrow> ready_audit" where
  "violation a = a\<lparr>a_violations := bump8 (a_violations a)\<rparr>"

definition violation_if :: "bool \<Rightarrow> ready_audit \<Rightarrow> ready_audit" where
  "violation_if b a = (if b then violation a else a)"

text \<open>The counted violations: an invalid link, a second membership, a wrong priority.\<close>

definition invalid_link_if :: "bool \<Rightarrow> ready_audit \<Rightarrow> ready_audit" where
  "invalid_link_if b a =
     (if b then violation (a\<lparr>a_invalid_links := bump8 (a_invalid_links a)\<rparr>) else a)"

definition wrong_priority_if :: "bool \<Rightarrow> ready_audit \<Rightarrow> ready_audit" where
  "wrong_priority_if b a =
     (if b then violation (a\<lparr>a_wrong_priorities := bump8 (a_wrong_priorities a)\<rparr>) else a)"

definition count_member :: "nat \<Rightarrow> nat \<Rightarrow> ready_audit \<Rightarrow> ready_audit option" where
  "count_member priority task a = do {
     memberships \<leftarrow> arr_at (a_memberships a) task;
     let a = a\<lparr>a_memberships := (a_memberships a)[task := bump8 memberships]\<rparr>;
     Some (if memberships \<noteq> 0
           then violation (a\<lparr>a_duplicate_memberships := bump8 (a_duplicate_memberships a)\<rparr>)
           else a\<lparr>a_buckets := (a_buckets a)[task := priority]\<rparr>)
   }"

text \<open>The bounded walk along one bucket; the result is the cursor and the last task visited.\<close>

fun audit_walk ::
  "nat \<Rightarrow> nat \<Rightarrow> nat \<Rightarrow> nat \<Rightarrow> sched \<Rightarrow> ready_audit \<Rightarrow> (nat \<times> nat \<times> ready_audit) option" where
  "audit_walk 0 priority cur prev s a = Some (cur, prev, a)"
| "audit_walk (Suc n) priority cur prev s a =
     (if cur = NIL then Some (cur, prev, a)
      else if TASK_SLOT_COUNT \<le> cur then Some (NIL, prev, invalid_link_if True a)
      else do {
        a \<leftarrow> count_member priority cur a;
        t \<leftarrow> task_at cur s;
        audit_walk n priority (t_next t) cur s (wrong_priority_if (t_priority t \<noteq> priority) a)
      })"

definition audit_bucket :: "sched \<Rightarrow> nat \<Rightarrow> ready_audit \<Rightarrow> ready_audit option" where
  "audit_bucket s priority a = do {
     head \<leftarrow> arr_at (ready_head s) priority;
     tail \<leftarrow> arr_at (ready_tail s) priority;
     let a = invalid_link_if ((head = NIL) \<noteq> (tail = NIL)) a;
     let a = invalid_link_if (tail \<noteq> NIL \<and> TASK_SLOT_COUNT \<le> tail) a;
     (cur, prev, a) \<leftarrow> audit_walk TASK_SLOT_COUNT priority head NIL s a;
     let a = invalid_link_if (cur \<noteq> NIL \<or> (head \<noteq> NIL \<and> prev \<noteq> tail)) a;
     (if tail < TASK_SLOT_COUNT then do {
        t \<leftarrow> task_at tail s;
        Some (invalid_link_if (t_next t \<noteq> NIL) a)
      } else Some a)
   }"

text \<open>\<open>audited_target\<close> is the target of the pending switch when its identity is still valid.\<close>

definition audited_target :: "sched \<Rightarrow> nat option" where
  "audited_target s =
     (case pending_switch s of
        None \<Rightarrow> None
      | Some pending \<Rightarrow> if task_ref_is_current (ps_target pending) s
                       then Some (ref_slot (ps_target pending)) else None)"

definition audit_task :: "sched \<Rightarrow> nat \<Rightarrow> ready_audit \<Rightarrow> ready_audit option" where
  "audit_task s task a = do {
     queued \<leftarrow> arr_at (a_memberships a) task;
     t \<leftarrow> task_at task s;
     let pending = (audited_target s = Some task);
     Some (case t_state t of
        Ready \<Rightarrow>
          if task = IDLE_SLOT
          then violation_if (pending \<and> queued \<noteq> 0) (violation_if (queued \<noteq> 0) a)
          else violation_if (sat_add U8_MAX queued (of_bool pending) \<noteq> 1) a
      | Running \<Rightarrow> violation_if (task \<noteq> current s \<or> queued \<noteq> 0 \<or> pending) a
      | _ \<Rightarrow> violation_if (queued \<noteq> 0 \<or> pending) a)
   }"

definition running_tasks :: "sched \<Rightarrow> nat" where
  "running_tasks s = length (filter (\<lambda>t. t_state t = Running) (take TASK_SLOT_COUNT (tasks s)))"

definition audit_current :: "sched \<Rightarrow> ready_audit \<Rightarrow> ready_audit" where
  "audit_current s a =
     (if started s then
        (let bad_current = (case task_at (current s) s of Some t \<Rightarrow> t_state t = Running | None \<Rightarrow> False)
         in case pending_switch s of
              Some pending \<Rightarrow>
                violation_if (running_tasks s \<noteq> 0 \<or> current s \<noteq> ref_slot (ps_previous pending)
                  \<or> TASK_SLOT_COUNT \<le> current s \<or> bad_current) a
            | None \<Rightarrow>
                violation_if (running_tasks s \<noteq> 1 \<or> TASK_SLOT_COUNT \<le> current s \<or> \<not> bad_current) a)
      else a)"

definition ready_ownership_audit :: "sched \<Rightarrow> ready_audit option" where
  "ready_ownership_audit s = do {
     a \<leftarrow> for_each (audit_bucket s) [0..<PRIORITY_LEVELS] audit_empty;
     let a = violation_if (pending_switch s \<noteq> None \<and> audited_target s = None) a;
     a \<leftarrow> for_each (audit_task s) [0..<TASK_SLOT_COUNT] a;
     Some (audit_current s a)
   }"

subsection \<open>Snapshots\<close>

definition dynamic_slot_end :: "nat \<Rightarrow> nat option" where
  "dynamic_slot_end dynamic_capacity = do {
     assert_that (dynamic_capacity \<le> DYNAMIC_TASK_CAPACITY);
     Some (IDLE_SLOT + 1 + dynamic_capacity)
   }"

text \<open>\<open>&self.tasks[from..to]\<close>: a slice that panics out of range.\<close>

definition task_slice :: "nat \<Rightarrow> nat \<Rightarrow> sched \<Rightarrow> tcb list option" where
  "task_slice from to s = do {
     assert_that (from \<le> to \<and> to \<le> length (tasks s));
     Some (drop from (take to (tasks s)))
   }"

definition state_count :: "tstate \<Rightarrow> sched \<Rightarrow> nat" where
  "state_count st s = length (filter (\<lambda>t. t_state t = st) (tasks s))"

definition as_u8 :: "nat \<Rightarrow> nat" where
  "as_u8 n = n mod 256"

definition diagnostics_with_capacity :: "nat \<Rightarrow> sched \<Rightarrow> diagnostics option" where
  "diagnostics_with_capacity dynamic_capacity s = do {
     audit \<leftarrow> ready_ownership_audit s;
     end_slot \<leftarrow> dynamic_slot_end dynamic_capacity;
     dynamic_tasks \<leftarrow> task_slice (IDLE_SLOT + 1) end_slot s;
     let d = diagnostics s;
     let used = as_u8 (length (filter (\<lambda>t. t_state t \<noteq> Free) dynamic_tasks));
     let reserved = as_u8 (rt_total_remaining (reservations s));
     Some (d\<lparr>d_ready_ownership_violations := a_violations audit,
             d_ready_queue_duplicate_memberships := a_duplicate_memberships audit,
             d_ready_queue_wrong_priorities := a_wrong_priorities audit,
             d_ready_queue_invalid_links := a_invalid_links audit,
             d_dynamic_capacity := as_u8 dynamic_capacity,
             d_current_task := current s,
             d_current_lock_depth :=
               (case task_at (current s) s of Some t \<Rightarrow> t_scheduler_lock_depth t | None \<Rightarrow> 0),
             d_ready_tasks := sat_add U8_MAX (d_ready_tasks d) (state_count Ready s),
             d_blocked_tasks := sat_add U8_MAX (d_blocked_tasks d) (state_count Blocked s),
             d_sleeping_tasks := sat_add U8_MAX (d_sleeping_tasks d) (state_count Sleeping s),
             d_throttled_tasks := sat_add U8_MAX (d_throttled_tasks d) (state_count Throttled s),
             d_dynamic_used := used,
             d_dynamic_reserved := reserved,
             d_dynamic_free := sat_sub (sat_sub (as_u8 dynamic_capacity) used) reserved\<rparr>)
   }"

fun task_state_of :: "tstate \<Rightarrow> task_state" where
  "task_state_of Free = TFree"
| "task_state_of Ready = TReady"
| "task_state_of Running = TRunning"
| "task_state_of Blocked = TBlocked"
| "task_state_of Sleeping = TSleeping"
| "task_state_of Throttled = TThrottled"

definition task_diagnostic_of :: "ready_audit \<Rightarrow> nat \<Rightarrow> sched \<Rightarrow> nat \<Rightarrow> task_diagnostic option" where
  "task_diagnostic_of audit now s i = do {
     t \<leftarrow> task_at i s;
     memberships \<leftarrow> arr_at (a_memberships audit) i;
     bucket \<leftarrow> arr_at (a_buckets audit) i;
     let m = t_metrics t;
     Some \<lparr>td_task = i,
       td_generation = t_identity_generation t,
       td_state = task_state_of (t_state t),
       td_ready_queued = (memberships \<noteq> 0),
       td_pending_switch_target = (pending_target s = Some i),
       td_ready_queue_bucket = bucket,
       td_ready_queue_memberships = memberships,
       td_entry = (case t_entry t of Some e \<Rightarrow> e | None \<Rightarrow> 0),
       td_stack_size = t_stack_size t,
       td_waiting_sem = t_waiting_sem t,
       td_waiting_mutex = t_waiting_mutex t,
       td_wake_at = t_wake_at t,
       td_base_priority = t_base_priority t,
       td_priority = t_priority t,
       td_scheduler_lock_depth = t_scheduler_lock_depth t,
       td_run_policy = t_run_policy t,
       td_budget_remaining = remaining (t_budget t),
       td_budget_replenishes_at = replenishes_at (t_budget t),
       td_cpu_time_ms = sat_add U64_MAX (m_cpu_time_ms m) (running_elapsed now m),
       td_irq_time_ms = m_irq_time_ms m,
       td_dispatches = m_dispatches m,
       td_budget_exhaustions = m_budget_exhaustions m,
       td_max_continuous_run_ms = max (m_max_continuous_run_ms m) (running_elapsed now m),
       td_max_ready_latency_ms = m_max_ready_latency_ms m,
       td_scheduler_lock_entries = m_scheduler_lock_entries m,
       td_max_scheduler_lock_ms = tcb_max_scheduler_lock_ms now t,
       td_irq_entries = m_irq_entries m,
       td_max_irq_span_ms = m_max_irq_span_ms m\<rparr>
   }"

fun map_option_list :: "('a \<Rightarrow> 'b option) \<Rightarrow> 'a list \<Rightarrow> 'b list option" where
  "map_option_list f [] = Some []"
| "map_option_list f (x # xs) = do { y \<leftarrow> f x; ys \<leftarrow> map_option_list f xs; Some (y # ys) }"

text \<open>The written prefix of the output slice, whose length is \<open>len\<close>; the result is its length.\<close>

definition task_diagnostics :: "nat \<Rightarrow> nat \<Rightarrow> sched \<Rightarrow> task_diagnostic list option" where
  "task_diagnostics len now s = do {
     audit \<leftarrow> ready_ownership_audit s;
     let count = min len TASK_SLOT_COUNT;
     map_option_list (task_diagnostic_of audit now s) [0..<count]
   }"

subsection \<open>Interrupt accounting\<close>

definition sched_interrupt_enter :: "nat \<Rightarrow> sched \<Rightarrow> sched option" where
  "sched_interrupt_enter now s = do {
     assert_that (irq_task s = NIL);
     let s = s\<lparr>irq_task := current s, irq_started_at := now\<rparr>;
     upd_task (current s) (\<lambda>t. t\<lparr>t_metrics := (t_metrics t)\<lparr>m_irq_entries :=
         bump32 (m_irq_entries (t_metrics t))\<rparr>\<rparr>) s
   }"

definition sched_interrupt_exit :: "nat \<Rightarrow> sched \<Rightarrow> sched option" where
  "sched_interrupt_exit now s =
     (if irq_task s = NIL \<or> irq_started_at s = NO_TIMESTAMP then Some s
      else do {
        let task = irq_task s;
        let elapsed = sat_sub now (irq_started_at s);
        s \<leftarrow> upd_task task (\<lambda>t. t\<lparr>t_metrics := (t_metrics t)\<lparr>
               m_irq_time_ms := sat_add U64_MAX (m_irq_time_ms (t_metrics t)) elapsed,
               m_max_irq_span_ms := max (m_max_irq_span_ms (t_metrics t)) elapsed\<rparr>\<rparr>) s;
        Some (s\<lparr>irq_task := NIL, irq_started_at := NO_TIMESTAMP\<rparr>)
      })"

end
