(* ===== verification/Admission.thy ===== *)
theory Admission
  imports Inspection
begin

text \<open>
  Admission of dynamic tasks and run policies (\<open>runtime/scheduler.rs\<close>): the slots that are free
  and not promised to a reservation, the reservations themselves, and the change of the policy of
  a live task. The reservation table is the one of \<open>Reservation\<close>.
\<close>

subsection \<open>Slots\<close>

definition free_dynamic :: "nat \<Rightarrow> sched \<Rightarrow> nat option" where
  "free_dynamic dynamic_capacity s = do {
     end_slot \<leftarrow> dynamic_slot_end dynamic_capacity;
     dynamic_tasks \<leftarrow> task_slice (IDLE_SLOT + 1) end_slot s;
     Some (length (filter (\<lambda>t. t_state t = Free) dynamic_tasks))
   }"

text \<open>\<open>(from..to).find(|&i| self.tasks[i].state == State::Free)\<close>.\<close>

fun find_free :: "nat list \<Rightarrow> sched \<Rightarrow> nat option option" where
  "find_free [] s = Some None"
| "find_free (i # is) s = do {
     t \<leftarrow> task_at i s;
     (if t_state t = Free then Some (Some i) else find_free is s)
   }"

definition first_free_dynamic :: "nat \<Rightarrow> sched \<Rightarrow> nat option option" where
  "first_free_dynamic dynamic_capacity s = do {
     end_slot \<leftarrow> dynamic_slot_end dynamic_capacity;
     find_free [IDLE_SLOT + 1..<end_slot] s
   }"

definition alloc_dynamic_slot_with_capacity :: "nat \<Rightarrow> sched \<Rightarrow> (nat res) option" where
  "alloc_dynamic_slot_with_capacity dynamic_capacity s = do {
     free \<leftarrow> free_dynamic dynamic_capacity s;
     (if free \<le> rt_total_remaining (reservations s) then Some (Inl NoTaskSlots)
      else do {
        slot \<leftarrow> first_free_dynamic dynamic_capacity s;
        Some (case slot of Some i \<Rightarrow> Inr i | None \<Rightarrow> Inl NoTaskSlots)
      })
   }"

text \<open>Slots that are free and not promised: \<open>available\<close> of the three reservation routines.\<close>

definition available_dynamic :: "nat \<Rightarrow> sched \<Rightarrow> nat option" where
  "available_dynamic dynamic_capacity s = do {
     free \<leftarrow> free_dynamic dynamic_capacity s;
     Some (sat_sub free (rt_total_remaining (reservations s)))
   }"

definition on_reservations ::
  "(reservation_table \<Rightarrow> ('r \<times> reservation_table) option) \<Rightarrow> sched \<Rightarrow> ('r \<times> sched) option" where
  "on_reservations f s = do {
     (r, t) \<leftarrow> f (reservations s);
     Some (r, s\<lparr>reservations := t\<rparr>)
   }"

definition reserve_dynamic_slots_with_capacity ::
  "nat \<Rightarrow> nat \<Rightarrow> sched \<Rightarrow> (('o task_admission_error + 32 word) \<times> sched) option" where
  "reserve_dynamic_slots_with_capacity required dynamic_capacity s = do {
     available \<leftarrow> available_dynamic dynamic_capacity s;
     on_reservations (reserve required available) s
   }"

definition reserve_dynamic_task_resources_with_capacity ::
  "task_resource_requirements \<Rightarrow> nat list \<Rightarrow> nat \<Rightarrow> sched
    \<Rightarrow> (('o task_admission_error + 32 word) \<times> sched) option" where
  "reserve_dynamic_task_resources_with_capacity required stacks dynamic_capacity s = do {
     available \<leftarrow> available_dynamic dynamic_capacity s;
     on_reservations (reserve_with_stacks required available stacks) s
   }"

definition reserve_dynamic_task_resource_plan_with_capacity ::
  "'o task_resource_group list \<Rightarrow> nat list list \<Rightarrow> nat \<Rightarrow> sched
    \<Rightarrow> (('o task_admission_error + 32 word list) \<times> sched) option" where
  "reserve_dynamic_task_resource_plan_with_capacity plan stacks dynamic_capacity s = do {
     available \<leftarrow> available_dynamic dynamic_capacity s;
     on_reservations (reserve_plan_with_stacks plan available stacks) s
   }"

definition sched_release_task_reservation ::
  "32 word \<Rightarrow> sched \<Rightarrow> (released_task_resources res \<times> sched) option" where
  "sched_release_task_reservation reservation s = on_reservations (release reservation) s"

definition sched_reservation_stack_size :: "32 word \<Rightarrow> sched \<Rightarrow> (nat option) res" where
  "sched_reservation_stack_size reservation s = reservation_stack_size reservation (reservations s)"

definition alloc_reserved_dynamic_slot_with_capacity ::
  "32 word \<Rightarrow> nat \<Rightarrow> sched \<Rightarrow> ((nat \<times> reserved_stack option) res \<times> sched) option" where
  "alloc_reserved_dynamic_slot_with_capacity reservation dynamic_capacity s =
     (case ensure_consumable reservation (reservations s) of
        Inl e \<Rightarrow> Some (Inl e, s)
      | Inr _ \<Rightarrow> do {
          slot \<leftarrow> first_free_dynamic dynamic_capacity s;
          (case slot of
             None \<Rightarrow> Some (Inl NoTaskSlots, s)
           | Some i \<Rightarrow> do {
               (r, s) \<leftarrow> on_reservations (consume reservation) s;
               Some (case r of Inl e \<Rightarrow> Inl e | Inr stack \<Rightarrow> Inr (i, stack), s)
             })
        })"

subsection \<open>Run policies\<close>

definition set_run_policy :: "nat \<Rightarrow> run_policy \<Rightarrow> nat \<Rightarrow> sched \<Rightarrow> sched option" where
  "set_run_policy slot policy now s = do {
     t \<leftarrow> task_at slot s;
     was_ready_queued \<leftarrow> (if t_state t = Ready then ready_contains slot s else Some False);
     let s = (if t_state t = Ready \<and> \<not> was_ready_queued \<and> pending_target s = Some slot
              then diag (\<lambda>d. d\<lparr>d_detached_pending_policy_mutations :=
                                bump32 (d_detached_pending_policy_mutations d)\<rparr>) s
              else s);
     let was_throttled = (t_state t = Throttled);
     s \<leftarrow> (if was_ready_queued then ready_remove slot s else Some s);
     let b = for_policy policy now;
     s \<leftarrow> upd_task slot (\<lambda>t. t\<lparr>t_run_policy := policy, t_budget := b\<rparr>) s;
     s \<leftarrow> (if t_state t = Running then do {
             b \<leftarrow> budget_on_dispatch now b;
             upd_task slot (\<lambda>t. t\<lparr>t_budget := b\<rparr>) s
           } else if was_throttled then
             upd_task slot (\<lambda>t. t\<lparr>t_state := Ready, t_metrics := metrics_on_ready now (t_metrics t)\<rparr>) s
           else Some s);
     (if was_ready_queued \<or> was_throttled then ready_push slot s else Some s)
   }"

end
