(* ===== verification/Runtime.thy ===== *)
theory Runtime
  imports Timer Admission
begin

text \<open>
  The process-wide runtime (\<open>runtime.rs\<close>, \<open>runtime/time.rs\<close>, \<open>context.rs\<close>): the globals around the
  scheduler, the timer protocol, start-up, task creation, and the calls that give up the processor.

  \<open>'h env\<close> holds what the runtime only calls: the clock (its \<open>k\<close>-th reading), the allocators, the
  installation of the driver contract, the embassy queue, and the addresses and registers the
  start-up code reads. \<open>'h\<close> is the state of the allocators. Calls to the scheduler port are
  recorded in \<open>g_calls\<close>. A call that gives up the processor ends in the model at the point where
  the caller stops running; the result says whether the caller still runs.
\<close>

subsection \<open>Globals\<close>

record start_config =
  sc_minimum_stack_size :: nat
  sc_radio_task_policy :: run_policy
  sc_max_scheduler_lock_duration :: "nat option"

text \<open>
  Of the storage the runtime uses its dynamic capacity, of the port its largest delay; the function
  pointers of both are in \<open>env\<close>.
\<close>

record start_state =
  ss_config :: start_config
  ss_storage :: "nat option"
  ss_port :: "nat option"

datatype port_call = ArmTimer nat | DisarmTimer | PendReschedule | ReportViolation contract_violation

record 'h env =
  e_monotonic_ms :: "nat \<Rightarrow> nat"
  e_storage_allocate :: "nat \<Rightarrow> 'h \<Rightarrow> nat \<times> 'h"
  e_storage_deallocate :: "nat \<Rightarrow> 'h \<Rightarrow> 'h"
  e_storage_largest :: "'h \<Rightarrow> nat"
  e_app_allocate :: "nat \<Rightarrow> 'h \<Rightarrow> nat \<times> 'h"
  e_app_deallocate :: "nat \<Rightarrow> 'h \<Rightarrow> 'h"
  e_embassy_deadline :: "nat \<Rightarrow> nat option"
  e_install :: "driver_error option"
  e_idle_stack :: nat
  e_idle_entry :: nat
  e_trampoline :: nat
  e_tp :: "32 word"
  e_fcsr :: "32 word"

record 'h rt =
  g_sched :: sched
  g_interrupt_depth :: nat
  g_start :: "start_state option"
  g_handles :: resource_table
  g_timer_cell :: "64 word"
  g_machine_interrupts :: bool
  g_reads :: nat
  g_heap :: 'h
  g_frames :: "nat \<Rightarrow> (32 word list) option"
  g_calls :: "port_call list"

definition on_sched :: "(sched \<Rightarrow> ('r \<times> sched) option) \<Rightarrow> 'h rt \<Rightarrow> ('r \<times> 'h rt) option" where
  "on_sched f g = do { (r, s) \<leftarrow> f (g_sched g); Some (r, g\<lparr>g_sched := s\<rparr>) }"

definition port_log :: "port_call \<Rightarrow> 'h rt \<Rightarrow> 'h rt" where
  "port_log c g = g\<lparr>g_calls := g_calls g @ [c]\<rparr>"

definition ported :: "start_state \<Rightarrow> bool" where
  "ported st \<longleftrightarrow> ss_port st \<noteq> None"

text \<open>\<open>start_state()\<close> panics before the runtime is started.\<close>

definition now_ms :: "'h env \<Rightarrow> 'h rt \<Rightarrow> (nat \<times> 'h rt) option" where
  "now_ms e g = do {
     st \<leftarrow> g_start g;
     Some (e_monotonic_ms e (g_reads g), g\<lparr>g_reads := g_reads g + 1\<rparr>)
   }"

definition allocate :: "'h env \<Rightarrow> nat \<Rightarrow> 'h rt \<Rightarrow> (nat \<times> 'h rt) option" where
  "allocate e bytes g = do {
     st \<leftarrow> g_start g;
     let (p, h) = (case ss_storage st of
                     Some _ \<Rightarrow> e_storage_allocate e bytes (g_heap g)
                   | None \<Rightarrow> e_app_allocate e bytes (g_heap g));
     Some (p, g\<lparr>g_heap := h\<rparr>)
   }"

definition deallocate :: "'h env \<Rightarrow> nat \<Rightarrow> 'h rt \<Rightarrow> 'h rt option" where
  "deallocate e p g = do {
     st \<leftarrow> g_start g;
     Some (g\<lparr>g_heap := (case ss_storage st of
                          Some _ \<Rightarrow> e_storage_deallocate e p (g_heap g)
                        | None \<Rightarrow> e_app_deallocate e p (g_heap g))\<rparr>)
   }"

definition largest_allocatable_stack :: "'h env \<Rightarrow> 'h rt \<Rightarrow> nat option" where
  "largest_allocatable_stack e g = do {
     st \<leftarrow> g_start g;
     Some (case ss_storage st of Some _ \<Rightarrow> e_storage_largest e (g_heap g) | None \<Rightarrow> 0)
   }"

definition dynamic_capacity :: "'h rt \<Rightarrow> nat option" where
  "dynamic_capacity g = do {
     st \<leftarrow> g_start g;
     Some (case ss_storage st of Some n \<Rightarrow> n | None \<Rightarrow> DYNAMIC_TASK_CAPACITY)
   }"

subsection \<open>The shared timer\<close>

text \<open>One pass of the loop of \<open>rearm_timer\<close> up to its second critical section.\<close>

definition rearm_pass :: "'h env \<Rightarrow> start_state \<Rightarrow> nat \<Rightarrow> 'h rt \<Rightarrow> (64 word \<times> 'h rt) option" where
  "rearm_pass e st max_timer_delay g = do {
     (now, g) \<leftarrow> now_ms e g;
     lock_limit \<leftarrow> sc_max_scheduler_lock_duration (ss_config st);
     (deadline, cell, s) \<leftarrow> rearm_plan lock_limit (e_embassy_deadline e now) now (g_timer_cell g) (g_sched g);
     let g = g\<lparr>g_sched := s, g_timer_cell := cell\<rparr>;
     (case timer_command_for max_timer_delay now deadline of
        Arm delay \<Rightarrow> do {
          assert_that (delay \<noteq> 0);
          Some (cell, port_log (ArmTimer delay) g)
        }
      | Disarm \<Rightarrow> Some (cell, port_log DisarmTimer g))
   }"

partial_function (option) rearm_loop :: "'h env \<Rightarrow> start_state \<Rightarrow> nat \<Rightarrow> 'h rt \<Rightarrow> 'h rt option" where
  "rearm_loop e st max_timer_delay g = do {
     (ticket, g) \<leftarrow> rearm_pass e st max_timer_delay g;
     (if timer_rearm_ticket_is_current (g_timer_cell g) ticket then Some g
      else rearm_loop e st max_timer_delay g)
   }"

declare rearm_loop.simps [code]

definition rearm_timer :: "'h env \<Rightarrow> 'h rt \<Rightarrow> 'h rt option" where
  "rearm_timer e g = do {
     st \<leftarrow> g_start g;
     (case ss_port st of
        None \<Rightarrow> Some g
      | Some max_timer_delay \<Rightarrow> rearm_loop e st max_timer_delay g)
   }"

definition request_reschedule :: "'h env \<Rightarrow> 'h rt \<Rightarrow> 'h rt option" where
  "request_reschedule e g = do {
     st \<leftarrow> g_start g;
     (if ported st then do {
        g \<leftarrow> rearm_timer e g;
        Some (port_log PendReschedule g)
      } else Some g)
   }"

text \<open>The violation callback of the port never returns: the result names the violation it was given.\<close>

definition timer_interrupt :: "'h env \<Rightarrow> 'h rt \<Rightarrow> (contract_violation option \<times> 'h rt) option" where
  "timer_interrupt e g = do {
     (now, g) \<leftarrow> now_ms e g;
     st \<leftarrow> g_start g;
     lock_limit \<leftarrow> sc_max_scheduler_lock_duration (ss_config st);
     (violation, g) \<leftarrow> on_sched (on_timer_interrupt now lock_limit) g;
     (case violation of
        None \<Rightarrow> do { g \<leftarrow> rearm_timer e g; Some (None, g) }
      | Some v \<Rightarrow> do {
          _ \<leftarrow> ss_port st;
          Some (Some v, port_log (ReportViolation v) g)
        })
   }"

definition software_interrupt :: "'h rt \<Rightarrow> 'h rt" where
  "software_interrupt g = g\<lparr>g_sched := on_software_interrupt (g_sched g)\<rparr>"

subsection \<open>Interrupts and switch delivery\<close>

definition interrupt_enter :: "'h env \<Rightarrow> 'h rt \<Rightarrow> 'h rt option" where
  "interrupt_enter e g = do {
     let now = (if g_start g = None then None else Some (e_monotonic_ms e (g_reads g)));
     let g = (if g_start g = None then g else g\<lparr>g_reads := g_reads g + 1\<rparr>);
     s \<leftarrow> (case now of
             Some now \<Rightarrow> if g_interrupt_depth g = 0 then sched_interrupt_enter now (g_sched g)
                        else Some (g_sched g)
           | None \<Rightarrow> Some (g_sched g));
     Some (g\<lparr>g_sched := s, g_interrupt_depth := sat_add U16_MAX (g_interrupt_depth g) 1\<rparr>)
   }"

definition interrupt_exit :: "'h env \<Rightarrow> 'h rt \<Rightarrow> 'h rt option" where
  "interrupt_exit e g = do {
     let now = (if g_start g = None then None else Some (e_monotonic_ms e (g_reads g)));
     let g = (if g_start g = None then g else g\<lparr>g_reads := g_reads g + 1\<rparr>);
     assert_that (g_interrupt_depth g \<noteq> 0);
     s \<leftarrow> (case now of
             Some now \<Rightarrow> if g_interrupt_depth g = 1 then sched_interrupt_exit now (g_sched g)
                        else Some (g_sched g)
           | None \<Rightarrow> Some (g_sched g));
     Some (g\<lparr>g_sched := s, g_interrupt_depth := sat_sub (g_interrupt_depth g) 1\<rparr>)
   }"

definition hisi_irq_epilogue :: "'h env \<Rightarrow> nat \<Rightarrow> 'h rt \<Rightarrow> (nat \<times> 'h rt) option" where
  "hisi_irq_epilogue e encoded_frame g = do {
     (now, g) \<leftarrow> now_ms e g;
     (next_frame, g) \<leftarrow> on_sched (schedule_from_trap encoded_frame (g_interrupt_depth g) now) g;
     g \<leftarrow> rearm_timer e g;
     Some (next_frame, g)
   }"

definition reclaim_retired_stacks :: "'h env \<Rightarrow> 'h rt \<Rightarrow> 'h rt option" where
  "reclaim_retired_stacks e g = do {
     let s = g_sched g;
     let (stacks, count) = (retired_stacks s, retired_count s);
     let g = g\<lparr>g_sched := s\<lparr>retired_stacks := replicate TASK_SLOT_COUNT 0, retired_count := 0\<rparr>\<rparr>;
     assert_that (count \<le> length stacks);
     for_each (deallocate e) (take count stacks) g
   }"

definition switch_delivery_is_valid :: "bool \<Rightarrow> bool \<Rightarrow> bool \<Rightarrow> bool" where
  "switch_delivery_is_valid is_ported in_interrupt machine_interrupts_enabled \<longleftrightarrow>
     \<not> is_ported \<or> in_interrupt \<or> machine_interrupts_enabled"

definition ensure_switch_delivery :: "'h rt \<Rightarrow> (unit res) option" where
  "ensure_switch_delivery g = do {
     st \<leftarrow> g_start g;
     Some (if switch_delivery_is_valid (ported st) (g_interrupt_depth g \<noteq> 0) (g_machine_interrupts g)
           then Inr () else Inl InvalidContext)
   }"

subsection \<open>Frames and start-up\<close>

definition TASK_CONTEXT_WORDS :: nat where "TASK_CONTEXT_WORDS = 68"

definition irq_frame_words :: "nat \<Rightarrow> nat \<Rightarrow> 32 word \<Rightarrow> 32 word \<Rightarrow> 32 word list" where
  "irq_frame_words top_addr entry tp fcsr =
     (replicate TASK_CONTEXT_WORDS 0)[0 := 0x7880, 1 := of_nat entry, 2 := tp, 3 := of_nat top_addr, 64 := fcsr]"

definition initialize_irq_frame ::
  "nat \<Rightarrow> nat \<Rightarrow> 32 word \<Rightarrow> 32 word \<Rightarrow> 'h rt \<Rightarrow> (nat \<times> 'h rt) option" where
  "initialize_irq_frame top_addr entry tp fcsr g = do {
     frame \<leftarrow> chk_sub top_addr (TASK_CONTEXT_WORDS * 4);
     Some (frame, g\<lparr>g_frames := (g_frames g)(frame \<mapsto> irq_frame_words top_addr entry tp fcsr)\<rparr>)
   }"

text \<open>\<open>(base + bytes) & !0xf\<close>.\<close>

definition stack_top :: "nat \<Rightarrow> nat \<Rightarrow> nat option" where
  "stack_top base bytes = do {
     top_addr \<leftarrow> chk_add USIZE_MAX base bytes;
     Some (top_addr div 16 * 16)
   }"

definition initial_context :: "'h env \<Rightarrow> nat \<Rightarrow> task_context" where
  "initial_context e top_addr = task_context_zero\<lparr>cx_tp := e_tp e, cx_mstatus := 0x7880, cx_fcsr := e_fcsr e,
     cx_mepc := of_nat (e_trampoline e), cx_sp := of_nat top_addr\<rparr>"

definition init_main :: "nat \<Rightarrow> sched \<Rightarrow> sched option" where
  "init_main now s = do {
     b \<leftarrow> budget_on_dispatch now (for_policy Cooperative now);
     s \<leftarrow> upd_task 0 (\<lambda>t. t\<lparr>t_state := Running, t_identity_generation := 1, t_run_policy := Cooperative,
                           t_budget := b, t_metrics := metrics_on_dispatch now (t_metrics t)\<rparr>) s;
     assert_that (0 < length (slot_generations s));
     Some (s\<lparr>slot_generations := (slot_generations s)[0 := 1], current := 0\<rparr>)
   }"

definition init_idle :: "task_context \<Rightarrow> nat option \<Rightarrow> nat \<Rightarrow> nat \<Rightarrow> sched \<Rightarrow> sched option" where
  "init_idle ctx frame entry now s = do {
     s \<leftarrow> upd_task IDLE_SLOT (\<lambda>t. t\<lparr>t_ctx := ctx,
            t_saved_frame := (case frame of Some f \<Rightarrow> f | None \<Rightarrow> t_saved_frame t),
            t_state := Ready, t_stack := 0, t_stack_size := 0, t_entry := Some entry, t_arg := 0,
            t_base_priority := PRIORITY_LEVELS - 1, t_priority := PRIORITY_LEVELS - 1,
            t_identity_generation := 1, t_run_policy := Cooperative, t_budget := budget_none,
            t_metrics := metrics_on_ready now (t_metrics t)\<rparr>) s;
     assert_that (IDLE_SLOT < length (slot_generations s));
     Some (s\<lparr>slot_generations := (slot_generations s)[IDLE_SLOT := 1], started := True\<rparr>)
   }"

definition init :: "'h env \<Rightarrow> 'h rt \<Rightarrow> 'h rt option" where
  "init e g = do {
     (now, g) \<leftarrow> now_ms e g;
     st \<leftarrow> g_start g;
     idle_top \<leftarrow> stack_top (e_idle_stack e) IDLE_STACK_SIZE;
     (if started (g_sched g) then Some g
      else do {
        s \<leftarrow> init_main now (g_sched g);
        (frame, g) \<leftarrow> (if ported st then do {
            (f, g) \<leftarrow> initialize_irq_frame idle_top (e_trampoline e) (e_tp e) (e_fcsr e) g;
            Some (Some f, g)
          } else Some (None, g));
        s \<leftarrow> init_idle (initial_context e idle_top) frame (e_idle_entry e) now s;
        Some (g\<lparr>g_sched := s\<rparr>)
      })
   }"

definition start_inner ::
  "'h env \<Rightarrow> start_config \<Rightarrow> nat option \<Rightarrow> nat option \<Rightarrow> 'h rt \<Rightarrow> ((start_error + unit) \<times> 'h rt) option" where
  "start_inner e config storage port g =
     (if g_start g \<noteq> None then Some (Inl AlreadyStarted, g)
      else do {
        let g = g\<lparr>g_start := Some \<lparr>ss_config = config, ss_storage = storage, ss_port = port\<rparr>\<rparr>;
        (case e_install e of
           Some error \<Rightarrow> Some (Inl (DriverFailure error), g\<lparr>g_start := None\<rparr>)
         | None \<Rightarrow> do {
             g \<leftarrow> init e g;
             g \<leftarrow> rearm_timer e g;
             Some (Inr (), g)
           })
      })"

definition cooperative_start_config :: "cooperative_config \<Rightarrow> start_config" where
  "cooperative_start_config c = \<lparr>sc_minimum_stack_size = cc_minimum_stack_size c,
     sc_radio_task_policy = Cooperative, sc_max_scheduler_lock_duration = None\<rparr>"

definition ported_start_config :: "ported_config \<Rightarrow> start_config" where
  "ported_start_config c = \<lparr>sc_minimum_stack_size = pc_minimum_stack_size c,
     sc_radio_task_policy = pc_radio_task_policy c,
     sc_max_scheduler_lock_duration = Some (pc_max_scheduler_lock_duration c)\<rparr>"

definition start_cooperative ::
  "'h env \<Rightarrow> cooperative_config \<Rightarrow> 'h rt \<Rightarrow> ((start_error + unit) \<times> 'h rt) option" where
  "start_cooperative e config g = start_inner e (cooperative_start_config config) None None g"

definition start_with_port ::
  "'h env \<Rightarrow> ported_config \<Rightarrow> nat \<Rightarrow> 'h rt \<Rightarrow> ((start_error + unit) \<times> 'h rt) option" where
  "start_with_port e config max_timer_delay g =
     start_inner e (ported_start_config config) None (Some max_timer_delay) g"

definition start_cooperative_with_storage ::
  "'h env \<Rightarrow> cooperative_config \<Rightarrow> nat \<Rightarrow> 'h rt \<Rightarrow> ((start_error + unit) \<times> 'h rt) option" where
  "start_cooperative_with_storage e config n g =
     start_inner e (cooperative_start_config config) (Some n) None g"

definition start_with_port_and_storage ::
  "'h env \<Rightarrow> ported_config \<Rightarrow> nat \<Rightarrow> nat \<Rightarrow> 'h rt \<Rightarrow> ((start_error + unit) \<times> 'h rt) option" where
  "start_with_port_and_storage e config n max_timer_delay g =
     start_inner e (ported_start_config config) (Some n) (Some max_timer_delay) g"

subsection \<open>Creating a task\<close>

text \<open>The stack a new task needs: the reserved size, or a fresh allocation.\<close>

definition spawn_stack ::
  "'h env \<Rightarrow> nat \<Rightarrow> nat option \<Rightarrow> 'h rt \<Rightarrow> ((nat \<times> nat) res \<times> 'h rt) option" where
  "spawn_stack e minimum_size reserved_stack_size g =
     (let bytes = (case reserved_stack_size of Some n \<Rightarrow> n | None \<Rightarrow> minimum_size)
      in if minimum_size > bytes then Some (Inl ResourceExhausted, g)
         else case reserved_stack_size of
           Some _ \<Rightarrow> Some (Inr (bytes, 0), g)
         | None \<Rightarrow> do {
             (stack, g) \<leftarrow> allocate e bytes g;
             Some (if stack = 0 then Inl ResourceExhausted else Inr (bytes, stack), g)
           })"

definition spawn_slot ::
  "32 word option \<Rightarrow> nat \<Rightarrow> sched \<Rightarrow> ((nat \<times> reserved_stack option) res \<times> sched) option" where
  "spawn_slot reservation capacity_limit s =
     (case reservation of
        Some r \<Rightarrow> alloc_reserved_dynamic_slot_with_capacity r capacity_limit s
      | None \<Rightarrow> do {
          r \<leftarrow> alloc_dynamic_slot_with_capacity capacity_limit s;
          Some (case r of Inl err \<Rightarrow> Inl err | Inr i \<Rightarrow> Inr (i, None), s)
        })"

definition next_identity :: "16 word \<Rightarrow> 16 word" where
  "next_identity generation = max (generation + 1) 1"

definition spawn_tcb ::
  "task_context \<Rightarrow> nat option \<Rightarrow> nat \<Rightarrow> nat \<Rightarrow> nat \<Rightarrow> nat \<Rightarrow> nat \<Rightarrow> run_policy \<Rightarrow> nat \<Rightarrow> 16 word \<Rightarrow> tcb \<Rightarrow> tcb" where
  "spawn_tcb ctx frame stack bytes entry arg priority policy now identity t =
     t\<lparr>t_ctx := ctx, t_saved_frame := (case frame of Some f \<Rightarrow> f | None \<Rightarrow> t_saved_frame t),
       t_stack := stack, t_stack_size := bytes, t_entry := Some entry, t_arg := arg, t_wake_at := 0,
       t_base_priority := priority, t_priority := priority, t_identity_generation := identity,
       t_run_policy := policy, t_budget := for_policy policy now\<rparr>"

text \<open>The slot gets its next identity, its task is prepared and made ready.\<close>

definition spawn_place :: "nat \<Rightarrow> (16 word \<Rightarrow> tcb \<Rightarrow> tcb) \<Rightarrow> nat \<Rightarrow> sched \<Rightarrow> sched option" where
  "spawn_place i prepare now s = do {
     generation \<leftarrow> arr_at (slot_generations s) i;
     let identity = next_identity generation;
     let s = s\<lparr>slot_generations := (slot_generations s)[i := identity]\<rparr>;
     s \<leftarrow> upd_task i (prepare identity) s;
     make_ready i now s
   }"

text \<open>The critical section of \<open>spawn\<close>.\<close>

definition spawn_locked ::
  "'h env \<Rightarrow> bool \<Rightarrow> nat \<Rightarrow> nat \<Rightarrow> nat \<Rightarrow> nat \<Rightarrow> nat \<Rightarrow> run_policy \<Rightarrow> 32 word option \<Rightarrow> nat \<Rightarrow> 'h rt
    \<Rightarrow> (nat res \<times> 'h rt) option" where
  "spawn_locked e trap_scheduling allocated_stack bytes entry arg priority policy reservation now g = do {
     limit \<leftarrow> dynamic_capacity g;
     (r, g) \<leftarrow> on_sched (spawn_slot reservation limit) g;
     (case r of
        Inl err \<Rightarrow> Some (Inl err, g)
      | Inr (i, reserved_stack) \<Rightarrow> do {
          let stack = (case reserved_stack of Some rs \<Rightarrow> stk_pointer rs | None \<Rightarrow> allocated_stack);
          assert_that (stack \<noteq> 0);
          top_addr \<leftarrow> stack_top stack bytes;
          (frame, g) \<leftarrow> (if trap_scheduling then do {
              (f, g) \<leftarrow> initialize_irq_frame top_addr (e_trampoline e) (e_tp e) (e_fcsr e) g;
              Some (Some f, g)
            } else Some (None, g));
          s \<leftarrow> spawn_place i (spawn_tcb (initial_context e top_addr) frame stack bytes entry arg priority policy now)
                now (g_sched g);
          Some (Inr i, g\<lparr>g_sched := s\<rparr>)
        })
   }"

definition spawn ::
  "'h env \<Rightarrow> nat \<Rightarrow> nat \<Rightarrow> nat \<Rightarrow> nat \<Rightarrow> run_policy \<Rightarrow> 32 word option \<Rightarrow> 'h rt \<Rightarrow> (nat res \<times> 'h rt) option" where
  "spawn e entry arg stack_size priority policy reservation g = do {
     g \<leftarrow> init e g;
     g \<leftarrow> reclaim_retired_stacks e g;
     st \<leftarrow> g_start g;
     let minimum_size = max stack_size (sc_minimum_stack_size (ss_config st));
     (case (case reservation of
              Some r \<Rightarrow> sched_reservation_stack_size r (g_sched g)
            | None \<Rightarrow> Inr None) of
        Inl err \<Rightarrow> Some (Inl err, g)
      | Inr reserved_stack_size \<Rightarrow> do {
          (stack, g) \<leftarrow> spawn_stack e minimum_size reserved_stack_size g;
          (case stack of
             Inl err \<Rightarrow> Some (Inl err, g)
           | Inr (bytes, allocated_stack) \<Rightarrow> do {
               (now, g) \<leftarrow> now_ms e g;
               (slot, g) \<leftarrow> spawn_locked e (ported st) allocated_stack bytes entry arg priority policy
                             reservation now g;
               (case slot of
                  Inl err \<Rightarrow> do {
                    g \<leftarrow> (if allocated_stack \<noteq> 0 then deallocate e allocated_stack g else Some g);
                    Some (Inl err, g)
                  }
                | Inr i \<Rightarrow> do {
                    g \<leftarrow> rearm_timer e g;
                    Some (Inr i, g)
                  })
             })
        })
   }"

subsection \<open>Giving up the processor\<close>

definition prepare_switch :: "bool \<Rightarrow> nat \<Rightarrow> nat \<Rightarrow> sched \<Rightarrow> (switch_intent \<times> sched) option" where
  "prepare_switch is_ported previous target s =
     (if target \<noteq> previous \<and> is_ported then prepare_committed_switch_intent previous target s
      else prepare_switch_intent previous target s)"

text \<open>
  \<open>execute_switch\<close>: \<open>True\<close> when the caller goes on running. With a port the switch itself is made by
  the trap that the pended interrupt enters, and the spin loop ends when the caller is resumed.
\<close>

definition execute_switch :: "'h env \<Rightarrow> switch_intent \<Rightarrow> 'h rt \<Rightarrow> (bool \<times> 'h rt) option" where
  "execute_switch e intent g = do {
     let prev = ref_slot (si_previous intent);
     let nxt = ref_slot (si_target intent);
     (if nxt = prev then do {
        s \<leftarrow> upd_task nxt (\<lambda>t. t\<lparr>t_state := Running\<rparr>) (g_sched g);
        g \<leftarrow> rearm_timer e (g\<lparr>g_sched := s\<rparr>);
        Some (True, g)
      } else do {
        st \<leftarrow> g_start g;
        (if ported st then do {
           assert_that (g_machine_interrupts g);
           p \<leftarrow> task_at prev (g_sched g);
           assert_that ((case pending_switch (g_sched g) of
                           Some pending \<Rightarrow> ps_sequence pending = si_sequence intent
                         | None \<Rightarrow> False)
                        \<or> t_resume_generation p \<noteq> si_previous_resume_generation intent);
           n \<leftarrow> task_at nxt (g_sched g);
           assert_that (t_saved_frame n \<noteq> 0 \<or> current (g_sched g) = nxt);
           g \<leftarrow> rearm_timer e g;
           Some (False, port_log PendReschedule g)
         } else do {
           (now, g) \<leftarrow> now_ms e g;
           s \<leftarrow> account_switch prev nxt now (g_sched g);
           let s = diag (\<lambda>d. d\<lparr>d_context_switches := bump32 (d_context_switches d)\<rparr>) s;
           s \<leftarrow> upd_task nxt (\<lambda>t. t\<lparr>t_state := Running\<rparr>) s;
           g \<leftarrow> rearm_timer e (g\<lparr>g_sched := s\<lparr>current := nxt\<rparr>\<rparr>);
           Some (False, g)
         })
      })
   }"

definition yield_locked :: "bool \<Rightarrow> nat \<Rightarrow> sched \<Rightarrow> (switch_intent option res \<times> sched) option" where
  "yield_locked is_ported now s = do {
     guard \<leftarrow> current_switch_guard s;
     (case guard of
        Inl err \<Rightarrow> Some (Inl err, s)
      | Inr cur \<Rightarrow> do {
          let s = diag (\<lambda>d. d\<lparr>d_yields := bump32 (d_yields d)\<rparr>) s;
          s \<leftarrow> wake_sleepers now s;
          (target, s) \<leftarrow> take_yield_target cur now s;
          (case target of
             None \<Rightarrow> Some (Inr None, s)
           | Some nxt \<Rightarrow> do {
               (intent, s) \<leftarrow> prepare_switch is_ported cur nxt s;
               Some (Inr (Some intent), s)
             })
        })
   }"

text \<open>What a call does after its switch: a caller that still runs reclaims the retired stacks.\<close>

definition leave :: "'h env \<Rightarrow> switch_intent \<Rightarrow> 'h rt \<Rightarrow> (bool \<times> 'h rt) option" where
  "leave e intent g = do {
     (running, g) \<leftarrow> execute_switch e intent g;
     g \<leftarrow> (if running then reclaim_retired_stacks e g else Some g);
     Some (running, g)
   }"

definition yield_now :: "'h env \<Rightarrow> 'h rt \<Rightarrow> (bool res \<times> 'h rt) option" where
  "yield_now e g = do {
     delivery \<leftarrow> ensure_switch_delivery g;
     (case delivery of
        Inl err \<Rightarrow> Some (Inl err, g)
      | Inr _ \<Rightarrow> do {
          (now, g) \<leftarrow> now_ms e g;
          st \<leftarrow> g_start g;
          (r, g) \<leftarrow> on_sched (yield_locked (ported st) now) g;
          (case r of
             Inl err \<Rightarrow> Some (Inl err, g)
           | Inr None \<Rightarrow> do { g \<leftarrow> reclaim_retired_stacks e g; Some (Inr True, g) }
           | Inr (Some intent) \<Rightarrow> do { (running, g) \<leftarrow> leave e intent g; Some (Inr running, g) })
        })
   }"

definition sleep_locked :: "bool \<Rightarrow> nat \<Rightarrow> sched \<Rightarrow> (switch_intent res \<times> sched) option" where
  "sleep_locked is_ported wake_at s = do {
     guard \<leftarrow> current_switch_guard s;
     (case guard of
        Inl err \<Rightarrow> Some (Inl err, s)
      | Inr cur \<Rightarrow> do {
          t \<leftarrow> task_at cur s;
          let resume_generation = t_resume_generation t;
          let s = diag (\<lambda>d. d\<lparr>d_sleeps := bump32 (d_sleeps d)\<rparr>) s;
          s \<leftarrow> upd_task cur (\<lambda>t. t\<lparr>t_state := Sleeping, t_wake_at := wake_at\<rparr>) s;
          (intent, s) \<leftarrow> prepare_switch_away_locked is_ported cur resume_generation s;
          intent \<leftarrow> intent;
          Some (Inr intent, s)
        })
   }"

definition sleep_ms :: "'h env \<Rightarrow> nat \<Rightarrow> 'h rt \<Rightarrow> (bool res \<times> 'h rt) option" where
  "sleep_ms e ms g =
     (if ms = 0 then yield_now e g
      else do {
        delivery \<leftarrow> ensure_switch_delivery g;
        (case delivery of
           Inl err \<Rightarrow> Some (Inl err, g)
         | Inr _ \<Rightarrow> do {
             (now, g) \<leftarrow> now_ms e g;
             st \<leftarrow> g_start g;
             (r, g) \<leftarrow> on_sched (sleep_locked (ported st) (sat_add U64_MAX now ms)) g;
             (case r of
                Inl err \<Rightarrow> Some (Inl err, g)
              | Inr intent \<Rightarrow> do {
                  g \<leftarrow> rearm_timer e g;
                  (running, g) \<leftarrow> leave e intent g;
                  Some (Inr running, g)
                })
           })
      })"

definition task_exit_locked :: "bool \<Rightarrow> sched \<Rightarrow> (switch_intent \<times> sched) option" where
  "task_exit_locked is_ported s = do {
     let cur = current s;
     t \<leftarrow> task_at cur s;
     assert_that (t_scheduler_lock_depth t = 0);
     assert_that (cur \<noteq> IDLE_SLOT);
     s \<leftarrow> upd_task cur (\<lambda>_. tcb_empty) s;
     s \<leftarrow> retire_stack (t_stack t) s;
     (intent, s) \<leftarrow> prepare_switch_away_locked is_ported cur (t_resume_generation tcb_empty) s;
     intent \<leftarrow> intent;
     Some (intent, s)
   }"

text \<open>\<open>task_exit\<close> never returns: a caller that still runs after the switch has reached \<open>unreachable!\<close>.\<close>

definition task_exit :: "'h env \<Rightarrow> 'h rt \<Rightarrow> 'h rt option" where
  "task_exit e g = do {
     delivery \<leftarrow> ensure_switch_delivery g;
     assert_that (delivery = Inr ());
     st \<leftarrow> g_start g;
     (intent, g) \<leftarrow> on_sched (task_exit_locked (ported st)) g;
     (running, g) \<leftarrow> execute_switch e intent g;
     assert_that (\<not> running);
     Some g
   }"

text \<open>
  The first run of a task: its entry, which is the code of the application and so a parameter, and
  then its end. The idle task yields again each time an interrupt ends its wait.
\<close>

definition trampoline :: "'h env \<Rightarrow> (nat \<Rightarrow> nat \<Rightarrow> 'h rt \<Rightarrow> 'h rt option) \<Rightarrow> 'h rt \<Rightarrow> 'h rt option" where
  "trampoline e call g = do {
     t \<leftarrow> task_at (current (g_sched g)) (g_sched g);
     g \<leftarrow> (case t_entry t of Some f \<Rightarrow> call f (t_arg t) g | None \<Rightarrow> Some g);
     task_exit e g
   }"

definition idle_round :: "'h env \<Rightarrow> 'h rt \<Rightarrow> 'h rt option" where
  "idle_round e g = do { (_, g) \<leftarrow> yield_now e g; Some g }"

subsection \<open>Queries and policies\<close>

definition runtime_diagnostics :: "'h rt \<Rightarrow> diagnostics option" where
  "runtime_diagnostics g = do { n \<leftarrow> dynamic_capacity g; diagnostics_with_capacity n (g_sched g) }"

definition runtime_task_diagnostics :: "'h env \<Rightarrow> nat \<Rightarrow> 'h rt \<Rightarrow> (task_diagnostic list \<times> 'h rt) option" where
  "runtime_task_diagnostics e len g = do {
     (now, g) \<leftarrow> now_ms e g;
     ds \<leftarrow> task_diagnostics len now (g_sched g);
     Some (ds, g)
   }"

definition current_task_handle :: "'h rt \<Rightarrow> ((32 word) res) option" where
  "current_task_handle g = do {
     let slot = current (g_sched g);
     t \<leftarrow> task_at slot (g_sched g);
     Some (encode_task_id slot (t_identity_generation t))
   }"

definition set_task_run_policy_inner ::
  "'h env \<Rightarrow> 32 word \<Rightarrow> run_policy \<Rightarrow> 'h rt \<Rightarrow> (unit res \<times> 'h rt) option" where
  "set_task_run_policy_inner e task policy g =
     (case decode_task_id task of
        Inl err \<Rightarrow> Some (Inl err, g)
      | Inr (slot, generation) \<Rightarrow> do {
          (now, g) \<leftarrow> now_ms e g;
          t \<leftarrow> task_at slot (g_sched g);
          (if t_state t = Free \<or> t_identity_generation t \<noteq> generation then Some (Inl InvalidHandle, g)
           else do {
             s \<leftarrow> set_run_policy slot policy now (g_sched g);
             g \<leftarrow> rearm_timer e (g\<lparr>g_sched := s\<rparr>);
             Some (Inr (), g)
           })
        })"

end
