(* ===== verification/Frames.thy ===== *)
theory Frames
  imports Runtime
begin

text \<open>
  What the critical sections leave alone. The tables of retired stacks, identities and reservations,
  the interrupt bookkeeping and the quotas of the tasks belong to a few operations of their own; every
  scheduling operation that returns has kept them, on any state.
\<close>

definition aside :: "sched \<Rightarrow> nat list \<times> nat \<times> 16 word list \<times> reservation_table \<times> nat \<times> nat \<times> budget_spec option list" where
  "aside s = (retired_stacks s, retired_count s, slot_generations s, reservations s, irq_task s, irq_started_at s,
     map (\<lambda>t. spec (t_budget t)) (tasks s))"

lemma asideD:
  assumes "aside s' = aside s"
  shows "retired_stacks s' = retired_stacks s" "retired_count s' = retired_count s" "slot_generations s' = slot_generations s"
    "reservations s' = reservations s" "irq_task s' = irq_task s" "irq_started_at s' = irq_started_at s"
    "i < length (tasks s) \<Longrightarrow> spec (t_budget (tasks s' ! i)) = spec (t_budget (tasks s ! i))"
    "length (tasks s') = length (tasks s)"
proof -
  show "length (tasks s') = length (tasks s)" using arg_cong [of _ _ length, OF assms [unfolded aside_def, THEN arg_cong, of "snd \<circ> snd \<circ> snd \<circ> snd \<circ> snd \<circ> snd"]] by simp
  then show "i < length (tasks s) \<Longrightarrow> spec (t_budget (tasks s' ! i)) = spec (t_budget (tasks s ! i))"
    using assms by (auto simp: aside_def dest!: arg_cong [of _ _ "\<lambda>xs. xs ! i"])
qed (use assms in \<open>simp_all add: aside_def\<close>)

lemma aside_mod_task [simp]:
  "spec (t_budget (f (tasks s ! i))) = spec (t_budget (tasks s ! i)) \<Longrightarrow> aside (mod_task i f s) = aside s"
  by (cases "i < length (tasks s)") (simp_all add: aside_def mod_task_def map_update list_update_same_conv list_update_beyond)

lemma aside_fields [simp]:
  "aside (diag f s) = aside s" "aside (s\<lparr>sem_mem := a\<rparr>) = aside s" "aside (s\<lparr>mutex_mem := b\<rparr>) = aside s"
  "aside (s\<lparr>current := c\<rparr>) = aside s" "aside (s\<lparr>pending_switch := p\<rparr>) = aside s"
  "aside (s\<lparr>next_switch_sequence := n\<rparr>) = aside s" "aside (s\<lparr>last_consumed_switch_sequence := n\<rparr>) = aside s"
  "aside (s\<lparr>time_slice_pending := q\<rparr>) = aside s" "aside (s\<lparr>time_slice_deadline := n\<rparr>) = aside s"
  by (simp_all add: aside_def diag_def)

lemma aside_relinked: "relinked X s s' \<Longrightarrow> aside s' = aside s"
  using relinked_sel [of X s s'] relinked_fields(19) [of X s s'] by (simp add: aside_def list_eq_iff_nth_eq)

subsection \<open>Quotas\<close>

lemma quota_kept:
  "replenish_if_due now b = Some (due, b') \<Longrightarrow> spec b' = spec b"
  "budget_on_dispatch now b = Some b' \<Longrightarrow> spec b' = spec b"
  "budget_on_timer now l b = (x, b') \<Longrightarrow> spec b' = spec b"
  "throttle_after_lock_overrun now b = (y, b') \<Longrightarrow> spec b' = spec b"
  by (auto simp: budget_op_defs Let_def bind_eq_Some split: option.splits if_splits)

lemma switch_out_quota [simp]: "spec (budget_on_switch_out now b) = spec b"
  by (simp add: budget_op_defs Let_def split: option.split)

subsection \<open>Operations\<close>

text \<open>The operations on tasks and on objects, the link operations, and what is built from them.\<close>

named_theorems aside_kept

lemma upd_task_aside:
  assumes "upd_task i f s = Some s'" "\<And>t. spec (t_budget (f t)) = spec (t_budget t)"
  shows "aside s' = aside s"
  using assms by (auto simp: upd_task_def split: if_splits)

lemma link_aside [aside_kept]:
  "ready_push i s = Some s' \<Longrightarrow> aside s' = aside s"
  "ready_remove i s = Some s' \<Longrightarrow> aside s' = aside s"
  using aside_relinked [OF ready_push_relinks] aside_relinked [OF ready_remove_relinks] by blast+

lemma ready_pop_scan_relinks: "ready_pop_scan ps s = Some (i, s') \<Longrightarrow> relinked UNIV s s'"
  by (induction ps s rule: ready_pop_scan.induct)
    (auto simp: bind_eq_Some split: if_splits elim!: relinked_step dest!: relinks)

lemma pop_aside [aside_kept]:
  "ready_pop s = Some (i, s') \<Longrightarrow> aside s' = aside s"
  "ready_pop_or_idle s = Some (i, s') \<Longrightarrow> aside s' = aside s"
  by (auto simp: ready_pop_or_idle_def ready_pop_def bind_eq_Some dest: aside_relinked [OF ready_pop_scan_relinks])

lemma object_aside [aside_kept]:
  "on_sem a (\<lambda>st s. remove_waiter st i s) s = Some s' \<Longrightarrow> aside s' = aside s"
  "on_sem a (\<lambda>st s. enqueue_waiter st i s) s = Some s' \<Longrightarrow> aside s' = aside s"
  "on_mutex a (\<lambda>st s. remove_mutex_waiter st i s) s = Some s' \<Longrightarrow> aside s' = aside s"
  "on_mutex a (\<lambda>st s. enqueue_mutex_waiter st i s) s = Some s' \<Longrightarrow> aside s' = aside s"
  by (auto simp: on_sem_def on_mutex_def bind_eq_Some dest!: aside_relinked [OF waiter_relinks(1)] aside_relinked [OF waiter_relinks(2)]
      aside_relinked [OF waiter_relinks(3)] aside_relinked [OF waiter_relinks(4)])

lemma requeue_aside [aside_kept]:
  "on_mutex a (\<lambda>st s. do { (st, s) \<leftarrow> remove_mutex_waiter st i s; enqueue_mutex_waiter st i s }) s = Some s' \<Longrightarrow> aside s' = aside s"
  by (auto simp: on_mutex_def bind_eq_Some dest!: aside_relinked [OF waiter_relinks(3)] aside_relinked [OF waiter_relinks(4)])

lemma make_ready_aside [aside_kept]: "make_ready i now s = Some s' \<Longrightarrow> aside s' = aside s"
  by (auto simp: make_ready_def upd_task_def bind_eq_Some split: if_splits dest!: link_aside)

lemma set_effective_aside [aside_kept]: "set_effective_priority i p s = Some s' \<Longrightarrow> aside s' = aside s"
  by (auto simp: set_effective_priority_def upd_task_def bind_eq_Some Let_def split: if_splits dest!: aside_kept)

text \<open>One step of the propagation, and then all of them: its depth is bounded.\<close>

lemma refresh_step:
  assumes "refresh_inherited_priority i depth s = Some s'"
  shows "depth < TASK_SLOT_COUNT \<and> (aside s' = aside s
    \<or> (\<exists>owner old new s1. aside s1 = aside s \<and> replace_inheritance owner old new (depth + 1) s1 = Some s'))"
  using assms by (subst (asm) refresh_inherited_priority.simps)
    (auto simp: bind_eq_Some Let_def split: if_splits dest!: set_effective_aside requeue_aside)

lemma replace_step:
  assumes "replace_inheritance owner old new depth s = Some s'"
  shows "aside s' = aside s \<or> (\<exists>s1. aside s1 = aside s \<and> refresh_inherited_priority owner depth s1 = Some s')"
  using assms by (subst (asm) replace_inheritance.simps) (auto simp: bind_eq_Some upd_task_def split: if_splits)

lemma refresh_aside [aside_kept]: "refresh_inherited_priority i depth s = Some s' \<Longrightarrow> aside s' = aside s"
proof (induction "TASK_SLOT_COUNT - depth" arbitrary: i depth s rule: less_induct)
  case less
  from refresh_step [OF less.prems] consider "aside s' = aside s"
    | owner old new s1 where "depth < TASK_SLOT_COUNT" "aside s1 = aside s" "replace_inheritance owner old new (depth + 1) s1 = Some s'" by blast
  then show ?case
  proof cases
    case 2
    from replace_step [OF 2(3)] 2(1,2) less.hyps [of "depth + 1" owner] show ?thesis by force
  qed
qed

lemma inheritance_aside [aside_kept]:
  "add_inheritance owner p s = Some s' \<Longrightarrow> aside s' = aside s"
  "remove_inheritance owner p s = Some s' \<Longrightarrow> aside s' = aside s"
  by (auto simp: add_inheritance_def remove_inheritance_def upd_task_def bind_eq_Some Let_def split: if_splits dest!: refresh_aside)

lemma abandon_aside [aside_kept]: "abandon_mutex_wait i a s = Some s' \<Longrightarrow> aside s' = aside s"
  by (auto simp: abandon_mutex_wait_def bind_eq_Some split: if_splits dest!: object_aside inheritance_aside)

lemma timeout_aside [aside_kept]: "timeout_semaphore_waiter_locked i now s = Some (b, s') \<Longrightarrow> aside s' = aside s"
  by (auto simp: timeout_semaphore_waiter_locked_def upd_task_def bind_eq_Some split: if_splits dest!: object_aside make_ready_aside)

lemma for_each_aside:
  assumes "\<And>x s s'. f x s = Some s' \<Longrightarrow> aside s' = aside s"
  shows "for_each f xs s = Some s' \<Longrightarrow> aside s' = aside s"
  by (induction xs arbitrary: s) (auto simp: bind_eq_Some dest!: assms)

subsection \<open>The timer\<close>

lemma wake_sleeper_aside: "wake_sleeper now i s = Some s' \<Longrightarrow> aside s' = aside s"
  by (auto simp: wake_sleeper_def upd_task_def bind_eq_Some split: if_splits
      dest!: make_ready_aside timeout_aside abandon_aside)

lemma replenish_aside: "replenish_budget now i s = Some s' \<Longrightarrow> aside s' = aside s"
  by (auto simp: replenish_budget_def upd_task_def task_at_def bind_eq_Some split: if_splits
      dest!: make_ready_aside quota_kept)

lemma wake_sleepers_aside [aside_kept]:
  assumes "wake_sleepers now s = Some s'"
  shows "aside s' = aside s"
proof -
  from assms obtain s1 where "for_each (wake_sleeper now) [0..<TASK_SLOT_COUNT] s = Some s1"
    "for_each (replenish_budget now) [0..<TASK_SLOT_COUNT] s1 = Some s'"
    by (auto simp: wake_sleepers_def replenish_budgets_def bind_eq_Some)
  from for_each_aside [OF wake_sleeper_aside this(1)] for_each_aside [OF replenish_aside this(2)] show ?thesis by simp
qed

lemma on_timer_aside [aside_kept]:
  assumes "on_timer now limit s = Some (v, s')"
  shows "aside s' = aside s"
proof -
  from assms obtain s1 where w: "wake_sleepers now s = Some s1" by (auto simp: on_timer_def bind_eq_Some)
  let ?c = "current s1"
  from assms w have c: "?c < length (tasks s1)" by (auto simp: on_timer_def task_at_def bind_eq_Some Let_def split: if_splits)
  obtain x b where b: "budget_on_timer now (t_scheduler_lock_depth (tasks s1 ! ?c) \<noteq> 0) (t_budget (tasks s1 ! ?c)) = (x, b)" by fastforce
  have "aside (mod_task ?c (\<lambda>t. t\<lparr>t_budget := b\<rparr>) s1) = aside s1" using quota_kept(3) [OF b] by simp
  then have "aside s' = aside s1" using assms w c b
    by (cases x) (auto simp: on_timer_def bind_eq_Some Let_def split: if_split_asm)
  with wake_sleepers_aside [OF w] show ?thesis by simp
qed

subsection \<open>Switches\<close>

lemma prepare_intent_aside [aside_kept]: "prepare_switch_intent p t s = Some (i, s') \<Longrightarrow> aside s' = aside s"
  by (auto simp: prepare_switch_intent_def bind_eq_Some Let_def assert_that_def split: if_splits)

lemma restore_aside [aside_kept]: "restore_detached_switch_target t s = Some s' \<Longrightarrow> aside s' = aside s"
  by (auto simp: restore_detached_switch_target_def bind_eq_Some split: if_splits dest!: link_aside)

lemma recover_aside [aside_kept]: "recover_completed_switch_request p t s = Some (b, s') \<Longrightarrow> aside s' = aside s"
  by (auto simp: recover_completed_switch_request_def bind_eq_Some split: if_splits dest!: restore_aside)

lemma commit_aside [aside_kept]: "commit_switch_intent i s = Some (b, s') \<Longrightarrow> aside s' = aside s"
  by (auto simp: commit_switch_intent_def bind_eq_Some Let_def assert_that_def split: if_splits
      dest!: restore_aside recover_aside)

lemma switch_away_aside [aside_kept]: "prepare_switch_away_locked b p g s = Some (i, s') \<Longrightarrow> aside s' = aside s"
  by (auto simp: prepare_switch_away_locked_def prepare_switch_away_decision_def bind_eq_Some split: if_splits
      dest!: pop_aside prepare_intent_aside commit_aside)

lemma prepare_switch_aside [aside_kept]: "prepare_switch b p t s = Some (i, s') \<Longrightarrow> aside s' = aside s"
  by (auto simp: prepare_switch_def prepare_committed_switch_intent_def bind_eq_Some assert_that_def split: if_splits
      dest!: prepare_intent_aside commit_aside)

lemma take_target_aside [aside_kept]:
  "take_yield_target c now s = Some (t, s') \<Longrightarrow> aside s' = aside s"
  "take_reschedule_target b now s = Some (r, s') \<Longrightarrow> aside s' = aside s"
  by (auto simp: take_yield_target_def take_reschedule_target_def bind_eq_Some Let_def assert_that_def split: if_splits
      dest!: pop_aside make_ready_aside)

lemma consume_aside [aside_kept]: "consume_pending_switch s = Some (r, s') \<Longrightarrow> aside s' = aside s"
  by (auto simp: consume_pending_switch_def bind_eq_Some Let_def assert_that_def split: if_splits option.splits)

lemma account_switch_aside [aside_kept]: "account_switch p n now s = Some s' \<Longrightarrow> aside s' = aside s"
  by (auto simp: account_switch_def upd_task_def task_at_def bind_eq_Some mod_task_at split: if_splits dest!: quota_kept)

lemma trap_switch_aside [aside_kept]: "trap_switch p n f b q now s = Some (r, s') \<Longrightarrow> aside s' = aside s"
  by (auto simp: trap_switch_def upd_task_def bind_eq_Some Let_def assert_that_def split: if_splits dest!: account_switch_aside)

lemma trap_aside [aside_kept]: "schedule_from_trap f d now s = Some (r, s') \<Longrightarrow> aside s' = aside s"
  by (auto simp: schedule_from_trap_def bind_eq_Some Let_def split: if_splits option.splits prod.splits
      dest!: consume_aside pop_aside take_target_aside trap_switch_aside)

lemma sleep_aside [aside_kept]: "sleep_locked b w s = Some (r, s') \<Longrightarrow> aside s' = aside s"
  by (auto simp: sleep_locked_def current_switch_guard_def upd_task_def bind_eq_Some Let_def split: if_split_asm dest!: switch_away_aside)

lemma yield_aside [aside_kept]: "yield_locked b now s = Some (r, s') \<Longrightarrow> aside s' = aside s"
  by (auto simp: yield_locked_def current_switch_guard_def bind_eq_Some Let_def split: if_split_asm
      dest!: wake_sleepers_aside take_target_aside)
    (auto simp: bind_eq_Some split: option.split_asm dest!: prepare_switch_aside)

end
