(* ===== verification/Deadlines.thy ===== *)
theory Deadlines
  imports Runtime
begin

text \<open>
  The one-shot timer. \<open>timer_events\<close> is the specification: every moment at which the scheduler has
  something to do on its own. A pass of \<open>rearm_timer\<close> arms the timer for the earliest of them, and
  the protocol of tickets makes the last plan win when passes interrupt each other.
\<close>

subsection \<open>The earliest deadline\<close>

lemma iter_min_Some: "iter_min xs = Some m \<longleftrightarrow> m \<in> set xs \<and> (\<forall>x \<in> set xs. m \<le> x)"
  by (auto simp: iter_min_def Min_eq_iff)

lemma iter_min_eqI: "set xs = set ys \<Longrightarrow> iter_min xs = iter_min ys"
  by (auto simp: iter_min_def)

lemma iter_min_flatten: "iter_min (xs @ opt_list (iter_min ys) @ zs) = iter_min (xs @ ys @ zs)"
proof (cases "iter_min ys")
  case None
  then have "ys = []" by simp
  with None show ?thesis by (simp only: opt_list.simps append_Nil)
next
  case (Some m)
  then have m: "m \<in> set ys" "\<forall>y \<in> set ys. m \<le> y" by (simp_all add: iter_min_Some)
  have "iter_min (xs @ opt_list (iter_min ys) @ zs) = Some k \<longleftrightarrow> iter_min (xs @ ys @ zs) = Some k" for k
    using m by (auto simp: Some iter_min_Some intro: order_trans) (meson UnCI antisym)+
  then show ?thesis by (metis not_Some_eq)
qed

lemma iter_min_flatten_hd: "iter_min (opt_list (iter_min ys) @ zs) = iter_min (ys @ zs)"
  using iter_min_flatten [of "[]" ys zs] by simp

definition wake_events :: "sched \<Rightarrow> nat set" where
  "wake_events s = t_wake_at ` {t \<in> set (tasks s). has_wake_deadline t}"

definition quota_events :: "sched \<Rightarrow> nat set" where
  "quota_events s = {d. state_of s (current s) = Running
        \<and> exhaustion_deadline (t_budget (tasks s ! current s)) = Some d}
     \<union> ({replenishes_at (t_budget t) | t. t \<in> set (tasks s) \<and> t_state t = Throttled} - {0})"

definition lock_events :: "nat \<Rightarrow> sched \<Rightarrow> nat set" where
  "lock_events limit s = {sat_add U64_MAX at limit | at. state_of s (current s) = Running
     \<and> t_scheduler_lock_depth (tasks s ! current s) \<noteq> 0
     \<and> t_scheduler_lock_started_at (tasks s ! current s) = Some at}"

text \<open>The end of the time slice, when a queued task shares the priority of a preemptive task.\<close>

definition slice_events :: "nat \<Rightarrow> sched \<Rightarrow> (nat \<Rightarrow> nat list) \<Rightarrow> nat set" where
  "slice_events now s Q = {if time_slice_deadline s = 0 then sat_add U64_MAX now ts else time_slice_deadline s
     | ts. t_run_policy (tasks s ! current s) = Preemptive ts
         \<and> (\<exists>i \<in> queued Q. prio_of s i = prio_of s (current s))}"

text \<open>A ready task that should run instead of the current one is an event of this very moment.\<close>

definition timer_events ::
  "nat \<Rightarrow> nat option \<Rightarrow> nat \<Rightarrow> sched \<Rightarrow> (nat \<Rightarrow> nat list) \<Rightarrow> nat set" where
  "timer_events limit embassy now s Q = wake_events s
     \<union> (if wants_switch False s Q then {now} else slice_events now s Q)
     \<union> quota_events s \<union> lock_events limit s \<union> set_option embassy"

subsection \<open>One pass\<close>

lemma take_heads:
  assumes rep: "ready_rep s Q" and sh: "shape_ok s" and lim: "limit \<le> PRIORITY_LEVELS"
  shows "(\<exists>h \<in> set (take limit (ready_head s)). h \<noteq> NIL) \<longleftrightarrow> (\<exists>i \<in> queued Q. prio_of s i < limit)"
proof -
  have len: "length (ready_head s) = PRIORITY_LEVELS" using shape_okD(2) [OF sh] .
  have "ready_head s ! p \<noteq> NIL \<longleftrightarrow> Q p \<noteq> []" if "p < PRIORITY_LEVELS" for p
    using chain_head [OF ready_repD(1) [OF rep that]] chain_not_NIL [OF ready_repD(1) [OF rep that]]
    by (cases "Q p") auto
  then have "(\<exists>h \<in> set (take limit (ready_head s)). h \<noteq> NIL) \<longleftrightarrow> (\<exists>p \<in> set [0..<limit]. Q p \<noteq> [])"
    using lim len by (auto simp: set_conv_nth)
  with ready_below_iff [OF rep lim] show ?thesis by simp
qed

lemma equal_ready:
  assumes rep: "ready_rep s Q" and sh: "shape_ok s" and p: "p < PRIORITY_LEVELS"
  shows "has_equal_priority_ready p s = Some (\<exists>i \<in> queued Q. prio_of s i = p)"
proof -
  have "(\<exists>i \<in> queued Q. prio_of s i = p) \<longleftrightarrow> Q p \<noteq> []"
  proof
    assume "Q p \<noteq> []"
    then have "hd (Q p) \<in> set (Q p)" by simp
    then show "\<exists>i \<in> queued Q. prio_of s i = p"
      using ready_repD(4) [OF rep p] p by (intro bexI [of _ "hd (Q p)"]) (auto simp: queued_iff)
  qed (use queued_bucket [OF rep] in auto)
  moreover have "ready_head s ! p \<noteq> NIL \<longleftrightarrow> Q p \<noteq> []"
    using chain_head [OF ready_repD(1) [OF rep p]] chain_not_NIL [OF ready_repD(1) [OF rep p]]
    by (cases "Q p") auto
  ultimately show ?thesis using p shape_okD(2) [OF sh] by (simp add: has_equal_priority_ready_def)
qed

lemma next_time_slice_spec:
  assumes rep: "ready_rep s Q" and sh: "shape_ok s"
  shows "\<exists>d n. next_time_slice_deadline now s = Some (d, s\<lparr>time_slice_deadline := n\<rparr>)
    \<and> set_option d = slice_events now s Q"
proof -
  note sd = shape_okD [OF sh]
  have "t_priority (tasks s ! current s) < PRIORITY_LEVELS" using sd by simp
  note eq = equal_ready [OF rep sh this]
  show ?thesis
  proof (cases "slice_events now s Q = {}")
    case True
    then have "next_time_slice_deadline now s = Some (None, s\<lparr>time_slice_deadline := 0\<rparr>)"
      using sd eq by (auto simp: next_time_slice_deadline_def slice_events_def split: run_policy.split)
    with True show ?thesis by (intro exI [of _ None] exI [of _ 0]) simp
  next
    case False
    then obtain ts where ts: "t_run_policy (tasks s ! current s) = Preemptive ts"
        "\<exists>i \<in> queued Q. prio_of s i = prio_of s (current s)" by (auto simp: slice_events_def)
    let ?d = "if time_slice_deadline s = 0 then sat_add U64_MAX now ts else time_slice_deadline s"
    have "next_time_slice_deadline now s = Some (Some ?d, s\<lparr>time_slice_deadline := ?d\<rparr>)"
      using sd eq ts by (simp add: next_time_slice_deadline_def Let_def)
    moreover have "slice_events now s Q = {?d}" using ts by (auto simp: slice_events_def)
    ultimately show ?thesis by (intro exI [of _ "Some ?d"] exI [of _ ?d]) simp
  qed
qed

lemma next_dispatch_spec:
  assumes rep: "ready_rep s Q" and sh: "shape_ok s"
  shows "\<exists>d n. next_dispatch_deadline now s = Some (d, s\<lparr>time_slice_deadline := n\<rparr>)
    \<and> set_option d = (if wants_switch False s Q then {now} else slice_events now s Q)"
proof -
  note sd = shape_okD [OF sh]
  let ?c = "current s"
  let ?limit = "if ?c = IDLE_SLOT then length (ready_head s) else t_priority (tasks s ! ?c)"
  have lim: "?limit \<le> PRIORITY_LEVELS" using sd by (simp add: less_imp_le)
  have below: "(\<exists>i \<in> queued Q. prio_of s i < length (ready_head s)) \<longleftrightarrow> queued Q \<noteq> {}"
    using sd(2) queued_bucket [OF rep] by auto
  have w: "wants_switch False s Q \<longleftrightarrow> state_of s ?c = Running \<and> t_scheduler_lock_depth (tasks s ! ?c) = 0
      \<and> (?c = IDLE_SLOT \<or> is_preemptive (t_run_policy (tasks s ! ?c)))
      \<and> (\<exists>i \<in> queued Q. prio_of s i < ?limit)"
    using below by (auto simp: wants_switch_def)
  obtain d n where ts: "next_time_slice_deadline now s = Some (d, s\<lparr>time_slice_deadline := n\<rparr>)"
      "set_option d = slice_events now s Q" using next_time_slice_spec [OF rep sh] by blast
  have run: "next_dispatch_deadline now s = (if wants_switch False s Q then Some (Some now, s)
      else next_time_slice_deadline now s)"
    unfolding w using sd lim take_heads [OF rep sh lim] by (auto simp: next_dispatch_deadline_def Let_def)
  show ?thesis
  proof (cases "wants_switch False s Q")
    case True
    then show ?thesis unfolding run by (intro exI [of _ "Some now"] exI [of _ "time_slice_deadline s"]) simp
  next
    case False
    with ts show ?thesis unfolding run by auto
  qed
qed

lemma rearm_plan_spec:
  assumes rep: "ready_rep s Q" and sh: "shape_ok s"
  shows "\<exists>d n. rearm_plan limit embassy now cell s = Some (d, cell + 1, s\<lparr>time_slice_deadline := n\<rparr>)
    \<and> (d = None \<longleftrightarrow> timer_events limit embassy now s Q = {})
    \<and> (\<forall>m. d = Some m \<longrightarrow> m \<in> timer_events limit embassy now s Q \<and> (\<forall>x \<in> timer_events limit embassy now s Q. m \<le> x))"
proof -
  note sd = shape_okD [OF sh]
  obtain dd n where nd: "next_dispatch_deadline now s = Some (dd, s\<lparr>time_slice_deadline := n\<rparr>)"
      "set_option dd = (if wants_switch False s Q then {now} else slice_events now s Q)"
    using next_dispatch_spec [OF rep sh] by blast
  let ?s = "s\<lparr>time_slice_deadline := n\<rparr>"
  define B where "B = (if state_of s (current s) = Running
      then opt_list (exhaustion_deadline (t_budget (tasks s ! current s))) else [])
      @ filter (\<lambda>d. d \<noteq> 0) (map (\<lambda>t. replenishes_at (t_budget t)) (filter (\<lambda>t. t_state t = Throttled) (tasks s)))"
  have b: "earliest_budget_deadline ?s = Some (iter_min B)"
    using sd(1,6) iter_min_flatten [of "opt_list (exhaustion_deadline (t_budget (tasks s ! current s)))" _ "[]"]
      iter_min_flatten [of "[]" _ "[]"]
    by (auto simp: earliest_budget_deadline_def B_def task_at_def Let_def)
  have "set B = quota_events s" by (auto simp: B_def quota_events_def split: if_splits)
  define lk where "lk = (if state_of s (current s) = Running \<and> t_scheduler_lock_depth (tasks s ! current s) \<noteq> 0
      then map_option (\<lambda>at. sat_add U64_MAX at limit) (t_scheduler_lock_started_at (tasks s ! current s)) else None)"
  have lk: "scheduler_lock_deadline limit ?s = Some lk" "set_option lk = lock_events limit s"
    using sd(1,6) by (auto simp: scheduler_lock_deadline_def lock_events_def task_at_def lk_def split: if_splits)
  let ?W = "map t_wake_at (filter has_wake_deadline (tasks s))"
  let ?L = "?W @ opt_list dd @ B @ opt_list lk @ opt_list embassy"
  have "earliest_deadline (earliest_wake_deadline s) dd (iter_min B) lk embassy = iter_min ?L"
    unfolding earliest_deadline_def earliest_wake_deadline_def iter_min_flatten_hd
    using iter_min_flatten [of "?W @ opt_list dd" B "opt_list lk @ opt_list embassy"] by simp
  then have run: "rearm_plan limit embassy now cell s = Some (iter_min ?L, cell + 1, ?s)"
    using nd(1) b lk(1) by (simp add: rearm_plan_def claim_timer_rearm_generation_def Let_def)
  have "set ?L = timer_events limit embassy now s Q"
    using nd(2) lk(2) \<open>set B = quota_events s\<close> by (auto simp: timer_events_def wake_events_def)
  then have "(iter_min ?L = None \<longleftrightarrow> timer_events limit embassy now s Q = {})
      \<and> (\<forall>m. iter_min ?L = Some m \<longrightarrow> m \<in> timer_events limit embassy now s Q
          \<and> (\<forall>x \<in> timer_events limit embassy now s Q. m \<le> x))"
    unfolding iter_min_None iter_min_Some by (metis set_empty)
  with run show ?thesis by (intro exI) (erule (1) conjI)
qed

lemma timer_command_bounds:
  assumes "0 < max_delay" "\<forall>x \<in> E. m \<le> x" "m \<in> E"
  shows "\<exists>d. timer_command_for max_delay now (Some m) = Arm d \<and> 1 \<le> d \<and> d \<le> max_delay
    \<and> (\<forall>x \<in> E. now + d \<le> max x (now + 1)) \<and> (d < max_delay \<longrightarrow> d = 1 \<or> now + d \<in> E)"
proof -
  let ?d = "min (max (m - now) 1) max_delay"
  have "now + ?d \<le> max x (now + 1)" if "x \<in> E" for x using assms(2) that by fastforce
  moreover have "?d < max_delay \<longrightarrow> ?d = 1 \<or> now + ?d \<in> E" using assms(3) by (auto simp: min_def max_def)
  ultimately show ?thesis using assms(1) by (auto simp: timer_command_for_def)
qed

text \<open>What a ported runtime that has been started looks like to the timer.\<close>

definition timer_ready :: "'h rt \<Rightarrow> nat \<Rightarrow> nat \<Rightarrow> (nat \<Rightarrow> nat list) \<Rightarrow> bool" where
  "timer_ready g max_delay limit Q \<longleftrightarrow> 0 < max_delay \<and> shape_ok (g_sched g) \<and> ready_rep (g_sched g) Q
     \<and> (\<exists>st. g_start g = Some st \<and> ss_port st = Some max_delay
          \<and> sc_max_scheduler_lock_duration (ss_config st) = Some limit)"

definition command_call :: "timer_command \<Rightarrow> port_call" where
  "command_call c = (case c of Arm d \<Rightarrow> ArmTimer d | Disarm \<Rightarrow> DisarmTimer)"

definition arms_for :: "nat \<Rightarrow> nat \<Rightarrow> nat set \<Rightarrow> timer_command \<Rightarrow> bool" where
  "arms_for max_delay now E c \<longleftrightarrow> (case c of
       Disarm \<Rightarrow> E = {}
     | Arm d \<Rightarrow> E \<noteq> {} \<and> 1 \<le> d \<and> d \<le> max_delay \<and> (\<forall>x \<in> E. now + d \<le> max x (now + 1))
         \<and> (d < max_delay \<longrightarrow> d = 1 \<or> now + d \<in> E))"

lemma rearm_timer_spec:
  assumes ok: "timer_ready g max_delay limit Q" and now: "now = e_monotonic_ms e (g_reads g)"
  shows "\<exists>n c. rearm_timer e g = Some (g\<lparr>g_sched := (g_sched g)\<lparr>time_slice_deadline := n\<rparr>,
      g_timer_cell := g_timer_cell g + 1, g_reads := g_reads g + 1, g_calls := g_calls g @ [command_call c]\<rparr>)
    \<and> arms_for max_delay now (timer_events limit (e_embassy_deadline e now) now (g_sched g) Q) c"
proof -
  let ?E = "timer_events limit (e_embassy_deadline e now) now (g_sched g) Q"
  from ok obtain st where st: "0 < max_delay" "g_start g = Some st" "ss_port st = Some max_delay"
      "sc_max_scheduler_lock_duration (ss_config st) = Some limit" "shape_ok (g_sched g)" "ready_rep (g_sched g) Q"
    by (auto simp: timer_ready_def)
  obtain d n where pl: "rearm_plan limit (e_embassy_deadline e now) now (g_timer_cell g) (g_sched g)
      = Some (d, g_timer_cell g + 1, (g_sched g)\<lparr>time_slice_deadline := n\<rparr>)"
      "d = None \<longleftrightarrow> ?E = {}" "\<forall>m. d = Some m \<longrightarrow> m \<in> ?E \<and> (\<forall>x \<in> ?E. m \<le> x)"
    using rearm_plan_spec [OF st(6,5)] by blast
  let ?c = "timer_command_for max_delay now d"
  have arms: "arms_for max_delay now ?E ?c"
  proof (cases d)
    case None
    then show ?thesis using pl(2) by (simp add: arms_for_def timer_command_for_def)
  next
    case (Some m)
    then have "\<forall>x \<in> ?E. m \<le> x" "m \<in> ?E" using pl(3) by auto
    from timer_command_bounds [OF st(1) this, of now] Some show ?thesis
      using \<open>m \<in> ?E\<close> by (auto simp: arms_for_def)
  qed
  have "?c = Arm k \<Longrightarrow> k \<noteq> 0" for k using arms by (auto simp: arms_for_def)
  then have pass: "rearm_pass e st max_delay g = Some (g_timer_cell g + 1,
      g\<lparr>g_sched := (g_sched g)\<lparr>time_slice_deadline := n\<rparr>, g_timer_cell := g_timer_cell g + 1,
        g_reads := g_reads g + 1, g_calls := g_calls g @ [command_call ?c]\<rparr>)"
    using st pl(1) now by (cases ?c) (auto simp: rearm_pass_def now_ms_def port_log_def command_call_def Let_def)
  then show ?thesis using st arms
    by (intro exI [of _ n] exI [of _ ?c])
      (simp add: rearm_timer_def rearm_loop.simps [of e st] timer_rearm_ticket_is_current_def)
qed

subsection \<open>Interleaved passes\<close>

text \<open>
  \<open>rearm_timer\<close> is interruptible between its two critical sections: an interrupt may run a whole
  \<open>rearm_timer\<close> of its own between the plan and the write to the timer. An activation is at the top
  of its loop, has a plan (its ticket and command), or has written its command and not yet checked
  its ticket. \<open>p_planned\<close> numbers the plans and \<open>p_latest\<close> is the command of the last one; both
  are ghosts that no step reads.
\<close>

datatype pass = Planning | Planned "64 word" timer_command nat | Written "64 word" nat

record protocol =
  p_cell :: "64 word"
  p_hardware :: timer_command
  p_active :: "nat \<Rightarrow> pass option"
  p_planned :: nat
  p_latest :: timer_command

text \<open>
  The command of a plan is what \<open>rearm_plan\<close> and \<open>timer_command_for\<close> make of the scheduler state
  at that moment, any state.
\<close>

inductive rearm_step :: "nat \<Rightarrow> protocol \<Rightarrow> protocol \<Rightarrow> bool" for max_delay where
  called: "p_active c a = None \<Longrightarrow> rearm_step max_delay c (c\<lparr>p_active := (p_active c)(a \<mapsto> Planning)\<rparr>)"
| planned: "p_active c a = Some Planning \<Longrightarrow>
    rearm_plan limit embassy now (p_cell c) s = Some (deadline, ticket, s') \<Longrightarrow>
    command = timer_command_for max_delay now deadline \<Longrightarrow>
    rearm_step max_delay c (c\<lparr>p_cell := ticket,
      p_active := (p_active c)(a \<mapsto> Planned ticket command (Suc (p_planned c))),
      p_planned := Suc (p_planned c), p_latest := command\<rparr>)"
| written: "p_active c a = Some (Planned ticket command k) \<Longrightarrow>
    rearm_step max_delay c (c\<lparr>p_hardware := command, p_active := (p_active c)(a \<mapsto> Written ticket k)\<rparr>)"
| returned: "p_active c a = Some (Written ticket k) \<Longrightarrow> timer_rearm_ticket_is_current (p_cell c) ticket \<Longrightarrow>
    rearm_step max_delay c (c\<lparr>p_active := (p_active c)(a := None)\<rparr>)"
| looped: "p_active c a = Some (Written ticket k) \<Longrightarrow> \<not> timer_rearm_ticket_is_current (p_cell c) ticket \<Longrightarrow>
    rearm_step max_delay c (c\<lparr>p_active := (p_active c)(a \<mapsto> Planning)\<rparr>)"

text \<open>Initially the timer is off and nobody is rearming; the cell may hold any value.\<close>

definition protocol_start :: "64 word \<Rightarrow> protocol" where
  "protocol_start cell = \<lparr>p_cell = cell, p_hardware = Disarm, p_active = Map.empty, p_planned = 0, p_latest = Disarm\<rparr>"

text \<open>An activation that will make another plan, or that is about to write the last one.\<close>

definition will_settle :: "protocol \<Rightarrow> pass \<Rightarrow> bool" where
  "will_settle c p \<longleftrightarrow> (case p of Planning \<Rightarrow> True
     | Planned _ _ k \<Rightarrow> True | Written _ k \<Rightarrow> k \<noteq> p_planned c)"

definition tickets_ok :: "64 word \<Rightarrow> protocol \<Rightarrow> bool" where
  "tickets_ok cell0 c \<longleftrightarrow> p_cell c = cell0 + of_nat (p_planned c)
     \<and> (\<forall>a t k. p_active c a = Some (Written t k) \<longrightarrow> t = cell0 + of_nat k \<and> k \<le> p_planned c)
     \<and> (\<forall>a t m k. p_active c a = Some (Planned t m k) \<longrightarrow> t = cell0 + of_nat k \<and> k \<le> p_planned c
          \<and> (k = p_planned c \<longrightarrow> m = p_latest c))"

definition protocol_ok :: "64 word \<Rightarrow> protocol \<Rightarrow> bool" where
  "protocol_ok cell0 c \<longleftrightarrow> tickets_ok cell0 c
     \<and> (p_hardware c = p_latest c \<or> (\<exists>a p. p_active c a = Some p \<and> will_settle c p))"

lemma rearm_plan_ticket: "rearm_plan limit embassy now cell s = Some (d, ticket, s') \<Longrightarrow> ticket = cell + 1"
  by (auto simp: rearm_plan_def claim_timer_rearm_generation_def Let_def bind_eq_Some)

lemma rearm_step_counts: "rearm_step max_delay c c' \<Longrightarrow> p_planned c \<le> p_planned c'"
  by (induction rule: rearm_step.induct) auto

lemma ticket_inject:
  assumes "(x :: 64 word) + of_nat j = x + of_nat k" "j \<le> k" "k < 2 ^ 64"
  shows "j = k"
proof -
  have "(of_nat j :: 64 word) = of_nat k" using assms(1) by simp
  then have "j mod 2 ^ 64 = k mod 2 ^ 64" by (simp add: of_nat_eq_iff word_of_nat_eq_iff take_bit_eq_mod)
  with assms(2,3) show ?thesis by simp
qed

lemma settles: "p_active c a = Some p \<Longrightarrow> will_settle c p \<Longrightarrow>
    p_hardware c = p_latest c \<or> (\<exists>a p. p_active c a = Some p \<and> will_settle c p)"
  by blast

lemma protocol_ok_step:
  assumes "rearm_step max_delay c c'" "protocol_ok cell0 c" "p_planned c' < 2 ^ 64"
  shows "protocol_ok cell0 c'"
proof -
  from assms(2) have tk: "tickets_ok cell0 c"
    and st: "p_hardware c = p_latest c \<or> (\<exists>a p. p_active c a = Some p \<and> will_settle c p)"
    by (simp_all add: protocol_ok_def)
  from assms(1) show ?thesis
  proof (cases rule: rearm_step.cases)
    case (called a)
    have "tickets_ok cell0 c'" using tk by (auto simp: called(1) tickets_ok_def)
    then show ?thesis using settles [of c' a Planning] by (simp add: called(1) protocol_ok_def will_settle_def)
  next
    case (planned a limit embassy now s deadline ticket s' command)
    have "tickets_ok cell0 c'"
      using tk rearm_plan_ticket [OF planned(3)] by (fastforce simp: planned(1) tickets_ok_def le_Suc_eq)
    then show ?thesis using settles [of c' a] by (simp add: planned(1) protocol_ok_def will_settle_def)
  next
    case (written a ticket command k)
    have k: "k \<le> p_planned c" "k = p_planned c \<longrightarrow> command = p_latest c" using tk written(2) by (auto simp: tickets_ok_def)
    have "tickets_ok cell0 c'" using tk written(2) by (auto simp: written(1) tickets_ok_def)
    then show ?thesis using settles [of c' a "Written ticket k"] k
      by (cases "k = p_planned c") (simp_all add: written(1) protocol_ok_def will_settle_def)
  next
    case (returned a ticket k)
    have k: "k = p_planned c"
      using tk returned assms(3) ticket_inject [of cell0 k "p_planned c"]
      by (auto simp: tickets_ok_def timer_rearm_ticket_is_current_def)
    have "tickets_ok cell0 c'" using tk by (auto simp: returned(1) tickets_ok_def)
    moreover have "p_hardware c' = p_latest c' \<or> (\<exists>a p. p_active c' a = Some p \<and> will_settle c' p)"
      using st
    proof (elim disjE exE conjE)
      fix b p
      assume b: "p_active c b = Some p" "will_settle c p"
      then have "b \<noteq> a" using returned(2) k by (auto simp: will_settle_def)
      then have "p_active c' b = Some p" "will_settle c' p"
        using b by (simp_all add: returned(1) will_settle_def split: pass.splits)
      then show ?thesis by (rule settles)
    qed (simp add: returned(1))
    ultimately show ?thesis by (simp add: protocol_ok_def)
  next
    case (looped a ticket k)
    have "tickets_ok cell0 c'" using tk by (auto simp: looped(1) tickets_ok_def)
    then show ?thesis using settles [of c' a Planning] by (simp add: looped(1) protocol_ok_def will_settle_def)
  qed
qed

lemma protocol_ok_reachable:
  assumes "(rearm_step max_delay)\<^sup>*\<^sup>* (protocol_start cell) c" "p_planned c < 2 ^ 64"
  shows "protocol_ok cell c"
  using assms
proof (induction rule: rtranclp_induct)
  case base
  show ?case by (simp add: protocol_ok_def tickets_ok_def protocol_start_def)
next
  case (step c c')
  have "p_planned c < 2 ^ 64" using rearm_step_counts [OF step(2)] step(4) by simp
  from protocol_ok_step [OF step(2) step.IH [OF this] step(4)] show ?case .
qed

subsection \<open>Properties\<close>


lemma sched_new_events:
  "timer_events limit embassy now (sched_new n) (\<lambda>_. []) = set_option embassy"
proof -
  have t: "tasks (sched_new n) ! current (sched_new n) = tcb_empty" "set (tasks (sched_new n)) = {tcb_empty}"
    by (simp_all add: sched_new_def TASK_SLOT_COUNT_eq)
  have e: "t_state tcb_empty = Free" "t_run_policy tcb_empty = Cooperative" by (simp_all add: tcb_empty_def)
  show ?thesis
    by (simp add: timer_events_def wake_events_def quota_events_def lock_events_def slice_events_def
        wants_switch_def has_wake_deadline_def t e) (auto simp: e)
qed

definition demo_env :: "unit env" where
  "demo_env = \<lparr>e_monotonic_ms = (\<lambda>k. 10 * k), e_storage_allocate = (\<lambda>n h. (0, h)),
     e_storage_deallocate = (\<lambda>p h. h), e_storage_largest = (\<lambda>h. 0), e_app_allocate = (\<lambda>n h. (0, h)),
     e_app_deallocate = (\<lambda>p h. h), e_embassy_deadline = (\<lambda>now. Some (now + 50)), e_install = None,
     e_idle_stack = 4096, e_idle_entry = 8, e_trampoline = 16, e_tp = 0, e_fcsr = 0\<rparr>"

definition demo_rt :: "unit rt" where
  "demo_rt = \<lparr>g_sched = sched_new 8, g_interrupt_depth = 0,
     g_start = Some \<lparr>ss_config = \<lparr>sc_minimum_stack_size = 1024, sc_radio_task_policy = Cooperative,
         sc_max_scheduler_lock_duration = Some 100\<rparr>, ss_storage = None, ss_port = Some 1000\<rparr>,
     g_handles = [], g_timer_cell = 0, g_machine_interrupts = True, g_reads = 2,
     g_heap = (), g_frames = Map.empty, g_calls = []\<rparr>"

lemma demo_rt_ready: "timer_ready demo_rt 1000 100 (\<lambda>_. [])"
  using sched_new_shape ready_rep_new by (simp add: timer_ready_def demo_rt_def)


text \<open>
  C27. However the activations of \<open>rearm_timer\<close> interleave, once all of them have returned the timer
  holds the command of the plan that was made last, provided fewer than \<open>2^64\<close> plans were made:
  an activation that has written an outdated plan always plans again.
\<close>

theorem last_plan_reaches_timer:
  assumes "(rearm_step max_delay)\<^sup>*\<^sup>* (protocol_start cell) c" "p_planned c < 2 ^ 64"
    and "p_active c = Map.empty"
  shows "p_hardware c = p_latest c"
  using protocol_ok_reachable [OF assms(1,2)] assms(3) by (simp add: protocol_ok_def)

text \<open>Activation 0 is interrupted between its plan and its write by the whole of activation 1.\<close>

lemma demo_plan_step:
  assumes "p_active c a = Some Planning" "0 < d" "d \<le> 1000"
  shows "rearm_step 1000 c (c\<lparr>p_cell := p_cell c + 1, p_active := (p_active c)(a \<mapsto> Planned (p_cell c + 1) (Arm d) (Suc (p_planned c))),
    p_planned := Suc (p_planned c), p_latest := Arm d\<rparr>)"
proof -
  from rearm_plan_spec [OF ready_rep_new sched_new_shape, of 100 "Some d" 0 "p_cell c" 8]
  obtain m n where pl: "rearm_plan 100 (Some d) 0 (p_cell c) (sched_new 8)
      = Some (m, p_cell c + 1, (sched_new 8)\<lparr>time_slice_deadline := n\<rparr>)"
      and none: "m = None \<longleftrightarrow> {d} = {}" and some: "\<forall>k. m = Some k \<longrightarrow> k \<in> {d} \<and> (\<forall>x \<in> {d}. k \<le> x)"
    unfolding sched_new_events option.set by (elim exE conjE) (rule that)
  from none some have "m = Some d" by (cases m) simp_all
  with assms(2,3) have "Arm d = timer_command_for 1000 0 m" by (simp add: timer_command_for_def)
  from rearm_step.planned [OF assms(1) pl this] show ?thesis .
qed

definition demo_protocol :: "nat \<Rightarrow> timer_command \<Rightarrow> timer_command \<Rightarrow> (nat \<Rightarrow> pass option) \<Rightarrow> protocol" where
  "demo_protocol n hw latest act = \<lparr>p_cell = of_nat n, p_hardware = hw, p_active = act, p_planned = n, p_latest = latest\<rparr>"

lemma demo_protocol_steps:
  "act a = None \<Longrightarrow> rearm_step 1000 (demo_protocol n hw l act) (demo_protocol n hw l (act(a \<mapsto> Planning)))"
  "act a = Some Planning \<Longrightarrow> 0 < d \<Longrightarrow> d \<le> 1000 \<Longrightarrow> rearm_step 1000 (demo_protocol n hw l act)
    (demo_protocol (Suc n) hw (Arm d) (act(a \<mapsto> Planned (of_nat (Suc n)) (Arm d) (Suc n))))"
  "act a = Some (Planned t m k) \<Longrightarrow>
    rearm_step 1000 (demo_protocol n hw l act) (demo_protocol n m l (act(a \<mapsto> Written t k)))"
  "act a = Some (Written (of_nat n) k) \<Longrightarrow>
    rearm_step 1000 (demo_protocol n hw l act) (demo_protocol n hw l (act(a := None)))"
  "act a = Some (Written t k) \<Longrightarrow> t \<noteq> of_nat n \<Longrightarrow>
    rearm_step 1000 (demo_protocol n hw l act) (demo_protocol n hw l (act(a \<mapsto> Planning)))"
proof -
  let ?c = "demo_protocol n hw l act"
  show "act a = None \<Longrightarrow> rearm_step 1000 ?c (demo_protocol n hw l (act(a \<mapsto> Planning)))"
    using rearm_step.called [of ?c a 1000] by (simp add: demo_protocol_def)
  show "act a = Some Planning \<Longrightarrow> 0 < d \<Longrightarrow> d \<le> 1000 \<Longrightarrow> rearm_step 1000 ?c
      (demo_protocol (Suc n) hw (Arm d) (act(a \<mapsto> Planned (of_nat (Suc n)) (Arm d) (Suc n))))"
    using demo_plan_step [of ?c a d] by (simp add: demo_protocol_def add.commute)
  show "act a = Some (Planned t m k) \<Longrightarrow> rearm_step 1000 ?c (demo_protocol n m l (act(a \<mapsto> Written t k)))"
    using rearm_step.written [of ?c a t m k 1000] by (simp add: demo_protocol_def)
  show "act a = Some (Written (of_nat n) k) \<Longrightarrow> rearm_step 1000 ?c (demo_protocol n hw l (act(a := None)))"
    using rearm_step.returned [of ?c a "of_nat n" k 1000]
    by (simp add: demo_protocol_def timer_rearm_ticket_is_current_def)
  show "act a = Some (Written t k) \<Longrightarrow> t \<noteq> of_nat n \<Longrightarrow>
      rearm_step 1000 ?c (demo_protocol n hw l (act(a \<mapsto> Planning)))"
    using rearm_step.looped [of ?c a t k 1000]
    by (simp add: demo_protocol_def timer_rearm_ticket_is_current_def)
qed

theorem last_plan_reaches_timer_witness:
  "\<exists>c. (rearm_step 1000)\<^sup>*\<^sup>* (protocol_start 0) c \<and> p_planned c = 3 \<and> p_active c = Map.empty
    \<and> p_hardware c = p_latest c \<and> p_latest c = Arm 20"
proof -
  have c0: "protocol_start 0 = demo_protocol 0 Disarm Disarm Map.empty"
    by (simp add: protocol_start_def demo_protocol_def)
  note st = rtranclp.rtrancl_into_rtrancl
  let ?R = "(rearm_step 1000)\<^sup>*\<^sup>* (protocol_start 0)"
  have "?R (demo_protocol 0 Disarm Disarm [0 \<mapsto> Planning])"
    unfolding c0 by (rule r_into_rtranclp) (rule demo_protocol_steps(1), simp)
  then have "?R (demo_protocol 1 Disarm (Arm 5) [0 \<mapsto> Planned 1 (Arm 5) 1])"
    by (rule st) (use demo_protocol_steps(2) [of "[0 \<mapsto> Planning]" 0 5 0 Disarm Disarm] in simp)
  then have "?R (demo_protocol 1 Disarm (Arm 5) [0 \<mapsto> Planned 1 (Arm 5) 1, 1 \<mapsto> Planning])"
    by (rule st) (rule demo_protocol_steps(1), simp)
  then have "?R (demo_protocol 2 Disarm (Arm 9) [0 \<mapsto> Planned 1 (Arm 5) 1, 1 \<mapsto> Planned 2 (Arm 9) 2])"
    by (rule st) (use demo_protocol_steps(2) [of "[0 \<mapsto> Planned 1 (Arm 5) 1, 1 \<mapsto> Planning]" 1 9 1 Disarm "Arm 5"] in \<open>simp add: numeral_2_eq_2\<close>)
  then have "?R (demo_protocol 2 (Arm 9) (Arm 9) [0 \<mapsto> Planned 1 (Arm 5) 1, 1 \<mapsto> Written 2 2])"
    by (rule st) (use demo_protocol_steps(3) [of "[0 \<mapsto> Planned 1 (Arm 5) 1, 1 \<mapsto> Planned 2 (Arm 9) 2]" 1 2 "Arm 9" 2] in simp)
  then have "?R (demo_protocol 2 (Arm 9) (Arm 9) [0 \<mapsto> Planned 1 (Arm 5) 1])"
    by (rule st) (use demo_protocol_steps(4) [of "[0 \<mapsto> Planned 1 (Arm 5) 1, 1 \<mapsto> Written 2 2]" 1 2 2] in \<open>simp add: fun_upd_idem\<close>)
  then have "?R (demo_protocol 2 (Arm 5) (Arm 9) [0 \<mapsto> Written 1 1])"
    by (rule st) (use demo_protocol_steps(3) [of "[0 \<mapsto> Planned 1 (Arm 5) 1]" 0 1 "Arm 5" 1] in simp)
  then have "?R (demo_protocol 2 (Arm 5) (Arm 9) [0 \<mapsto> Planning])"
    by (rule st) (use demo_protocol_steps(5) [of "[0 \<mapsto> Written 1 1]" 0 1 1 2] in simp)
  then have "?R (demo_protocol 3 (Arm 5) (Arm 20) [0 \<mapsto> Planned 3 (Arm 20) 3])"
    by (rule st) (use demo_protocol_steps(2) [of "[0 \<mapsto> Planning]" 0 20 2 "Arm 5" "Arm 9"] in \<open>simp add: numeral_3_eq_3\<close>)
  then have "?R (demo_protocol 3 (Arm 20) (Arm 20) [0 \<mapsto> Written 3 3])"
    by (rule st) (use demo_protocol_steps(3) [of "[0 \<mapsto> Planned 3 (Arm 20) 3]" 0 3 "Arm 20" 3] in simp)
  then have run: "?R (demo_protocol 3 (Arm 20) (Arm 20) Map.empty)"
    by (rule st) (use demo_protocol_steps(4) [of "[0 \<mapsto> Written 3 3]" 0 3 3] in simp)
  moreover from last_plan_reaches_timer [OF run] have
    "p_hardware (demo_protocol 3 (Arm 20) (Arm 20) Map.empty) = p_latest (demo_protocol 3 (Arm 20) (Arm 20) Map.empty)"
    by (simp add: demo_protocol_def)
  ultimately show ?thesis by (intro exI conjI) (assumption | simp add: demo_protocol_def)+
qed

lemma ceil_div:
  fixes r t :: nat
  assumes "0 < t"
  shows "r \<le> (r + (t - 1)) div t * t" "(r + (t - 1)) div t = Suc k \<Longrightarrow> k * t < r"
proof -
  have m: "(r + (t - 1)) mod t < t" using assms by simp
  have s: "r + (t - 1) = (r + (t - 1)) div t * t + (r + (t - 1)) mod t" by simp
  show "r \<le> (r + (t - 1)) div t * t" using m s by linarith
  assume "(r + (t - 1)) div t = Suc k"
  then have "r + (t - 1) = k * t + t + (r + (t - 1)) mod t" using s by (simp add: add.commute)
  then show "k * t < r" using assms by linarith
qed



end
