(* ===== verification/Wait_Invariant.thy ===== *)
theory Wait_Invariant
  imports Sync
begin

text \<open>
  The wait queues of all semaphores and all mutexes at once. Both kinds of object form a family of
  queues over the same links: \<open>fam_rep\<close> says of one family that every object of it has a
  well-linked queue in priority order and that a task is in the queue of an object exactly when it
  is blocked on it. \<open>waits_rep\<close> is the invariant for both families. Two parameters describe the
  states inside an operation: the tasks of \<open>X\<close> are in no queue yet, and the places of the tasks of
  \<open>Y\<close> may not fit their priorities yet.
\<close>

subsection \<open>A family of wait queues\<close>

definition fam_rep ::
  "nat set \<Rightarrow> nat set \<Rightarrow> sched \<Rightarrow> (nat \<Rightarrow> (nat \<times> nat) option) \<Rightarrow> (tcb \<Rightarrow> nat) \<Rightarrow> (nat \<Rightarrow> nat list) \<Rightarrow> bool" where
  "fam_rep X Y s E w S \<longleftrightarrow>
     (\<forall>a. E a = None \<longrightarrow> S a = [])
     \<and> (\<forall>a e. E a = Some e \<longrightarrow> a \<noteq> 0 \<and> wait_rep s e (S a) \<and> sorted (map (prio_of s) (filter (\<lambda>i. i \<notin> Y) (S a))))
     \<and> (\<forall>a. \<forall>i \<in> set (S a). i \<notin> X \<and> state_of s i = Blocked \<and> w (tasks s ! i) = a)
     \<and> (\<forall>i < TASK_SLOT_COUNT. i \<notin> X \<longrightarrow> w (tasks s ! i) \<noteq> 0 \<longrightarrow> i \<in> set (S (w (tasks s ! i))))"

definition members :: "(nat \<Rightarrow> nat list) \<Rightarrow> nat set" where
  "members S = (\<Union>a. set (S a))"

lemma fam_repD:
  assumes "fam_rep X Y s E w S"
  shows "E a = None \<Longrightarrow> S a = []" "E a = Some e \<Longrightarrow> a \<noteq> 0" "E a = Some e \<Longrightarrow> wait_rep s e (S a)"
    "E a = Some e \<Longrightarrow> sorted (map (prio_of s) (filter (\<lambda>i. i \<notin> Y) (S a)))"
    "i \<in> set (S a) \<Longrightarrow> i \<notin> X" "i \<in> set (S a) \<Longrightarrow> state_of s i = Blocked" "i \<in> set (S a) \<Longrightarrow> w (tasks s ! i) = a"
    "i < TASK_SLOT_COUNT \<Longrightarrow> i \<notin> X \<Longrightarrow> w (tasks s ! i) \<noteq> 0 \<Longrightarrow> i \<in> set (S (w (tasks s ! i)))"
  using assms unfolding fam_rep_def by blast+

lemma fam_member:
  assumes "fam_rep X Y s E w S" "i \<in> set (S a)"
  shows "i < TASK_SLOT_COUNT" "E a \<noteq> None" "a \<noteq> 0"
proof -
  show e: "E a \<noteq> None" using fam_repD(1) [OF assms(1)] assms(2) by force
  then obtain e where "E a = Some e" by auto
  then show "a \<noteq> 0" "i < TASK_SLOT_COUNT"
    using fam_repD(2,3) [OF assms(1)] wait_rep_sel(4) assms(2) by blast+
qed

lemma members_iff:
  assumes "fam_rep X Y s E w S"
  shows "i \<in> members S \<longleftrightarrow> i < TASK_SLOT_COUNT \<and> i \<notin> X \<and> w (tasks s ! i) \<noteq> 0"
proof
  assume "i \<in> members S"
  then obtain a where a: "i \<in> set (S a)" by (auto simp: members_def)
  from fam_member [OF assms a] fam_repD(5,7) [OF assms a]
  show "i < TASK_SLOT_COUNT \<and> i \<notin> X \<and> w (tasks s ! i) \<noteq> 0" by simp
next
  assume "i < TASK_SLOT_COUNT \<and> i \<notin> X \<and> w (tasks s ! i) \<noteq> 0"
  then show "i \<in> members S" using fam_repD(8) [OF assms] unfolding members_def by blast
qed

lemma members_blocked: "fam_rep X Y s E w S \<Longrightarrow> i \<in> members S \<Longrightarrow> state_of s i = Blocked"
  by (auto simp: members_def dest: fam_repD(6))

lemma fam_waiting:
  assumes "fam_rep X Y s E w S" "i < TASK_SLOT_COUNT" "i \<notin> X" "w (tasks s ! i) = a" "a \<noteq> 0"
  shows "i \<in> set (S a)" "state_of s i = Blocked" "\<exists>e. E a = Some e"
proof -
  show m: "i \<in> set (S a)" using fam_repD(8) [OF assms(1-3)] assms(4,5) by simp
  then show "state_of s i = Blocked" "\<exists>e. E a = Some e"
    using fam_repD(6) [OF assms(1)] fam_member(2) [OF assms(1)] by auto
qed

lemma fam_disjoint:
  assumes "fam_rep X Y s E w S" "i \<in> set (S a)" "i \<in> set (S b)"
  shows "a = b"
  using fam_repD(7) [OF assms(1)] assms(2,3) by blast

text \<open>Members keep their links, priorities, states and objects; other tasks wait for nothing.\<close>

lemma fam_frame:
  assumes rep: "fam_rep X Y s E w S"
    and keep: "\<And>i. i \<in> members S \<Longrightarrow> links s' i = links s i \<and> state_of s' i = Blocked
        \<and> w (tasks s' ! i) = w (tasks s ! i)"
    and prio: "\<And>i. i \<in> members S \<Longrightarrow> i \<notin> Y' \<Longrightarrow> i \<notin> Y \<and> prio_of s' i = prio_of s i"
    and rest: "\<And>i. i < TASK_SLOT_COUNT \<Longrightarrow> i \<notin> X' \<Longrightarrow> i \<notin> members S \<Longrightarrow> w (tasks s' ! i) = 0"
    and X': "X' \<inter> members S = {}"
  shows "fam_rep X' Y' s' E w S"
  unfolding fam_rep_def
proof (intro conjI allI impI ballI)
  fix a e
  assume e: "E a = Some e"
  show "a \<noteq> 0" using fam_repD(2) [OF rep e] .
  have sub: "set (S a) \<subseteq> members S" by (auto simp: members_def)
  show "wait_rep s' e (S a)" using fam_repD(3) [OF rep e] keep sub by (auto intro: wait_rep_frame)
  have "filter (\<lambda>i. i \<notin> Y') (S a) = filter (\<lambda>i. i \<notin> Y') (filter (\<lambda>i. i \<notin> Y) (S a))"
    using prio sub by (auto intro!: filter_cong)
  moreover have "map (prio_of s') (filter (\<lambda>i. i \<notin> Y') (S a)) = map (prio_of s) (filter (\<lambda>i. i \<notin> Y') (S a))"
    using prio sub by auto
  ultimately show "sorted (map (prio_of s') (filter (\<lambda>i. i \<notin> Y') (S a)))"
    using sorted_filter [OF fam_repD(4) [OF rep e], of "\<lambda>i. i \<notin> Y'"] by (simp only:)
next
  fix a i
  assume i: "i \<in> set (S a)"
  then have "i \<in> members S" by (auto simp: members_def)
  then show "i \<notin> X'" "state_of s' i = Blocked" "w (tasks s' ! i) = a"
    using X' keep fam_repD(7) [OF rep i] by auto
next
  fix i
  assume i: "i < TASK_SLOT_COUNT" "i \<notin> X'" "w (tasks s' ! i) \<noteq> 0"
  have m: "i \<in> members S" using rest [OF i(1,2)] i(3) by (cases "i \<in> members S") simp_all
  then obtain a where "i \<in> set (S a)" by (auto simp: members_def)
  with keep [OF m] fam_repD(7) [OF rep this] show "i \<in> set (S (w (tasks s' ! i)))" by simp
qed (use fam_repD(1) [OF rep] in auto)

text \<open>A family that owns none of the relinked tasks.\<close>

lemma fam_relinked:
  assumes rep: "fam_rep X Y s E w S" and re: "relinked R s s'" and len: "length (tasks s) = TASK_SLOT_COUNT"
    and dis: "R \<inter> members S = {}" and w: "\<And>t n. w (t\<lparr>t_next := n\<rparr>) = w t"
  shows "fam_rep X Y s' E w S"
proof (rule fam_frame [OF rep])
  fix i
  assume i: "i \<in> members S"
  then have l: "i < length (tasks s)" "i \<notin> R" using members_iff [OF rep] len dis by auto
  from relinked_task(2) [OF re l] members_blocked [OF rep i]
  show "links s' i = links s i \<and> state_of s' i = Blocked \<and> w (tasks s' ! i) = w (tasks s ! i)"
    by (simp add: links_def)
  show "i \<notin> Y \<and> prio_of s' i = prio_of s i" if "i \<notin> Y" using relinked_task(2) [OF re l] that by simp
next
  fix i
  assume i: "i < TASK_SLOT_COUNT" "i \<notin> X" "i \<notin> members S"
  then have "w (tasks s ! i) = 0" using members_iff [OF rep] by blast
  then show "w (tasks s' ! i) = 0" using relinked_task(1) [OF re, of i] i(1) len w by auto
qed (use members_iff [OF rep] in blast)

subsection \<open>Leaving and joining a queue\<close>

lemma filter_filter_commute: "filter P (filter Q xs) = filter Q (filter P xs)"
  by (simp add: conj_commute)

lemma sorted_filter_remove1:
  "distinct q \<Longrightarrow> sorted (map f (filter P q)) \<Longrightarrow> sorted (map f (filter P (remove1 i q)))"
  by (metis distinct_remove1_removeAll filter_filter_commute removeAll_filter_not_eq sorted_filter)

lemma fam_remove:
  assumes rep: "fam_rep X Y s E w S" and e: "E a = Some e" and len: "length (tasks s) = TASK_SLOT_COUNT"
    and i: "i \<in> set (S a)" and w: "\<And>t n. w (t\<lparr>t_next := n\<rparr>) = w t"
  shows "\<exists>e' s'. wait_unlink i e s = Some (e', s') \<and> rewired (set (S a)) s s'
    \<and> fam_rep (insert i X) (Y - {i}) s' (E(a \<mapsto> e')) w (S(a := remove1 i (S a)))"
proof -
  from wait_unlink_spec [OF len fam_repD(3) [OF rep e], of i] obtain e' s' where
    u: "wait_unlink i e s = Some (e', s')" "wait_rep s' e' (remove1 i (S a))" "rewired (set (S a)) s s'" by blast
  note re = rewired_relinked [OF u(3)]
  let ?S = "S(a := remove1 i (S a))"
  have d: "distinct (S a)" using wait_rep_sel(3) [OF fam_repD(3) [OF rep e]] .
  have sub: "set (?S b) \<subseteq> set (S b)" for b using set_remove1_subset [of i "S a"] by auto
  have out: "i \<notin> set (?S b)" for b using d fam_disjoint [OF rep i, of b] by auto
  have fld: "w (tasks s' ! j) = w (tasks s ! j)" "state_of s' j = state_of s j" "prio_of s' j = prio_of s j"
    if "j < TASK_SLOT_COUNT" for j
    using relinked_task(1) [OF re, of j] relinked_fields(4,13) [OF re, of j] w len that by auto
  have "fam_rep (insert i X) (Y - {i}) s' (E(a \<mapsto> e')) w ?S"
    unfolding fam_rep_def
  proof (intro conjI allI impI ballI)
    fix b f
    assume f: "(E(a \<mapsto> e')) b = Some f"
    show "b \<noteq> 0" using f fam_repD(2) [OF rep] e by (auto split: if_splits)
    have pr: "map (prio_of s') (filter P (?S b)) = map (prio_of s) (filter P (?S b))" for P
    proof (rule map_cong [OF refl])
      fix j
      assume "j \<in> set (filter P (?S b))"
      then have "j \<in> set (S b)" using sub [of b] unfolding set_filter by blast
      then show "prio_of s' j = prio_of s j" using fld(3) fam_member(1) [OF rep] by blast
    qed
    have fl: "filter (\<lambda>j. j \<notin> Y - {i}) (?S b) = filter (\<lambda>j. j \<notin> Y) (?S b)" using out [of b] by (intro filter_cong) auto
    show "sorted (map (prio_of s') (filter (\<lambda>j. j \<notin> Y - {i}) (?S b)))"
      unfolding fl pr using f sorted_filter_remove1 [OF d fam_repD(4) [OF rep e]] fam_repD(4) [OF rep]
      by (auto split: if_splits)
    show "wait_rep s' f (?S b)"
    proof (cases "b = a")
      case True
      with f u(2) show ?thesis by simp
    next
      case False
      then have "set (S b) \<inter> set (S a) = {}" using fam_disjoint [OF rep] by blast
      moreover have "wait_rep s f (S b)" using f False fam_repD(3) [OF rep] by simp
      ultimately show ?thesis using relinked_wait_rep [OF re _ _ len] False by simp
    qed
  next
    fix b j
    assume j: "j \<in> set (?S b)"
    then have m: "j \<in> set (S b)" using sub by blast
    show "j \<notin> insert i X" using j out fam_repD(5) [OF rep m] by auto
    show "state_of s' j = Blocked" "w (tasks s' ! j) = b"
      using fld fam_member(1) [OF rep m] fam_repD(6,7) [OF rep m] by simp_all
  next
    fix j
    assume j: "j < TASK_SLOT_COUNT" "j \<notin> insert i X" "w (tasks s' ! j) \<noteq> 0"
    then have "j \<in> set (S (w (tasks s ! j)))" using fam_repD(8) [OF rep] fld(1) by simp
    with j fld(1) [OF j(1)] show "j \<in> set (?S (w (tasks s' ! j)))" by (auto simp: in_set_remove1)
  qed (use fam_repD(1) [OF rep] e in \<open>auto split: if_splits\<close>)
  with u show ?thesis by blast
qed

lemma fam_insert:
  assumes rep: "fam_rep X {} s E w S" and e: "E a = Some e" and len: "length (tasks s) = TASK_SLOT_COUNT"
    and i: "i < TASK_SLOT_COUNT" "i \<in> X" "state_of s i = Blocked" "w (tasks s ! i) = a"
    and w: "\<And>t n. w (t\<lparr>t_next := n\<rparr>) = w t"
  shows "\<exists>e' s'. wait_insert i e s = Some (e', s') \<and> rewired (insert i (set (S a))) s s'
    \<and> fam_rep (X - {i}) {} s' (E(a \<mapsto> e')) w (S(a := insert_prio (prio_of s) i (S a)))"
proof -
  have fresh: "i \<notin> set (S b)" for b using fam_repD(5) [OF rep] i(2) by blast
  from wait_insert_spec [OF len fam_repD(3) [OF rep e] i(1) fresh] obtain e' s' where
    u: "wait_insert i e s = Some (e', s')" "wait_rep s' e' (insert_prio (prio_of s) i (S a))"
      "rewired (insert i (set (S a))) s s'" by blast
  note re = rewired_relinked [OF u(3)]
  let ?S = "S(a := insert_prio (prio_of s) i (S a))"
  have fld: "w (tasks s' ! j) = w (tasks s ! j)" "state_of s' j = state_of s j" "prio_of s' j = prio_of s j"
    if "j < TASK_SLOT_COUNT" for j
    using relinked_task(1) [OF re, of j] relinked_fields(4,13) [OF re, of j] w len that by auto
  have mem: "j \<in> set (?S b) \<longleftrightarrow> j \<in> set (S b) \<or> (j = i \<and> b = a)" for j b by auto
  have slot: "j < TASK_SLOT_COUNT" if "j \<in> set (?S b)" for j b
    using that fam_member(1) [OF rep] i(1) unfolding mem by blast
  have "fam_rep (X - {i}) {} s' (E(a \<mapsto> e')) w ?S"
    unfolding fam_rep_def
  proof (intro conjI allI impI ballI)
    fix b f
    assume f: "(E(a \<mapsto> e')) b = Some f"
    show "b \<noteq> 0" using f fam_repD(2) [OF rep] e by (auto split: if_splits)
    have pr: "map (prio_of s') (?S b) = map (prio_of s) (?S b)" using fld(3) slot [of _ b] by (intro map_cong) auto
    have "sorted (map (prio_of s) (insert_prio (prio_of s) i (S a)))"
      using fam_repD(4) [OF rep e] by (intro insert_prio_sorted) simp
    moreover have "sorted (map (prio_of s) (S b))" if "b \<noteq> a" using f that fam_repD(4) [OF rep] by simp
    ultimately have "sorted (map (prio_of s) (?S b))" by (cases "b = a") simp_all
    then show "sorted (map (prio_of s') (filter (\<lambda>j. j \<notin> {}) (?S b)))" unfolding pr [symmetric] by simp
    show "wait_rep s' f (?S b)"
    proof (cases "b = a")
      case True
      with f u(2) show ?thesis by simp
    next
      case False
      then have "set (S b) \<inter> insert i (set (S a)) = {}" using fam_disjoint [OF rep] fresh by blast
      moreover have "wait_rep s f (S b)" using f False fam_repD(3) [OF rep] by simp
      ultimately show ?thesis using relinked_wait_rep [OF re _ _ len] False by simp
    qed
  next
    fix b j
    assume j: "j \<in> set (?S b)"
    then show "j \<notin> X - {i}" using fam_repD(5) [OF rep] unfolding mem by blast
    show "state_of s' j = Blocked" "w (tasks s' ! j) = b"
      using j fld slot [OF j] fam_repD(6,7) [OF rep] i(3,4) unfolding mem by auto
  next
    fix j
    assume j: "j < TASK_SLOT_COUNT" "j \<notin> X - {i}" "w (tasks s' ! j) \<noteq> 0"
    then show "j \<in> set (?S (w (tasks s' ! j)))"
      using fam_repD(8) [OF rep, of j] fld(1) i(4) unfolding mem by (cases "j = i") auto
  qed (use fam_repD(1) [OF rep] e in \<open>auto split: if_splits\<close>)
  with u show ?thesis by blast
qed

subsection \<open>Semaphores and mutexes\<close>

definition sem_view :: "sched \<Rightarrow> nat \<Rightarrow> (nat \<times> nat) option" where
  "sem_view s a = map_option sem_ends (sem_mem s a)"

definition mutex_view :: "sched \<Rightarrow> nat \<Rightarrow> (nat \<times> nat) option" where
  "mutex_view s a = map_option mutex_ends (mutex_mem s a)"

definition waits_rep :: "nat set \<Rightarrow> nat set \<Rightarrow> sched \<Rightarrow> (nat \<Rightarrow> nat list) \<Rightarrow> (nat \<Rightarrow> nat list) \<Rightarrow> bool" where
  "waits_rep X Y s S M \<longleftrightarrow> fam_rep X {} s (sem_view s) t_waiting_sem S
     \<and> fam_rep X Y s (mutex_view s) t_waiting_mutex M \<and> members S \<inter> members M = {}"

abbreviation waiters :: "(nat \<Rightarrow> nat list) \<Rightarrow> (nat \<Rightarrow> nat list) \<Rightarrow> nat set" where
  "waiters S M \<equiv> members S \<union> members M"

lemma fam_rep_tasks: "tasks s' = tasks s \<Longrightarrow> fam_rep X Y s' E w S = fam_rep X Y s E w S"
  by (simp add: fam_rep_def wait_rep_def links_def [abs_def])

lemma waits_repD:
  assumes "waits_rep X Y s S M"
  shows "fam_rep X {} s (sem_view s) t_waiting_sem S" "fam_rep X Y s (mutex_view s) t_waiting_mutex M"
    "members S \<inter> members M = {}"
  using assms by (simp_all add: waits_rep_def)

lemma waiters_iff:
  assumes "waits_rep X Y s S M"
  shows "i \<in> waiters S M \<longleftrightarrow> i < TASK_SLOT_COUNT \<and> i \<notin> X
    \<and> (t_waiting_sem (tasks s ! i) \<noteq> 0 \<or> t_waiting_mutex (tasks s ! i) \<noteq> 0)"
  using members_iff [OF waits_repD(1) [OF assms]] members_iff [OF waits_repD(2) [OF assms]] by auto

lemma waiters_blocked: "waits_rep X Y s S M \<Longrightarrow> i \<in> waiters S M \<Longrightarrow> state_of s i = Blocked"
  using members_blocked [OF waits_repD(1)] members_blocked [OF waits_repD(2)] by blast

lemma waits_frame:
  assumes rep: "waits_rep X Y s S M"
    and mem: "sem_mem s' = sem_mem s" "mutex_mem s' = mutex_mem s"
    and keep: "\<And>i. i \<in> waiters S M \<Longrightarrow> links s' i = links s i \<and> state_of s' i = Blocked
        \<and> t_waiting_sem (tasks s' ! i) = t_waiting_sem (tasks s ! i)
        \<and> t_waiting_mutex (tasks s' ! i) = t_waiting_mutex (tasks s ! i)"
    and prio: "\<And>i. i \<in> members S \<Longrightarrow> prio_of s' i = prio_of s i"
      "\<And>i. i \<in> members M \<Longrightarrow> i \<notin> Y' \<Longrightarrow> i \<notin> Y \<and> prio_of s' i = prio_of s i"
    and rest: "\<And>i. i < TASK_SLOT_COUNT \<Longrightarrow> i \<notin> X' \<Longrightarrow> i \<notin> waiters S M \<Longrightarrow>
      t_waiting_sem (tasks s' ! i) = 0 \<and> t_waiting_mutex (tasks s' ! i) = 0"
    and X': "X' \<inter> waiters S M = {}"
  shows "waits_rep X' Y' s' S M"
proof -
  note r = waits_repD [OF rep]
  have v: "sem_view s' = sem_view s" "mutex_view s' = mutex_view s"
    by (simp_all add: sem_view_def mutex_view_def mem fun_eq_iff)
  have zs: "t_waiting_sem (tasks s' ! i) = 0" if i: "i < TASK_SLOT_COUNT" "i \<notin> X'" "i \<notin> members S" for i
  proof (cases "i \<in> members M")
    case True
    then have "t_waiting_sem (tasks s ! i) = 0" using members_iff [OF r(1)] members_iff [OF r(2)] i by blast
    with keep [of i] True show ?thesis by simp
  qed (use rest [OF i(1,2)] i(3) in simp)
  have zm: "t_waiting_mutex (tasks s' ! i) = 0" if i: "i < TASK_SLOT_COUNT" "i \<notin> X'" "i \<notin> members M" for i
  proof (cases "i \<in> members S")
    case True
    then have "t_waiting_mutex (tasks s ! i) = 0" using members_iff [OF r(1)] members_iff [OF r(2)] i by blast
    with keep [of i] True show ?thesis by simp
  qed (use rest [OF i(1,2)] i(3) in simp)
  have "fam_rep X' {} s' (sem_view s') t_waiting_sem S"
    unfolding v by (rule fam_frame [OF r(1)]) (use keep prio(1) zs X' in auto)
  moreover have "fam_rep X' Y' s' (mutex_view s') t_waiting_mutex M"
    unfolding v by (rule fam_frame [OF r(2)]) (use keep prio(2) zm X' in auto)
  ultimately show ?thesis using r(3) by (simp add: waits_rep_def)
qed

lemma waits_Y_mono:
  assumes "waits_rep X Y s S M" "Y \<subseteq> Y'"
  shows "waits_rep X Y' s S M"
proof -
  note r = waits_repD [OF assms(1)]
  have "fam_rep X Y' s (mutex_view s) t_waiting_mutex M"
  proof (rule fam_frame [OF r(2)])
    show "t_waiting_mutex (tasks s ! i) = 0" if "i < TASK_SLOT_COUNT" "i \<notin> X" "i \<notin> members M" for i
      using members_iff [OF r(2)] that by blast
  qed (use members_blocked [OF r(2)] members_iff [OF r(2)] assms(2) in \<open>blast+\<close>)
  with r show ?thesis by (simp add: waits_rep_def)
qed

lemma waits_relinked:
  assumes "waits_rep X Y s S M" "relinked R s s'" "length (tasks s) = TASK_SLOT_COUNT" "R \<inter> waiters S M = {}"
  shows "waits_rep X Y s' S M"
proof -
  note r = waits_repD [OF assms(1)] and sel = relinked_sel [OF assms(2)]
  have v: "sem_view s' = sem_view s" "mutex_view s' = mutex_view s"
    by (simp_all add: sem_view_def mutex_view_def sel fun_eq_iff)
  have "R \<inter> members S = {}" "R \<inter> members M = {}" using assms(4) by auto
  with fam_relinked [OF r(1) assms(2,3)] fam_relinked [OF r(2) assms(2,3)] r(3) show ?thesis
    by (simp add: waits_rep_def v)
qed

text \<open>A change of a task that is in no wait queue.\<close>

lemma waits_mod_task:
  assumes rep: "waits_rep X Y s S M" and i: "i < length (tasks s)" "i \<notin> waiters S M" and len: "length (tasks s) = TASK_SLOT_COUNT"
    and w: "i \<in> X' \<or> (t_waiting_sem (f (tasks s ! i)) = 0 \<and> t_waiting_mutex (f (tasks s ! i)) = 0)"
    and X': "X - {i} \<subseteq> X'" "X' \<subseteq> insert i X"
  shows "waits_rep X' Y (mod_task i f s) S M"
proof (rule waits_frame [OF rep])
  fix j
  assume j: "j \<in> waiters S M"
  then have "j \<noteq> i" using i(2) by blast
  then have e: "tasks (mod_task i f s) ! j = tasks s ! j" by simp
  then show "links (mod_task i f s) j = links s j \<and> state_of (mod_task i f s) j = Blocked
      \<and> t_waiting_sem (tasks (mod_task i f s) ! j) = t_waiting_sem (tasks s ! j)
      \<and> t_waiting_mutex (tasks (mod_task i f s) ! j) = t_waiting_mutex (tasks s ! j)"
    using waiters_blocked [OF rep j] by (simp add: links_def)
next
  fix j
  assume j: "j < TASK_SLOT_COUNT" "j \<notin> X'" "j \<notin> waiters S M"
  show "t_waiting_sem (tasks (mod_task i f s) ! j) = 0 \<and> t_waiting_mutex (tasks (mod_task i f s) ! j) = 0"
  proof (cases "j = i")
    case True
    with w j i(1) show ?thesis by simp
  next
    case False
    then have "j \<notin> X" using X'(1) j(2) by blast
    with False j waiters_iff [OF rep, of j] show ?thesis by simp
  qed
next
  show "X' \<inter> waiters S M = {}" using waiters_iff [OF rep] X'(2) i(2) by blast
  have "prio_of (mod_task i f s) j = prio_of s j" if "j \<in> waiters S M" for j
    using that i(2) by (cases "j = i") auto
  then show "\<And>j. j \<in> members S \<Longrightarrow> prio_of (mod_task i f s) j = prio_of s j"
    "\<And>j. j \<in> members M \<Longrightarrow> j \<notin> Y \<Longrightarrow> j \<notin> Y \<and> prio_of (mod_task i f s) j = prio_of s j" by blast+
qed simp_all

text \<open>What leaving and joining the queue of one object change.\<close>

definition sem_touched :: "nat \<Rightarrow> nat set \<Rightarrow> sched \<Rightarrow> sched \<Rightarrow> bool" where
  "sem_touched a R s s' \<longleftrightarrow> (\<exists>s1 st st'. rewired R s s1 \<and> sem_mem s a = Some st \<and> sm_count st' = sm_count st
     \<and> s' = s1\<lparr>sem_mem := (sem_mem s)(a \<mapsto> st')\<rparr>)"

definition mutex_touched :: "nat \<Rightarrow> nat set \<Rightarrow> sched \<Rightarrow> sched \<Rightarrow> bool" where
  "mutex_touched a R s s' \<longleftrightarrow> (\<exists>s1 m m'. rewired R s s1 \<and> mutex_mem s a = Some m
     \<and> mx_owner m' = mx_owner m \<and> mx_depth m' = mx_depth m \<and> s' = s1\<lparr>mutex_mem := (mutex_mem s)(a \<mapsto> m')\<rparr>)"

lemma members_upd: "members (S(a := q)) = (\<Union>b \<in> - {a}. set (S b)) \<union> set q"
  by (auto simp: members_def split: if_splits)

lemma members_remove1:
  assumes "fam_rep X Y s E w S" "i \<in> set (S a)"
  shows "members (S(a := remove1 i (S a))) = members S - {i}"
proof -
  obtain e where "E a = Some e" using fam_member(2) [OF assms] by auto
  then have "distinct (S a)" using wait_rep_sel(3) fam_repD(3) [OF assms(1)] by blast
  moreover have "i \<notin> set (S b)" if "b \<noteq> a" for b using fam_disjoint [OF assms] that by blast
  ultimately show ?thesis by (auto simp: members_upd) (auto simp: members_def)
qed

lemma members_insert: "members (S(a := insert_prio f i (S a))) = insert i (members S)"
  by (auto simp: members_upd) (auto simp: members_def)

lemma sem_view_upd:
  "tasks s' = tasks s1 \<Longrightarrow> sem_mem s' = (sem_mem s)(a \<mapsto> st) \<Longrightarrow> sem_view s' = (sem_view s)(a \<mapsto> sem_ends st)"
  by (auto simp: sem_view_def fun_eq_iff)

lemma mutex_view_upd:
  "mutex_mem s' = (mutex_mem s)(a \<mapsto> m) \<Longrightarrow> mutex_view s' = (mutex_view s)(a \<mapsto> mutex_ends m)"
  by (auto simp: mutex_view_def fun_eq_iff)

lemma fam_X_insert: "fam_rep X Y s E w S \<Longrightarrow> i \<notin> members S \<Longrightarrow> fam_rep (insert i X) Y s E w S"
  unfolding fam_rep_def members_def by auto

lemma fam_X_remove: "fam_rep X Y s E w S \<Longrightarrow> w (tasks s ! i) = 0 \<Longrightarrow> fam_rep (X - {i}) Y s E w S"
  unfolding fam_rep_def by auto

lemma sem_leave:
  assumes rep: "waits_rep X Y s S M" and len: "length (tasks s) = TASK_SLOT_COUNT" and i: "i \<in> set (S a)"
  shows "\<exists>s'. on_sem a (\<lambda>st s. remove_waiter st i s) s = Some s' \<and> sem_touched a (set (S a)) s s'
    \<and> waits_rep (insert i X) Y s' (S(a := remove1 i (S a))) M"
proof -
  note r = waits_repD [OF rep]
  obtain e where "sem_view s a = Some e" using fam_member(2) [OF r(1) i] by auto
  then obtain st where st: "sem_mem s a = Some st" "sem_view s a = Some (sem_ends st)"
    by (auto simp: sem_view_def)
  from fam_remove [OF r(1) st(2) len i] obtain e s1 where
    1: "wait_unlink i (sem_ends st) s = Some (e, s1)" "rewired (set (S a)) s s1"
      "fam_rep (insert i X) ({} - {i}) s1 ((sem_view s)(a \<mapsto> e)) t_waiting_sem (S(a := remove1 i (S a)))" by auto
  let ?st = "sem_with_ends st e" and ?s = "s1\<lparr>sem_mem := (sem_mem s)(a \<mapsto> sem_with_ends st e)\<rparr>"
  note re = rewired_relinked [OF 1(2)]
  have run: "on_sem a (\<lambda>st s. remove_waiter st i s) s = Some ?s"
    using st 1(1) relinked_sel [OF re] by (simp add: on_sem_def remove_waiter_def)
  have end_e: "sem_ends ?st = e" "sm_count ?st = sm_count st" by (simp_all add: sem_ends_def sem_with_ends_def)
  have view: "sem_view ?s = (sem_view s)(a \<mapsto> e)" "mutex_view ?s = mutex_view s"
    using end_e(1) relinked_sel [OF re] by (auto simp: sem_view_def mutex_view_def fun_eq_iff)
  have im: "i \<in> members S" "i \<notin> members M" using i r(3) by (auto simp: members_def)
  have "fam_rep X Y s1 (mutex_view s) t_waiting_mutex M"
    by (rule fam_relinked [OF r(2) re len]) (use r(3) in \<open>auto simp: members_def\<close>)
  from fam_X_insert [OF this im(2)] have "fam_rep (insert i X) Y ?s (mutex_view ?s) t_waiting_mutex M"
    unfolding view using fam_rep_tasks [of ?s s1] by simp
  moreover have "fam_rep (insert i X) {} ?s (sem_view ?s) t_waiting_sem (S(a := remove1 i (S a)))"
    using 1(3) fam_rep_tasks [of ?s s1] unfolding view by simp
  ultimately have "waits_rep (insert i X) Y ?s (S(a := remove1 i (S a))) M"
    using r(3) members_remove1 [OF r(1) i] by (auto simp: waits_rep_def)
  moreover have "sem_touched a (set (S a)) s ?s"
    unfolding sem_touched_def using 1(2) st(1) end_e by blast
  ultimately show ?thesis using run by blast
qed

lemma sem_join:
  assumes rep: "waits_rep X Y s S M" and len: "length (tasks s) = TASK_SLOT_COUNT"
    and i: "i < TASK_SLOT_COUNT" "i \<in> X" "state_of s i = Blocked" "t_waiting_sem (tasks s ! i) = a" "t_waiting_mutex (tasks s ! i) = 0"
    and a: "sem_mem s a = Some st"
  shows "\<exists>s'. on_sem a (\<lambda>st s. enqueue_waiter st i s) s = Some s' \<and> sem_touched a (insert i (set (S a))) s s'
    \<and> waits_rep (X - {i}) Y s' (S(a := insert_prio (prio_of s) i (S a))) M"
proof -
  note r = waits_repD [OF rep]
  have st: "sem_view s a = Some (sem_ends st)" using a by (simp add: sem_view_def)
  from fam_insert [OF r(1) st len i(1-4)] obtain e s1 where
    1: "wait_insert i (sem_ends st) s = Some (e, s1)" "rewired (insert i (set (S a))) s s1"
      "fam_rep (X - {i}) {} s1 ((sem_view s)(a \<mapsto> e)) t_waiting_sem (S(a := insert_prio (prio_of s) i (S a)))" by auto
  let ?st = "sem_with_ends st e" and ?s = "s1\<lparr>sem_mem := (sem_mem s)(a \<mapsto> sem_with_ends st e)\<rparr>"
  note re = rewired_relinked [OF 1(2)]
  have run: "on_sem a (\<lambda>st s. enqueue_waiter st i s) s = Some ?s"
    using a 1(1) relinked_sel [OF re] by (simp add: on_sem_def enqueue_waiter_def)
  have end_e: "sem_ends ?st = e" "sm_count ?st = sm_count st" by (simp_all add: sem_ends_def sem_with_ends_def)
  have view: "sem_view ?s = (sem_view s)(a \<mapsto> e)" "mutex_view ?s = mutex_view s"
    using end_e(1) relinked_sel [OF re] by (auto simp: sem_view_def mutex_view_def fun_eq_iff)
  have im: "i \<notin> members S" "i \<notin> members M"
    using i(2) members_iff [OF r(1)] members_iff [OF r(2)] by blast+
  have "fam_rep X Y s1 (mutex_view s) t_waiting_mutex M"
    by (rule fam_relinked [OF r(2) re len]) (use r(3) im in \<open>auto simp: members_def\<close>)
  moreover have "t_waiting_mutex (tasks s1 ! i) = 0" using relinked_fields(7,8) [OF re, of i] i len by simp
  ultimately have "fam_rep (X - {i}) Y ?s (mutex_view ?s) t_waiting_mutex M"
    unfolding view using fam_X_remove fam_rep_tasks [of ?s s1] by simp
  moreover have "fam_rep (X - {i}) {} ?s (sem_view ?s) t_waiting_sem (S(a := insert_prio (prio_of s) i (S a)))"
    using 1(3) fam_rep_tasks [of ?s s1] unfolding view by simp
  ultimately have "waits_rep (X - {i}) Y ?s (S(a := insert_prio (prio_of s) i (S a))) M"
    using r(3) im members_insert [of S a "prio_of s" i] by (auto simp: waits_rep_def)
  moreover have "sem_touched a (insert i (set (S a))) s ?s"
    unfolding sem_touched_def using 1(2) a end_e by blast
  ultimately show ?thesis using run by blast
qed

lemma mutex_leave:
  assumes rep: "waits_rep X Y s S M" and len: "length (tasks s) = TASK_SLOT_COUNT" and i: "i \<in> set (M a)"
  shows "\<exists>s'. on_mutex a (\<lambda>st s. remove_mutex_waiter st i s) s = Some s' \<and> mutex_touched a (set (M a)) s s'
    \<and> waits_rep (insert i X) (Y - {i}) s' S (M(a := remove1 i (M a)))"
proof -
  note r = waits_repD [OF rep]
  obtain e where "mutex_view s a = Some e" using fam_member(2) [OF r(2) i] by auto
  then obtain m where st: "mutex_mem s a = Some m" "mutex_view s a = Some (mutex_ends m)"
    by (auto simp: mutex_view_def)
  from fam_remove [OF r(2) st(2) len i] obtain e s1 where
    1: "wait_unlink i (mutex_ends m) s = Some (e, s1)" "rewired (set (M a)) s s1"
      "fam_rep (insert i X) (Y - {i}) s1 ((mutex_view s)(a \<mapsto> e)) t_waiting_mutex (M(a := remove1 i (M a)))" by auto
  let ?st = "mutex_with_ends m e" and ?s = "s1\<lparr>mutex_mem := (mutex_mem s)(a \<mapsto> mutex_with_ends m e)\<rparr>"
  note re = rewired_relinked [OF 1(2)]
  have run: "on_mutex a (\<lambda>st s. remove_mutex_waiter st i s) s = Some ?s"
    using st 1(1) relinked_sel [OF re] by (simp add: on_mutex_def remove_mutex_waiter_def)
  have end_e: "mutex_ends ?st = e" "mx_owner ?st = mx_owner m" "mx_depth ?st = mx_depth m" by (simp_all add: mutex_ends_def mutex_with_ends_def)
  have view: "mutex_view ?s = (mutex_view s)(a \<mapsto> e)" "sem_view ?s = sem_view s"
    using end_e(1) relinked_sel [OF re] by (auto simp: sem_view_def mutex_view_def fun_eq_iff)
  have im: "i \<in> members M" "i \<notin> members S" using i r(3) by (auto simp: members_def)
  have "fam_rep X {} s1 (sem_view s) t_waiting_sem S"
    by (rule fam_relinked [OF r(1) re len]) (use r(3) in \<open>auto simp: members_def\<close>)
  from fam_X_insert [OF this im(2)] have "fam_rep (insert i X) {} ?s (sem_view ?s) t_waiting_sem S"
    unfolding view using fam_rep_tasks [of ?s s1] by simp
  moreover have "fam_rep (insert i X) (Y - {i}) ?s (mutex_view ?s) t_waiting_mutex (M(a := remove1 i (M a)))"
    using 1(3) fam_rep_tasks [of ?s s1] unfolding view by simp
  ultimately have "waits_rep (insert i X) (Y - {i}) ?s S (M(a := remove1 i (M a)))"
    using r(3) members_remove1 [OF r(2) i] by (auto simp: waits_rep_def)
  moreover have "mutex_touched a (set (M a)) s ?s"
    unfolding mutex_touched_def using 1(2) st(1) end_e by blast
  ultimately show ?thesis using run by blast
qed

lemma mutex_join:
  assumes rep: "waits_rep X {} s S M" and len: "length (tasks s) = TASK_SLOT_COUNT"
    and i: "i < TASK_SLOT_COUNT" "i \<in> X" "state_of s i = Blocked" "t_waiting_mutex (tasks s ! i) = a" "t_waiting_sem (tasks s ! i) = 0"
    and a: "mutex_mem s a = Some m"
  shows "\<exists>s'. on_mutex a (\<lambda>st s. enqueue_mutex_waiter st i s) s = Some s' \<and> mutex_touched a (insert i (set (M a))) s s'
    \<and> waits_rep (X - {i}) {} s' S (M(a := insert_prio (prio_of s) i (M a)))"
proof -
  note r = waits_repD [OF rep]
  have st: "mutex_view s a = Some (mutex_ends m)" using a by (simp add: mutex_view_def)
  from fam_insert [OF r(2) st len i(1-4)] obtain e s1 where
    1: "wait_insert i (mutex_ends m) s = Some (e, s1)" "rewired (insert i (set (M a))) s s1"
      "fam_rep (X - {i}) {} s1 ((mutex_view s)(a \<mapsto> e)) t_waiting_mutex (M(a := insert_prio (prio_of s) i (M a)))" by auto
  let ?st = "mutex_with_ends m e" and ?s = "s1\<lparr>mutex_mem := (mutex_mem s)(a \<mapsto> mutex_with_ends m e)\<rparr>"
  note re = rewired_relinked [OF 1(2)]
  have run: "on_mutex a (\<lambda>st s. enqueue_mutex_waiter st i s) s = Some ?s"
    using a 1(1) relinked_sel [OF re] by (simp add: on_mutex_def enqueue_mutex_waiter_def)
  have end_e: "mutex_ends ?st = e" "mx_owner ?st = mx_owner m" "mx_depth ?st = mx_depth m" by (simp_all add: mutex_ends_def mutex_with_ends_def)
  have view: "mutex_view ?s = (mutex_view s)(a \<mapsto> e)" "sem_view ?s = sem_view s"
    using end_e(1) relinked_sel [OF re] by (auto simp: sem_view_def mutex_view_def fun_eq_iff)
  have im: "i \<notin> members M" "i \<notin> members S"
    using i(2) members_iff [OF r(1)] members_iff [OF r(2)] by blast+
  have "fam_rep X {} s1 (sem_view s) t_waiting_sem S"
    by (rule fam_relinked [OF r(1) re len]) (use r(3) im in \<open>auto simp: members_def\<close>)
  moreover have "t_waiting_sem (tasks s1 ! i) = 0" using relinked_fields(7,8) [OF re, of i] i len by simp
  ultimately have "fam_rep (X - {i}) {} ?s (sem_view ?s) t_waiting_sem S"
    unfolding view using fam_X_remove fam_rep_tasks [of ?s s1] by simp
  moreover have "fam_rep (X - {i}) {} ?s (mutex_view ?s) t_waiting_mutex (M(a := insert_prio (prio_of s) i (M a)))"
    using 1(3) fam_rep_tasks [of ?s s1] unfolding view by simp
  ultimately have "waits_rep (X - {i}) {} ?s S (M(a := insert_prio (prio_of s) i (M a)))"
    using r(3) im members_insert [of M a "prio_of s" i] by (auto simp: waits_rep_def)
  moreover have "mutex_touched a (insert i (set (M a))) s ?s"
    unfolding mutex_touched_def using 1(2) a end_e by blast
  ultimately show ?thesis using run by blast
qed

end
