(* ===== verification/Sync_Invariant.thy ===== *)
theory Sync_Invariant
  imports Wait_Invariant
begin

text \<open>
  The invariant of the synchronisation objects with priority inheritance: the wait queues are well
  linked, every counter of donations is the number of tasks that donate that priority, every task
  runs at the better of its base priority and its donations, and nobody waits for itself through a
  chain of owners. Under the invariant the propagation of a priority along the chain of owners
  returns, and re-establishes it.
\<close>

subsection \<open>What a propagation leaves alone\<close>

text \<open>A propagation may change links, priorities and donations, the ends of queues and diagnostics.\<close>

definition erase_task :: "tcb \<Rightarrow> tcb" where
  "erase_task t = t\<lparr>t_next := 0, t_priority := 0, t_inherited_waiters := []\<rparr>"

definition erase :: "sched \<Rightarrow> sched" where
  "erase s = s\<lparr>tasks := map erase_task (tasks s), ready_head := [], ready_tail := [],
     sem_mem := (\<lambda>a. map_option (\<lambda>st. st\<lparr>sm_wait_head := 0, sm_wait_tail := 0\<rparr>) (sem_mem s a)),
     mutex_mem := (\<lambda>a. map_option (\<lambda>m. m\<lparr>mx_wait_head := 0, mx_wait_tail := 0\<rparr>) (mutex_mem s a)),
     diagnostics := diagnostics_EMPTY\<rparr>"

definition reprio :: "sched \<Rightarrow> sched \<Rightarrow> bool" where
  "reprio s s' \<longleftrightarrow> erase s' = erase s"

lemma reprio_refl [simp]: "reprio s s"
  by (simp add: reprio_def)

lemma reprio_trans: "reprio s s1 \<Longrightarrow> reprio s1 s2 \<Longrightarrow> reprio s s2"
  by (simp add: reprio_def)

lemma reprio_diag [simp]: "reprio s (diag f s') = reprio s s'"
  by (simp add: reprio_def erase_def diag_def)

lemma reprio_mod_task:
  assumes "\<And>t. erase_task (f t) = erase_task t"
  shows "reprio s (mod_task i f s') = reprio s s'"
proof -
  have "map erase_task ((tasks s')[i := f (tasks s' ! i)]) = map erase_task (tasks s')"
    using assms by (cases "i < length (tasks s')") (simp_all add: map_update list_update_same_conv list_update_beyond)
  then show ?thesis by (simp add: reprio_def erase_def mod_task_def)
qed

lemma relinked_reprio:
  assumes "relinked R s s'"
  shows "reprio s s'"
proof -
  have "map erase_task (tasks s') = map erase_task (tasks s)"
  proof (rule nth_equalityI)
    fix j
    assume "j < length (map erase_task (tasks s'))"
    then have j: "j < length (tasks s)" "j < length (tasks s')" using relinked_sel(1) [OF assms] by simp_all
    from relinked_task(1) [OF assms j(1)] j
    show "map erase_task (tasks s') ! j = map erase_task (tasks s) ! j" by (auto simp: erase_task_def)
  qed (use relinked_sel(1) [OF assms] in simp)
  moreover from assms obtain ts hs tls where "s' = s\<lparr>tasks := ts, ready_head := hs, ready_tail := tls\<rparr>"
    by (auto simp: relinked_def)
  ultimately show ?thesis by (simp add: reprio_def erase_def)
qed

lemma sem_touched_reprio:
  assumes "sem_touched a R s s'"
  shows "reprio s s'"
proof -
  from assms obtain s1 st st' where t: "rewired R s s1" "sem_mem s a = Some st" "sm_count st' = sm_count st"
    "s' = s1\<lparr>sem_mem := (sem_mem s)(a \<mapsto> st')\<rparr>" by (auto simp: sem_touched_def)
  have "sem_mem s1 = sem_mem s" using relinked_sel [OF rewired_relinked [OF t(1)]] by simp
  with t have "reprio s1 s'" by (auto simp: reprio_def erase_def fun_eq_iff)
  with relinked_reprio [OF rewired_relinked [OF t(1)]] show ?thesis by (rule reprio_trans)
qed

lemma mutex_touched_reprio:
  assumes "mutex_touched a R s s'"
  shows "reprio s s'"
proof -
  from assms obtain s1 m m' where t: "rewired R s s1" "mutex_mem s a = Some m" "mx_owner m' = mx_owner m"
    "mx_depth m' = mx_depth m" "s' = s1\<lparr>mutex_mem := (mutex_mem s)(a \<mapsto> m')\<rparr>" by (auto simp: mutex_touched_def)
  have "mutex_mem s1 = mutex_mem s" using relinked_sel [OF rewired_relinked [OF t(1)]] by simp
  with t have "reprio s1 s'" by (auto simp: reprio_def erase_def fun_eq_iff)
  with relinked_reprio [OF rewired_relinked [OF t(1)]] show ?thesis by (rule reprio_trans)
qed

lemma reprio_sel:
  assumes "reprio s s'"
  shows "length (tasks s') = length (tasks s)" "current s' = current s"
    "retired_stacks s' = retired_stacks s" "retired_count s' = retired_count s"
    "slot_generations s' = slot_generations s" "reservations s' = reservations s"
    "time_slice_pending s' = time_slice_pending s" "time_slice_deadline s' = time_slice_deadline s"
    "pending_switch s' = pending_switch s" "next_switch_sequence s' = next_switch_sequence s"
    "last_consumed_switch_sequence s' = last_consumed_switch_sequence s" "started s' = started s"
proof -
  have e: "erase s' = erase s" using assms by (simp add: reprio_def)
  show "length (tasks s') = length (tasks s)" using arg_cong [OF e, of "\<lambda>s. length (tasks s)"] by (simp add: erase_def)
  show "current s' = current s" using arg_cong [OF e, of current] by (simp add: erase_def)
  show "retired_stacks s' = retired_stacks s" using arg_cong [OF e, of retired_stacks] by (simp add: erase_def)
  show "retired_count s' = retired_count s" using arg_cong [OF e, of retired_count] by (simp add: erase_def)
  show "slot_generations s' = slot_generations s" using arg_cong [OF e, of slot_generations] by (simp add: erase_def)
  show "reservations s' = reservations s" using arg_cong [OF e, of reservations] by (simp add: erase_def)
  show "time_slice_pending s' = time_slice_pending s" using arg_cong [OF e, of time_slice_pending] by (simp add: erase_def)
  show "time_slice_deadline s' = time_slice_deadline s" using arg_cong [OF e, of time_slice_deadline] by (simp add: erase_def)
  show "pending_switch s' = pending_switch s" using arg_cong [OF e, of pending_switch] by (simp add: erase_def)
  show "next_switch_sequence s' = next_switch_sequence s" using arg_cong [OF e, of next_switch_sequence] by (simp add: erase_def)
  show "last_consumed_switch_sequence s' = last_consumed_switch_sequence s"
    using arg_cong [OF e, of last_consumed_switch_sequence] by (simp add: erase_def)
  show "started s' = started s" using arg_cong [OF e, of started] by (simp add: erase_def)
qed

lemma reprio_task:
  assumes "reprio s s'" "i < length (tasks s)"
  shows "\<exists>n p c. tasks s' ! i = (tasks s ! i)\<lparr>t_next := n, t_priority := p, t_inherited_waiters := c\<rparr>"
proof -
  have "map erase_task (tasks s') = map erase_task (tasks s)"
    using arg_cong [OF assms(1) [unfolded reprio_def], of tasks] by (simp add: erase_def)
  from arg_cong [OF this, of "\<lambda>xs. xs ! i"] have e: "erase_task (tasks s' ! i) = erase_task (tasks s ! i)"
    using assms(2) reprio_sel(1) [OF assms(1)] by simp
  let ?t = "tasks s' ! i"
  have "tasks s' ! i = (erase_task (tasks s' ! i))\<lparr>t_next := t_next ?t, t_priority := t_priority ?t,
      t_inherited_waiters := t_inherited_waiters ?t\<rparr>" by (simp add: erase_task_def)
  then show ?thesis unfolding e by (auto simp: erase_task_def)
qed

lemma reprio_fields:
  assumes "reprio s s'" "i < length (tasks s)"
  shows "t_state (tasks s' ! i) = t_state (tasks s ! i)"
    "t_waiting_sem (tasks s' ! i) = t_waiting_sem (tasks s ! i)"
    "t_waiting_mutex (tasks s' ! i) = t_waiting_mutex (tasks s ! i)"
    "t_base_priority (tasks s' ! i) = t_base_priority (tasks s ! i)"
    "t_wake_at (tasks s' ! i) = t_wake_at (tasks s ! i)"
    "t_sem_granted (tasks s' ! i) = t_sem_granted (tasks s ! i)"
    "t_granted_sem (tasks s' ! i) = t_granted_sem (tasks s ! i)"
    "t_granted_mutex (tasks s' ! i) = t_granted_mutex (tasks s ! i)"
    "t_budget (tasks s' ! i) = t_budget (tasks s ! i)"
    "t_saved_frame (tasks s' ! i) = t_saved_frame (tasks s ! i)"
    "t_resume_generation (tasks s' ! i) = t_resume_generation (tasks s ! i)"
    "t_identity_generation (tasks s' ! i) = t_identity_generation (tasks s ! i)"
    "t_scheduler_lock_depth (tasks s' ! i) = t_scheduler_lock_depth (tasks s ! i)"
    "t_run_policy (tasks s' ! i) = t_run_policy (tasks s ! i)"
  using reprio_task [OF assms] by auto

lemma reprio_mem:
  assumes "reprio s s'"
  shows "map_option sm_count (sem_mem s' a) = map_option sm_count (sem_mem s a)"
    "map_option (\<lambda>m. (mx_owner m, mx_depth m)) (mutex_mem s' a) = map_option (\<lambda>m. (mx_owner m, mx_depth m)) (mutex_mem s a)"
proof -
  have e: "erase s' = erase s" using assms by (simp add: reprio_def)
  have sm: "map_option (\<lambda>st. st\<lparr>sm_wait_head := 0, sm_wait_tail := 0\<rparr>) (sem_mem s' a)
      = map_option (\<lambda>st. st\<lparr>sm_wait_head := 0, sm_wait_tail := 0\<rparr>) (sem_mem s a)"
    using arg_cong [OF e, of "\<lambda>s. sem_mem s a"] by (simp add: erase_def)
  from arg_cong [OF this, of "map_option sm_count"]
  show "map_option sm_count (sem_mem s' a) = map_option sm_count (sem_mem s a)" by (simp add: option.map_comp comp_def)
  have "map_option (\<lambda>m. m\<lparr>mx_wait_head := 0, mx_wait_tail := 0\<rparr>) (mutex_mem s' a)
      = map_option (\<lambda>m. m\<lparr>mx_wait_head := 0, mx_wait_tail := 0\<rparr>) (mutex_mem s a)"
    using arg_cong [OF e, of "\<lambda>s. mutex_mem s a"] by (simp add: erase_def)
  from arg_cong [OF this, of "map_option (\<lambda>m. (mx_owner m, mx_depth m))"]
  show "map_option (\<lambda>m. (mx_owner m, mx_depth m)) (mutex_mem s' a) = map_option (\<lambda>m. (mx_owner m, mx_depth m)) (mutex_mem s a)"
    by (simp add: option.map_comp comp_def)
qed

lemma reprio_pending: "reprio s s' \<Longrightarrow> pending_target s' = pending_target s"
  by (simp add: pending_target_def reprio_sel)

subsection \<open>Changing one priority\<close>

lemma owned_rewired:
  assumes own: "owned_but X s Q" and re: "rewired R s s'" and dis: "queued Q \<inter> R = {}"
  shows "owned_but X s' Q"
proof (rule owned_but_queue [OF own rewired_relinked [OF re], of Q "{}" X])
  show "ready_rep s' Q" using rewired_ready_rep [OF re _ dis] owned_butD(2,8) [OF own] by blast
  show "i \<in> queued Q" if "i \<in> queued Q \<union> X" "i \<notin> X" for i using that by blast
qed auto

lemma owned_mem [simp]:
  "owned_but X (s\<lparr>sem_mem := m\<rparr>) Q = owned_but X s Q" "owned_but X (s\<lparr>mutex_mem := m'\<rparr>) Q = owned_but X s Q"
  "owned_but X (diag f s) Q = owned_but X s Q"
proof -
  have v: "same_view s (s\<lparr>sem_mem := m\<rparr>)" "same_view (s\<lparr>sem_mem := m\<rparr>) s" "same_view s (s\<lparr>mutex_mem := m'\<rparr>)"
    "same_view (s\<lparr>mutex_mem := m'\<rparr>) s" "same_view s (diag f s)" "same_view (diag f s) s"
    by (simp_all add: same_view_def)
  show "owned_but X (s\<lparr>sem_mem := m\<rparr>) Q = owned_but X s Q"
    using owned_but_view [OF _ v(1)] owned_but_view [OF _ v(2)] by blast
  show "owned_but X (s\<lparr>mutex_mem := m'\<rparr>) Q = owned_but X s Q"
    using owned_but_view [OF _ v(3)] owned_but_view [OF _ v(4)] by blast
  show "owned_but X (diag f s) Q = owned_but X s Q"
    using owned_but_view [OF _ v(5)] owned_but_view [OF _ v(6)] by blast
qed

lemma owned_touched:
  assumes "owned_but X s Q" "queued Q \<inter> R = {}"
  shows "sem_touched a R s s' \<Longrightarrow> owned_but X s' Q" "mutex_touched a R s s' \<Longrightarrow> owned_but X s' Q"
  using owned_rewired [OF assms(1) _ assms(2)] by (auto simp: sem_touched_def mutex_touched_def)

lemma owned_set_priority:
  assumes own: "owned_but X s Q" and i: "i < TASK_SLOT_COUNT" "i \<notin> queued Q" and p: "p < PRIORITY_LEVELS"
  shows "owned_but X (mod_task i (\<lambda>t. t\<lparr>t_priority := p\<rparr>) s) Q"
proof -
  note d = owned_butD [OF own]
  let ?s = "mod_task i (\<lambda>t. t\<lparr>t_priority := p\<rparr>) s"
  have st: "state_of ?s j = state_of s j" "t_identity_generation (tasks ?s ! j) = t_identity_generation (tasks s ! j)" for j
    using i(1) d(8) by (simp_all add: mod_task_at)
  have "shape_ok ?s" using shape_ok_mod_task [OF d(1) i(1)] p by simp
  moreover have "ready_rep ?s Q" using i d(8) by (intro ready_rep_mod_task [OF d(2)]) auto
  ultimately show ?thesis
  proof (rule owned_butI)
    show "pending_ok ?s Q q" if "pending_switch ?s = Some q" for q
      using d(6) [of q] that by (simp add: pending_ok_def task_ref_is_current_iff st)
  qed (use d(3-5,7) in \<open>auto simp: st pending_target_def\<close>)
qed

lemma queued_not_waiting:
  assumes "owned_but X s Q" "waits_rep Z Y s S M"
  shows "queued Q \<inter> waiters S M = {}"
  using owned_butD(3) [OF assms(1)] waiters_blocked [OF assms(2)] by fastforce

lemma bucket_subset: "p < PRIORITY_LEVELS \<Longrightarrow> set (Q p) \<subseteq> queued Q"
  by (auto simp: queued_iff)

definition prio_set :: "nat \<Rightarrow> nat \<Rightarrow> sched \<Rightarrow> sched \<Rightarrow> bool" where
  "prio_set i p s s' \<longleftrightarrow> reprio s s' \<and> (\<forall>j < length (tasks s). prio_of s' j = (if j = i then p else prio_of s j)
     \<and> t_inherited_waiters (tasks s' ! j) = t_inherited_waiters (tasks s ! j))"

lemma set_effective_prio_set:
  "set_effective_priority i p s = Some s' \<Longrightarrow> reprio s s' \<Longrightarrow> prio_set i p s s'"
  using set_effective_priority_effect [of i p s s'] by (auto simp: prio_set_def prio_frame_def)

abbreviation with_priority :: "nat \<Rightarrow> nat \<Rightarrow> sched \<Rightarrow> sched" where
  "with_priority p i s \<equiv> mod_task i (\<lambda>t. t\<lparr>t_priority := p\<rparr>) s"

lemma reprio_with_priority [simp]: "reprio s (with_priority p i s') = reprio s s'"
  by (rule reprio_mod_task) (simp add: erase_task_def)

text \<open>The three situations of the task: in the ready queue, on a semaphore, anywhere else.\<close>

lemma set_effective_ready:
  assumes own: "owned_but {} s Q" and rep: "waits_rep X {} s S M" and i: "i \<in> queued Q" and x: "i \<notin> X"
    and p: "p < PRIORITY_LEVELS" "prio_of s i \<noteq> p"
  shows "\<exists>s' Q'. set_effective_priority i p s = Some s' \<and> owned_but {} s' Q' \<and> waits_rep X {} s' S M \<and> reprio s s'"
proof -
  note d = owned_butD [OF own]
  have il: "i < TASK_SLOT_COUNT" using queued_slot [OF d(2) i] .
  have st: "state_of s i = Ready" "i \<noteq> IDLE_SLOT" using d(3,4) i by auto
  have dis: "queued Q \<inter> waiters S M = {}" using queued_not_waiting [OF own rep] .
  have ws: "t_waiting_sem (tasks s ! i) = 0" "t_waiting_mutex (tasks s ! i) = 0" "i \<notin> waiters S M"
    using waiters_iff [OF rep, of i] dis i il x by auto
  have pt: "pending_target s \<noteq> Some i" using d(6) i by (auto simp: pending_target_def pending_ok_def)
  let ?p = "prio_of s i"
  let ?Q = "Q(?p := remove1 i (Q ?p))"
  note rem = owned_remove [OF own i refl]
  note pl = rem(3) and q1 = rem(2)
  from rem(1) obtain s1 where 1: "ready_remove i s = Some s1" "owned_but {i} s1 ?Q" "relinked (set (Q ?p)) s s1" by auto
  note own1 = 1(2)
  have w1: "waits_rep X {} s1 S M"
    using waits_relinked [OF rep 1(3) d(8)] bucket_subset [OF pl, of Q] dis by blast
  note f1 = relinked_fields [OF 1(3), of i] and l1 = relinked_sel(1) [OF 1(3)]
  let ?s2 = "with_priority p i s1"
  have own2: "owned_but {i} ?s2 ?Q" using owned_set_priority [OF own1 il _ p(1)] q1 by simp
  have w2: "waits_rep X {} ?s2 S M"
    by (rule waits_mod_task [OF w1]) (use x il d(8) l1 ws f1 in auto)
  have p2: "pending_target ?s2 \<noteq> Some i" using pt relinked_sel(11) [OF 1(3)] by (simp add: pending_target_def)
  have at2: "tasks ?s2 ! i = (tasks s1 ! i)\<lparr>t_priority := p\<rparr>" using il d(8) l1 by simp
  have st2: "state_of ?s2 i = Ready" using at2 f1(4) st il d(8) by simp
  from owned_push [OF own2 il st2 st(2) _ p2] q1 obtain s3 where
    3: "ready_push i ?s2 = Some s3" "owned_but {} s3 (?Q(p := ?Q p @ [i]))"
      "relinked (insert i (set (?Q p))) ?s2 s3" by (auto simp: at2)
  have sub: "set (?Q p) \<subseteq> queued Q" using bucket_subset [OF p(1), of ?Q] q1 by blast
  have w3: "waits_rep X {} s3 S M"
    by (rule waits_relinked [OF w2 3(3)]) (use d(8) l1 sub dis i in auto)
  have "set_effective_priority i p s = Some s3"
    using il d(8) st ws p(2) owned_contains [OF own, of i] i 1(1) 3(1) l1 by (simp add: set_effective_priority_def Let_def)
  moreover have "reprio s ?s2" using relinked_reprio [OF 1(3)] by simp
  from reprio_trans [OF this relinked_reprio [OF 3(3)]] have "reprio s s3" .
  ultimately show ?thesis using 3(2) w3 by blast
qed

lemma waiting_not_queued:
  assumes "owned_but Z s Q" "waits_rep X Y s S M" "i < TASK_SLOT_COUNT" "i \<notin> X"
    "t_waiting_sem (tasks s ! i) \<noteq> 0 \<or> t_waiting_mutex (tasks s ! i) \<noteq> 0"
  shows "i \<in> waiters S M" "i \<notin> queued Q" "state_of s i = Blocked"
proof -
  show w: "i \<in> waiters S M" using waiters_iff [OF assms(2)] assms(3-5) by blast
  then show "i \<notin> queued Q" "state_of s i = Blocked"
    using queued_not_waiting [OF assms(1,2)] waiters_blocked [OF assms(2)] by blast+
qed

lemma sem_touchedD:
  assumes "sem_touched a R s s'" "i < length (tasks s)"
  shows "length (tasks s') = length (tasks s)" "\<exists>n. tasks s' ! i = (tasks s ! i)\<lparr>t_next := n\<rparr>"
    "\<exists>st. sem_mem s a = Some st \<and> (\<exists>st'. sem_mem s' = (sem_mem s)(a \<mapsto> st') \<and> sm_count st' = sm_count st)"
    "mutex_mem s' = mutex_mem s"
proof -
  from assms(1) obtain s1 st st' where t: "rewired R s s1" "sem_mem s a = Some st" "sm_count st' = sm_count st"
    "s' = s1\<lparr>sem_mem := (sem_mem s)(a \<mapsto> st')\<rparr>" by (auto simp: sem_touched_def)
  note re = rewired_relinked [OF t(1)]
  show "length (tasks s') = length (tasks s)" "\<exists>n. tasks s' ! i = (tasks s ! i)\<lparr>t_next := n\<rparr>" "mutex_mem s' = mutex_mem s"
    using t(4) relinked_sel [OF re] relinked_task(1) [OF re assms(2)] by simp_all
  show "\<exists>st. sem_mem s a = Some st \<and> (\<exists>st'. sem_mem s' = (sem_mem s)(a \<mapsto> st') \<and> sm_count st' = sm_count st)"
    using t by auto
qed

lemma set_effective_sem:
  assumes own: "owned_but {} s Q" and rep: "waits_rep X {} s S M" and i: "i < TASK_SLOT_COUNT" and x: "i \<notin> X"
    and a: "t_waiting_sem (tasks s ! i) = a" "a \<noteq> 0" and p: "p < PRIORITY_LEVELS" "prio_of s i \<noteq> p"
  shows "\<exists>s' S'. set_effective_priority i p s = Some s' \<and> owned_but {} s' Q \<and> waits_rep X {} s' S' M \<and> reprio s s'"
proof -
  note d = owned_butD [OF own] and r = waits_repD [OF rep]
  have dis: "queued Q \<inter> waiters S M = {}" using queued_not_waiting [OF own rep] .
  have st: "state_of s i = Blocked" "i \<notin> queued Q" using waiting_not_queued [OF own rep i x] a by auto
  have ia: "i \<in> set (S a)" using fam_waiting(1) [OF r(1) i x a] .
  have im: "i \<notin> members M" using r(3) ia by (auto simp: members_def)
  then have wm: "t_waiting_mutex (tasks s ! i) = 0" using members_iff [OF r(2)] i x by blast
  have sub: "insert i (set (S a)) \<subseteq> waiters S M" using ia by (auto simp: members_def)
  from sem_leave [OF rep d(8) ia] obtain s1 where
    1: "on_sem a (\<lambda>st s. remove_waiter st i s) s = Some s1" "sem_touched a (set (S a)) s s1"
      "waits_rep (insert i X) {} s1 (S(a := remove1 i (S a))) M" by auto
  let ?S = "S(a := remove1 i (S a))"
  note t1 = sem_touchedD [OF 1(2)]
  have own1: "owned_but {} s1 Q" by (rule owned_touched(1) [OF own _ 1(2)]) (use sub dis in blast)
  have l1: "length (tasks s1) = TASK_SLOT_COUNT" using owned_butD(8) [OF own1] .
  have f1: "state_of s1 i = Blocked" "t_waiting_sem (tasks s1 ! i) = a" "t_waiting_mutex (tasks s1 ! i) = 0"
    using t1(2) [of i] i d(8) st a wm by auto
  let ?s2 = "with_priority p i s1"
  have i2: "i \<notin> waiters ?S M" using waiters_iff [OF 1(3)] by blast
  have w2: "waits_rep (insert i X) {} ?s2 ?S M" by (rule waits_mod_task [OF 1(3)]) (use i l1 i2 in auto)
  have own2: "owned_but {} ?s2 Q" using owned_set_priority [OF own1 i st(2) p(1)] .
  have f2: "state_of ?s2 i = Blocked" "t_waiting_sem (tasks ?s2 ! i) = a" "t_waiting_mutex (tasks ?s2 ! i) = 0"
    using f1 i l1 by simp_all
  obtain st where st2: "sem_mem ?s2 a = Some st" using t1(3) [of i] i d(8) by auto
  have X: "insert i X - {i} = X" using x by auto
  from sem_join [OF w2 _ i _ f2 st2] l1 X obtain s3 where
    3: "on_sem a (\<lambda>st s. enqueue_waiter st i s) ?s2 = Some s3" "sem_touched a (insert i (set (?S a))) ?s2 s3"
      "waits_rep X {} s3 (?S(a := insert_prio (prio_of ?s2) i (?S a))) M" by auto
  have "insert i (set (?S a)) \<subseteq> waiters S M" using sub set_remove1_subset [of i "S a"] by auto
  then have own3: "owned_but {} s3 Q" by (intro owned_touched(1) [OF own2 _ 3(2)]) (use dis in blast)
  have "set_effective_priority i p s = Some s3"
    using i d(8) st a p(2) 1(1) 3(1) l1 by (simp add: set_effective_priority_def Let_def)
  moreover have "reprio s ?s2" using sem_touched_reprio [OF 1(2)] by simp
  from reprio_trans [OF this sem_touched_reprio [OF 3(2)]] have "reprio s s3" .
  ultimately show ?thesis using own3 3(3) by blast
qed

lemma set_effective_other:
  assumes own: "owned_but {} s Q" and rep: "waits_rep X {} s S M" and i: "i < TASK_SLOT_COUNT" "i \<notin> queued Q" and x: "i \<notin> X"
    and a: "t_waiting_sem (tasks s ! i) = 0" and p: "p < PRIORITY_LEVELS" "prio_of s i \<noteq> p"
  shows "\<exists>s'. set_effective_priority i p s = Some s' \<and> owned_but {} s' Q \<and> waits_rep X {i} s' S M \<and> reprio s s'"
proof -
  note d = owned_butD [OF own] and r = waits_repD [OF rep]
  have im: "i \<notin> members S" using members_iff [OF r(1)] a by blast
  have w: "waits_rep X {i} (with_priority p i (diag f s)) S M" for f
  proof (rule waits_frame [OF rep])
    fix j
    assume "j < TASK_SLOT_COUNT" "j \<notin> X" "j \<notin> waiters S M"
    then have "t_waiting_sem (tasks s ! j) = 0" "t_waiting_mutex (tasks s ! j) = 0" using waiters_iff [OF rep, of j] by auto
    then show "t_waiting_sem (tasks (with_priority p i (diag f s)) ! j) = 0
        \<and> t_waiting_mutex (tasks (with_priority p i (diag f s)) ! j) = 0" using i d(8) by (auto simp: mod_task_at)
  qed (use im i d(8) waiters_blocked [OF rep] waiters_iff [OF rep] in \<open>auto simp: mod_task_at links_def\<close>)
  have "\<exists>f. set_effective_priority i p s = Some (with_priority p i (diag f s))"
  proof -
    have id: "diag (\<lambda>d. d) s = s" by (simp add: diag_def)
    show ?thesis
      using i a p(2) d(8) owned_contains [OF own, of i] exI [of "\<lambda>f. with_priority p i s = with_priority p i (diag f s)" "\<lambda>d. d"] id
      by (auto simp: set_effective_priority_def Let_def)
  qed
  then obtain f where "set_effective_priority i p s = Some (with_priority p i (diag f s))" by blast
  moreover have "owned_but {} (with_priority p i (diag f s)) Q"
    using owned_set_priority [of "{}" "diag f s" Q i p] own i p(1) by simp
  ultimately show ?thesis using w by auto
qed

lemma set_effective_spec:
  assumes own: "owned_but {} s Q" and rep: "waits_rep X {} s S M" and i: "i < TASK_SLOT_COUNT" and x: "i \<notin> X"
    and p: "p < PRIORITY_LEVELS" "prio_of s i \<noteq> p"
  shows "\<exists>s' Q' S'. set_effective_priority i p s = Some s' \<and> owned_but {} s' Q' \<and> waits_rep X {i} s' S' M
    \<and> prio_set i p s s'"
proof -
  note mono = waits_Y_mono [of X "{}" _ _ M "{i}"]
  consider "i \<in> queued Q" | "i \<notin> queued Q" "t_waiting_sem (tasks s ! i) \<noteq> 0"
    | "i \<notin> queued Q" "t_waiting_sem (tasks s ! i) = 0" by blast
  then have "\<exists>s' Q' S'. set_effective_priority i p s = Some s' \<and> owned_but {} s' Q' \<and> waits_rep X {i} s' S' M \<and> reprio s s'"
  proof cases
    case 1
    with set_effective_ready [OF own rep 1 x p] mono show ?thesis by blast
  next
    case 2
    with set_effective_sem [OF own rep i x refl 2(2) p] mono show ?thesis by blast
  next
    case 3
    with set_effective_other [OF own rep i 3(1) x 3(2) p] show ?thesis by blast
  qed
  then show ?thesis using set_effective_prio_set by blast
qed

lemma waits_Y_drop:
  assumes "waits_rep X {i} s S M" "i \<notin> members M"
  shows "waits_rep X {} s S M"
proof -
  note r = waits_repD [OF assms(1)]
  have "fam_rep X {} s (mutex_view s) t_waiting_mutex M"
  proof (rule fam_frame [OF r(2)])
    show "t_waiting_mutex (tasks s ! j) = 0" if "j < TASK_SLOT_COUNT" "j \<notin> X" "j \<notin> members M" for j
      using members_iff [OF r(2)] that by blast
  qed (use members_blocked [OF r(2)] members_iff [OF r(2)] assms(2) in \<open>blast+\<close>)
  with r show ?thesis by (simp add: waits_rep_def)
qed

text \<open>Taking a waiter out of the queue of its mutex and putting it back where its priority belongs.\<close>

lemma mutex_requeue:
  assumes rep: "waits_rep X {i} s S M" and len: "length (tasks s) = TASK_SLOT_COUNT"
    and x: "i \<notin> X" and i: "i < TASK_SLOT_COUNT" "t_waiting_mutex (tasks s ! i) = a" "a \<noteq> 0"
  shows "\<exists>s' M'. on_mutex a (\<lambda>st s. do { (st, s) \<leftarrow> remove_mutex_waiter st i s; enqueue_mutex_waiter st i s }) s = Some s'
    \<and> waits_rep X {} s' S M' \<and> members M' = members M \<and> mutex_touched a (insert i (set (M a))) s s'"
proof -
  note r = waits_repD [OF rep]
  have im: "i \<in> set (M a)" using fam_waiting(1) [OF r(2) i(1) x i(2,3)] .
  obtain e where "mutex_view s a = Some e" using fam_member(2) [OF r(2) im] by auto
  then obtain m where m: "mutex_mem s a = Some m" "mutex_view s a = Some (mutex_ends m)" by (auto simp: mutex_view_def)
  from fam_remove [OF r(2) m(2) len im] obtain e1 s1 where
    1: "wait_unlink i (mutex_ends m) s = Some (e1, s1)" "rewired (set (M a)) s s1"
      "fam_rep (insert i X) {} s1 ((mutex_view s)(a \<mapsto> e1)) t_waiting_mutex (M(a := remove1 i (M a)))" by auto
  let ?M = "M(a := remove1 i (M a))"
  note re1 = rewired_relinked [OF 1(2)]
  have l1: "length (tasks s1) = TASK_SLOT_COUNT" using relinked_sel(1) [OF re1] len by simp
  have f1: "state_of s1 i = Blocked" "t_waiting_mutex (tasks s1 ! i) = a"
    using relinked_fields(4,8) [OF re1, of i] fam_repD(6) [OF r(2) im] i len by simp_all
  have e1: "((mutex_view s)(a \<mapsto> e1)) a = Some e1" by simp
  have X: "insert i X - {i} = X" using x by auto
  from fam_insert [where E = "(mutex_view s)(a \<mapsto> e1)", OF 1(3) e1 l1 i(1) _ f1] X obtain e2 s2 where
    2: "wait_insert i e1 s1 = Some (e2, s2)" "rewired (insert i (set (?M a))) s1 s2"
      "fam_rep X {} s2 ((mutex_view s)(a \<mapsto> e2)) t_waiting_mutex (?M(a := insert_prio (prio_of s1) i (?M a)))" by auto
  let ?M2 = "?M(a := insert_prio (prio_of s1) i (?M a))"
  let ?m = "mutex_with_ends (mutex_with_ends m e1) e2" and ?s = "s2\<lparr>mutex_mem := (mutex_mem s)(a \<mapsto> mutex_with_ends (mutex_with_ends m e1) e2)\<rparr>"
  have re: "rewired (insert i (set (M a))) s s2"
    by (rule rewired_mono [OF rewired_trans [OF 1(2) 2(2)]]) (use set_remove1_subset [of i "M a"] in auto)
  note rl = rewired_relinked [OF re]
  have "on_mutex a (\<lambda>st s. do { (st, s) \<leftarrow> remove_mutex_waiter st i s; enqueue_mutex_waiter st i s }) s = Some ?s"
    using m 1(1) 2(1) relinked_sel [OF rl]
    by (simp add: on_mutex_def remove_mutex_waiter_def enqueue_mutex_waiter_def mutex_ends_def mutex_with_ends_def)
  moreover have mm: "members ?M2 = members M"
    using members_insert [of ?M a "prio_of s1" i] members_remove1 [OF r(2) im] im by (auto simp: members_def)
  moreover have "waits_rep X {} ?s S ?M2"
  proof -
    have v: "mutex_view ?s = (mutex_view s)(a \<mapsto> e2)" "sem_view ?s = sem_view s"
      using relinked_sel [OF rl] by (auto simp: mutex_view_def sem_view_def mutex_ends_def mutex_with_ends_def fun_eq_iff)
    have "fam_rep X {} s2 (sem_view s) t_waiting_sem S"
      by (rule fam_relinked [OF r(1) rl len]) (use r(3) im in \<open>auto simp: members_def\<close>)
    then show ?thesis using 2(3) fam_rep_tasks [of ?s s2] r(3) mm unfolding waits_rep_def v by simp
  qed
  moreover have "mutex_touched a (insert i (set (M a))) s ?s"
    unfolding mutex_touched_def using re m(1) by (intro exI [of _ s2] exI [of _ m] exI [of _ ?m]) (simp add: mutex_with_ends_def)
  ultimately show ?thesis by blast
qed

subsection \<open>Who waits for whom\<close>

definition waits_for :: "sched \<Rightarrow> nat \<Rightarrow> nat option" where
  "waits_for s i = (if t_waiting_mutex (tasks s ! i) = 0 then None
     else case mutex_mem s (t_waiting_mutex (tasks s ! i)) of
       None \<Rightarrow> None
     | Some m \<Rightarrow> if mx_owner m = NIL then None else Some (mx_owner m))"

definition wait_edges :: "sched \<Rightarrow> (nat \<times> nat) set" where
  "wait_edges s = {(i, j). i < TASK_SLOT_COUNT \<and> waits_for s i = Some j}"

definition donors :: "sched \<Rightarrow> nat \<Rightarrow> nat \<Rightarrow> nat set" where
  "donors s owner p = {i. i < TASK_SLOT_COUNT \<and> waits_for s i = Some owner \<and> prio_of s i = p}"

text \<open>The counters are exact but for the tasks of \<open>Z\<close>, which are not counted.\<close>

definition donations_but :: "nat set \<Rightarrow> sched \<Rightarrow> bool" where
  "donations_but Z s \<longleftrightarrow> (\<forall>i < TASK_SLOT_COUNT. length (t_inherited_waiters (tasks s ! i)) = PRIORITY_LEVELS
     \<and> (\<forall>p < PRIORITY_LEVELS. t_inherited_waiters (tasks s ! i) ! p = card (donors s i p - Z)))"

definition owners_ok :: "sched \<Rightarrow> bool" where
  "owners_ok s \<longleftrightarrow> (\<forall>a m. mutex_mem s a = Some m \<longrightarrow> mx_owner m = NIL \<or> mx_owner m < TASK_SLOT_COUNT)"

lemma reprio_waits_for:
  assumes "reprio s s'" "i < length (tasks s)"
  shows "waits_for s' i = waits_for s i"
proof -
  let ?a = "t_waiting_mutex (tasks s ! i)"
  have "map_option mx_owner (mutex_mem s' ?a) = map_option mx_owner (mutex_mem s ?a)"
    using arg_cong [OF reprio_mem(2) [OF assms(1), of ?a], of "map_option fst"] by (simp add: option.map_comp comp_def)
  then show ?thesis using reprio_fields(3) [OF assms]
    by (cases "mutex_mem s ?a"; cases "mutex_mem s' ?a") (auto simp: waits_for_def)
qed

lemma reprio_edges: "reprio s s' \<Longrightarrow> length (tasks s) = TASK_SLOT_COUNT \<Longrightarrow> wait_edges s' = wait_edges s"
  using reprio_waits_for [of s s'] by (auto simp: wait_edges_def)

lemma reprio_owners: "reprio s s' \<Longrightarrow> owners_ok s \<Longrightarrow> owners_ok s'"
  unfolding owners_ok_def
proof (intro allI impI)
  fix a m
  assume h: "reprio s s'" "\<forall>a m. mutex_mem s a = Some m \<longrightarrow> mx_owner m = NIL \<or> mx_owner m < TASK_SLOT_COUNT"
    "mutex_mem s' a = Some m"
  from reprio_mem(2) [OF h(1), of a] h(3) obtain m0 where "mutex_mem s a = Some m0" "mx_owner m0 = mx_owner m"
    by (cases "mutex_mem s a") auto
  with h(2) show "mx_owner m = NIL \<or> mx_owner m < TASK_SLOT_COUNT" by metis
qed

lemma waits_for_owner: "owners_ok s \<Longrightarrow> waits_for s i = Some j \<Longrightarrow> j < TASK_SLOT_COUNT"
  by (auto simp: waits_for_def owners_ok_def split: if_splits option.splits)

lemma donors_finite [simp]: "finite (donors s owner p)"
  by (simp add: donors_def)

lemma donors_card: "card (donors s owner p - Z) \<le> TASK_SLOT_COUNT"
proof -
  have "donors s owner p - Z \<subseteq> {..<TASK_SLOT_COUNT}" by (auto simp: donors_def)
  from card_mono [OF _ this] show ?thesis by simp
qed

text \<open>A waiter that changes its priority takes its donation along; a task that waits for nobody has none.\<close>

lemma donors_prio_set:
  assumes "prio_set i p s s'" "length (tasks s) = TASK_SLOT_COUNT"
  shows "donors s' owner q = (if waits_for s i = Some owner \<and> i < TASK_SLOT_COUNT
    then donors s owner q - {i} \<union> (if q = p then {i} else {}) else donors s owner q)"
proof -
  have re: "reprio s s'" using assms(1) by (simp add: prio_set_def)
  have pr: "prio_of s' j = (if j = i then p else prio_of s j)" if "j < TASK_SLOT_COUNT" for j
    using assms that by (simp add: prio_set_def)
  have w: "waits_for s' j = waits_for s j" if "j < TASK_SLOT_COUNT" for j
    using reprio_waits_for [OF re] assms(2) that by simp
  have "j \<in> donors s' owner q \<longleftrightarrow> j < TASK_SLOT_COUNT \<and> waits_for s j = Some owner
      \<and> (if j = i then p else prio_of s j) = q" for j
    using pr [of j] w [of j] by (auto simp: donors_def)
  then show ?thesis by (auto simp: donors_def)
qed

lemma donations_same:
  assumes "donations_but Z s" "prio_set i p s s'" "length (tasks s) = TASK_SLOT_COUNT" "waits_for s i = None"
  shows "donations_but Z s'"
  using assms(1,2) donors_prio_set [OF assms(2,3)] assms(3,4) by (simp add: donations_but_def prio_set_def)

lemma replace_donation_run:
  assumes "length c = PRIORITY_LEVELS" "x < PRIORITY_LEVELS" "y < PRIORITY_LEVELS" "x \<noteq> y" "0 < c ! x" "c ! y < U8_MAX"
  shows "replace_donation x y c = Some (c[x := c ! x - 1, y := c ! y + 1])"
  using assms by (simp add: replace_donation_def chk_sub_def chk_add_def)

lemma card_move:
  assumes "finite D" "i \<in> D \<longleftrightarrow> q = x" "x \<noteq> p"
  shows "card (D - {i} \<union> (if q = p then {i} else {})) = (if q = x then card D - 1 else if q = p then card D + 1 else card D)"
  using assms by (cases "q = x"; cases "q = p") simp_all

lemma donation_moves:
  assumes ok: "donations_but Z s" and ps: "prio_set i p s s'" and len: "length (tasks s) = TASK_SLOT_COUNT"
    and i: "i < TASK_SLOT_COUNT" "waits_for s i = Some owner" "owner < TASK_SLOT_COUNT" "i \<notin> Z"
    and p: "p < PRIORITY_LEVELS" "prio_of s i < PRIORITY_LEVELS" "prio_of s i \<noteq> p"
  shows "\<exists>c. replace_donation (prio_of s i) p (t_inherited_waiters (tasks s' ! owner)) = Some c
    \<and> donations_but Z (mod_task owner (\<lambda>t. t\<lparr>t_inherited_waiters := c\<rparr>) s')"
proof -
  let ?x = "prio_of s i" and ?c = "t_inherited_waiters (tasks s ! owner)"
  have l': "length (tasks s') = TASK_SLOT_COUNT" using ps len reprio_sel(1) [of s s'] by (simp add: prio_set_def)
  have inh: "t_inherited_waiters (tasks s' ! j) = t_inherited_waiters (tasks s ! j)" if "j < TASK_SLOT_COUNT" for j
    using ps len that by (simp add: prio_set_def)
  have c: "length ?c = PRIORITY_LEVELS" "q < PRIORITY_LEVELS \<Longrightarrow> ?c ! q = card (donors s owner q - Z)" for q
    using ok i(3) by (auto simp: donations_but_def)
  have ix: "i \<in> donors s owner ?x - Z" "i \<notin> donors s owner p" using i p(3) by (auto simp: donors_def)
  have pos: "0 < ?c ! ?x" using c(2) [OF p(2)] ix(1) card_gt_0_iff [of "donors s owner ?x - Z"] by force
  have small: "?c ! p < U8_MAX" using c(2) [OF p(1)] donors_card [of s owner p Z] by (simp add: TASK_SLOT_COUNT_eq)
  let ?c' = "?c[?x := ?c ! ?x - 1, p := ?c ! p + 1]"
  let ?s = "mod_task owner (\<lambda>t. t\<lparr>t_inherited_waiters := ?c'\<rparr>) s'"
  have run: "replace_donation ?x p (t_inherited_waiters (tasks s' ! owner)) = Some ?c'"
    using replace_donation_run [OF c(1) p(2,1,3) pos small] inh i(3) by simp
  have dn: "donors ?s j q = donors s' j q" for j q
    using i(3) l' by (auto simp: donors_def waits_for_def mod_task_at)
  have "donations_but Z ?s"
    unfolding donations_but_def
  proof (intro allI impI conjI)
    fix j
    assume j: "j < TASK_SLOT_COUNT"
    show "length (t_inherited_waiters (tasks ?s ! j)) = PRIORITY_LEVELS"
      using ok j inh [OF j] l' i(3) c(1) by (simp add: donations_but_def mod_task_at)
    fix q
    assume q: "q < PRIORITY_LEVELS"
    show "t_inherited_waiters (tasks ?s ! j) ! q = card (donors ?s j q - Z)"
    proof (cases "j = owner")
      case False
      then show ?thesis unfolding dn using ok j q inh [OF j] l' i donors_prio_set [OF ps len, of j q]
        by (simp add: donations_but_def mod_task_at)
    next
      case True
      let ?D = "donors s owner q - Z"
      have "donors s' owner q - Z = ?D - {i} \<union> (if q = p then {i} else {})"
        using donors_prio_set [OF ps len, of owner q] i by auto
      moreover have "i \<in> ?D \<longleftrightarrow> q = ?x" using i by (auto simp: donors_def)
      ultimately have "card (donors s' owner q - Z) = (if q = ?x then card ?D - 1
          else if q = p then card ?D + 1 else card ?D)"
        using card_move [of ?D i q ?x p] p(3) by simp
      then show ?thesis unfolding dn using True c p q l' i(3) by (auto simp: mod_task_at nth_list_update)
    qed
  qed
  with run show ?thesis by blast
qed

subsection \<open>Propagation\<close>

definition bases_ok :: "sched \<Rightarrow> bool" where
  "bases_ok s \<longleftrightarrow> (\<forall>i < TASK_SLOT_COUNT. t_base_priority (tasks s ! i) < PRIORITY_LEVELS)"

definition prop_inv :: "nat set \<Rightarrow> nat set \<Rightarrow> sched \<Rightarrow> (nat \<Rightarrow> nat list) \<Rightarrow> (nat \<Rightarrow> nat list) \<Rightarrow> (nat \<Rightarrow> nat list) \<Rightarrow> bool" where
  "prop_inv X Z s Q S M \<longleftrightarrow> owned_but {} s Q \<and> waits_rep X {} s S M \<and> donations_but Z s \<and> owners_ok s
     \<and> acyclic (wait_edges s) \<and> bases_ok s"

lemma prop_invD:
  assumes "prop_inv X Z s Q S M"
  shows "owned_but {} s Q" "waits_rep X {} s S M" "donations_but Z s" "owners_ok s" "acyclic (wait_edges s)" "bases_ok s"
    "length (tasks s) = TASK_SLOT_COUNT"
  using assms owned_butD(8) by (auto simp: prop_inv_def)

lemma wanted_bound:
  assumes "bases_ok s" "i < TASK_SLOT_COUNT"
  shows "wanted_priority (tasks s ! i) < PRIORITY_LEVELS"
  using assms by (simp add: bases_ok_def wanted_priority_def min_less_iff_disj)

lemma reprio_bases: "reprio s s' \<Longrightarrow> length (tasks s) = TASK_SLOT_COUNT \<Longrightarrow> bases_ok s \<Longrightarrow> bases_ok s'"
  using reprio_fields(4) [of s s'] by (simp add: bases_ok_def)

text \<open>A change that the queues, the states and the priorities do not see.\<close>

lemma waits_view:
  assumes rep: "waits_rep X Y s S M" and mem: "sem_mem s' = sem_mem s" "mutex_mem s' = mutex_mem s"
    and same: "\<And>i. i < TASK_SLOT_COUNT \<Longrightarrow> t_next (tasks s' ! i) = t_next (tasks s ! i) \<and> state_of s' i = state_of s i
      \<and> t_waiting_sem (tasks s' ! i) = t_waiting_sem (tasks s ! i)
      \<and> t_waiting_mutex (tasks s' ! i) = t_waiting_mutex (tasks s ! i) \<and> prio_of s' i = prio_of s i"
  shows "waits_rep X Y s' S M"
proof (rule waits_frame [OF rep mem])
  fix i
  assume i: "i \<in> waiters S M"
  then have "i < TASK_SLOT_COUNT" using waiters_iff [OF rep] by blast
  with same [OF this] waiters_blocked [OF rep i]
  show "links s' i = links s i \<and> state_of s' i = Blocked
        \<and> t_waiting_sem (tasks s' ! i) = t_waiting_sem (tasks s ! i)
        \<and> t_waiting_mutex (tasks s' ! i) = t_waiting_mutex (tasks s ! i)" by (simp add: links_def)
next
  have "prio_of s' i = prio_of s i" if "i \<in> waiters S M" for i
    using same [of i] waiters_iff [OF rep, of i] that by blast
  then show "\<And>i. i \<in> members S \<Longrightarrow> prio_of s' i = prio_of s i"
    "\<And>i. i \<in> members M \<Longrightarrow> i \<notin> Y \<Longrightarrow> i \<notin> Y \<and> prio_of s' i = prio_of s i" by blast+
next
  fix i
  assume "i < TASK_SLOT_COUNT" "i \<notin> X" "i \<notin> waiters S M"
  with waiters_iff [OF rep, of i] same [of i]
  show "t_waiting_sem (tasks s' ! i) = 0 \<and> t_waiting_mutex (tasks s' ! i) = 0" by auto
qed (use waiters_iff [OF rep] in blast)

lemma prop_inv_donations:
  assumes own: "owned_but {} s Q" and rep: "waits_rep X {} s S M" and o: "owner < TASK_SLOT_COUNT"
    and rest: "owners_ok s" "acyclic (wait_edges s)" "bases_ok s"
    and d: "donations_but Z (mod_task owner (\<lambda>t. t\<lparr>t_inherited_waiters := c\<rparr>) s)"
  shows "prop_inv X Z (mod_task owner (\<lambda>t. t\<lparr>t_inherited_waiters := c\<rparr>) s) Q S M"
    "reprio s (mod_task owner (\<lambda>t. t\<lparr>t_inherited_waiters := c\<rparr>) s)"
proof -
  let ?s = "mod_task owner (\<lambda>t. t\<lparr>t_inherited_waiters := c\<rparr>) s"
  have len: "length (tasks s) = TASK_SLOT_COUNT" using owned_butD(8) [OF own] .
  show re: "reprio s ?s" by (simp add: reprio_mod_task erase_task_def)
  have "owned_but {} ?s Q" by (rule owned_but_view [OF own]) (simp add: same_view_mod_task)
  moreover have "waits_rep X {} ?s S M" by (rule waits_view [OF rep]) (use o len in \<open>auto simp: mod_task_at\<close>)
  ultimately show "prop_inv X Z ?s Q S M"
    using d rest reprio_edges [OF re len] reprio_owners [OF re] reprio_bases [OF re len] by (simp add: prop_inv_def)
qed

lemma mutex_touched_keeps:
  assumes "mutex_touched a R s s'"
  shows "keeps_prio s s'" "\<exists>m m'. mutex_mem s a = Some m \<and> mutex_mem s' a = Some m' \<and> mx_owner m' = mx_owner m"
proof -
  from assms obtain s1 m m' where t: "rewired R s s1" "mutex_mem s a = Some m" "mx_owner m' = mx_owner m"
    "s' = s1\<lparr>mutex_mem := (mutex_mem s)(a \<mapsto> m')\<rparr>" by (auto simp: mutex_touched_def)
  show "keeps_prio s s'" using relinked_keeps_prio [OF rewired_relinked [OF t(1)]] t(4) by simp
  show "\<exists>m m'. mutex_mem s a = Some m \<and> mutex_mem s' a = Some m' \<and> mx_owner m' = mx_owner m" using t by auto
qed

text \<open>
  One link of the chain: the task gets its wanted priority and, when it waits for a mutex, its
  place in the queue and its donation to the owner follow.
\<close>

lemma refresh_link:
  assumes inv: "prop_inv X Z s Q S M" and i: "i < TASK_SLOT_COUNT" and depth: "depth < TASK_SLOT_COUNT"
    and x: "i \<notin> X" and free: "i \<notin> Z \<or> waits_for s i = None" and st: "settled_but {i} s" and new: "prio_of s i \<noteq> wanted_priority (tasks s ! i)"
  shows "case waits_for s i of
      None \<Rightarrow> \<exists>s' Q' S' M'. refresh_inherited_priority i depth s = Some s' \<and> prop_inv X Z s' Q' S' M'
        \<and> settled_but {} s' \<and> reprio s s' \<and> (t_waiting_mutex (tasks s ! i) = 0 \<longrightarrow> M' = M)
    | Some owner \<Rightarrow> \<exists>s' Q' S' M'. refresh_inherited_priority i depth s = refresh_inherited_priority owner (depth + 1) s'
        \<and> prop_inv X Z s' Q' S' M' \<and> settled_but {owner} s' \<and> reprio s s'"
proof -
  note d = prop_invD [OF inv]
  let ?new = "wanted_priority (tasks s ! i)" and ?a = "t_waiting_mutex (tasks s ! i)"
  have il: "i < length (tasks s)" using i d(7) by simp
  have pl: "?new < PRIORITY_LEVELS" using wanted_bound [OF d(6) i] .
  have old: "prio_of s i < PRIORITY_LEVELS" using shape_okD(7) [OF owned_butD(1) [OF d(1)] i] .
  from set_effective_spec [OF d(1,2) i x pl new] obtain s1 Q1 S1 where
    1: "set_effective_priority i ?new s = Some s1" "owned_but {} s1 Q1" "waits_rep X {i} s1 S1 M" "prio_set i ?new s s1" by blast
  have re1: "reprio s s1" using 1(4) by (simp add: prio_set_def)
  note set1 = set_effective_priority_settles [OF 1(1) st]
  have l1: "length (tasks s1) = TASK_SLOT_COUNT" using owned_butD(8) [OF 1(2)] .
  have a1: "t_waiting_mutex (tasks s1 ! i) = ?a" using reprio_fields(3) [OF re1 il] .
  have keep1: "owners_ok s1" "acyclic (wait_edges s1)" "bases_ok s1"
    using reprio_owners [OF re1 d(4)] reprio_edges [OF re1 d(7)] d(5) reprio_bases [OF re1 d(7,6)] by simp_all
  show ?thesis
  proof (cases "?a = 0")
    case True
    then have w: "waits_for s i = None" by (simp add: waits_for_def)
    have "i \<notin> members M" using members_iff [OF waits_repD(2) [OF 1(3)], of i] a1 True by simp
    then have "waits_rep X {} s1 S1 M" using waits_Y_drop [OF 1(3)] by blast
    with 1(2) keep1 donations_same [OF d(3) 1(4) d(7) w] have "prop_inv X Z s1 Q1 S1 M" by (simp add: prop_inv_def)
    moreover have "refresh_inherited_priority i depth s = Some s1"
      using depth il new 1(1) l1 i a1 True by (simp add: refresh_inherited_priority.simps Let_def)
    ultimately show ?thesis using w set1(1) re1 by auto
  next
    case a: False
    from mutex_requeue [OF 1(3) l1 x i a1 a] obtain s2 M2 where
      2: "on_mutex ?a (\<lambda>st s. do { (st, s) \<leftarrow> remove_mutex_waiter st i s; enqueue_mutex_waiter st i s }) s1 = Some s2"
        "waits_rep X {} s2 S1 M2" "mutex_touched ?a (insert i (set (M ?a))) s1 s2" by blast
    have re2: "reprio s s2" using reprio_trans [OF re1 mutex_touched_reprio [OF 2(3)]] .
    have sub: "insert i (set (M ?a)) \<subseteq> waiters S1 M"
      using fam_waiting(1) [OF waits_repD(2) [OF 1(3)] i x a1 a] by (auto simp: members_def)
    have own2: "owned_but {} s2 Q1"
      by (rule owned_touched(2) [OF 1(2) _ 2(3)]) (use sub queued_not_waiting [OF 1(2,3)] in blast)
    note kp = mutex_touched_keeps [OF 2(3)]
    have set2: "settled_but {} s2" using keeps_prio_settled(1) [OF kp(1)] set1(1) by blast
    have "prio_of s2 j = prio_of s1 j \<and> t_inherited_waiters (tasks s2 ! j) = t_inherited_waiters (tasks s1 ! j)"
      if "j < length (tasks s)" for j using kp(1) that l1 d(7) by (simp add: keeps_prio_def prio_frame_def)
    then have ps2: "prio_set i ?new s s2"
      using 1(4) re2 unfolding prio_set_def by metis
    obtain m where m: "mutex_mem s2 ?a = Some m" using kp(2) by blast
    have keep2: "owners_ok s2" "acyclic (wait_edges s2)" "bases_ok s2" "length (tasks s2) = TASK_SLOT_COUNT"
      using reprio_owners [OF re2 d(4)] reprio_edges [OF re2 d(7)] d(5) reprio_bases [OF re2 d(7,6)] owned_butD(8) [OF own2] by simp_all
    have w: "waits_for s i = (if mx_owner m = NIL then None else Some (mx_owner m))"
      using reprio_waits_for [OF re2 il] m a reprio_fields(3) [OF re2 il] by (simp add: waits_for_def)
    have run: "refresh_inherited_priority i depth s = (if mx_owner m \<noteq> NIL
        then replace_inheritance (mx_owner m) (prio_of s i) ?new (depth + 1) s2 else Some s2)"
      using depth il new 1(1) l1 i a1 a 2(1) m by (subst refresh_inherited_priority.simps) (simp add: Let_def)
    show ?thesis
    proof (cases "mx_owner m = NIL")
      case True
      with w have w: "waits_for s i = None" by simp
      have "prop_inv X Z s2 Q1 S1 M2" using own2 2(2) keep2 donations_same [OF d(3) ps2 d(7) w] by (simp add: prop_inv_def)
      with True run w set2 re2 a show ?thesis by auto
    next
      case False
      let ?o = "mx_owner m"
      have wo: "waits_for s i = Some ?o" using w False by simp
      have o: "?o < TASK_SLOT_COUNT" using waits_for_owner [OF d(4) wo] .
      have "i \<notin> Z" using free wo by simp
      from donation_moves [OF d(3) ps2 d(7) i wo o this pl old new] obtain c where
        c: "replace_donation (prio_of s i) ?new (t_inherited_waiters (tasks s2 ! ?o)) = Some c"
          "donations_but Z (mod_task ?o (\<lambda>t. t\<lparr>t_inherited_waiters := c\<rparr>) s2)" by blast
      let ?s3 = "mod_task ?o (\<lambda>t. t\<lparr>t_inherited_waiters := c\<rparr>) s2"
      note inv3 = prop_inv_donations [OF own2 2(2) o keep2(1-3) c(2)]
      have "settled_but {?o} ?s3" using settled_but_mod_donations [of ?o s2] set2 o keep2(4) by simp
      moreover have "refresh_inherited_priority i depth s = refresh_inherited_priority ?o (depth + 1) ?s3"
        using run False o keep2(4) c(1) new by (simp add: replace_inheritance.simps [of ?o])
      ultimately show ?thesis using wo inv3 reprio_trans [OF re2 inv3(2)] by auto
    qed
  qed
qed

lemma refresh_spec:
  assumes "prop_inv X Z s Q S M" "i < TASK_SLOT_COUNT" "settled_but {i} s"
    and "V \<subseteq> {..<TASK_SLOT_COUNT}" "card V = depth" "\<forall>v \<in> V. (v, i) \<in> (wait_edges s)\<^sup>+"
    and "\<And>j. (i, j) \<in> (wait_edges s)\<^sup>* \<Longrightarrow> j \<notin> X \<and> (j \<notin> Z \<or> waits_for s j = None)"
  shows "\<exists>s' Q' S' M'. refresh_inherited_priority i depth s = Some s' \<and> prop_inv X Z s' Q' S' M'
    \<and> settled_but {} s' \<and> reprio s s' \<and> (t_waiting_mutex (tasks s ! i) = 0 \<longrightarrow> M' = M)"
  using assms
proof (induction "TASK_SLOT_COUNT - depth" arbitrary: s Q S M i depth V rule: less_induct)
  case less
  note d = prop_invD [OF less.prems(1)]
  have fin: "finite V" using less.prems(4) finite_subset by blast
  have "i \<notin> V" using less.prems(6) d(5) by (auto simp: acyclic_def)
  then have card: "card (insert i V) = Suc depth" using fin less.prems(5) by simp
  have sub: "insert i V \<subseteq> {..<TASK_SLOT_COUNT}" using less.prems(2,4) by auto
  from card_mono [OF _ this] card have depth: "depth < TASK_SLOT_COUNT" by simp
  show ?case
  proof (cases "prio_of s i = wanted_priority (tasks s ! i)")
    case True
    have "refresh_inherited_priority i depth s = Some s"
      using True depth less.prems(2) d(7) by (simp add: refresh_inherited_priority.simps)
    moreover have "settled_but {} s" using less.prems(3) True by (auto simp: settled_but_def settled_def)
    ultimately show ?thesis using less.prems(1) reprio_refl by blast
  next
    case False
    have i: "i \<notin> X" "i \<notin> Z \<or> waits_for s i = None" using less.prems(7) [of i] by simp_all
    note link = refresh_link [OF less.prems(1,2) depth i less.prems(3) False]
    show ?thesis
    proof (cases "waits_for s i")
      case None
      with link show ?thesis by simp
    next
      case (Some owner)
      with link obtain s1 Q1 S1 M1 where
        1: "refresh_inherited_priority i depth s = refresh_inherited_priority owner (Suc depth) s1"
          "prop_inv X Z s1 Q1 S1 M1" "settled_but {owner} s1" "reprio s s1" by auto
      have e: "wait_edges s1 = wait_edges s" using reprio_edges [OF 1(4) d(7)] .
      have edge: "(i, owner) \<in> wait_edges s" using Some less.prems(2) by (simp add: wait_edges_def)
      have V: "\<forall>v \<in> insert i V. (v, owner) \<in> (wait_edges s1)\<^sup>+"
        unfolding e using edge less.prems(6) by (auto intro: trancl_into_trancl)
      have free: "j \<notin> X \<and> (j \<notin> Z \<or> waits_for s1 j = None)" if j: "(owner, j) \<in> (wait_edges s1)\<^sup>*" for j
      proof -
        have "(i, j) \<in> (wait_edges s)\<^sup>*" using j edge unfolding e by (meson converse_rtrancl_into_rtrancl)
        moreover have "j < TASK_SLOT_COUNT"
          using j waits_for_owner [OF d(4)] Some unfolding e by (cases rule: rtranclE) (auto simp: wait_edges_def)
        ultimately show ?thesis using less.prems(7) [of j] reprio_waits_for [OF 1(4), of j] d(7) by simp
      qed
      have "TASK_SLOT_COUNT - Suc depth < TASK_SLOT_COUNT - depth" using depth by simp
      from less.hyps [OF this 1(2) waits_for_owner [OF d(4) Some] 1(3) sub card V free] obtain s' Q' S' M' where
        2: "refresh_inherited_priority owner (Suc depth) s1 = Some s'" "prop_inv X Z s' Q' S' M'" "settled_but {} s'" "reprio s1 s'"
        by blast
      have "t_waiting_mutex (tasks s ! i) \<noteq> 0" using Some by (auto simp: waits_for_def split: if_splits)
      with 1(1) 2 reprio_trans [OF 1(4) 2(4)] show ?thesis by auto
    qed
  qed
qed

end
