(* ===== verification/Sync_Ops.thy ===== *)
theory Sync_Ops
  imports Sync_Invariant
begin

text \<open>
  The critical sections of semaphores and mutexes under the invariant of \<open>Sync_Invariant\<close>: each one
  returns, keeps the invariant, and does what its contract says.
\<close>

subsection \<open>The invariant\<close>

definition objects_ok :: "sched \<Rightarrow> (nat \<Rightarrow> nat list) \<Rightarrow> (nat \<Rightarrow> nat list) \<Rightarrow> bool" where
  "objects_ok s S M \<longleftrightarrow>
     (\<forall>a st. sem_mem s a = Some st \<longrightarrow> 0 \<le> sm_count st \<and> sm_count st \<le> I32_MAX
        \<and> (0 < sm_count st \<longrightarrow> S a = []))
     \<and> (\<forall>a m. mutex_mem s a = Some m \<longrightarrow> (mx_owner m = NIL \<longleftrightarrow> mx_depth m = 0) \<and> mx_depth m \<le> U32_MAX
        \<and> (mx_owner m = NIL \<longrightarrow> M a = []))"

text \<open>
  A grant is what a waker left for the task it woke: the permit of a semaphore, or a mutex owned
  once. It is unconsumed until the task has resumed.
\<close>

definition grant_ok :: "sched \<Rightarrow> nat \<Rightarrow> bool" where
  "grant_ok s i \<longleftrightarrow> (let t = tasks s ! i in
     (t_sem_granted t \<longleftrightarrow> t_granted_sem t \<noteq> 0 \<or> t_granted_mutex t \<noteq> 0)
     \<and> (t_granted_sem t \<noteq> 0 \<longrightarrow> sem_mem s (t_granted_sem t) \<noteq> None)
     \<and> (t_granted_mutex t \<noteq> 0 \<longrightarrow> (\<exists>m. mutex_mem s (t_granted_mutex t) = Some m \<and> mx_owner m = i \<and> mx_depth m = 1))
     \<and> (t_sem_granted t \<longrightarrow> t_waiting_sem t = 0 \<and> t_waiting_mutex t = 0)
     \<and> (t_granted_sem t = 0 \<or> t_granted_mutex t = 0))"

definition sync_inv :: "sched \<Rightarrow> (nat \<Rightarrow> nat list) \<Rightarrow> (nat \<Rightarrow> nat list) \<Rightarrow> (nat \<Rightarrow> nat list) \<Rightarrow> bool" where
  "sync_inv s Q S M \<longleftrightarrow> prop_inv {} {} s Q S M \<and> settled_but {} s \<and> objects_ok s S M
     \<and> (\<forall>i < TASK_SLOT_COUNT. grant_ok s i)"

lemma sync_invD:
  assumes "sync_inv s Q S M"
  shows "owned_but {} s Q" "waits_rep {} {} s S M" "donations_but {} s" "owners_ok s" "acyclic (wait_edges s)"
    "bases_ok s" "length (tasks s) = TASK_SLOT_COUNT" "settled_but {} s" "objects_ok s S M"
    "i < TASK_SLOT_COUNT \<Longrightarrow> grant_ok s i"
  using assms prop_invD by (auto simp: sync_inv_def)

lemma sync_inv_prop: "sync_inv s Q S M \<Longrightarrow> prop_inv {} {} s Q S M"
  by (simp add: sync_inv_def)

text \<open>The part of the invariant that is about priorities and mutexes.\<close>

definition prio_same :: "sched \<Rightarrow> sched \<Rightarrow> bool" where
  "prio_same s s' \<longleftrightarrow> length (tasks s') = length (tasks s)
     \<and> (\<forall>a. map_option mx_owner (mutex_mem s' a) = map_option mx_owner (mutex_mem s a))
     \<and> (\<forall>i < length (tasks s). t_priority (tasks s' ! i) = t_priority (tasks s ! i)
         \<and> t_base_priority (tasks s' ! i) = t_base_priority (tasks s ! i)
         \<and> t_inherited_waiters (tasks s' ! i) = t_inherited_waiters (tasks s ! i)
         \<and> t_waiting_mutex (tasks s' ! i) = t_waiting_mutex (tasks s ! i))"

lemma prio_same_refl [simp]: "prio_same s s"
  by (simp add: prio_same_def)

lemma prio_same_trans: "prio_same s s1 \<Longrightarrow> prio_same s1 s2 \<Longrightarrow> prio_same s s2"
  by (simp add: prio_same_def)

lemma prio_same_relinked: "relinked R s s' \<Longrightarrow> prio_same s s'"
  by (simp add: prio_same_def relinked_sel relinked_fields)

lemma prio_same_mod_task:
  assumes "\<And>t. t_priority (f t) = t_priority t \<and> t_base_priority (f t) = t_base_priority t
      \<and> t_inherited_waiters (f t) = t_inherited_waiters t \<and> t_waiting_mutex (f t) = t_waiting_mutex t"
  shows "prio_same s (mod_task i f s)"
  using assms by (cases "i < length (tasks s)") (simp_all add: prio_same_def mod_task_def nth_list_update list_update_beyond)

lemma prio_same_fields [simp]:
  "prio_same s (diag f s') = prio_same s s'" "prio_same s (s'\<lparr>sem_mem := m\<rparr>) = prio_same s s'"
  by (simp_all add: prio_same_def)

lemma prio_same_waits_for:
  assumes "prio_same s s'" "i < length (tasks s)"
  shows "waits_for s' i = waits_for s i"
proof -
  let ?a = "t_waiting_mutex (tasks s ! i)"
  have "map_option mx_owner (mutex_mem s' ?a) = map_option mx_owner (mutex_mem s ?a)" using assms(1) by (simp add: prio_same_def)
  then show ?thesis using assms
    by (cases "mutex_mem s ?a"; cases "mutex_mem s' ?a") (auto simp: waits_for_def prio_same_def)
qed

lemma prio_same_inv:
  assumes "prio_same s s'" "length (tasks s) = TASK_SLOT_COUNT"
  shows "donations_but Z s' = donations_but Z s" "owners_ok s \<Longrightarrow> owners_ok s'" "wait_edges s' = wait_edges s"
    "bases_ok s' = bases_ok s" "settled_but X s' = settled_but X s"
proof -
  note p = assms(1) [unfolded prio_same_def]
  have w: "waits_for s' i = waits_for s i" if "i < TASK_SLOT_COUNT" for i
    using prio_same_waits_for [OF assms(1)] assms(2) that by simp
  have dn: "donors s' j q = donors s j q" for j q using w p assms(2) by (auto simp: donors_def)
  show "donations_but Z s' = donations_but Z s" unfolding donations_but_def dn using p assms(2) by simp
  show "wait_edges s' = wait_edges s" using w by (auto simp: wait_edges_def)
  show "bases_ok s' = bases_ok s" using p assms(2) by (simp add: bases_ok_def)
  have "settled s' i = settled s i" if "i < length (tasks s)" for i
    using p that by (simp add: settled_def wanted_priority_def inherited_priority_def split: option.split)
  with p show "settled_but X s' = settled_but X s" by (simp add: settled_but_def)
  assume o: "owners_ok s"
  show "owners_ok s'"
    unfolding owners_ok_def
  proof (intro allI impI)
    fix a m
    assume m: "mutex_mem s' a = Some m"
    with p have "map_option mx_owner (mutex_mem s a) = Some (mx_owner m)" by (metis option.map(2))
    then obtain m0 where "mutex_mem s a = Some m0" "mx_owner m0 = mx_owner m" by (cases "mutex_mem s a") auto
    with o show "mx_owner m = NIL \<or> mx_owner m < TASK_SLOT_COUNT" unfolding owners_ok_def by metis
  qed
qed

lemma prop_inv_same:
  assumes "prop_inv X Z s Q S M" "prio_same s s'" "owned_but {} s' Q'" "waits_rep Y {} s' S' M'"
  shows "prop_inv Y Z s' Q' S' M'"
  using assms prio_same_inv [OF assms(2) prop_invD(7) [OF assms(1)]] by (simp add: prop_inv_def)

subsection \<open>Taking the front of a queue\<close>

lemma fam_pop:
  assumes rep: "fam_rep X {} s E w S" and e: "E a = Some e" and len: "length (tasks s) = TASK_SLOT_COUNT"
    and q: "S a = x # xs" and w: "\<And>t n. w (t\<lparr>t_next := n\<rparr>) = w t"
  shows "fst e = x" "fam_rep (insert x X) {} (mod_task x (\<lambda>t. t\<lparr>t_next := NIL\<rparr>) s)
    (E(a \<mapsto> (links s x, if links s x = NIL then NIL else snd e))) w (S(a := xs))"
proof -
  note wr = fam_repD(3) [OF rep e]
  show x: "fst e = x" using wait_rep_sel(1) [OF wr] q by simp
  have c: "chain (links s) (links s x) xs" "x \<notin> set xs" "x < TASK_SLOT_COUNT" "x \<noteq> NIL"
    using wr q wait_rep_sel(3,4) [OF wr] by (auto simp: wait_rep_def)
  have nil: "links s x = NIL \<longleftrightarrow> xs = []" using chain_head [OF c(1)] chain_not_NIL [OF c(1)] by (cases xs) auto
  let ?s = "mod_task x (\<lambda>t. t\<lparr>t_next := NIL\<rparr>) s" and ?e = "(links s x, if links s x = NIL then NIL else snd e)"
  from fam_remove [OF rep e len _ w, of x] q obtain e' s' where
    r: "wait_unlink x e s = Some (e', s')" "fam_rep (insert x X) {} s' (E(a \<mapsto> e')) w (S(a := xs))" by auto
  have h: "fst e = x" "snd e = last_or_NIL (x # xs)" using x wait_rep_sel(2) [OF wr] q by simp_all
  obtain n where n: "TASK_SLOT_COUNT = Suc n" by (simp add: TASK_SLOT_COUNT_eq)
  have "wait_unlink x e s = Some ((links s x, if snd e = x then NIL else snd e), ?s)"
    using c len h(1) unfolding wait_unlink_def n by (cases e) (simp add: n links_def)
  moreover have "(if snd e = x then NIL else snd e) = snd ?e"
    using h(2) nil c(2) last_in_set [of xs] by (auto simp: last_or_NIL_def)
  ultimately have "e' = ?e" "s' = ?s" using r(1) by auto
  with r(2) show "fam_rep (insert x X) {} ?s (E(a \<mapsto> ?e)) w (S(a := xs))" by simp
qed

lemma members_pop:
  assumes "fam_rep X Y s E w S" "S a = x # xs"
  shows "members (S(a := xs)) = members S - {x}"
  using members_remove1 [OF assms(1), of x a] assms(2) by simp

lemma sem_pop:
  assumes rep: "waits_rep X {} s S M" and len: "length (tasks s) = TASK_SLOT_COUNT" and q: "S a = x # xs"
    and st: "sem_mem s a = Some st"
    and st': "st' = st\<lparr>sm_wait_head := t_next (tasks s ! x),
      sm_wait_tail := if t_next (tasks s ! x) = NIL then NIL else sm_wait_tail st\<rparr>"
  shows "sm_wait_head st = x" "x < TASK_SLOT_COUNT"
    "waits_rep (insert x X) {} ((mod_task x (\<lambda>t. t\<lparr>t_next := NIL\<rparr>) s)\<lparr>sem_mem := (sem_mem s)(a \<mapsto> st')\<rparr>) (S(a := xs)) M"
proof -
  note r = waits_repD [OF rep]
  have e: "sem_view s a = Some (sem_ends st)" using st by (simp add: sem_view_def)
  note p = fam_pop [OF r(1) e len q]
  show "sm_wait_head st = x" using p(1) by (simp add: sem_ends_def)
  have x: "x \<in> set (S a)" using q by simp
  show xl: "x < TASK_SLOT_COUNT" using fam_member(1) [OF r(1) x] .
  let ?s1 = "mod_task x (\<lambda>t. t\<lparr>t_next := NIL\<rparr>) s" and ?s = "(mod_task x (\<lambda>t. t\<lparr>t_next := NIL\<rparr>) s)\<lparr>sem_mem := (sem_mem s)(a \<mapsto> st')\<rparr>"
  have v: "sem_view ?s = (sem_view s)(a \<mapsto> (links s x, if links s x = NIL then NIL else snd (sem_ends st)))"
    "mutex_view ?s = mutex_view s"
    using st' by (auto simp: sem_view_def mutex_view_def sem_ends_def links_def fun_eq_iff)
  have xm: "x \<in> members S" "x \<notin> members M" using x r(3) by (auto simp: members_def)
  have "fam_rep X {} ?s1 (mutex_view s) t_waiting_mutex M"
    by (rule fam_relinked [OF r(2) relinked_mod_task [of x "{x}"] len]) (use xm in auto)
  from fam_X_insert [OF this xm(2)] have "fam_rep (insert x X) {} ?s (mutex_view ?s) t_waiting_mutex M"
    unfolding v using fam_rep_tasks [of ?s ?s1] by simp
  moreover have "fam_rep (insert x X) {} ?s (sem_view ?s) t_waiting_sem (S(a := xs))"
    unfolding v using p(2) fam_rep_tasks [of ?s ?s1] by simp
  ultimately show "waits_rep (insert x X) {} ?s (S(a := xs)) M"
    using r(3) members_pop [OF r(1) q] by (auto simp: waits_rep_def)
qed

subsection \<open>Waking a task that has left its queue\<close>

lemma mem_commutes:
  "mod_task i f (s\<lparr>sem_mem := m\<rparr>) = (mod_task i f s)\<lparr>sem_mem := m\<rparr>"
  "mod_head p v (s\<lparr>sem_mem := m\<rparr>) = (mod_head p v s)\<lparr>sem_mem := m\<rparr>"
  "mod_tail p v (s\<lparr>sem_mem := m\<rparr>) = (mod_tail p v s)\<lparr>sem_mem := m\<rparr>"
  "mod_task i f (s\<lparr>mutex_mem := m'\<rparr>) = (mod_task i f s)\<lparr>mutex_mem := m'\<rparr>"
  "mod_head p v (s\<lparr>mutex_mem := m'\<rparr>) = (mod_head p v s)\<lparr>mutex_mem := m'\<rparr>"
  "mod_tail p v (s\<lparr>mutex_mem := m'\<rparr>) = (mod_tail p v s)\<lparr>mutex_mem := m'\<rparr>"
  by (simp_all add: mod_task_def mod_head_def mod_tail_def)

lemma make_ready_mem:
  "make_ready i now (s\<lparr>sem_mem := m\<rparr>) = map_option (\<lambda>s. s\<lparr>sem_mem := m\<rparr>) (make_ready i now s)"
  by (simp add: make_ready_def ready_push_def ready_priority_def upd_task_def set_ready_head_def
      set_ready_tail_def task_at_def arr_at_def mem_commutes bind_map_option map_option_bind)

lemma wake_spec:
  assumes own: "owned_but {} s Q" and rep: "waits_rep {x} {} s S M" and x: "x < TASK_SLOT_COUNT" "state_of s x = Blocked"
    and f: "t_state (f (tasks s ! x)) = Blocked" "t_priority (f (tasks s ! x)) = prio_of s x"
      "t_waiting_sem (f (tasks s ! x)) = 0" "t_waiting_mutex (f (tasks s ! x)) = 0"
  shows "\<exists>s' Q' R. make_ready x now (mod_task x f s) = Some s' \<and> owned_but {} s' Q' \<and> waits_rep {} {} s' S M
    \<and> relinked R (mod_task x (ready_mark now) (mod_task x f s)) s'"
proof -
  note d = owned_butD [OF own]
  have xq: "x \<notin> queued Q" using d(3) x(2) by force
  have xp: "pending_target s \<noteq> Some x" using d(6) x(2) by (auto simp: pending_target_def pending_ok_def)
  have xw: "x \<notin> waiters S M" using waiters_iff [OF rep] by blast
  let ?s1 = "mod_task x f s"
  have own1: "owned_but {} ?s1 Q"
    by (rule owned_mod_task [OF own x(1) xq xp]) (use f shape_okD(7) [OF d(1) x(1)] in auto)
  have w1: "waits_rep {} {} ?s1 S M"
    by (rule waits_mod_task [OF rep]) (use x(1) d(8) xw f in auto)
  have xp1: "pending_target ?s1 \<noteq> Some x" using xp by (simp add: pending_target_def)
  from owned_make_ready [OF own1 x(1) xq xp1, of now] obtain s' Q' where
    s': "make_ready x now ?s1 = Some s'" "owned_but {} s' Q'"
      "relinked (insert x (queued Q)) (mod_task x (ready_mark now) ?s1) s'" by auto
  have w2: "waits_rep {} {} (mod_task x (ready_mark now) ?s1) S M"
    by (rule waits_mod_task [OF w1]) (use x(1) d(8) xw f in \<open>auto simp: ready_mark_def\<close>)
  have "waits_rep {} {} s' S M"
    by (rule waits_relinked [OF w2 s'(3)]) (use d(8) xw queued_not_waiting [OF own rep] in auto)
  with s' show ?thesis by blast
qed

subsection \<open>Semaphores\<close>

lemma waits_rep_diag [simp]: "waits_rep X Y (diag f s) S M = waits_rep X Y s S M"
  by (simp add: waits_rep_def sem_view_def [abs_def] mutex_view_def [abs_def] fam_rep_tasks [of "diag f s" s])

lemma waits_sem_count:
  assumes "waits_rep X Y s S M" "sem_mem s a = Some st"
  shows "waits_rep X Y (s\<lparr>sem_mem := (sem_mem s)(a \<mapsto> st\<lparr>sm_count := n\<rparr>)\<rparr>) S M"
proof -
  let ?s = "s\<lparr>sem_mem := (sem_mem s)(a \<mapsto> st\<lparr>sm_count := n\<rparr>)\<rparr>"
  have "sem_view ?s = sem_view s" "mutex_view ?s = mutex_view s"
    using assms(2) by (auto simp: sem_view_def mutex_view_def sem_ends_def fun_eq_iff)
  then show ?thesis using assms(1) by (simp add: waits_rep_def fam_rep_tasks [of ?s s])
qed

text \<open>The objects behind a grant, and the grant itself, are only seen through these fields.\<close>

lemma grant_ok_frame:
  assumes "grant_ok s i"
    and "t_sem_granted (tasks s' ! i) = t_sem_granted (tasks s ! i)" "t_granted_sem (tasks s' ! i) = t_granted_sem (tasks s ! i)"
      "t_granted_mutex (tasks s' ! i) = t_granted_mutex (tasks s ! i)"
      "t_waiting_sem (tasks s' ! i) = t_waiting_sem (tasks s ! i)" "t_waiting_mutex (tasks s' ! i) = t_waiting_mutex (tasks s ! i)"
    and "\<And>a. sem_mem s a \<noteq> None \<Longrightarrow> sem_mem s' a \<noteq> None"
    and "\<And>a m. mutex_mem s a = Some m \<Longrightarrow> mx_owner m = i \<Longrightarrow> mx_depth m = 1 \<Longrightarrow>
      t_granted_mutex (tasks s ! i) = a \<Longrightarrow> \<exists>m'. mutex_mem s' a = Some m' \<and> mx_owner m' = i \<and> mx_depth m' = 1"
  shows "grant_ok s' i"
  using assms unfolding grant_ok_def Let_def by metis

lemma sync_sem_count:
  assumes inv: "sync_inv s Q S M" and st: "sem_mem s a = Some st"
    and n: "0 \<le> n" "n \<le> I32_MAX" "0 < n \<Longrightarrow> S a = []"
  shows "sync_inv (s\<lparr>sem_mem := (sem_mem s)(a \<mapsto> st\<lparr>sm_count := n\<rparr>)\<rparr>) Q S M"
proof -
  note d = sync_invD [OF inv]
  let ?s = "s\<lparr>sem_mem := (sem_mem s)(a \<mapsto> st\<lparr>sm_count := n\<rparr>)\<rparr>"
  have ps: "prio_same s ?s" by (simp add: prio_same_def)
  have "prop_inv {} {} ?s Q S M"
    by (rule prop_inv_same [OF sync_inv_prop [OF inv] ps]) (use d waits_sem_count [OF d(2) st] in auto)
  moreover have "settled_but {} ?s" using prio_same_inv(5) [OF ps d(7)] d(8) by blast
  moreover have "objects_ok ?s S M" using d(9) n by (auto simp: objects_ok_def)
  moreover have "grant_ok ?s i" if "i < TASK_SLOT_COUNT" for i
    by (rule grant_ok_frame [OF d(10) [OF that]]) auto
  ultimately show ?thesis by (simp add: sync_inv_def)
qed

lemma sync_inv_diag [simp]: "sync_inv (diag f s) Q S M = sync_inv s Q S M"
proof -
  have "waits_for (diag f s) = waits_for s" by (simp add: waits_for_def fun_eq_iff)
  then show ?thesis
    by (simp add: sync_inv_def prop_inv_def donations_but_def donors_def owners_ok_def wait_edges_def bases_ok_def
        settled_but_def settled_def objects_ok_def grant_ok_def)
qed

definition granted_by :: "nat \<Rightarrow> tcb \<Rightarrow> tcb" where
  "granted_by a t = t\<lparr>t_wake_at := 0, t_granted_sem := a, t_waiting_sem := 0, t_sem_granted := True\<rparr>"

text \<open>The ticket counters.\<close>

definition steady :: "sched \<Rightarrow> sched \<Rightarrow> bool" where
  "steady s s' \<longleftrightarrow> started s' = started s \<and> next_switch_sequence s' = next_switch_sequence s
     \<and> last_consumed_switch_sequence s' = last_consumed_switch_sequence s"

text \<open>\<open>changed x f s s'\<close>: the task \<open>x\<close> became \<open>f\<close> of itself, and nothing else changed but links.\<close>

definition changed :: "nat \<Rightarrow> (tcb \<Rightarrow> tcb) \<Rightarrow> sched \<Rightarrow> sched \<Rightarrow> bool" where
  "changed x f s s' \<longleftrightarrow> length (tasks s') = length (tasks s) \<and> current s' = current s \<and> pending_switch s' = pending_switch s
     \<and> steady s s' \<and> (\<forall>j < length (tasks s). \<exists>n. tasks s' ! j = (if j = x then f (tasks s ! x) else tasks s ! j)\<lparr>t_next := n\<rparr>)"

lemma make_ready_relinks: "make_ready i now s = Some s' \<Longrightarrow> relinked UNIV (mod_task i (ready_mark now) s) s'"
  by (auto simp: make_ready_def bind_eq_Some upd_task_def ready_mark_def [abs_def] dest: ready_push_relinks split: if_splits)

lemma changedI:
  assumes re: "relinked R (mod_task x f (mod_task x g s0)) s'" and x: "x < length (tasks s)"
    and s0: "length (tasks s0) = length (tasks s)" "current s0 = current s" "pending_switch s0 = pending_switch s" "steady s s0"
      "\<And>j. j < length (tasks s) \<Longrightarrow> \<exists>n. tasks s0 ! j = (tasks s ! j)\<lparr>t_next := n\<rparr>"
    and fg: "\<And>t n. \<exists>m. f (g (t\<lparr>t_next := n\<rparr>)) = (f (g t))\<lparr>t_next := m\<rparr>"
  shows "changed x (\<lambda>t. f (g t)) s s'"
proof -
  let ?s = "mod_task x f (mod_task x g s0)"
  have "\<exists>n. tasks s' ! j = (if j = x then f (g (tasks s ! x)) else tasks s ! j)\<lparr>t_next := n\<rparr>"
    if j: "j < length (tasks s)" for j
  proof -
    obtain n0 where n0: "tasks s0 ! j = (tasks s ! j)\<lparr>t_next := n0\<rparr>" using s0(5) [OF j] by blast
    have "\<exists>n. tasks s' ! j = (tasks ?s ! j)\<lparr>t_next := n\<rparr>" using relinked_task(1) [OF re, of j] j s0(1) by simp
    moreover have "\<exists>n. tasks ?s ! j = (if j = x then f (g (tasks s ! x)) else tasks s ! j)\<lparr>t_next := n\<rparr>"
      using fg [where t = "tasks s ! j" and n = n0] n0 j s0(1) by (cases "j = x") (auto simp: mod_task_at)
    ultimately show ?thesis by auto
  qed
  then show ?thesis using relinked_sel [OF re] s0 by (simp add: changed_def steady_def)
qed

lemma changed_fields:
  assumes "changed x f s s'" "j < length (tasks s)" "j \<noteq> x"
  shows "\<exists>n. tasks s' ! j = (tasks s ! j)\<lparr>t_next := n\<rparr>"
  using assms by (auto simp: changed_def dest!: spec [of _ j])

lemma changed_self: "changed x f s s' \<Longrightarrow> x < length (tasks s) \<Longrightarrow> \<exists>n. tasks s' ! x = (f (tasks s ! x))\<lparr>t_next := n\<rparr>"
  by (auto simp: changed_def dest!: spec [of _ x])

lemma changed_prio_same:
  assumes "changed x f s s'" "mutex_mem s' = mutex_mem s"
    and "x < length (tasks s) \<Longrightarrow> t_priority (f (tasks s ! x)) = t_priority (tasks s ! x)
      \<and> t_base_priority (f (tasks s ! x)) = t_base_priority (tasks s ! x)
      \<and> t_inherited_waiters (f (tasks s ! x)) = t_inherited_waiters (tasks s ! x)
      \<and> t_waiting_mutex (f (tasks s ! x)) = t_waiting_mutex (tasks s ! x)"
  shows "prio_same s s'"
  unfolding prio_same_def
proof (intro conjI allI impI)
  fix i
  assume i: "i < length (tasks s)"
  from assms(1) i obtain n where n: "tasks s' ! i = (if i = x then f (tasks s ! x) else tasks s ! i)\<lparr>t_next := n\<rparr>"
    by (auto simp: changed_def)
  show "prio_of s' i = prio_of s i" "t_base_priority (tasks s' ! i) = t_base_priority (tasks s ! i)"
    "t_inherited_waiters (tasks s' ! i) = t_inherited_waiters (tasks s ! i)"
    "t_waiting_mutex (tasks s' ! i) = t_waiting_mutex (tasks s ! i)"
    using n assms(3) i by (cases "i = x"; simp)+
qed (use assms in \<open>auto simp: changed_def\<close>)

lemma sync_changed:
  assumes inv: "sync_inv s Q S M" and own: "owned_but {} s' Q'" and rep: "waits_rep {} {} s' S' M"
    and ch: "changed x f s s'" and mm: "mutex_mem s' = mutex_mem s"
    and sm: "\<And>b. map_option sm_count (sem_mem s' b) = map_option sm_count (sem_mem s b)"
    and sub: "\<And>b st. sem_mem s b = Some st \<Longrightarrow> 0 < sm_count st \<Longrightarrow> S b = [] \<Longrightarrow> S' b = []"
    and f: "t_priority (f (tasks s ! x)) = t_priority (tasks s ! x)
      \<and> t_base_priority (f (tasks s ! x)) = t_base_priority (tasks s ! x)
      \<and> t_inherited_waiters (f (tasks s ! x)) = t_inherited_waiters (tasks s ! x)
      \<and> t_waiting_mutex (f (tasks s ! x)) = t_waiting_mutex (tasks s ! x)"
    and x: "grant_ok s' x"
  shows "sync_inv s' Q' S' M"
proof -
  note d = sync_invD [OF inv]
  have ps: "prio_same s s'" using changed_prio_same [OF ch mm] f by blast
  have cnt: "\<exists>st0. sem_mem s b = Some st0 \<and> sm_count st0 = sm_count st" if "sem_mem s' b = Some st" for b st
    using sm [of b] that by (cases "sem_mem s b") auto
  have dom: "sem_mem s b \<noteq> None \<Longrightarrow> sem_mem s' b \<noteq> None" for b using sm [of b] by (cases "sem_mem s' b") auto
  have "prop_inv {} {} s' Q' S' M" using prop_inv_same [OF sync_inv_prop [OF inv] ps own rep] .
  moreover have "settled_but {} s'" using prio_same_inv(5) [OF ps d(7)] d(8) by blast
  moreover have "objects_ok s' S' M"
    unfolding objects_ok_def
  proof (intro conjI allI impI)
    fix b st
    assume "sem_mem s' b = Some st"
    then obtain st0 where "sem_mem s b = Some st0" "sm_count st0 = sm_count st" using cnt by blast
    then show "0 \<le> sm_count st" "sm_count st \<le> I32_MAX" "0 < sm_count st \<Longrightarrow> S' b = []"
      using d(9) sub [of b st0] unfolding objects_ok_def by metis+
  qed (use d(9) mm in \<open>auto simp: objects_ok_def\<close>)
  moreover have "grant_ok s' j" if j: "j < TASK_SLOT_COUNT" for j
  proof (cases "j = x")
    case False
    from changed_fields [OF ch _ False] j d(7) obtain n where n: "tasks s' ! j = (tasks s ! j)\<lparr>t_next := n\<rparr>" by auto
    show ?thesis by (rule grant_ok_frame [OF d(10) [OF j]]) (use dom in \<open>auto simp: n mm\<close>)
  qed (use x in simp)
  ultimately show ?thesis by (simp add: sync_inv_def)
qed

lemma release_waiter:
  assumes inv: "sync_inv s Q S M" and st: "sem_mem s a = Some st" and q: "S a = x # xs"
  shows "\<exists>s' Q'. with_sem a (release_semaphore_locked now) s = Some (x, s') \<and> sync_inv s' Q' (S(a := xs)) M
    \<and> changed x (\<lambda>t. ready_mark now (granted_by a t)) s s' \<and> mutex_mem s' = mutex_mem s
    \<and> (\<exists>st'. sem_mem s' = (sem_mem s)(a \<mapsto> st') \<and> sm_count st' = sm_count st)"
proof -
  note d = sync_invD [OF inv] and r = waits_repD [OF sync_invD(2) [OF inv]]
  have next_commutes: "\<exists>m. ready_mark now (granted_by a (t\<lparr>t_next := n\<rparr>)) = (ready_mark now (granted_by a t))\<lparr>t_next := m\<rparr>"
    for t n by (rule exI [of _ n]) (simp add: ready_mark_def granted_by_def)
  define st' where "st' = st\<lparr>sm_wait_head := t_next (tasks s ! x),
      sm_wait_tail := if t_next (tasks s ! x) = NIL then NIL else sm_wait_tail st\<rparr>"
  note p = sem_pop [OF d(2,7) q st st'_def]
  have xa: "x \<in> set (S a)" using q by simp
  have x: "state_of s x = Blocked" "t_waiting_sem (tasks s ! x) = a" "a \<noteq> 0" "x \<noteq> NIL"
    using fam_repD(6,7) [OF r(1) xa] fam_member(3) [OF r(1) xa] slot_not_NIL [OF p(2)] by auto
  have xm: "t_waiting_mutex (tasks s ! x) = 0"
    using members_iff [OF r(2), of x] r(3) xa p(2) by (auto simp: members_def)
  let ?m = "(sem_mem s)(a \<mapsto> st')"
  let ?u = "mod_task x (\<lambda>t. t\<lparr>t_next := NIL\<rparr>) s"
  let ?s1 = "?u\<lparr>sem_mem := ?m\<rparr>"
  have xl: "x < length (tasks s)" using p(2) d(7) by simp
  have own1: "owned_but {} ?s1 Q"
    using owned_rewired [OF d(1) rewired_mod_task [of x "{x}"]] owned_butD(3) [OF d(1)] x(1) by (simp add: mem_commutes) force
  from wake_spec [OF own1 p(3) p(2), where f = "granted_by a" and now = now] obtain s2 Q2 R where
    2: "make_ready x now (mod_task x (granted_by a) ?s1) = Some s2" "owned_but {} s2 Q2" "waits_rep {} {} s2 (S(a := xs)) M"
      "relinked R (mod_task x (ready_mark now) (mod_task x (granted_by a) ?s1)) s2"
    using x xm xl by (auto simp: granted_by_def)
  let ?s3 = "mod_task x (\<lambda>t. t\<lparr>t_next := NIL, t_wake_at := 0, t_granted_sem := t_waiting_sem t, t_waiting_sem := 0, t_sem_granted := True\<rparr>) s"
  have "mod_task x (granted_by a) ?u = ?s3"
    unfolding mod_task_twice [OF xl] using x(2) xl by (simp add: mod_task_def granted_by_def)
  then have "make_ready x now (?s3\<lparr>sem_mem := ?m\<rparr>) = Some s2" using 2(1) by (simp add: mem_commutes)
  then obtain s3 where s3: "make_ready x now ?s3 = Some s3" "s2 = s3\<lparr>sem_mem := ?m\<rparr>" by (auto simp: make_ready_mem)
  let ?dg = "\<lambda>d. d\<lparr>d_semaphore_wakes := bump32 (d_semaphore_wakes d)\<rparr>"
  have mem3: "sem_mem s3 = sem_mem s" using relinked_sel [OF make_ready_relinks [OF s3(1)]] by simp
  have run: "with_sem a (release_semaphore_locked now) s = Some (x, diag ?dg s2)"
    using st p(1) x(4) xl s3 mem3 by (simp add: with_sem_def release_semaphore_locked_def Let_def st'_def diag_def)
  have ch: "changed x (\<lambda>t. ready_mark now (granted_by a t)) s s2"
    by (rule changedI [OF 2(4) xl]) (use xl next_commutes in \<open>auto simp: mod_task_at steady_def\<close>)
  have mem2: "mutex_mem s2 = mutex_mem s" "sem_mem s2 = ?m" using relinked_sel [OF 2(4)] by simp_all
  have "sync_inv s2 Q2 (S(a := xs)) M"
  proof (rule sync_changed [OF inv 2(2,3) ch])
    from changed_self [OF ch xl] obtain n where
      n: "tasks s2 ! x = (ready_mark now (granted_by a (tasks s ! x)))\<lparr>t_next := n\<rparr>" by blast
    have "t_granted_mutex (tasks s ! x) = 0" using d(10) [OF p(2)] x(2,3) by (auto simp: grant_ok_def Let_def)
    then show "grant_ok s2 x" using n xm x(3) by (simp add: grant_ok_def ready_mark_def granted_by_def mem2)
  qed (use mem2 st q in \<open>auto simp: ready_mark_def granted_by_def st'_def\<close>)
  then have "sync_inv (diag ?dg s2) Q2 (S(a := xs)) M" by (simp add: sync_inv_diag)
  then show ?thesis using run ch mem2 by (auto simp: st'_def changed_def steady_def)
qed

text \<open>A task that waits for a semaphore, of which something is known to hold nothing.\<close>

lemma sem_waiter:
  assumes inv: "sync_inv s Q S M" and x: "x < TASK_SLOT_COUNT" "t_waiting_sem (tasks s ! x) = a" "a \<noteq> 0"
  shows "x \<in> set (S a)" "state_of s x = Blocked" "t_waiting_mutex (tasks s ! x) = 0" "\<exists>st. sem_mem s a = Some st"
    "t_sem_granted (tasks s ! x) = False" "t_granted_sem (tasks s ! x) = 0" "t_granted_mutex (tasks s ! x) = 0"
proof -
  note d = sync_invD [OF inv] and r = waits_repD [OF sync_invD(2) [OF inv]]
  show xa: "x \<in> set (S a)" "state_of s x = Blocked" using fam_waiting(1,2) [OF r(1) x(1) _ x(2,3)] by auto
  show "t_waiting_mutex (tasks s ! x) = 0" using members_iff [OF r(2), of x] r(3) xa x(1) by (auto simp: members_def)
  show "\<exists>st. sem_mem s a = Some st" using fam_member(2) [OF r(1) xa(1)] by (auto simp: sem_view_def)
  show g: "t_sem_granted (tasks s ! x) = False" using d(10) [OF x(1)] x(2,3) by (auto simp: grant_ok_def Let_def)
  then show "t_granted_sem (tasks s ! x) = 0" "t_granted_mutex (tasks s ! x) = 0"
    using d(10) [OF x(1)] by (auto simp: grant_ok_def Let_def)
qed

definition abandoned :: "bool \<Rightarrow> tcb \<Rightarrow> tcb" where
  "abandoned c t = t\<lparr>t_waiting_sem := 0, t_sem_granted := False,
     t_granted_sem := if c then 0 else t_granted_sem t, t_wake_at := 0\<rparr>"

lemma sem_abandon:
  assumes inv: "sync_inv s Q S M" and x: "x < TASK_SLOT_COUNT" "t_waiting_sem (tasks s ! x) = a" "a \<noteq> 0"
  shows "\<exists>s1 s2 Q'. on_sem a (\<lambda>st s. remove_waiter st x s) s = Some s1 \<and> length (tasks s1) = TASK_SLOT_COUNT
    \<and> state_of s1 x = Blocked \<and> make_ready x now (mod_task x (abandoned c) s1) = Some s2
    \<and> sync_inv s2 Q' (S(a := remove1 x (S a))) M \<and> changed x (\<lambda>t. ready_mark now (abandoned c t)) s s2
    \<and> (\<forall>b. map_option sm_count (sem_mem s2 b) = map_option sm_count (sem_mem s b)) \<and> mutex_mem s2 = mutex_mem s"
proof -
  note d = sync_invD [OF inv] and w = sem_waiter [OF inv x]
  from sem_leave [OF d(2,7) w(1)] obtain s1 where
    1: "on_sem a (\<lambda>st s. remove_waiter st x s) s = Some s1" "sem_touched a (set (S a)) s s1"
      "waits_rep {x} {} s1 (S(a := remove1 x (S a))) M" by auto
  have "queued Q \<inter> set (S a) = {}" using queued_not_waiting [OF d(1,2)] by (auto simp: members_def)
  from owned_touched(1) [OF d(1) this 1(2)] have own1: "owned_but {} s1 Q" .
  from 1(2) obtain s0 st st' where t: "rewired (set (S a)) s s0" "sem_mem s a = Some st" "sm_count st' = sm_count st"
    "s1 = s0\<lparr>sem_mem := (sem_mem s)(a \<mapsto> st')\<rparr>" by (auto simp: sem_touched_def)
  note re = rewired_relinked [OF t(1)]
  have l1: "length (tasks s1) = TASK_SLOT_COUNT" using owned_butD(8) [OF own1] .
  have xl: "x < length (tasks s)" using x(1) d(7) by simp
  obtain n1 where n1: "tasks s1 ! x = (tasks s ! x)\<lparr>t_next := n1\<rparr>" using relinked_task(1) [OF re xl] t(4) by auto
  from wake_spec [OF own1 1(3) x(1), where f = "abandoned c" and now = now] n1 w obtain s2 Q2 R where
    2: "make_ready x now (mod_task x (abandoned c) s1) = Some s2" "owned_but {} s2 Q2" "waits_rep {} {} s2 (S(a := remove1 x (S a))) M"
      "relinked R (mod_task x (ready_mark now) (mod_task x (abandoned c) s1)) s2" by (auto simp: abandoned_def)
  have nc: "\<exists>m. ready_mark now (abandoned c (t\<lparr>t_next := n\<rparr>)) = (ready_mark now (abandoned c t))\<lparr>t_next := m\<rparr>"
    for t n by (rule exI [of _ n]) (simp add: ready_mark_def abandoned_def)
  have ch: "changed x (\<lambda>t. ready_mark now (abandoned c t)) s s2"
    by (rule changedI [OF 2(4) xl _ _ _ _ _ nc]) (use t(4) relinked_sel [OF re] relinked_task(1) [OF re] in \<open>simp_all add: steady_def\<close>)
  have mem: "mutex_mem s2 = mutex_mem s" "map_option sm_count (sem_mem s2 b) = map_option sm_count (sem_mem s b)" for b
    using relinked_sel [OF 2(4)] relinked_sel [OF re] t by simp_all
  have "sync_inv s2 Q2 (S(a := remove1 x (S a))) M"
  proof (rule sync_changed [OF inv 2(2,3) ch mem])
    from changed_self [OF ch xl] obtain n where
      n: "tasks s2 ! x = (ready_mark now (abandoned c (tasks s ! x)))\<lparr>t_next := n\<rparr>" by blast
    then show "grant_ok s2 x" using w by (simp add: grant_ok_def ready_mark_def abandoned_def)
  qed (auto simp: ready_mark_def abandoned_def)
  with 1(1) l1 n1 w(2) 2(1) ch mem show ?thesis by auto
qed

lemma timeout_semaphore_spec:
  assumes inv: "sync_inv s Q S M" and x: "x < TASK_SLOT_COUNT"
  shows "if state_of s x = Blocked \<and> t_waiting_sem (tasks s ! x) \<noteq> 0 \<and> t_wake_at (tasks s ! x) \<noteq> 0 \<and> t_wake_at (tasks s ! x) \<le> now
    then \<exists>s' Q' S'. timeout_semaphore_waiter_locked x now s = Some (True, s') \<and> sync_inv s' Q' S' M
      \<and> changed x (\<lambda>t. ready_mark now (abandoned True t)) s s' \<and> mutex_mem s' = mutex_mem s
      \<and> (\<forall>b. map_option sm_count (sem_mem s' b) = map_option sm_count (sem_mem s b))
    else timeout_semaphore_waiter_locked x now s = Some (False, s)"
proof -
  note d = sync_invD [OF inv]
  have f: "abandoned True = (\<lambda>t. t\<lparr>t_waiting_sem := 0, t_sem_granted := False, t_granted_sem := 0, t_wake_at := 0\<rparr>)"
    by (simp add: abandoned_def fun_eq_iff)
  show ?thesis
  proof (cases "state_of s x = Blocked \<and> t_waiting_sem (tasks s ! x) \<noteq> 0 \<and> t_wake_at (tasks s ! x) \<noteq> 0 \<and> t_wake_at (tasks s ! x) \<le> now")
    case True
    from sem_abandon [OF inv x refl, of now True] True obtain s1 s2 Q' where
      1: "on_sem (t_waiting_sem (tasks s ! x)) (\<lambda>st s. remove_waiter st x s) s = Some s1" "length (tasks s1) = TASK_SLOT_COUNT"
        "make_ready x now (mod_task x (abandoned True) s1) = Some s2"
        "sync_inv s2 Q' (S(t_waiting_sem (tasks s ! x) := remove1 x (S (t_waiting_sem (tasks s ! x))))) M"
        "changed x (\<lambda>t. ready_mark now (abandoned True t)) s s2"
        "\<forall>b. map_option sm_count (sem_mem s2 b) = map_option sm_count (sem_mem s b)" "mutex_mem s2 = mutex_mem s" by blast
    have "timeout_semaphore_waiter_locked x now s = Some (True, s2)"
      using True x d(7) 1(1-3) by (simp add: timeout_semaphore_waiter_locked_def f)
    with True 1(4-7) show ?thesis by auto
  next
    case False
    then show ?thesis using x d(7) by (auto simp: timeout_semaphore_waiter_locked_def)
  qed
qed

end
