(* ===== verification/Kernel_Invariant.thy ===== *)
theory Kernel_Invariant
  imports Sync_Ops
begin

text \<open>
  The invariant of the whole kernel, from the ready queue to the chains of owners, and its
  preservation by the critical sections of the runtime and by the trap that switches tasks.
\<close>

subsection \<open>What scheduling leaves alone\<close>

text \<open>Scheduling never touches what a task waits for, and never relinks a blocked task.\<close>

definition kept :: "tcb \<Rightarrow> tcb \<Rightarrow> bool" where
  "kept t t' \<longleftrightarrow> t_priority t' = t_priority t \<and> t_base_priority t' = t_base_priority t
     \<and> t_inherited_waiters t' = t_inherited_waiters t \<and> t_waiting_sem t' = t_waiting_sem t
     \<and> t_waiting_mutex t' = t_waiting_mutex t \<and> t_sem_granted t' = t_sem_granted t
     \<and> t_granted_sem t' = t_granted_sem t \<and> t_granted_mutex t' = t_granted_mutex t
     \<and> (t_state t = Blocked \<longrightarrow> t_state t' = Blocked \<and> t_next t' = t_next t)
     \<and> (t_state t = Ready \<or> t_state t = Running \<longrightarrow> t_state t' = Ready \<or> t_state t' = Running)"

definition calm :: "sched \<Rightarrow> sched \<Rightarrow> bool" where
  "calm s s' \<longleftrightarrow> sem_mem s' = sem_mem s \<and> mutex_mem s' = mutex_mem s \<and> length (tasks s') = length (tasks s)
     \<and> (\<forall>i < length (tasks s). kept (tasks s ! i) (tasks s' ! i))"

lemma kept_refl [simp]: "kept t t"
  by (simp add: kept_def)

lemma kept_trans: "kept t t1 \<Longrightarrow> kept t1 t2 \<Longrightarrow> kept t t2"
  by (auto simp: kept_def)

lemma calm_refl [simp]: "calm s s"
  by (simp add: calm_def)

lemma calm_trans: "calm s s1 \<Longrightarrow> calm s1 s2 \<Longrightarrow> calm s s2"
  by (auto simp: calm_def intro: kept_trans)

lemma calm_fields [simp]:
  "calm s (diag f s') = calm s s'" "calm s (s'\<lparr>current := n\<rparr>) = calm s s'"
  "calm s (s'\<lparr>pending_switch := p\<rparr>) = calm s s'" "calm s (s'\<lparr>time_slice_pending := b\<rparr>) = calm s s'"
  "calm s (s'\<lparr>time_slice_deadline := m\<rparr>) = calm s s'" "calm s (s'\<lparr>next_switch_sequence := m\<rparr>) = calm s s'"
  "calm s (s'\<lparr>last_consumed_switch_sequence := m\<rparr>) = calm s s'"
  by (simp_all add: calm_def)

lemma calm_mod_task: "calm s s' \<Longrightarrow> kept (tasks s' ! i) (f (tasks s' ! i)) \<Longrightarrow> calm s (mod_task i f s')"
proof (erule calm_trans)
  assume k: "kept (tasks s' ! i) (f (tasks s' ! i))"
  have "kept (tasks s' ! j) (tasks (mod_task i f s') ! j)" if "j < length (tasks s')" for j
    using k that by (cases "j = i") simp_all
  then show "calm s' (mod_task i f s')" by (simp add: calm_def)
qed

lemma calm_upd_task: "upd_task i f s = Some s' \<Longrightarrow> (\<And>t. kept t (f t)) \<Longrightarrow> calm s s'"
  by (auto simp: upd_task_def calm_mod_task split: if_splits)

lemma calm_relinked:
  assumes "relinked R s s'" "\<And>j. j \<in> R \<Longrightarrow> state_of s j \<noteq> Blocked"
  shows "calm s s'"
  unfolding calm_def
proof (intro conjI allI impI)
  fix i
  assume i: "i < length (tasks s)"
  show "kept (tasks s ! i) (tasks s' ! i)"
  proof (cases "i \<in> R")
    case True
    with assms(2) relinked_task(1) [OF assms(1) i] show ?thesis by (auto simp: kept_def)
  next
    case False
    with relinked_task(2) [OF assms(1) i] show ?thesis by simp
  qed
qed (use relinked_sel [OF assms(1)] in simp_all)

lemma calm_readied:
  assumes "readied X now s s'" "\<And>j. j \<in> X \<Longrightarrow> state_of s j \<noteq> Blocked"
  shows "calm s s'"
  unfolding calm_def
proof (intro conjI allI impI)
  fix i
  assume i: "i < length (tasks s)"
  show "kept (tasks s ! i) (tasks s' ! i)"
  proof (cases "i \<notin> X \<and> state_of s i = Blocked")
    case True
    with readied_blocked [OF assms(1) i] show ?thesis by simp
  next
    case False
    with assms(2) readied_task [OF assms(1) i] show ?thesis by (auto simp: kept_def ready_mark_def split: if_splits)
  qed
qed (use readied_sel [OF assms(1)] in simp_all)

lemma calm_sync:
  assumes inv: "sync_inv s Q S M" and c: "calm s s'" and own: "owned_but {} s' Q'"
  shows "sync_inv s' Q' S M"
proof -
  note d = sync_invD [OF inv]
  have mem: "sem_mem s' = sem_mem s" "mutex_mem s' = mutex_mem s" using c by (simp_all add: calm_def)
  have k: "kept (tasks s ! i) (tasks s' ! i)" if "i < TASK_SLOT_COUNT" for i using c d(7) that by (simp add: calm_def)
  have ps: "prio_same s s'" using c by (simp add: calm_def prio_same_def kept_def)
  have w: "waits_rep {} {} s' S M"
  proof (rule waits_frame [OF d(2) mem])
    fix i
    assume i: "i \<in> waiters S M"
    then have "i < TASK_SLOT_COUNT" using waiters_iff [OF d(2)] by blast
    from k [OF this] waiters_blocked [OF d(2) i]
    show "links s' i = links s i \<and> state_of s' i = Blocked
        \<and> t_waiting_sem (tasks s' ! i) = t_waiting_sem (tasks s ! i)
        \<and> t_waiting_mutex (tasks s' ! i) = t_waiting_mutex (tasks s ! i)" by (simp add: kept_def links_def)
  next
    have "prio_of s' i = prio_of s i" if "i \<in> waiters S M" for i
      using k [of i] waiters_iff [OF d(2), of i] that by (simp add: kept_def)
    then show "\<And>i. i \<in> members S \<Longrightarrow> prio_of s' i = prio_of s i"
      "\<And>i. i \<in> members M \<Longrightarrow> i \<notin> {} \<Longrightarrow> i \<notin> {} \<and> prio_of s' i = prio_of s i" by blast+
  next
    fix i
    assume "i < TASK_SLOT_COUNT" "i \<notin> {}" "i \<notin> waiters S M"
    with k [of i] waiters_iff [OF d(2), of i]
    show "t_waiting_sem (tasks s' ! i) = 0 \<and> t_waiting_mutex (tasks s' ! i) = 0" by (simp add: kept_def)
  qed simp
  have "prop_inv {} {} s' Q' S M" using prop_inv_same [OF sync_inv_prop [OF inv] ps own w] .
  moreover have "settled_but {} s'" using prio_same_inv(5) [OF ps d(7)] d(8) by blast
  moreover have "objects_ok s' S M" using d(9) by (simp add: objects_ok_def mem)
  moreover have "grant_ok s' i" if "i < TASK_SLOT_COUNT" for i
    by (rule grant_ok_frame [OF d(10) [OF that]]) (use k [OF that] in \<open>auto simp: kept_def mem\<close>)
  ultimately show ?thesis by (simp add: sync_inv_def)
qed

subsection \<open>The trap\<close>

lemma calm_account_switch: "account_switch previous nxt now s = Some s' \<Longrightarrow> calm s s'"
proof -
  assume "account_switch previous nxt now s = Some s'"
  then obtain s1 b s2 s3 s4 where
    "upd_task previous (\<lambda>t. t\<lparr>t_budget := budget_on_switch_out now (t_budget t)\<rparr>) s = Some s1"
    "upd_task nxt (\<lambda>t. t\<lparr>t_budget := b\<rparr>) s1 = Some s2"
    "upd_task previous (\<lambda>t. t\<lparr>t_metrics := metrics_on_switch_out now (t_metrics t)\<rparr>) s2 = Some s3"
    "upd_task nxt (\<lambda>t. t\<lparr>t_metrics := metrics_on_dispatch now (t_metrics t)\<rparr>) s3 = Some s4"
    "s' = s4\<lparr>time_slice_deadline := 0\<rparr>"
    by (auto simp: account_switch_def bind_eq_Some)
  moreover from this(1-4) have "calm s s1" "calm s1 s2" "calm s2 s3" "calm s3 s4"
    by (auto elim!: calm_upd_task simp: kept_def)
  ultimately show ?thesis using calm_trans by (metis calm_fields(5))
qed

lemma account_switch_states:
  assumes "account_switch previous nxt now s = Some s'" "i < length (tasks s)"
  shows "state_of s' i = state_of s i"
proof -
  have st: "state_of s' i = state_of s i" if "upd_task j f s = Some s'" "\<And>t. t_state (f t) = t_state t" for j f s s'
    using that by (cases "i = j") (auto simp: upd_task_def split: if_splits)
  from assms(1) show ?thesis
    by (auto simp: account_switch_def bind_eq_Some dest!: st)
qed

lemma calm_trap_switch:
  assumes "trap_switch previous nxt frame sliced cp now s = Some (f, s')" "state_of s nxt \<noteq> Blocked"
  shows "calm s s'"
proof -
  from assms(1) obtain s1 s2 s3 where
    1: "account_switch previous nxt now s = Some s1"
    and 2: "(if t_state (tasks s1 ! previous) \<noteq> Free
        then upd_task previous (\<lambda>t. t\<lparr>t_saved_frame := frame\<rparr>) s1 else Some s1) = Some s2"
    and 3: "upd_task nxt (\<lambda>t. t\<lparr>t_saved_frame := 0, t_state := Running,
        t_resume_generation := t_resume_generation t + 1\<rparr>) s2 = Some s3"
    and 4: "\<And>s0. calm s0 s' = calm s0 s3"
    by (auto simp: trap_switch_def bind_eq_Some Let_def task_at_def split: if_splits)
  have n: "nxt < length (tasks s2)" "s3 = mod_task nxt (\<lambda>t. t\<lparr>t_saved_frame := 0, t_state := Running,
      t_resume_generation := t_resume_generation t + 1\<rparr>) s2" using 3 by (auto simp: upd_task_def split: if_splits)
  have c1: "calm s s1" using calm_account_switch [OF 1] .
  have c2: "calm s1 s2" using 2 by (auto elim!: calm_upd_task simp: kept_def split: if_splits)
  have l: "length (tasks s1) = length (tasks s)" "length (tasks s2) = length (tasks s)" using c1 c2 by (simp_all add: calm_def)
  have "state_of s2 nxt = state_of s1 nxt"
    using 2 n(1) l by (cases "nxt = previous") (auto simp: upd_task_def split: if_splits)
  with account_switch_states [OF 1] n(1) l assms(2) have "state_of s2 nxt \<noteq> Blocked" by simp
  then have "calm s2 s3" unfolding n(2) by (intro calm_mod_task calm_refl) (simp add: kept_def)
  then show ?thesis unfolding 4 using c1 c2 calm_trans by blast
qed

lemma calm_trap:
  assumes inv: "trap_inv s Q" and run: "schedule_from_trap frame 0 now s = Some (f, s')"
    and idle: "state_of s IDLE_SLOT \<noteq> Blocked"
  shows "calm s s'"
proof (cases "started s")
  case False
  with run show ?thesis by (simp add: schedule_from_trap_def)
next
  case True
  have own: "owned_but {} s Q" using inv by (simp add: trap_inv_def)
  note d = owned_butD [OF own]
  let ?c = "current s"
  from run True d(8,9) obtain target s1 where
    tg: "(if pending_switch s \<noteq> None then consume_pending_switch s
         else if state_of s ?c \<noteq> Running then do { (nxt, s) \<leftarrow> ready_pop_or_idle s; Some (Some (?c, nxt), s) }
         else take_reschedule_target (time_slice_pending s) now s) = Some (target, s1)"
    and sw: "(case target of None \<Rightarrow> Some (frame, s1)
       | Some (previous, n) \<Rightarrow> trap_switch previous n frame (time_slice_pending s) (prio_of s ?c) now s1) = Some (f, s')"
    by (auto simp: schedule_from_trap_def Let_def bind_eq_Some)
  have finish: ?thesis if "calm s s1" "\<And>p n. target = Some (p, n) \<Longrightarrow> state_of s1 n \<noteq> Blocked"
    using sw that calm_trap_switch calm_trans by (auto split: option.splits)
  show ?thesis
  proof (cases "pending_switch s")
    case (Some p)
    have "state_of s (ref_slot (ps_target p)) = Ready" using d(6) [OF Some] by (simp add: pending_ok_def)
    moreover from consume_pending_spec [OF inv Some] tg Some have
      "target = Some (?c, ref_slot (ps_target p))" "tasks s1 = tasks s" by auto
    moreover have "calm s s1" using tg Some by (auto simp: consume_pending_switch_def bind_eq_Some Let_def split: if_splits)
    ultimately show ?thesis by (intro finish) auto
  next
    case None
    show ?thesis
    proof (cases "state_of s ?c = Running")
      case False
      from pop_or_idle_spec [OF own None] obtain n s2 where
        n: "ready_pop_or_idle s = Some (n, s2)" "relinked {n} s s2" "n \<noteq> IDLE_SLOT \<longrightarrow> state_of s n = Ready" "n < TASK_SLOT_COUNT"
        by blast
      have "state_of s n \<noteq> Blocked" using n(3) idle by (cases "n = IDLE_SLOT") auto
      with calm_relinked [OF n(2)] relinked_fields(4) [OF n(2), of n] n(1,4) tg None False d(8) show ?thesis
        by (intro finish) auto
    next
      case running: True
      show ?thesis
      proof (cases "wants_switch (time_slice_pending s) s Q")
        case False
        with take_reschedule_target_spec(1) [OF own None] tg None running show ?thesis by (intro finish) auto
      next
        case ws: True
        from take_reschedule_target_spec(2) [OF own None ws] obtain p s2 where
          p: "first_bucket Q = Some p" "take_reschedule_target (time_slice_pending s) now s = Some (Some (?c, hd (Q p)), s2)"
            "readied {?c} now s s2" by blast
        note t = owned_pop_target [OF own p(1)]
        have "state_of s2 (hd (Q p)) = Ready" using readied_fields(1) [OF p(3)] t(1,2) d(8) by simp
        with calm_readied [OF p(3)] running p(2) tg None show ?thesis by (intro finish) auto
      qed
    qed
  qed
qed

lemma steady_trap_switch: "trap_switch previous nxt frame sliced cp now s = Some (f, s') \<Longrightarrow> steady s s'"
  by (auto simp: trap_switch_def account_switch_def bind_eq_Some upd_task_def Let_def steady_def split: if_splits)

lemma trap_tickets:
  assumes inv: "trap_inv s Q" and st: "started s" and run: "schedule_from_trap frame 0 now s = Some (f, s')"
  shows "started s' \<and> next_switch_sequence s' = next_switch_sequence s
    \<and> last_consumed_switch_sequence s' = (case pending_switch s of Some p \<Rightarrow> ps_sequence p | None \<Rightarrow> last_consumed_switch_sequence s)"
proof -
  have own: "owned_but {} s Q" using inv by (simp add: trap_inv_def)
  note d = owned_butD [OF own]
  let ?c = "current s"
  from run st d(8,9) obtain target s1 where
    tg: "(if pending_switch s \<noteq> None then consume_pending_switch s
         else if state_of s ?c \<noteq> Running then do { (nxt, s) \<leftarrow> ready_pop_or_idle s; Some (Some (?c, nxt), s) }
         else take_reschedule_target (time_slice_pending s) now s) = Some (target, s1)"
    and sw: "(case target of None \<Rightarrow> Some (frame, s1)
       | Some (previous, n) \<Rightarrow> trap_switch previous n frame (time_slice_pending s) (prio_of s ?c) now s1) = Some (f, s')"
    by (auto simp: schedule_from_trap_def Let_def bind_eq_Some)
  have s': "steady s1 s'" using sw steady_trap_switch by (auto simp: steady_def split: option.splits)
  show ?thesis
  proof (cases "pending_switch s")
    case (Some p)
    then have "started s1 = started s \<and> next_switch_sequence s1 = next_switch_sequence s \<and> last_consumed_switch_sequence s1 = ps_sequence p"
      using tg d(6) [OF Some] inv by (auto simp: consume_pending_switch_def Let_def trap_inv_def ticket_ok_def pending_ok_def bind_eq_Some split: if_splits)
    with s' st Some show ?thesis by (simp add: steady_def)
  next
    case None
    have "steady s s1"
    proof (cases "state_of s ?c = Running")
      case False
      from pop_or_idle_spec [OF own None] obtain n s2 where "ready_pop_or_idle s = Some (n, s2)" "relinked {n} s s2" by blast
      with tg None False relinked_sel [of "{n}" s s2] show ?thesis by (auto simp: steady_def)
    next
      case True
      show ?thesis
      proof (cases "wants_switch (time_slice_pending s) s Q")
        case False
        with take_reschedule_target_spec(1) [OF own None] tg None True show ?thesis by (auto simp: steady_def)
      next
        case ws: True
        from take_reschedule_target_spec(2) [OF own None ws] obtain p s2 where
          "take_reschedule_target (time_slice_pending s) now s = Some (Some (?c, hd (Q p)), s2)" "readied {?c} now s s2" by blast
        with readied_sel [of "{?c}" now s s2] tg None True show ?thesis by (auto simp: steady_def)
      qed
    qed
    with s' st None show ?thesis by (simp add: steady_def)
  qed
qed

subsection \<open>The invariant\<close>

definition kernel_inv :: "sched \<Rightarrow> (nat \<Rightarrow> nat list) \<Rightarrow> (nat \<Rightarrow> nat list) \<Rightarrow> (nat \<Rightarrow> nat list) \<Rightarrow> bool" where
  "kernel_inv s Q S M \<longleftrightarrow> sync_inv s Q S M \<and> trap_inv s Q \<and> started s
     \<and> (state_of s IDLE_SLOT = Ready \<or> state_of s IDLE_SLOT = Running)
     \<and> last_consumed_switch_sequence s \<le> next_switch_sequence s
     \<and> (\<forall>p. pending_switch s = Some p \<longrightarrow> ps_sequence p \<le> next_switch_sequence s)"

lemma kernel_invD:
  assumes "kernel_inv s Q S M"
  shows "sync_inv s Q S M" "trap_inv s Q" "started s" "state_of s IDLE_SLOT = Ready \<or> state_of s IDLE_SLOT = Running"
    "last_consumed_switch_sequence s \<le> next_switch_sequence s"
    "\<And>p. pending_switch s = Some p \<Longrightarrow> ps_sequence p \<le> next_switch_sequence s"
    "length (tasks s) = TASK_SLOT_COUNT" "owned_but {} s Q" "current s < TASK_SLOT_COUNT"
proof -
  show i: "sync_inv s Q S M" "trap_inv s Q" "started s" "state_of s IDLE_SLOT = Ready \<or> state_of s IDLE_SLOT = Running"
    "last_consumed_switch_sequence s \<le> next_switch_sequence s"
    "\<And>p. pending_switch s = Some p \<Longrightarrow> ps_sequence p \<le> next_switch_sequence s"
    using assms by (auto simp: kernel_inv_def)
  show "length (tasks s) = TASK_SLOT_COUNT" "owned_but {} s Q" using sync_invD(1,7) [OF i(1)] by simp_all
  then show "current s < TASK_SLOT_COUNT" using owned_butD(9) by blast
qed

lemma kernel_trap:
  assumes inv: "kernel_inv s Q S M" and now: "now \<le> U64_MAX" "frame \<noteq> 0"
  shows "\<exists>f s' Q'. schedule_from_trap frame 0 now s = Some (f, s') \<and> f \<noteq> 0 \<and> kernel_inv s' Q' S M
    \<and> pending_switch s' = None \<and> current s' = next_task s Q \<and> state_of s' (current s') = Running"
proof -
  note k = kernel_invD [OF inv]
  from trap_dispatch_spec [OF k(2,3) now] obtain f s' Q' where
    r: "schedule_from_trap frame 0 now s = Some (f, s')" "f \<noteq> 0" "trap_inv s' Q'" "pending_switch s' = None"
      "current s' = next_task s Q" "state_of s' (current s') = Running" by blast
  have c: "calm s s'" by (rule calm_trap [OF k(2) r(1)]) (use k(4) in auto)
  have "sync_inv s' Q' S M" using calm_sync [OF k(1) c] r(3) by (simp add: trap_inv_def)
  moreover have "kept (tasks s ! IDLE_SLOT) (tasks s' ! IDLE_SLOT)"
    using c k(7) by (simp add: calm_def TASK_SLOT_COUNT_eq IDLE_SLOT_def)
  then have "state_of s' IDLE_SLOT = Ready \<or> state_of s' IDLE_SLOT = Running" using k(4) by (simp add: kept_def)
  moreover have "started s' \<and> last_consumed_switch_sequence s' \<le> next_switch_sequence s'"
    using trap_tickets [OF k(2,3) r(1)] k(5,6) by (auto split: option.splits)
  ultimately have "kernel_inv s' Q' S M" using r(3,4) by (simp add: kernel_inv_def)
  with r show ?thesis by blast
qed

subsection \<open>Leaving the processor\<close>

lemma best_ready_state:
  assumes "owned_but {} s Q"
  shows "best_ready Q = IDLE_SLOT \<or> state_of s (best_ready Q) = Ready"
  using owned_pop_target(2) [OF assms] by (auto simp: best_ready_def split: option.split)

text \<open>The current task has just marked itself as not running; nothing else changed since.\<close>

definition leaving :: "sched \<Rightarrow> (nat \<Rightarrow> nat list) \<Rightarrow> (nat \<Rightarrow> nat list) \<Rightarrow> (nat \<Rightarrow> nat list) \<Rightarrow> bool" where
  "leaving s Q S M \<longleftrightarrow> kernel_inv s Q S M \<and> pending_switch s = None \<and> state_of s (current s) \<noteq> Running
     \<and> current s \<noteq> IDLE_SLOT \<and> next_switch_sequence s < U64_MAX"

lemma leave_spec:
  assumes lv: "leaving s Q S M" and g: "t_resume_generation (tasks s ! current s) = g"
  shows "\<exists>intent s' Q'. prepare_switch_away_locked True (current s) g s = Some (Some intent, s') \<and> kernel_inv s' Q' S M
    \<and> pending_target s' = Some (best_ready Q) \<and> current s' = current s \<and> calm s s'
    \<and> ref_slot (si_target intent) = best_ready Q"
proof -
  from lv have inv: "kernel_inv s Q S M" and np: "pending_switch s = None" and nr: "state_of s (current s) \<noteq> Running"
    and ni: "current s \<noteq> IDLE_SLOT" and sq: "next_switch_sequence s < U64_MAX" by (simp_all add: leaving_def)
  note k = kernel_invD [OF inv]
  have il: "IDLE_SLOT < TASK_SLOT_COUNT" by (simp add: TASK_SLOT_COUNT_eq IDLE_SLOT_def)
  have idle: "state_of s IDLE_SLOT = Ready" using k(4) owned_butD(7) [OF k(8) il] ni by auto
  have away: "still_away (current s) g s" using nr g by (simp add: still_away_def)
  from switch_away_spec [OF k(2) np idle sq k(5) away] obtain intent s' Q' s1 where
    r: "prepare_switch_away_decision (current s) g True s = Some (Some intent, s')" "trap_inv s' Q'"
      "pending_target s' = Some (best_ready Q)" "ref_slot (si_target intent) = best_ready Q" "current s' = current s" "started s' = started s"
      "relinked {best_ready Q} s s1" "tasks s' = tasks s1" "sem_mem s' = sem_mem s" "mutex_mem s' = mutex_mem s"
      "next_switch_sequence s' = next_switch_sequence s + 1" "last_consumed_switch_sequence s' = last_consumed_switch_sequence s"
      "\<forall>p. pending_switch s' = Some p \<longrightarrow> ps_sequence p = next_switch_sequence s + 1"
    by auto
  have "state_of s (best_ready Q) \<noteq> Blocked" using best_ready_state [OF k(8)] idle by auto
  then have "calm s s1" by (intro calm_relinked [OF r(7)]) simp
  then have c: "calm s s'" using r(8-10) relinked_sel [OF r(7)] by (simp add: calm_def)
  have "sync_inv s' Q' S M" using calm_sync [OF k(1) c] r(2) by (simp add: trap_inv_def)
  moreover have "kept (tasks s ! IDLE_SLOT) (tasks s' ! IDLE_SLOT)" using c k(7) il by (simp add: calm_def)
  then have "state_of s' IDLE_SLOT = Ready \<or> state_of s' IDLE_SLOT = Running" using k(4) by (simp add: kept_def)
  ultimately have "kernel_inv s' Q' S M" using r k(3,5) by (auto simp: kernel_inv_def)
  with r c show ?thesis by (auto simp: prepare_switch_away_locked_def)
qed

subsection \<open>Operations that do not switch\<close>

text \<open>What the trap needs of a task is unchanged.\<close>

definition trap_kept :: "tcb \<Rightarrow> tcb \<Rightarrow> bool" where
  "trap_kept t t' \<longleftrightarrow> (budget_inv (t_budget t) \<longrightarrow> budget_inv (t_budget t')) \<and> t_saved_frame t' = t_saved_frame t
     \<and> t_identity_generation t' = t_identity_generation t \<and> (t_state t' = Free \<longleftrightarrow> t_state t = Free)"

lemma kernel_transfer:
  assumes inv: "kernel_inv s Q S M" and sy: "sync_inv s' Q' S' M'" and stp: "steady s s'"
    and cp: "current s' = current s" "pending_switch s' = pending_switch s"
    and k: "\<And>i. i < TASK_SLOT_COUNT \<Longrightarrow> trap_kept (tasks s ! i) (tasks s' ! i)"
    and idle: "state_of s' IDLE_SLOT = Ready \<or> state_of s' IDLE_SLOT = Running"
  shows "kernel_inv s' Q' S' M'"
proof -
  note d = kernel_invD [OF inv]
  have len: "length (tasks s') = TASK_SLOT_COUNT" using sync_invD(7) [OF sy] .
  have t: "budgets_ok s" "frames_ok s" "ticket_ok s" using d(2) by (simp_all add: trap_inv_def)
  have "budgets_ok s'" using t(1) k by (simp add: budgets_ok_def trap_kept_def)
  moreover have "frames_ok s'" using t(2) k cp(1) idle by (auto simp: frames_ok_def trap_kept_def)
  moreover have "ticket_ok s'"
    using t(3) k cp stp len d(7) by (auto simp: ticket_ok_def steady_def task_ref_is_current_iff trap_kept_def)
  ultimately have "trap_inv s' Q'" using sync_invD(1) [OF sy] by (simp add: trap_inv_def)
  then show ?thesis using sy stp idle d(3,5,6) cp(2) by (simp add: kernel_inv_def steady_def)
qed

lemma kernel_changed:
  assumes inv: "kernel_inv s Q S M" and sy: "sync_inv s' Q' S' M'" and ch: "changed x f s s'"
    and x: "x < TASK_SLOT_COUNT" "trap_kept (tasks s ! x) (f (tasks s ! x))"
    and idle: "x = IDLE_SLOT \<Longrightarrow> t_state (f (tasks s ! x)) = Ready \<or> t_state (f (tasks s ! x)) = Running"
  shows "kernel_inv s' Q' S' M'"
proof (rule kernel_transfer [OF inv sy])
  note d = kernel_invD [OF inv]
  have t: "\<exists>n. tasks s' ! i = (if i = x then f (tasks s ! x) else tasks s ! i)\<lparr>t_next := n\<rparr>" if "i < TASK_SLOT_COUNT" for i
    using ch d(7) that by (simp add: changed_def)
  show "trap_kept (tasks s ! i) (tasks s' ! i)" if "i < TASK_SLOT_COUNT" for i
    using t [OF that] x(2) by (auto simp: trap_kept_def split: if_splits)
  have "IDLE_SLOT < TASK_SLOT_COUNT" by (simp add: TASK_SLOT_COUNT_eq IDLE_SLOT_def)
  from t [OF this] show "state_of s' IDLE_SLOT = Ready \<or> state_of s' IDLE_SLOT = Running"
    using d(4) idle by (auto split: if_splits)
qed (use ch in \<open>auto simp: changed_def\<close>)

end
