(* ===== verification/Semaphores.thy ===== *)
theory Semaphores
  imports Kernel_Invariant
begin

text \<open>
  Counting semaphores under the invariant of the kernel. A permit of a semaphore is either counted
  in the semaphore or is the unconsumed grant of a task that was woken by it; \<open>permits\<close> is their
  number. Giving a permit adds one, taking one or consuming a grant removes one, and nothing else
  (parking, timing out, being cancelled, switching tasks) changes it.
\<close>

subsection \<open>Permits\<close>

definition grants :: "sched \<Rightarrow> nat \<Rightarrow> nat set" where
  "grants s a = {i. i < TASK_SLOT_COUNT \<and> t_granted_sem (tasks s ! i) = a}"

definition permits :: "sched \<Rightarrow> nat \<Rightarrow> int" where
  "permits s a = (case sem_mem s a of None \<Rightarrow> 0 | Some st \<Rightarrow> sm_count st) + int (card (grants s a))"

lemma grants_code [code]: "grants s a = set (filter (\<lambda>i. t_granted_sem (tasks s ! i) = a) [0..<TASK_SLOT_COUNT])"
  by (auto simp: grants_def)

lemma grants_finite [simp]: "finite (grants s a)"
  by (simp add: grants_def)

definition counts_same :: "sched \<Rightarrow> sched \<Rightarrow> bool" where
  "counts_same s s' \<longleftrightarrow> (\<forall>b. map_option sm_count (sem_mem s' b) = map_option sm_count (sem_mem s b))"

lemma counts_sameD:
  assumes "counts_same s s'"
  shows "(case sem_mem s' b of None \<Rightarrow> 0 | Some st \<Rightarrow> sm_count st) = (case sem_mem s b of None \<Rightarrow> 0 | Some st \<Rightarrow> sm_count st)"
proof -
  have "map_option sm_count (sem_mem s' b) = map_option sm_count (sem_mem s b)" using assms by (simp add: counts_same_def)
  then show ?thesis by (cases "sem_mem s b"; cases "sem_mem s' b") simp_all
qed

lemma permits_same:
  assumes "counts_same s s'" "\<And>i. i < TASK_SLOT_COUNT \<Longrightarrow> t_granted_sem (tasks s' ! i) = t_granted_sem (tasks s ! i)"
  shows "permits s' b = permits s b"
proof -
  have "grants s' b = grants s b" using assms(2) by (auto simp: grants_def)
  with counts_sameD [OF assms(1)] show ?thesis by (simp add: permits_def)
qed

lemma permits_calm: "calm s s' \<Longrightarrow> length (tasks s) = TASK_SLOT_COUNT \<Longrightarrow> permits s' b = permits s b"
  by (rule permits_same) (auto simp: calm_def kept_def counts_same_def)

lemma permits_reprio: "reprio s s' \<Longrightarrow> length (tasks s) = TASK_SLOT_COUNT \<Longrightarrow> permits s' b = permits s b"
  by (rule permits_same) (auto simp: counts_same_def reprio_mem reprio_fields)

text \<open>A task gains or loses a grant.\<close>

lemma permits_grant:
  assumes "counts_same s s'" "x < TASK_SLOT_COUNT"
    and "\<And>i. i < TASK_SLOT_COUNT \<Longrightarrow> i \<noteq> x \<Longrightarrow> t_granted_sem (tasks s' ! i) = t_granted_sem (tasks s ! i)"
  shows "permits s' b = permits s b + of_bool (t_granted_sem (tasks s' ! x) = b) - of_bool (t_granted_sem (tasks s ! x) = b)"
proof -
  have "grants s' b = grants s b - {x} \<union> (if t_granted_sem (tasks s' ! x) = b then {x} else {})"
  proof (rule set_eqI)
    fix i
    show "i \<in> grants s' b \<longleftrightarrow> i \<in> grants s b - {x} \<union> (if t_granted_sem (tasks s' ! x) = b then {x} else {})"
      using assms(2) assms(3) [of i] by (cases "i = x") (auto simp: grants_def)
  qed
  moreover have "x \<in> grants s b \<longleftrightarrow> t_granted_sem (tasks s ! x) = b" using assms(2) by (simp add: grants_def)
  ultimately have "int (card (grants s' b)) = int (card (grants s b)) + of_bool (t_granted_sem (tasks s' ! x) = b)
      - of_bool (t_granted_sem (tasks s ! x) = b)"
    using card_Suc_Diff1 [of "grants s b" x] by (auto simp: of_nat_diff card_insert_if)
  with counts_sameD [OF assms(1)] show ?thesis by (simp add: permits_def)
qed

subsection \<open>Giving a permit\<close>

lemma semaphore_up_spec:
  assumes inv: "kernel_inv s Q S M" and st: "sem_mem s a = Some st" and room: "S a = [] \<Longrightarrow> sm_count st < I32_MAX"
  shows "\<exists>s' Q' S'. semaphore_up depth a now s = Some (S a \<noteq> [] \<and> depth = 0, s') \<and> kernel_inv s' Q' S' M
    \<and> mutex_mem s' = mutex_mem s \<and> current s' = current s
    \<and> (\<forall>b. b \<noteq> 0 \<longrightarrow> permits s' b = permits s b + of_bool (b = a))
    \<and> (S a = [] \<longrightarrow> tasks s' = tasks s \<and> sem_mem s' = (sem_mem s)(a \<mapsto> st\<lparr>sm_count := sm_count st + 1\<rparr>))
    \<and> (\<forall>x xs. S a = x # xs \<longrightarrow> S' = S(a := xs) \<and> changed x (\<lambda>t. ready_mark now (granted_by a t)) s s')"
proof -
  note k = kernel_invD [OF inv] and d = sync_invD [OF kernel_invD(1) [OF inv]]
  note r = waits_repD [OF d(2)]
  have a0: "a \<noteq> 0" using fam_repD(2) [OF r(1)] st by (simp add: sem_view_def)
  show ?thesis
  proof (cases "S a")
    case Nil
    let ?s = "s\<lparr>sem_mem := (sem_mem s)(a \<mapsto> st\<lparr>sm_count := sm_count st + 1\<rparr>)\<rparr>"
    have h: "sm_wait_head st = NIL"
      using wait_rep_sel(1) [OF fam_repD(3) [OF r(1), of a "sem_ends st"]] st Nil by (simp add: sem_view_def sem_ends_def)
    have c: "0 \<le> sm_count st" "sm_count st < I32_MAX" using d(9) st room [OF Nil] by (auto simp: objects_ok_def)
    have run: "semaphore_up depth a now s = Some (False, ?s)"
      using st h c by (simp add: semaphore_up_def with_sem_def release_semaphore_locked_def Let_def chk_i32_def)
    have "sync_inv ?s Q S M" using sync_sem_count [OF k(1) st] c Nil by simp
    then have "kernel_inv ?s Q S M"
      by (rule kernel_transfer [OF inv]) (use k(4) in \<open>auto simp: steady_def trap_kept_def\<close>)
    moreover have "permits ?s b = permits s b + of_bool (b = a)" for b
      using st by (auto simp: permits_def grants_def)
    ultimately show ?thesis using run Nil by auto
  next
    case (Cons x xs)
    from release_waiter [OF k(1) st Cons, of now] obtain s' Q' st' where
      w: "with_sem a (release_semaphore_locked now) s = Some (x, s')" "sync_inv s' Q' (S(a := xs)) M"
        "changed x (\<lambda>t. ready_mark now (granted_by a t)) s s'" "mutex_mem s' = mutex_mem s"
        "sem_mem s' = (sem_mem s)(a \<mapsto> st')" "sm_count st' = sm_count st" by blast
    have x: "x \<in> set (S a)" using Cons by simp
    have xl: "x < TASK_SLOT_COUNT" using fam_member(1) [OF r(1) x] .
    have xb: "state_of s x = Blocked" "t_waiting_sem (tasks s ! x) = a" using fam_repD(6,7) [OF r(1) x] by auto
    have run: "semaphore_up depth a now s = Some (depth = 0, s')"
      using w(1) slot_not_NIL [OF xl] by (simp add: semaphore_up_def)
    have kv: "kernel_inv s' Q' (S(a := xs)) M"
      by (rule kernel_changed [OF inv w(2,3) xl]) (use xb in \<open>auto simp: trap_kept_def ready_mark_def granted_by_def\<close>)
    have cs: "counts_same s s'" using w(5,6) st by (simp add: counts_same_def)
    obtain n where n: "tasks s' ! x = (ready_mark now (granted_by a (tasks s ! x)))\<lparr>t_next := n\<rparr>"
      using changed_self [OF w(3)] xl k(7) by auto
    have g0: "t_granted_sem (tasks s ! x) = 0" using sem_waiter(6) [OF k(1) xl xb(2) a0] .
    have "permits s' b = permits s b + of_bool (b = a)" if "b \<noteq> 0" for b
    proof -
      have o: "t_granted_sem (tasks s' ! i) = t_granted_sem (tasks s ! i)" if "i < TASK_SLOT_COUNT" "i \<noteq> x" for i
        using changed_fields [OF w(3)] that k(7) by force
      from permits_grant [OF cs xl o, of b] n g0 that show ?thesis by (simp add: ready_mark_def granted_by_def)
    qed
    with run kv w(3,4) Cons show ?thesis by (auto simp: changed_def)
  qed
qed

subsection \<open>Taking a permit\<close>

text \<open>
  A task may block when it is the running one, is not the idle task, does not hold the scheduler
  lock and has consumed the grant it was woken with.
\<close>

definition may_block :: "sched \<Rightarrow> bool" where
  "may_block s \<longleftrightarrow> state_of s (current s) = Running \<and> current s \<noteq> IDLE_SLOT
     \<and> t_scheduler_lock_depth (tasks s ! current s) = 0 \<and> \<not> t_sem_granted (tasks s ! current s)
     \<and> next_switch_sequence s < U64_MAX"

lemma running_alone:
  assumes "kernel_inv s Q S M" "state_of s (current s) = Running"
  shows "pending_switch s = None" "pending_target s = None" "current s \<notin> queued Q" "current s \<notin> waiters S M"
    "t_waiting_sem (tasks s ! current s) = 0" "t_waiting_mutex (tasks s ! current s) = 0"
proof -
  note k = kernel_invD [OF assms(1)] and o = owned_butD [OF kernel_invD(8) [OF assms(1)]]
    and w = sync_invD(2) [OF kernel_invD(1) [OF assms(1)]]
  show p: "pending_switch s = None" using o(6) assms(2) by (cases "pending_switch s") (auto simp: pending_ok_def)
  then show "pending_target s = None" by (simp add: pending_target_def)
  show "current s \<notin> queued Q" using o(3) assms(2) by force
  show "current s \<notin> waiters S M" using waiters_blocked [OF w, of "current s"] assms(2) by auto
  then show "t_waiting_sem (tasks s ! current s) = 0" "t_waiting_mutex (tasks s ! current s) = 0"
    using waiters_iff [OF w, of "current s"] k(9) by auto
qed

lemma changed_sem_touched:
  assumes "sem_touched a R (mod_task x f s0) s'" "x < length (tasks s)"
    and s0: "tasks s0 = tasks s" "current s0 = current s" "pending_switch s0 = pending_switch s" "steady s s0"
      "sem_mem s0 = sem_mem s" "mutex_mem s0 = mutex_mem s"
  shows "changed x f s s'" "counts_same s s'" "mutex_mem s' = mutex_mem s"
proof -
  from assms(1) obtain s1 st st' where t0: "rewired R (mod_task x f s0) s1" and t: "sem_mem s a = Some st" "sm_count st' = sm_count st"
    "s' = s1\<lparr>sem_mem := (sem_mem s)(a \<mapsto> st')\<rparr>" using s0 by (auto simp: sem_touched_def)
  note re = rewired_relinked [OF t0]
  note sel = relinked_sel [OF re]
  have "\<exists>n. tasks s' ! j = (if j = x then f (tasks s ! x) else tasks s ! j)\<lparr>t_next := n\<rparr>" if "j < length (tasks s)" for j
    using relinked_task(1) [OF re, of j] that t(3) s0(1) assms(2) by (auto simp: mod_task_at)
  then show "changed x f s s'" using sel s0 t(3) by (simp add: changed_def steady_def)
  show "counts_same s s'" "mutex_mem s' = mutex_mem s" using sel s0 t by (simp_all add: counts_same_def)
qed

definition parked_on :: "nat \<Rightarrow> nat \<Rightarrow> tcb \<Rightarrow> tcb" where
  "parked_on a wake_at t = t\<lparr>t_state := Blocked, t_wake_at := wake_at, t_waiting_sem := a, t_sem_granted := False\<rparr>"

lemma semaphore_park_spec:
  assumes inv: "kernel_inv s Q S M" and mb: "may_block s" and st: "sem_mem s a = Some st" "sm_count st \<le> 0"
  shows "\<exists>intent s' Q'. semaphore_park True True a wake_at s = Some (Inr intent, s')
    \<and> kernel_inv s' Q' (S(a := insert_prio (prio_of s) (current s) (S a))) M \<and> pending_target s' = Some (best_ready Q)
    \<and> current s' = current s \<and> mutex_mem s' = mutex_mem s \<and> (\<forall>b. permits s' b = permits s b)"
proof -
  let ?c = "current s" and ?S = "S(a := insert_prio (prio_of s) (current s) (S a))"
  note k = kernel_invD [OF inv] and d = sync_invD [OF kernel_invD(1) [OF inv]]
  note m = mb [unfolded may_block_def]
  have run: "state_of s ?c = Running" using m by simp
  note al = running_alone [OF inv run]
  have a0: "a \<noteq> 0" using fam_repD(2) [OF waits_repD(1) [OF d(2)]] st by (simp add: sem_view_def)
  have cl: "?c < length (tasks s)" using k(7,9) by simp
  let ?g = "t_resume_generation (tasks s ! ?c)"
  let ?s0 = "diag (\<lambda>d. d\<lparr>d_semaphore_blocks := bump32 (d_semaphore_blocks d)\<rparr>) s"
  let ?s1 = "mod_task ?c (parked_on a wake_at) ?s0"
  have own1: "owned_but {} ?s1 Q"
    by (rule owned_mod_task) (use k(8,9) al shape_okD(7) [OF owned_butD(1) [OF k(8)] k(9)] in \<open>auto simp: parked_on_def pending_target_def\<close>)
  have w1: "waits_rep {?c} {} ?s1 S M"
    by (rule waits_mod_task) (use d(2) cl k(7) al in auto)
  have l1: "length (tasks ?s1) = TASK_SLOT_COUNT" using k(7) by simp
  have at1: "tasks ?s1 ! ?c = parked_on a wake_at (tasks s ! ?c)" using cl by (simp add: mod_task_at)
  have prio1: "prio_of ?s1 = prio_of s" using cl by (auto simp: fun_eq_iff mod_task_at parked_on_def)
  from sem_join [OF w1 l1, of ?c a st] at1 al st k(9) prio1 obtain s2 where
    2: "on_sem a (\<lambda>st s. enqueue_waiter st ?c s) ?s1 = Some s2" "sem_touched a (insert ?c (set (S a))) ?s1 s2"
      "waits_rep {} {} s2 ?S M" by (auto simp: parked_on_def)
  have "queued Q \<inter> insert ?c (set (S a)) = {}" using queued_not_waiting [OF k(8) d(2)] al(3) by (auto simp: members_def)
  from owned_touched(1) [OF own1 this 2(2)] have own2: "owned_but {} s2 Q" .
  note ch = changed_sem_touched [OF 2(2) cl]
  have ch2: "changed ?c (parked_on a wake_at) s s2" "counts_same s s2" "mutex_mem s2 = mutex_mem s"
    using ch by (simp_all add: steady_def)
  obtain n where n: "tasks s2 ! ?c = (parked_on a wake_at (tasks s ! ?c))\<lparr>t_next := n\<rparr>" using changed_self [OF ch2(1) cl] by blast
  have g: "grant_ok s ?c" using d(10) [OF k(9)] .
  have sy2: "sync_inv s2 Q ?S M"
  proof (rule sync_changed [OF k(1) own2 2(3) ch2(1,3)])
    show "grant_ok s2 ?c" using g m n by (auto simp: grant_ok_def Let_def parked_on_def)
  qed (use ch2(2) st in \<open>auto simp: counts_same_def parked_on_def split: if_splits\<close>)
  have kv2: "kernel_inv s2 Q ?S M"
    by (rule kernel_changed [OF inv sy2 ch2(1) k(9)]) (use run m in \<open>auto simp: trap_kept_def parked_on_def\<close>)
  have c2: "current s2 = ?c" "pending_switch s2 = None" "next_switch_sequence s2 = next_switch_sequence s"
    using ch2(1) al(1) by (simp_all add: changed_def steady_def)
  have lv: "leaving s2 Q ?S M" using kv2 c2 m n by (simp add: leaving_def parked_on_def)
  have "t_resume_generation (tasks s2 ! current s2) = ?g" using n c2 by (simp add: parked_on_def)
  from leave_spec [OF lv this] c2 obtain intent s' Q' where
    r: "prepare_switch_away_locked True ?c ?g s2 = Some (Some intent, s')" "kernel_inv s' Q' ?S M"
      "pending_target s' = Some (best_ready Q)" "current s' = ?c" "calm s2 s'" by auto
  have pf: "parked_on a wake_at = (\<lambda>t. t\<lparr>t_state := Blocked, t_wake_at := wake_at, t_waiting_sem := a, t_sem_granted := False\<rparr>)"
    by (simp add: parked_on_def fun_eq_iff)
  have run: "semaphore_park True True a wake_at s = Some (Inr intent, s')"
    using m cl 2(1) r(1) by (simp add: semaphore_park_def current_switch_guard_def pf)
  have "permits s' b = permits s2 b" for b using permits_calm [OF r(5)] kernel_invD(7) [OF kv2] by simp
  moreover have "permits s2 b = permits s b" for b
  proof (rule permits_same [OF ch2(2)])
    fix i
    assume "i < TASK_SLOT_COUNT"
    then show "t_granted_sem (tasks s2 ! i) = t_granted_sem (tasks s ! i)"
      using changed_fields [OF ch2(1), of i] n k(7) by (cases "i = ?c") (auto simp: parked_on_def)
  qed
  ultimately show ?thesis using run r ch2(3) by (auto simp: calm_def)
qed

lemma semaphore_take_spec:
  assumes inv: "kernel_inv s Q S M" and st: "sem_mem s a = Some st"
  shows "if 0 < sm_count st
    then \<exists>s'. semaphore_take a s = Some (True, s') \<and> kernel_inv s' Q S M \<and> tasks s' = tasks s \<and> current s' = current s
      \<and> mutex_mem s' = mutex_mem s \<and> (\<forall>b. permits s' b = permits s b - of_bool (b = a))
    else semaphore_take a s = Some (False, s)"
proof (cases "0 < sm_count st")
  case True
  note k = kernel_invD [OF inv] and d = sync_invD [OF kernel_invD(1) [OF inv]]
  let ?s = "s\<lparr>sem_mem := (sem_mem s)(a \<mapsto> st\<lparr>sm_count := sm_count st - 1\<rparr>)\<rparr>"
  have c: "sm_count st \<le> I32_MAX" "S a = []" using d(9) st True by (auto simp: objects_ok_def)
  have "sync_inv ?s Q S M" using sync_sem_count [OF k(1) st] c True by simp
  then have "kernel_inv ?s Q S M"
    by (rule kernel_transfer [OF inv]) (use k(4) in \<open>auto simp: steady_def trap_kept_def\<close>)
  moreover have "permits ?s b = permits s b - of_bool (b = a)" for b using st by (auto simp: permits_def grants_def)
  moreover have "semaphore_take a s = Some (True, ?s)" using st True c by (simp add: semaphore_take_def chk_i32_def)
  ultimately show ?thesis using True by auto
qed (use st in \<open>simp add: semaphore_take_def\<close>)

subsection \<open>Grants\<close>

definition ungranted :: "tcb \<Rightarrow> tcb" where
  "ungranted t = t\<lparr>t_sem_granted := False, t_granted_sem := 0\<rparr>"

lemma consume_grant:
  assumes inv: "kernel_inv s Q S M" and x: "x < TASK_SLOT_COUNT" "t_granted_mutex (tasks s ! x) = 0"
  shows "kernel_inv (mod_task x ungranted s) Q S M"
    "b \<noteq> 0 \<Longrightarrow> permits (mod_task x ungranted s) b = permits s b - of_bool (t_granted_sem (tasks s ! x) = b)"
proof -
  let ?s = "mod_task x ungranted s"
  note k = kernel_invD [OF inv] and d = sync_invD [OF kernel_invD(1) [OF inv]]
  have xl: "x < length (tasks s)" using x k(7) by simp
  have at: "tasks ?s ! j = (if j = x then ungranted (tasks s ! x) else tasks s ! j)" for j using xl by (simp add: mod_task_at)
  have f: "ungranted t = (ungranted t)\<lparr>t_next := t_next t\<rparr>" for t by (simp add: ungranted_def)
  have ch: "changed x ungranted s ?s"
    unfolding changed_def at by (auto simp: steady_def intro!: exI [of _ "t_next (tasks s ! j)" for j] f)
  have own: "owned_but {} ?s Q" by (rule owned_but_view [OF k(8)]) (simp add: same_view_mod_task ungranted_def)
  have w: "waits_rep {} {} ?s S M" by (rule waits_view [OF d(2)]) (use xl in \<open>auto simp: at ungranted_def\<close>)
  have "sync_inv ?s Q S M"
  proof (rule sync_changed [OF k(1) own w ch])
    show "grant_ok ?s x" using d(10) [OF x(1)] x(2) xl by (simp add: grant_ok_def ungranted_def mod_task_at)
  qed (auto simp: ungranted_def)
  then show "kernel_inv ?s Q S M"
    by (rule kernel_changed [OF inv _ ch x(1)]) (use k(4) in \<open>auto simp: trap_kept_def ungranted_def\<close>)
  show "permits ?s b = permits s b - of_bool (t_granted_sem (tasks s ! x) = b)" if "b \<noteq> 0"
    using permits_grant [of s ?s x b] x(1) that by (simp add: counts_same_def at ungranted_def)
qed

lemma semaphore_down_resumed_spec:
  assumes inv: "kernel_inv s Q S M" and g: "t_granted_mutex (tasks s ! current s) = 0"
  shows "\<exists>s'. semaphore_down_resumed s = Some (t_granted_sem (tasks s ! current s) \<noteq> 0, s') \<and> kernel_inv s' Q S M
    \<and> current s' = current s \<and> \<not> t_sem_granted (tasks s' ! current s)
    \<and> (\<forall>b. b \<noteq> 0 \<longrightarrow> permits s' b = permits s b - of_bool (t_granted_sem (tasks s ! current s) = b))"
proof -
  note k = kernel_invD [OF inv] and d = sync_invD [OF kernel_invD(1) [OF inv]]
  have xl: "current s < length (tasks s)" using k(7,9) by simp
  have "t_sem_granted (tasks s ! current s) = (t_granted_sem (tasks s ! current s) \<noteq> 0)"
    using d(10) [OF k(9)] g by (simp add: grant_ok_def Let_def)
  moreover have "ungranted = (\<lambda>t. t\<lparr>t_sem_granted := False, t_granted_sem := 0\<rparr>)" by (simp add: ungranted_def fun_eq_iff)
  ultimately have "semaphore_down_resumed s = Some (t_granted_sem (tasks s ! current s) \<noteq> 0, mod_task (current s) ungranted s)"
    using xl by (simp add: semaphore_down_resumed_def consume_semaphore_grant_locked_def)
  with consume_grant [OF inv k(9) g] xl show ?thesis by (auto simp: mod_task_at ungranted_def)
qed

text \<open>A task that waits for something, or was given what it waited for and has not seen it yet.\<close>

definition waits_or_granted :: "tcb \<Rightarrow> bool" where
  "waits_or_granted t \<longleftrightarrow> t_waiting_sem t \<noteq> 0 \<or> t_granted_sem t \<noteq> 0 \<or> t_waiting_mutex t \<noteq> 0 \<or> t_granted_mutex t \<noteq> 0"

lemma waits_for_one:
  assumes "sync_inv s Q S M" "x < TASK_SLOT_COUNT"
  shows "t_waiting_sem (tasks s ! x) = 0 \<or> t_waiting_mutex (tasks s ! x) = 0"
    "t_granted_sem (tasks s ! x) \<noteq> 0 \<or> t_granted_mutex (tasks s ! x) \<noteq> 0 \<Longrightarrow> t_waiting_sem (tasks s ! x) = 0 \<and> t_waiting_mutex (tasks s ! x) = 0"
proof -
  note d = sync_invD [OF assms(1)]
  have "x \<notin> members S \<inter> members M" using waits_repD(3) [OF d(2)] by simp
  then show "t_waiting_sem (tasks s ! x) = 0 \<or> t_waiting_mutex (tasks s ! x) = 0"
    using members_iff [OF waits_repD(1) [OF d(2)], of x] members_iff [OF waits_repD(2) [OF d(2)], of x] assms(2) by auto
  show "t_granted_sem (tasks s ! x) \<noteq> 0 \<or> t_granted_mutex (tasks s ! x) \<noteq> 0 \<Longrightarrow> t_waiting_sem (tasks s ! x) = 0 \<and> t_waiting_mutex (tasks s ! x) = 0"
    using d(10) [OF assms(2)] by (auto simp: grant_ok_def Let_def)
qed

lemma semaphore_cancel_spec:
  assumes inv: "kernel_inv s Q S M" and x: "x < TASK_SLOT_COUNT"
    and small: "t_granted_sem (tasks s ! x) \<noteq> 0 \<Longrightarrow> permits s (t_granted_sem (tasks s ! x)) \<le> I32_MAX"
  shows "\<exists>s' Q' S'. cancel_semaphore_wait_locked x now s
      = Some (t_waiting_sem (tasks s ! x) \<noteq> 0 \<or> t_granted_sem (tasks s ! x) \<noteq> 0, s')
    \<and> kernel_inv s' Q' S' M \<and> mutex_mem s' = mutex_mem s \<and> current s' = current s
    \<and> (\<forall>b. b \<noteq> 0 \<longrightarrow> permits s' b = permits s b)
    \<and> (t_waiting_sem (tasks s ! x) = 0 \<and> t_granted_sem (tasks s ! x) = 0 \<longrightarrow> s' = s)
    \<and> (t_waiting_sem (tasks s ! x) \<noteq> 0 \<longrightarrow> changed x (\<lambda>t. ready_mark now (abandoned False t)) s s')
    \<and> (t_waiting_sem (tasks s ! x) \<noteq> 0 \<or> t_granted_sem (tasks s ! x) \<noteq> 0 \<longrightarrow> \<not> waits_or_granted (tasks s' ! x))"
proof -
  note k = kernel_invD [OF inv] and d = sync_invD [OF kernel_invD(1) [OF inv]]
  have xl: "x < length (tasks s)" using x k(7) by simp
  let ?w = "t_waiting_sem (tasks s ! x)" and ?g = "t_granted_sem (tasks s ! x)"
  consider "?w \<noteq> 0" | "?w = 0" "?g \<noteq> 0" | "?w = 0" "?g = 0" by blast
  then show ?thesis
  proof cases
    case 1
    note wt = sem_waiter [OF k(1) x refl 1]
    have f: "abandoned False = (\<lambda>t. t\<lparr>t_waiting_sem := 0, t_wake_at := 0, t_sem_granted := False\<rparr>)"
      by (simp add: abandoned_def fun_eq_iff)
    from sem_abandon [OF k(1) x refl 1, of now False] obtain s1 s2 Q' where
      a: "on_sem ?w (\<lambda>st s. remove_waiter st x s) s = Some s1" "length (tasks s1) = TASK_SLOT_COUNT" "state_of s1 x = Blocked"
        "make_ready x now (mod_task x (abandoned False) s1) = Some s2" "sync_inv s2 Q' (S(?w := remove1 x (S ?w))) M"
        "changed x (\<lambda>t. ready_mark now (abandoned False t)) s s2" "counts_same s s2" "mutex_mem s2 = mutex_mem s"
      by (auto simp: counts_same_def)
    have run: "cancel_semaphore_wait_locked x now s = Some (True, s2)"
      using 1 xl x a(1-4) by (simp add: cancel_semaphore_wait_locked_def f mod_task_at)
    have kv: "kernel_inv s2 Q' (S(?w := remove1 x (S ?w))) M"
      by (rule kernel_changed [OF inv a(5,6) x]) (use wt in \<open>auto simp: trap_kept_def ready_mark_def abandoned_def\<close>)
    obtain n where n: "tasks s2 ! x = (ready_mark now (abandoned False (tasks s ! x)))\<lparr>t_next := n\<rparr>" using changed_self [OF a(6) xl] by blast
    have "?g = 0" "t_granted_mutex (tasks s ! x) = 0" "t_waiting_mutex (tasks s ! x) = 0" using waits_for_one [OF k(1) x] 1 by blast+
    then have rest: "\<not> waits_or_granted (tasks s2 ! x)" using n by (simp add: waits_or_granted_def ready_mark_def abandoned_def)
    from n have "t_granted_sem (tasks s2 ! i) = t_granted_sem (tasks s ! i)" if "i < TASK_SLOT_COUNT" for i
      using changed_fields [OF a(6), of i] that k(7) by (cases "i = x") (auto simp: ready_mark_def abandoned_def)
    from permits_same [OF a(7) this] run kv a(6,8) 1 rest show ?thesis by (auto simp: changed_def)
  next
    case 2
    let ?s = "mod_task x ungranted s"
    note c = consume_grant [OF inv x]
    have gm: "t_granted_mutex (tasks s ! x) = 0" "permits s ?g \<le> I32_MAX"
      using d(10) [OF x] small [OF 2(2)] 2(2) by (auto simp: grant_ok_def Let_def)
    obtain st where st: "sem_mem s ?g = Some st" using d(10) [OF x] 2(2) by (auto simp: grant_ok_def Let_def)
    have st': "sem_mem ?s ?g = Some st" using st by simp
    have "x \<in> grants s ?g" using x by (simp add: grants_def)
    then have "0 < card (grants s ?g)" by (auto simp: card_gt_0_iff)
    then have room: "sm_count st < I32_MAX" using gm(2) st by (simp add: permits_def)
    have up: "semaphore_up 1 ?g now ?s = (do { (_, s) \<leftarrow> with_sem ?g (release_semaphore_locked now) ?s; Some (False, s) })"
      by (simp add: semaphore_up_def)
    have nd: "(S ?g \<noteq> [] \<and> (1::nat) = 0) = False" by simp
    from semaphore_up_spec [OF c(1) [OF gm(1)] st' room, of 1 now] obtain s' Q' S' where
      u: "semaphore_up 1 ?g now ?s = Some (False, s')" "kernel_inv s' Q' S' M" "mutex_mem s' = mutex_mem ?s"
        "\<forall>b. b \<noteq> 0 \<longrightarrow> permits s' b = permits ?s b + of_bool (b = ?g)" "current s' = current ?s"
        "S ?g = [] \<longrightarrow> tasks s' = tasks ?s" "\<forall>y ys. S ?g = y # ys \<longrightarrow> changed y (\<lambda>t. ready_mark now (granted_by ?g t)) ?s s'" unfolding nd by blast
    have at: "\<exists>n. tasks s' ! x = (ungranted (tasks s ! x))\<lparr>t_next := n\<rparr>"
    proof (cases "S ?g")
      case Nil
      then show ?thesis using u(6) xl by (auto simp: mod_task_at intro: exI [of _ "t_next (tasks s ! x)"])
    next
      case (Cons y ys)
      then have "y \<noteq> x" using fam_repD(7) [OF waits_repD(1) [OF d(2)], of y ?g] 2 by auto
      have "changed y (\<lambda>t. ready_mark now (granted_by ?g t)) ?s s'" using u(7) Cons by blast
      then have "\<forall>j < length (tasks s). \<exists>n. tasks s' ! j = (if j = y then ready_mark now (granted_by ?g (tasks ?s ! y)) else tasks ?s ! j)\<lparr>t_next := n\<rparr>"
        by (simp add: changed_def)
      from this [rule_format, OF xl] \<open>y \<noteq> x\<close> show ?thesis using xl by (auto simp: mod_task_at)
    qed
    then have rest: "\<not> waits_or_granted (tasks s' ! x)"
      using waits_for_one(2) [OF k(1) x] 2 gm by (auto simp: waits_or_granted_def ungranted_def)
    from u(1) obtain w where w: "with_sem ?g (release_semaphore_locked now) ?s = Some (w, s')" unfolding up by (auto simp: bind_eq_Some)
    have "ungranted = (\<lambda>t. t\<lparr>t_granted_sem := 0, t_sem_granted := False\<rparr>)" by (simp add: ungranted_def fun_eq_iff)
    then have "cancel_semaphore_wait_locked x now s = Some (True, s')"
      using 2 xl w by (simp add: cancel_semaphore_wait_locked_def)
    with u(1-5) 2 c(2) [OF gm(1)] rest show ?thesis by auto
  next
    case 3
    then show ?thesis using xl inv by (auto simp: cancel_semaphore_wait_locked_def)
  qed
qed

end
