(* ===== verification/Donations.thy ===== *)
theory Donations
  imports Semaphores
begin

text \<open>
  One donation at a time: giving or taking back the donation of a waiter counts it for the owner it
  waits for, and the propagation along the chain of owners re-establishes the effective priorities.
  The set \<open>Z\<close> holds the waiters whose donation is not counted.
\<close>

subsection \<open>The counters\<close>

lemma donations_shift:
  assumes ok: "donations_but Z s" and len: "length (tasks s) = TASK_SLOT_COUNT" and Z: "Z - {w} = Z' - {w}"
    and w: "w < TASK_SLOT_COUNT" "waits_for s w = Some owner" "owner < TASK_SLOT_COUNT"
    and c: "c = (t_inherited_waiters (tasks s ! owner))[prio_of s w := card (donors s owner (prio_of s w) - Z')]"
  shows "donations_but Z' (mod_task owner (\<lambda>t. t\<lparr>t_inherited_waiters := c\<rparr>) s)"
proof -
  let ?s = "mod_task owner (\<lambda>t. t\<lparr>t_inherited_waiters := c\<rparr>) s"
  have dn: "donors ?s j q = donors s j q" for j q
    using w(3) len by (auto simp: donors_def waits_for_def mod_task_at)
  have d: "length (t_inherited_waiters (tasks s ! i)) = PRIORITY_LEVELS"
    "q < PRIORITY_LEVELS \<Longrightarrow> t_inherited_waiters (tasks s ! i) ! q = card (donors s i q - Z)" if "i < TASK_SLOT_COUNT" for i q
    using ok that by (auto simp: donations_but_def)
  have other: "donors s j q - Z = donors s j q - Z'" if "\<not> (j = owner \<and> q = prio_of s w)" for j q
  proof -
    have "w \<notin> donors s j q" using that w(2) by (auto simp: donors_def)
    with Z show ?thesis by blast
  qed
  show ?thesis
    unfolding donations_but_def dn
  proof (intro allI impI conjI)
    fix i
    assume i: "i < TASK_SLOT_COUNT"
    show "length (t_inherited_waiters (tasks ?s ! i)) = PRIORITY_LEVELS"
      using d(1) [OF i] d(1) [OF w(3)] len w(3) c by (simp add: mod_task_at)
    fix q
    assume q: "q < PRIORITY_LEVELS"
    show "t_inherited_waiters (tasks ?s ! i) ! q = card (donors s i q - Z')"
      using d [OF i] d(1) [OF w(3)] other [of i q] q len w(3) c by (cases "i = owner"; cases "q = prio_of s w") (simp_all add: mod_task_at)
  qed
qed

lemma donors_counted:
  assumes "w < TASK_SLOT_COUNT" "waits_for s w = Some owner" "w \<notin> Z"
  shows "card (donors s owner (prio_of s w) - Z) = Suc (card (donors s owner (prio_of s w) - insert w Z))"
proof -
  have "w \<in> donors s owner (prio_of s w) - Z" using assms by (simp add: donors_def)
  moreover have "donors s owner (prio_of s w) - insert w Z = (donors s owner (prio_of s w) - Z) - {w}" by blast
  ultimately show ?thesis using card_Suc_Diff1 [of "donors s owner (prio_of s w) - Z" w] by simp
qed

lemma waits_for_diag [simp]: "waits_for (diag f s) = waits_for s"
  by (simp add: waits_for_def fun_eq_iff)

lemma donors_diag [simp]: "donors (diag f s) = donors s"
  by (simp add: donors_def fun_eq_iff)

lemma prop_inv_diag [simp]: "prop_inv X Z (diag f s) Q S M = prop_inv X Z s Q S M"
  by (simp add: prop_inv_def donations_but_def donors_def owners_ok_def wait_edges_def bases_ok_def)

lemma settled_but_diag [simp]: "settled_but X (diag f s) = settled_but X s"
  by (simp add: settled_but_def settled_def)

subsection \<open>One donation\<close>

text \<open>
  The counter of the owner was set to what \<open>Z'\<close> leaves; the chain of owners that starts there meets
  no task that is out of its queue, and no uncounted one.
\<close>

definition chain_free :: "sched \<Rightarrow> nat \<Rightarrow> nat set \<Rightarrow> nat set \<Rightarrow> bool" where
  "chain_free s owner X Z \<longleftrightarrow> (\<forall>j. (owner, j) \<in> (wait_edges s)\<^sup>* \<longrightarrow> j \<notin> X \<and> (j \<notin> Z \<or> waits_for s j = None))"

lemma chain_free_sink:
  assumes "waits_for s owner = None" "owner \<notin> X"
  shows "chain_free s owner X Z"
proof -
  have "j = owner" if "(owner, j) \<in> (wait_edges s)\<^sup>*" for j
    using that
  proof (cases rule: converse_rtranclE)
    case (step y)
    then have "waits_for s owner = Some y" by (simp add: wait_edges_def)
    with assms(1) show ?thesis by simp
  qed simp
  then show ?thesis unfolding chain_free_def using assms by metis
qed

lemma adjust_spec:
  assumes inv: "prop_inv X Z s Q S M" and st: "settled_but {} s" and Z: "Z - {w} = Z' - {w}"
    and w: "w < TASK_SLOT_COUNT" "waits_for s w = Some owner" and free: "chain_free s owner X Z'"
    and c: "c = (t_inherited_waiters (tasks s ! owner))[prio_of s w := card (donors s owner (prio_of s w) - Z')]"
  shows "\<exists>s' Q' S' M'. refresh_inherited_priority owner 0 (mod_task owner (\<lambda>t. t\<lparr>t_inherited_waiters := c\<rparr>) s) = Some s'
    \<and> prop_inv X Z' s' Q' S' M' \<and> settled_but {} s' \<and> reprio s s' \<and> (t_waiting_mutex (tasks s ! owner) = 0 \<longrightarrow> M' = M)"
proof -
  note d = prop_invD [OF inv]
  have o: "owner < TASK_SLOT_COUNT" using waits_for_owner [OF d(4) w(2)] .
  let ?s = "mod_task owner (\<lambda>t. t\<lparr>t_inherited_waiters := c\<rparr>) s"
  note inv1 = prop_inv_donations [OF d(1,2) o d(4-6) donations_shift [OF d(3,7) Z w o c]]
  have set1: "settled_but {owner} ?s" using settled_but_mod_donations [of owner s] st o d(7) by simp
  have e: "wait_edges ?s = wait_edges s" using reprio_edges [OF inv1(2) d(7)] .
  have fr: "j \<notin> X \<and> (j \<notin> Z' \<or> waits_for ?s j = None)" if j: "(owner, j) \<in> (wait_edges ?s)\<^sup>*" for j
  proof -
    have "j < TASK_SLOT_COUNT"
      using j waits_for_owner [OF d(4)] o unfolding e by (cases rule: rtranclE) (auto simp: wait_edges_def)
    then show ?thesis using free j reprio_waits_for [OF inv1(2), of j] d(7) unfolding e chain_free_def by simp
  qed
  have wm: "t_waiting_mutex (tasks ?s ! owner) = t_waiting_mutex (tasks s ! owner)" using o d(7) by (simp add: mod_task_at)
  from refresh_spec [OF inv1(1) o set1 _ _ _ fr, of "{}" 0] wm obtain s' Q' S' M' where
    r: "refresh_inherited_priority owner 0 ?s = Some s'" "prop_inv X Z' s' Q' S' M'" "settled_but {} s'" "reprio ?s s'"
      "t_waiting_mutex (tasks s ! owner) = 0 \<longrightarrow> M' = M" by auto
  from r reprio_trans [OF inv1(2) r(4)] show ?thesis by (intro exI conjI)
qed

lemma remove_spec:
  assumes inv: "prop_inv X Z s Q S M" and st: "settled_but {} s"
    and w: "w < TASK_SLOT_COUNT" "waits_for s w = Some owner" "w \<notin> Z" and free: "chain_free s owner X (insert w Z)"
  shows "\<exists>s' Q' S' M'. remove_inheritance owner (prio_of s w) s = Some s' \<and> prop_inv X (insert w Z) s' Q' S' M'
    \<and> settled_but {} s' \<and> reprio s s' \<and> (t_waiting_mutex (tasks s ! owner) = 0 \<longrightarrow> M' = M)"
proof -
  note d = prop_invD [OF inv]
  let ?p = "prio_of s w" and ?c = "t_inherited_waiters (tasks s ! owner)"
  have o: "owner < TASK_SLOT_COUNT" using waits_for_owner [OF d(4) w(2)] .
  have p: "?p < PRIORITY_LEVELS" using shape_okD(7) [OF owned_butD(1) [OF d(1)] w(1)] .
  have c: "length ?c = PRIORITY_LEVELS" "?c ! ?p = Suc (card (donors s owner ?p - insert w Z))"
    using d(3) o p donors_counted [OF w] by (auto simp: donations_but_def)
  have "remove_inheritance owner ?p s = refresh_inherited_priority owner 0
      (mod_task owner (\<lambda>t. t\<lparr>t_inherited_waiters := ?c[?p := card (donors s owner ?p - insert w Z)]\<rparr>) s)"
    using o d(7) p c by (simp add: remove_inheritance_def chk_sub_def mod_task_def)
  with adjust_spec [OF inv st _ w(1,2) free refl] show ?thesis by simp
qed

lemma add_spec:
  assumes inv: "prop_inv X (insert w Z) s Q S M" and st: "settled_but {} s"
    and w: "w < TASK_SLOT_COUNT" "waits_for s w = Some owner" "w \<notin> Z" and free: "chain_free s owner X Z"
  shows "\<exists>s' Q' S' M'. add_inheritance owner (prio_of s w) s = Some s' \<and> prop_inv X Z s' Q' S' M'
    \<and> settled_but {} s' \<and> reprio s s' \<and> (t_waiting_mutex (tasks s ! owner) = 0 \<longrightarrow> M' = M)"
proof -
  note d = prop_invD [OF inv]
  let ?p = "prio_of s w" and ?c = "t_inherited_waiters (tasks s ! owner)" and ?n = "card (donors s owner (prio_of s w) - Z)"
  let ?f = "\<lambda>d. d\<lparr>d_priority_inheritances := bump32 (d_priority_inheritances d)\<rparr>"
  have o: "owner < TASK_SLOT_COUNT" using waits_for_owner [OF d(4) w(2)] .
  have p: "?p < PRIORITY_LEVELS" using shape_okD(7) [OF owned_butD(1) [OF d(1)] w(1)] .
  have c: "length ?c = PRIORITY_LEVELS" "Suc (?c ! ?p) = ?n"
    using d(3) o p donors_counted [OF w] by (auto simp: donations_but_def)
  have n: "?n \<le> U8_MAX" using donors_card [of s owner ?p Z] by (simp add: TASK_SLOT_COUNT_eq)
  have com: "mod_task owner g (diag ?f s) = diag ?f (mod_task owner g s)" for g by (simp add: mod_task_def diag_def)
  have run: "add_inheritance owner ?p s = refresh_inherited_priority owner 0
      (mod_task owner (\<lambda>t. t\<lparr>t_inherited_waiters := ?c[?p := ?n]\<rparr>) (diag ?f s))"
    using o d(7) p c n unfolding com by (simp add: add_inheritance_def chk_add_def mod_task_def)
  have p: "chain_free (diag ?f s) owner X Z" using free by (simp add: chain_free_def wait_edges_def)
  have i: "prop_inv X (insert w Z) (diag ?f s) Q S M" "settled_but {} (diag ?f s)" "waits_for (diag ?f s) w = Some owner"
    using inv st w by simp_all
  have z: "insert w Z - {w} = Z - {w}" by blast
  from adjust_spec [OF i(1,2) z w(1) i(3) p refl]
  have "\<exists>s' Q' S' M'. refresh_inherited_priority owner 0 (mod_task owner (\<lambda>t. t\<lparr>t_inherited_waiters := ?c[?p := ?n]\<rparr>) (diag ?f s)) = Some s'
      \<and> prop_inv X Z s' Q' S' M' \<and> settled_but {} s' \<and> reprio (diag ?f s) s' \<and> (t_waiting_mutex (tasks s ! owner) = 0 \<longrightarrow> M' = M)"
    by simp
  then obtain s' Q' S' M' where
    r: "refresh_inherited_priority owner 0 (mod_task owner (\<lambda>t. t\<lparr>t_inherited_waiters := ?c[?p := ?n]\<rparr>) (diag ?f s)) = Some s'"
      "prop_inv X Z s' Q' S' M'" "settled_but {} s'" "reprio (diag ?f s) s'" "t_waiting_mutex (tasks s ! owner) = 0 \<longrightarrow> M' = M"
    by (elim exE conjE)
  moreover from r(4) have "reprio s s'" by (simp add: reprio_def erase_def diag_def)
  ultimately show ?thesis unfolding run by (intro exI conjI)
qed

end
