(* ===== verification/Mutexes.thy ===== *)
theory Mutexes
  imports Donations
begin

text \<open>
  Recursive mutexes under the invariant: releasing a mutex hands it to the first waiter together
  with the donations of the others, a waiter that leaves takes its donation along, and blocking on a
  mutex is refused exactly when it would close a cycle of owners.
\<close>

subsection \<open>Moving the donations of a queue\<close>

lemma mutex_queue:
  assumes "waits_rep X Y s S M" "mutex_mem s a = Some m"
  shows "mx_wait_head m = hd_or_NIL (M a)" "chain (links s) (mx_wait_head m) (M a)" "distinct (M a)"
    "\<And>i. i \<in> set (M a) \<Longrightarrow> i < TASK_SLOT_COUNT \<and> i \<noteq> NIL"
proof -
  have w: "wait_rep s (mutex_ends m) (M a)"
    using fam_repD(3) [OF waits_repD(2) [OF assms(1)], of a] assms(2) by (simp add: mutex_view_def)
  show "mx_wait_head m = hd_or_NIL (M a)" "distinct (M a)" using wait_rep_sel(1,3) [OF w] by (simp_all add: mutex_ends_def)
  show "chain (links s) (mx_wait_head m) (M a)" using w by (simp add: wait_rep_def mutex_ends_def)
  show "i < TASK_SLOT_COUNT \<and> i \<noteq> NIL" if "i \<in> set (M a)" for i
    using wait_rep_sel(4) [OF w that] slot_not_NIL by simp
qed

lemma each_waiter_rule:
  assumes step: "\<And>s w vs. I (w # vs) s \<Longrightarrow> \<exists>s'. donate (prio_of s w) s = Some s' \<and> I vs s'"
    and rep: "\<And>s vs. I vs s \<Longrightarrow> length (tasks s) = TASK_SLOT_COUNT \<and> (\<exists>X Y S m. waits_rep X Y s S M \<and> mutex_mem s a = Some m)"
  shows "I ws s \<Longrightarrow> M a = pre @ ws \<Longrightarrow> \<exists>s'. each_waiter donate (hd_or_NIL ws) s = Some s' \<and> I [] s'"
proof (induction ws arbitrary: pre s)
  case Nil
  then show ?case by (simp add: each_waiter.simps)
next
  case (Cons w vs)
  from step [OF Cons.prems(1)] obtain s1 where s1: "donate (prio_of s w) s = Some s1" "I vs s1" by blast
  from rep [OF Cons.prems(1)] obtain X Y S m where r: "waits_rep X Y s S M" "mutex_mem s a = Some m" "length (tasks s) = TASK_SLOT_COUNT"
    by blast
  have w: "w < TASK_SLOT_COUNT" "w \<noteq> NIL" using mutex_queue(4) [where M = M, OF r(1,2), of w] Cons.prems(2) by auto
  from rep [OF s1(2)] obtain X1 Y1 S1 m1 where
    r1: "waits_rep X1 Y1 s1 S1 M" "mutex_mem s1 a = Some m1" "length (tasks s1) = TASK_SLOT_COUNT" by blast
  have "links s1 w = hd_or_NIL vs"
    using chain_successor [of "links s1" "mx_wait_head m1" pre w vs] mutex_queue(2) [where M = M, OF r1(1,2)] Cons.prems(2)
    by (simp add: hd_or_NIL_def)
  then have "each_waiter donate w s = each_waiter donate (hd_or_NIL vs) s1"
    using w r(3) r1(3) s1(1) by (simp add: each_waiter.simps [of donate w s] links_def)
  with Cons.IH [OF s1(2), of "pre @ [w]"] Cons.prems(2) show ?case by simp
qed

text \<open>The waiters of the mutex at \<open>a\<close> donate to its owner, which waits for nobody.\<close>

definition moving :: "nat \<Rightarrow> nat set \<Rightarrow> nat set \<Rightarrow> (nat \<Rightarrow> nat list) \<Rightarrow> sched \<Rightarrow> sched \<Rightarrow> bool" where
  "moving owner X Z M s0 s \<longleftrightarrow> (\<exists>Q S. prop_inv X Z s Q S M) \<and> settled_but {} s \<and> reprio s0 s"

lemma moving_step:
  assumes mv: "moving owner X Z M s0 s" and len: "length (tasks s0) = TASK_SLOT_COUNT"
    and o: "owner < TASK_SLOT_COUNT" "t_waiting_mutex (tasks s0 ! owner) = 0" "owner \<notin> X"
    and w: "w < TASK_SLOT_COUNT" "waits_for s0 w = Some owner"
  shows "w \<notin> Z \<Longrightarrow> \<exists>s'. remove_inheritance owner (prio_of s w) s = Some s' \<and> moving owner X (insert w Z) M s0 s'"
    "Z = insert w Z' \<Longrightarrow> w \<notin> Z' \<Longrightarrow> \<exists>s'. add_inheritance owner (prio_of s w) s = Some s' \<and> moving owner X Z' M s0 s'"
proof -
  from mv obtain Q S where i: "prop_inv X Z s Q S M" "settled_but {} s" "reprio s0 s" by (auto simp: moving_def)
  have ow: "t_waiting_mutex (tasks s ! owner) = 0" using reprio_fields(3) [OF i(3), of owner] o len by simp
  then have sink: "waits_for s owner = None" by (simp add: waits_for_def)
  have ww: "waits_for s w = Some owner" using reprio_waits_for [OF i(3), of w] w len by simp
  note free = chain_free_sink [OF sink o(3)]
  show "\<exists>s'. remove_inheritance owner (prio_of s w) s = Some s' \<and> moving owner X (insert w Z) M s0 s'" if "w \<notin> Z"
  proof -
    from remove_spec [OF i(1,2) w(1) ww that free] ow obtain s' Q' S' where
      "remove_inheritance owner (prio_of s w) s = Some s'" "prop_inv X (insert w Z) s' Q' S' M" "settled_but {} s'" "reprio s s'" by auto
    with reprio_trans [OF i(3)] show ?thesis unfolding moving_def by blast
  qed
  show "\<exists>s'. add_inheritance owner (prio_of s w) s = Some s' \<and> moving owner X Z' M s0 s'" if "Z = insert w Z'" "w \<notin> Z'"
  proof -
    from add_spec [OF i(1) [unfolded that(1)] i(2) w(1) ww that(2) free] ow obtain s' Q' S' where
      "add_inheritance owner (prio_of s w) s = Some s'" "prop_inv X Z' s' Q' S' M" "settled_but {} s'" "reprio s s'" by auto
    with reprio_trans [OF i(3)] show ?thesis unfolding moving_def by blast
  qed
qed

lemma moving_rep:
  assumes "moving owner X Z M s0 s" "mutex_mem s0 a = Some m"
  shows "length (tasks s) = TASK_SLOT_COUNT \<and> (\<exists>X Y S m. waits_rep X Y s S M \<and> mutex_mem s a = Some m)"
proof -
  from assms(1) obtain Q S where i: "prop_inv X Z s Q S M" "reprio s0 s" by (auto simp: moving_def)
  have "mutex_mem s a \<noteq> None" using reprio_mem(2) [OF i(2), of a] assms(2) by auto
  with prop_invD(2,7) [OF i(1)] show ?thesis by blast
qed

lemma each_waiter_moves:
  assumes mv: "moving owner X Z M s0 s0" and len: "length (tasks s0) = TASK_SLOT_COUNT" and m: "mutex_mem s0 a = Some m"
    and o: "owner < TASK_SLOT_COUNT" "t_waiting_mutex (tasks s0 ! owner) = 0" "owner \<notin> X"
    and w: "\<And>w. w \<in> set (M a) \<Longrightarrow> waits_for s0 w = Some owner"
  shows "Z \<inter> set (M a) = {} \<Longrightarrow> \<exists>s'. each_waiter (remove_inheritance owner) (hd_or_NIL (M a)) s0 = Some s'
      \<and> moving owner X (Z \<union> set (M a)) M s0 s'"
    "Z = set (M a) \<Longrightarrow> \<exists>s'. each_waiter (add_inheritance owner) (hd_or_NIL (M a)) s0 = Some s' \<and> moving owner X {} M s0 s'"
proof -
  from mv obtain Q S where i: "prop_inv X Z s0 Q S M" by (auto simp: moving_def)
  note q = mutex_queue [OF prop_invD(2) [OF i] m]
  have slot: "v < TASK_SLOT_COUNT" if "v \<in> set (M a)" for v using q(4) [OF that] by simp
  note step = moving_step [OF _ len o]
  show "\<exists>s'. each_waiter (remove_inheritance owner) (hd_or_NIL (M a)) s0 = Some s' \<and> moving owner X (Z \<union> set (M a)) M s0 s'"
    if Z: "Z \<inter> set (M a) = {}"
  proof -
    let ?I = "\<lambda>vs s. (\<exists>us. M a = us @ vs) \<and> moving owner X (Z \<union> (set (M a) - set vs)) M s0 s"
    have "\<exists>s'. remove_inheritance owner (prio_of s w) s = Some s' \<and> ?I vs s'" if I: "?I (w # vs) s" for s w vs
    proof -
      from I obtain us where us: "M a = us @ w # vs" by blast
      have "w \<in> set (M a)" "w \<notin> Z \<union> (set (M a) - set (w # vs))" using us Z by auto
      moreover have "insert w (Z \<union> (set (M a) - set (w # vs))) = Z \<union> (set (M a) - set vs)" using us q(3) by auto
      moreover have "\<exists>us. M a = us @ vs" using us by (metis append.assoc append_Cons append_Nil)
      ultimately show ?thesis using step(1) [of "Z \<union> (set (M a) - set (w # vs))" M s w] I slot w by auto
    qed
    then have "\<exists>s'. each_waiter (remove_inheritance owner) (hd_or_NIL (M a)) s0 = Some s' \<and> ?I [] s'"
    proof (rule each_waiter_rule [of ?I _ M a _ _ "[]"])
      show "length (tasks s) = TASK_SLOT_COUNT \<and> (\<exists>X Y S m. waits_rep X Y s S M \<and> mutex_mem s a = Some m)" if "?I vs s" for s vs
        using moving_rep [OF _ m] that by blast
    qed (use mv in simp_all)
    then show ?thesis by auto
  qed
  show "\<exists>s'. each_waiter (add_inheritance owner) (hd_or_NIL (M a)) s0 = Some s' \<and> moving owner X {} M s0 s'" if Z: "Z = set (M a)"
  proof -
    let ?I = "\<lambda>vs s. (\<exists>us. M a = us @ vs) \<and> moving owner X (set vs) M s0 s"
    have "\<exists>s'. add_inheritance owner (prio_of s w) s = Some s' \<and> ?I vs s'" if I: "?I (w # vs) s" for s w vs
    proof -
      from I obtain us where us: "M a = us @ w # vs" by blast
      have "w \<in> set (M a)" "w \<notin> set vs" using us q(3) by auto
      moreover have "\<exists>us. M a = us @ vs" using us by (metis append.assoc append_Cons append_Nil)
      ultimately show ?thesis using step(2) [of "set (w # vs)" M s w "set vs"] I slot w by auto
    qed
    then have "\<exists>s'. each_waiter (add_inheritance owner) (hd_or_NIL (M a)) s0 = Some s' \<and> ?I [] s'"
    proof (rule each_waiter_rule [of ?I _ M a _ _ "[]"])
      show "length (tasks s) = TASK_SLOT_COUNT \<and> (\<exists>X Y S m. waits_rep X Y s S M \<and> mutex_mem s a = Some m)" if "?I vs s" for s vs
        using moving_rep [OF _ m] that by blast
    qed (use mv Z in simp_all)
    then show ?thesis by auto
  qed
qed

subsection \<open>Handing over\<close>

lemma mutex_pop:
  assumes rep: "waits_rep X {} s S M" and len: "length (tasks s) = TASK_SLOT_COUNT" and q: "M a = x # xs"
    and m: "mutex_mem s a = Some m"
  shows "\<exists>m' s1. pop_mutex_waiter m s = Some (x, m', s1) \<and> mx_owner m' = mx_owner m \<and> mx_depth m' = mx_depth m
    \<and> rewired {x} s s1 \<and> waits_rep (insert x X) {} (s1\<lparr>mutex_mem := (mutex_mem s1)(a \<mapsto> m')\<rparr>) S (M(a := xs))"
proof -
  note r = waits_repD [OF rep]
  have e: "mutex_view s a = Some (mutex_ends m)" using m by (simp add: mutex_view_def)
  note p = fam_pop [OF r(2) e len q]
  have x: "x \<in> set (M a)" using q by simp
  have xl: "x < TASK_SLOT_COUNT" "x \<noteq> NIL" using fam_member(1) [OF r(2) x] slot_not_NIL by auto
  have h: "mx_wait_head m = x" using p(1) by (simp add: mutex_ends_def)
  define m' where "m' = m\<lparr>mx_wait_head := t_next (tasks s ! x), mx_wait_tail := if t_next (tasks s ! x) = NIL then NIL else mx_wait_tail m\<rparr>"
  let ?s1 = "mod_task x (\<lambda>t. t\<lparr>t_next := NIL\<rparr>) s" and ?s = "(mod_task x (\<lambda>t. t\<lparr>t_next := NIL\<rparr>) s)\<lparr>mutex_mem := (mutex_mem s)(a \<mapsto> m')\<rparr>"
  have run: "pop_mutex_waiter m s = Some (x, m', ?s1)"
    using h xl len by (simp add: pop_mutex_waiter_def Let_def m'_def)
  have v: "mutex_view ?s = (mutex_view s)(a \<mapsto> (links s x, if links s x = NIL then NIL else snd (mutex_ends m)))" "sem_view ?s = sem_view s"
    by (auto simp: m'_def sem_view_def mutex_view_def mutex_ends_def links_def fun_eq_iff)
  have xm: "x \<in> members M" "x \<notin> members S" using x r(3) by (auto simp: members_def)
  have "fam_rep X {} ?s1 (sem_view s) t_waiting_sem S"
    by (rule fam_relinked [OF r(1) relinked_mod_task [of x "{x}"] len]) (use xm in auto)
  from fam_X_insert [OF this xm(2)] have "fam_rep (insert x X) {} ?s (sem_view ?s) t_waiting_sem S"
    unfolding v using fam_rep_tasks [of ?s ?s1] by simp
  moreover have "fam_rep (insert x X) {} ?s (mutex_view ?s) t_waiting_mutex (M(a := xs))"
    unfolding v using p(2) fam_rep_tasks [of ?s ?s1] by simp
  ultimately have "waits_rep (insert x X) {} ?s S (M(a := xs))"
    using r(3) members_pop [OF r(2) q] by (auto simp: waits_rep_def)
  moreover have "rewired {x} s ?s1" by (rule rewired_mod_task) simp
  ultimately show ?thesis using run by (auto simp: m'_def)
qed

lemma acyclic_into_sink:
  assumes "acyclic E" "E' \<subseteq> E \<union> UNIV \<times> {x}" "x \<notin> Domain E'"
  shows "acyclic E'"
proof -
  have "(u, v) \<in> E\<^sup>+ \<or> v = x" if "(u, v) \<in> E'\<^sup>+" for u v
    using that
  proof (induction rule: trancl_induct)
    case (step v z)
    then have "v \<noteq> x" using assms(3) by blast
    with step assms(2) show ?case by (auto intro: trancl_into_trancl)
  qed (use assms(2) in auto)
  moreover have "(x, x) \<notin> E'\<^sup>+" using assms(3) by (auto elim: converse_tranclE)
  ultimately show ?thesis using assms(1) unfolding acyclic_def by blast
qed

definition owned_by :: "nat \<Rightarrow> nat \<Rightarrow> nat \<Rightarrow> sched \<Rightarrow> sched" where
  "owned_by a x d s = s\<lparr>mutex_mem := (mutex_mem s)(a := map_option (\<lambda>m. m\<lparr>mx_owner := x, mx_depth := d\<rparr>) (mutex_mem s a))\<rparr>"

definition mutex_granted :: "tcb \<Rightarrow> tcb" where
  "mutex_granted t = t\<lparr>t_granted_mutex := t_waiting_mutex t, t_waiting_mutex := 0, t_wake_at := 0, t_sem_granted := True\<rparr>"

lemma reprio_mod_task_both:
  assumes "reprio s s'" "\<And>t. erase_task (f t) = erase_task (f (erase_task t))"
  shows "reprio (mod_task x f s) (mod_task x f s')"
proof -
  have t: "map erase_task (tasks s') = map erase_task (tasks s)"
    using arg_cong [OF assms(1) [unfolded reprio_def], of tasks] by (simp add: erase_def)
  have "map erase_task ((tasks s')[x := f (tasks s' ! x)]) = map erase_task ((tasks s)[x := f (tasks s ! x)])"
  proof (cases "x < length (tasks s)")
    case True
    from arg_cong [OF t, of "\<lambda>xs. xs ! x"] have "erase_task (tasks s' ! x) = erase_task (tasks s ! x)"
      using True reprio_sel(1) [OF assms(1)] by simp
    then have "erase_task (f (tasks s' ! x)) = erase_task (f (tasks s ! x))" using assms(2) by metis
    with t show ?thesis by (simp add: map_update)
  qed (use t reprio_sel(1) [OF assms(1)] in \<open>simp add: list_update_beyond\<close>)
  moreover have "erase (mod_task x f s0) = (erase s0)\<lparr>tasks := map erase_task ((tasks s0)[x := f (tasks s0 ! x)])\<rparr>" for s0
    by (simp add: erase_def mod_task_def)
  ultimately show ?thesis using assms(1) by (simp add: reprio_def)
qed

lemma erase_marks:
  "erase_task (mutex_granted t) = erase_task (mutex_granted (erase_task t))"
  "erase_task (ready_mark now t) = erase_task (ready_mark now (erase_task t))"
  by (cases t; simp add: erase_task_def mutex_granted_def ready_mark_def)+

lemma reprio_owned_by: "reprio s s' \<Longrightarrow> reprio (owned_by a x d s) (owned_by a x d s')"
proof -
  assume re: "reprio s s'"
  let ?e = "map_option (\<lambda>m. m\<lparr>mx_wait_head := 0, mx_wait_tail := 0\<rparr>)"
  have e: "erase s' = erase s" using re by (simp add: reprio_def)
  have m: "?e (mutex_mem s' b) = ?e (mutex_mem s b)" for b
    using arg_cong [OF e, of "\<lambda>s. mutex_mem s b"] by (simp add: erase_def)
  have com: "m\<lparr>mx_owner := x, mx_depth := d, mx_wait_head := 0, mx_wait_tail := 0\<rparr>
      = m\<lparr>mx_wait_head := 0, mx_wait_tail := 0, mx_owner := x, mx_depth := d\<rparr>" for m :: mutex_state by (cases m) simp
  have "?e (mutex_mem (owned_by a x d s') b) = ?e (mutex_mem (owned_by a x d s) b)" for b
    using m [of b] arg_cong [OF m [of a], of "map_option (\<lambda>m. m\<lparr>mx_owner := x, mx_depth := d\<rparr>)"]
    by (auto simp: owned_by_def option.map_comp comp_def com)
  moreover have "erase (owned_by a x d s0) = (erase s0)\<lparr>mutex_mem := \<lambda>b. ?e (mutex_mem (owned_by a x d s0) b)\<rparr>" for s0
    by (simp add: erase_def owned_by_def)
  ultimately show ?thesis using e by (simp add: reprio_def)
qed

lemma owned_by_sel [simp]:
  "tasks (owned_by a x d s) = tasks s" "sem_mem (owned_by a x d s) = sem_mem s" "current (owned_by a x d s) = current s"
  "pending_switch (owned_by a x d s) = pending_switch s" "steady s0 (owned_by a x d s) = steady s0 s"
  "mutex_mem (owned_by a x d s) b = (if b = a then map_option (\<lambda>m. m\<lparr>mx_owner := x, mx_depth := d\<rparr>) (mutex_mem s a) else mutex_mem s b)"
  "owned_but X (owned_by a x d s) Q = owned_but X s Q"
  by (simp_all add: owned_by_def steady_def)

lemma waits_rep_owned_by [simp]: "waits_rep X Y (owned_by a x d s) S M = waits_rep X Y s S M"
proof -
  have "mutex_view (owned_by a x d s) = mutex_view s" "sem_view (owned_by a x d s) = sem_view s"
    by (auto simp: mutex_view_def sem_view_def mutex_ends_def [abs_def] fun_eq_iff option.map_comp comp_def)
  then show ?thesis by (simp add: waits_rep_def fam_rep_tasks [of "owned_by a x d s" s])
qed

text \<open>
  The mutex goes to the waiter that was popped, while no donation of its queue is counted: the
  others now wait for the new owner, which waits for nothing.
\<close>

lemma grant_spec:
  assumes inv: "prop_inv {x} (insert x (set (M a))) s Q S M" and st: "settled_but {} s" and m: "mutex_mem s a = Some m"
    and x: "x < TASK_SLOT_COUNT" "state_of s x = Blocked" "t_waiting_mutex (tasks s ! x) = a" "t_waiting_sem (tasks s ! x) = 0" "a \<noteq> 0"
  shows "\<exists>s'. make_ready x now (mod_task x mutex_granted (owned_by a x 1 s)) = Some s'
    \<and> moving x {} (set (M a)) M s' s' \<and> reprio (mod_task x (ready_mark now) (mod_task x mutex_granted (owned_by a x 1 s))) s'
    \<and> t_waiting_mutex (tasks s' ! x) = 0 \<and> (\<forall>w \<in> set (M a). waits_for s' w = Some x)"
proof -
  note d = prop_invD [OF inv]
  have xl: "x < length (tasks s)" using x d(7) by simp
  let ?s = "owned_by a x 1 s"
  from wake_spec [of ?s Q x S M mutex_granted now] d(1,2) x obtain s' Q' R where
    r: "make_ready x now (mod_task x mutex_granted ?s) = Some s'" "owned_but {} s' Q'" "waits_rep {} {} s' S M"
      "relinked R (mod_task x (ready_mark now) (mod_task x mutex_granted ?s)) s'" by (auto simp: mutex_granted_def)
  have t: "\<exists>n. tasks s' ! j = (if j = x then ready_mark now (mutex_granted (tasks s ! x)) else tasks s ! j)\<lparr>t_next := n\<rparr>"
    if "j < TASK_SLOT_COUNT" for j
    using relinked_task(1) [OF r(4), of j] that d(7) xl by (auto simp: mod_task_at)
  have mm: "mutex_mem s' = mutex_mem ?s" using relinked_sel [OF r(4)] by simp
  have f: "prio_of s' j = prio_of s j" "t_base_priority (tasks s' ! j) = t_base_priority (tasks s ! j)"
    "t_inherited_waiters (tasks s' ! j) = t_inherited_waiters (tasks s ! j)"
    "t_waiting_mutex (tasks s' ! j) = (if j = x then 0 else t_waiting_mutex (tasks s ! j))" if "j < TASK_SLOT_COUNT" for j
    using t [OF that] by (auto simp: ready_mark_def mutex_granted_def)
  have on: "t_waiting_mutex (tasks s ! j) = a \<longleftrightarrow> j \<in> set (M a)" if "j < TASK_SLOT_COUNT" "j \<noteq> x" for j
    using fam_waiting(1) [OF waits_repD(2) [OF d(2)], of j a] fam_repD(7) [OF waits_repD(2) [OF d(2)], of j a] that x(5) by auto
  have wf: "waits_for s' j = (if j = x then None else if j \<in> set (M a) then Some x else waits_for s j)" if "j < TASK_SLOT_COUNT" for j
    using f(4) [OF that] on [OF that] m x(5) slot_not_NIL [OF x(1)] unfolding waits_for_def mm by (cases "j = x") auto
  have dn: "donors s' j q - set (M a) = donors s j q - insert x (set (M a))" for j q
    using wf f(1) by (auto simp: donors_def split: if_splits)
  have "donations_but (set (M a)) s'" using d(3) f(3) by (simp add: donations_but_def dn)
  moreover have "owners_ok s'" using d(4) x(1) unfolding owners_ok_def mm by auto
  moreover have "acyclic (wait_edges s')"
    by (rule acyclic_into_sink [OF d(5), of _ x]) (auto simp: wait_edges_def wf split: if_splits)
  moreover have "bases_ok s'" using d(6) f(2) by (simp add: bases_ok_def)
  ultimately have "prop_inv {} (set (M a)) s' Q' S M" using r(2,3) by (simp add: prop_inv_def)
  moreover have "settled s' j = settled s j" if "j < TASK_SLOT_COUNT" for j
    using f(1-3) [OF that] by (simp add: settled_def wanted_priority_def inherited_priority_def split: option.split)
  then have "settled_but {} s'" using st d(7) owned_butD(8) [OF r(2)] by (simp add: settled_but_def)
  ultimately have "moving x {} (set (M a)) M s' s'" by (auto simp: moving_def)
  moreover have "waits_for s' w = Some x" if "w \<in> set (M a)" for w
    using wf [of w] that mutex_queue(4) [OF d(2) m] fam_repD(5) [OF waits_repD(2) [OF d(2)] that] by auto
  ultimately show ?thesis using r(1) relinked_reprio [OF r(4)] f(4) [OF x(1)] by auto
qed

lemma release_unwanted:
  assumes inv: "prop_inv {} {} s Q S M" and st: "settled_but {} s" and m: "mutex_mem s a = Some m" and Nil: "M a = []"
  shows "release_mutex_locked a owner now s = Some (s\<lparr>mutex_mem := (mutex_mem s)(a \<mapsto> m\<lparr>mx_owner := NIL\<rparr>)\<rparr>)"
    "prop_inv {} {} (s\<lparr>mutex_mem := (mutex_mem s)(a \<mapsto> m\<lparr>mx_owner := NIL\<rparr>)\<rparr>) Q S M"
    "settled_but {} (s\<lparr>mutex_mem := (mutex_mem s)(a \<mapsto> m\<lparr>mx_owner := NIL\<rparr>)\<rparr>)"
proof -
  note d = prop_invD [OF inv] and r = waits_repD [OF prop_invD(2) [OF inv]]
  let ?s = "s\<lparr>mutex_mem := (mutex_mem s)(a \<mapsto> m\<lparr>mx_owner := NIL\<rparr>)\<rparr>"
  have a0: "a \<noteq> 0" using fam_repD(2) [OF r(2), of a] m by (simp add: mutex_view_def)
  have h: "mx_wait_head m = NIL" using mutex_queue(1) [OF d(2) m] Nil by simp
  show "release_mutex_locked a owner now s = Some ?s"
    using m h by (simp add: release_mutex_locked_def pop_mutex_waiter_def mutex_update_def)
  have nw: "t_waiting_mutex (tasks s ! i) \<noteq> a" if "i < TASK_SLOT_COUNT" for i
    using fam_waiting(1) [OF r(2) that _ refl] Nil a0 by auto
  then have wf: "waits_for ?s i = waits_for s i" if "i < TASK_SLOT_COUNT" for i using that by (simp add: waits_for_def)
  then have dn: "donors ?s j p = donors s j p" "wait_edges ?s = wait_edges s" for j p by (auto simp: donors_def wait_edges_def)
  have "mutex_view ?s = mutex_view s" "sem_view ?s = sem_view s"
    using m by (auto simp: mutex_view_def sem_view_def mutex_ends_def fun_eq_iff)
  then have "waits_rep {} {} ?s S M" using d(2) by (simp add: waits_rep_def fam_rep_tasks [of ?s s])
  then show "prop_inv {} {} ?s Q S M" using d by (auto simp: prop_inv_def donations_but_def dn owners_ok_def bases_ok_def)
  show "settled_but {} ?s" using st by (simp add: settled_but_def settled_def)
qed

text \<open>The first waiter leaves the queue, and the owner loses the donations of the whole queue.\<close>

lemma withdraw_spec:
  assumes inv: "prop_inv {} {} s Q S M" and st: "settled_but {} s" and m: "mutex_mem s a = Some m" "mx_owner m = owner"
    and o: "owner < TASK_SLOT_COUNT" "t_waiting_mutex (tasks s ! owner) = 0" and Cons: "M a = x # xs"
  shows "\<exists>m1 s1 s2 m2 s3 Q3 S3. pop_mutex_waiter m s = Some (x, m1, s1)
    \<and> length (tasks s1) = TASK_SLOT_COUNT
    \<and> remove_inheritance owner (prio_of s1 x) (s1\<lparr>mutex_mem := (mutex_mem s1)(a \<mapsto> m1)\<rparr>) = Some s2 \<and> mutex_mem s2 a = Some m2
    \<and> each_waiter (remove_inheritance owner) (mx_wait_head m2) s2 = Some s3
    \<and> prop_inv {x} (insert x (set xs)) s3 Q3 S3 (M(a := xs)) \<and> settled_but {} s3 \<and> reprio s s3"
proof -
  note d = prop_invD [OF inv] and r = waits_repD [OF prop_invD(2) [OF inv]]
  note q = mutex_queue [OF d(2) m(1)]
  let ?M = "M(a := xs)"
  have a0: "a \<noteq> 0" using fam_repD(2) [OF r(2), of a] m by (simp add: mutex_view_def)
  have xa: "x \<in> set (M a)" "x \<notin> set xs" using Cons q(3) by simp_all
  have wf: "waits_for s w = Some owner" if "w \<in> set (M a)" for w
    using fam_repD(7) [OF r(2) that] a0 m o(1) slot_not_NIL [OF o(1)] by (simp add: waits_for_def)
  have ox: "owner \<noteq> x" using o(2) wf [OF xa(1)] by (auto simp: waits_for_def)
  from mutex_pop [OF d(2,7) Cons m(1)] obtain m1 s1 where
    1: "pop_mutex_waiter m s = Some (x, m1, s1)" "mx_owner m1 = mx_owner m" "mx_depth m1 = mx_depth m" "rewired {x} s s1"
      "waits_rep {x} {} (s1\<lparr>mutex_mem := (mutex_mem s1)(a \<mapsto> m1)\<rparr>) S ?M" by auto
  let ?s1 = "s1\<lparr>mutex_mem := (mutex_mem s1)(a \<mapsto> m1)\<rparr>"
  note re1 = rewired_relinked [OF 1(4)]
  have mt: "mutex_touched a {x} s ?s1"
    unfolding mutex_touched_def using 1(2-4) m(1) relinked_sel [OF re1] by (intro exI [of _ s1] exI [of _ m] exI [of _ m1]) simp
  have r1: "reprio s ?s1" using mutex_touched_reprio [OF mt] .
  have "queued Q \<inter> {x} = {}" using queued_not_waiting [OF d(1,2)] xa by (auto simp: members_def)
  from owned_touched(2) [OF d(1) this mt] have own1: "owned_but {} ?s1 Q" .
  have ps: "prio_same s ?s1"
    using prio_same_relinked [OF re1] relinked_sel [OF re1] m(1) 1(2) by (auto simp: prio_same_def)
  have inv1: "prop_inv {x} {} ?s1 Q S ?M" using prop_inv_same [OF inv ps own1 1(5)] .
  have st1: "settled_but {} ?s1" using prio_same_inv(5) [OF ps d(7)] st by blast
  have l1: "length (tasks ?s1) = TASK_SLOT_COUNT" using prop_invD(7) [OF inv1] .
  have wf1: "waits_for ?s1 w = Some owner" if "w \<in> set (M a)" for w
    using prio_same_waits_for [OF ps, of w] wf [OF that] q(4) [OF that] d(7) by simp
  have ow1: "t_waiting_mutex (tasks ?s1 ! owner) = 0" using reprio_fields(3) [OF r1, of owner] o d(7) by simp
  have mv1: "moving owner {x} {} ?M ?s1 ?s1" using inv1 st1 by (auto simp: moving_def)
  have xl: "x < TASK_SLOT_COUNT" using q(4) [OF xa(1)] by simp
  from moving_step(1) [OF mv1 l1 o(1) ow1 _ xl wf1 [OF xa(1)]] ox obtain s2 where
    2: "remove_inheritance owner (prio_of ?s1 x) ?s1 = Some s2" "moving owner {x} {x} ?M ?s1 s2" by auto
  have r2: "reprio ?s1 s2" "settled_but {} s2" "moving owner {x} {x} ?M s2 s2" using 2(2) by (auto simp: moving_def)
  have l2: "length (tasks s2) = TASK_SLOT_COUNT" using reprio_sel(1) [OF r2(1)] l1 by simp
  obtain m2 where m2: "mutex_mem s2 a = Some m2" using reprio_mem(2) [OF r2(1), of a] by auto
  have ow2: "t_waiting_mutex (tasks s2 ! owner) = 0" using reprio_fields(3) [OF r2(1), of owner] ow1 o l1 by simp
  have wf2: "waits_for s2 w = Some owner" if "w \<in> set (?M a)" for w
    using reprio_waits_for [OF r2(1), of w] wf1 [of w] q(4) [of w] that Cons l1 by simp
  obtain Q2 S2 where inv2: "prop_inv {x} {x} s2 Q2 S2 ?M" using 2(2) by (auto simp: moving_def)
  from each_waiter_moves(1) [OF r2(3) l2 m2 o(1) ow2 _ wf2] ox xa(2) obtain s3 where
    3: "each_waiter (remove_inheritance owner) (hd_or_NIL xs) s2 = Some s3" "moving owner {x} (insert x (set xs)) ?M s2 s3" by auto
  have h2: "mx_wait_head m2 = hd_or_NIL xs" using mutex_queue(1) [OF prop_invD(2) [OF inv2] m2] by simp
  obtain Q3 S3 where "prop_inv {x} (insert x (set xs)) s3 Q3 S3 ?M" "settled_but {} s3" "reprio s2 s3"
    using 3(2) by (auto simp: moving_def)
  with reprio_trans [OF reprio_trans [OF r1 r2(1)]] 1(1) l1 2(1) m2 h2 3(1) show ?thesis by auto
qed

lemma release_spec:
  assumes inv: "prop_inv {} {} s Q S M" and st: "settled_but {} s" and m: "mutex_mem s a = Some m" "mx_owner m = owner"
    and o: "owner < TASK_SLOT_COUNT" "t_waiting_mutex (tasks s ! owner) = 0" and Cons: "M a = x # xs"
  shows "\<exists>s' Q' S'. release_mutex_locked a owner now s = Some s' \<and> prop_inv {} {} s' Q' S' (M(a := xs)) \<and> settled_but {} s'
    \<and> reprio (mod_task x (ready_mark now) (mod_task x mutex_granted (owned_by a x 1 s))) s'"
proof -
  note d = prop_invD [OF inv] and r = waits_repD [OF prop_invD(2) [OF inv]]
  let ?M = "M(a := xs)"
  have a0: "a \<noteq> 0" using fam_repD(2) [OF r(2), of a] m by (simp add: mutex_view_def)
  have xa: "x \<in> set (M a)" using Cons by simp
  have x: "x < TASK_SLOT_COUNT" "x \<noteq> NIL" "state_of s x = Blocked" "t_waiting_mutex (tasks s ! x) = a" "t_waiting_sem (tasks s ! x) = 0"
    using mutex_queue(4) [OF d(2) m(1) xa] fam_repD(6,7) [OF r(2) xa] members_iff [OF r(1), of x] r(3) xa by (auto simp: members_def)
  from withdraw_spec [OF inv st m o Cons] obtain m1 s1 s2 m2 s3 Q3 S3 where
    w: "pop_mutex_waiter m s = Some (x, m1, s1)" "length (tasks s1) = TASK_SLOT_COUNT"
      "remove_inheritance owner (prio_of s1 x) (s1\<lparr>mutex_mem := (mutex_mem s1)(a \<mapsto> m1)\<rparr>) = Some s2" "mutex_mem s2 a = Some m2"
      "each_waiter (remove_inheritance owner) (mx_wait_head m2) s2 = Some s3"
      "prop_inv {x} (insert x (set xs)) s3 Q3 S3 (M(a := xs))" "settled_but {} s3" "reprio s s3" by (elim exE conjE)
  have inv3: "prop_inv {x} (insert x (set (?M a))) s3 Q3 S3 ?M" using w(6) by simp
  obtain m3 where m3: "mutex_mem s3 a = Some m3" using reprio_mem(2) [OF w(8), of a] m by auto
  have x3: "state_of s3 x = Blocked" "t_waiting_mutex (tasks s3 ! x) = a" "t_waiting_sem (tasks s3 ! x) = 0"
    using reprio_fields(1-3) [OF w(8), of x] x d(7) by simp_all
  from grant_spec [OF inv3 w(7) m3 x(1) x3 a0, of now] obtain s4 where
    4: "make_ready x now (mod_task x mutex_granted (owned_by a x 1 s3)) = Some s4" "moving x {} (set (?M a)) ?M s4 s4"
      "reprio (mod_task x (ready_mark now) (mod_task x mutex_granted (owned_by a x 1 s3))) s4"
      "t_waiting_mutex (tasks s4 ! x) = 0" "\<forall>w \<in> set (?M a). waits_for s4 w = Some x" by (elim exE conjE)
  obtain Q4 S4 where inv4: "prop_inv {} (set (?M a)) s4 Q4 S4 ?M" using 4(2) by (auto simp: moving_def)
  obtain m4 where m4: "mutex_mem s4 a = Some m4" using reprio_mem(2) [OF 4(3), of a] m3 by auto
  from each_waiter_moves(2) [OF 4(2) prop_invD(7) [OF inv4] m4 x(1) 4(4)] 4(5) obtain s5 where
    5: "each_waiter (add_inheritance x) (hd_or_NIL xs) s4 = Some s5" "moving x {} {} ?M s4 s5" by auto
  have h4: "mx_wait_head m4 = hd_or_NIL xs" using mutex_queue(1) [OF prop_invD(2) [OF inv4] m4] by simp
  have f: "mutex_granted = (\<lambda>t. t\<lparr>t_granted_mutex := t_waiting_mutex t, t_waiting_mutex := 0, t_wake_at := 0, t_sem_granted := True\<rparr>)"
    by (simp add: mutex_granted_def fun_eq_iff)
  have ob: "mutex_update a (\<lambda>st. st\<lparr>mx_owner := x, mx_depth := 1\<rparr>) s3 = Some (owned_by a x 1 s3)"
    using m3 by (simp add: mutex_update_def owned_by_def)
  have l3: "length (tasks s3) = TASK_SLOT_COUNT" using prop_invD(7) [OF inv3] .
  have run: "release_mutex_locked a owner now s = Some s5"
    using m(1) w(1-5) x(1,2) ob l3 4(1) m4 h4 5(1) by (simp add: release_mutex_locked_def f)
  have "reprio (mod_task x (ready_mark now) (mod_task x mutex_granted (owned_by a x 1 s)))
      (mod_task x (ready_mark now) (mod_task x mutex_granted (owned_by a x 1 s3)))"
    by (intro reprio_mod_task_both reprio_owned_by w(8) erase_marks)
  moreover obtain Q5 S5 where "prop_inv {} {} s5 Q5 S5 ?M" "settled_but {} s5" "reprio s4 s5" using 5(2) by (auto simp: moving_def)
  ultimately show ?thesis using run reprio_trans 4(3) by blast
qed

subsection \<open>Back to the invariant of the kernel\<close>

text \<open>A queue is empty when nobody waits for its object.\<close>

lemma queue_empty_iff:
  assumes "waits_rep {} Y s S M"
  shows "sem_mem s b = Some st \<Longrightarrow> S b = [] \<longleftrightarrow> (\<forall>i < TASK_SLOT_COUNT. t_waiting_sem (tasks s ! i) \<noteq> b)"
    "mutex_mem s b = Some m \<Longrightarrow> M b = [] \<longleftrightarrow> (\<forall>i < TASK_SLOT_COUNT. t_waiting_mutex (tasks s ! i) \<noteq> b)"
proof -
  have e: "q = [] \<longleftrightarrow> (\<forall>i < TASK_SLOT_COUNT. w (tasks s ! i) \<noteq> b)"
    if f: "fam_rep {} Y s E w F" "E b \<noteq> None" "q = F b" for E w F Y q
  proof -
    obtain e where "E b = Some e" using f(2) by blast
    then have "b \<noteq> 0" using fam_repD(2) [OF f(1)] by blast
    then have "i \<in> set q \<longleftrightarrow> w (tasks s ! i) = b" if "i < TASK_SLOT_COUNT" for i
      using fam_waiting(1) [OF f(1) that, of b] fam_repD(7) [OF f(1), of i b] f(3) by auto
    moreover have "i < TASK_SLOT_COUNT" if "i \<in> set q" for i using fam_member(1) [OF f(1), of i b] that f(3) by simp
    ultimately show ?thesis by (metis all_not_in_conv set_empty)
  qed
  show "sem_mem s b = Some st \<Longrightarrow> S b = [] \<longleftrightarrow> (\<forall>i < TASK_SLOT_COUNT. t_waiting_sem (tasks s ! i) \<noteq> b)"
    by (rule e [OF waits_repD(1) [OF assms]]) (simp_all add: sem_view_def)
  show "mutex_mem s b = Some m \<Longrightarrow> M b = [] \<longleftrightarrow> (\<forall>i < TASK_SLOT_COUNT. t_waiting_mutex (tasks s ! i) \<noteq> b)"
    by (rule e [OF waits_repD(2) [OF assms]]) (simp_all add: mutex_view_def)
qed

text \<open>
  What a step of a mutex does to the rest of the kernel, seen from the state \<open>r\<close> it would lead to
  if priorities and queues were left alone.
\<close>

lemma kernel_reprio:
  assumes inv: "kernel_inv s Q S M" and pv: "prop_inv {} {} s' Q' S' M'" "settled_but {} s'" and re: "reprio r s'"
    and r: "length (tasks r) = TASK_SLOT_COUNT" "current r = current s" "pending_switch r = pending_switch s" "steady s r"
      "\<And>i. i < TASK_SLOT_COUNT \<Longrightarrow> trap_kept (tasks s ! i) (tasks r ! i)" "state_of r IDLE_SLOT = state_of s IDLE_SLOT"
    and sm: "\<And>b. map_option sm_count (sem_mem r b) = map_option sm_count (sem_mem s b)"
      "\<And>i. i < TASK_SLOT_COUNT \<Longrightarrow> t_waiting_sem (tasks r ! i) = t_waiting_sem (tasks s ! i) \<or> t_waiting_sem (tasks r ! i) = 0"
    and mx: "\<And>b m. mutex_mem r b = Some m \<Longrightarrow> (mx_owner m = NIL \<longleftrightarrow> mx_depth m = 0) \<and> mx_depth m \<le> U32_MAX
      \<and> (mx_owner m = NIL \<longrightarrow> (\<forall>i < TASK_SLOT_COUNT. t_waiting_mutex (tasks r ! i) \<noteq> b))"
    and g: "\<And>i. i < TASK_SLOT_COUNT \<Longrightarrow> grant_ok r i"
  shows "kernel_inv s' Q' S' M'"
proof -
  note k = kernel_invD [OF inv] and d = sync_invD [OF kernel_invD(1) [OF inv]] and p = prop_invD [OF pv(1)]
  note f = reprio_fields [OF re] and sel = reprio_sel [OF re] and mem = reprio_mem [OF re]
  have mr: "\<exists>m0. mutex_mem r b = Some m0 \<and> mx_owner m0 = mx_owner m \<and> mx_depth m0 = mx_depth m" if "mutex_mem s' b = Some m" for b m
    using mem(2) [of b] that by (cases "mutex_mem r b") auto
  have mr': "\<exists>m'. mutex_mem s' b = Some m' \<and> mx_owner m' = mx_owner m \<and> mx_depth m' = mx_depth m" if "mutex_mem r b = Some m" for b m
    using mem(2) [of b] that by (cases "mutex_mem s' b") auto
  have sr: "\<exists>st0. sem_mem s b = Some st0 \<and> sm_count st0 = sm_count st" if "sem_mem s' b = Some st" for b st
    using mem(1) [of b] sm(1) [of b] that by (cases "sem_mem s b") auto
  have "objects_ok s' S' M'"
    unfolding objects_ok_def
  proof (intro conjI allI impI)
    fix b st
    assume b: "sem_mem s' b = Some st"
    then obtain st0 where st0: "sem_mem s b = Some st0" "sm_count st0 = sm_count st" using sr by blast
    then show "0 \<le> sm_count st" "sm_count st \<le> I32_MAX" using d(9) unfolding objects_ok_def by metis+
    have b0: "b \<noteq> 0" using fam_repD(2) [OF waits_repD(1) [OF p(2)], of b] b by (simp add: sem_view_def)
    assume "0 < sm_count st"
    then have "S b = []" using st0 d(9) by (auto simp: objects_ok_def)
    then have "\<forall>i < TASK_SLOT_COUNT. t_waiting_sem (tasks s ! i) \<noteq> b" using queue_empty_iff(1) [OF d(2) st0(1)] by blast
    then have "\<forall>i < TASK_SLOT_COUNT. t_waiting_sem (tasks s' ! i) \<noteq> b" using sm(2) f(2) r(1) b0 by fastforce
    then show "S' b = []" using queue_empty_iff(1) [OF p(2) b] by blast
  next
    fix b m
    assume b: "mutex_mem s' b = Some m"
    then obtain m0 where m0: "mutex_mem r b = Some m0" "mx_owner m0 = mx_owner m" "mx_depth m0 = mx_depth m" using mr by blast
    show "mx_owner m = NIL \<longleftrightarrow> mx_depth m = 0" "mx_depth m \<le> U32_MAX" using mx [OF m0(1)] m0(2,3) by simp_all
    show "M' b = []" if "mx_owner m = NIL"
      using mx [OF m0(1)] m0(2) that f(3) r(1) queue_empty_iff(2) [OF p(2) b] by simp
  qed
  moreover have "grant_ok s' i" if "i < TASK_SLOT_COUNT" for i
  proof (rule grant_ok_frame [OF g [OF that]])
    show "sem_mem s' b \<noteq> None" if "sem_mem r b \<noteq> None" for b using mem(1) [of b] that by auto
    show "\<exists>m'. mutex_mem s' b = Some m' \<and> mx_owner m' = i \<and> mx_depth m' = 1"
      if "mutex_mem r b = Some m" "mx_owner m = i" "mx_depth m = 1" for b m using mr' [OF that(1)] that(2,3) by auto
  qed (use f that r(1) in simp_all)
  ultimately have sy: "sync_inv s' Q' S' M'" using pv by (simp add: sync_inv_def)
  show ?thesis
  proof (rule kernel_transfer [OF inv sy])
    show "steady s s'" "current s' = current s" "pending_switch s' = pending_switch s" using sel r by (simp_all add: steady_def)
    show "trap_kept (tasks s ! i) (tasks s' ! i)" if "i < TASK_SLOT_COUNT" for i
      using r(5) [OF that] f [of i] r(1) that by (simp add: trap_kept_def)
    show "state_of s' IDLE_SLOT = Ready \<or> state_of s' IDLE_SLOT = Running" using f(1) [of IDLE_SLOT] r(1,6) k(4) by simp
  qed
qed

subsection \<open>Releasing\<close>

definition handed :: "nat \<Rightarrow> nat \<Rightarrow> nat \<Rightarrow> sched \<Rightarrow> sched" where
  "handed a x now s = mod_task x (ready_mark now) (mod_task x mutex_granted (owned_by a x 1 s))"

lemma handed_sel:
  assumes "x < length (tasks s)"
  shows "tasks (handed a x now s) ! i = (if i = x then ready_mark now (mutex_granted (tasks s ! x)) else tasks s ! i)"
    "length (tasks (handed a x now s)) = length (tasks s)" "current (handed a x now s) = current s"
    "pending_switch (handed a x now s) = pending_switch s" "steady s (handed a x now s)" "sem_mem (handed a x now s) = sem_mem s"
    "mutex_mem (handed a x now s) b = mutex_mem (owned_by a x 1 s) b"
  using assms by (auto simp: handed_def mod_task_at) (simp_all add: steady_def owned_by_def)

lemma mutex_waiter:
  assumes inv: "sync_inv s Q S M" and x: "x \<in> set (M a)"
  shows "x < TASK_SLOT_COUNT" "state_of s x = Blocked" "t_waiting_mutex (tasks s ! x) = a" "a \<noteq> 0" "t_waiting_sem (tasks s ! x) = 0"
    "\<exists>m. mutex_mem s a = Some m" "\<not> t_sem_granted (tasks s ! x)" "t_granted_sem (tasks s ! x) = 0" "t_granted_mutex (tasks s ! x) = 0"
proof -
  note d = sync_invD [OF inv] and r = waits_repD [OF sync_invD(2) [OF inv]]
  show b: "x < TASK_SLOT_COUNT" "a \<noteq> 0" "state_of s x = Blocked" "t_waiting_mutex (tasks s ! x) = a"
    using fam_member(1,3) [OF r(2) x] fam_repD(6,7) [OF r(2) x] by simp_all
  show "\<exists>m. mutex_mem s a = Some m" using fam_member(2) [OF r(2) x] by (auto simp: mutex_view_def)
  show "t_waiting_sem (tasks s ! x) = 0" using members_iff [OF r(1), of x] r(3) x b(1) by (auto simp: members_def)
  show g: "\<not> t_sem_granted (tasks s ! x)" using d(10) [OF b(1)] b by (auto simp: grant_ok_def Let_def)
  then show "t_granted_sem (tasks s ! x) = 0" "t_granted_mutex (tasks s ! x) = 0"
    using d(10) [OF b(1)] by (auto simp: grant_ok_def Let_def)
qed

lemma kernel_release:
  assumes inv: "kernel_inv s Q S M" and m: "mutex_mem s a = Some m" "mx_owner m = y" and y: "y < TASK_SLOT_COUNT"
    "t_waiting_mutex (tasks s ! y) = 0" "t_granted_mutex (tasks s ! y) = 0"
  shows "\<exists>s' Q' S'. release_mutex_locked a y now (s\<lparr>mutex_mem := (mutex_mem s)(a \<mapsto> m\<lparr>mx_depth := 0\<rparr>)\<rparr>) = Some s'
    \<and> kernel_inv s' Q' S' (M(a := tl (M a)))
    \<and> (M a = [] \<longrightarrow> s' = s\<lparr>mutex_mem := (mutex_mem s)(a \<mapsto> m\<lparr>mx_owner := NIL, mx_depth := 0\<rparr>)\<rparr>)
    \<and> (\<forall>x xs. M a = x # xs \<longrightarrow> reprio (handed a x now s) s')"
proof -
  note k = kernel_invD [OF inv] and d = sync_invD [OF kernel_invD(1) [OF inv]]
  let ?s = "s\<lparr>mutex_mem := (mutex_mem s)(a \<mapsto> m\<lparr>mx_depth := 0\<rparr>)\<rparr>" and ?m = "m\<lparr>mx_depth := 0\<rparr>"
  have ps: "prio_same s ?s" using m by (auto simp: prio_same_def)
  have v: "mutex_view ?s = mutex_view s" "sem_view ?s = sem_view s"
    using m by (auto simp: mutex_view_def sem_view_def mutex_ends_def fun_eq_iff)
  have "waits_rep {} {} ?s S M" using d(2) by (simp add: waits_rep_def v fam_rep_tasks [of ?s s])
  then have pv: "prop_inv {} {} ?s Q S M" using prop_inv_same [OF sync_inv_prop [OF k(1)] ps] k(8) by simp
  have st: "settled_but {} ?s" using prio_same_inv(5) [OF ps d(7)] d(8) by blast
  have m1: "mutex_mem ?s a = Some ?m" "mx_owner ?m = y" using m by simp_all
  have g: "grant_ok s i" "t_granted_mutex (tasks s ! i) \<noteq> a" if "i < TASK_SLOT_COUNT" for i
  proof -
    show gi: "grant_ok s i" using d(10) [OF that] .
    have "a \<noteq> 0" using fam_repD(2) [OF waits_repD(2) [OF d(2)], of a] m by (simp add: mutex_view_def)
    then show "t_granted_mutex (tasks s ! i) \<noteq> a" using gi m y(3) by (auto simp: grant_ok_def Let_def)
  qed
  show ?thesis
  proof (cases "M a")
    case Nil
    let ?s' = "?s\<lparr>mutex_mem := (mutex_mem ?s)(a \<mapsto> ?m\<lparr>mx_owner := NIL\<rparr>)\<rparr>"
    note r = release_unwanted [OF pv st m1(1) Nil]
    have nw: "t_waiting_mutex (tasks s ! i) \<noteq> a" if "i < TASK_SLOT_COUNT" for i
      using queue_empty_iff(2) [OF d(2) m(1)] Nil that by blast
    have "kernel_inv ?s' Q S M"
    proof (rule kernel_reprio [OF inv r(2,3) reprio_refl])
      show "grant_ok ?s' i" if "i < TASK_SLOT_COUNT" for i
        by (rule grant_ok_frame [OF g(1) [OF that]]) (use g(2) [OF that] in auto)
      show "(mx_owner n = NIL \<longleftrightarrow> mx_depth n = 0) \<and> mx_depth n \<le> U32_MAX
          \<and> (mx_owner n = NIL \<longrightarrow> (\<forall>i < TASK_SLOT_COUNT. t_waiting_mutex (tasks ?s' ! i) \<noteq> b))" if "mutex_mem ?s' b = Some n" for b n
      proof (cases "b = a")
        case False
        then show ?thesis using d(9) queue_empty_iff(2) [OF d(2), of b n] that by (auto simp: objects_ok_def)
      qed (use that nw in auto)
    qed (use k(4,7) in \<open>auto simp: steady_def trap_kept_def\<close>)
    moreover have "?s' = s\<lparr>mutex_mem := (mutex_mem s)(a \<mapsto> m\<lparr>mx_owner := NIL, mx_depth := 0\<rparr>)\<rparr>" by (cases m) simp
    moreover have "M(a := tl (M a)) = M" using Nil by (simp add: fun_upd_idem)
    ultimately show ?thesis using r(1) Nil by auto
  next
    case (Cons x xs)
    have xa: "x \<in> set (M a)" using Cons by simp
    note x = mutex_waiter [OF k(1) xa]
    have xl: "x < length (tasks s)" using x(1) k(7) by simp
    from release_spec [OF pv st m1 y(1) _ Cons, of now] y(2) obtain s' Q' S' where
      r: "release_mutex_locked a y now ?s = Some s'" "prop_inv {} {} s' Q' S' (M(a := xs))" "settled_but {} s'"
        "reprio (handed a x now ?s) s'" by (auto simp: handed_def)
    have "handed a x now ?s = handed a x now s" using m by (cases m) (simp add: handed_def owned_by_def)
    with r(4) have re: "reprio (handed a x now s) s'" by simp
    note h = handed_sel [OF xl, of a now]
    have "kernel_inv s' Q' S' (M(a := xs))"
    proof (rule kernel_reprio [OF inv r(2,3) re])
      show "grant_ok (handed a x now s) i" if i: "i < TASK_SLOT_COUNT" for i
      proof (cases "i = x")
        case True
        then show ?thesis using x m by (auto simp: grant_ok_def h ready_mark_def mutex_granted_def)
      next
        case False
        show ?thesis by (rule grant_ok_frame [OF g(1) [OF i]]) (use g(2) [OF i] False in \<open>auto simp: h\<close>)
      qed
      show "(mx_owner n = NIL \<longleftrightarrow> mx_depth n = 0) \<and> mx_depth n \<le> U32_MAX
          \<and> (mx_owner n = NIL \<longrightarrow> (\<forall>i < TASK_SLOT_COUNT. t_waiting_mutex (tasks (handed a x now s) ! i) \<noteq> b))"
        if "mutex_mem (handed a x now s) b = Some n" for b n
      proof (cases "b = a")
        case False
        have b: "mutex_mem s b = Some n" using that False by (simp add: h)
        then have "b \<noteq> 0" using fam_repD(2) [OF waits_repD(2) [OF d(2)], of b] by (simp add: mutex_view_def)
        then show ?thesis using d(9) queue_empty_iff(2) [OF d(2) b] b
          by (auto simp: objects_ok_def h ready_mark_def mutex_granted_def)
      qed (use that m slot_not_NIL [OF x(1)] in \<open>auto simp: h\<close>)
      show "state_of (handed a x now s) IDLE_SLOT = state_of s IDLE_SLOT" using x(2) k(4) by (auto simp: h)
    qed (use k(7) x(2) h in \<open>auto simp: trap_kept_def ready_mark_def mutex_granted_def\<close>)
    with r(1) re Cons show ?thesis by auto
  qed
qed

lemma ungranted_mutex:
  assumes inv: "kernel_inv s Q S M" and m: "mutex_mem s a = Some m"
    and y: "mx_owner m < TASK_SLOT_COUNT \<Longrightarrow> t_granted_mutex (tasks s ! mx_owner m) = 0" and i: "i < TASK_SLOT_COUNT"
  shows "t_granted_mutex (tasks s ! i) \<noteq> a"
proof -
  note d = sync_invD [OF kernel_invD(1) [OF inv]]
  have "a \<noteq> 0" using fam_repD(2) [OF waits_repD(2) [OF d(2)], of a] m by (simp add: mutex_view_def)
  then show ?thesis using d(10) [OF i] m y i by (auto simp: grant_ok_def Let_def)
qed

text \<open>Taking a free mutex, and taking or giving back one level of an owned one.\<close>

lemma kernel_mutex_level:
  assumes inv: "kernel_inv s Q S M" and m: "mutex_mem s a = Some m" and c: "c < TASK_SLOT_COUNT" "t_granted_mutex (tasks s ! c) = 0"
    and own: "mx_owner m = c \<or> mx_owner m = NIL" and n: "0 < n" "n \<le> U32_MAX"
  shows "kernel_inv (s\<lparr>mutex_mem := (mutex_mem s)(a \<mapsto> m\<lparr>mx_owner := c, mx_depth := n\<rparr>)\<rparr>) Q S M"
proof -
  note k = kernel_invD [OF inv] and d = sync_invD [OF kernel_invD(1) [OF inv]]
  let ?s = "s\<lparr>mutex_mem := (mutex_mem s)(a \<mapsto> m\<lparr>mx_owner := c, mx_depth := n\<rparr>)\<rparr>"
  have v: "mutex_view ?s = mutex_view s" "sem_view ?s = sem_view s"
    using m by (auto simp: mutex_view_def sem_view_def mutex_ends_def fun_eq_iff)
  have w: "waits_rep {} {} ?s S M" using d(2) by (simp add: waits_rep_def v fam_rep_tasks [of ?s s])
  have a0: "a \<noteq> 0" using fam_repD(2) [OF waits_repD(2) [OF d(2)], of a] m by (simp add: mutex_view_def)
  have q: "M a = []" if "mx_owner m = NIL" using d(9) m that by (auto simp: objects_ok_def)
  have wf: "waits_for ?s i = waits_for s i" if "i < TASK_SLOT_COUNT" for i
    using own m q fam_waiting(1) [OF waits_repD(2) [OF d(2)] that, of a] a0 by (cases "mx_owner m = NIL") (auto simp: waits_for_def)
  have dn: "donors ?s j p = donors s j p" "wait_edges ?s = wait_edges s" for j p using wf by (auto simp: donors_def wait_edges_def)
  have pv: "prop_inv {} {} ?s Q S M"
    using d k(8) w c(1) by (auto simp: prop_inv_def donations_but_def dn owners_ok_def bases_ok_def)
  have st: "settled_but {} ?s" using d(8) by (simp add: settled_but_def settled_def)
  have ng: "t_granted_mutex (tasks s ! i) \<noteq> a" if "i < TASK_SLOT_COUNT" for i
    by (rule ungranted_mutex [OF inv m _ that]) (use own c(2) in auto)
  show ?thesis
  proof (rule kernel_reprio [OF inv pv st reprio_refl])
    show "grant_ok ?s i" if "i < TASK_SLOT_COUNT" for i
      by (rule grant_ok_frame [OF d(10) [OF that]]) (use ng [OF that] in auto)
    show "(mx_owner n' = NIL \<longleftrightarrow> mx_depth n' = 0) \<and> mx_depth n' \<le> U32_MAX
        \<and> (mx_owner n' = NIL \<longrightarrow> (\<forall>i < TASK_SLOT_COUNT. t_waiting_mutex (tasks ?s ! i) \<noteq> b))" if "mutex_mem ?s b = Some n'" for b n'
    proof (cases "b = a")
      case False
      then show ?thesis using d(9) queue_empty_iff(2) [OF d(2), of b n'] that by (auto simp: objects_ok_def)
    qed (use that n slot_not_NIL [OF c(1)] in auto)
  qed (use k(4,7) in \<open>auto simp: steady_def trap_kept_def\<close>)
qed

lemma mutex_unlock_spec:
  assumes inv: "kernel_inv s Q S M" and m: "mutex_mem s a = Some m"
    and c: "state_of s (current s) = Running" "t_granted_mutex (tasks s ! current s) = 0"
  shows "if mx_owner m \<noteq> current s then mutex_unlock idepth a now s = Some (Inl InvalidContext, s)
    else if 1 < mx_depth m then mutex_unlock idepth a now s
      = Some (Inr False, s\<lparr>mutex_mem := (mutex_mem s)(a \<mapsto> m\<lparr>mx_depth := mx_depth m - 1\<rparr>)\<rparr>)
      \<and> kernel_inv (s\<lparr>mutex_mem := (mutex_mem s)(a \<mapsto> m\<lparr>mx_depth := mx_depth m - 1\<rparr>)\<rparr>) Q S M
    else \<exists>s' Q' S'. mutex_unlock idepth a now s = Some (Inr (M a \<noteq> [] \<and> idepth = 0), s') \<and> kernel_inv s' Q' S' (M(a := tl (M a)))
      \<and> (M a = [] \<longrightarrow> s' = s\<lparr>mutex_mem := (mutex_mem s)(a \<mapsto> m\<lparr>mx_owner := NIL, mx_depth := 0\<rparr>)\<rparr>)
      \<and> (\<forall>x xs. M a = x # xs \<longrightarrow> reprio (handed a x now s) s')"
proof -
  note k = kernel_invD [OF inv] and d = sync_invD [OF kernel_invD(1) [OF inv]]
  note al = running_alone [OF inv c(1)]
  have own: "mx_owner m \<noteq> NIL" if "mx_owner m = current s" using that slot_not_NIL [OF k(9)] by simp
  have dep: "0 < mx_depth m" "mx_depth m \<le> U32_MAX" if "mx_owner m = current s"
    using d(9) m own [OF that] by (auto simp: objects_ok_def)
  have h: "mx_wait_head m = NIL \<longleftrightarrow> M a = []"
    using mutex_queue(1) [OF d(2) m] mutex_queue(4) [OF d(2) m] by (cases "M a") auto
  show ?thesis
  proof (cases "mx_owner m = current s")
    case False
    then show ?thesis using m by (simp add: mutex_unlock_def)
  next
    case o: True
    show ?thesis
    proof (cases "1 < mx_depth m")
      case True
      have e: "m\<lparr>mx_owner := current s, mx_depth := mx_depth m - 1\<rparr> = m\<lparr>mx_depth := mx_depth m - 1\<rparr>" using o by (cases m) simp
      have n: "0 < mx_depth m - 1" "mx_depth m - 1 \<le> U32_MAX" using dep(2) [OF o] True by linarith+
      have "kernel_inv (s\<lparr>mutex_mem := (mutex_mem s)(a \<mapsto> m\<lparr>mx_depth := mx_depth m - 1\<rparr>)\<rparr>) Q S M"
        using kernel_mutex_level [OF inv m k(9) c(2) _ n] o unfolding e by blast
      with True o m show ?thesis by (simp add: mutex_unlock_def mutex_update_def)
    next
      case False
      with dep [OF o] have one: "mx_depth m = 1" by simp
      from kernel_release [OF inv m o k(9) al(6) c(2), of now] obtain s' Q' S' where
        "release_mutex_locked a (current s) now (s\<lparr>mutex_mem := (mutex_mem s)(a \<mapsto> m\<lparr>mx_depth := 0\<rparr>)\<rparr>) = Some s'"
        "kernel_inv s' Q' S' (M(a := tl (M a)))"
        "M a = [] \<longrightarrow> s' = s\<lparr>mutex_mem := (mutex_mem s)(a \<mapsto> m\<lparr>mx_owner := NIL, mx_depth := 0\<rparr>)\<rparr>"
        "\<forall>x xs. M a = x # xs \<longrightarrow> reprio (handed a x now s) s'" by blast
      with m o one h show ?thesis by (auto simp: mutex_unlock_def mutex_update_def)
    qed
  qed
qed

end
