(* ===== verification/Locking.thy ===== *)
theory Locking
  imports Mutexes
begin

text \<open>
  Blocking on a mutex: the walk along the owners decides exactly whether waiting would close a
  cycle, a task that waits donates its priority to the whole chain of owners, and a waiter that is
  cancelled or times out takes its donation back.
\<close>

subsection \<open>The walk along the owners\<close>

lemma chain_walk_exact:
  assumes rep: "waits_rep {} Y s S M" and ok: "owners_ok s" "acyclic (wait_edges s)" and len: "length (tasks s) = TASK_SLOT_COUNT"
  shows "\<lbrakk>owner < TASK_SLOT_COUNT; V \<subseteq> {..<TASK_SLOT_COUNT}; card V + n = TASK_SLOT_COUNT; \<forall>v \<in> V. (v, owner) \<in> (wait_edges s)\<^sup>+\<rbrakk>
    \<Longrightarrow> chain_walk n owner sought s = Some ((owner, sought) \<in> (wait_edges s)\<^sup>*)"
proof (induction n arbitrary: owner V)
  case 0
  then have "V = {..<TASK_SLOT_COUNT}" by (intro card_subset_eq) simp_all
  then have "(owner, owner) \<in> (wait_edges s)\<^sup>+" using 0 by blast
  then show ?case using ok(2) by (auto simp: acyclic_def)
next
  case (Suc n)
  let ?w = "t_waiting_mutex (tasks s ! owner)"
  have at: "task_at owner s = Some (tasks s ! owner)" using Suc.prems(1) len by simp
  show ?case
  proof (cases "waits_for s owner")
    case None
    then have no: "(owner, j) \<notin> wait_edges s" for j by (simp add: wait_edges_def)
    have "chain_walk (Suc n) owner sought s = Some (owner = sought)"
    proof (cases "?w = 0")
      case False
      then obtain m where "mutex_mem s ?w = Some m"
        using fam_waiting(3) [OF waits_repD(2) [OF rep] Suc.prems(1) _ refl] by (auto simp: mutex_view_def)
      with None at False show ?thesis by (auto simp: waits_for_def split: if_splits)
    qed (use at in simp)
    moreover have "(owner, sought) \<in> (wait_edges s)\<^sup>* \<longleftrightarrow> owner = sought" using no by (auto elim: converse_rtranclE)
    ultimately show ?thesis by simp
  next
    case (Some j)
    have e: "(owner, j) \<in> wait_edges s" using Some Suc.prems(1) by (simp add: wait_edges_def)
    have "owner \<notin> V" using Suc.prems(4) ok(2) by (auto simp: acyclic_def)
    moreover have "finite V" using Suc.prems(2) finite_subset by blast
    ultimately have "card (insert owner V) + n = TASK_SLOT_COUNT" using Suc.prems(3) by simp
    moreover have "\<forall>v \<in> insert owner V. (v, j) \<in> (wait_edges s)\<^sup>+" using e Suc.prems(4) by (auto intro: trancl_into_trancl)
    moreover have "insert owner V \<subseteq> {..<TASK_SLOT_COUNT}" using Suc.prems(1,2) by simp
    ultimately have ih: "chain_walk n j sought s = Some ((j, sought) \<in> (wait_edges s)\<^sup>*)"
      using Suc.IH waits_for_owner [OF ok(1) Some] by blast
    have "(owner, sought) \<in> (wait_edges s)\<^sup>* \<longleftrightarrow> owner = sought \<or> (j, sought) \<in> (wait_edges s)\<^sup>*"
      using e Some by (auto elim!: converse_rtranclE [of owner] simp: wait_edges_def intro: converse_rtrancl_into_rtrancl)
    moreover have "chain_walk (Suc n) owner sought s = (if owner = sought then Some True else chain_walk n j sought s)"
      using Some at by (auto simp: waits_for_def split: if_splits option.splits)
    ultimately show ?thesis using ih by simp
  qed
qed

lemma mutex_chain_exact:
  assumes "sync_inv s Q S M" "owner < TASK_SLOT_COUNT"
  shows "mutex_chain_contains owner sought s = Some ((owner, sought) \<in> (wait_edges s)\<^sup>*)"
  using chain_walk_exact [OF sync_invD(2,4,5,7) [OF assms(1)] assms(2), of "{}" TASK_SLOT_COUNT sought]
  by (simp add: mutex_chain_contains_def)

subsection \<open>Waiting\<close>

definition parked_behind :: "nat \<Rightarrow> nat \<Rightarrow> tcb \<Rightarrow> tcb" where
  "parked_behind a wake_at t = t\<lparr>t_state := Blocked, t_wake_at := wake_at, t_waiting_mutex := a, t_sem_granted := False\<rparr>"

lemma changed_mutex_touched:
  assumes "mutex_touched a R (mod_task x f s) s'" "x < length (tasks s)"
  shows "changed x f s s'" "sem_mem s' = sem_mem s"
    "\<And>b. map_option (\<lambda>m. (mx_owner m, mx_depth m)) (mutex_mem s' b) = map_option (\<lambda>m. (mx_owner m, mx_depth m)) (mutex_mem s b)"
proof -
  from assms(1) obtain s1 m m' where t0: "rewired R (mod_task x f s) s1" and t: "mutex_mem s a = Some m" "mx_owner m' = mx_owner m"
    "mx_depth m' = mx_depth m" "s' = s1\<lparr>mutex_mem := (mutex_mem s)(a \<mapsto> m')\<rparr>" by (auto simp: mutex_touched_def)
  note re = rewired_relinked [OF t0]
  note sel = relinked_sel [OF re]
  have "\<exists>n. tasks s' ! j = (if j = x then f (tasks s ! x) else tasks s ! j)\<lparr>t_next := n\<rparr>" if "j < length (tasks s)" for j
    using relinked_task(1) [OF re, of j] that t(4) assms(2) by (auto simp: mod_task_at)
  then show "changed x f s s'" using sel t(4) by (simp add: changed_def steady_def)
  show "sem_mem s' = sem_mem s" using sel t by simp
  show "map_option (\<lambda>m. (mx_owner m, mx_depth m)) (mutex_mem s' b) = map_option (\<lambda>m. (mx_owner m, mx_depth m)) (mutex_mem s b)" for b
    using sel t by simp
qed

text \<open>The caller is in the queue of the mutex, but has not donated yet.\<close>

lemma mutex_queue_up:
  assumes inv: "kernel_inv s Q S M" and mb: "may_block s" and m: "mutex_mem s a = Some m" "mx_owner m = owner" "owner \<noteq> NIL"
    and nc: "(owner, current s) \<notin> (wait_edges s)\<^sup>*"
  shows "\<exists>s2. on_mutex a (\<lambda>st s'. enqueue_mutex_waiter st (current s) s') (mod_task (current s) (parked_behind a wake_at) s) = Some s2
    \<and> prop_inv {} {current s} s2 Q S (M(a := insert_prio (prio_of s) (current s) (M a))) \<and> settled_but {} s2
    \<and> waits_for s2 (current s) = Some owner \<and> changed (current s) (parked_behind a wake_at) s s2 \<and> sem_mem s2 = sem_mem s
    \<and> (\<forall>b. map_option (\<lambda>m. (mx_owner m, mx_depth m)) (mutex_mem s2 b) = map_option (\<lambda>m. (mx_owner m, mx_depth m)) (mutex_mem s b))"
proof -
  let ?c = "current s" and ?M = "M(a := insert_prio (prio_of s) (current s) (M a))" and ?f = "parked_behind a wake_at"
  note k = kernel_invD [OF inv] and d = sync_invD [OF kernel_invD(1) [OF inv]]
  note b = mb [unfolded may_block_def]
  note al = running_alone [OF inv conjunct1 [OF b]]
  have a0: "a \<noteq> 0" using fam_repD(2) [OF waits_repD(2) [OF d(2)], of a] m by (simp add: mutex_view_def)
  have cl: "?c < length (tasks s)" using k(7,9) by simp
  let ?s1 = "mod_task ?c ?f s"
  have own1: "owned_but {} ?s1 Q"
    by (rule owned_mod_task) (use k(8,9) al shape_okD(7) [OF owned_butD(1) [OF k(8)] k(9)] in \<open>auto simp: parked_behind_def pending_target_def\<close>)
  have w1: "waits_rep {?c} {} ?s1 S M" by (rule waits_mod_task) (use d(2) cl k(7) al in auto)
  have at1: "tasks ?s1 ! ?c = ?f (tasks s ! ?c)" using cl by (simp add: mod_task_at)
  have prio1: "prio_of ?s1 = prio_of s" using cl by (auto simp: fun_eq_iff mod_task_at parked_behind_def)
  from mutex_join [OF w1, of ?c a m] at1 al m k(7,9) prio1 obtain s2 where
    2: "on_mutex a (\<lambda>st s. enqueue_mutex_waiter st ?c s) ?s1 = Some s2" "mutex_touched a (insert ?c (set (M a))) ?s1 s2"
      "waits_rep {} {} s2 S ?M" by (auto simp: parked_behind_def)
  have "queued Q \<inter> insert ?c (set (M a)) = {}" using queued_not_waiting [OF k(8) d(2)] al(3) by (auto simp: members_def)
  from owned_touched(2) [OF own1 this 2(2)] have own2: "owned_but {} s2 Q" .
  note ch = changed_mutex_touched [OF 2(2) cl]
  have t: "\<exists>n. tasks s2 ! j = (if j = ?c then ?f (tasks s ! ?c) else tasks s ! j)\<lparr>t_next := n\<rparr>" if "j < TASK_SLOT_COUNT" for j
    using ch(1) that k(7) by (simp add: changed_def)
  have f: "prio_of s2 j = prio_of s j" "t_base_priority (tasks s2 ! j) = t_base_priority (tasks s ! j)"
    "t_inherited_waiters (tasks s2 ! j) = t_inherited_waiters (tasks s ! j)"
    "t_waiting_mutex (tasks s2 ! j) = (if j = ?c then a else t_waiting_mutex (tasks s ! j))" if "j < TASK_SLOT_COUNT" for j
    using t [OF that] by (auto simp: parked_behind_def)
  have mo: "map_option mx_owner (mutex_mem s2 b) = map_option mx_owner (mutex_mem s b)" for b
    using arg_cong [OF ch(3) [of b], of "map_option fst"] by (simp add: option.map_comp comp_def)
  have wf: "waits_for s2 j = (if j = ?c then Some owner else waits_for s j)" if "j < TASK_SLOT_COUNT" for j
  proof -
    have e: "(case mutex_mem s2 b of None \<Rightarrow> None | Some m \<Rightarrow> if mx_owner m = NIL then None else Some (mx_owner m))
        = (case mutex_mem s b of None \<Rightarrow> None | Some m \<Rightarrow> if mx_owner m = NIL then None else Some (mx_owner m))" for b
      using mo [of b] by (cases "mutex_mem s2 b"; cases "mutex_mem s b") simp_all
    show ?thesis unfolding waits_for_def e using f(4) [OF that] a0 m by (cases "j = ?c") simp_all
  qed
  have c0: "waits_for s ?c = None" using al(6) by (simp add: waits_for_def)
  have dn: "donors s2 j q - {?c} = donors s j q" for j q using wf f(1) c0 by (auto simp: donors_def split: if_splits)
  have "donations_but {?c} s2" using d(3) f(3) by (simp add: donations_but_def dn)
  moreover have "owners_ok s2"
    unfolding owners_ok_def
  proof (intro allI impI)
    fix b m2
    assume "mutex_mem s2 b = Some m2"
    with mo [of b] obtain m0 where "mutex_mem s b = Some m0" "mx_owner m0 = mx_owner m2" by (cases "mutex_mem s b") auto
    with d(4) show "mx_owner m2 = NIL \<or> mx_owner m2 < TASK_SLOT_COUNT" unfolding owners_ok_def by metis
  qed
  moreover have "wait_edges s2 = insert (?c, owner) (wait_edges s)"
    using wf c0 k(9) by (auto simp: wait_edges_def split: if_splits)
  then have "acyclic (wait_edges s2)" using d(5) nc by (simp add: acyclic_insert)
  moreover have "bases_ok s2" using d(6) f(2) by (simp add: bases_ok_def)
  ultimately have "prop_inv {} {?c} s2 Q S ?M" using own2 2(3) by (simp add: prop_inv_def)
  moreover have "settled s2 j = settled s j" if "j < TASK_SLOT_COUNT" for j
    using f(1-3) [OF that] by (simp add: settled_def wanted_priority_def inherited_priority_def split: option.split)
  then have "settled_but {} s2" using d(7,8) owned_butD(8) [OF own2] by (simp add: settled_but_def)
  ultimately show ?thesis using 2(1) wf [OF k(9)] ch by auto
qed

lemma calm_waits_for: "calm s s' \<Longrightarrow> i < length (tasks s) \<Longrightarrow> waits_for s' i = waits_for s i"
  by (simp add: calm_def kept_def waits_for_def)

lemma mutex_park_spec:
  assumes inv: "kernel_inv s Q S M" and mb: "may_block s" and m: "mutex_mem s a = Some m" "mx_owner m = owner" "owner \<noteq> NIL"
    and nc: "(owner, current s) \<notin> (wait_edges s)\<^sup>*"
  shows "\<exists>intent s' Q' S' M'. mutex_park True a owner wake_at s = Some (intent, s') \<and> kernel_inv s' Q' S' M'
    \<and> current s' = current s \<and> current s \<in> set (M' a) \<and> waits_for s' (current s) = Some owner
    \<and> pending_target s' \<noteq> None \<and> (\<forall>b. permits s' b = permits s b)"
proof -
  let ?c = "current s" and ?f = "parked_behind a wake_at"
  note k = kernel_invD [OF inv] and d = sync_invD [OF kernel_invD(1) [OF inv]]
  note b = mb [unfolded may_block_def]
  have cl: "?c < length (tasks s)" using k(7,9) by simp
  from mutex_queue_up [OF inv mb m nc, of wake_at] obtain s2 where
    2: "on_mutex a (\<lambda>st s'. enqueue_mutex_waiter st ?c s') (mod_task ?c ?f s) = Some s2"
      "prop_inv {} {?c} s2 Q S (M(a := insert_prio (prio_of s) ?c (M a)))" "settled_but {} s2" "waits_for s2 ?c = Some owner"
      "changed ?c ?f s s2" "sem_mem s2 = sem_mem s"
      "\<forall>b. map_option (\<lambda>m. (mx_owner m, mx_depth m)) (mutex_mem s2 b) = map_option (\<lambda>m. (mx_owner m, mx_depth m)) (mutex_mem s b)"
    by blast
  have "chain_free s2 owner {} {}" by (simp add: chain_free_def)
  from add_spec [OF 2(2,3) k(9) 2(4) _ this] obtain s3 Q3 S3 M3 where
    3: "add_inheritance owner (prio_of s2 ?c) s2 = Some s3" "prop_inv {} {} s3 Q3 S3 M3" "settled_but {} s3" "reprio s2 s3" by auto
  have t: "\<exists>n. tasks s2 ! j = (if j = ?c then ?f (tasks s ! ?c) else tasks s ! j)\<lparr>t_next := n\<rparr>" if "j < TASK_SLOT_COUNT" for j
    using 2(5) that k(7) by (simp add: changed_def)
  have l2: "length (tasks s2) = TASK_SLOT_COUNT" using prop_invD(7) [OF 2(2)] .
  have idle: "IDLE_SLOT < TASK_SLOT_COUNT" by (simp add: TASK_SLOT_COUNT_eq IDLE_SLOT_def)
  have g0: "t_granted_sem (tasks s ! ?c) = 0" "t_granted_mutex (tasks s ! ?c) = 0"
    using d(10) [OF k(9)] b by (auto simp: grant_ok_def Let_def)
  have mm: "\<exists>m0. mutex_mem s x = Some m0 \<and> mx_owner m0 = mx_owner n \<and> mx_depth m0 = mx_depth n" if "mutex_mem s2 x = Some n" for x n
    using 2(7) that by (cases "mutex_mem s x") (auto dest!: spec [of _ x])
  have mm': "\<exists>n. mutex_mem s2 x = Some n \<and> mx_owner n = mx_owner m0 \<and> mx_depth n = mx_depth m0" if "mutex_mem s x = Some m0" for x m0
    using 2(7) that by (cases "mutex_mem s2 x") (auto dest!: spec [of _ x])
  have kv3: "kernel_inv s3 Q3 S3 M3"
  proof (rule kernel_reprio [OF inv 3(2,3,4) l2])
    show "grant_ok s2 i" if i: "i < TASK_SLOT_COUNT" for i
    proof (cases "i = ?c")
      case True
      then show ?thesis using t [OF i] g0 by (auto simp: grant_ok_def Let_def parked_behind_def)
    next
      case False
      show ?thesis
      proof (rule grant_ok_frame [OF d(10) [OF i]])
        show "\<exists>n. mutex_mem s2 x = Some n \<and> mx_owner n = i \<and> mx_depth n = 1"
          if "mutex_mem s x = Some m0" "mx_owner m0 = i" "mx_depth m0 = 1" for x m0 using mm' [OF that(1)] that(2,3) by simp
      qed (use t [OF i] False 2(6) in auto)
    qed
    show "(mx_owner n = NIL \<longleftrightarrow> mx_depth n = 0) \<and> mx_depth n \<le> U32_MAX
        \<and> (mx_owner n = NIL \<longrightarrow> (\<forall>i < TASK_SLOT_COUNT. t_waiting_mutex (tasks s2 ! i) \<noteq> x))" if n: "mutex_mem s2 x = Some n" for x n
    proof -
      from mm [OF n] obtain m0 where m0: "mutex_mem s x = Some m0" "mx_owner m0 = mx_owner n" "mx_depth m0 = mx_depth n" by blast
      have "x \<noteq> a" if "mx_owner n = NIL" using m0 m that by auto
      then have "t_waiting_mutex (tasks s2 ! i) \<noteq> x" if "mx_owner n = NIL" "i < TASK_SLOT_COUNT" for i
        using t [OF that(2)] queue_empty_iff(2) [OF d(2) m0(1)] d(9) m0 that by (auto simp: objects_ok_def parked_behind_def split: if_splits)
      then show ?thesis using d(9) m0 unfolding objects_ok_def by metis
    qed
    show "trap_kept (tasks s ! i) (tasks s2 ! i)" if "i < TASK_SLOT_COUNT" for i
      using t [OF that] b by (auto simp: trap_kept_def parked_behind_def split: if_splits)
    show "state_of s2 IDLE_SLOT = state_of s IDLE_SLOT" using t [OF idle] b by auto
    show "t_waiting_sem (tasks s2 ! i) = t_waiting_sem (tasks s ! i) \<or> t_waiting_sem (tasks s2 ! i) = 0" if "i < TASK_SLOT_COUNT" for i
      using t [OF that] by (auto simp: parked_behind_def)
  qed (use 2(5,6) in \<open>auto simp: changed_def\<close>)
  note sel = reprio_sel [OF 3(4)] and f3 = reprio_fields [OF 3(4), of ?c]
  have c3: "state_of s3 ?c = Blocked" "t_waiting_mutex (tasks s3 ! ?c) = a" "t_resume_generation (tasks s3 ! ?c) = t_resume_generation (tasks s ! ?c)"
    using f3 t [OF k(9)] l2 k(9) by (auto simp: parked_behind_def)
  have cur: "current s3 = ?c" "pending_switch s3 = None" "next_switch_sequence s3 = next_switch_sequence s"
    using sel 2(5) running_alone(1) [OF inv] b by (simp_all add: changed_def steady_def)
  have lv: "leaving s3 Q3 S3 M3" using kv3 cur c3 b by (simp add: leaving_def)
  from leave_spec [OF lv refl] cur(1) c3(3) obtain intent s' Q' where
    r: "prepare_switch_away_locked True ?c (t_resume_generation (tasks s ! ?c)) s3 = Some (Some intent, s')" "kernel_inv s' Q' S3 M3"
      "pending_target s' = Some (best_ready Q3)" "current s' = ?c" "calm s3 s'" by auto
  have pf: "?f = (\<lambda>t. t\<lparr>t_state := Blocked, t_wake_at := wake_at, t_waiting_mutex := a, t_sem_granted := False\<rparr>)"
    by (simp add: parked_behind_def fun_eq_iff)
  have run: "mutex_park True a owner wake_at s = Some (intent, s')"
    using cl 2(1) 3(1) r(1) l2 k(9) by (simp add: mutex_park_def pf)
  have "a \<noteq> 0" using fam_repD(2) [OF waits_repD(2) [OF d(2)], of a] m by (simp add: mutex_view_def)
  then have "?c \<in> set (M3 a)" using fam_waiting(1) [OF waits_repD(2) [OF prop_invD(2) [OF 3(2)]] k(9) _ c3(2)] by simp
  moreover have "waits_for s' ?c = Some owner"
    using calm_waits_for [OF r(5), of ?c] reprio_waits_for [OF 3(4), of ?c] 2(4) l2 k(9) kernel_invD(7) [OF kv3] by simp
  moreover have "permits s' b = permits s b" for b
  proof -
    have "permits s' b = permits s3 b" using permits_calm [OF r(5)] kernel_invD(7) [OF kv3] by simp
    also have "\<dots> = permits s2 b" using permits_reprio [OF 3(4) l2] .
    also have "\<dots> = permits s b"
      by (rule permits_same) (use 2(6) t in \<open>auto simp: counts_same_def parked_behind_def dest: t split: if_splits\<close>)
    finally show ?thesis .
  qed
  ultimately show ?thesis using run r by auto
qed

lemma mutex_lock_spec:
  assumes inv: "kernel_inv s Q S M" and m: "mutex_mem s a = Some m"
    and c: "state_of s (current s) = Running" "current s \<noteq> IDLE_SLOT" "\<not> t_sem_granted (tasks s ! current s)" "next_switch_sequence s < U64_MAX"
  shows "if mx_owner m = current s \<and> mx_depth m = U32_MAX then mutex_lock True True a timeout now s = Some (Inl RuntimeError, s)
    else if mx_owner m = current s \<or> mx_owner m = NIL then \<exists>s'. mutex_lock True True a timeout now s = Some (Inr (Some True, None), s')
        \<and> s' = s\<lparr>mutex_mem := (mutex_mem s)(a \<mapsto> m\<lparr>mx_owner := current s, mx_depth := mx_depth m + 1\<rparr>)\<rparr> \<and> kernel_inv s' Q S M
    else if timeout = 0 then mutex_lock True True a timeout now s = Some (Inr (Some False, None), s)
    else if t_scheduler_lock_depth (tasks s ! current s) \<noteq> 0 \<or> (mx_owner m, current s) \<in> (wait_edges s)\<^sup>*
      then mutex_lock True True a timeout now s = Some (Inl InvalidContext, s)
    else \<exists>intent s' Q' S' M'. mutex_lock True True a timeout now s = Some (Inr (None, Some intent), s') \<and> kernel_inv s' Q' S' M'
        \<and> current s' = current s \<and> current s \<in> set (M' a) \<and> waits_for s' (current s) = Some (mx_owner m)
        \<and> pending_target s' \<noteq> None \<and> (\<forall>b. permits s' b = permits s b)"
proof -
  note k = kernel_invD [OF inv] and d = sync_invD [OF kernel_invD(1) [OF inv]]
  have cl: "current s < length (tasks s)" using k(7,9) by simp
  have cn: "current s \<noteq> NIL" using slot_not_NIL [OF k(9)] .
  have g: "t_granted_mutex (tasks s ! current s) = 0" using d(10) [OF k(9)] c(3) by (auto simp: grant_ok_def Let_def)
  have ob: "mx_owner m = NIL \<longleftrightarrow> mx_depth m = 0" "mx_depth m \<le> U32_MAX" using d(9) m by (auto simp: objects_ok_def)
  let ?m = "m\<lparr>mx_owner := current s, mx_depth := mx_depth m + 1\<rparr>"
  consider (full) "mx_owner m = current s" "mx_depth m = U32_MAX"
    | (take) "mx_owner m = current s \<or> mx_owner m = NIL" "\<not> (mx_owner m = current s \<and> mx_depth m = U32_MAX)"
    | (busy) "mx_owner m \<noteq> current s" "mx_owner m \<noteq> NIL" by blast
  then show ?thesis
  proof cases
    case full
    then show ?thesis using m by (simp add: mutex_lock_def chk_add_def)
  next
    case take
    have n: "0 < mx_depth m + 1" "mx_depth m + 1 \<le> U32_MAX" using take ob cn by (auto simp: le_less)
    have e: "m\<lparr>mx_depth := mx_depth m + 1\<rparr> = ?m" if "mx_owner m = current s" using that by (cases m) simp
    have "mutex_lock True True a timeout now s = Some (Inr (Some True, None), s\<lparr>mutex_mem := (mutex_mem s)(a \<mapsto> ?m)\<rparr>)"
    proof (cases "mx_owner m = current s")
      case True
      show ?thesis using m True n(2) unfolding e [OF True, symmetric] by (simp add: mutex_lock_def chk_add_def mutex_update_def)
    next
      case False
      then show ?thesis using m take ob cn by (simp add: mutex_lock_def mutex_update_def)
    qed
    with take kernel_mutex_level [OF inv m k(9) g take(1) n] show ?thesis by auto
  next
    case busy
    have o: "mx_owner m < TASK_SLOT_COUNT" using d(4) m busy(2) by (auto simp: owners_ok_def)
    note walk = mutex_chain_exact [OF k(1) o, of "current s"]
    show ?thesis
    proof (cases "timeout = 0 \<or> t_scheduler_lock_depth (tasks s ! current s) \<noteq> 0 \<or> (mx_owner m, current s) \<in> (wait_edges s)\<^sup>*")
      case True
      then show ?thesis using m busy walk cl by (auto simp: mutex_lock_def current_switch_guard_def Let_def)
    next
      case False
      then have mb: "may_block s" using c by (simp add: may_block_def)
      from mutex_park_spec [OF inv mb m refl busy(2)] False obtain intent s' Q' S' M' where
        "mutex_park True a (mx_owner m) (if timeout = U32_MAX then 0 else sat_add U64_MAX now timeout) s = Some (intent, s')"
        "kernel_inv s' Q' S' M'" "current s' = current s" "current s \<in> set (M' a)" "waits_for s' (current s) = Some (mx_owner m)" "pending_target s' \<noteq> None" "\<forall>b. permits s' b = permits s b"
        by blast
      with False m busy walk cl show ?thesis by (auto simp: mutex_lock_def current_switch_guard_def Let_def)
    qed
  qed
qed

subsection \<open>Giving up\<close>

lemma wait_abandoned:
  assumes inv: "prop_inv {x} {x} s Q S M" and st: "settled_but {} s" and x: "x < TASK_SLOT_COUNT" "state_of s x = Blocked" "t_waiting_sem (tasks s ! x) = 0"
    and f: "\<And>t. t_state (f t) = t_state t \<and> t_priority (f t) = t_priority t \<and> t_base_priority (f t) = t_base_priority t
      \<and> t_inherited_waiters (f t) = t_inherited_waiters t \<and> t_waiting_sem (f t) = t_waiting_sem t \<and> t_waiting_mutex (f t) = 0"
  shows "\<exists>s' Q'. make_ready x now (mod_task x f s) = Some s' \<and> prop_inv {} {} s' Q' S M \<and> settled_but {} s'
    \<and> reprio (mod_task x (ready_mark now) (mod_task x f s)) s'"
proof -
  note d = prop_invD [OF inv]
  have xl: "x < length (tasks s)" using x d(7) by simp
  from wake_spec [of s Q x S M f now] d(1,2) x f obtain s' Q' R where
    r: "make_ready x now (mod_task x f s) = Some s'" "owned_but {} s' Q'" "waits_rep {} {} s' S M"
      "relinked R (mod_task x (ready_mark now) (mod_task x f s)) s'" by auto
  have t: "\<exists>n. tasks s' ! j = (if j = x then ready_mark now (f (tasks s ! x)) else tasks s ! j)\<lparr>t_next := n\<rparr>"
    if "j < TASK_SLOT_COUNT" for j
    using relinked_task(1) [OF r(4), of j] that d(7) xl by (auto simp: mod_task_at)
  have mm: "mutex_mem s' = mutex_mem s" using relinked_sel [OF r(4)] by simp
  have g: "prio_of s' j = prio_of s j" "t_base_priority (tasks s' ! j) = t_base_priority (tasks s ! j)"
    "t_inherited_waiters (tasks s' ! j) = t_inherited_waiters (tasks s ! j)"
    "t_waiting_mutex (tasks s' ! j) = (if j = x then 0 else t_waiting_mutex (tasks s ! j))" if "j < TASK_SLOT_COUNT" for j
    using t [OF that] f by (auto simp: ready_mark_def)
  have wf: "waits_for s' j = (if j = x then None else waits_for s j)" if "j < TASK_SLOT_COUNT" for j
    using g(4) [OF that] unfolding waits_for_def mm by auto
  have dn: "donors s' j q - {} = donors s j q - {x}" for j q using wf g(1) by (auto simp: donors_def split: if_splits)
  have "donations_but {} s'" using d(3) g(3) unfolding donations_but_def dn by simp
  moreover have "wait_edges s' \<subseteq> wait_edges s" using wf by (auto simp: wait_edges_def split: if_splits)
  then have "acyclic (wait_edges s')" using d(5) acyclic_subset by blast
  moreover have "owners_ok s'" "bases_ok s'" using d(4,6) g(2) by (simp_all add: owners_ok_def mm bases_ok_def)
  ultimately have "prop_inv {} {} s' Q' S M" using r(2,3) by (simp add: prop_inv_def)
  moreover have "settled s' j = settled s j" if "j < TASK_SLOT_COUNT" for j
    using g(1-3) [OF that] by (simp add: settled_def wanted_priority_def inherited_priority_def split: option.split)
  then have "settled_but {} s'" using st d(7) owned_butD(8) [OF r(2)] by (simp add: settled_but_def)
  ultimately show ?thesis using r(1) relinked_reprio [OF r(4)] by blast
qed

lemma abandon_spec:
  assumes inv: "kernel_inv s Q S M" and x: "x \<in> set (M a)"
  shows "\<exists>s1 Q1 S1 M1. abandon_mutex_wait x a s = Some s1 \<and> prop_inv {x} {x} s1 Q1 S1 M1 \<and> settled_but {} s1 \<and> reprio s s1"
proof -
  note k = kernel_invD [OF inv] and d = sync_invD [OF kernel_invD(1) [OF inv]]
  note w = mutex_waiter [OF k(1) x]
  let ?M = "M(a := remove1 x (M a))"
  from mutex_leave [OF d(2,7) x] obtain s0 where
    0: "on_mutex a (\<lambda>st s. remove_mutex_waiter st x s) s = Some s0" "mutex_touched a (set (M a)) s s0" "waits_rep {x} {} s0 S ?M" by auto
  have "queued Q \<inter> set (M a) = {}" using queued_not_waiting [OF k(8) d(2)] by (auto simp: members_def)
  from owned_touched(2) [OF k(8) this 0(2)] have own0: "owned_but {} s0 Q" .
  have re: "reprio s s0" using mutex_touched_reprio [OF 0(2)] .
  obtain m m0 where m: "mutex_mem s a = Some m" "mutex_mem s0 a = Some m0" "mx_owner m0 = mx_owner m"
    using mutex_touched_keeps(2) [OF 0(2)] by blast
  have mo: "map_option mx_owner (mutex_mem s0 b) = map_option mx_owner (mutex_mem s b)" for b
    using arg_cong [OF reprio_mem(2) [OF re, of b], of "map_option fst"] by (simp add: option.map_comp comp_def)
  have ps: "prio_same s s0"
    using mutex_touched_keeps(1) [OF 0(2)] mo reprio_fields(3,4) [OF re] by (simp add: prio_same_def keeps_prio_def prio_frame_def)
  have inv0: "prop_inv {x} {} s0 Q S ?M" using prop_inv_same [OF sync_inv_prop [OF k(1)] ps own0 0(3)] .
  have st0: "settled_but {} s0" using prio_same_inv(5) [OF ps d(7)] d(8) by blast
  have "mx_owner m = NIL \<longrightarrow> M a = []" using d(9) m(1) unfolding objects_ok_def by blast
  then have on: "mx_owner m \<noteq> NIL" using x by auto
  have wf: "waits_for s0 x = Some (mx_owner m)"
    using prio_same_waits_for [OF ps, of x] w(1,3,4) m(1) on d(7) by (simp add: waits_for_def)
  have "chain_free s0 (mx_owner m) {x} {x}"
  proof -
    have "(x, mx_owner m) \<in> wait_edges s0" using wf w(1) by (simp add: wait_edges_def)
    then have "(mx_owner m, x) \<notin> (wait_edges s0)\<^sup>*"
      using prop_invD(5) [OF inv0] by (auto simp: acyclic_def dest: rtrancl_into_trancl2)
    then show ?thesis by (auto simp: chain_free_def)
  qed
  from remove_spec [OF inv0 st0 w(1) wf _ this] obtain s1 Q1 S1 M1 where
    1: "remove_inheritance (mx_owner m) (prio_of s0 x) s0 = Some s1" "prop_inv {x} {x} s1 Q1 S1 M1" "settled_but {} s1" "reprio s0 s1" by auto
  have "abandon_mutex_wait x a s = Some s1"
    using 0(1) m on 1(1) w(1) prop_invD(7) [OF inv0] by (simp add: abandon_mutex_wait_def)
  with 1(2,3) reprio_trans [OF re 1(4)] show ?thesis by blast
qed

definition unparked :: "bool \<Rightarrow> tcb \<Rightarrow> tcb" where
  "unparked c t = t\<lparr>t_waiting_mutex := 0, t_sem_granted := False,
     t_granted_mutex := if c then 0 else t_granted_mutex t, t_wake_at := 0\<rparr>"

lemma kernel_abandon:
  assumes inv: "kernel_inv s Q S M" and x: "x \<in> set (M a)"
  shows "\<exists>s1 s' Q' S' M'. abandon_mutex_wait x a s = Some s1 \<and> length (tasks s1) = TASK_SLOT_COUNT \<and> state_of s1 x = Blocked
    \<and> make_ready x now (mod_task x (unparked c) s1) = Some s' \<and> kernel_inv s' Q' S' M'
    \<and> reprio (mod_task x (ready_mark now) (mod_task x (unparked c) s)) s'"
proof -
  note k = kernel_invD [OF inv] and d = sync_invD [OF kernel_invD(1) [OF inv]]
  note w = mutex_waiter [OF k(1) x]
  have xl: "x < length (tasks s)" using w(1) k(7) by simp
  from abandon_spec [OF inv x] obtain s1 Q1 S1 M1 where
    1: "abandon_mutex_wait x a s = Some s1" "prop_inv {x} {x} s1 Q1 S1 M1" "settled_but {} s1" "reprio s s1" by blast
  note f1 = reprio_fields [OF 1(4) xl]
  from wait_abandoned [OF 1(2,3) w(1), of "unparked c" now] f1 w obtain s' Q' where
    2: "make_ready x now (mod_task x (unparked c) s1) = Some s'" "prop_inv {} {} s' Q' S1 M1" "settled_but {} s'"
      "reprio (mod_task x (ready_mark now) (mod_task x (unparked c) s1)) s'" by (auto simp: unparked_def)
  let ?r = "mod_task x (ready_mark now) (mod_task x (unparked c) s)"
  have e: "erase_task (unparked c t) = erase_task (unparked c (erase_task t))" for t
    by (cases t) (simp add: erase_task_def unparked_def)
  have "reprio ?r (mod_task x (ready_mark now) (mod_task x (unparked c) s1))"
    by (intro reprio_mod_task_both 1(4) erase_marks e)
  from reprio_trans [OF this 2(4)] have re: "reprio ?r s'" .
  have at: "tasks ?r ! i = (if i = x then ready_mark now (unparked c (tasks s ! x)) else tasks s ! i)" for i
    using xl by (simp add: mod_task_at)
  have "kernel_inv s' Q' S1 M1"
  proof (rule kernel_reprio [OF inv 2(2,3) re])
    show "grant_ok ?r i" if i: "i < TASK_SLOT_COUNT" for i
    proof (cases "i = x")
      case True
      then show ?thesis using w at by (simp add: grant_ok_def ready_mark_def unparked_def)
    next
      case False
      show ?thesis by (rule grant_ok_frame [OF d(10) [OF i]]) (use False at in auto)
    qed
    show "(mx_owner n = NIL \<longleftrightarrow> mx_depth n = 0) \<and> mx_depth n \<le> U32_MAX
        \<and> (mx_owner n = NIL \<longrightarrow> (\<forall>i < TASK_SLOT_COUNT. t_waiting_mutex (tasks ?r ! i) \<noteq> b))" if "mutex_mem ?r b = Some n" for b n
    proof -
      have b: "mutex_mem s b = Some n" using that by simp
      then have "b \<noteq> 0" using fam_repD(2) [OF waits_repD(2) [OF d(2)], of b] by (simp add: mutex_view_def)
      then show ?thesis using d(9) queue_empty_iff(2) [OF d(2) b] b unfolding at
        by (auto simp: objects_ok_def ready_mark_def unparked_def)
    qed
    show "state_of ?r IDLE_SLOT = state_of s IDLE_SLOT" using w(2) k(4) unfolding at by auto
    show "trap_kept (tasks s ! i) (tasks ?r ! i)" if "i < TASK_SLOT_COUNT" for i
      using w(2) unfolding at by (simp add: trap_kept_def ready_mark_def unparked_def)
    show "t_waiting_sem (tasks ?r ! i) = t_waiting_sem (tasks s ! i) \<or> t_waiting_sem (tasks ?r ! i) = 0" if "i < TASK_SLOT_COUNT" for i
      unfolding at by (simp add: ready_mark_def unparked_def)
  qed (use k(7) in \<open>auto simp: steady_def\<close>)
  with 1(1) 2(1) re f1(1) w(2) prop_invD(7) [OF 1(2)] show ?thesis by auto
qed

text \<open>A mutex that was granted to a task and not yet seen by it.\<close>

definition unseen :: "tcb \<Rightarrow> tcb" where
  "unseen t = t\<lparr>t_granted_mutex := 0, t_sem_granted := False\<rparr>"

lemma consume_mutex_grant:
  assumes inv: "kernel_inv s Q S M" and x: "x < TASK_SLOT_COUNT" "t_granted_sem (tasks s ! x) = 0"
  shows "kernel_inv (mod_task x unseen s) Q S M" "permits (mod_task x unseen s) b = permits s b"
proof -
  let ?s = "mod_task x unseen s"
  note k = kernel_invD [OF inv] and d = sync_invD [OF kernel_invD(1) [OF inv]]
  have xl: "x < length (tasks s)" using x k(7) by simp
  have at: "tasks ?s ! j = (if j = x then unseen (tasks s ! x) else tasks s ! j)" for j using xl by (simp add: mod_task_at)
  have f: "unseen t = (unseen t)\<lparr>t_next := t_next t\<rparr>" for t by (simp add: unseen_def)
  have ch: "changed x unseen s ?s"
    unfolding changed_def at by (auto simp: steady_def intro!: exI [of _ "t_next (tasks s ! j)" for j] f)
  have own: "owned_but {} ?s Q" by (rule owned_but_view [OF k(8)]) (simp add: same_view_mod_task unseen_def)
  have w: "waits_rep {} {} ?s S M" by (rule waits_view [OF d(2)]) (use xl in \<open>auto simp: at unseen_def\<close>)
  have "sync_inv ?s Q S M"
  proof (rule sync_changed [OF k(1) own w ch])
    show "grant_ok ?s x" using d(10) [OF x(1)] x(2) xl by (simp add: grant_ok_def unseen_def mod_task_at)
  qed (auto simp: unseen_def)
  then show "kernel_inv ?s Q S M"
    by (rule kernel_changed [OF inv _ ch x(1)]) (use k(4) in \<open>auto simp: trap_kept_def unseen_def\<close>)
  show "permits ?s b = permits s b" by (rule permits_same) (auto simp: counts_same_def at unseen_def)
qed

end
