(* ===== verification/Timeouts.thy ===== *)
theory Timeouts
  imports Locking
begin

text \<open>
  Cancellation and time: cancelling the wait of a task, waking sleepers and timed waiters,
  replenishing quotas and throttling the running task keep the invariant of the kernel and every
  permit of every semaphore.
\<close>

subsection \<open>Updates of one task\<close>

text \<open>What stays the same for everybody when one task changes by itself.\<close>

definition bystander :: "tcb \<Rightarrow> tcb \<Rightarrow> bool" where
  "bystander t t' \<longleftrightarrow> t_priority t' = t_priority t \<and> t_base_priority t' = t_base_priority t
     \<and> t_inherited_waiters t' = t_inherited_waiters t \<and> t_waiting_sem t' = t_waiting_sem t
     \<and> t_waiting_mutex t' = t_waiting_mutex t \<and> t_sem_granted t' = t_sem_granted t
     \<and> t_granted_sem t' = t_granted_sem t \<and> t_granted_mutex t' = t_granted_mutex t"

lemma kernel_task_upd:
  assumes inv: "kernel_inv s Q S M" and x: "x < TASK_SLOT_COUNT" "x \<notin> queued Q" "pending_target s \<noteq> Some x" "x \<notin> waiters S M"
    and f: "bystander (tasks s ! x) (f (tasks s ! x))" "trap_kept (tasks s ! x) (f (tasks s ! x))"
      "t_next (f (tasks s ! x)) = t_next (tasks s ! x)"
      "t_state (f (tasks s ! x)) = Running \<Longrightarrow> x = current s \<and> pending_switch s = None"
      "t_state (f (tasks s ! x)) = Ready \<Longrightarrow> x = IDLE_SLOT"
      "x = IDLE_SLOT \<Longrightarrow> t_state (f (tasks s ! x)) = Ready \<or> t_state (f (tasks s ! x)) = Running"
  shows "kernel_inv (mod_task x f s) Q S M" "permits (mod_task x f s) b = permits s b"
proof -
  let ?s = "mod_task x f s"
  note k = kernel_invD [OF inv] and d = sync_invD [OF kernel_invD(1) [OF inv]]
  note b = f(1) [unfolded bystander_def]
  have xl: "x < length (tasks s)" using x k(7) by simp
  have at: "tasks ?s ! j = (if j = x then f (tasks s ! x) else tasks s ! j)" for j using xl by (simp add: mod_task_at)
  have n: "f (tasks s ! x) = (f (tasks s ! x))\<lparr>t_next := t_next (tasks s ! x)\<rparr>" using f(3) by (metis tcb.surjective tcb.update_convs(9))
  have "\<exists>n. tasks ?s ! j = (if j = x then f (tasks s ! x) else tasks s ! j)\<lparr>t_next := n\<rparr>" for j
    using n unfolding at by (cases "j = x") (auto intro: exI [of _ "t_next (tasks s ! j)"])
  then have ch: "changed x f s ?s" by (simp add: changed_def steady_def)
  have own: "owned_but {} ?s Q"
    by (rule owned_mod_task [OF k(8) x(1-3)]) (use b f(4,5) shape_okD(7) [OF owned_butD(1) [OF k(8)] x(1)] in auto)
  have wt: "t_waiting_sem (tasks s ! x) = 0" "t_waiting_mutex (tasks s ! x) = 0" using waiters_iff [OF d(2), of x] x by auto
  have w: "waits_rep {} {} ?s S M" by (rule waits_mod_task [OF d(2) xl x(4) k(7)]) (use b wt in auto)
  have "sync_inv ?s Q S M"
  proof (rule sync_changed [OF k(1) own w ch])
    show "grant_ok ?s x" by (rule grant_ok_frame [OF d(10) [OF x(1)]]) (use b in \<open>auto simp: at\<close>)
  qed (use b in auto)
  then show "kernel_inv ?s Q S M" by (rule kernel_changed [OF inv _ ch x(1) f(2,6)])
  show "permits ?s b = permits s b" by (rule permits_same) (use b in \<open>auto simp: counts_same_def at\<close>)
qed

text \<open>A task that waits for no object becomes ready.\<close>

lemma kernel_make_ready:
  assumes inv: "kernel_inv s Q S M" and x: "x < TASK_SLOT_COUNT" "x \<notin> queued Q" "pending_target s \<noteq> Some x" "x \<notin> waiters S M" "state_of s x \<noteq> Free"
  shows "\<exists>s' Q'. make_ready x now s = Some s' \<and> kernel_inv s' Q' S M \<and> changed x (ready_mark now) s s' \<and> (\<forall>b. permits s' b = permits s b)"
proof -
  note k = kernel_invD [OF inv] and d = sync_invD [OF kernel_invD(1) [OF inv]]
  have xl: "x < length (tasks s)" using x k(7) by simp
  from owned_make_ready [OF k(8) x(1-3), of now] obtain s' Q' where
    r: "make_ready x now s = Some s'" "owned_but {} s' Q'" "relinked (insert x (queued Q)) (mod_task x (ready_mark now) s) s'" by auto
  have t: "\<exists>n. tasks s' ! j = (if j = x then ready_mark now (tasks s ! x) else tasks s ! j)\<lparr>t_next := n\<rparr>" if "j < length (tasks s)" for j
    using relinked_task(1) [OF r(3), of j] that xl by (auto simp: mod_task_at)
  note sel = relinked_sel [OF r(3)]
  have ch: "changed x (ready_mark now) s s'" using t sel by (simp add: changed_def steady_def)
  have mem: "sem_mem s' = sem_mem s" "mutex_mem s' = mutex_mem s" using sel by simp_all
  have wt: "t_waiting_sem (tasks s ! x) = 0" "t_waiting_mutex (tasks s ! x) = 0" using waiters_iff [OF d(2), of x] x by auto
  have "waits_rep {} {} (mod_task x (ready_mark now) s) S M"
    by (rule waits_mod_task [OF d(2) xl x(4) k(7)]) (use wt in \<open>auto simp: ready_mark_def\<close>)
  then have w: "waits_rep {} {} s' S M"
    by (rule waits_relinked [OF _ r(3)]) (use k(7) x(4) queued_not_waiting [OF k(8) d(2)] in auto)
  have gr: "grant_ok s' x"
    by (rule grant_ok_frame [OF d(10) [OF x(1)]]) (use changed_self [OF ch xl] mem in \<open>auto simp: ready_mark_def\<close>)
  have "sync_inv s' Q' S M"
    by (rule sync_changed [OF k(1) r(2) w ch mem(2)]) (use mem gr in \<open>auto simp: ready_mark_def\<close>)
  then have "kernel_inv s' Q' S M"
    by (rule kernel_changed [OF inv _ ch x(1)]) (use x(5) in \<open>auto simp: trap_kept_def ready_mark_def\<close>)
  moreover have "permits s' b = permits s b" for b
  proof (rule permits_same)
    show "t_granted_sem (tasks s' ! i) = t_granted_sem (tasks s ! i)" if "i < TASK_SLOT_COUNT" for i
      using t [of i] that k(7) by (auto simp: ready_mark_def)
  qed (simp add: counts_same_def mem)
  ultimately show ?thesis using r(1) ch by blast
qed

subsection \<open>Cancellation\<close>

lemma permits_handed:
  assumes "x < length (tasks s)" "length (tasks s) = TASK_SLOT_COUNT" "reprio (handed a x now s) s'"
  shows "permits s' b = permits s b"
proof -
  have "permits s' b = permits (handed a x now s) b"
    by (rule permits_reprio [OF assms(3)]) (use handed_sel(2) [OF assms(1)] assms(2) in simp)
  also have "\<dots> = permits s b"
    by (rule permits_same) (use handed_sel [OF assms(1)] in \<open>auto simp: counts_same_def ready_mark_def mutex_granted_def\<close>)
  finally show ?thesis .
qed

lemma permits_abandoned:
  assumes r: "reprio (mod_task x (ready_mark now) (mod_task x (unparked c) s)) s'" and len: "length (tasks s) = TASK_SLOT_COUNT"
    and x: "x < TASK_SLOT_COUNT"
  shows "permits s' b = permits s b"
proof -
  have "permits s' b = permits (mod_task x (ready_mark now) (mod_task x (unparked c) s)) b"
    by (rule permits_reprio [OF r]) (use len in simp)
  also have "\<dots> = permits s b"
    by (rule permits_same) (use x len in \<open>auto simp: counts_same_def mod_task_at ready_mark_def unparked_def\<close>)
  finally show ?thesis .
qed

text \<open>Cancelling the wait for a mutex: the task leaves the queue and takes its donation along.\<close>

lemma cancel_mutex_wait:
  assumes inv: "kernel_inv s Q S M" and x: "x < TASK_SLOT_COUNT" and t: "t = tasks s ! x"
    and w: "t_waiting_sem t = 0" "t_granted_sem t = 0" "t_waiting_mutex t \<noteq> 0"
    and no_sem: "cancel_semaphore_wait_locked x now s = Some (False, s)"
  shows "\<exists>s' Q' S' M'. cancel_wait_locked x now s = Some (Cancelled, s') \<and> kernel_inv s' Q' S' M' \<and> current s' = current s
    \<and> (\<forall>b. permits s' b = permits s b) \<and> \<not> waits_or_granted (tasks s' ! x)"
proof -
  note k = kernel_invD [OF inv] and d = sync_invD [OF kernel_invD(1) [OF inv]]
  have xl: "x < length (tasks s)" using x k(7) by simp
  have xa: "x \<in> set (M (t_waiting_mutex t))" using fam_waiting(1) [OF waits_repD(2) [OF d(2)] x _ refl] w(3) t by simp
  from kernel_abandon [OF inv xa, of now False] obtain s2 s' Q' S' M' where
    r: "abandon_mutex_wait x (t_waiting_mutex t) s = Some s2" "length (tasks s2) = TASK_SLOT_COUNT" "state_of s2 x = Blocked"
      "make_ready x now (mod_task x (unparked False) s2) = Some s'" "kernel_inv s' Q' S' M'"
      "reprio (mod_task x (ready_mark now) (mod_task x (unparked False) s)) s'" by blast
  have f: "unparked False = (\<lambda>t. t\<lparr>t_waiting_mutex := 0, t_wake_at := 0, t_sem_granted := False\<rparr>)"
    by (simp add: unparked_def fun_eq_iff)
  have "cancel_wait_locked x now s = Some (Cancelled, s')"
    using no_sem w t x xl r(1-4) by (simp add: cancel_wait_locked_def f mod_task_at)
  moreover have "t_granted_mutex t = 0" using waits_for_one(2) [OF k(1) x] w(3) t by auto
  then have "\<not> waits_or_granted (tasks s' ! x)"
    using reprio_fields [OF r(6), of x] w t xl by (simp add: waits_or_granted_def mod_task_at ready_mark_def unparked_def)
  ultimately show ?thesis using r(5) permits_abandoned [OF r(6) k(7) x] reprio_sel(2) [OF r(6)] by auto
qed

text \<open>A task that leaves a mutex it was granted: what it hands over does not come back to it.\<close>

lemma handed_leaves:
  assumes inv: "kernel_inv s Q S M" and x: "x < TASK_SLOT_COUNT" "t_waiting_mutex (tasks s ! x) \<noteq> g"
    and z: "M g = z # zs" and r: "reprio (handed g z now s) s'"
  shows "permits s' b = permits s b" "current s' = current s"
    "waits_or_granted (tasks s' ! x) = waits_or_granted (tasks s ! x)"
proof -
  note k = kernel_invD [OF inv]
  have zl: "z < length (tasks s)" using mutex_waiter(1) [OF k(1), of z g] z k(7) by simp
  have "z \<noteq> x" using mutex_waiter(3) [OF k(1), of z g] z x(2) by auto
  then have "tasks (handed g z now s) ! x = tasks s ! x" "x < length (tasks (handed g z now s))"
    using handed_sel(1,2) [of z s g now] zl k(7) x(1) by (auto simp: mod_task_at)
  with reprio_fields [OF r, of x] show "waits_or_granted (tasks s' ! x) = waits_or_granted (tasks s ! x)" by (simp add: waits_or_granted_def)
  show "permits s' b = permits s b" "current s' = current s"
    using permits_handed [OF zl _ r] k(7) reprio_sel(2) [OF r] handed_sel(3) [OF zl] by simp_all
qed

text \<open>Cancelling a grant that was not seen yet: the mutex goes to the next waiter.\<close>

lemma cancel_mutex_grant:
  assumes inv: "kernel_inv s Q S M" and x: "x < TASK_SLOT_COUNT" and t: "t = tasks s ! x"
    and w: "t_waiting_sem t = 0" "t_granted_sem t = 0" "t_waiting_mutex t = 0" "t_granted_mutex t \<noteq> 0"
    and no_sem: "cancel_semaphore_wait_locked x now s = Some (False, s)"
  shows "\<exists>s' Q' S' M'. cancel_wait_locked x now s = Some (Cancelled, s') \<and> kernel_inv s' Q' S' M' \<and> current s' = current s
    \<and> (\<forall>b. permits s' b = permits s b) \<and> \<not> waits_or_granted (tasks s' ! x)"
proof -
  note k = kernel_invD [OF inv] and d = sync_invD [OF kernel_invD(1) [OF inv]]
  have xl: "x < length (tasks s)" using x k(7) by simp
  let ?g = "t_granted_mutex t" and ?s = "mod_task x unseen s"
  note c = consume_mutex_grant [OF inv x w(2) [unfolded t]]
  obtain m where m: "mutex_mem s ?g = Some m" "mx_owner m = x" "mx_depth m = 1"
    using d(10) [OF x] w(4) t by (auto simp: grant_ok_def Let_def)
  have y: "t_waiting_mutex (tasks ?s ! x) = 0" "t_granted_mutex (tasks ?s ! x) = 0" "mutex_mem ?s ?g = Some m"
    and rest: "\<not> waits_or_granted (tasks ?s ! x)"
    using xl w t m by (simp_all add: mod_task_at unseen_def waits_or_granted_def)
  from kernel_release [OF c(1) y(3) m(2) x y(1,2), of now] obtain s' Q' S' where
    r: "release_mutex_locked ?g x now (?s\<lparr>mutex_mem := (mutex_mem ?s)(?g \<mapsto> m\<lparr>mx_depth := 0\<rparr>)\<rparr>) = Some s'"
      "kernel_inv s' Q' S' (M(?g := tl (M ?g)))"
      "M ?g = [] \<longrightarrow> s' = ?s\<lparr>mutex_mem := (mutex_mem ?s)(?g \<mapsto> m\<lparr>mx_owner := NIL, mx_depth := 0\<rparr>)\<rparr>"
      "\<forall>z zs. M ?g = z # zs \<longrightarrow> reprio (handed ?g z now ?s) s'" by blast
  have run: "cancel_wait_locked x now s = Some (Cancelled, s')"
    using no_sem w t xl m r(1) by (simp add: cancel_wait_locked_def mutex_update_def unseen_def [abs_def])
  have "permits s' b = permits ?s b \<and> current s' = current ?s \<and> \<not> waits_or_granted (tasks s' ! x)" for b
  proof (cases "M ?g")
    case Nil
    with r(3) have e: "s' = ?s\<lparr>mutex_mem := (mutex_mem ?s)(?g \<mapsto> m\<lparr>mx_owner := NIL, mx_depth := 0\<rparr>)\<rparr>" by simp
    have "permits s' b = permits ?s b" by (rule permits_same) (simp_all add: counts_same_def e)
    then show ?thesis using rest by (simp add: e)
  next
    case (Cons z zs)
    from handed_leaves [OF c(1) x _ Cons r(4) [rule_format, OF Cons]] y(1) w(4) rest show ?thesis by simp
  qed
  with run r(2) c(2) show ?thesis by auto
qed

lemma cancel_wait_spec:
  assumes inv: "kernel_inv s Q S M" and x: "x < TASK_SLOT_COUNT"
    and small: "t_granted_sem (tasks s ! x) \<noteq> 0 \<Longrightarrow> permits s (t_granted_sem (tasks s ! x)) \<le> I32_MAX"
  shows "\<exists>s' Q' S' M'. cancel_wait_locked x now s = Some (if waits_or_granted (tasks s ! x) then Cancelled else NotWaiting, s')
    \<and> kernel_inv s' Q' S' M' \<and> current s' = current s \<and> (\<forall>b. b \<noteq> 0 \<longrightarrow> permits s' b = permits s b)
    \<and> \<not> waits_or_granted (tasks s' ! x) \<and> (\<not> waits_or_granted (tasks s ! x) \<longrightarrow> s' = s)"
proof -
  have xl: "x < length (tasks s)" using x kernel_invD(7) [OF inv] by simp
  let ?t = "tasks s ! x"
  from semaphore_cancel_spec [OF inv x small, of now] obtain s1 Q1 S1 where
    1: "cancel_semaphore_wait_locked x now s = Some (t_waiting_sem ?t \<noteq> 0 \<or> t_granted_sem ?t \<noteq> 0, s1)" "kernel_inv s1 Q1 S1 M"
      "current s1 = current s" "\<forall>b. b \<noteq> 0 \<longrightarrow> permits s1 b = permits s b"
      "t_waiting_sem ?t = 0 \<and> t_granted_sem ?t = 0 \<longrightarrow> s1 = s"
      "t_waiting_sem ?t \<noteq> 0 \<or> t_granted_sem ?t \<noteq> 0 \<longrightarrow> \<not> waits_or_granted (tasks s1 ! x)" by blast
  consider (sem) "t_waiting_sem ?t \<noteq> 0 \<or> t_granted_sem ?t \<noteq> 0"
    | (wait) "t_waiting_sem ?t = 0" "t_granted_sem ?t = 0" "t_waiting_mutex ?t \<noteq> 0"
    | (grant) "t_waiting_sem ?t = 0" "t_granted_sem ?t = 0" "t_waiting_mutex ?t = 0" "t_granted_mutex ?t \<noteq> 0"
    | (none) "\<not> waits_or_granted ?t" unfolding waits_or_granted_def by blast
  then show ?thesis
  proof cases
    case sem
    with 1 show ?thesis by (auto simp: cancel_wait_locked_def waits_or_granted_def)
  next
    case wait
    with cancel_mutex_wait [OF inv x refl wait, of now] 1(1,5) show ?thesis by (auto simp: waits_or_granted_def [of ?t])
  next
    case grant
    with cancel_mutex_grant [OF inv x refl grant, of now] 1(1,5) show ?thesis by (auto simp: waits_or_granted_def [of ?t])
  next
    case none
    then have "cancel_wait_locked x now s = Some (NotWaiting, s)"
      using 1(1,5) xl by (simp add: cancel_wait_locked_def waits_or_granted_def)
    with inv none show ?thesis by auto
  qed
qed

end
