(* ===== verification/Expiry.thy ===== *)
theory Expiry
  imports Timeouts Timer
begin

text \<open>
  The timer interrupt: everything that is due is served and nothing else is touched. A sleeper or a
  timed waiter whose deadline has passed becomes ready, a throttled task whose period has elapsed is
  refilled and becomes ready, and the invariant of the kernel and every permit are kept.
\<close>

subsection \<open>Waking one task\<close>

definition overdue :: "nat \<Rightarrow> tcb \<Rightarrow> bool" where
  "overdue now t \<longleftrightarrow> (t_state t = Sleeping \<and> t_wake_at t \<le> now)
     \<or> (t_state t = Blocked \<and> t_wake_at t \<noteq> 0 \<and> t_wake_at t \<le> now \<and> (t_waiting_sem t \<noteq> 0 \<or> t_waiting_mutex t \<noteq> 0))"

text \<open>What time acts on.\<close>

definition clock :: "tcb \<Rightarrow> tstate \<times> nat \<times> nat \<times> nat \<times> budget_state \<times> nat" where
  "clock t = (t_state t, t_wake_at t, t_waiting_sem t, t_waiting_mutex t, t_budget t, t_scheduler_lock_depth t)"

lemma clock_overdue: "clock t' = clock t \<Longrightarrow> overdue now t' = overdue now t"
  by (simp add: clock_def overdue_def)

lemma clock_next [simp]: "clock (t\<lparr>t_next := n\<rparr>) = clock t"
  by (simp add: clock_def)

definition served :: "sched \<Rightarrow> sched \<Rightarrow> bool" where
  "served s s' \<longleftrightarrow> (\<exists>Q S M. kernel_inv s' Q S M) \<and> current s' = current s \<and> pending_switch s' = pending_switch s \<and> steady s s'
     \<and> (\<forall>b. b \<noteq> 0 \<longrightarrow> permits s' b = permits s b)"

lemma served_trans: "served s s1 \<Longrightarrow> served s1 s2 \<Longrightarrow> served s s2"
  by (auto simp: served_def steady_def)

lemma served_refl: "kernel_inv s Q S M \<Longrightarrow> served s s"
  by (auto simp: served_def steady_def)

lemma kernel_inv_diag [simp]: "kernel_inv (diag f s) Q S M = kernel_inv s Q S M"
  by (simp add: kernel_inv_def trap_inv_def budgets_ok_def frames_ok_def ticket_ok_def task_ref_is_current_def task_at_def)

lemma served_diag [simp]: "served s (diag f s') = served s s'"
  by (simp add: served_def permits_def grants_def steady_def)

definition woken :: "nat \<Rightarrow> nat \<Rightarrow> sched \<Rightarrow> sched \<Rightarrow> bool" where
  "woken i now s s' \<longleftrightarrow> (\<forall>j < TASK_SLOT_COUNT. if j = i \<and> overdue now (tasks s ! j)
     then state_of s' j = Ready \<and> t_budget (tasks s' ! j) = t_budget (tasks s ! j) else clock (tasks s' ! j) = clock (tasks s ! j))"

lemma woken_changed:
  assumes "changed i f s s'" "length (tasks s) = TASK_SLOT_COUNT" "i < TASK_SLOT_COUNT" "overdue now (tasks s ! i)"
    "t_state (f (tasks s ! i)) = Ready" "t_budget (f (tasks s ! i)) = t_budget (tasks s ! i)"
  shows "woken i now s s'"
  unfolding woken_def
proof (intro allI impI)
  fix j
  assume "j < TASK_SLOT_COUNT"
  with assms(1,2) obtain n where "tasks s' ! j = (if j = i then f (tasks s ! i) else tasks s ! j)\<lparr>t_next := n\<rparr>"
    by (auto simp: changed_def)
  with assms(4-6) show "if j = i \<and> overdue now (tasks s ! j)
      then state_of s' j = Ready \<and> t_budget (tasks s' ! j) = t_budget (tasks s ! j) else clock (tasks s' ! j) = clock (tasks s ! j)"
    by auto
qed

lemma woken_diag [simp]: "woken i now s (diag f s') = woken i now s s'"
  by (simp add: woken_def)

text \<open>The three reasons to wake a task: its sleep, its wait for a semaphore or its wait for a mutex is over.\<close>

lemma wake_from_sleep:
  assumes inv: "kernel_inv s Q S M" and i: "i < TASK_SLOT_COUNT" and t: "t = tasks s ! i"
    and c: "t_state t = Sleeping" "t_wake_at t \<le> now"
  shows "\<exists>s'. wake_sleeper now i s = Some s' \<and> served s s' \<and> woken i now s s'"
proof -
  note k = kernel_invD [OF inv] and d = sync_invD [OF kernel_invD(1) [OF inv]] and o = owned_butD [OF kernel_invD(8) [OF inv]]
  have "i \<notin> queued Q" "pending_target s \<noteq> Some i" "i \<notin> waiters S M"
    using c t o(3) o(6) waiters_blocked [OF d(2), of i] by (auto simp: pending_target_def pending_ok_def)
  from kernel_make_ready [OF inv i this, of now] c t obtain s' Q' where
    r: "make_ready i now s = Some s'" "kernel_inv s' Q' S M" "changed i (ready_mark now) s s'" "\<forall>b. permits s' b = permits s b" by auto
  have "served s s'" using r by (auto simp: served_def changed_def)
  moreover have "woken i now s s'" by (rule woken_changed [OF r(3) k(7) i]) (use c t in \<open>auto simp: ready_mark_def overdue_def\<close>)
  ultimately show ?thesis using c t r(1) i k(7) by (auto simp: wake_sleeper_def)
qed

lemma wake_from_semaphore:
  assumes inv: "kernel_inv s Q S M" and i: "i < TASK_SLOT_COUNT" and t: "t = tasks s ! i"
    and c: "t_state t = Blocked" "t_waiting_sem t \<noteq> 0" "t_wake_at t \<noteq> 0" "t_wake_at t \<le> now"
  shows "\<exists>s'. wake_sleeper now i s = Some s' \<and> served s s' \<and> woken i now s s'"
proof -
  note k = kernel_invD [OF inv]
  from timeout_semaphore_spec [OF k(1) i, of now] c t obtain s' Q' S' where
    r: "timeout_semaphore_waiter_locked i now s = Some (True, s')" "sync_inv s' Q' S' M"
      "changed i (\<lambda>t. ready_mark now (abandoned True t)) s s'" "mutex_mem s' = mutex_mem s"
      "\<forall>b. map_option sm_count (sem_mem s' b) = map_option sm_count (sem_mem s b)" by auto
  have kv: "kernel_inv s' Q' S' M"
    by (rule kernel_changed [OF inv r(2,3) i]) (use c t in \<open>auto simp: trap_kept_def ready_mark_def abandoned_def\<close>)
  have g0: "t_granted_sem t = 0" using sem_waiter(6) [OF k(1) i refl] c t by simp
  have "permits s' b = permits s b" for b
  proof (rule permits_same)
    fix j
    assume "j < TASK_SLOT_COUNT"
    with r(3) k(7) t obtain n where "tasks s' ! j = (if j = i then ready_mark now (abandoned True t) else tasks s ! j)\<lparr>t_next := n\<rparr>"
      by (auto simp: changed_def)
    then show "t_granted_sem (tasks s' ! j) = t_granted_sem (tasks s ! j)" using g0 t by (auto simp: ready_mark_def abandoned_def)
  qed (use r(5) in \<open>simp add: counts_same_def\<close>)
  with kv r(3) have "served s s'" by (auto simp: served_def changed_def)
  moreover have "woken i now s s'"
    by (rule woken_changed [OF r(3) k(7) i]) (use c t in \<open>auto simp: ready_mark_def abandoned_def overdue_def\<close>)
  ultimately show ?thesis using c t r(1) i k(7) by (auto simp: wake_sleeper_def)
qed

lemma wake_from_mutex:
  assumes inv: "kernel_inv s Q S M" and i: "i < TASK_SLOT_COUNT" and t: "t = tasks s ! i"
    and c: "t_state t = Blocked" "t_waiting_sem t = 0" "t_waiting_mutex t \<noteq> 0" "t_wake_at t \<noteq> 0" "t_wake_at t \<le> now"
  shows "\<exists>s'. wake_sleeper now i s = Some s' \<and> served s s' \<and> woken i now s s'"
proof -
  note k = kernel_invD [OF inv] and d = sync_invD [OF kernel_invD(1) [OF inv]]
  have il: "i < length (tasks s)" using i k(7) by simp
  let ?r = "mod_task i (ready_mark now) (mod_task i (unparked True) s)"
  have xa: "i \<in> set (M (t_waiting_mutex t))" using fam_waiting(1) [OF waits_repD(2) [OF d(2)] i _ refl] c t by simp
  from kernel_abandon [OF inv xa, of now True] obtain s2 s' Q' S' M' where
    r: "abandon_mutex_wait i (t_waiting_mutex t) s = Some s2" "length (tasks s2) = TASK_SLOT_COUNT"
      "make_ready i now (mod_task i (unparked True) s2) = Some s'" "kernel_inv s' Q' S' M'" "reprio ?r s'" by blast
  have f: "unparked True = (\<lambda>t. t\<lparr>t_waiting_mutex := 0, t_sem_granted := False, t_granted_mutex := 0, t_wake_at := 0\<rparr>)"
    by (simp add: unparked_def fun_eq_iff)
  have "timeout_semaphore_waiter_locked i now s = Some (False, s)" using timeout_semaphore_spec [OF k(1) i, of now] c t by auto
  then have run: "wake_sleeper now i s = Some s'" using c t il i r(1-3) by (auto simp: wake_sleeper_def f)
  have od: "overdue now t" using c by (simp add: overdue_def)
  have "served s s'" using r(4) reprio_sel [OF r(5)] permits_abandoned [OF r(5) k(7) i] by (auto simp: served_def steady_def)
  moreover have "woken i now s s'"
    unfolding woken_def
  proof (intro allI impI)
    fix j
    assume j: "j < TASK_SLOT_COUNT"
    have e: "clock (tasks s' ! j) = clock (tasks ?r ! j)" using reprio_fields [OF r(5), of j] j k(7) by (simp add: clock_def)
    have "tasks ?r ! j = (if j = i then ready_mark now (unparked True t) else tasks s ! j)" using il t by (simp add: mod_task_at)
    with e show "if j = i \<and> overdue now (tasks s ! j)
        then state_of s' j = Ready \<and> t_budget (tasks s' ! j) = t_budget (tasks s ! j) else clock (tasks s' ! j) = clock (tasks s ! j)"
      using od t by (cases "j = i") (simp_all add: clock_def ready_mark_def unparked_def)
  qed
  ultimately show ?thesis using run by blast
qed

lemma wake_sleeper_spec:
  assumes inv: "kernel_inv s Q S M" and i: "i < TASK_SLOT_COUNT"
  shows "\<exists>s'. wake_sleeper now i s = Some s' \<and> served s s' \<and> woken i now s s'"
proof (cases "overdue now (tasks s ! i)")
  case True
  then show ?thesis
    using wake_from_sleep [OF inv i refl, of now] wake_from_semaphore [OF inv i refl, of now] wake_from_mutex [OF inv i refl, of now]
    unfolding overdue_def by blast
next
  case False
  note k = kernel_invD [OF inv]
  from False have n: "\<not> (state_of s i = Sleeping \<and> t_wake_at (tasks s ! i) \<le> now)"
    "\<not> (state_of s i = Blocked \<and> t_waiting_sem (tasks s ! i) \<noteq> 0 \<and> t_wake_at (tasks s ! i) \<noteq> 0 \<and> t_wake_at (tasks s ! i) \<le> now)"
    "\<not> (state_of s i = Blocked \<and> t_waiting_mutex (tasks s ! i) \<noteq> 0 \<and> t_wake_at (tasks s ! i) \<noteq> 0 \<and> t_wake_at (tasks s ! i) \<le> now)"
    by (auto simp: overdue_def)
  have "timeout_semaphore_waiter_locked i now s = Some (False, s)"
    using timeout_semaphore_spec [OF k(1) i, of now] n(2) by auto
  then have "wake_sleeper now i s = Some s" using n(1,3) i k(7) by (auto simp: wake_sleeper_def)
  moreover have "woken i now s s" using False by (auto simp: woken_def)
  ultimately show ?thesis using served_refl [OF inv] by blast
qed

subsection \<open>Refilling one quota\<close>

definition refilled :: "nat \<Rightarrow> tcb \<Rightarrow> tcb \<Rightarrow> bool" where
  "refilled now t t' \<longleftrightarrow> replenish_if_due now (t_budget t) = Some (t_state t' = Ready, t_budget t')
     \<and> (t_state t' = Ready \<or> t_state t' = Throttled)"

lemma refilled_clock: "clock t1 = clock t2 \<Longrightarrow> clock t1' = clock t2' \<Longrightarrow> refilled now t1 t1' = refilled now t2 t2'"
  by (simp add: refilled_def clock_def)

definition replenished :: "nat \<Rightarrow> nat \<Rightarrow> sched \<Rightarrow> sched \<Rightarrow> bool" where
  "replenished i now s s' \<longleftrightarrow> (\<forall>j < TASK_SLOT_COUNT. if j = i \<and> state_of s j = Throttled
     then refilled now (tasks s ! j) (tasks s' ! j) else clock (tasks s' ! j) = clock (tasks s ! j))"

lemma replenish_budget_spec:
  assumes inv: "kernel_inv s Q S M" and i: "i < TASK_SLOT_COUNT" and now: "now \<le> U64_MAX"
  shows "\<exists>s'. replenish_budget now i s = Some s' \<and> served s s' \<and> replenished i now s s'"
proof (cases "state_of s i = Throttled")
  case False
  then have "replenish_budget now i s = Some s" using i kernel_invD(7) [OF inv] by (simp add: replenish_budget_def)
  moreover have "replenished i now s s" using False by (auto simp: replenished_def)
  ultimately show ?thesis using served_refl [OF inv] by blast
next
  case th: True
  note k = kernel_invD [OF inv] and d = sync_invD [OF kernel_invD(1) [OF inv]] and o = owned_butD [OF kernel_invD(8) [OF inv]]
  have il: "i < length (tasks s)" using i k(7) by simp
  have "budget_inv (t_budget (tasks s ! i))" using k(2) i by (simp add: trap_inv_def budgets_ok_def)
  from replenish_if_due_inv [OF this now] obtain due b where
    b: "replenish_if_due now (t_budget (tasks s ! i)) = Some (due, b)" "budget_inv b" by blast
  let ?f = "\<lambda>t. t\<lparr>t_budget := b\<rparr>" and ?s = "mod_task i (\<lambda>t. t\<lparr>t_budget := b\<rparr>) s"
  have out: "i \<notin> queued Q" "pending_target s \<noteq> Some i" "i \<notin> waiters S M"
    using th o(3) o(6) waiters_blocked [OF d(2), of i] by (auto simp: pending_target_def pending_ok_def)
  have idle: "i \<noteq> IDLE_SLOT" using th k(4) by auto
  note u = kernel_task_upd [OF inv i out, of ?f]
  have kv: "kernel_inv ?s Q S M" and pm: "permits ?s b = permits s b" for b
    using u th idle b(2) by (auto simp: bystander_def trap_kept_def)
  have at: "tasks ?s ! j = (if j = i then (tasks s ! i)\<lparr>t_budget := b\<rparr> else tasks s ! j)" for j using il by (simp add: mod_task_at)
  show ?thesis
  proof (cases due)
    case False
    then have "replenish_budget now i s = Some ?s" using th il b(1) by (simp add: replenish_budget_def)
    moreover have "served s ?s" using kv pm by (auto simp: served_def steady_def)
    moreover have "replenished i now s ?s" unfolding replenished_def at using th b(1) False by (auto simp: refilled_def clock_def)
    ultimately show ?thesis by blast
  next
    case True
    have p2: "pending_target ?s \<noteq> Some i" using out(2) by (simp add: pending_target_def)
    from kernel_make_ready [OF kv i out(1) p2 out(3), of now] th il obtain s' Q' where
      r: "make_ready i now ?s = Some s'" "kernel_inv s' Q' S M" "changed i (ready_mark now) ?s s'" "\<forall>b. permits s' b = permits ?s b"
      by (auto simp: mod_task_at)
    have t: "\<exists>n. tasks s' ! j = (if j = i then ready_mark now ((tasks s ! i)\<lparr>t_budget := b\<rparr>) else tasks s ! j)\<lparr>t_next := n\<rparr>"
      if "j < TASK_SLOT_COUNT" for j
      using r(3) that k(7) at [of j] at [of i] unfolding changed_def by (cases "j = i") (auto dest!: spec [of _ j])
    have "replenished i now s s'"
      unfolding replenished_def
    proof (intro allI impI)
      fix j
      assume "j < TASK_SLOT_COUNT"
      from t [OF this] show "if j = i \<and> state_of s j = Throttled
          then refilled now (tasks s ! j) (tasks s' ! j) else clock (tasks s' ! j) = clock (tasks s ! j)"
        using th b(1) True by (cases "j = i") (auto simp: refilled_def ready_mark_def)
    qed
    moreover have "served s s'" using r pm by (auto simp: served_def changed_def steady_def)
    moreover have "replenished i now s (diag f s') = replenished i now s s'" for f by (simp add: replenished_def)
    moreover have "replenish_budget now i s = Some (diag (\<lambda>d. d\<lparr>d_budget_replenishments := bump32 (d_budget_replenishments d)\<rparr>) s')"
      using th il b(1) True r(1) by (simp add: replenish_budget_def)
    ultimately show ?thesis by auto
  qed
qed

subsection \<open>All tasks\<close>

lemma served_kernel: "served s s' \<Longrightarrow> \<exists>Q S M. kernel_inv s' Q S M"
  by (simp add: served_def)

lemma wake_loop_spec:
  assumes inv: "kernel_inv s Q S M" and n: "n \<le> TASK_SLOT_COUNT"
  shows "\<exists>s'. for_each (wake_sleeper now) [0..<n] s = Some s' \<and> served s s' \<and> (\<forall>j < TASK_SLOT_COUNT. if j < n \<and> overdue now (tasks s ! j)
     then state_of s' j = Ready \<and> t_budget (tasks s' ! j) = t_budget (tasks s ! j) else clock (tasks s' ! j) = clock (tasks s ! j))"
  using n
proof (induction n)
  case 0
  then show ?case using served_refl [OF inv] by simp
next
  case (Suc n)
  then obtain s1 where s1: "for_each (wake_sleeper now) [0..<n] s = Some s1" "served s s1"
    "\<forall>j < TASK_SLOT_COUNT. if j < n \<and> overdue now (tasks s ! j)
       then state_of s1 j = Ready \<and> t_budget (tasks s1 ! j) = t_budget (tasks s ! j) else clock (tasks s1 ! j) = clock (tasks s ! j)" by auto
  obtain Q1 S1 M1 where k1: "kernel_inv s1 Q1 S1 M1" using served_kernel [OF s1(2)] by blast
  have nl: "n < TASK_SLOT_COUNT" using Suc.prems by simp
  from wake_sleeper_spec [OF k1 nl, of now] obtain s' where
    s': "wake_sleeper now n s1 = Some s'" "served s1 s'" "woken n now s1 s'" by blast
  have "for_each (wake_sleeper now) [0..<Suc n] s = Some s'" using s1(1) s'(1) by (simp add: for_each_append)
  moreover have "if j < Suc n \<and> overdue now (tasks s ! j) then state_of s' j = Ready \<and> t_budget (tasks s' ! j) = t_budget (tasks s ! j)
      else clock (tasks s' ! j) = clock (tasks s ! j)" if j: "j < TASK_SLOT_COUNT" for j
  proof -
    have a: "if j < n \<and> overdue now (tasks s ! j) then state_of s1 j = Ready \<and> t_budget (tasks s1 ! j) = t_budget (tasks s ! j)
        else clock (tasks s1 ! j) = clock (tasks s ! j)" using s1(3) j by blast
    have b: "if j = n \<and> overdue now (tasks s1 ! j) then state_of s' j = Ready \<and> t_budget (tasks s' ! j) = t_budget (tasks s1 ! j)
        else clock (tasks s' ! j) = clock (tasks s1 ! j)" using s'(3) j unfolding woken_def by blast
    show ?thesis
      using a b clock_overdue [of "tasks s1 ! j" "tasks s ! j" now] by (cases "j = n") (auto simp: less_Suc_eq clock_def split: if_splits)
  qed
  ultimately show ?case using served_trans [OF s1(2) s'(2)] by blast
qed

lemma replenish_loop_spec:
  assumes inv: "kernel_inv s Q S M" and now: "now \<le> U64_MAX" and n: "n \<le> TASK_SLOT_COUNT"
  shows "\<exists>s'. for_each (replenish_budget now) [0..<n] s = Some s' \<and> served s s' \<and> (\<forall>j < TASK_SLOT_COUNT. if j < n \<and> state_of s j = Throttled
     then refilled now (tasks s ! j) (tasks s' ! j) else clock (tasks s' ! j) = clock (tasks s ! j))"
  using n
proof (induction n)
  case 0
  then show ?case using served_refl [OF inv] by simp
next
  case (Suc n)
  then obtain s1 where s1: "for_each (replenish_budget now) [0..<n] s = Some s1" "served s s1"
    "\<forall>j < TASK_SLOT_COUNT. if j < n \<and> state_of s j = Throttled
       then refilled now (tasks s ! j) (tasks s1 ! j) else clock (tasks s1 ! j) = clock (tasks s ! j)" by auto
  obtain Q1 S1 M1 where k1: "kernel_inv s1 Q1 S1 M1" using served_kernel [OF s1(2)] by blast
  have nl: "n < TASK_SLOT_COUNT" using Suc.prems by simp
  from replenish_budget_spec [OF k1 nl now] obtain s' where
    s': "replenish_budget now n s1 = Some s'" "served s1 s'" "replenished n now s1 s'" by blast
  have "for_each (replenish_budget now) [0..<Suc n] s = Some s'" using s1(1) s'(1) by (simp add: for_each_append)
  moreover have "if j < Suc n \<and> state_of s j = Throttled then refilled now (tasks s ! j) (tasks s' ! j)
      else clock (tasks s' ! j) = clock (tasks s ! j)" if j: "j < TASK_SLOT_COUNT" for j
  proof -
    have a: "if j < n \<and> state_of s j = Throttled then refilled now (tasks s ! j) (tasks s1 ! j)
        else clock (tasks s1 ! j) = clock (tasks s ! j)" using s1(3) j by blast
    have b: "if j = n \<and> state_of s1 j = Throttled then refilled now (tasks s1 ! j) (tasks s' ! j)
        else clock (tasks s' ! j) = clock (tasks s1 ! j)" using s'(3) j unfolding replenished_def by blast
    have st: "clock t = clock t' \<Longrightarrow> t_state t = t_state t'" for t t' by (simp add: clock_def)
    show ?thesis
    proof (cases "j < n")
      case True
      then have "clock (tasks s' ! j) = clock (tasks s1 ! j)" using b by simp
      with a True refilled_clock [OF refl this, of now "tasks s ! j"] show ?thesis by (auto split: if_splits)
    next
      case False
      then have c: "clock (tasks s1 ! j) = clock (tasks s ! j)" using a by simp
      with b False st [OF c] refilled_clock [OF c refl, of now "tasks s' ! j"] show ?thesis
        by (cases "j = n") (auto split: if_splits)
    qed
  qed
  ultimately show ?case using served_trans [OF s1(2) s'(2)] by blast
qed

lemma wake_sleepers_spec:
  assumes inv: "kernel_inv s Q S M" and now: "now \<le> U64_MAX"
  shows "\<exists>s'. wake_sleepers now s = Some s' \<and> served s s'
    \<and> (\<forall>j < TASK_SLOT_COUNT. if overdue now (tasks s ! j) then state_of s' j = Ready
       else if state_of s j = Throttled then refilled now (tasks s ! j) (tasks s' ! j)
       else clock (tasks s' ! j) = clock (tasks s ! j))"
proof -
  from wake_loop_spec [OF inv order.refl, of now] obtain s1 where
    s1: "for_each (wake_sleeper now) [0..<TASK_SLOT_COUNT] s = Some s1" "served s s1"
      "\<forall>j < TASK_SLOT_COUNT. if overdue now (tasks s ! j)
       then state_of s1 j = Ready \<and> t_budget (tasks s1 ! j) = t_budget (tasks s ! j) else clock (tasks s1 ! j) = clock (tasks s ! j)" by auto
  obtain Q1 S1 M1 where k1: "kernel_inv s1 Q1 S1 M1" using served_kernel [OF s1(2)] by blast
  from replenish_loop_spec [OF k1 now order.refl] obtain s' where
    s': "for_each (replenish_budget now) [0..<TASK_SLOT_COUNT] s1 = Some s'" "served s1 s'"
      "\<forall>j < TASK_SLOT_COUNT. if state_of s1 j = Throttled then refilled now (tasks s1 ! j) (tasks s' ! j)
       else clock (tasks s' ! j) = clock (tasks s1 ! j)" by auto
  have "wake_sleepers now s = Some s'" using s1(1) s'(1) by (simp add: wake_sleepers_def replenish_budgets_def)
  moreover have "if overdue now (tasks s ! j) then state_of s' j = Ready
       else if state_of s j = Throttled then refilled now (tasks s ! j) (tasks s' ! j)
       else clock (tasks s' ! j) = clock (tasks s ! j)" if "j < TASK_SLOT_COUNT" for j
  proof -
    have a: "if overdue now (tasks s ! j) then state_of s1 j = Ready \<and> t_budget (tasks s1 ! j) = t_budget (tasks s ! j)
        else clock (tasks s1 ! j) = clock (tasks s ! j)" using s1(3) that by blast
    have b: "if state_of s1 j = Throttled then refilled now (tasks s1 ! j) (tasks s' ! j)
        else clock (tasks s' ! j) = clock (tasks s1 ! j)" using s'(3) that by blast
    show ?thesis
    proof (cases "overdue now (tasks s ! j)")
      case True
      with a b show ?thesis by (simp add: clock_def)
    next
      case False
      with a have "clock (tasks s1 ! j) = clock (tasks s ! j)" by simp
      with b False refilled_clock [OF this refl, of now "tasks s' ! j"] show ?thesis by (auto simp: clock_def split: if_splits)
    qed
  qed
  ultimately show ?thesis using served_trans [OF s1(2) s'(2)] by blast
qed

subsection \<open>The running task\<close>

text \<open>
  The quota of the running task is charged; an exhausted one is throttled, unless it holds the
  scheduler lock. The idle task has no quota.
\<close>

definition charged :: "nat \<Rightarrow> tcb \<Rightarrow> tcb \<Rightarrow> bool" where
  "charged now t t' \<longleftrightarrow> (let (expiry, b) = budget_on_timer now (t_scheduler_lock_depth t \<noteq> 0) (t_budget t)
     in t_budget t' = b \<and> t_state t' = (if expiry = ThrottleNow then Throttled else Running))"

lemma charge_current:
  assumes inv: "kernel_inv s Q S M" and run: "state_of s (current s) = Running"
    and idle: "current s = IDLE_SLOT \<Longrightarrow> spec (t_budget (tasks s ! current s)) = None"
    and b: "budget_on_timer now (t_scheduler_lock_depth (tasks s ! current s) \<noteq> 0) (t_budget (tasks s ! current s)) = (expiry, b)"
    and f: "f = (\<lambda>t. t\<lparr>t_budget := b, t_state := (if expiry = ThrottleNow then Throttled else t_state t), t_metrics := m t\<rparr>)"
  shows "served s (mod_task (current s) f s) \<and> charged now (tasks s ! current s) (tasks (mod_task (current s) f s) ! current s)"
proof -
  note k = kernel_invD [OF inv] and al = running_alone [OF inv run]
  let ?c = "current s"
  have cl: "?c < length (tasks s)" using k(7,9) by simp
  have bi: "budget_inv (t_budget (tasks s ! ?c))" using k(2,9) by (simp add: trap_inv_def budgets_ok_def)
  have "budget_inv b" using budget_on_timer_inv [OF bi, of now "t_scheduler_lock_depth (tasks s ! ?c) \<noteq> 0"] b by simp
  moreover have "expiry \<noteq> ThrottleNow" if "?c = IDLE_SLOT" using b idle [OF that] by (auto simp: budget_on_timer_def)
  ultimately have g: "bystander (tasks s ! ?c) (f (tasks s ! ?c))" "trap_kept (tasks s ! ?c) (f (tasks s ! ?c))"
    "t_next (f (tasks s ! ?c)) = t_next (tasks s ! ?c)"
    "t_state (f (tasks s ! ?c)) = Running \<Longrightarrow> ?c = ?c \<and> pending_switch s = None"
    "t_state (f (tasks s ! ?c)) = Ready \<Longrightarrow> ?c = IDLE_SLOT"
    "?c = IDLE_SLOT \<Longrightarrow> t_state (f (tasks s ! ?c)) = Ready \<or> t_state (f (tasks s ! ?c)) = Running"
    using al(1) run by (simp_all add: f bystander_def trap_kept_def split: if_splits)
  have "pending_target s \<noteq> Some ?c" using al(2) by simp
  from kernel_task_upd [where f = f and x = ?c, OF inv k(9) al(3) this al(4) g]
  have "kernel_inv (mod_task ?c f s) Q S M" "permits (mod_task ?c f s) x = permits s x" for x by blast+
  then have "served s (mod_task ?c f s)" by (auto simp: served_def steady_def)
  moreover have "charged now (tasks s ! ?c) (tasks (mod_task ?c f s) ! ?c)" using b run cl by (simp add: charged_def f mod_task_at)
  ultimately show ?thesis by blast
qed

text \<open>The last part of \<open>on_timer\<close>, once the sleepers are served and the current task is running.\<close>

lemma on_timer_charges:
  assumes "wake_sleepers now s = Some s1" "current s1 < length (tasks s1)" "state_of s1 (current s1) = Running"
    and "budget_on_timer now (t_scheduler_lock_depth (tasks s1 ! current s1) \<noteq> 0) (t_budget (tasks s1 ! current s1)) = (expiry, b)"
  shows "\<exists>v g m. on_timer now limit s = Some (v, diag g (mod_task (current s1)
    (\<lambda>t. t\<lparr>t_budget := b, t_state := (if expiry = ThrottleNow then Throttled else t_state t), t_metrics := m t\<rparr>) s1))"
proof -
  let ?c = "current s1" and ?F = "\<lambda>m t. t\<lparr>t_budget := b, t_state := (if expiry = ThrottleNow then Throttled else t_state t), t_metrics := m t\<rparr>"
  let ?v = "case t_scheduler_lock_started_at (tasks s1 ! ?c) of None \<Rightarrow> None
    | Some started_at \<Rightarrow> let held = sat_sub now started_at
        in if limit \<le> held then Some (SchedulerLockOverrun ?c held limit) else None"
  let ?o = "\<lambda>d. d\<lparr>d_scheduler_lock_overruns := bump32 (d_scheduler_lock_overruns d)\<rparr>"
  have id: "diag (\<lambda>d. d) x = x" for x by (simp add: diag_def)
  have "\<exists>g m. on_timer now limit s = (let x = diag g (mod_task ?c (?F m) s1) in Some (?v, if ?v \<noteq> None then diag ?o x else x))"
  proof (cases expiry)
    case NotBudgeted
    have "?F t_metrics = (\<lambda>t. t\<lparr>t_budget := b\<rparr>)" using NotBudgeted by (simp add: fun_eq_iff)
    then show ?thesis using assms NotBudgeted
      by (intro exI [of _ "\<lambda>d. d"] exI [of _ t_metrics]) (simp add: on_timer_def id mod_task_at Let_def)
  next
    case StillAvailable
    have "?F t_metrics = (\<lambda>t. t\<lparr>t_budget := b\<rparr>)" using StillAvailable by (simp add: fun_eq_iff)
    then show ?thesis using assms StillAvailable
      by (intro exI [of _ "\<lambda>d. d"] exI [of _ t_metrics]) (simp add: on_timer_def id mod_task_at Let_def)
  next
    case ThrottleNow
    let ?m = "\<lambda>t. (t_metrics t)\<lparr>m_budget_exhaustions := bump32 (m_budget_exhaustions (t_metrics t))\<rparr>"
    have "mod_task ?c (?F ?m) s1 = mod_task ?c (\<lambda>t. t\<lparr>t_state := Throttled, t_metrics := ?m t\<rparr>) (mod_task ?c (\<lambda>t. t\<lparr>t_budget := b\<rparr>) s1)"
      using assms(2) ThrottleNow by (simp add: mod_task_twice comp_def)
    then show ?thesis using assms ThrottleNow
      by (intro exI [of _ "\<lambda>d. d\<lparr>d_budget_exhaustions := bump32 (d_budget_exhaustions d), d_budget_throttles := bump32 (d_budget_throttles d)\<rparr>"] exI [of _ ?m])
        (simp add: on_timer_def mod_task_at Let_def)
  next
    case DeferredBySchedulerLock
    let ?m = "\<lambda>t. (t_metrics t)\<lparr>m_budget_exhaustions := bump32 (m_budget_exhaustions (t_metrics t))\<rparr>"
    have "mod_task ?c (?F ?m) s1 = mod_task ?c (\<lambda>t. t\<lparr>t_metrics := ?m t\<rparr>) (mod_task ?c (\<lambda>t. t\<lparr>t_budget := b\<rparr>) s1)"
      using assms(2) DeferredBySchedulerLock by (simp add: mod_task_twice comp_def)
    then show ?thesis using assms DeferredBySchedulerLock
      by (intro exI [of _ "\<lambda>d. d\<lparr>d_budget_exhaustions := bump32 (d_budget_exhaustions d), d_budget_lock_overruns := bump32 (d_budget_lock_overruns d)\<rparr>"] exI [of _ ?m])
        (simp add: on_timer_def mod_task_at Let_def)
  qed
  then obtain g m where r: "on_timer now limit s = (let x = diag g (mod_task ?c (?F m) s1) in Some (?v, if ?v \<noteq> None then diag ?o x else x))"
    by blast
  show ?thesis
  proof (cases "?v = None")
    case True
    with r show ?thesis by (auto simp: Let_def)
  next
    case False
    moreover have "diag ?o (diag g x) = diag (\<lambda>d. ?o (g d)) x" for x by (simp add: diag_def)
    ultimately have "on_timer now limit s = Some (?v, diag (\<lambda>d. ?o (g d)) (mod_task ?c (?F m) s1))" using r by (simp add: Let_def)
    then show ?thesis by blast
  qed
qed

lemma on_timer_spec:
  assumes inv: "kernel_inv s Q S M" and now: "now \<le> U64_MAX" and idle: "spec (t_budget (tasks s ! IDLE_SLOT)) = None"
  shows "\<exists>v s'. on_timer now limit s = Some (v, s') \<and> served s s'
    \<and> (\<forall>j < TASK_SLOT_COUNT. if overdue now (tasks s ! j) then state_of s' j = Ready
       else if state_of s j = Throttled then refilled now (tasks s ! j) (tasks s' ! j)
       else if state_of s j = Running then charged now (tasks s ! j) (tasks s' ! j)
       else clock (tasks s' ! j) = clock (tasks s ! j))"
proof -
  from wake_sleepers_spec [OF inv now] obtain s1 where
    1: "wake_sleepers now s = Some s1" "served s s1"
      "\<forall>j < TASK_SLOT_COUNT. if overdue now (tasks s ! j) then state_of s1 j = Ready
       else if state_of s j = Throttled then refilled now (tasks s ! j) (tasks s1 ! j)
       else clock (tasks s1 ! j) = clock (tasks s ! j)" by auto
  obtain Q1 S1 M1 where k1: "kernel_inv s1 Q1 S1 M1" using served_kernel [OF 1(2)] by blast
  note k = kernel_invD [OF k1] and k0 = kernel_invD [OF inv]
  let ?c = "current s1"
  have c: "?c = current s" using 1(2) by (simp add: served_def)
  have cl: "?c < length (tasks s1)" using k(7,9) by simp
  have only: "j = ?c" if "state_of s j = Running" "j < TASK_SLOT_COUNT" for j using owned_butD(7) [OF k0(8) that(2,1)] c by simp
  have ck: "clock (tasks s1 ! j) = clock (tasks s ! j)" if "state_of s j = Running" "j < TASK_SLOT_COUNT" for j
  proof -
    have "\<not> overdue now (tasks s ! j)" using that(1) by (simp add: overdue_def)
    with 1(3) that show ?thesis by (auto dest!: spec [of _ j])
  qed
  have run: "state_of s ?c = Running \<longleftrightarrow> state_of s1 ?c = Running"
  proof
    assume "state_of s ?c = Running"
    from ck [OF this k(9)] this show "state_of s1 ?c = Running" by (simp add: clock_def)
  next
    assume r: "state_of s1 ?c = Running"
    then show "state_of s ?c = Running" using 1(3) k(9)
      by (auto simp: clock_def refilled_def split: if_splits dest!: spec [of _ ?c])
  qed
  show ?thesis
  proof (cases "state_of s1 ?c = Running")
    case False
    then have "on_timer now limit s = Some (None, s1)" using 1(1) cl by (simp add: on_timer_def)
    moreover have "state_of s j \<noteq> Running" if "j < TASK_SLOT_COUNT" for j using only [OF _ that] run False by blast
    ultimately show ?thesis using 1(2,3) by auto
  next
    case True
    note ckc = ck [OF run [THEN iffD2, OF True] k(9)]
    obtain expiry b where eb: "budget_on_timer now (t_scheduler_lock_depth (tasks s1 ! ?c) \<noteq> 0) (t_budget (tasks s1 ! ?c)) = (expiry, b)"
      by (cases "budget_on_timer now (t_scheduler_lock_depth (tasks s1 ! ?c) \<noteq> 0) (t_budget (tasks s1 ! ?c))") auto
    have idle1: "spec (t_budget (tasks s1 ! ?c)) = None" if "?c = IDLE_SLOT" using that ckc idle by (simp add: clock_def)
    have "\<exists>v g m. on_timer now limit s = Some (v, diag g (mod_task ?c
        (\<lambda>t. t\<lparr>t_budget := b, t_state := (if expiry = ThrottleNow then Throttled else t_state t), t_metrics := m t\<rparr>) s1))"
      using on_timer_charges [OF 1(1) cl True eb] .
    then obtain v g m where on: "on_timer now limit s = Some (v, diag g (mod_task ?c
        (\<lambda>t. t\<lparr>t_budget := b, t_state := (if expiry = ThrottleNow then Throttled else t_state t), t_metrics := m t\<rparr>) s1))" by blast
    let ?s2 = "mod_task ?c (\<lambda>t. t\<lparr>t_budget := b, t_state := (if expiry = ThrottleNow then Throttled else t_state t), t_metrics := m t\<rparr>) s1"
    from charge_current [OF k1 True idle1 eb refl, of m]
    have cc: "served s1 ?s2" "charged now (tasks s1 ! ?c) (tasks ?s2 ! ?c)" by simp_all
    have ch: "charged now (tasks s ! ?c) (tasks ?s2 ! ?c)" using cc(2) ckc by (simp add: charged_def clock_def)
    have "if overdue now (tasks s ! j) then state_of ?s2 j = Ready
       else if state_of s j = Throttled then refilled now (tasks s ! j) (tasks ?s2 ! j)
       else if state_of s j = Running then charged now (tasks s ! j) (tasks ?s2 ! j)
       else clock (tasks ?s2 ! j) = clock (tasks s ! j)" if j: "j < TASK_SLOT_COUNT" for j
    proof (cases "j = ?c")
      case True
      then show ?thesis using ch run \<open>state_of s1 ?c = Running\<close> by (simp add: overdue_def)
    next
      case False
      then have "tasks ?s2 ! j = tasks s1 ! j" by simp
      with 1(3) j only [OF _ j] False show ?thesis by (auto dest!: spec [of _ j])
    qed
    with on served_trans [OF 1(2) cc(1)] show ?thesis by auto
  qed
qed

end
