(* ===== verification/Driver.thy ===== *)
theory Driver
  imports Runtime
begin

text \<open>
  The runtime as the radio driver sees it (\<open>impl Runtime for HisiRuntime\<close> of \<open>runtime/driver.rs\<close>)
  and the blocking calls of \<open>runtime/sync.rs\<close> with everything around their critical sections.
  A blocking call whose caller was parked returns \<open>None\<close> in place of its outcome; the outcome is
  that of \<open>semaphore_down_resumed\<close> or \<open>mutex_lock_resumed\<close> when the caller runs again.
\<close>

subsection \<open>Blocking calls\<close>

text \<open>\<open>ensure_switch_delivery().is_ok()\<close>.\<close>

definition delivery_available :: "'h rt \<Rightarrow> bool option" where
  "delivery_available g = do { r \<leftarrow> ensure_switch_delivery g; Some (r = Inr ()) }"

text \<open>After the critical section of a blocking call.\<close>

definition finish_wait ::
  "'h env \<Rightarrow> bool \<Rightarrow> ((bool option \<times> switch_intent option) res) \<Rightarrow> 'h rt
    \<Rightarrow> ((bool option) res \<times> 'h rt) option" where
  "finish_wait e rearm r g =
     (case r of
        Inl err \<Rightarrow> Some (Inl err, g)
      | Inr (immediate, intent) \<Rightarrow> do {
          g \<leftarrow> (if intent \<noteq> None \<and> rearm then rearm_timer e g else Some g);
          (case immediate of
             Some result \<Rightarrow> Some (Inr (Some result), g)
           | None \<Rightarrow> do {
               intent \<leftarrow> intent;
               (_, g) \<leftarrow> execute_switch e intent g;
               Some (Inr None, g)
             })
        })"

definition sem_down_timeout ::
  "'h env \<Rightarrow> nat \<Rightarrow> nat \<Rightarrow> 'h rt \<Rightarrow> ((bool option) res \<times> 'h rt) option" where
  "sem_down_timeout e a timeout_ms g = do {
     available \<leftarrow> delivery_available g;
     st \<leftarrow> g_start g;
     (now, g) \<leftarrow> (if timeout_ms = U32_MAX then Some (0, g) else now_ms e g);
     (r, g) \<leftarrow> on_sched (semaphore_down_timeout (ported st) available a timeout_ms now) g;
     finish_wait e (timeout_ms \<noteq> U32_MAX) r g
   }"

definition sem_up :: "'h env \<Rightarrow> nat \<Rightarrow> 'h rt \<Rightarrow> (unit res \<times> 'h rt) option" where
  "sem_up e a g = do {
     (now, g) \<leftarrow> now_ms e g;
     (request, g) \<leftarrow> on_sched (semaphore_up (g_interrupt_depth g) a now) g;
     g \<leftarrow> (if request then request_reschedule e g else Some g);
     g \<leftarrow> rearm_timer e g;
     Some (Inr (), g)
   }"

definition mtx_lock ::
  "'h env \<Rightarrow> nat \<Rightarrow> nat \<Rightarrow> 'h rt \<Rightarrow> ((bool option) res \<times> 'h rt) option" where
  "mtx_lock e a timeout_ms g = do {
     available \<leftarrow> delivery_available g;
     (now, g) \<leftarrow> now_ms e g;
     st \<leftarrow> g_start g;
     (r, g) \<leftarrow> on_sched (mutex_lock (ported st) available a timeout_ms now) g;
     finish_wait e True r g
   }"

definition mtx_unlock :: "'h env \<Rightarrow> nat \<Rightarrow> 'h rt \<Rightarrow> (unit res \<times> 'h rt) option" where
  "mtx_unlock e a g = do {
     (now, g) \<leftarrow> now_ms e g;
     (r, g) \<leftarrow> on_sched (mutex_unlock (g_interrupt_depth g) a now) g;
     (case r of
        Inl err \<Rightarrow> Some (Inl err, g)
      | Inr request \<Rightarrow> do {
          g \<leftarrow> (if request then request_reschedule e g else Some g);
          g \<leftarrow> rearm_timer e g;
          Some (Inr (), g)
        })
   }"

subsection \<open>Preallocated stacks\<close>

text \<open>
  The allocator and the release of a stack are the closures the source passes: functions on a
  state \<open>'s\<close>.
\<close>

type_synonym 's stack_alloc = "nat \<Rightarrow> 's \<Rightarrow> (nat \<times> 's) option"
type_synonym 's stack_release = "nat \<Rightarrow> 's \<Rightarrow> 's option"

definition chk_mul :: "nat \<Rightarrow> nat \<Rightarrow> nat \<Rightarrow> nat option" where
  "chk_mul mx a b = (if a * b \<le> mx then Some (a * b) else None)"

fun preallocate_loop ::
  "'s stack_alloc \<Rightarrow> 's stack_release \<Rightarrow> task_resource_requirements \<Rightarrow> nat \<Rightarrow> nat \<Rightarrow> nat list \<Rightarrow> 's
    \<Rightarrow> (('o task_admission_error + nat list) \<times> 's) option" where
  "preallocate_loop allocate_stack release_stack required 0 allocated stacks x = Some (Inr stacks, x)"
| "preallocate_loop allocate_stack release_stack required (Suc n) allocated stacks x = do {
     (stack, x) \<leftarrow> allocate_stack (stack_bytes_per_task required) x;
     (if stack = 0 then do {
        x \<leftarrow> for_each release_stack (take allocated stacks) x;
        available \<leftarrow> chk_mul USIZE_MAX allocated (stack_bytes_per_task required);
        Some (Inl (InsufficientTaskStackMemory (total_stack_bytes required) available), x)
      } else preallocate_loop allocate_stack release_stack required n (allocated + 1)
               (stacks[allocated := stack]) x)
   }"

definition preallocate_task_stacks ::
  "'s stack_alloc \<Rightarrow> 's stack_release \<Rightarrow> task_resource_requirements \<Rightarrow> 's
    \<Rightarrow> (('o task_admission_error + nat list) \<times> 's) option" where
  "preallocate_task_stacks allocate_stack release_stack required x =
     preallocate_loop allocate_stack release_stack required
       (min DYNAMIC_TASK_CAPACITY (task_slots required)) 0 (replicate DYNAMIC_TASK_CAPACITY 0) x"

record preallocated_plan =
  pp_stacks :: "nat list list"
  pp_counts :: "nat list"

text \<open>\<open>groups\<close> is \<open>TASK_RESOURCE_GROUP_CAPACITY\<close> of the contract crate.\<close>

definition preallocated_empty :: "nat \<Rightarrow> preallocated_plan" where
  "preallocated_empty groups = \<lparr>pp_stacks = replicate groups (replicate DYNAMIC_TASK_CAPACITY 0),
     pp_counts = replicate groups 0\<rparr>"

definition release_group :: "'s stack_release \<Rightarrow> nat \<Rightarrow> preallocated_plan \<times> 's \<Rightarrow> (preallocated_plan \<times> 's) option" where
  "release_group release_stack k px = do {
     let (p, x) = px;
     stacks \<leftarrow> arr_at (pp_stacks p) k;
     count \<leftarrow> arr_at (pp_counts p) k;
     assert_that (count \<le> length stacks);
     x \<leftarrow> for_each release_stack (filter (\<lambda>stack. stack \<noteq> 0) (take count stacks)) x;
     Some (p\<lparr>pp_stacks := (pp_stacks p)[k := replicate count 0 @ drop count stacks],
             pp_counts := (pp_counts p)[k := 0]\<rparr>, x)
   }"

definition plan_release_all ::
  "'s stack_release \<Rightarrow> nat \<Rightarrow> preallocated_plan \<Rightarrow> 's \<Rightarrow> (preallocated_plan \<times> 's) option" where
  "plan_release_all release_stack groups p x = for_each (release_group release_stack) [0..<groups] (p, x)"

text \<open>The slots of one group: \<open>n\<close> remain, \<open>slot\<close> are done.\<close>

fun preallocate_group ::
  "'s stack_alloc \<Rightarrow> task_resource_requirements \<Rightarrow> nat \<Rightarrow> nat \<Rightarrow> nat \<Rightarrow> preallocated_plan \<Rightarrow> 's
    \<Rightarrow> (nat option \<times> preallocated_plan \<times> 's) option" where
  "preallocate_group allocate_stack required k 0 slot p x = Some (None, p, x)"
| "preallocate_group allocate_stack required k (Suc n) slot p x = do {
     (stack, x) \<leftarrow> allocate_stack (stack_bytes_per_task required) x;
     (if stack = 0 then do {
        available \<leftarrow> chk_mul USIZE_MAX slot (stack_bytes_per_task required);
        Some (Some available, p, x)
      } else do {
        stacks \<leftarrow> arr_at (pp_stacks p) k;
        assert_that (slot < length stacks);
        count \<leftarrow> arr_at (pp_counts p) k;
        count \<leftarrow> chk_add USIZE_MAX count 1;
        preallocate_group allocate_stack required k n (slot + 1)
          (p\<lparr>pp_stacks := (pp_stacks p)[k := stacks[slot := stack]],
             pp_counts := (pp_counts p)[k := count]\<rparr>) x
      })
   }"

fun preallocate_groups ::
  "'s stack_alloc \<Rightarrow> 's stack_release \<Rightarrow> ('s \<Rightarrow> nat option) \<Rightarrow> nat \<Rightarrow> 'o task_resource_group list \<Rightarrow> nat
    \<Rightarrow> preallocated_plan \<Rightarrow> 's \<Rightarrow> (('o task_admission_error + preallocated_plan) \<times> 's) option" where
  "preallocate_groups allocate_stack release_stack largest groups [] k p x = Some (Inr p, x)"
| "preallocate_groups allocate_stack release_stack largest groups (grp # rest) k p x = do {
     let required = group_resources grp;
     (failed, p, x) \<leftarrow> preallocate_group allocate_stack required k (task_slots required) 0 p x;
     (case failed of
        None \<Rightarrow> preallocate_groups allocate_stack release_stack largest groups rest (k + 1) p x
      | Some available \<Rightarrow> do {
          largest_contiguous \<leftarrow> largest x;
          (_, x) \<leftarrow> plan_release_all release_stack groups p x;
          Some (Inl (InsufficientTaskGroupStackMemory (group_owner grp) (total_stack_bytes required)
                       available largest_contiguous), x)
        })
   }"

definition preallocate_task_resource_plan ::
  "'s stack_alloc \<Rightarrow> 's stack_release \<Rightarrow> ('s \<Rightarrow> nat option) \<Rightarrow> nat \<Rightarrow> 'o task_resource_group list \<Rightarrow> 's
    \<Rightarrow> (('o task_admission_error + preallocated_plan) \<times> 's) option" where
  "preallocate_task_resource_plan allocate_stack release_stack largest groups plan x =
     preallocate_groups allocate_stack release_stack largest groups plan 0 (preallocated_empty groups) x"

subsection \<open>Policies and predicates\<close>

definition semaphore_state_has_waiters :: "sem_state \<Rightarrow> bool" where
  "semaphore_state_has_waiters st \<longleftrightarrow> sm_wait_head st \<noteq> NIL \<or> sm_wait_tail st \<noteq> NIL"

definition mutex_state_is_busy :: "mutex_state \<Rightarrow> bool" where
  "mutex_state_is_busy st \<longleftrightarrow> mx_owner st \<noteq> NIL \<or> mx_wait_head st \<noteq> NIL \<or> mx_wait_tail st \<noteq> NIL"

text \<open>\<open>TaskExecutionPolicy\<close> of the contract crate, as the match of the source reads it.\<close>

datatype task_execution_policy =
    CooperativeTask
  | BudgetedTask (capacity_ms: nat) (replenishment_period_ms: nat)
  | PreemptiveTask (time_slice_ms: nat)

definition map_execution_policy :: "task_execution_policy \<Rightarrow> bool \<Rightarrow> run_policy res" where
  "map_execution_policy policy is_ported =
     (case policy of
        CooperativeTask \<Rightarrow> Inr Cooperative
      | BudgetedTask cap period \<Rightarrow>
          if \<not> is_ported then Inl IncompatibleExecutionProfile
          else (case try_new cap period of
                  Some sp \<Rightarrow> Inr (Budgeted sp)
                | None \<Rightarrow> Inl IncompatibleContract)
      | PreemptiveTask ts \<Rightarrow>
          if \<not> is_ported then Inl IncompatibleExecutionProfile else Inr (Preemptive ts))"

subsection \<open>Admission through the contract\<close>

definition task_capacity ::
  "(nat \<Rightarrow> nat \<Rightarrow> nat \<Rightarrow> 'c option) \<Rightarrow> 'h rt \<Rightarrow> ('c res) option" where
  "task_capacity new_with_reserved g = do {
     d \<leftarrow> runtime_diagnostics g;
     Some (case new_with_reserved (d_dynamic_capacity d) (d_dynamic_used d) (d_dynamic_reserved d) of
             Some c \<Rightarrow> Inr c | None \<Rightarrow> Inl RuntimeError)
   }"

definition reserve_tasks ::
  "nat \<Rightarrow> 'h rt \<Rightarrow> (('o task_admission_error + 32 word) \<times> 'h rt) option" where
  "reserve_tasks required g = do {
     limit \<leftarrow> dynamic_capacity g;
     on_sched (reserve_dynamic_slots_with_capacity required limit) g
   }"

definition reserve_task_resources ::
  "'h env \<Rightarrow> task_resource_requirements \<Rightarrow> 'h rt
    \<Rightarrow> (('o task_admission_error + 32 word) \<times> 'h rt) option" where
  "reserve_task_resources e required g = do {
     (r, g) \<leftarrow> preallocate_task_stacks (allocate e) (deallocate e) required g;
     (case r of
        Inl err \<Rightarrow> Some (Inl err, g)
      | Inr stacks \<Rightarrow> do {
          let allocated = min (task_slots required) DYNAMIC_TASK_CAPACITY;
          limit \<leftarrow> dynamic_capacity g;
          (result, g) \<leftarrow> on_sched (reserve_dynamic_task_resources_with_capacity required stacks limit) g;
          g \<leftarrow> (case result of
                  Inl _ \<Rightarrow> for_each (deallocate e) (take allocated stacks) g
                | Inr _ \<Rightarrow> Some g);
          Some (result, g)
        })
   }"

definition reserve_task_resource_plan ::
  "'h env \<Rightarrow> nat \<Rightarrow> 'o task_resource_group list \<Rightarrow> 'h rt
    \<Rightarrow> (('o task_admission_error + 32 word list) \<times> 'h rt) option" where
  "reserve_task_resource_plan e groups plan g = do {
     (r, g) \<leftarrow> preallocate_task_resource_plan (allocate e) (deallocate e) (largest_allocatable_stack e)
                groups plan g;
     (case r of
        Inl err \<Rightarrow> Some (Inl err, g)
      | Inr preallocated \<Rightarrow> do {
          limit \<leftarrow> dynamic_capacity g;
          (result, g) \<leftarrow> on_sched (reserve_dynamic_task_resource_plan_with_capacity plan
                                   (pp_stacks preallocated) limit) g;
          g \<leftarrow> (case result of
                  Inl _ \<Rightarrow> do { (_, g) \<leftarrow> plan_release_all (deallocate e) groups preallocated g; Some g }
                | Inr _ \<Rightarrow> Some g);
          Some (result, g)
        })
   }"

definition release_task_reservation ::
  "'h env \<Rightarrow> 32 word \<Rightarrow> 'h rt \<Rightarrow> (unit res \<times> 'h rt) option" where
  "release_task_reservation e reservation g = do {
     (r, g) \<leftarrow> on_sched (sched_release_task_reservation reservation) g;
     (case r of
        Inl err \<Rightarrow> Some (Inl err, g)
      | Inr released \<Rightarrow> do {
          assert_that (released_count released \<le> length (released_stacks released));
          g \<leftarrow> for_each (deallocate e) (take (released_count released) (released_stacks released)) g;
          Some (Inr (), g)
        })
   }"

text \<open>The four spawning operations differ in the policy and in the reservation.\<close>

definition spawn_identified ::
  "'h env \<Rightarrow> nat \<Rightarrow> nat \<Rightarrow> nat \<Rightarrow> nat \<Rightarrow> run_policy \<Rightarrow> 32 word option \<Rightarrow> 'h rt
    \<Rightarrow> ((32 word) res \<times> 'h rt) option" where
  "spawn_identified e entry arg stack_size priority policy reservation g = do {
     (slot, g) \<leftarrow> spawn e entry arg stack_size priority policy reservation g;
     (case slot of
        Inl err \<Rightarrow> Some (Inl err, g)
      | Inr i \<Rightarrow> do {
          t \<leftarrow> task_at i (g_sched g);
          Some (encode_task_id i (t_identity_generation t), g)
        })
   }"

text \<open>A task with the configured policy, and one with the policy of the caller.\<close>

definition spawn_default ::
  "'h env \<Rightarrow> 32 word option \<Rightarrow> nat \<Rightarrow> nat \<Rightarrow> nat \<Rightarrow> nat \<Rightarrow> 'h rt \<Rightarrow> ((32 word) res \<times> 'h rt) option" where
  "spawn_default e reservation entry arg stack_size priority g = do {
     st \<leftarrow> g_start g;
     spawn_identified e entry arg stack_size priority (sc_radio_task_policy (ss_config st)) reservation g
   }"

definition spawn_with_policy ::
  "'h env \<Rightarrow> 32 word option \<Rightarrow> nat \<Rightarrow> nat \<Rightarrow> nat \<Rightarrow> nat \<Rightarrow> task_execution_policy \<Rightarrow> 'h rt
    \<Rightarrow> ((32 word) res \<times> 'h rt) option" where
  "spawn_with_policy e reservation entry arg stack_size priority policy g = do {
     st \<leftarrow> g_start g;
     (case map_execution_policy policy (ported st) of
        Inl err \<Rightarrow> Some (Inl err, g)
      | Inr run \<Rightarrow> spawn_identified e entry arg stack_size priority run reservation g)
   }"

definition driver_spawn ::
  "'h env \<Rightarrow> nat \<Rightarrow> nat \<Rightarrow> nat \<Rightarrow> nat \<Rightarrow> 'h rt \<Rightarrow> ((32 word) res \<times> 'h rt) option" where
  "driver_spawn e entry arg stack_size priority g = spawn_default e None entry arg stack_size priority g"

definition driver_spawn_scheduled ::
  "'h env \<Rightarrow> nat \<Rightarrow> nat \<Rightarrow> nat \<Rightarrow> nat \<Rightarrow> task_execution_policy \<Rightarrow> 'h rt
    \<Rightarrow> ((32 word) res \<times> 'h rt) option" where
  "driver_spawn_scheduled e entry arg stack_size priority policy g =
     spawn_with_policy e None entry arg stack_size priority policy g"

definition driver_spawn_reserved ::
  "'h env \<Rightarrow> 32 word \<Rightarrow> nat \<Rightarrow> nat \<Rightarrow> nat \<Rightarrow> nat \<Rightarrow> 'h rt \<Rightarrow> ((32 word) res \<times> 'h rt) option" where
  "driver_spawn_reserved e reservation entry arg stack_size priority g =
     spawn_default e (Some reservation) entry arg stack_size priority g"

definition driver_spawn_reserved_scheduled ::
  "'h env \<Rightarrow> 32 word \<Rightarrow> nat \<Rightarrow> nat \<Rightarrow> nat \<Rightarrow> nat \<Rightarrow> task_execution_policy \<Rightarrow> 'h rt
    \<Rightarrow> ((32 word) res \<times> 'h rt) option" where
  "driver_spawn_reserved_scheduled e reservation entry arg stack_size priority policy g =
     spawn_with_policy e (Some reservation) entry arg stack_size priority policy g"

subsection \<open>Task operations\<close>

definition live_task :: "nat \<Rightarrow> 16 word \<Rightarrow> sched \<Rightarrow> bool" where
  "live_task slot generation s =
     (case task_at slot s of
        None \<Rightarrow> False
      | Some t \<Rightarrow> t_state t \<noteq> Free \<and> t_identity_generation t = generation)"

definition set_task_priority :: "32 word \<Rightarrow> nat \<Rightarrow> 'h rt \<Rightarrow> (unit res \<times> 'h rt) option" where
  "set_task_priority task priority g =
     (case decode_task_id task of
        Inl err \<Rightarrow> Some (Inl err, g)
      | Inr (slot, generation) \<Rightarrow>
          if \<not> live_task slot generation (g_sched g) then Some (Inl InvalidHandle, g)
          else do {
            s \<leftarrow> upd_task slot (\<lambda>t. t\<lparr>t_base_priority := priority\<rparr>) (g_sched g);
            s \<leftarrow> refresh_inherited_priority slot 0 s;
            Some (Inr (), g\<lparr>g_sched := s\<rparr>)
          })"

definition cancel_wait ::
  "'h env \<Rightarrow> 32 word \<Rightarrow> 'h rt \<Rightarrow> (wait_cancellation_outcome res \<times> 'h rt) option" where
  "cancel_wait e task g =
     (case decode_task_id task of
        Inl err \<Rightarrow> Some (Inl err, g)
      | Inr (slot, generation) \<Rightarrow> do {
          (now, g) \<leftarrow> now_ms e g;
          (if g_interrupt_depth g \<noteq> 0 then Some (Inl InvalidContext, g)
           else if \<not> live_task slot generation (g_sched g) then Some (Inl InvalidHandle, g)
           else do {
             (outcome, g) \<leftarrow> on_sched (cancel_wait_locked slot now) g;
             g \<leftarrow> (if outcome = Cancelled then request_reschedule e g else Some g);
             g \<leftarrow> rearm_timer e g;
             Some (Inr outcome, g)
           })
        })"

definition lock_scheduler :: "'h env \<Rightarrow> 'h rt \<Rightarrow> (unit res \<times> 'h rt) option" where
  "lock_scheduler e g = do {
     delivery \<leftarrow> ensure_switch_delivery g;
     (case delivery of
        Inl err \<Rightarrow> Some (Inl err, g)
      | Inr _ \<Rightarrow> do {
          (now, g) \<leftarrow> now_ms e g;
          (result, g) \<leftarrow> on_sched (lock_current now) g;
          g \<leftarrow> (case result of Inr _ \<Rightarrow> rearm_timer e g | Inl _ \<Rightarrow> Some g);
          Some (result, g)
        })
   }"

definition unlock_preempt ::
  "bool \<Rightarrow> nat \<Rightarrow> sched \<Rightarrow> (switch_intent option res \<times> sched) option" where
  "unlock_preempt is_ported now s = do {
     (r, s) \<leftarrow> unlock_current_and_take_preemption now s;
     (case r of
        Inl err \<Rightarrow> Some (Inl err, s)
      | Inr None \<Rightarrow> Some (Inr None, s)
      | Inr (Some (cur, nxt)) \<Rightarrow> do {
          (intent, s) \<leftarrow> prepare_switch is_ported cur nxt s;
          Some (Inr (Some intent), s)
        })
   }"

text \<open>The result says whether the caller still runs.\<close>

definition unlock_scheduler :: "'h env \<Rightarrow> 'h rt \<Rightarrow> (bool res \<times> 'h rt) option" where
  "unlock_scheduler e g = do {
     delivery \<leftarrow> ensure_switch_delivery g;
     (case delivery of
        Inl err \<Rightarrow> Some (Inl err, g)
      | Inr _ \<Rightarrow> do {
          (now, g) \<leftarrow> now_ms e g;
          st \<leftarrow> g_start g;
          (r, g) \<leftarrow> on_sched (unlock_preempt (ported st) now) g;
          (case r of
             Inl err \<Rightarrow> Some (Inl err, g)
           | Inr intent \<Rightarrow> do {
               (running, g) \<leftarrow> (case intent of
                                  Some intent \<Rightarrow> execute_switch e intent g
                                | None \<Rightarrow> Some (True, g));
               g \<leftarrow> (if running then rearm_timer e g else Some g);
               Some (Inr running, g)
             })
        })
   }"

subsection \<open>Semaphores and mutexes through handles\<close>

definition SEMAPHORE_SIZE :: nat where "SEMAPHORE_SIZE = 12"
definition MUTEX_SIZE :: nat where "MUTEX_SIZE = 16"

definition resource_pointer :: "32 word \<Rightarrow> resource_kind \<Rightarrow> 'h rt \<Rightarrow> nat res" where
  "resource_pointer handle kind g = resource_resolve handle kind (g_handles g)"

text \<open>Allocation of an object, its initialisation and its handle.\<close>

definition create_object ::
  "'h env \<Rightarrow> nat \<Rightarrow> resource_kind \<Rightarrow> (nat \<Rightarrow> sched \<Rightarrow> sched) \<Rightarrow> (nat \<Rightarrow> sched \<Rightarrow> sched) \<Rightarrow> 'h rt
    \<Rightarrow> ((32 word) res \<times> 'h rt) option" where
  "create_object e bytes kind write free g = do {
     (pointer, g) \<leftarrow> allocate e bytes g;
     (if pointer = 0 then Some (Inl ResourceExhausted, g)
      else do {
        let g = g\<lparr>g_sched := write pointer (g_sched g)\<rparr>;
        let (handle, table) = resource_insert pointer kind (g_handles g);
        let g = g\<lparr>g_handles := table\<rparr>;
        (case handle of
           Inr h \<Rightarrow> Some (Inr h, g)
         | Inl err \<Rightarrow> do {
             g \<leftarrow> deallocate e pointer g;
             Some (Inl err, g\<lparr>g_sched := free pointer (g_sched g)\<rparr>)
           })
      })
   }"

definition write_sem :: "int \<Rightarrow> nat \<Rightarrow> sched \<Rightarrow> sched" where
  "write_sem n a s = s\<lparr>sem_mem := (sem_mem s)(a \<mapsto> semaphore_new n)\<rparr>"

definition write_mutex :: "nat \<Rightarrow> sched \<Rightarrow> sched" where
  "write_mutex a s = s\<lparr>mutex_mem := (mutex_mem s)(a \<mapsto> mutex_new)\<rparr>"

text \<open>The memory of a deallocated object can no longer be read.\<close>

definition free_sem :: "nat \<Rightarrow> sched \<Rightarrow> sched" where
  "free_sem a s = s\<lparr>sem_mem := (sem_mem s)(a := None)\<rparr>"

definition free_mutex :: "nat \<Rightarrow> sched \<Rightarrow> sched" where
  "free_mutex a s = s\<lparr>mutex_mem := (mutex_mem s)(a := None)\<rparr>"

definition semaphore_create :: "'h env \<Rightarrow> nat \<Rightarrow> 'h rt \<Rightarrow> ((32 word) res \<times> 'h rt) option" where
  "semaphore_create e initial g =
     (if int initial > I32_MAX then Some (Inl RuntimeError, g)
      else create_object e SEMAPHORE_SIZE KSemaphore (write_sem (int initial)) free_sem g)"

definition mutex_create :: "'h env \<Rightarrow> 'h rt \<Rightarrow> ((32 word) res \<times> 'h rt) option" where
  "mutex_create e g = create_object e MUTEX_SIZE KMutex write_mutex free_mutex g"

datatype wait_timeout = NoWait | Milliseconds nat | Forever

fun timeout_ms_of :: "wait_timeout \<Rightarrow> nat" where
  "timeout_ms_of NoWait = 0"
| "timeout_ms_of (Milliseconds value) = value"
| "timeout_ms_of Forever = U32_MAX"

datatype wait_outcome = Acquired | TimedOut

definition wait_outcome_of :: "bool \<Rightarrow> wait_outcome" where
  "wait_outcome_of granted = (if granted then Acquired else TimedOut)"

definition map_wait :: "(bool option) res \<Rightarrow> (wait_outcome option) res" where
  "map_wait r = (case r of Inl err \<Rightarrow> Inl err | Inr b \<Rightarrow> Inr (map_option wait_outcome_of b))"

definition driver_semaphore_down ::
  "'h env \<Rightarrow> 32 word \<Rightarrow> wait_timeout \<Rightarrow> 'h rt \<Rightarrow> ((wait_outcome option) res \<times> 'h rt) option" where
  "driver_semaphore_down e semaphore timeout g =
     (case resource_pointer semaphore KSemaphore g of
        Inl err \<Rightarrow> Some (Inl err, g)
      | Inr a \<Rightarrow> do {
          (r, g) \<leftarrow> sem_down_timeout e a (timeout_ms_of timeout) g;
          Some (map_wait r, g)
        })"

definition driver_semaphore_up :: "'h env \<Rightarrow> 32 word \<Rightarrow> 'h rt \<Rightarrow> (unit res \<times> 'h rt) option" where
  "driver_semaphore_up e semaphore g =
     (case resource_pointer semaphore KSemaphore g of
        Inl err \<Rightarrow> Some (Inl err, g)
      | Inr a \<Rightarrow> sem_up e a g)"

definition driver_mutex_lock ::
  "'h env \<Rightarrow> 32 word \<Rightarrow> wait_timeout \<Rightarrow> 'h rt \<Rightarrow> ((wait_outcome option) res \<times> 'h rt) option" where
  "driver_mutex_lock e mutex timeout g =
     (case resource_pointer mutex KMutex g of
        Inl err \<Rightarrow> Some (Inl err, g)
      | Inr a \<Rightarrow> do {
          (r, g) \<leftarrow> mtx_lock e a (timeout_ms_of timeout) g;
          Some (map_wait r, g)
        })"

definition driver_mutex_unlock :: "'h env \<Rightarrow> 32 word \<Rightarrow> 'h rt \<Rightarrow> (unit res \<times> 'h rt) option" where
  "driver_mutex_unlock e mutex g =
     (case resource_pointer mutex KMutex g of
        Inl err \<Rightarrow> Some (Inl err, g)
      | Inr a \<Rightarrow> mtx_unlock e a g)"

definition destroy_object ::
  "'h env \<Rightarrow> 32 word \<Rightarrow> resource_kind \<Rightarrow> (nat \<Rightarrow> sched \<Rightarrow> bool option) \<Rightarrow> (nat \<Rightarrow> sched \<Rightarrow> sched) \<Rightarrow> 'h rt
    \<Rightarrow> (unit res \<times> 'h rt) option" where
  "destroy_object e handle kind busy free g =
     (case resource_pointer handle kind g of
        Inl err \<Rightarrow> Some (Inl err, g)
      | Inr a \<Rightarrow> do {
          in_use \<leftarrow> busy a (g_sched g);
          (if in_use then Some (Inl InvalidContext, g)
           else do {
             let (r, table) = resource_remove handle kind (g_handles g);
             let g = g\<lparr>g_handles := table\<rparr>;
             (case r of
                Inl err \<Rightarrow> Some (Inl err, g)
              | Inr pointer \<Rightarrow> do {
                  g \<leftarrow> deallocate e pointer g;
                  Some (Inr (), g\<lparr>g_sched := free pointer (g_sched g)\<rparr>)
                })
           })
        })"

definition semaphore_busy :: "nat \<Rightarrow> sched \<Rightarrow> bool option" where
  "semaphore_busy a s = do {
     st \<leftarrow> sem_mem s a;
     Some (semaphore_state_has_waiters st \<or> (\<exists>t \<in> set (tasks s). t_granted_sem t = a))
   }"

definition mutex_busy :: "nat \<Rightarrow> sched \<Rightarrow> bool option" where
  "mutex_busy a s = do { st \<leftarrow> mutex_mem s a; Some (mutex_state_is_busy st) }"

definition semaphore_destroy :: "'h env \<Rightarrow> 32 word \<Rightarrow> 'h rt \<Rightarrow> (unit res \<times> 'h rt) option" where
  "semaphore_destroy e semaphore g = destroy_object e semaphore KSemaphore semaphore_busy free_sem g"

definition mutex_destroy :: "'h env \<Rightarrow> 32 word \<Rightarrow> 'h rt \<Rightarrow> (unit res \<times> 'h rt) option" where
  "mutex_destroy e mutex g = destroy_object e mutex KMutex mutex_busy free_mutex g"

end
