(* ===== verification/Lifecycle.thy ===== *)
theory Lifecycle
  imports Expiry Driver
begin

text \<open>
  The life of the kernel's parts: starting the runtime, creating semaphores and mutexes, spawning a
  task into a free slot and exiting, the scheduler lock, and giving up the processor voluntarily.
  Each establishes or keeps the invariant of the kernel.
\<close>

subsection \<open>Starting\<close>

text \<open>A task nobody waits for and that waits for nothing.\<close>

definition unused :: "tcb \<Rightarrow> bool" where
  "unused t \<longleftrightarrow> t_waiting_sem t = 0 \<and> t_waiting_mutex t = 0 \<and> \<not> t_sem_granted t \<and> t_granted_sem t = 0
     \<and> t_granted_mutex t = 0 \<and> t_inherited_waiters t = replicate PRIORITY_LEVELS 0 \<and> t_priority t = t_base_priority t"

lemma unused_wanted: "unused t \<Longrightarrow> wanted_priority t = t_base_priority t"
proof -
  assume u: "unused t"
  then have "position (\<lambda>count. count \<noteq> 0) (t_inherited_waiters t) = None" by (simp add: unused_def find_index_from_None)
  then show ?thesis by (simp add: wanted_priority_def inherited_priority_def)
qed

lemma kernel_quiet:
  assumes inv: "trap_inv s Q" and st: "started s" "state_of s IDLE_SLOT = Ready" "pending_switch s = None"
    "last_consumed_switch_sequence s \<le> next_switch_sequence s"
    and mem: "sem_mem s = Map.empty" "mutex_mem s = Map.empty"
    and un: "\<And>i. i < TASK_SLOT_COUNT \<Longrightarrow> unused (tasks s ! i)"
  shows "kernel_inv s Q (\<lambda>_. []) (\<lambda>_. [])"
proof -
  have own: "owned_but {} s Q" using inv by (simp add: trap_inv_def)
  note d = owned_butD [OF own]
  have w: "waits_rep {} {} s (\<lambda>_. []) (\<lambda>_. [])"
    using un by (auto simp: waits_rep_def fam_rep_def sem_view_def mutex_view_def mem members_def unused_def)
  have wf: "waits_for s i = None" for i by (simp add: waits_for_def mem)
  have "donations_but {} s" using un by (simp add: donations_but_def donors_def wf unused_def)
  moreover have "owners_ok s" "objects_ok s (\<lambda>_. []) (\<lambda>_. [])" by (simp_all add: owners_ok_def objects_ok_def mem)
  moreover have "acyclic (wait_edges s)" by (simp add: wait_edges_def wf acyclic_def)
  moreover have "bases_ok s" using un shape_okD(7) [OF d(1)] by (simp add: bases_ok_def unused_def)
  moreover have "settled_but {} s" using un unused_wanted d(8) by (simp add: settled_but_def settled_def unused_def)
  moreover have "grant_ok s i" if "i < TASK_SLOT_COUNT" for i using un [OF that] by (simp add: grant_ok_def Let_def unused_def)
  ultimately have "sync_inv s Q (\<lambda>_. []) (\<lambda>_. [])" using own w by (simp add: sync_inv_def prop_inv_def)
  then show ?thesis using inv st by (simp add: kernel_inv_def)
qed

lemma boot_spec:
  assumes now: "now \<le> U64_MAX" and f: "frame \<noteq> 0"
  shows "\<exists>s1 s. init_main now (sched_new n) = Some s1 \<and> init_idle ctx (Some frame) entry now s1 = Some s
    \<and> kernel_inv s (\<lambda>_. []) (\<lambda>_. []) (\<lambda>_. []) \<and> current s = 0 \<and> state_of s 0 = Running
    \<and> spec (t_budget (tasks s ! IDLE_SLOT)) = None
    \<and> next_switch_sequence s = 0 \<and> sem_mem s = Map.empty \<and> mutex_mem s = Map.empty
    \<and> t_scheduler_lock_depth (tasks s ! 0) = 0
    \<and> (\<forall>i. 1 < i \<and> i < TASK_SLOT_COUNT \<longrightarrow> tasks s ! i = tcb_empty)"
proof -
  have "budget_inv (for_policy Cooperative now)" by (rule for_policy_inv) simp
  from budget_on_dispatch_inv [OF this now] obtain b where b: "budget_on_dispatch now (for_policy Cooperative now) = Some b" "budget_inv b" .
  let ?m = "\<lambda>t. t\<lparr>t_state := Running, t_identity_generation := 1, t_run_policy := Cooperative,
                           t_budget := b, t_metrics := metrics_on_dispatch now (t_metrics t)\<rparr>"
  let ?i = "\<lambda>t. t\<lparr>t_ctx := ctx, t_saved_frame := frame, t_state := Ready, t_stack := 0, t_stack_size := 0, t_entry := Some entry, t_arg := 0,
      t_base_priority := PRIORITY_LEVELS - 1, t_priority := PRIORITY_LEVELS - 1, t_identity_generation := 1,
      t_run_policy := Cooperative, t_budget := budget_none, t_metrics := metrics_on_ready now (t_metrics t)\<rparr>"
  define s1 where "s1 = (mod_task 0 ?m (sched_new n))\<lparr>slot_generations := (replicate TASK_SLOT_COUNT 0)[0 := 1], current := 0\<rparr>"
  define s where "s = (mod_task IDLE_SLOT ?i s1)\<lparr>slot_generations := ((replicate TASK_SLOT_COUNT 0)[0 := 1])[IDLE_SLOT := 1], started := True\<rparr>"
  have sl: "IDLE_SLOT = 1" "TASK_SLOT_COUNT = 17" by (simp_all add: IDLE_SLOT_def TASK_SLOT_COUNT_eq)
  have len: "length (tasks (sched_new n)) = 17" "slot_generations (sched_new n) = replicate TASK_SLOT_COUNT 0"
      "i < 17 \<Longrightarrow> tasks (sched_new n) ! i = tcb_empty" for i by (simp_all add: sched_new_def sl)
  have l1: "length (tasks s1) = 17" "slot_generations s1 = (replicate TASK_SLOT_COUNT 0)[0 := 1]" using len by (simp_all add: s1_def)
  have t: "tasks s ! 0 = ?m tcb_empty" "tasks s ! 1 = ?i tcb_empty" "i < 17 \<Longrightarrow> 1 < i \<Longrightarrow> tasks s ! i = tcb_empty" for i
    using len by (simp_all add: s_def s1_def sl mod_task_at)
  have run1: "init_main now (sched_new n) = Some s1" using b len by (simp add: init_main_def s1_def sl)
  have run2: "init_idle ctx (Some frame) entry now s1 = Some s" using l1 by (simp add: init_idle_def s_def sl)
  have sel: "current s = 0" "pending_switch s = None" "started s" "length (tasks s) = 17" "sem_mem s = Map.empty" "mutex_mem s = Map.empty"
    "next_switch_sequence s = 0" "last_consumed_switch_sequence s = 0" "length (slot_generations s) = 17"
    "length (retired_stacks s) = 17" "ready_head s = replicate PRIORITY_LEVELS NIL" "ready_tail s = replicate PRIORITY_LEVELS NIL"
    using len by (simp_all add: s_def s1_def sched_new_def sl)
  have each: "i = 0 \<or> i = 1 \<or> 1 < i" for i :: nat by arith
  have un: "unused (tasks s ! i)" if "i < 17" for i using each [of i] t that by (auto simp: unused_def tcb_empty_def)
  have st: "state_of s i = (if i = 0 then Running else if i = 1 then Ready else Free)" if "i < 17" for i
    using each [of i] t that by (auto simp: tcb_empty_def)
  have pr: "t_priority (tasks s ! i) < PRIORITY_LEVELS \<and> budget_inv (t_budget (tasks s ! i))" if "i < 17" for i
    using each [of i] t that by (auto simp: tcb_empty_def b PRIORITY_LEVELS_def)
  have sh: "shape_ok s" using pr sel by (simp add: shape_ok_def sl)
  have rep: "ready_rep s (\<lambda>_. [])" using sel by (simp add: ready_rep_def bucket_ok_def)
  have "owned_but {} s (\<lambda>_. [])"
    by (rule owned_butI [OF sh rep]) (use st sel in \<open>auto simp: queued_def sl split: if_splits\<close>)
  moreover have "frames_ok s" using st t(2) f sel(1) by (auto simp: frames_ok_def sl split: if_splits)
  ultimately have "trap_inv s (\<lambda>_. [])" using pr sel(2) by (simp add: trap_inv_def budgets_ok_def ticket_ok_def sl)
  then have "kernel_inv s (\<lambda>_. []) (\<lambda>_. []) (\<lambda>_. [])"
    by (rule kernel_quiet) (use sel st un in \<open>simp_all add: sl\<close>)
  then show ?thesis using run1 run2 sel st t by (intro exI [of _ s1] exI [of _ s]) (simp add: sl tcb_empty_def)
qed

subsection \<open>New objects\<close>

lemma fam_new:
  assumes "fam_rep X Y s E w S" "E a = None" "a \<noteq> 0"
  shows "fam_rep X Y s (E(a \<mapsto> (NIL, NIL))) w S"
proof -
  have "S a = []" using fam_repD(1) [OF assms(1)] assms(2) by blast
  then show ?thesis using assms unfolding fam_rep_def by (auto simp: wait_rep_def)
qed

lemma kernel_new_sem:
  assumes inv: "kernel_inv s Q S M" and a: "a \<noteq> 0" "sem_mem s a = None" and n: "0 \<le> n" "n \<le> I32_MAX"
  shows "kernel_inv (write_sem n a s) Q S M" "permits (write_sem n a s) b = permits s b + (if b = a then n else 0)"
proof -
  let ?s = "write_sem n a s"
  note k = kernel_invD [OF inv] and d = sync_invD [OF kernel_invD(1) [OF inv]]
  have t [simp]: "tasks ?s = tasks s" "mutex_mem ?s = mutex_mem s" "current ?s = current s" "pending_switch ?s = pending_switch s"
    "sem_mem ?s = (sem_mem s)(a \<mapsto> semaphore_new n)" by (simp_all add: write_sem_def)
  have v: "sem_view ?s = (sem_view s)(a \<mapsto> (NIL, NIL))" "mutex_view ?s = mutex_view s"
    by (simp_all add: sem_view_def mutex_view_def fun_eq_iff semaphore_new_def sem_ends_def)
  have "sem_view s a = None" using a(2) by (simp add: sem_view_def)
  from fam_new [OF waits_repD(1) [OF d(2)] this a(1)] waits_repD(2,3) [OF d(2)]
  have w: "waits_rep {} {} ?s S M" unfolding waits_rep_def v by (simp add: fam_rep_tasks [OF t(1)])
  have own: "owned_but {} ?s Q" by (rule owned_but_view [OF k(8)]) (simp add: same_view_def write_sem_def)
  have ps: "prio_same s ?s" by (simp add: prio_same_def)
  have "prop_inv {} {} ?s Q S M" using prop_inv_same [OF sync_inv_prop [OF k(1)] ps own w] .
  moreover have "settled_but {} ?s" using prio_same_inv(5) [OF ps d(7)] d(8) by blast
  moreover have "objects_ok ?s S M"
    using d(9) n fam_repD(1) [OF waits_repD(1) [OF d(2)] \<open>sem_view s a = None\<close>] by (auto simp: objects_ok_def semaphore_new_def)
  moreover have "grant_ok ?s i" if "i < TASK_SLOT_COUNT" for i
    by (rule grant_ok_frame [OF d(10) [OF that]]) auto
  ultimately have "sync_inv ?s Q S M" by (simp add: sync_inv_def)
  then show "kernel_inv ?s Q S M"
    by (rule kernel_transfer [OF inv]) (use k(4) in \<open>auto simp: steady_def trap_kept_def write_sem_def\<close>)
  have "t_granted_sem (tasks s ! i) \<noteq> a" if "i < TASK_SLOT_COUNT" for i
    using d(10) [OF that] a by (auto simp: grant_ok_def Let_def)
  then have "grants s a = {}" by (auto simp: grants_def)
  then show "permits ?s b = permits s b + (if b = a then n else 0)"
    using a by (simp add: permits_def grants_def semaphore_new_def)
qed

lemma kernel_new_mutex:
  assumes inv: "kernel_inv s Q S M" and a: "a \<noteq> 0" "mutex_mem s a = None"
  shows "kernel_inv (write_mutex a s) Q S M" "permits (write_mutex a s) b = permits s b"
proof -
  let ?s = "write_mutex a s"
  note k = kernel_invD [OF inv] and d = sync_invD [OF kernel_invD(1) [OF inv]]
  have t [simp]: "tasks ?s = tasks s" "sem_mem ?s = sem_mem s" "current ?s = current s" "pending_switch ?s = pending_switch s"
    "mutex_mem ?s = (mutex_mem s)(a \<mapsto> mutex_new)" by (simp_all add: write_mutex_def)
  have v: "mutex_view ?s = (mutex_view s)(a \<mapsto> (NIL, NIL))" "sem_view ?s = sem_view s"
    by (simp_all add: sem_view_def mutex_view_def fun_eq_iff mutex_new_def mutex_ends_def)
  have na: "mutex_view s a = None" using a(2) by (simp add: mutex_view_def)
  from fam_new [OF waits_repD(2) [OF d(2)] this a(1)] waits_repD(1,3) [OF d(2)]
  have w: "waits_rep {} {} ?s S M" unfolding waits_rep_def v by (simp add: fam_rep_tasks [OF t(1)])
  have own: "owned_but {} ?s Q" by (rule owned_but_view [OF k(8)]) (simp add: same_view_def write_mutex_def)
  have wf: "waits_for ?s i = waits_for s i" for i by (auto simp: waits_for_def a(2) mutex_new_def)
  have "donations_but {} ?s" using d(3) by (simp add: donations_but_def donors_def wf)
  moreover have "owners_ok ?s" using d(4) by (simp add: owners_ok_def mutex_new_def)
  moreover have "acyclic (wait_edges ?s)" using d(5) by (simp add: wait_edges_def wf)
  moreover have "bases_ok ?s" "settled_but {} ?s" using d(6,8) by (simp_all add: bases_ok_def settled_but_def settled_def)
  moreover have "objects_ok ?s S M"
    using d(9) fam_repD(1) [OF waits_repD(2) [OF d(2)] na] by (auto simp: objects_ok_def mutex_new_def)
  moreover have "grant_ok ?s i" if "i < TASK_SLOT_COUNT" for i
    using d(10) [OF that] a(2) by (auto simp: grant_ok_def Let_def)
  ultimately have "sync_inv ?s Q S M" using own w by (simp add: sync_inv_def prop_inv_def)
  then show "kernel_inv ?s Q S M"
    by (rule kernel_transfer [OF inv]) (use k(4) in \<open>auto simp: steady_def trap_kept_def write_mutex_def\<close>)
  show "permits ?s b = permits s b" by (simp add: permits_def grants_def)
qed

subsection \<open>Objects that leave the kernel\<close>

lemma fam_drop:
  assumes "fam_rep X Y s E w S" "S a = []"
  shows "fam_rep X Y s (E(a := None)) w S"
  using assms unfolding fam_rep_def by auto

lemma kernel_free_sem:
  assumes inv: "kernel_inv s Q S M" and a: "S a = []" "a \<noteq> 0" "\<forall>i < TASK_SLOT_COUNT. t_granted_sem (tasks s ! i) \<noteq> a"
  shows "kernel_inv (free_sem a s) Q S M"
proof -
  let ?s = "free_sem a s"
  note k = kernel_invD [OF inv] and d = sync_invD [OF kernel_invD(1) [OF inv]]
  have t [simp]: "tasks ?s = tasks s" "mutex_mem ?s = mutex_mem s" "current ?s = current s" "pending_switch ?s = pending_switch s"
    "sem_mem ?s = (sem_mem s)(a := None)" by (simp_all add: free_sem_def)
  have v: "sem_view ?s = (sem_view s)(a := None)" "mutex_view ?s = mutex_view s"
    by (simp_all add: sem_view_def mutex_view_def fun_eq_iff)
  from fam_drop [OF waits_repD(1) [OF d(2)] a(1)] waits_repD(2,3) [OF d(2)]
  have w: "waits_rep {} {} ?s S M" unfolding waits_rep_def v by (simp add: fam_rep_tasks [OF t(1)])
  have own: "owned_but {} ?s Q" by (rule owned_but_view [OF k(8)]) (simp add: same_view_def free_sem_def)
  have ps: "prio_same s ?s" by (simp add: prio_same_def)
  have "prop_inv {} {} ?s Q S M" using prop_inv_same [OF sync_inv_prop [OF k(1)] ps own w] .
  moreover have "settled_but {} ?s" using prio_same_inv(5) [OF ps d(7)] d(8) by blast
  moreover have "objects_ok ?s S M" using d(9) by (auto simp: objects_ok_def)
  moreover have "grant_ok ?s i" if "i < TASK_SLOT_COUNT" for i
    using d(10) [OF that] a(3) that by (auto simp: grant_ok_def Let_def)
  ultimately have "sync_inv ?s Q S M" by (simp add: sync_inv_def)
  then show ?thesis
    by (rule kernel_transfer [OF inv]) (use k(4) in \<open>auto simp: steady_def trap_kept_def free_sem_def\<close>)
qed

lemma kernel_free_mutex:
  assumes inv: "kernel_inv s Q S M" and a: "mutex_mem s a = Some m" "mx_owner m = NIL"
  shows "kernel_inv (free_mutex a s) Q S M"
proof -
  let ?s = "free_mutex a s"
  note k = kernel_invD [OF inv] and d = sync_invD [OF kernel_invD(1) [OF inv]]
  have t [simp]: "tasks ?s = tasks s" "sem_mem ?s = sem_mem s" "current ?s = current s" "pending_switch ?s = pending_switch s"
    "mutex_mem ?s = (mutex_mem s)(a := None)" by (simp_all add: free_mutex_def)
  have v: "mutex_view ?s = (mutex_view s)(a := None)" "sem_view ?s = sem_view s"
    by (simp_all add: sem_view_def mutex_view_def fun_eq_iff)
  have "M a = []" using d(9) a by (auto simp: objects_ok_def)
  from fam_drop [OF waits_repD(2) [OF d(2)] this] waits_repD(1,3) [OF d(2)]
  have w: "waits_rep {} {} ?s S M" unfolding waits_rep_def v by (simp add: fam_rep_tasks [OF t(1)])
  have own: "owned_but {} ?s Q" by (rule owned_but_view [OF k(8)]) (simp add: same_view_def free_mutex_def)
  have wf: "waits_for ?s i = waits_for s i" for i by (auto simp: waits_for_def a)
  have "donations_but {} ?s" using d(3) by (simp add: donations_but_def donors_def wf)
  moreover have "owners_ok ?s" using d(4) by (simp add: owners_ok_def)
  moreover have "acyclic (wait_edges ?s)" using d(5) by (simp add: wait_edges_def wf)
  moreover have "bases_ok ?s" "settled_but {} ?s" using d(6,8) by (simp_all add: bases_ok_def settled_but_def settled_def)
  moreover have "objects_ok ?s S M" using d(9) by (auto simp: objects_ok_def)
  moreover have "grant_ok ?s i" if "i < TASK_SLOT_COUNT" for i
    using d(10) [OF that] a that by (auto simp: grant_ok_def Let_def)
  ultimately have "sync_inv ?s Q S M" using own w by (simp add: sync_inv_def prop_inv_def)
  then show ?thesis
    by (rule kernel_transfer [OF inv]) (use k(4) in \<open>auto simp: steady_def trap_kept_def free_mutex_def\<close>)
qed

text \<open>What the checks of the driver find.\<close>

lemma semaphore_busy_spec:
  assumes "kernel_inv s Q S M" "sem_mem s a \<noteq> None"
  shows "semaphore_busy a s = Some (S a \<noteq> [] \<or> (\<exists>i < TASK_SLOT_COUNT. t_granted_sem (tasks s ! i) = a))"
proof -
  note d = sync_invD [OF kernel_invD(1) [OF assms(1)]]
  from assms(2) obtain st where st: "sem_mem s a = Some st" by blast
  then have "wait_rep s (sem_ends st) (S a)" using fam_repD(3) [OF waits_repD(1) [OF d(2)]] by (simp add: sem_view_def)
  then have "semaphore_state_has_waiters st \<longleftrightarrow> S a \<noteq> []"
    by (cases "S a") (auto simp: semaphore_state_has_waiters_def sem_ends_def wait_rep_def last_or_NIL_def)
  moreover have "(\<exists>t \<in> set (tasks s). t_granted_sem t = a) \<longleftrightarrow> (\<exists>i < TASK_SLOT_COUNT. t_granted_sem (tasks s ! i) = a)"
    using d(7) by (metis in_set_conv_nth)
  ultimately show ?thesis using st by (simp add: semaphore_busy_def)
qed

lemma mutex_busy_spec:
  assumes "kernel_inv s Q S M" "mutex_mem s a = Some m"
  shows "mutex_busy a s = Some (mx_owner m \<noteq> NIL)" "mx_owner m = NIL \<Longrightarrow> M a = []"
proof -
  note d = sync_invD [OF kernel_invD(1) [OF assms(1)]]
  have "wait_rep s (mutex_ends m) (M a)" using assms(2) fam_repD(3) [OF waits_repD(2) [OF d(2)]] by (simp add: mutex_view_def)
  moreover show e: "mx_owner m = NIL \<Longrightarrow> M a = []" using d(9) assms(2) by (auto simp: objects_ok_def)
  ultimately show "mutex_busy a s = Some (mx_owner m \<noteq> NIL)" using assms(2)
    by (auto simp: mutex_busy_def mutex_state_is_busy_def mutex_ends_def wait_rep_def last_or_NIL_def)
qed

lemma kernel_free_unused_sem:
  assumes "kernel_inv s Q S M" "semaphore_busy a s = Some False" "map_option sm_count (sem_mem s a) = Some n"
  shows "kernel_inv (free_sem a s) Q S M" "permits (free_sem a s) b = permits s b + (if b = a then - n else 0)"
proof -
  from assms(3) obtain st where st: "sem_mem s a = Some st" "sm_count st = n" by auto
  with assms semaphore_busy_spec [OF assms(1), of a] have u: "S a = []" "\<forall>i < TASK_SLOT_COUNT. t_granted_sem (tasks s ! i) \<noteq> a" by auto
  have "a \<noteq> 0" using fam_repD(2) [OF waits_repD(1) [OF sync_invD(2) [OF kernel_invD(1) [OF assms(1)]]]] st by (auto simp: sem_view_def)
  then show "kernel_inv (free_sem a s) Q S M" by (intro kernel_free_sem [OF assms(1) u(1) _ u(2)])
  have "grants s a = {}" using u(2) by (auto simp: grants_def)
  then show "permits (free_sem a s) b = permits s b + (if b = a then - n else 0)" using st by (simp add: permits_def grants_def free_sem_def)
qed

lemma kernel_free_unused_mutex:
  assumes "kernel_inv s Q S M" "mutex_busy a s = Some False"
  shows "kernel_inv (free_mutex a s) Q S M" "permits (free_mutex a s) b = permits s b"
proof -
  from assms(2) obtain m where m: "mutex_mem s a = Some m" by (auto simp: mutex_busy_def bind_eq_Some)
  with mutex_busy_spec(1) [OF assms(1) m] assms(2) show "kernel_inv (free_mutex a s) Q S M" by (intro kernel_free_mutex [OF assms(1)]) auto
  show "permits (free_mutex a s) b = permits s b" by (simp add: permits_def grants_def free_mutex_def)
qed

subsection \<open>The scheduler lock\<close>

lemma kernel_current_upd:
  assumes inv: "kernel_inv s Q S M" and run: "state_of s (current s) = Running"
    and f: "bystander (tasks s ! current s) (f (tasks s ! current s))" "trap_kept (tasks s ! current s) (f (tasks s ! current s))"
      "t_next (f (tasks s ! current s)) = t_next (tasks s ! current s)" "t_state (f (tasks s ! current s)) = Running"
  shows "kernel_inv (mod_task (current s) f s) Q S M" "permits (mod_task (current s) f s) b = permits s b"
proof -
  note al = running_alone [OF inv run] and k = kernel_invD [OF inv]
  have "pending_target s \<noteq> Some (current s)" using al(2) by simp
  note u = kernel_task_upd [where f = f and x = "current s", OF inv k(9) al(3) this al(4) f(1-3)]
  show "kernel_inv (mod_task (current s) f s) Q S M" by (rule u(1)) (use f(4) al(1) in auto)
  show "permits (mod_task (current s) f s) b = permits s b" by (rule u(2)) (use f(4) al(1) in auto)
qed

lemma sched_lock_spec:
  assumes inv: "kernel_inv s Q S M" and run: "state_of s (current s) = Running"
  shows "\<exists>r s'. lock_current now s = Some (r, s') \<and> kernel_inv s' Q S M \<and> (\<forall>b. permits s' b = permits s b)
    \<and> (t_scheduler_lock_depth (tasks s ! current s) < U16_MAX \<longrightarrow> r = Inr ()
        \<and> t_scheduler_lock_depth (tasks s' ! current s) = t_scheduler_lock_depth (tasks s ! current s) + 1)"
proof -
  note k = kernel_invD [OF inv]
  have cl: "current s < length (tasks s)" using k(7,9) by simp
  show ?thesis
  proof (cases "t_scheduler_lock_depth (tasks s ! current s) < U16_MAX")
    case True
    let ?g = "\<lambda>d. d\<lparr>d_scheduler_locks := bump32 (d_scheduler_locks d)\<rparr>"
    have g: "lock_current now s = Some (Inr (), diag ?g (mod_task (current s) (lock_entered now) s))"
      using True cl by (cases "t_scheduler_lock_depth (tasks s ! current s) = 0")
        (simp_all add: lock_current_def lock_entered_def mod_task_def)
    have "bystander (tasks s ! current s) (lock_entered now (tasks s ! current s))"
      "trap_kept (tasks s ! current s) (lock_entered now (tasks s ! current s))"
      "t_next (lock_entered now (tasks s ! current s)) = t_next (tasks s ! current s)"
      "t_state (lock_entered now (tasks s ! current s)) = Running"
      using run by (simp_all add: bystander_def trap_kept_def lock_entered_def)
    note u = kernel_current_upd [where f = "lock_entered now", OF inv run this]
    show ?thesis using g u cl by (auto simp: mod_task_at lock_entered_def permits_def grants_def)
  next
    case False
    have "lock_current now s = Some (Inl RuntimeError, s)" using False cl by (simp add: lock_current_def chk_add_def)
    with inv False show ?thesis by auto
  qed
qed

subsection \<open>Committing a switch\<close>

text \<open>The current task has left the processor for \<open>n\<close>, which is in no queue any more.\<close>

lemma commit_spec:
  assumes inv: "kernel_inv s Q S M" and np: "pending_switch s = None" "next_switch_sequence s < U64_MAX"
    and rd: "readied X now s s1" "X \<subseteq> {current s}" "state_of s (current s) \<noteq> Blocked"
    and n: "owned_but {n} s1 Q1" "n \<notin> queued Q1" "n < TASK_SLOT_COUNT" "state_of s1 n = Ready" "state_of s1 (current s) \<noteq> Running"
  shows "\<exists>intent s'. prepare_committed_switch_intent (current s) n s1 = Some (intent, s') \<and> kernel_inv s' Q1 S M
    \<and> pending_target s' = Some n \<and> current s' = current s \<and> ref_slot (si_target intent) = n \<and> calm s s'"
proof -
  note k = kernel_invD [OF inv] and sel = readied_sel [OF rd(1)] and fl = readied_fields [OF rd(1)]
  let ?c = "current s"
  have cl: "?c < TASK_SLOT_COUNT" "length (tasks s1) = TASK_SLOT_COUNT" using k(7,9) sel by simp_all
  have cm: "calm s s1" by (rule calm_readied [OF rd(1)]) (use rd(2,3) in auto)
  have np1: "pending_switch s1 = None" "next_switch_sequence s1 < U64_MAX" "current s1 = ?c" using sel np by simp_all
  let ?i = "\<lparr>si_sequence = next_switch_sequence s1 + 1,
        si_previous = \<lparr>ref_slot = ?c, ref_identity_generation = t_identity_generation (tasks s1 ! ?c)\<rparr>,
        si_target = \<lparr>ref_slot = n, ref_identity_generation = t_identity_generation (tasks s1 ! n)\<rparr>,
        si_previous_resume_generation = t_resume_generation (tasks s1 ! ?c)\<rparr>"
  from prepare_switch_intent_spec [OF n(1) np1(1) cl(1) n(3) _ np1(2)] n obtain s2 where
    s2: "prepare_switch_intent ?c n s1 = Some (?i, s2)" "same_view s1 s2" "tasks s2 = tasks s1" by blast
  have x2: "started s2 = started s1" "sem_mem s2 = sem_mem s1" "mutex_mem s2 = mutex_mem s1"
      "next_switch_sequence s2 = next_switch_sequence s1 + 1" "last_consumed_switch_sequence s2 = last_consumed_switch_sequence s1"
    using s2(1) by (auto simp: prepare_switch_intent_def bind_eq_Some Let_def chk_add_def split: if_splits)
  have own2: "owned_but {ref_slot (si_target ?i)} s2 Q1" using owned_but_view [OF n(1) s2(2)] by simp
  have v: "pending_switch s2 = None" "current s2 = ?c" using s2(2) np1 by (simp_all add: same_view_def)
  have fresh: "task_ref_is_current (si_previous ?i) s2" "task_ref_is_current (si_target ?i) s2" "current s2 = ref_slot (si_previous ?i)"
      "state_of s2 (ref_slot (si_previous ?i)) \<noteq> Running" "t_resume_generation (tasks s2 ! ref_slot (si_previous ?i)) = si_previous_resume_generation ?i"
      "state_of s2 (ref_slot (si_target ?i)) = Ready" "ref_slot (si_target ?i) \<notin> queued Q1"
    using cl n v(2) s2(3) by (simp_all add: task_ref_is_current_iff)
  define s' where "s' = committed ?i s2"
  note cmt = commit_fresh_spec [OF own2 v(1) fresh, folded s'_def]
  have run: "prepare_committed_switch_intent ?c n s1 = Some (?i, s')"
    using s2(1) cmt(1) by (simp add: prepare_committed_switch_intent_def)
  have t: "tasks s' = tasks s1" "current s' = ?c" "started s' = started s" "sem_mem s' = sem_mem s1" "mutex_mem s' = mutex_mem s1"
    "next_switch_sequence s' = next_switch_sequence s + 1" "last_consumed_switch_sequence s' = last_consumed_switch_sequence s"
    "\<And>p. pending_switch s' = Some p \<Longrightarrow> ps_sequence p = next_switch_sequence s + 1 \<and> ps_previous p = si_previous ?i"
    using s2(3) v(2) x2 sel by (auto simp: s'_def committed_def)
  have c2: "calm s s'" using cm by (simp add: calm_def t)
  have "kept (tasks s ! IDLE_SLOT) (tasks s' ! IDLE_SLOT)" using c2 k(7) by (simp add: calm_def TASK_SLOT_COUNT_eq IDLE_SLOT_def)
  then have idle: "state_of s' IDLE_SLOT = Ready \<or> state_of s' IDLE_SLOT = Running" using k(4) by (simp add: kept_def)
  have tk: "budgets_ok s" "frames_ok s" using k(2) by (simp_all add: trap_inv_def)
  have "budgets_ok s'" using tk(1) fl(3) k(7) by (simp add: budgets_ok_def t)
  moreover have "frames_ok s'"
    using tk(2) fl(1,4) k(7) idle rd(2) by (auto simp: frames_ok_def t split: if_splits)
  moreover have "ticket_ok s'" using t(8) k(5) fresh(1) s2(3) by (auto simp: ticket_ok_def t task_ref_is_current_iff)
  ultimately have ti: "trap_inv s' Q1" using cmt(2) by (simp add: trap_inv_def)
  then have "kernel_inv s' Q1 S M" using calm_sync [OF k(1) c2 cmt(2)] idle t k(3,5) by (simp add: kernel_inv_def)
  with run cmt(3) t(2) c2 show ?thesis by auto
qed

subsection \<open>Yielding\<close>

lemma permits_front: "calm s s' \<Longrightarrow> kernel_inv s Q S M \<Longrightarrow> permits s' b = permits s b"
  using permits_calm kernel_invD(7) by blast

lemma yield_spec:
  assumes inv: "kernel_inv s Q S M" and run: "state_of s (current s) = Running"
    and sq: "next_switch_sequence s < U64_MAX" and now: "now \<le> U64_MAX"
  shows "if t_scheduler_lock_depth (tasks s ! current s) \<noteq> 0 then yield_locked True now s = Some (Inl InvalidContext, s)
    else \<exists>s1 Q1 S1 M1 r s' Q'. wake_sleepers now (diag (\<lambda>d. d\<lparr>d_yields := bump32 (d_yields d)\<rparr>) s) = Some s1
      \<and> kernel_inv s1 Q1 S1 M1 \<and> yield_locked True now s = Some (Inr r, s') \<and> kernel_inv s' Q' S1 M1
      \<and> (if queued Q1 = {} then r = None \<and> s' = s1 else r \<noteq> None \<and> pending_target s' = Some (best_ready Q1))
      \<and> (\<forall>b. b \<noteq> 0 \<longrightarrow> permits s' b = permits s b)"
proof (cases "t_scheduler_lock_depth (tasks s ! current s) = 0")
  case False
  then show ?thesis using kernel_invD(7,9) [OF inv] by (simp add: yield_locked_def current_switch_guard_def)
next
  case True
  let ?c = "current s" and ?s = "diag (\<lambda>d. d\<lparr>d_yields := bump32 (d_yields d)\<rparr>) s"
  note k = kernel_invD [OF inv]
  have "kernel_inv ?s Q S M" using inv by simp
  from wake_sleepers_spec [OF this now] obtain s1 where
    1: "wake_sleepers now ?s = Some s1" "served ?s s1"
      "\<forall>j < TASK_SLOT_COUNT. if overdue now (tasks s ! j) then state_of s1 j = Ready
       else if state_of s j = Throttled then refilled now (tasks s ! j) (tasks s1 ! j)
       else clock (tasks s1 ! j) = clock (tasks s ! j)" by (auto cong: if_cong)
  obtain Q1 S1 M1 where k1: "kernel_inv s1 Q1 S1 M1" using served_kernel [OF 1(2)] by blast
  have e1: "current s1 = ?c" "next_switch_sequence s1 < U64_MAX" using 1(2) sq by (simp_all add: served_def steady_def)
  have p1: "permits s1 b = permits s b" if "b \<noteq> 0" for b using 1(2) that by (simp add: served_def permits_def grants_def)
  have "\<not> overdue now (tasks s ! ?c)" using run(1) by (simp add: overdue_def)
  then have r1: "state_of s1 (current s1) = Running" using 1(3) k(9) run(1) e1(1) by (auto simp: clock_def dest!: spec [of _ ?c])
  have cl: "?c < length (tasks s)" using k(7,9) by simp
  have g: "current_switch_guard s = Some (Inr ?c)" using cl True by (simp add: current_switch_guard_def)
  note kk = kernel_invD [OF k1] and al = running_alone [OF k1 r1]
  show ?thesis
  proof (cases "first_bucket Q1")
    case None
    then have "queued Q1 = {}" by (simp add: first_bucket_None)
    moreover have "ready_pop s1 = Some (NIL, s1)" using ready_pop_spec(1) [OF owned_butD(1,2) [OF kk(8)] None] .
    then have "yield_locked True now s = Some (Inr None, s1)"
      using g 1(1) by (simp add: yield_locked_def take_yield_target_def)
    ultimately show ?thesis using True 1(1) k1 p1 by auto
  next
    case (Some p)
    let ?n = "hd (Q1 p)"
    note tg = owned_pop_target [OF kk(8) Some]
    from switch_to_front [OF kk(8) al(1) Some r1, of now] obtain s2 Q2 where
      s2: "do { (nxt, s) \<leftarrow> ready_pop s1; s \<leftarrow> make_ready (current s) now s; Some (nxt, s) } = Some (?n, s2)"
        "owned_but (insert ?n {} - {current s1}) s2 Q2" "readied {current s1} now s1 s2" "?n \<notin> queued Q2" "?n \<noteq> current s1" by blast
    from s2(1) obtain s1' where pop: "ready_pop s1 = Some (?n, s1')" "make_ready (current s1') now s1' = Some s2" by (auto simp: bind_eq_Some)
    obtain s1'' where "ready_pop s1 = Some (?n, s1'')" "relinked {?n} s1 s1''" using owned_pop [OF kk(8) Some] by blast
    with pop e1 have c1: "current s1' = ?c" by (simp add: relinked_sel)
    have "?n \<noteq> NIL" using tg(1) slot_not_NIL by blast
    with pop c1 have ty: "take_yield_target ?c now s1 = Some (Some ?n, s2)" by (simp add: take_yield_target_def)
    have o2: "owned_but {?n} s2 Q2" using s2(2) owned_but_mono by blast
    have "state_of s2 ?n = Ready" "state_of s2 (current s1) \<noteq> Running"
      using readied_fields(1) [OF s2(3)] tg(1,2) s2(5) kk(7,9) by simp_all
    from commit_spec [OF k1 al(1) e1(2) s2(3) order.refl _ o2 s2(4) tg(1) this] r1 obtain intent s' where
      cs: "prepare_committed_switch_intent ?c ?n s2 = Some (intent, s')" "kernel_inv s' Q2 S1 M1" "pending_target s' = Some ?n" "calm s1 s'"
      unfolding e1(1) by auto
    have "yield_locked True now s = Some (Inr (Some intent), s')"
      using g 1(1) ty cs(1) s2(5) e1(1) by (simp add: yield_locked_def prepare_switch_def)
    moreover have "queued Q1 \<noteq> {}" using tg(4) by blast
    moreover have "best_ready Q1 = ?n" using Some by (simp add: best_ready_def)
    moreover have "permits s' b = permits s b" if "b \<noteq> 0" for b using permits_front [OF cs(4) k1] p1 that by simp
    ultimately show ?thesis using True 1(1) k1 cs by auto
  qed
qed

subsection \<open>Releasing the scheduler lock\<close>

lemma unlock_current_form:
  assumes "current s < length (tasks s)" "lock_ok (tasks s ! current s)" "t_scheduler_lock_depth (tasks s ! current s) \<noteq> 0"
  shows "\<exists>m x. unlock_current now s = Some (Inr (), mod_task (current s) (\<lambda>t. t\<lparr>t_scheduler_lock_depth := t_scheduler_lock_depth t - 1,
      t_metrics := m, t_scheduler_lock_started_at := x\<rparr>) s)"
proof (cases "t_scheduler_lock_depth (tasks s ! current s) = 1")
  case True
  with assms(2) obtain at where "t_scheduler_lock_started_at (tasks s ! current s) = Some at" by (auto simp: lock_ok_def)
  with assms True show ?thesis
    by (intro exI [of _ "(t_metrics (tasks s ! current s))\<lparr>m_max_scheduler_lock_ms :=
          max (m_max_scheduler_lock_ms (t_metrics (tasks s ! current s))) (sat_sub now at)\<rparr>"] exI [of _ None])
      (simp add: unlock_current_def mod_task_def)
next
  case False
  then have "\<not> t_scheduler_lock_depth (tasks s ! current s) - 1 = 0" using assms(3) by simp
  with assms show ?thesis
    by (intro exI [of _ "t_metrics (tasks s ! current s)"] exI [of _ "t_scheduler_lock_started_at (tasks s ! current s)"])
      (simp add: unlock_current_def mod_task_def Let_def)
qed

lemma overrun_throttle:
  assumes "budget_inv b" "lock_overrun_pending b"
  shows "\<exists>at b'. throttle_after_lock_overrun now b = (Some at, b') \<and> budget_inv b'" "spec b \<noteq> None"
proof -
  show n: "spec b \<noteq> None" using assms by (cases "spec b") (auto simp: budget_inv_def)
  then obtain sp where "spec b = Some sp" by auto
  with throttle_after_lock_overrun_inv [OF assms(1), of now] assms(2)
  show "\<exists>at b'. throttle_after_lock_overrun now b = (Some at, b') \<and> budget_inv b'" by (simp add: throttle_after_lock_overrun_def Let_def)
qed

text \<open>A task whose quota ran out under the lock is throttled and leaves.\<close>

lemma overrun_leaves:
  assumes inv: "kernel_inv s Q S M" and run: "state_of s (current s) = Running" "current s \<noteq> IDLE_SLOT" and sq: "next_switch_sequence s < U64_MAX"
    and b: "budget_inv b"
  shows "\<exists>s1 intent s' Q'. ready_pop_or_idle (diag g (mod_task (current s) (\<lambda>t. t\<lparr>t_budget := b, t_state := Throttled\<rparr>) s)) = Some (best_ready Q, s1)
    \<and> prepare_switch True (current s) (best_ready Q) s1 = Some (intent, s') \<and> kernel_inv s' Q' S M
    \<and> pending_target s' = Some (best_ready Q) \<and> (\<forall>b. permits s' b = permits s b)"
proof -
  let ?c = "current s" and ?f = "\<lambda>t. t\<lparr>t_budget := b, t_state := Throttled\<rparr>"
  define s0 where "s0 = diag g (mod_task ?c ?f s)"
  note k = kernel_invD [OF inv] and al = running_alone [OF inv run(1)]
  have cl: "?c < length (tasks s)" using k(7,9) by simp
  have f: "bystander (tasks s ! ?c) (?f (tasks s ! ?c))" "trap_kept (tasks s ! ?c) (?f (tasks s ! ?c))"
    "t_next (?f (tasks s ! ?c)) = t_next (tasks s ! ?c)" using run(1) b by (simp_all add: bystander_def trap_kept_def)
  have "pending_target s \<noteq> Some ?c" using al(2) by simp
  note u = kernel_task_upd [where f = ?f and x = ?c, OF inv k(9) al(3) this al(4) f]
  have k0: "kernel_inv s0 Q S M" and p0: "permits s0 b = permits s b" for b
    using u run(2) by (simp_all add: s0_def permits_def grants_def)
  have e0: "current s0 = ?c" "pending_switch s0 = None" "next_switch_sequence s0 < U64_MAX" "state_of s0 ?c = Throttled"
    using al(1) sq cl by (simp_all add: s0_def mod_task_at)
  note kk = kernel_invD [OF k0]
  from pop_or_idle_spec [OF kk(8) e0(2)] obtain n s1 Q1 where
    n: "ready_pop_or_idle s0 = Some (n, s1)" "n = best_ready Q" "owned_but {n} s1 Q1" "n \<notin> queued Q1" "n < TASK_SLOT_COUNT"
      "relinked {n} s0 s1" "n \<noteq> IDLE_SLOT \<longrightarrow> state_of s0 n = Ready" unfolding best_ready_def by blast
  have il: "IDLE_SLOT < TASK_SLOT_COUNT" by (simp add: TASK_SLOT_COUNT_eq IDLE_SLOT_def)
  have "state_of s0 IDLE_SLOT = Ready" using kk(4) owned_butD(7) [OF kk(8) il] e0(1) run(2) by auto
  then have r0: "state_of s0 n = Ready" using n(7) by (cases "n = IDLE_SLOT") auto
  then have rd: "readied {} 0 s0 s1" by (intro readied_relinked [OF n(6)]) simp
  have st: "state_of s1 n = Ready" "state_of s1 (current s0) \<noteq> Running"
    using readied_fields(1) [OF rd] r0 n(5) kk(7,9) e0 by simp_all
  have nb: "state_of s0 (current s0) \<noteq> Blocked" using e0(1,4) by simp
  from commit_spec [OF k0 e0(2,3) rd _ nb n(3-5) st] obtain intent s' where
    c: "prepare_committed_switch_intent ?c n s1 = Some (intent, s')" "kernel_inv s' Q1 S M" "pending_target s' = Some n" "calm s0 s'"
    unfolding e0(1) by auto
  have "n \<noteq> ?c" using r0 e0(4) by auto
  with n(1,2) c permits_front [OF c(4) k0] p0 show ?thesis unfolding s0_def [symmetric] by (auto simp: prepare_switch_def)
qed

text \<open>Fields outside the invariant, such as the mark of an expired time slice.\<close>

lemma kernel_inv_frame:
  assumes inv: "kernel_inv s Q S M" and f: "same_view s s'" "tasks s' = tasks s" "sem_mem s' = sem_mem s" "mutex_mem s' = mutex_mem s" "steady s s'"
  shows "kernel_inv s' Q S M"
proof -
  note k = kernel_invD [OF inv]
  have "calm s s'" using f by (simp add: calm_def)
  then have "sync_inv s' Q S M" using calm_sync [OF k(1)] owned_but_view [OF k(8) f(1)] by blast
  then show ?thesis by (rule kernel_transfer [OF inv]) (use f k(4) in \<open>auto simp: trap_kept_def same_view_def\<close>)
qed

lemma readied_slice: "readied X now s s' \<Longrightarrow> readied X now (s\<lparr>time_slice_pending := b\<rparr>) (s'\<lparr>time_slice_pending := b\<rparr>)"
  unfolding readied_def by (elim exE conjE, rule exI [of _ "tasks s'"], rule exI [of _ "ready_head s'"], rule exI [of _ "ready_tail s'"])
    (simp split del: if_split cong: if_cong)

lemma sched_unlock_spec:
  assumes inv: "kernel_inv s Q S M" and run: "state_of s (current s) = Running" and sq: "next_switch_sequence s < U64_MAX"
    and lk: "lock_ok (tasks s ! current s)" and idle: "spec (t_budget (tasks s ! IDLE_SLOT)) = None"
  shows "\<exists>r s' Q'. unlock_preempt True now s = Some (r, s') \<and> kernel_inv s' Q' S M \<and> (\<forall>b. permits s' b = permits s b)
    \<and> (t_scheduler_lock_depth (tasks s ! current s) = 0 \<longleftrightarrow> r = Inl InvalidContext)"
proof (cases "t_scheduler_lock_depth (tasks s ! current s) = 0")
  case True
  have "unlock_preempt True now s = Some (Inl InvalidContext, s)"
    using True kernel_invD(7,9) [OF inv] by (simp add: unlock_preempt_def unlock_current_and_take_preemption_def unlock_current_def)
  with inv True show ?thesis by auto
next
  case locked: False
  let ?c = "current s"
  note k = kernel_invD [OF inv]
  have cl: "?c < length (tasks s)" using k(7,9) by simp
  from unlock_current_form [OF cl lk locked, of now] obtain m x where
    un: "unlock_current now s = Some (Inr (), mod_task ?c (\<lambda>t. t\<lparr>t_scheduler_lock_depth := t_scheduler_lock_depth t - 1,
      t_metrics := m, t_scheduler_lock_started_at := x\<rparr>) s)" by blast
  let ?f = "\<lambda>t. t\<lparr>t_scheduler_lock_depth := t_scheduler_lock_depth t - 1, t_metrics := m, t_scheduler_lock_started_at := x\<rparr>"
  define s1 where "s1 = mod_task ?c ?f s"
  have u: "unlock_current now s = Some (Inr (), s1)" using un by (simp add: s1_def)
  have k1: "kernel_inv s1 Q S M" and p1: "permits s1 b = permits s b" for b unfolding s1_def
    by (rule kernel_current_upd [OF inv run]; use run in \<open>simp add: bystander_def trap_kept_def\<close>)+
  have e1: "current s1 = ?c" "next_switch_sequence s1 < U64_MAX" "state_of s1 (current s1) = Running"
    using sq run cl by (simp_all add: s1_def mod_task_at)
  note kk = kernel_invD [OF k1] and al = running_alone [OF k1 e1(3)]
  have c1: "?c < length (tasks s1)" using kk(7,9) e1(1) by simp
  let ?t = "tasks s1 ! ?c"
  show ?thesis
  proof (cases "t_scheduler_lock_depth ?t = 0 \<and> lock_overrun_pending (t_budget ?t)")
    case True
    have bi: "budget_inv (t_budget ?t)" using kk(2) k(9) by (simp add: trap_inv_def budgets_ok_def)
    from overrun_throttle [OF bi] True obtain at b where
      tb: "throttle_after_lock_overrun now (t_budget ?t) = (Some at, b)" "budget_inv b" by blast
    have nd: "?c \<noteq> IDLE_SLOT" using overrun_throttle(2) [OF bi] True idle cl by (auto simp: s1_def mod_task_at)
    let ?g = "\<lambda>d. d\<lparr>d_budget_throttles := bump32 (d_budget_throttles d)\<rparr>"
    from overrun_leaves [OF k1 e1(3) _ e1(2) tb(2), of ?g] nd obtain s2 intent s' Q' where
      lv: "ready_pop_or_idle (diag ?g (mod_task ?c (\<lambda>t. t\<lparr>t_budget := b, t_state := Throttled\<rparr>) s1)) = Some (best_ready Q, s2)"
        "prepare_switch True ?c (best_ready Q) s2 = Some (intent, s')" "kernel_inv s' Q' S M" "\<forall>b. permits s' b = permits s1 b"
      unfolding e1(1) by blast
    have "unlock_preempt True now s = Some (Inr (Some intent), s')"
      using u c1 True tb(1) lv(1,2) e1(1) by (simp add: unlock_preempt_def unlock_current_and_take_preemption_def)
    then show ?thesis using lv(3,4) p1 locked by auto
  next
    case no: False
    show ?thesis
    proof (cases "wants_switch (time_slice_pending s1) s1 Q")
      case False
      from take_reschedule_target_spec(1) [OF kk(8) al(1) False, of now]
      have "unlock_preempt True now s = Some (Inr None, s1)"
        using u c1 no e1(1) by (auto simp: unlock_preempt_def unlock_current_and_take_preemption_def)
      then show ?thesis using k1 p1 locked by auto
    next
      case True
      from take_reschedule_target_spec(2) [OF kk(8) al(1) True, of now] obtain p s2 Q2 where
        t: "first_bucket Q = Some p" "take_reschedule_target (time_slice_pending s1) now s1 = Some (Some (?c, hd (Q p)), s2)"
          "owned_but {hd (Q p)} s2 Q2" "readied {current s1} now s1 s2" "hd (Q p) \<notin> queued Q2" "hd (Q p) \<noteq> ?c" unfolding e1(1) by blast
      let ?s1 = "s1\<lparr>time_slice_pending := False\<rparr>" and ?s2 = "s2\<lparr>time_slice_pending := False\<rparr>"
      note tg = owned_pop_target [OF kk(8) t(1)]
      have o2: "owned_but {hd (Q p)} ?s2 Q2" by (rule owned_but_view [OF t(3)]) (simp add: same_view_def)
      have rd: "readied {current ?s1} now ?s1 ?s2" using readied_slice [OF t(4)] by simp
      have st: "state_of ?s2 (hd (Q p)) = Ready" "state_of ?s2 (current ?s1) \<noteq> Running"
        using readied_fields(1) [OF t(4)] tg(1,2) t(6) kk(7,9) e1(1) by simp_all
      have np: "pending_switch ?s1 = None" "next_switch_sequence ?s1 < U64_MAX" "state_of ?s1 (current ?s1) \<noteq> Blocked" using al(1) e1 by simp_all
      have ks: "kernel_inv ?s1 Q S M" by (rule kernel_inv_frame [OF k1]) (simp_all add: same_view_def steady_def)
      from commit_spec [OF ks np(1,2) rd order.refl np(3) o2 t(5) tg(1) st] obtain intent s' where
        c: "prepare_committed_switch_intent ?c (hd (Q p)) ?s2 = Some (intent, s')" "kernel_inv s' Q2 S M" "calm ?s1 s'" using e1(1) by auto
      have "unlock_preempt True now s = Some (Inr (Some intent), s')"
        using u c1 no e1(1) t(2,6) c(1) by (auto simp: unlock_preempt_def unlock_current_and_take_preemption_def prepare_switch_def)
      moreover have "permits s' b = permits s b" for b
        using permits_front [OF c(3) ks] p1 [of b] by (simp add: permits_def grants_def)
      ultimately show ?thesis using c(2) locked by auto
    qed
  qed
qed

subsection \<open>Tasks come and go\<close>

text \<open>A task that is in no queue, waits for nothing and to which nobody donates is replaced by another.\<close>

lemma kernel_task_reset:
  assumes inv: "kernel_inv s Q S M" and x: "x < TASK_SLOT_COUNT" "x \<notin> queued Q" "x \<notin> waiters S M" "x \<noteq> IDLE_SLOT"
    and np: "pending_switch s = None" and old: "t_granted_sem (tasks s ! x) = 0" "\<And>p. p < PRIORITY_LEVELS \<Longrightarrow> donors s x p = {}"
    and f: "unused (f (tasks s ! x))" "t_priority (f (tasks s ! x)) < PRIORITY_LEVELS" "budget_inv (t_budget (f (tasks s ! x)))"
      "t_state (f (tasks s ! x)) \<noteq> Running" "t_state (f (tasks s ! x)) \<noteq> Ready"
      "t_state (f (tasks s ! x)) \<noteq> Free \<Longrightarrow> x \<noteq> current s \<Longrightarrow> t_saved_frame (f (tasks s ! x)) \<noteq> 0"
  shows "kernel_inv (mod_task x f s) Q S M" "permits (mod_task x f s) b = permits s b"
proof -
  let ?s = "mod_task x f s"
  note k = kernel_invD [OF inv] and d = sync_invD [OF kernel_invD(1) [OF inv]]
  have xl: "x < length (tasks s)" using x k(7) by simp
  have at: "tasks ?s ! j = (if j = x then f (tasks s ! x) else tasks s ! j)" for j using xl by (simp add: mod_task_at)
  have un: "t_waiting_sem (f (tasks s ! x)) = 0" "t_waiting_mutex (f (tasks s ! x)) = 0" using f(1) by (simp_all add: unused_def)
  have pt: "pending_target s \<noteq> Some x" using np by (simp add: pending_target_def)
  have own: "owned_but {} ?s Q" by (rule owned_mod_task [where f = f, OF k(8) x(1,2) pt f(2)]) (use f(4,5) in auto)
  have w: "waits_rep {} {} ?s S M" by (rule waits_mod_task [OF d(2) xl x(3) k(7)]) (use un in auto)
  have wx: "t_waiting_mutex (tasks s ! x) = 0" using waiters_iff [OF d(2), of x] x by auto
  have wf: "waits_for ?s j = waits_for s j" for j using un wx by (simp add: waits_for_def at)
  have wfx: "waits_for s x = None" using wx by (simp add: waits_for_def)
  have dn: "donors ?s j p = donors s j p" for j p using wfx by (auto simp: donors_def wf at)
  have "donations_but {} ?s"
    using d(3) old(2) f(1) by (auto simp: donations_but_def dn at unused_def)
  moreover have "owners_ok ?s" "acyclic (wait_edges ?s)" using d(4,5) by (simp_all add: owners_ok_def wait_edges_def wf)
  moreover have "bases_ok ?s" using d(6) f(1,2) by (simp add: bases_ok_def at unused_def)
  moreover have "settled_but {} ?s"
    using d(8) f(1) unused_wanted [OF f(1)] by (auto simp: settled_but_def settled_def at unused_def)
  moreover have "objects_ok ?s S M" using d(9) by (simp add: objects_ok_def)
  moreover have "grant_ok ?s j" if "j < TASK_SLOT_COUNT" for j
    using d(10) [OF that] f(1) by (cases "j = x") (auto simp: grant_ok_def Let_def at unused_def)
  ultimately have sy: "sync_inv ?s Q S M" using own w by (simp add: sync_inv_def prop_inv_def)
  have tk: "budgets_ok s" "frames_ok s" using k(2) by (simp_all add: trap_inv_def)
  have "budgets_ok ?s" using tk(1) f(3) by (simp add: budgets_ok_def at)
  moreover have "frames_ok ?s" using tk(2) f(6) x(4) by (auto simp: frames_ok_def at)
  ultimately have "trap_inv ?s Q" using own np by (simp add: trap_inv_def ticket_ok_def)
  then show "kernel_inv ?s Q S M" using sy k(3-6) np x(4) by (simp add: kernel_inv_def at)
  show "permits ?s b = permits s b" by (rule permits_same) (use old(1) f(1) in \<open>auto simp: counts_same_def at unused_def\<close>)
qed

text \<open>The slot a new task goes to: free, with nothing left of its last task.\<close>

definition vacant :: "sched \<Rightarrow> nat \<Rightarrow> bool" where
  "vacant s i \<longleftrightarrow> IDLE_SLOT < i \<and> i < TASK_SLOT_COUNT \<and> state_of s i = Free
     \<and> \<not> t_sem_granted (tasks s ! i) \<and> t_inherited_waiters (tasks s ! i) = replicate PRIORITY_LEVELS 0"

lemma no_donors:
  assumes "kernel_inv s Q S M" "i < TASK_SLOT_COUNT" "t_inherited_waiters (tasks s ! i) = replicate PRIORITY_LEVELS 0" "p < PRIORITY_LEVELS"
  shows "donors s i p = {}"
proof -
  have "donations_but {} s" using sync_invD(3) [OF kernel_invD(1) [OF assms(1)]] .
  then have "t_inherited_waiters (tasks s ! i) ! p = card (donors s i p)" using assms(2,4) by (simp add: donations_but_def)
  then have "card (donors s i p) = 0" using assms(3,4) by simp
  moreover have "finite (donors s i p)" by (simp add: donors_def)
  ultimately show ?thesis by simp
qed

lemma spawn_place_spec:
  assumes inv: "kernel_inv s Q S M" and run: "state_of s (current s) = Running" and v: "vacant s i"
    and a: "frame \<noteq> 0" "priority < PRIORITY_LEVELS" "policy_ok policy"
  shows "\<exists>s' Q'. spawn_place i (spawn_tcb ctx (Some frame) stack bytes entry arg priority policy now) now s = Some s'
    \<and> kernel_inv s' Q' S M \<and> (\<forall>b. permits s' b = permits s b) \<and> state_of s' i = Ready \<and> prio_of s' i = priority
    \<and> t_identity_generation (tasks s' ! i) = next_identity (slot_generations s ! i) \<and> (\<forall>j < TASK_SLOT_COUNT. j \<noteq> i \<longrightarrow> state_of s' j = state_of s j)"
proof -
  note k = kernel_invD [OF inv] and d = sync_invD [OF kernel_invD(1) [OF inv]] and al = running_alone [OF inv run]
  from v have i: "i < TASK_SLOT_COUNT" "i \<noteq> IDLE_SLOT" "state_of s i = Free" "\<not> t_sem_granted (tasks s ! i)"
      "t_inherited_waiters (tasks s ! i) = replicate PRIORITY_LEVELS 0" by (auto simp: vacant_def)
  have gl: "i < length (slot_generations s)" using shape_okD(4) [OF owned_butD(1) [OF k(8)]] i(1) by simp
  let ?id = "next_identity (slot_generations s ! i)"
  let ?f = "spawn_tcb ctx (Some frame) stack bytes entry arg priority policy now ?id" and ?t = "tasks s ! i"
  let ?f' = "\<lambda>t. (?f t)\<lparr>t_state := Throttled\<rparr>"
  define s1 where "s1 = s\<lparr>slot_generations := (slot_generations s)[i := ?id]\<rparr>"
  have k1: "kernel_inv s1 Q S M" by (rule kernel_inv_frame [OF inv]) (simp_all add: s1_def same_view_def steady_def)
  have e1: "tasks s1 = tasks s" "mutex_mem s1 = mutex_mem s" "current s1 = current s" "pending_switch s1 = None" using al(1) by (simp_all add: s1_def)
  have iq: "i \<notin> queued Q" using owned_butD(3) [OF k(8), of i] i(3) by auto
  have iw: "i \<notin> waiters S M" using waiters_blocked [OF d(2), of i] i(3) by auto
  have g: "t_granted_sem ?t = 0" "t_granted_mutex ?t = 0" using d(10) [OF i(1)] i(4) by (auto simp: grant_ok_def Let_def)
  have w: "t_waiting_sem ?t = 0" "t_waiting_mutex ?t = 0" using waiters_iff [OF d(2), of i] iw i(1) by auto
  have dn: "donors s1 i p = {}" if "p < PRIORITY_LEVELS" for p using no_donors [OF k1 i(1) _ that] i(5) e1 by simp
  have f: "unused (?f' (tasks s1 ! i))" "t_priority (?f' (tasks s1 ! i)) < PRIORITY_LEVELS" "budget_inv (t_budget (?f' (tasks s1 ! i)))"
      "t_state (?f' (tasks s1 ! i)) \<noteq> Running" "t_state (?f' (tasks s1 ! i)) \<noteq> Ready" "t_saved_frame (?f' (tasks s1 ! i)) \<noteq> 0"
    using a g w i(4,5) by (simp_all add: unused_def spawn_tcb_def e1 for_policy_inv)
  have old: "t_granted_sem (tasks s1 ! i) = 0" using g e1 by simp
  note rs = kernel_task_reset [where f = ?f', OF k1 i(1) iq iw i(2) e1(4) old dn f(1-5)]
  let ?s2 = "mod_task i ?f' s1"
  have k2: "kernel_inv ?s2 Q S M" "permits ?s2 b = permits s b" for b using rs f(6) by (simp_all add: s1_def permits_def grants_def)
  have il: "i < length (tasks s1)" using k(7) i(1) e1 by simp
  have pt: "pending_target ?s2 \<noteq> Some i" using e1(4) by (simp add: pending_target_def)
  from kernel_make_ready [OF k2(1) i(1) iq pt iw, of now] il obtain s' Q' where
    mr: "make_ready i now ?s2 = Some s'" "kernel_inv s' Q' S M" "changed i (ready_mark now) ?s2 s'" "\<forall>b. permits s' b = permits ?s2 b" by (auto simp: mod_task_at)
  have "make_ready i now ?s2 = make_ready i now (mod_task i ?f s1)"
    using il by (simp add: make_ready_def mod_task_def spawn_tcb_def)
  then have r: "spawn_place i (spawn_tcb ctx (Some frame) stack bytes entry arg priority policy now) now s = Some s'"
    using gl il mr(1) by (simp add: spawn_place_def s1_def arr_at_def)
  have at: "\<exists>n. tasks s' ! j = (if j = i then ready_mark now (tasks ?s2 ! i) else tasks ?s2 ! j)\<lparr>t_next := n\<rparr>" if "j < TASK_SLOT_COUNT" for j
    using mr(3) that k(7) e1(1) by (simp add: changed_def)
  have "state_of s' i = Ready" "prio_of s' i = priority" "t_identity_generation (tasks s' ! i) = ?id"
    using at [OF i(1)] il by (auto simp: mod_task_at ready_mark_def spawn_tcb_def)
  moreover have "state_of s' j = state_of s j" if "j < TASK_SLOT_COUNT" "j \<noteq> i" for j using at [OF that(1)] that(2) e1(1) by auto
  ultimately show ?thesis using r mr(2,4) k2(2) by auto
qed

lemma retire_returns:
  assumes "length (retired_stacks s) = TASK_SLOT_COUNT" "retired_count s < TASK_SLOT_COUNT"
  shows "\<exists>r n. length r = TASK_SLOT_COUNT \<and> retire_stack p s = Some (s\<lparr>retired_stacks := r, retired_count := n\<rparr>)"
proof (cases "p = 0")
  case True
  then show ?thesis using assms by (intro exI [of _ "retired_stacks s"] exI [of _ "retired_count s"]) (simp add: retire_stack_def)
next
  case False
  then show ?thesis using assms
    by (intro exI [of _ "(retired_stacks s)[retired_count s := p]"] exI [of _ "Suc (retired_count s)"])
      (simp add: retire_stack_def chk_add_def TASK_SLOT_COUNT_eq)
qed

lemma exit_spec:
  assumes inv: "kernel_inv s Q S M" and run: "state_of s (current s) = Running" "current s \<noteq> IDLE_SLOT" "\<not> t_sem_granted (tasks s ! current s)"
      "next_switch_sequence s < U64_MAX" "t_scheduler_lock_depth (tasks s ! current s) = 0"
    and own: "t_inherited_waiters (tasks s ! current s) = replicate PRIORITY_LEVELS 0" and room: "retired_count s < TASK_SLOT_COUNT"
  shows "\<exists>intent s' Q'. task_exit_locked True s = Some (intent, s') \<and> kernel_inv s' Q' S M \<and> pending_target s' = Some (best_ready Q)
    \<and> (\<forall>b. permits s' b = permits s b) \<and> mutex_mem s' = mutex_mem s"
proof -
  let ?c = "current s" and ?t = "tasks s ! current s"
  note k = kernel_invD [OF inv] and d = sync_invD [OF kernel_invD(1) [OF inv]] and al = running_alone [OF inv run(1)]
  have cl: "?c < length (tasks s)" using k(7,9) by simp
  have g: "t_granted_sem ?t = 0" using d(10) [OF k(9)] run(3) by (auto simp: grant_ok_def Let_def)
  note dn = no_donors [OF inv k(9) own]
  define s1 where "s1 = mod_task ?c (\<lambda>_. tcb_empty) s"
  note rs = kernel_task_reset [where f = "\<lambda>_. tcb_empty", OF inv k(9) al(3,4) run(2) al(1) g dn]
  have k1: "kernel_inv s1 Q S M" and p1: "permits s1 b = permits s b" for b unfolding s1_def
    by (rule rs; simp add: unused_def tcb_empty_def PRIORITY_LEVELS_def)+
  have rl: "length (retired_stacks s) = TASK_SLOT_COUNT" using shape_okD(5) [OF owned_butD(1) [OF k(8)]] .
  from retire_returns [of s1 "t_stack ?t"] rl room obtain r n where
    rt: "retire_stack (t_stack ?t) s1 = Some (s1\<lparr>retired_stacks := r, retired_count := n\<rparr>)" "length r = TASK_SLOT_COUNT" by (auto simp: s1_def)
  define s2 where "s2 = s1\<lparr>retired_stacks := r, retired_count := n\<rparr>"
  have k2: "kernel_inv s2 Q S M" by (rule kernel_inv_frame [OF k1]) (use rt(2) rl in \<open>simp_all add: s2_def same_view_def steady_def s1_def\<close>)
  have e2: "current s2 = ?c" "tasks s2 ! ?c = tcb_empty" "pending_switch s2 = None" "next_switch_sequence s2 < U64_MAX" "mutex_mem s2 = mutex_mem s"
    using cl al(1) run(4) by (simp_all add: s2_def s1_def mod_task_at)
  have lv: "leaving s2 Q S M" using k2 e2 run(2) by (simp add: leaving_def tcb_empty_def)
  from leave_spec [OF lv refl] e2 obtain intent s' Q' where
    lf: "prepare_switch_away_locked True ?c (t_resume_generation tcb_empty) s2 = Some (Some intent, s')" "kernel_inv s' Q' S M"
      "pending_target s' = Some (best_ready Q)" "calm s2 s'" by auto
  have "task_exit_locked True s = Some (intent, s')"
    using cl run(2,5) rt(1) lf(1) by (simp add: task_exit_locked_def s1_def s2_def)
  moreover have "permits s' b = permits s b" for b
    using permits_front [OF lf(4) k2] p1 [of b] by (simp add: s2_def permits_def grants_def)
  ultimately show ?thesis using lf e2(5) by (auto simp: calm_def)
qed

subsection \<open>Changing a base priority\<close>

text \<open>The critical section of \<open>set_task_priority\<close>: the effective priorities along the chain of owners follow.\<close>

lemma set_priority_spec:
  assumes inv: "kernel_inv s Q S M" and x: "x < TASK_SLOT_COUNT" and p: "priority < PRIORITY_LEVELS"
  shows "\<exists>s' Q' S' M'. refresh_inherited_priority x 0 (mod_task x (\<lambda>t. t\<lparr>t_base_priority := priority\<rparr>) s) = Some s'
    \<and> kernel_inv s' Q' S' M' \<and> (\<forall>b. permits s' b = permits s b)
    \<and> t_base_priority (tasks s' ! x) = priority \<and> current s' = current s \<and> wait_edges s' = wait_edges s"
proof -
  note k = kernel_invD [OF inv] and d = sync_invD [OF kernel_invD(1) [OF inv]]
  have xl: "x < length (tasks s)" using x k(7) by simp
  define r where "r = mod_task x (\<lambda>t. t\<lparr>t_base_priority := priority\<rparr>) s"
  have at: "tasks r ! j = (if j = x then (tasks s ! x)\<lparr>t_base_priority := priority\<rparr> else tasks s ! j)" for j using xl by (simp add: r_def mod_task_at)
  have sel: "length (tasks r) = TASK_SLOT_COUNT" "sem_mem r = sem_mem s" "mutex_mem r = mutex_mem s" "current r = current s"
    "pending_switch r = pending_switch s" "steady s r" using k(7) by (simp_all add: r_def steady_def)
  have "same_view s r" using k(7) sel by (auto simp: same_view_def at) (simp_all add: r_def)
  then have own: "owned_but {} r Q" by (rule owned_but_view [OF k(8)])
  have w: "waits_rep {} {} r S M" by (rule waits_view [OF d(2) sel(2,3)]) (simp add: at)
  have wf: "waits_for r j = waits_for s j" for j by (simp add: waits_for_def at sel)
  have we: "wait_edges r = wait_edges s" by (simp add: wait_edges_def wf)
  have dn: "donors r j q = donors s j q" for j q by (auto simp: donors_def wf at)
  have pi: "prop_inv {} {} r Q S M"
    using own w d(3-6) p by (auto simp: prop_inv_def donations_but_def dn owners_ok_def sel we bases_ok_def at)
  have "settled_but {x} r" using d(8) k(7) sel(1) by (auto simp: settled_but_def settled_def at)
  from refresh_spec [OF pi x this, of "{}" 0] obtain s' Q' S' M' where
    rf: "refresh_inherited_priority x 0 r = Some s'" "prop_inv {} {} s' Q' S' M'" "settled_but {} s'" "reprio r s'" by auto
  have "kernel_inv s' Q' S' M'"
  proof (rule kernel_reprio [OF inv rf(2-4) sel(1,4-6)])
    show "grant_ok r i" if "i < TASK_SLOT_COUNT" for i by (rule grant_ok_frame [OF d(10) [OF that]]) (use sel in \<open>auto simp: at\<close>)
    show "(mx_owner m = NIL \<longleftrightarrow> mx_depth m = 0) \<and> mx_depth m \<le> U32_MAX
        \<and> (mx_owner m = NIL \<longrightarrow> (\<forall>i < TASK_SLOT_COUNT. t_waiting_mutex (tasks r ! i) \<noteq> b))" if "mutex_mem r b = Some m" for b m
    proof -
      have b: "mutex_mem s b = Some m" using that sel by simp
      then have "b \<noteq> 0" using fam_repD(2) [OF waits_repD(2) [OF d(2)], of b] by (simp add: mutex_view_def)
      then show ?thesis using d(9) queue_empty_iff(2) [OF d(2) b] b by (auto simp: at objects_ok_def split: if_splits)
    qed
  qed (use sel in \<open>auto simp: at trap_kept_def\<close>)
  moreover have "permits r b = permits s b" for b by (rule permits_same) (use sel in \<open>auto simp: counts_same_def at\<close>)
  then have "permits s' b = permits s b" for b using permits_reprio [OF rf(4) sel(1)] by simp
  moreover have "t_base_priority (tasks s' ! x) = priority" "current s' = current s" "wait_edges s' = wait_edges s"
    using reprio_fields(4) [OF rf(4), of x] reprio_sel(2) [OF rf(4)] reprio_edges [OF rf(4) sel(1)] x sel(1,4) we by (simp_all add: at)
  ultimately show ?thesis using rf(1) unfolding r_def by blast
qed

end
