(* ===== verification/Policies.thy ===== *)
theory Policies
  imports Lifecycle
begin

text \<open>
  Changing the run policy of a live task (\<open>set_run_policy\<close>): whatever the task is doing, its new
  quota is in force at once and the kernel stays consistent.
\<close>

subsection \<open>Changes that keep the kernel\<close>

text \<open>
  \<open>tame i s s'\<close>: links of tasks that are not blocked may change, and what the waits, the donations and the
  trap do not rely on in the task \<open>i\<close>.
\<close>

definition tame :: "nat \<Rightarrow> sched \<Rightarrow> sched \<Rightarrow> bool" where
  "tame i s s' \<longleftrightarrow> calm s s' \<and> steady s s' \<and> current s' = current s \<and> pending_switch s' = pending_switch s
     \<and> (\<forall>j < length (tasks s). trap_kept (tasks s ! j) (tasks s' ! j)
          \<and> (j \<noteq> i \<longrightarrow> (\<exists>n. tasks s' ! j = (tasks s ! j)\<lparr>t_next := n\<rparr>)))"

lemma tameD:
  assumes "tame i s s'"
  shows "calm s s'" "steady s s'" "current s' = current s" "pending_switch s' = pending_switch s" "length (tasks s') = length (tasks s)"
    "j < length (tasks s) \<Longrightarrow> trap_kept (tasks s ! j) (tasks s' ! j)"
    "j < length (tasks s) \<Longrightarrow> j \<noteq> i \<Longrightarrow> \<exists>n. tasks s' ! j = (tasks s ! j)\<lparr>t_next := n\<rparr>"
  using assms by (simp_all add: tame_def calm_def)

lemma tame_refl [simp]: "tame i s s"
  unfolding tame_def steady_def trap_kept_def by (auto intro: exI [of _ "t_next _"])

lemma tame_trans:
  assumes "tame i s s1" "tame i s1 s2"
  shows "tame i s s2"
proof -
  note 1 = tameD [OF assms(1)] and 2 = tameD [OF assms(2)]
  have "calm s s2" "steady s s2" using calm_trans [OF 1(1) 2(1)] 1(2) 2(2) by (simp_all add: steady_def)
  moreover have "trap_kept (tasks s ! j) (tasks s2 ! j)" if "j < length (tasks s)" for j
    using 1(6) [OF that] 2(6) [of j] that 1(5) by (simp add: trap_kept_def)
  moreover have "\<exists>n. tasks s2 ! j = (tasks s ! j)\<lparr>t_next := n\<rparr>" if "j < length (tasks s)" "j \<noteq> i" for j
  proof -
    from 1(7) [OF that] obtain n where n: "tasks s1 ! j = (tasks s ! j)\<lparr>t_next := n\<rparr>" ..
    from 2(7) [of j] that 1(5) obtain m where "tasks s2 ! j = (tasks s1 ! j)\<lparr>t_next := m\<rparr>" by auto
    then have "tasks s2 ! j = (tasks s ! j)\<lparr>t_next := m\<rparr>" unfolding n by simp
    then show ?thesis ..
  qed
  ultimately show ?thesis using 1(3,4) 2(3,4) by (simp add: tame_def)
qed

lemma tame_diag: "tame i s (diag f s)"
  unfolding tame_def steady_def trap_kept_def by (auto intro: exI [of _ "t_next _"])

lemma tame_relinked:
  assumes "relinked R s s'" "\<And>j. j \<in> R \<Longrightarrow> state_of s j \<noteq> Blocked"
  shows "tame i s s'"
  using calm_relinked [OF assms] relinked_sel [OF assms(1)] relinked_fields [OF assms(1)] relinked_task(1) [OF assms(1)]
  by (simp add: tame_def steady_def trap_kept_def)

lemma tame_mod_task:
  assumes "i < length (tasks s)" "kept (tasks s ! i) (f (tasks s ! i))" "trap_kept (tasks s ! i) (f (tasks s ! i))"
  shows "tame i s (mod_task i f s)"
  using assms calm_mod_task [of s s i f] unfolding tame_def steady_def
  by (auto simp: mod_task_at trap_kept_def intro: exI [of _ "t_next _"])

lemma kernel_tame:
  assumes inv: "kernel_inv s Q S M" and t: "tame i s s'" and own: "owned_but {} s' Q'"
  shows "kernel_inv s' Q' S M" "permits s' b = permits s b"
proof -
  note k = kernel_invD [OF inv]
  have c: "calm s s'" using t by (simp add: tame_def)
  show "permits s' b = permits s b" using permits_calm [OF c k(7)] .
  have "kept (tasks s ! IDLE_SLOT) (tasks s' ! IDLE_SLOT)" using c k(7) by (simp add: calm_def TASK_SLOT_COUNT_eq IDLE_SLOT_def)
  then have "state_of s' IDLE_SLOT = Ready \<or> state_of s' IDLE_SLOT = Running" using k(4) by (simp add: kept_def)
  then show "kernel_inv s' Q' S M" using t k(7) by (intro kernel_transfer [OF inv calm_sync [OF k(1) c own]]) (simp_all add: tame_def)
qed

subsection \<open>The change of a policy\<close>

text \<open>The policy \<open>policy\<close> is in force for the task \<open>i\<close>: it is recorded, with a quota that follows it.\<close>

definition policed :: "nat \<Rightarrow> run_policy \<Rightarrow> nat \<Rightarrow> sched \<Rightarrow> bool" where
  "policed i policy now s \<longleftrightarrow> t_run_policy (tasks s ! i) = policy \<and> spec (t_budget (tasks s ! i)) = spec (for_policy policy now)"

abbreviation repolice :: "run_policy \<Rightarrow> budget_state \<Rightarrow> tcb \<Rightarrow> tcb" where
  "repolice policy b t \<equiv> t\<lparr>t_run_policy := policy, t_budget := b\<rparr>"

lemma repolice_tame:
  "i < length (tasks s) \<Longrightarrow> budget_inv b \<Longrightarrow> tame i s (mod_task i (repolice policy b) s)"
  by (rule tame_mod_task) (simp_all add: kept_def trap_kept_def)

lemma repolice_owned: "owned_but X s Q \<Longrightarrow> owned_but X (mod_task i (repolice policy b) s) Q"
  by (erule owned_but_view) (rule same_view_mod_task; simp)

lemma policed_relinked: "policed i policy now s \<Longrightarrow> relinked R s s' \<Longrightarrow> i < length (tasks s) \<Longrightarrow> policed i policy now s'"
  by (simp add: policed_def relinked_fields)

text \<open>A ready task that belongs to no queue goes to the end of its queue.\<close>

lemma policy_push:
  assumes own: "owned_but {i} s Q" and i: "i < TASK_SLOT_COUNT" "state_of s i = Ready" "i \<noteq> IDLE_SLOT" "i \<notin> queued Q"
    "pending_target s \<noteq> Some i" and p: "policed i policy now s"
  shows "\<exists>s' Q'. ready_push i s = Some s' \<and> owned_but {} s' Q' \<and> tame i s s' \<and> policed i policy now s' \<and> state_of s' i = Ready"
proof -
  note d = owned_butD [OF own]
  let ?R = "insert i (set (Q (prio_of s i)))"
  from owned_push [OF own i] obtain s' Q' where r: "ready_push i s = Some s'" "owned_but {} s' Q'" "relinked ?R s s'" by auto
  have "prio_of s i < PRIORITY_LEVELS" using shape_okD(7) [OF d(1) i(1)] .
  from bucket_subset [OF this, of Q] d(3) i(2) have "state_of s j \<noteq> Blocked" if "j \<in> ?R" for j using that by fastforce
  from tame_relinked [OF r(3) this] policed_relinked [OF p r(3)] relinked_fields(4) [OF r(3), of i] i(1,2) d(8) r show ?thesis by auto
qed

text \<open>A queued task leaves its queue and returns to the end of it.\<close>

lemma policy_queued:
  assumes own: "owned_but {} s Q" and i: "i \<in> queued Q" and b: "budget_inv b" "spec b = spec (for_policy policy now)"
  shows "\<exists>s1 s' Q'. ready_remove i s = Some s1 \<and> ready_push i (mod_task i (repolice policy b) s1) = Some s'
    \<and> i < length (tasks s1) \<and> owned_but {} s' Q' \<and> tame i s s' \<and> policed i policy now s' \<and> state_of s' i = Ready"
proof -
  note d = owned_butD [OF own] and rem = owned_remove [OF own i refl]
  have il: "i < TASK_SLOT_COUNT" using queued_slot [OF d(2) i] .
  have st: "state_of s i = Ready" "i \<noteq> IDLE_SLOT" "pending_target s \<noteq> Some i"
    using d(3,4,6) i by (auto simp: pending_target_def pending_ok_def)
  let ?p = "prio_of s i"
  let ?Q = "Q(?p := remove1 i (Q ?p))"
  from rem(1) obtain s1 where 1: "ready_remove i s = Some s1" "owned_but {i} s1 ?Q" "relinked (set (Q ?p)) s s1" by auto
  have t1: "tame i s s1" by (rule tame_relinked [OF 1(3)]) (use d(3) bucket_subset [OF rem(3), of Q] in fastforce)
  let ?s2 = "mod_task i (repolice policy b) s1"
  have l1: "i < length (tasks s1)" using il d(8) relinked_sel(1) [OF 1(3)] by simp
  have t2: "tame i s1 ?s2" by (rule repolice_tame [OF l1 b(1)])
  have s2: "state_of ?s2 i = Ready" "i \<notin> queued ?Q" "pending_target ?s2 \<noteq> Some i" "policed i policy now ?s2"
    using relinked_fields(4) [OF 1(3), of i] relinked_sel(1,11) [OF 1(3)] l1 st rem(2) b(2)
    by (simp_all add: mod_task_at pending_target_def policed_def)
  from policy_push [OF repolice_owned [OF 1(2)] il s2(1) st(2) s2(2-4)] obtain s' Q' where
    "ready_push i ?s2 = Some s'" "owned_but {} s' Q'" "tame i ?s2 s'" "policed i policy now s'" "state_of s' i = Ready" by blast
  with 1(1) l1 tame_trans [OF tame_trans [OF t1 t2]] show ?thesis by blast
qed

text \<open>A throttled task becomes ready with the new quota.\<close>

lemma policy_throttled:
  assumes own: "owned_but {} s Q" and i: "i < TASK_SLOT_COUNT" "state_of s i = Throttled" "i \<noteq> IDLE_SLOT"
    and b: "budget_inv b" "spec b = spec (for_policy policy now)"
  defines "f \<equiv> \<lambda>t. t\<lparr>t_state := Ready, t_metrics := metrics_on_ready now (t_metrics t)\<rparr>"
  shows "\<exists>s' Q'. ready_push i (mod_task i f (mod_task i (repolice policy b) s)) = Some s'
    \<and> owned_but {} s' Q' \<and> tame i s s' \<and> policed i policy now s' \<and> state_of s' i = Ready"
proof -
  note d = owned_butD [OF own]
  have l: "i < length (tasks s)" using i(1) d(8) by simp
  have nq: "i \<notin> queued Q" "pending_target s \<noteq> Some i" using d(3,6) i(2,3) by (auto simp: pending_target_def pending_ok_def)
  let ?s1 = "mod_task i (repolice policy b) s"
  have "prio_of s i < PRIORITY_LEVELS" using shape_okD(7) [OF d(1) i(1)] .
  then have "owned_but {i} (mod_task i f ?s1) Q"
    by (intro owned_mod_task [OF repolice_owned [OF own] i(1)]) (use nq l in \<open>auto simp: f_def mod_task_at pending_target_def\<close>)
  moreover have t: "tame i ?s1 (mod_task i f ?s1)"
    by (rule tame_mod_task) (use l i(2) in \<open>simp_all add: f_def kept_def trap_kept_def mod_task_at\<close>)
  moreover have "state_of (mod_task i f ?s1) i = Ready" "policed i policy now (mod_task i f ?s1)"
    "pending_target (mod_task i f ?s1) \<noteq> Some i"
    using l nq(2) b(2) by (simp_all add: f_def mod_task_at policed_def pending_target_def)
  ultimately show ?thesis
    using policy_push [of i "mod_task i f ?s1" Q policy now] i nq(1) tame_trans [OF tame_trans [OF repolice_tame [OF l b(1)] t]] by blast
qed

text \<open>The whole call: a throttled task is released, every other keeps its state; a running task is charged from now on.\<close>

lemma set_run_policy_owned:
  assumes own: "owned_but {} s Q" and i: "slot < TASK_SLOT_COUNT" "state_of s IDLE_SLOT \<noteq> Throttled"
    and p: "policy_ok policy" "now \<le> U64_MAX"
  shows "\<exists>s' Q'. set_run_policy slot policy now s = Some s' \<and> owned_but {} s' Q' \<and> tame slot s s' \<and> policed slot policy now s'
    \<and> state_of s' slot = (if state_of s slot = Throttled then Ready else state_of s slot)"
proof -
  note d = owned_butD [OF own] and rc = owned_contains [OF own, of slot]
  let ?b = "for_policy policy now"
  let ?u = "mod_task slot (repolice policy ?b)"
  have l: "slot < length (tasks s)" using i(1) d(8) by simp
  note b = for_policy_inv [OF p(1), of now]
  consider "slot \<in> queued Q" | "state_of s slot = Running" | "state_of s slot = Throttled"
    | "slot \<notin> queued Q" "state_of s slot \<noteq> Running" "state_of s slot \<noteq> Throttled" by blast
  then show ?thesis
  proof cases
    case 1
    have "state_of s slot = Ready" using d(3) [OF 1] .
    with policy_queued [OF own 1 b refl] 1 l rc show ?thesis by (auto simp: set_run_policy_def)
  next
    case 2
    from budget_on_dispatch_inv [OF b p(2)] obtain b' where b': "budget_on_dispatch now ?b = Some b'" "budget_inv b'" "spec b' = spec ?b" .
    let ?s = "mod_task slot (\<lambda>t. t\<lparr>t_budget := b'\<rparr>) (?u s)"
    have e: "?s = mod_task slot (repolice policy b') s" using l by (simp add: mod_task_def)
    have "set_run_policy slot policy now s = Some ?s" using 2 l b'(1) by (simp add: set_run_policy_def)
    then show ?thesis unfolding e using repolice_tame [OF l b'(2)] repolice_owned [OF own, of slot b' policy] b'(3) l 2
      by (auto simp: policed_def mod_task_at)
  next
    case 3
    then have "slot \<noteq> IDLE_SLOT" using i(2) by auto
    with policy_throttled [OF own i(1) 3 _ b refl] 3 l show ?thesis by (auto simp: set_run_policy_def)
  next
    case 4
    let ?g = "\<lambda>d. d\<lparr>d_detached_pending_policy_mutations := bump32 (d_detached_pending_policy_mutations d)\<rparr>"
    let ?s = "if state_of s slot = Ready \<and> pending_target s = Some slot then diag ?g s else s"
    have o: "owned_but {} ?s Q" and t: "tame slot s ?s" using own tame_diag [of slot s ?g] owned_but_view [OF own, of "diag ?g s"] by simp_all
    have at: "tasks ?s = tasks s" by simp
    have "set_run_policy slot policy now s = Some (?u ?s)" using 4 l rc by (auto simp: set_run_policy_def)
    moreover have "tame slot s (?u ?s)" using tame_trans [OF t repolice_tame [OF _ b]] l at by simp
    moreover have "policed slot policy now (?u ?s)" "state_of (?u ?s) slot = state_of s slot"
      using l at by (simp_all add: policed_def mod_task_at)
    ultimately show ?thesis using repolice_owned [OF o, of slot ?b policy] 4(3) by auto
  qed
qed

lemma set_run_policy_spec:
  assumes inv: "kernel_inv s Q S M" and i: "slot < TASK_SLOT_COUNT" and p: "policy_ok policy" "now \<le> U64_MAX"
  shows "\<exists>s' Q'. set_run_policy slot policy now s = Some s' \<and> kernel_inv s' Q' S M \<and> (\<forall>b. permits s' b = permits s b)
    \<and> tame slot s s' \<and> policed slot policy now s' \<and> state_of s' slot = (if state_of s slot = Throttled then Ready else state_of s slot)"
proof -
  note k = kernel_invD [OF inv]
  have "state_of s IDLE_SLOT \<noteq> Throttled" using k(4) by auto
  from set_run_policy_owned [OF k(8) i this p] obtain s' Q' where
    "set_run_policy slot policy now s = Some s'" "owned_but {} s' Q'" "tame slot s s'" "policed slot policy now s'"
    "state_of s' slot = (if state_of s slot = Throttled then Ready else state_of s slot)" by blast
  with kernel_tame [OF inv] show ?thesis by blast
qed

end
