(* ===== verification/Kernel_Steps.thy ===== *)
theory Kernel_Steps
  imports Policies
begin

text \<open>
  The kernel as a transition system. An event is one critical section of the runtime, called by the
  running task, by an interrupt handler, or by the trap that switches tasks. Every event that its
  caller may issue returns and keeps the invariant of the kernel, so the invariant holds in every
  reachable state: nobody is lost, no permit is lost or created, and no two tasks wait for each other.
\<close>

subsection \<open>The remaining critical sections\<close>

definition in_task :: "sched \<Rightarrow> bool" where
  "in_task s \<longleftrightarrow> state_of s (current s) = Running \<and> current s \<noteq> IDLE_SLOT
     \<and> \<not> t_sem_granted (tasks s ! current s) \<and> next_switch_sequence s < U64_MAX"

lemma in_task_may_block: "in_task s \<Longrightarrow> t_scheduler_lock_depth (tasks s ! current s) = 0 \<Longrightarrow> may_block s"
  by (simp add: in_task_def may_block_def)

lemma down_timeout_spec:
  assumes inv: "kernel_inv s Q S M" and c: "in_task s" and st: "sem_mem s a = Some st"
  shows "if 0 < sm_count st then \<exists>s'. semaphore_down_timeout True True a timeout now s = Some (Inr (Some True, None), s')
        \<and> kernel_inv s' Q S M \<and> (\<forall>b. permits s' b = permits s b - of_bool (b = a))
    else if timeout = 0 then semaphore_down_timeout True True a timeout now s = Some (Inr (Some False, None), s)
    else if t_scheduler_lock_depth (tasks s ! current s) \<noteq> 0
      then semaphore_down_timeout True True a timeout now s = Some (Inl InvalidContext, s)
    else \<exists>intent s' Q'. semaphore_down_timeout True True a timeout now s = Some (Inr (None, Some intent), s')
        \<and> kernel_inv s' Q' (S(a := insert_prio (prio_of s) (current s) (S a))) M
        \<and> pending_target s' = Some (best_ready Q) \<and> (\<forall>b. permits s' b = permits s b)"
proof -
  note k = kernel_invD [OF inv]
  have cl: "current s < length (tasks s)" using k(7,9) by simp
  note tk = semaphore_take_spec [OF inv st]
  let ?w = "if timeout = U32_MAX then 0 else sat_add U64_MAX now timeout"
  show ?thesis
  proof (cases "0 < sm_count st")
    case True
    with tk show ?thesis by (auto simp: semaphore_down_timeout_def semaphore_down_def)
  next
    case no: False
    show ?thesis
    proof (cases "timeout = 0 \<or> t_scheduler_lock_depth (tasks s ! current s) \<noteq> 0")
      case True
      with no tk cl show ?thesis
        by (auto simp: semaphore_down_timeout_def semaphore_down_def semaphore_park_def current_switch_guard_def Let_def)
    next
      case False
      then have mb: "may_block s" using in_task_may_block [OF c] by blast
      from no have "sm_count st \<le> 0" by simp
      from semaphore_park_spec [OF inv mb st this, of ?w] obtain intent s' Q' where
        "semaphore_park True True a ?w s = Some (Inr intent, s')"
        "kernel_inv s' Q' (S(a := insert_prio (prio_of s) (current s) (S a))) M" "pending_target s' = Some (best_ready Q)"
        "\<forall>b. permits s' b = permits s b" by blast
      with no False tk show ?thesis by (auto simp: semaphore_down_timeout_def semaphore_down_def)
    qed
  qed
qed

lemma lock_resumed_spec:
  assumes inv: "kernel_inv s Q S M" and g: "t_granted_sem (tasks s ! current s) = 0"
  shows "\<exists>s'. mutex_lock_resumed s = Some (t_granted_mutex (tasks s ! current s) \<noteq> 0, s') \<and> kernel_inv s' Q S M
    \<and> (\<forall>b. permits s' b = permits s b)"
proof -
  note k = kernel_invD [OF inv] and d = sync_invD [OF kernel_invD(1) [OF inv]]
  have xl: "current s < length (tasks s)" using k(7,9) by simp
  have "t_sem_granted (tasks s ! current s) = (t_granted_mutex (tasks s ! current s) \<noteq> 0)"
    using d(10) [OF k(9)] g by (simp add: grant_ok_def Let_def)
  moreover have "unseen = (\<lambda>t. t\<lparr>t_sem_granted := False, t_granted_mutex := 0\<rparr>)"
    by (rule ext, rule tcb.equality) (simp_all add: unseen_def)
  ultimately have "mutex_lock_resumed s = Some (t_granted_mutex (tasks s ! current s) \<noteq> 0, mod_task (current s) unseen s)"
    using xl by (simp add: mutex_lock_resumed_def)
  with consume_mutex_grant [OF inv k(9) g] show ?thesis by auto
qed

lemma sleep_spec:
  assumes inv: "kernel_inv s Q S M" and c: "in_task s"
  shows "if t_scheduler_lock_depth (tasks s ! current s) \<noteq> 0 then sleep_locked True wake_at s = Some (Inl InvalidContext, s)
    else \<exists>intent s' Q'. sleep_locked True wake_at s = Some (Inr intent, s') \<and> kernel_inv s' Q' S M
      \<and> pending_target s' = Some (best_ready Q) \<and> (\<forall>b. permits s' b = permits s b)"
proof (cases "t_scheduler_lock_depth (tasks s ! current s) = 0")
  case False
  then show ?thesis using kernel_invD(7,9) [OF inv] by (simp add: sleep_locked_def current_switch_guard_def)
next
  case True
  note k = kernel_invD [OF inv]
  let ?c = "current s" and ?f = "\<lambda>t. t\<lparr>t_state := Sleeping, t_wake_at := wake_at\<rparr>"
  let ?g = "\<lambda>d. d\<lparr>d_sleeps := bump32 (d_sleeps d)\<rparr>"
  have run: "state_of s ?c = Running" and ni: "?c \<noteq> IDLE_SLOT" using c by (simp_all add: in_task_def)
  note al = running_alone [OF inv run]
  have cl: "?c < length (tasks s)" using k(7,9) by simp
  have f: "bystander (tasks s ! ?c) (?f (tasks s ! ?c))" "trap_kept (tasks s ! ?c) (?f (tasks s ! ?c))"
    "t_next (?f (tasks s ! ?c)) = t_next (tasks s ! ?c)" using run by (simp_all add: bystander_def trap_kept_def)
  have "pending_target s \<noteq> Some ?c" using al(2) by simp
  note u = kernel_task_upd [where f = ?f and x = ?c, OF inv k(9) al(3) this al(4) f]
  have kv: "kernel_inv (mod_task ?c ?f s) Q S M" "permits (mod_task ?c ?f s) b = permits s b" for b using u ni by simp_all
  let ?s = "mod_task ?c ?f (diag ?g s)"
  have com: "?s = diag ?g (mod_task ?c ?f s)" by (simp add: mod_task_def diag_def)
  have kv2: "kernel_inv ?s Q S M" using kv(1) unfolding com by simp
  have lv: "leaving ?s Q S M" using kv2 al(1) cl ni c by (simp add: leaving_def mod_task_at in_task_def)
  have "t_resume_generation (tasks ?s ! current ?s) = t_resume_generation (tasks s ! ?c)" using cl by (simp add: mod_task_at)
  from leave_spec [OF lv this] obtain intent s' Q' where
    r: "prepare_switch_away_locked True ?c (t_resume_generation (tasks s ! ?c)) ?s = Some (Some intent, s')" "kernel_inv s' Q' S M"
      "pending_target s' = Some (best_ready Q)" "calm ?s s'" by auto
  have "sleep_locked True wake_at s = Some (Inr intent, s')"
    using True cl r(1) by (simp add: sleep_locked_def current_switch_guard_def)
  moreover have "permits s' b = permits s b" for b
    using permits_calm [OF r(4)] kernel_invD(7) [OF kv2] kv(2) [of b] unfolding com by (simp add: permits_def grants_def)
  ultimately show ?thesis using True r by auto
qed

subsection \<open>Events\<close>

datatype kernel_event =
    Up nat nat nat
  | Down nat nat nat
  | DownResumed nat
  | Lock nat nat nat
  | LockResumed
  | Unlock nat nat nat
  | Cancel nat nat
  | Sleep nat
  | Tick nat nat
  | Trap nat nat
  | NewSem nat int
  | NewMutex nat
  | FreeSem nat int
  | FreeMutex nat
  | SchedLock nat
  | SchedUnlock nat
  | Yield nat
  | SetPriority nat nat
  | SetPolicy nat run_policy nat
  | Spawn nat "task_context" nat nat nat nat nat nat run_policy nat
  | Exit

text \<open>The critical section of an event. The flag says whether its caller got a permit of a semaphore.\<close>

fun kernel_apply :: "kernel_event \<Rightarrow> sched \<Rightarrow> (bool \<times> sched) option" where
  "kernel_apply (Up depth a now) s = map_option (\<lambda>(_, s). (False, s)) (semaphore_up depth a now s)"
| "kernel_apply (Down a timeout now) s = map_option (\<lambda>(r, s). (r = Inr (Some True, None), s)) (semaphore_down_timeout True True a timeout now s)"
| "kernel_apply (DownResumed a) s = semaphore_down_resumed s"
| "kernel_apply (Lock a timeout now) s = map_option (\<lambda>(_, s). (False, s)) (mutex_lock True True a timeout now s)"
| "kernel_apply LockResumed s = map_option (\<lambda>(_, s). (False, s)) (mutex_lock_resumed s)"
| "kernel_apply (Unlock depth a now) s = map_option (\<lambda>(_, s). (False, s)) (mutex_unlock depth a now s)"
| "kernel_apply (Cancel task now) s = map_option (\<lambda>(_, s). (False, s)) (cancel_wait_locked task now s)"
| "kernel_apply (Sleep wake_at) s = map_option (\<lambda>(_, s). (False, s)) (sleep_locked True wake_at s)"
| "kernel_apply (Tick now limit) s = map_option (\<lambda>(_, s). (False, s)) (on_timer now limit s)"
| "kernel_apply (Trap frame now) s = map_option (\<lambda>(_, s). (False, s)) (schedule_from_trap frame 0 now s)"
| "kernel_apply (NewSem a n) s = Some (False, write_sem n a s)"
| "kernel_apply (NewMutex a) s = Some (False, write_mutex a s)"
| "kernel_apply (FreeSem a n) s = Some (False, free_sem a s)"
| "kernel_apply (FreeMutex a) s = Some (False, free_mutex a s)"
| "kernel_apply (SchedLock now) s = map_option (\<lambda>(_, s). (False, s)) (lock_current now s)"
| "kernel_apply (SchedUnlock now) s = map_option (\<lambda>(_, s). (False, s)) (unlock_preempt True now s)"
| "kernel_apply (Yield now) s = map_option (\<lambda>(_, s). (False, s)) (yield_locked True now s)"
| "kernel_apply (SetPriority slot priority) s = map_option (\<lambda>s. (False, s))
     (do { s \<leftarrow> upd_task slot (\<lambda>t. t\<lparr>t_base_priority := priority\<rparr>) s; refresh_inherited_priority slot 0 s })"
| "kernel_apply (SetPolicy slot policy now) s = map_option (\<lambda>s. (False, s)) (set_run_policy slot policy now s)"
| "kernel_apply (Spawn i ctx frame stack bytes entry arg priority policy now) s = map_option (\<lambda>s. (False, s))
     (spawn_place i (spawn_tcb ctx (Some frame) stack bytes entry arg priority policy now) now s)"
| "kernel_apply Exit s = map_option (\<lambda>(_, s). (False, s)) (task_exit_locked True s)"

text \<open>
  Who may issue which event. Objects exist, a semaphore has room for another permit, a blocking call
  is made by a running task that has seen the outcome of its last wait, and the call that reads an
  outcome is the one that belongs to the wait. Any running task may yield, the idle task too; it has
  no quota. A new object gets fresh memory, an object is freed when the check of the driver finds it
  unused, with the count it had, and a policy is one that validates. A new task gets a slot with
  nothing left of its last task and a stack with a frame, and a task exits without the scheduler lock
  and while nobody waits for a mutex of it.
\<close>

fun enabled :: "kernel_event \<Rightarrow> sched \<Rightarrow> bool" where
  "enabled (Up depth a now) s \<longleftrightarrow> sem_mem s a \<noteq> None \<and> permits s a < I32_MAX"
| "enabled (Down a timeout now) s \<longleftrightarrow> in_task s \<and> sem_mem s a \<noteq> None"
| "enabled (DownResumed a) s \<longleftrightarrow> state_of s (current s) = Running \<and> t_granted_mutex (tasks s ! current s) = 0
     \<and> t_granted_sem (tasks s ! current s) \<in> {0, a}"
| "enabled (Lock a timeout now) s \<longleftrightarrow> in_task s \<and> mutex_mem s a \<noteq> None"
| "enabled LockResumed s \<longleftrightarrow> state_of s (current s) = Running \<and> t_granted_sem (tasks s ! current s) = 0"
| "enabled (Unlock depth a now) s \<longleftrightarrow> in_task s \<and> mutex_mem s a \<noteq> None"
| "enabled (Cancel task now) s \<longleftrightarrow> task < TASK_SLOT_COUNT
     \<and> (t_granted_sem (tasks s ! task) \<noteq> 0 \<longrightarrow> permits s (t_granted_sem (tasks s ! task)) \<le> I32_MAX)"
| "enabled (Sleep wake_at) s \<longleftrightarrow> in_task s"
| "enabled (Tick now limit) s \<longleftrightarrow> now \<le> U64_MAX \<and> spec (t_budget (tasks s ! IDLE_SLOT)) = None"
| "enabled (Trap frame now) s \<longleftrightarrow> now \<le> U64_MAX \<and> frame \<noteq> 0"
| "enabled (NewSem a n) s \<longleftrightarrow> a \<noteq> 0 \<and> sem_mem s a = None \<and> 0 \<le> n \<and> n \<le> I32_MAX"
| "enabled (NewMutex a) s \<longleftrightarrow> a \<noteq> 0 \<and> mutex_mem s a = None"
| "enabled (FreeSem a n) s \<longleftrightarrow> semaphore_busy a s = Some False \<and> map_option sm_count (sem_mem s a) = Some n"
| "enabled (FreeMutex a) s \<longleftrightarrow> mutex_busy a s = Some False"
| "enabled (SchedLock now) s \<longleftrightarrow> state_of s (current s) = Running"
| "enabled (SchedUnlock now) s \<longleftrightarrow> state_of s (current s) = Running \<and> next_switch_sequence s < U64_MAX
     \<and> lock_ok (tasks s ! current s) \<and> spec (t_budget (tasks s ! IDLE_SLOT)) = None"
| "enabled (Yield now) s \<longleftrightarrow> state_of s (current s) = Running \<and> next_switch_sequence s < U64_MAX \<and> now \<le> U64_MAX"
| "enabled (SetPriority slot priority) s \<longleftrightarrow> slot < TASK_SLOT_COUNT \<and> priority < PRIORITY_LEVELS"
| "enabled (SetPolicy slot policy now) s \<longleftrightarrow> slot < TASK_SLOT_COUNT \<and> policy_ok policy \<and> now \<le> U64_MAX"
| "enabled (Spawn i ctx frame stack bytes entry arg priority policy now) s \<longleftrightarrow> state_of s (current s) = Running
     \<and> vacant s i \<and> frame \<noteq> 0 \<and> priority < PRIORITY_LEVELS \<and> policy_ok policy"
| "enabled Exit s \<longleftrightarrow> in_task s \<and> t_scheduler_lock_depth (tasks s ! current s) = 0
     \<and> t_inherited_waiters (tasks s ! current s) = replicate PRIORITY_LEVELS 0 \<and> retired_count s < TASK_SLOT_COUNT"

fun gives :: "nat \<Rightarrow> kernel_event \<Rightarrow> int" where
  "gives b (Up depth a now) = of_bool (b = a)"
| "gives b (NewSem a n) = (if b = a then n else 0)"
| "gives b (FreeSem a n) = (if b = a then - n else 0)"
| "gives b _ = 0"

fun takes :: "nat \<Rightarrow> kernel_event \<Rightarrow> int" where
  "takes b (Down a timeout now) = of_bool (b = a)"
| "takes b (DownResumed a) = of_bool (b = a)"
| "takes b _ = 0"

lemma permits_map:
  assumes "tasks s' = tasks s" "sem_mem s' = sem_mem s"
  shows "permits s' b = permits s b"
  using assms by (simp add: permits_def grants_def)

lemma unlock_step:
  assumes inv: "kernel_inv s Q S M" and c: "in_task s" and m: "mutex_mem s a = Some m"
  shows "\<exists>r s' Q' S' M'. mutex_unlock depth a now s = Some (r, s') \<and> kernel_inv s' Q' S' M' \<and> (\<forall>b. permits s' b = permits s b)"
proof -
  note k = kernel_invD [OF inv] and d = sync_invD [OF kernel_invD(1) [OF inv]]
  have run: "state_of s (current s) = Running" "t_granted_mutex (tasks s ! current s) = 0"
    using c d(10) [OF k(9)] by (auto simp: in_task_def grant_ok_def Let_def)
  note u = mutex_unlock_spec [OF inv m run, of depth now]
  consider "mx_owner m \<noteq> current s" | "mx_owner m = current s" "1 < mx_depth m" | "mx_owner m = current s" "\<not> 1 < mx_depth m" by blast
  then show ?thesis
  proof cases
    case 1
    with u inv show ?thesis by auto
  next
    case 2
    let ?s = "s\<lparr>mutex_mem := (mutex_mem s)(a \<mapsto> m\<lparr>mx_depth := mx_depth m - 1\<rparr>)\<rparr>"
    have o: "\<not> mx_owner m \<noteq> current s" using 2(1) by simp
    have "mutex_unlock depth a now s = Some (Inr False, ?s)" "kernel_inv ?s Q S M"
      using u unfolding if_not_P [OF o] if_P [OF 2(2)] by blast+
    moreover have "permits ?s b = permits s b" for b by (rule permits_map) simp_all
    ultimately show ?thesis by blast
  next
    case 3
    with u obtain s' Q' S' where
      r: "mutex_unlock depth a now s = Some (Inr (M a \<noteq> [] \<and> depth = 0), s')" "kernel_inv s' Q' S' (M(a := tl (M a)))"
        "M a = [] \<longrightarrow> s' = s\<lparr>mutex_mem := (mutex_mem s)(a \<mapsto> m\<lparr>mx_owner := NIL, mx_depth := 0\<rparr>)\<rparr>"
        "\<forall>x xs. M a = x # xs \<longrightarrow> reprio (handed a x now s) s'" by auto
    have "permits s' b = permits s b" for b
    proof (cases "M a")
      case Nil
      with r(3) show ?thesis by (intro permits_map) simp_all
    next
      case (Cons x xs)
      have "x < length (tasks s)" using mutex_waiter(1) [OF k(1), of x a] Cons k(7) by simp
      from permits_handed [OF this k(7) r(4) [rule_format, OF Cons]] show ?thesis .
    qed
    with r show ?thesis by blast
  qed
qed

lemma lock_step:
  assumes inv: "kernel_inv s Q S M" and c: "in_task s" and m: "mutex_mem s a = Some m"
  shows "\<exists>r s' Q' S' M'. mutex_lock True True a timeout now s = Some (r, s') \<and> kernel_inv s' Q' S' M' \<and> (\<forall>b. permits s' b = permits s b)"
proof -
  from c have run: "state_of s (current s) = Running" "current s \<noteq> IDLE_SLOT" "\<not> t_sem_granted (tasks s ! current s)" "next_switch_sequence s < U64_MAX"
    by (simp_all add: in_task_def)
  note l = mutex_lock_spec [OF inv m run, of timeout now]
  show ?thesis
  proof (cases "mx_owner m = current s \<and> mx_depth m = U32_MAX")
    case True
    with l inv show ?thesis by auto
  next
    case a: False
    show ?thesis
    proof (cases "mx_owner m = current s \<or> mx_owner m = NIL")
      case True
      have "\<exists>s'. mutex_lock True True a timeout now s = Some (Inr (Some True, None), s')
        \<and> s' = s\<lparr>mutex_mem := (mutex_mem s)(a \<mapsto> m\<lparr>mx_owner := current s, mx_depth := mx_depth m + 1\<rparr>)\<rparr> \<and> kernel_inv s' Q S M"
        using l unfolding if_not_P [OF a] if_P [OF True] .
      then obtain s' where "mutex_lock True True a timeout now s = Some (Inr (Some True, None), s')" "kernel_inv s' Q S M"
        "s' = s\<lparr>mutex_mem := (mutex_mem s)(a \<mapsto> m\<lparr>mx_owner := current s, mx_depth := mx_depth m + 1\<rparr>)\<rparr>" by blast
      moreover from this(3) have "permits s' b = permits s b" for b by (intro permits_map) simp_all
      ultimately show ?thesis by blast
    next
      case False
      note l' = l [unfolded if_not_P [OF a] if_not_P [OF False]]
      show ?thesis
      proof (cases "timeout = 0")
        case True
        have "mutex_lock True True a timeout now s = Some (Inr (Some False, None), s)" using l' unfolding if_P [OF True] .
        with inv show ?thesis by blast
      next
        case t: False
        note l2 = l' [unfolded if_not_P [OF t]]
        show ?thesis
        proof (cases "t_scheduler_lock_depth (tasks s ! current s) \<noteq> 0 \<or> (mx_owner m, current s) \<in> (wait_edges s)\<^sup>*")
          case True
          from l2 inv show ?thesis unfolding if_P [OF True] by blast
        next
          case False
          from l2 show ?thesis unfolding if_not_P [OF False] by blast
        qed
      qed
    qed
  qed
qed

text \<open>The event returns, keeps the kernel consistent and accounts for every permit.\<close>

definition step_ok :: "kernel_event \<Rightarrow> sched \<Rightarrow> bool" where
  "step_ok e s \<longleftrightarrow> (\<exists>got s' Q' S' M'. kernel_apply e s = Some (got, s') \<and> kernel_inv s' Q' S' M'
     \<and> (\<forall>b. b \<noteq> 0 \<longrightarrow> permits s' b = permits s b + gives b e - (if got then takes b e else 0)))"

lemma step_okI:
  assumes "kernel_apply e s = Some (got, s')" "kernel_inv s' Q' S' M'"
    "\<And>b. b \<noteq> 0 \<Longrightarrow> permits s' b = permits s b + gives b e - (if got then takes b e else 0)"
  shows "step_ok e s"
  using assms unfolding step_ok_def by blast

text \<open>An event that hands out no permit.\<close>

lemma step_ok_quiet:
  assumes "\<exists>r s' Q' S' M'. f = Some (r, s') \<and> kernel_inv s' Q' S' M' \<and> (\<forall>b. b \<noteq> 0 \<longrightarrow> permits s' b = permits s b)"
    "kernel_apply e s = map_option (\<lambda>(_, s). (False, s)) f" "\<And>b. gives b e = 0"
  shows "step_ok e s"
  using assms by (auto intro!: step_okI [of e s False])

lemma step_up:
  assumes inv: "kernel_inv s Q S M" and en: "enabled (Up depth a now) s"
  shows "step_ok (Up depth a now) s"
proof -
  from en obtain st where st: "sem_mem s a = Some st" "permits s a < I32_MAX" by auto
  then have "sm_count st < I32_MAX" by (simp add: permits_def)
  from semaphore_up_spec [OF inv st(1) this, of depth now] obtain r s' Q' S' where
    "semaphore_up depth a now s = Some (r, s')" "kernel_inv s' Q' S' M" "\<forall>b. b \<noteq> 0 \<longrightarrow> permits s' b = permits s b + of_bool (b = a)" by blast
  then show ?thesis by (intro step_okI [of _ s False s' Q' S' M]) auto
qed

lemma step_down:
  assumes inv: "kernel_inv s Q S M" and en: "enabled (Down a timeout now) s"
  shows "step_ok (Down a timeout now) s"
proof -
  from en obtain st where st: "in_task s" "sem_mem s a = Some st" by auto
  note spec = down_timeout_spec [OF inv st, of timeout now]
  show ?thesis
  proof (cases "0 < sm_count st")
    case True
    then obtain s' where "semaphore_down_timeout True True a timeout now s = Some (Inr (Some True, None), s')" "kernel_inv s' Q S M"
      "\<forall>b. permits s' b = permits s b - of_bool (b = a)" using spec unfolding if_P [OF True] by blast
    then show ?thesis by (intro step_okI [of _ s True s' Q S M]) auto
  next
    case False
    have "\<exists>r s' Q' S'. semaphore_down_timeout True True a timeout now s = Some (r, s') \<and> r \<noteq> Inr (Some True, None)
      \<and> kernel_inv s' Q' S' M \<and> (\<forall>b. permits s' b = permits s b)"
    proof (cases "timeout = 0")
      case True
      with spec False inv show ?thesis by auto
    next
      case t: False
      note s2 = spec [unfolded if_not_P [OF False] if_not_P [OF t]]
      show ?thesis
      proof (cases "t_scheduler_lock_depth (tasks s ! current s) \<noteq> 0")
        case True
        with s2 inv show ?thesis by auto
      next
        case l: False
        with s2 show ?thesis unfolding if_not_P [OF l] by blast
      qed
    qed
    then obtain r s' Q' S' where "semaphore_down_timeout True True a timeout now s = Some (r, s')" "r \<noteq> Inr (Some True, None)"
      "kernel_inv s' Q' S' M" "\<forall>b. permits s' b = permits s b" by blast
    then show ?thesis by (intro step_okI [of _ s False s' Q' S' M]) auto
  qed
qed

lemma step_down_resumed:
  assumes inv: "kernel_inv s Q S M" and en: "enabled (DownResumed a) s"
  shows "step_ok (DownResumed a) s"
proof -
  from en have g: "t_granted_mutex (tasks s ! current s) = 0" "t_granted_sem (tasks s ! current s) \<in> {0, a}" by auto
  from semaphore_down_resumed_spec [OF inv g(1)] obtain s' where
    r: "semaphore_down_resumed s = Some (t_granted_sem (tasks s ! current s) \<noteq> 0, s')" "kernel_inv s' Q S M"
      "\<forall>b. b \<noteq> 0 \<longrightarrow> permits s' b = permits s b - of_bool (t_granted_sem (tasks s ! current s) = b)" by blast
  have "permits s' b = permits s b - (if t_granted_sem (tasks s ! current s) \<noteq> 0 then of_bool (b = a) else 0)" if "b \<noteq> 0" for b
    using r(3) that g(2) by auto
  with r(1,2) show ?thesis by (intro step_okI [of _ s "t_granted_sem (tasks s ! current s) \<noteq> 0" s' Q S M]) auto
qed

lemma step_lock:
  assumes inv: "kernel_inv s Q S M" and en: "enabled (Lock a timeout now) s"
  shows "step_ok (Lock a timeout now) s"
proof -
  from en obtain m where m: "in_task s" "mutex_mem s a = Some m" by auto
  show ?thesis by (rule step_ok_quiet [of "mutex_lock True True a timeout now s"]) (use lock_step [OF inv m, of timeout now] in blast, simp_all)
qed

lemma step_lock_resumed:
  assumes inv: "kernel_inv s Q S M" and en: "enabled LockResumed s"
  shows "step_ok LockResumed s"
proof -
  from en have "t_granted_sem (tasks s ! current s) = 0" by simp
  from lock_resumed_spec [OF inv this] show ?thesis by (intro step_ok_quiet [of "mutex_lock_resumed s"]) (blast, simp_all)
qed

lemma step_unlock:
  assumes inv: "kernel_inv s Q S M" and en: "enabled (Unlock depth a now) s"
  shows "step_ok (Unlock depth a now) s"
proof -
  from en obtain m where m: "in_task s" "mutex_mem s a = Some m" by auto
  show ?thesis by (rule step_ok_quiet [of "mutex_unlock depth a now s"]) (use unlock_step [OF inv m, of depth now] in blast, simp_all)
qed

lemma step_cancel:
  assumes inv: "kernel_inv s Q S M" and en: "enabled (Cancel task now) s"
  shows "step_ok (Cancel task now) s"
proof -
  from en have c: "task < TASK_SLOT_COUNT"
    "t_granted_sem (tasks s ! task) \<noteq> 0 \<Longrightarrow> permits s (t_granted_sem (tasks s ! task)) \<le> I32_MAX" by auto
  show ?thesis by (rule step_ok_quiet [of "cancel_wait_locked task now s"]) (use cancel_wait_spec [OF inv c, of now] in blast, simp_all)
qed

lemma step_sleep:
  assumes inv: "kernel_inv s Q S M" and en: "enabled (Sleep wake_at) s"
  shows "step_ok (Sleep wake_at) s"
proof -
  from en have c: "in_task s" by simp
  have "\<exists>r s' Q' S' M'. sleep_locked True wake_at s = Some (r, s') \<and> kernel_inv s' Q' S' M' \<and> (\<forall>b. b \<noteq> 0 \<longrightarrow> permits s' b = permits s b)"
  proof (cases "t_scheduler_lock_depth (tasks s ! current s) \<noteq> 0")
    case True
    from sleep_spec [OF inv c, of wake_at] inv show ?thesis unfolding if_P [OF True] by blast
  next
    case False
    from sleep_spec [OF inv c, of wake_at] show ?thesis unfolding if_not_P [OF False] by blast
  qed
  then show ?thesis by (rule step_ok_quiet) simp_all
qed

lemma step_yield:
  assumes inv: "kernel_inv s Q S M" and en: "enabled (Yield now) s"
  shows "step_ok (Yield now) s"
proof -
  from en have c: "state_of s (current s) = Running" "next_switch_sequence s < U64_MAX" "now \<le> U64_MAX" by simp_all
  have "\<exists>r s' Q' S' M'. yield_locked True now s = Some (r, s') \<and> kernel_inv s' Q' S' M' \<and> (\<forall>b. b \<noteq> 0 \<longrightarrow> permits s' b = permits s b)"
  proof (cases "t_scheduler_lock_depth (tasks s ! current s) \<noteq> 0")
    case True
    from yield_spec [OF inv c] inv show ?thesis unfolding if_P [OF True] by blast
  next
    case False
    from yield_spec [OF inv c] show ?thesis unfolding if_not_P [OF False] by blast
  qed
  then show ?thesis by (rule step_ok_quiet) simp_all
qed

lemma step_tick:
  assumes inv: "kernel_inv s Q S M" and en: "enabled (Tick now limit) s"
  shows "step_ok (Tick now limit) s"
proof -
  from en have c: "now \<le> U64_MAX" "spec (t_budget (tasks s ! IDLE_SLOT)) = None" by auto
  from on_timer_spec [OF inv c, of limit] obtain v s' where "on_timer now limit s = Some (v, s')" "served s s'" by blast
  with inv have "\<exists>r s' Q' S' M'. on_timer now limit s = Some (r, s') \<and> kernel_inv s' Q' S' M' \<and> (\<forall>b. b \<noteq> 0 \<longrightarrow> permits s' b = permits s b)"
    unfolding served_def by blast
  then show ?thesis by (rule step_ok_quiet) simp_all
qed

lemma step_trap:
  assumes inv: "kernel_inv s Q S M" and en: "enabled (Trap frame now) s"
  shows "step_ok (Trap frame now) s"
proof -
  from en have c: "now \<le> U64_MAX" "frame \<noteq> 0" by auto
  note k = kernel_invD [OF inv]
  from kernel_trap [OF inv c] obtain f s' Q' where r: "schedule_from_trap frame 0 now s = Some (f, s')" "kernel_inv s' Q' S M" by blast
  have "calm s s'" by (rule calm_trap [OF k(2) r(1)]) (use k(4) in auto)
  from permits_calm [OF this k(7)] r show ?thesis by (intro step_ok_quiet [of "schedule_from_trap frame 0 now s"]) (blast, simp_all)
qed

lemma step_unlocked:
  assumes inv: "kernel_inv s Q S M" and en: "enabled (SchedUnlock now) s"
  shows "step_ok (SchedUnlock now) s"
proof -
  from en have "state_of s (current s) = Running" "next_switch_sequence s < U64_MAX" "lock_ok (tasks s ! current s)"
    "spec (t_budget (tasks s ! IDLE_SLOT)) = None" by auto
  from sched_unlock_spec [OF inv this, of now] show ?thesis by (intro step_ok_quiet [of "unlock_preempt True now s"]) (blast, simp_all)
qed

lemma step_set_priority:
  assumes inv: "kernel_inv s Q S M" and en: "enabled (SetPriority slot priority) s"
  shows "step_ok (SetPriority slot priority) s"
proof -
  from en have c: "slot < TASK_SLOT_COUNT" "priority < PRIORITY_LEVELS" by auto
  from set_priority_spec [OF inv c] obtain s' Q' S' M' where
    r: "refresh_inherited_priority slot 0 (mod_task slot (\<lambda>t. t\<lparr>t_base_priority := priority\<rparr>) s) = Some s'" "kernel_inv s' Q' S' M'"
      "\<forall>b. permits s' b = permits s b" by blast
  then show ?thesis using c(1) kernel_invD(7) [OF inv] by (intro step_okI [of _ s False s' Q' S' M']) simp_all
qed

lemma step_set_policy:
  assumes inv: "kernel_inv s Q S M" and en: "enabled (SetPolicy slot policy now) s"
  shows "step_ok (SetPolicy slot policy now) s"
proof -
  from en have c: "slot < TASK_SLOT_COUNT" "policy_ok policy" "now \<le> U64_MAX" by auto
  from set_run_policy_spec [OF inv c] obtain s' Q' where
    "set_run_policy slot policy now s = Some s'" "kernel_inv s' Q' S M" "\<forall>b. permits s' b = permits s b" by blast
  then show ?thesis by (intro step_okI [of _ s False s' Q' S M]) simp_all
qed

lemma step_spawn:
  assumes inv: "kernel_inv s Q S M" and en: "enabled (Spawn i ctx frame stack bytes entry arg priority policy now) s"
  shows "step_ok (Spawn i ctx frame stack bytes entry arg priority policy now) s"
proof -
  from en have c: "state_of s (current s) = Running" "vacant s i" "frame \<noteq> 0" "priority < PRIORITY_LEVELS" "policy_ok policy" by auto
  from spawn_place_spec [OF inv c, of ctx stack bytes entry arg now] obtain s' Q' where
    "spawn_place i (spawn_tcb ctx (Some frame) stack bytes entry arg priority policy now) now s = Some s'" "kernel_inv s' Q' S M"
    "\<forall>b. permits s' b = permits s b" by blast
  then show ?thesis by (intro step_okI [of _ s False s' Q' S M]) auto
qed

lemma step_exit:
  assumes inv: "kernel_inv s Q S M" and en: "enabled Exit s"
  shows "step_ok Exit s"
proof -
  from en have c: "state_of s (current s) = Running" "current s \<noteq> IDLE_SLOT" "\<not> t_sem_granted (tasks s ! current s)"
    "next_switch_sequence s < U64_MAX" "t_scheduler_lock_depth (tasks s ! current s) = 0"
    "t_inherited_waiters (tasks s ! current s) = replicate PRIORITY_LEVELS 0" "retired_count s < TASK_SLOT_COUNT" by (simp_all add: in_task_def)
  from exit_spec [OF inv c] show ?thesis by (intro step_ok_quiet [of "task_exit_locked True s"]) (blast, simp_all)
qed

lemma step_new_sem: "kernel_inv s Q S M \<Longrightarrow> enabled (NewSem a n) s \<Longrightarrow> step_ok (NewSem a n) s"
  using kernel_new_sem [of s Q S M a n] by (intro step_okI [of _ s False "write_sem n a s" Q S M]) auto

lemma step_new_mutex: "kernel_inv s Q S M \<Longrightarrow> enabled (NewMutex a) s \<Longrightarrow> step_ok (NewMutex a) s"
  using kernel_new_mutex [of s Q S M a] by (intro step_okI [of _ s False "write_mutex a s" Q S M]) auto

lemma step_free_sem: "kernel_inv s Q S M \<Longrightarrow> enabled (FreeSem a n) s \<Longrightarrow> step_ok (FreeSem a n) s"
  using kernel_free_unused_sem [of s Q S M a] by (intro step_okI [of _ s False "free_sem a s" Q S M]) auto

lemma step_free_mutex: "kernel_inv s Q S M \<Longrightarrow> enabled (FreeMutex a) s \<Longrightarrow> step_ok (FreeMutex a) s"
  using kernel_free_unused_mutex [of s Q S M a] by (intro step_okI [of _ s False "free_mutex a s" Q S M]) auto

lemma step_locked:
  assumes inv: "kernel_inv s Q S M" and en: "enabled (SchedLock now) s"
  shows "step_ok (SchedLock now) s"
proof -
  from en have "state_of s (current s) = Running" by simp
  from sched_lock_spec [OF inv this, of now] show ?thesis by (intro step_ok_quiet [of "lock_current now s"]) (blast, simp_all)
qed

lemmas kernel_steps = step_up step_down step_down_resumed step_lock step_lock_resumed step_unlock step_cancel step_sleep step_tick
  step_trap step_new_sem step_new_mutex step_free_sem step_free_mutex step_locked step_unlocked step_yield step_set_priority
  step_set_policy step_spawn step_exit

lemma kernel_step_spec:
  assumes "kernel_inv s Q S M" "enabled e s"
  shows "\<exists>got s' Q' S' M'. kernel_apply e s = Some (got, s') \<and> kernel_inv s' Q' S' M'
    \<and> (\<forall>b. b \<noteq> 0 \<longrightarrow> permits s' b = permits s b + gives b e - (if got then takes b e else 0))"
  unfolding step_ok_def [symmetric] using assms(2) by (cases e) (auto simp del: enabled.simps intro: kernel_steps [OF assms(1)])

subsection \<open>Runs\<close>

text \<open>A trace is a list of events with the flag each one returned.\<close>

inductive kernel_run :: "sched \<Rightarrow> (kernel_event \<times> bool) list \<Rightarrow> sched \<Rightarrow> bool" for s0 where
  boot: "kernel_run s0 [] s0"
| step: "kernel_run s0 es s \<Longrightarrow> enabled e s \<Longrightarrow> kernel_apply e s = Some (got, s') \<Longrightarrow> kernel_run s0 (es @ [(e, got)]) s'"

inductive_cases kernel_run_emptyE: "kernel_run s0 [] s"

definition given :: "nat \<Rightarrow> (kernel_event \<times> bool) list \<Rightarrow> int" where
  "given b es = (\<Sum>(e, got) \<leftarrow> es. gives b e)"

definition acquired :: "nat \<Rightarrow> (kernel_event \<times> bool) list \<Rightarrow> int" where
  "acquired b es = (\<Sum>(e, got) \<leftarrow> es. if got then takes b e else 0)"

lemma kernel_run_inv:
  assumes "kernel_run s0 es s" "kernel_inv s0 Q0 S0 M0"
  shows "(\<exists>Q S M. kernel_inv s Q S M) \<and> (\<forall>b. b \<noteq> 0 \<longrightarrow> permits s b = permits s0 b + given b es - acquired b es)"
  using assms(1)
proof (induction rule: kernel_run.induct)
  case boot
  then show ?case using assms(2) by (auto simp: given_def acquired_def)
next
  case (step es s e got s')
  then obtain Q S M where "kernel_inv s Q S M" by blast
  from kernel_step_spec [OF this step.hyps(2)] step.hyps(3) obtain Q' S' M' where
    "kernel_inv s' Q' S' M'" "\<forall>b. b \<noteq> 0 \<longrightarrow> permits s' b = permits s b + gives b e - (if got then takes b e else 0)" by auto
  with step.IH show ?case by (auto simp: given_def acquired_def)
qed

end
