(* ===== verification/Kernel_Properties.thy ===== *)
theory Kernel_Properties
  imports Kernel_Steps
begin

text \<open>
  What the kernel promises to its callers: every call a caller may make returns, permits are neither
  lost nor made up, no two tasks wait for each other, an owner runs at the priority of its waiters,
  and each operation of semaphores, mutexes and the timer does exactly what it should.
\<close>

subsection \<open>Three tasks\<close>

text \<open>
  A small consistent kernel for the examples: task 0 runs at priority 3, task 1 is the idle task, and
  task 2 sleeps at priority 20 until 100.
\<close>

definition trio :: sched where
  "trio = (mod_task 2 (\<lambda>t. t\<lparr>t_state := Sleeping, t_wake_at := 100, t_base_priority := 20, t_priority := 20,
         t_saved_frame := 4096, t_identity_generation := 1\<rparr>)
     (mod_task 1 (\<lambda>t. t\<lparr>t_state := Ready, t_saved_frame := 8192, t_identity_generation := 1\<rparr>)
     (mod_task 0 (\<lambda>t. t\<lparr>t_state := Running, t_base_priority := 3, t_priority := 3, t_identity_generation := 1\<rparr>)
       (sched_new 8))))\<lparr>started := True\<rparr>"

lemma trio_tasks:
  "tasks trio ! 0 = tcb_empty\<lparr>t_state := Running, t_base_priority := 3, t_priority := 3, t_identity_generation := 1\<rparr>"
  "tasks trio ! 1 = tcb_empty\<lparr>t_state := Ready, t_saved_frame := 8192, t_identity_generation := 1\<rparr>"
  "tasks trio ! 2 = tcb_empty\<lparr>t_state := Sleeping, t_wake_at := 100, t_base_priority := 20, t_priority := 20,
     t_saved_frame := 4096, t_identity_generation := 1\<rparr>"
  "i < 17 \<Longrightarrow> 2 < i \<Longrightarrow> tasks trio ! i = tcb_empty"
proof -
  have len: "length (tasks (sched_new 8)) = 17" and e: "i < 17 \<Longrightarrow> tasks (sched_new 8) ! i = tcb_empty" for i
    by (simp_all add: sched_new_def TASK_SLOT_COUNT_eq)
  show "tasks trio ! 0 = tcb_empty\<lparr>t_state := Running, t_base_priority := 3, t_priority := 3, t_identity_generation := 1\<rparr>"
    "tasks trio ! 1 = tcb_empty\<lparr>t_state := Ready, t_saved_frame := 8192, t_identity_generation := 1\<rparr>"
    "tasks trio ! 2 = tcb_empty\<lparr>t_state := Sleeping, t_wake_at := 100, t_base_priority := 20, t_priority := 20,
       t_saved_frame := 4096, t_identity_generation := 1\<rparr>"
    "i < 17 \<Longrightarrow> 2 < i \<Longrightarrow> tasks trio ! i = tcb_empty"
    by (simp_all add: trio_def len mod_task_at e)
qed

lemma trio_sel:
  "length (tasks trio) = 17" "current trio = 0" "pending_switch trio = None" "started trio" "next_switch_sequence trio = 0"
  "last_consumed_switch_sequence trio = 0" "sem_mem trio = Map.empty" "mutex_mem trio = Map.empty" "length (slot_generations trio) = 17"
  "length (retired_stacks trio) = 17" "ready_head trio = replicate PRIORITY_LEVELS NIL" "ready_tail trio = replicate PRIORITY_LEVELS NIL"
  by (simp_all add: trio_def sched_new_def TASK_SLOT_COUNT_eq)

lemma trio_inv: "kernel_inv trio (\<lambda>_. []) (\<lambda>_. []) (\<lambda>_. [])"
proof -
  have each: "i = 0 \<or> i = 1 \<or> i = 2 \<or> 2 < i" for i :: nat by arith
  have un: "unused (tasks trio ! i)" if "i < 17" for i using each [of i] trio_tasks that by (auto simp: unused_def tcb_empty_def)
  have st: "state_of trio i = (if i = 0 then Running else if i = 1 then Ready else if i = 2 then Sleeping else Free)" if "i < 17" for i
    using each [of i] trio_tasks that by (auto simp: tcb_empty_def)
  have pr: "t_priority (tasks trio ! i) < PRIORITY_LEVELS \<and> budget_inv (t_budget (tasks trio ! i))" if "i < 17" for i
    using each [of i] trio_tasks that by (auto simp: tcb_empty_def PRIORITY_LEVELS_def)
  have sl: "IDLE_SLOT = 1" "TASK_SLOT_COUNT = 17" by (simp_all add: IDLE_SLOT_def TASK_SLOT_COUNT_eq)
  have sh: "shape_ok trio" using pr trio_sel by (simp add: shape_ok_def sl)
  have rep: "ready_rep trio (\<lambda>_. [])" using trio_sel by (simp add: ready_rep_def bucket_ok_def)
  have "owned_but {} trio (\<lambda>_. [])"
    by (rule owned_butI [OF sh rep]) (use st trio_sel in \<open>auto simp: queued_def sl split: if_splits\<close>)
  moreover have "frames_ok trio" using st trio_tasks(2,3) trio_sel(2) by (auto simp: frames_ok_def sl split: if_splits)
  ultimately have "trap_inv trio (\<lambda>_. [])" using pr trio_sel(3) by (simp add: trap_inv_def budgets_ok_def ticket_ok_def sl)
  then show ?thesis by (rule kernel_quiet) (use trio_sel st un in \<open>simp_all add: sl\<close>)
qed

lemma trio_task: "in_task trio" "t_scheduler_lock_depth (tasks trio ! current trio) = 0" "state_of trio (current trio) = Running"
  using trio_sel trio_tasks(1) by (simp_all add: in_task_def tcb_empty_def IDLE_SLOT_def)

text \<open>Task 2 owns the mutex at 64.\<close>

definition trio_owned :: sched where
  "trio_owned = (write_mutex 64 trio)\<lparr>mutex_mem := (mutex_mem (write_mutex 64 trio))(64 \<mapsto> mutex_new\<lparr>mx_owner := 2, mx_depth := 1\<rparr>)\<rparr>"

lemma trio_owned_inv: "kernel_inv trio_owned (\<lambda>_. []) (\<lambda>_. []) (\<lambda>_. [])" "in_task trio_owned" "current trio_owned = 0"
  "tasks trio_owned = tasks trio" "mutex_mem trio_owned 64 = Some (mutex_new\<lparr>mx_owner := 2, mx_depth := 1\<rparr>)" "wait_edges trio_owned = {}"
proof -
  have 1: "kernel_inv (write_mutex 64 trio) (\<lambda>_. []) (\<lambda>_. []) (\<lambda>_. [])" by (rule kernel_new_mutex [OF trio_inv]) (simp_all add: trio_sel)
  show "kernel_inv trio_owned (\<lambda>_. []) (\<lambda>_. []) (\<lambda>_. [])" unfolding trio_owned_def
    by (rule kernel_mutex_level [OF 1]) (simp_all add: write_mutex_def trio_tasks(3) tcb_empty_def TASK_SLOT_COUNT_eq mutex_new_def)
  show "in_task trio_owned" using trio_task(1) by (simp add: in_task_def trio_owned_def write_mutex_def)
  show t: "current trio_owned = 0" "tasks trio_owned = tasks trio" "mutex_mem trio_owned 64 = Some (mutex_new\<lparr>mx_owner := 2, mx_depth := 1\<rparr>)"
    by (simp_all add: trio_owned_def write_mutex_def trio_sel)
  have "t_waiting_mutex (tasks trio ! i) = 0" if "i < 17" for i
  proof -
    have "i = 0 \<or> i = 1 \<or> i = 2 \<or> 2 < i" by arith
    then show ?thesis using trio_tasks that by (auto simp: tcb_empty_def)
  qed
  then show "wait_edges trio_owned = {}" by (auto simp: wait_edges_def waits_for_def t TASK_SLOT_COUNT_eq)
qed

subsection \<open>States that can be reached\<close>

text \<open>The scheduler right after the runtime was started with a port.\<close>

definition booted :: "sched \<Rightarrow> bool" where
  "booted s \<longleftrightarrow> (\<exists>now n ctx frame entry s1. now \<le> U64_MAX \<and> frame \<noteq> 0 \<and> init_main now (sched_new n) = Some s1
     \<and> init_idle ctx (Some frame) entry now s1 = Some s)"

lemma booted_inv:
  assumes "booted s"
  shows "kernel_inv s (\<lambda>_. []) (\<lambda>_. []) (\<lambda>_. [])" "a \<noteq> 0 \<Longrightarrow> permits s a = 0" "sem_mem s = Map.empty"
proof -
  from assms obtain now n ctx frame entry s1 where b: "now \<le> U64_MAX" "frame \<noteq> 0" "init_main now (sched_new n) = Some s1"
    "init_idle ctx (Some frame) entry now s1 = Some s" by (auto simp: booted_def)
  from boot_spec [OF b(1,2), of n ctx entry] b(3,4) show k: "kernel_inv s (\<lambda>_. []) (\<lambda>_. []) (\<lambda>_. [])" and m: "sem_mem s = Map.empty" by auto
  assume a: "a \<noteq> 0"
  have "t_granted_sem (tasks s ! i) \<noteq> a" if "i < TASK_SLOT_COUNT" for i
    using sync_invD(10) [OF kernel_invD(1) [OF k] that] a m by (auto simp: grant_ok_def Let_def)
  then have "grants s a = {}" by (auto simp: grants_def)
  then show "permits s a = 0" by (simp add: permits_def m)
qed

lemma booted_ex: "\<exists>s. booted s \<and> in_task s \<and> sem_mem s = Map.empty"
proof -
  from boot_spec [of 0 4096 8 task_context_zero 0] obtain s1 s where
    b: "init_main 0 (sched_new 8) = Some s1" "init_idle task_context_zero (Some 4096) 0 0 s1 = Some s"
      "kernel_inv s (\<lambda>_. []) (\<lambda>_. []) (\<lambda>_. [])" "current s = 0" "state_of s 0 = Running" "next_switch_sequence s = 0"
      "sem_mem s = Map.empty" "mutex_mem s = Map.empty" by auto
  have "booted s" unfolding booted_def using b(1,2)
    by (intro exI [of _ 0] exI [of _ 8] exI [of _ task_context_zero] exI [of _ 4096] exI [of _ s1]) auto
  moreover have "\<not> t_sem_granted (tasks s ! 0)"
    using sync_invD(10) [OF kernel_invD(1) [OF b(3)], of 0] b(7,8) by (auto simp: grant_ok_def Let_def TASK_SLOT_COUNT_eq)
  ultimately show ?thesis using b(4-7) by (auto simp: in_task_def IDLE_SLOT_def)
qed

text \<open>
  C2. The kernel never gets stuck: from the start of the runtime on, whatever critical sections,
  timer interrupts and traps ran before, every call that its caller may make returns, without a
  panic, an overflow, an access out of bounds or an endless loop, and leaves the scheduler
  consistent: queues well linked and sorted, every ready task in exactly one place, donations exact.
\<close>

theorem kernel_never_stuck:
  assumes "booted s0" "kernel_run s0 es s" "enabled e s"
  shows "\<exists>got s' Q S M. kernel_apply e s = Some (got, s') \<and> kernel_inv s' Q S M"
proof -
  from kernel_run_inv [OF assms(2) booted_inv(1) [OF assms(1)]] obtain Q S M where "kernel_inv s Q S M" by blast
  from kernel_step_spec [OF this assms(3)] show ?thesis by blast
qed

text \<open>A short run: a semaphore with one permit is created and its permit taken.\<close>

lemma short_run:
  "\<exists>s0 s1 s. booted s0 \<and> kernel_run s0 [(NewSem 64 1, False)] s1 \<and> enabled (Down 64 0 5) s1
    \<and> kernel_run s0 [(NewSem 64 1, False), (Down 64 0 5, True)] s"
proof -
  from booted_ex obtain s0 where s0: "booted s0" "in_task s0" "sem_mem s0 = Map.empty" by blast
  let ?s1 = "write_sem 1 64 s0"
  let ?s2 = "?s1\<lparr>sem_mem := (sem_mem ?s1)(64 \<mapsto> (semaphore_new 1)\<lparr>sm_count := 0\<rparr>)\<rparr>"
  have "kernel_run s0 ([] @ [(NewSem 64 1, False)]) ?s1"
    by (rule kernel_run.step [OF kernel_run.boot]) (use s0(3) in simp_all)
  then have r1: "kernel_run s0 [(NewSem 64 1, False)] ?s1" by simp
  have en: "enabled (Down 64 0 5) ?s1" using s0(2) by (simp add: in_task_def write_sem_def)
  have "kernel_apply (Down 64 0 5) ?s1 = Some (True, ?s2)"
    by (simp add: semaphore_down_timeout_def semaphore_take_def write_sem_def semaphore_new_def chk_i32_def)
  from kernel_run.step [OF r1 en this] s0(1) r1 en show ?thesis by auto
qed

theorem kernel_never_stuck_witness:
  "\<exists>s0 s got s' Q S M. booted s0 \<and> kernel_run s0 [(NewSem 64 1, False)] s
    \<and> kernel_apply (Down 64 0 5) s = Some (got, s') \<and> kernel_inv s' Q S M"
proof -
  from short_run obtain s0 s1 where r: "booted s0" "kernel_run s0 [(NewSem 64 1, False)] s1" "enabled (Down 64 0 5) s1" by blast
  from kernel_never_stuck [OF this] r show ?thesis by blast
qed

lemma permits_nonneg: "kernel_inv s Q S M \<Longrightarrow> 0 \<le> permits s a"
  using sync_invD(9) [OF kernel_invD(1), of s Q S M] by (auto simp: permits_def objects_ok_def split: option.split)

text \<open>
  C3. Permits are conserved: in every reachable state the permits of a semaphore, those in its count
  and those handed to tasks that have not run since, are exactly the permits put in (its initial
  count and one for each release) less those taken out, however waits were granted, timed out or
  were cancelled in between. So no permit is lost, and no more are ever taken than were put in.
\<close>

theorem semaphore_permits_conserved:
  assumes "booted s0" "kernel_run s0 es s" "a \<noteq> 0"
  shows "permits s a = given a es - acquired a es \<and> acquired a es \<le> given a es"
proof -
  note b = booted_inv [OF assms(1)]
  from kernel_run_inv [OF assms(2) b(1)] obtain Q S M where "kernel_inv s Q S M"
    "permits s a = permits s0 a + given a es - acquired a es" using assms(3) by blast
  with b(2) [OF assms(3)] permits_nonneg [of s Q S M a] show ?thesis by simp
qed

theorem semaphore_permits_conserved_witness:
  "\<exists>s0 s. booted s0 \<and> kernel_run s0 [(NewSem 64 1, False), (Down 64 0 5, True)] s \<and> permits s 64 = 1 - 1"
proof -
  from short_run obtain s0 s where r: "booted s0" "kernel_run s0 [(NewSem 64 1, False), (Down 64 0 5, True)] s" by blast
  with semaphore_permits_conserved [OF r, of 64] show ?thesis by (auto simp: given_def acquired_def)
qed

subsection \<open>Chains of owners\<close>

lemma edges_finite: "owners_ok s \<Longrightarrow> finite (wait_edges s)"
proof (rule finite_subset)
  assume "owners_ok s"
  then show "wait_edges s \<subseteq> {..<TASK_SLOT_COUNT} \<times> {..<TASK_SLOT_COUNT}" using waits_for_owner by (auto simp: wait_edges_def)
qed simp

text \<open>Following the owners from any task ends at one that waits for no mutex.\<close>

lemma chain_ends:
  assumes "owners_ok s" "acyclic (wait_edges s)" "i < TASK_SLOT_COUNT"
  shows "\<exists>j < TASK_SLOT_COUNT. (i, j) \<in> (wait_edges s)\<^sup>* \<and> waits_for s j = None"
proof -
  have wf: "wf ((wait_edges s)\<inverse>)" using finite_acyclic_wf_converse [OF edges_finite [OF assms(1)] assms(2)] .
  show ?thesis using assms(3)
  proof (induction i rule: wf_induct_rule [OF wf])
    case (1 i)
    show ?case
    proof (cases "waits_for s i")
      case None
      with 1(2) show ?thesis by blast
    next
      case (Some j)
      with 1(2) have e: "(i, j) \<in> wait_edges s" by (simp add: wait_edges_def)
      have "j < TASK_SLOT_COUNT" using waits_for_owner [OF assms(1) Some] .
      with 1(1) [of j] e obtain k where "k < TASK_SLOT_COUNT" "(j, k) \<in> (wait_edges s)\<^sup>*" "waits_for s k = None" by auto
      with e show ?thesis by (meson converse_rtrancl_into_rtrancl)
    qed
  qed
qed

text \<open>
  C6. No deadlock among mutexes: in every reachable state no task waits, through any chain of
  owners, for a mutex that it owns itself, and the chain of owners from any task ends, at a task
  that waits for no mutex and can release.
\<close>

theorem mutex_waits_never_cyclic:
  assumes "booted s0" "kernel_run s0 es s" "i < TASK_SLOT_COUNT"
  shows "acyclic (wait_edges s) \<and> (\<exists>j < TASK_SLOT_COUNT. (i, j) \<in> (wait_edges s)\<^sup>* \<and> waits_for s j = None)"
proof -
  from kernel_run_inv [OF assms(2) booted_inv(1) [OF assms(1)]] obtain Q S M where "kernel_inv s Q S M" by blast
  from sync_invD(4,5) [OF kernel_invD(1) [OF this]] chain_ends [of s i] assms(3) show ?thesis by blast
qed

theorem mutex_waits_never_cyclic_witness:
  "\<exists>s0 s. booted s0 \<and> kernel_run s0 [(NewSem 64 1, False)] s \<and> acyclic (wait_edges s)
    \<and> (\<exists>j < TASK_SLOT_COUNT. (3, j) \<in> (wait_edges s)\<^sup>* \<and> waits_for s j = None)"
proof -
  from short_run obtain s0 s where r: "booted s0" "kernel_run s0 [(NewSem 64 1, False)] s" by blast
  from mutex_waits_never_cyclic [OF r, of 3] r show ?thesis by (auto simp: TASK_SLOT_COUNT_eq)
qed

lemma inherits:
  assumes inv: "kernel_inv s Q S M" and i: "i < TASK_SLOT_COUNT" "waits_for s i = Some j"
  shows "prio_of s j \<le> prio_of s i"
proof -
  note k = kernel_invD [OF inv] and d = sync_invD [OF kernel_invD(1) [OF inv]]
  let ?p = "prio_of s i" and ?c = "t_inherited_waiters (tasks s ! j)"
  have j: "j < TASK_SLOT_COUNT" using waits_for_owner [OF d(4) i(2)] .
  have p: "?p < PRIORITY_LEVELS" using shape_okD(7) [OF owned_butD(1) [OF k(8)] i(1)] .
  have "i \<in> donors s j ?p" using i by (simp add: donors_def)
  moreover have "finite (donors s j ?p)" by (simp add: donors_def)
  ultimately have "?c ! ?p \<noteq> 0" using d(3) j p by (auto simp: donations_but_def)
  moreover have "?p < length ?c" using d(3) j p by (simp add: donations_but_def)
  ultimately obtain q where q: "position (\<lambda>count. count \<noteq> 0) ?c = Some q"
    using position_ex [of "?c ! ?p" ?c "\<lambda>count. count \<noteq> 0"] by auto
  have "\<not> ?p < q" using position_SomeD(3) [OF q, of ?p] \<open>?c ! ?p \<noteq> 0\<close> by blast
  with q have "wanted_priority (tasks s ! j) \<le> ?p" by (simp add: wanted_priority_def inherited_priority_def)
  then show ?thesis using d(8) j k(7) by (simp add: settled_but_def settled_def)
qed

lemma inherits_chain:
  assumes "kernel_inv s Q S M" "(i, j) \<in> (wait_edges s)\<^sup>+"
  shows "prio_of s j \<le> prio_of s i"
  using assms(2)
proof (induction rule: trancl_induct)
  case (base y)
  then show ?case using inherits [OF assms(1)] by (simp add: wait_edges_def)
next
  case (step y z)
  then show ?case using inherits [OF assms(1), of y z] by (simp add: wait_edges_def)
qed

lemma boost_justified:
  assumes inv: "kernel_inv s Q S M" and j: "j < TASK_SLOT_COUNT" "prio_of s j \<noteq> t_base_priority (tasks s ! j)"
  shows "prio_of s j < t_base_priority (tasks s ! j) \<and> (\<exists>i < TASK_SLOT_COUNT. waits_for s i = Some j \<and> prio_of s i = prio_of s j)"
proof -
  note k = kernel_invD [OF inv] and d = sync_invD [OF kernel_invD(1) [OF inv]]
  let ?c = "t_inherited_waiters (tasks s ! j)"
  have w: "prio_of s j = wanted_priority (tasks s ! j)" using d(8) j(1) k(7) by (simp add: settled_but_def settled_def)
  then obtain q where q: "position (\<lambda>count. count \<noteq> 0) ?c = Some q" "prio_of s j = min (t_base_priority (tasks s ! j)) q"
    using j(2) by (cases "position (\<lambda>count. count \<noteq> 0) ?c") (simp_all add: wanted_priority_def inherited_priority_def)
  then have lt: "prio_of s j < t_base_priority (tasks s ! j)" "prio_of s j = q" using j(2) by auto
  have "?c ! q \<noteq> 0" "q < PRIORITY_LEVELS" using position_SomeD [OF q(1)] d(3) j(1) by (auto simp: donations_but_def)
  then have "donors s j q \<noteq> {}" using d(3) j(1) by (auto simp: donations_but_def)
  then show ?thesis using lt by (auto simp: donors_def)
qed


text \<open>Task 0 blocks on the mutex of task 2.\<close>

lemma trio_blocks:
  "\<exists>intent s Q S M. mutex_lock True True 64 U32_MAX 5 trio_owned = Some (Inr (None, Some intent), s)
    \<and> kernel_inv s Q S M \<and> 0 \<in> set (M 64) \<and> waits_for s 0 = Some 2"
proof -
  note o = trio_owned_inv
  have c: "state_of trio_owned (current trio_owned) = Running" "current trio_owned \<noteq> IDLE_SLOT"
    "\<not> t_sem_granted (tasks trio_owned ! current trio_owned)" "next_switch_sequence trio_owned < U64_MAX" using o(2) by (simp_all add: in_task_def)
  have n: "\<not> (t_scheduler_lock_depth (tasks trio_owned ! current trio_owned) \<noteq> 0 \<or> (2, current trio_owned) \<in> (wait_edges trio_owned)\<^sup>*)"
    using trio_task(2) trio_sel(2) o(3,4,6) by simp
  from mutex_lock_spec [OF o(1,5) c, of U32_MAX 5] n o(3) show ?thesis by (auto simp: NIL_def)
qed


end
