(* ===== verification/Startup.thy ===== *)
theory Startup
  imports Deadlines Kernel_Properties
begin

text \<open>
  Starting the runtime (\<open>start_inner\<close> and the entry points around it): it succeeds at most once,
  an installation that fails leaves no trace, and a successful start leaves a consistent kernel with
  the main task running and the timer programmed.
\<close>

lemma idle_top:
  assumes "e_idle_stack e + IDLE_STACK_SIZE \<le> USIZE_MAX"
  shows "\<exists>t. stack_top (e_idle_stack e) IDLE_STACK_SIZE = Some t \<and> TASK_CONTEXT_WORDS * 4 < t"
proof -
  have "stack_top (e_idle_stack e) IDLE_STACK_SIZE = Some ((e_idle_stack e + IDLE_STACK_SIZE) div 16 * 16)"
    using assms by (simp add: stack_top_def chk_add_def)
  moreover have "TASK_CONTEXT_WORDS * 4 < (e_idle_stack e + IDLE_STACK_SIZE) div 16 * 16"
    by (simp add: TASK_CONTEXT_WORDS_def IDLE_STACK_SIZE_def)
  ultimately show ?thesis by blast
qed

text \<open>The first call of \<open>init\<close> on a runtime with a port.\<close>

lemma init_spec:
  assumes st: "g_start g = Some st" "ported st" and s: "g_sched g = sched_new n"
    and e: "e_monotonic_ms e (g_reads g) \<le> U64_MAX" "e_idle_stack e + IDLE_STACK_SIZE \<le> USIZE_MAX"
  shows "\<exists>s' m. init e g = Some (g\<lparr>g_reads := g_reads g + 1, g_frames := m, g_sched := s'\<rparr>) \<and> booted s'
    \<and> current s' = 0 \<and> state_of s' 0 = Running"
proof -
  from idle_top [OF e(2)] obtain t where t: "stack_top (e_idle_stack e) IDLE_STACK_SIZE = Some t" "TASK_CONTEXT_WORDS * 4 < t" by blast
  let ?f = "t - TASK_CONTEXT_WORDS * 4" and ?now = "e_monotonic_ms e (g_reads g)"
  have f: "?f \<noteq> 0" using t(2) by simp
  from boot_spec [OF e(1) f, of n "initial_context e t" "e_idle_entry e"] obtain s1 s' where
    b: "init_main ?now (sched_new n) = Some s1" "init_idle (initial_context e t) (Some ?f) (e_idle_entry e) ?now s1 = Some s'"
      "current s' = 0" "state_of s' 0 = Running" by blast
  have bo: "booted s'" unfolding booted_def using e(1) f b(1,2) by blast
  have "\<not> started (sched_new n)" by (simp add: sched_new_def)
  then have "init e g = Some (g\<lparr>g_reads := g_reads g + 1,
      g_frames := (g_frames g)(?f \<mapsto> irq_frame_words t (e_trampoline e) (e_tp e) (e_fcsr e)), g_sched := s'\<rparr>)"
    using st s t b(1,2) by (simp add: init_def now_ms_def initialize_irq_frame_def chk_sub_def)
  with bo b(3,4) show ?thesis by blast
qed

text \<open>
  C32. The runtime starts once. A second start is refused and changes nothing; a start whose driver
  contract cannot be installed reports the failure and leaves everything as it was, so it can be
  tried again; any other start returns with a consistent kernel in which the main task runs, the
  timer was given exactly one command, and every later start, whatever its configuration, is refused.
\<close>

theorem runtime_starts_once:
  assumes "e_monotonic_ms e (g_reads g) \<le> U64_MAX" "e_idle_stack e + IDLE_STACK_SIZE \<le> USIZE_MAX" "0 < max_delay"
    "g_start g = None \<longrightarrow> g_sched g = sched_new n"
  shows "if g_start g \<noteq> None then start_with_port e config max_delay g = Some (Inl AlreadyStarted, g)
    else case e_install e of
      Some err \<Rightarrow> start_with_port e config max_delay g = Some (Inl (DriverFailure err), g)
    | None \<Rightarrow> \<exists>g' c. start_with_port e config max_delay g = Some (Inr (), g')
        \<and> kernel_inv (g_sched g') (\<lambda>_. []) (\<lambda>_. []) (\<lambda>_. []) \<and> current (g_sched g') = 0 \<and> state_of (g_sched g') 0 = Running
        \<and> g_calls g' = g_calls g @ [command_call c]
        \<and> (\<forall>config' storage port. start_inner e config' storage port g' = Some (Inl AlreadyStarted, g'))"
proof (cases "g_start g")
  case (Some st)
  then show ?thesis by (simp add: start_with_port_def start_inner_def)
next
  case None
  show ?thesis
  proof (cases "e_install e")
    case (Some err)
    then show ?thesis using None by (simp add: start_with_port_def start_inner_def)
  next
    case ok: None
    let ?st = "\<lparr>ss_config = ported_start_config config, ss_storage = None, ss_port = Some max_delay\<rparr>"
    let ?g = "g\<lparr>g_start := Some ?st\<rparr>"
    have "ported ?st" "g_sched ?g = sched_new n" using assms(4) None by (simp_all add: ported_def)
    from init_spec [of ?g ?st, OF _ this, of e] assms(1,2) obtain s m where
      i: "init e ?g = Some (?g\<lparr>g_reads := g_reads g + 1, g_frames := m, g_sched := s\<rparr>)" "booted s" "current s = 0" "state_of s 0 = Running" by auto
    let ?g1 = "?g\<lparr>g_reads := g_reads g + 1, g_frames := m, g_sched := s\<rparr>"
    note k = booted_inv(1) [OF i(2)]
    note o = owned_butD [OF kernel_invD(8) [OF k]]
    have "timer_ready ?g1 max_delay (pc_max_scheduler_lock_duration config) (\<lambda>_. [])"
      using assms(3) o(1,2) by (simp add: timer_ready_def ported_start_config_def)
    from rearm_timer_spec [OF this refl, of e] obtain q c where
      r: "rearm_timer e ?g1 = Some (?g1\<lparr>g_sched := s\<lparr>time_slice_deadline := q\<rparr>, g_timer_cell := g_timer_cell g + 1,
          g_reads := g_reads g + 1 + 1, g_calls := g_calls g @ [command_call c]\<rparr>)" by auto
    have "kernel_inv (s\<lparr>time_slice_deadline := q\<rparr>) (\<lambda>_. []) (\<lambda>_. []) (\<lambda>_. [])"
      by (rule kernel_inv_frame [OF k]) (simp_all add: same_view_def steady_def)
    then show ?thesis using None ok i(1,3,4) r by (auto simp: start_with_port_def start_inner_def)
  qed
qed

theorem runtime_starts_once_witness:
  "\<exists>g'. start_with_port demo_env ported_config_default 1000 (demo_rt\<lparr>g_start := None\<rparr>) = Some (Inr (), g')
    \<and> kernel_inv (g_sched g') (\<lambda>_. []) (\<lambda>_. []) (\<lambda>_. [])
    \<and> start_inner demo_env (ported_start_config ported_config_default) None None g' = Some (Inl AlreadyStarted, g')"
proof -
  have "e_monotonic_ms demo_env (g_reads (demo_rt\<lparr>g_start := None\<rparr>)) \<le> U64_MAX" "e_idle_stack demo_env + IDLE_STACK_SIZE \<le> USIZE_MAX"
    "g_sched (demo_rt\<lparr>g_start := None\<rparr>) = sched_new 8" "e_install demo_env = None"
    by (simp_all add: demo_env_def demo_rt_def IDLE_STACK_SIZE_def)
  with runtime_starts_once [of demo_env "demo_rt\<lparr>g_start := None\<rparr>" 1000 8 ported_config_default] show ?thesis by auto
qed

end
