(* ===== verification/Storage.thy ===== *)
theory Storage
  imports Config
begin

text \<open>
  Caller-owned storage (\<open>storage.rs\<close>): the one-shot installation of an arena and the capability it
  returns. The heap (\<open>hisi_alloc::CHeap\<close>) is outside the repository: its state is a type variable
  and its initialisation and operations are parameters.
\<close>

datatype storage_error =
    StorageAlreadyInstalled
  | InvalidArena
  | UnsupportedCapacity (requested: nat) (maximum: nat)

text \<open>\<open>SchedulerStorage<N>\<close>; \<open>N\<close> is an argument of \<open>install\<close>.\<close>

record 'h scheduler_storage =
  st_heap :: 'h
  st_installed :: bool

definition scheduler_storage_new :: "'h \<Rightarrow> 'h scheduler_storage" where
  "scheduler_storage_new empty_heap = \<lparr>st_heap = empty_heap, st_installed = False\<rparr>"

text \<open>\<open>ErasedSchedulerStorage\<close>: the operations are bound to the heap that \<open>install\<close> initialised.\<close>

record erased_storage =
  er_dynamic_capacity :: nat

definition install ::
  "(nat \<Rightarrow> nat \<Rightarrow> 'h \<Rightarrow> bool \<times> 'h) \<Rightarrow> nat \<Rightarrow> nat \<Rightarrow> nat \<Rightarrow> 'h scheduler_storage
    \<Rightarrow> (storage_error + erased_storage) \<times> 'h scheduler_storage" where
  "install heap_init n arena bytes st =
     (if n = 0 \<or> n > DYNAMIC_TASK_CAPACITY
      then (Inl (UnsupportedCapacity n DYNAMIC_TASK_CAPACITY), st)
      else let already_installed = st_installed st; st = st\<lparr>st_installed := True\<rparr>
        in if already_installed then (Inl StorageAlreadyInstalled, st)
           else let (ok, h) = heap_init arena bytes (st_heap st); st = st\<lparr>st_heap := h\<rparr>
             in if \<not> ok then (Inl InvalidArena, st\<lparr>st_installed := False\<rparr>)
                else (Inr \<lparr>er_dynamic_capacity = n\<rparr>, st))"

text \<open>The monomorphised operations of the capability: stacks are 16-byte aligned and zeroed.\<close>

definition storage_allocate :: "(nat \<Rightarrow> nat \<Rightarrow> 'h \<Rightarrow> nat \<times> 'h) \<Rightarrow> nat \<Rightarrow> 'h \<Rightarrow> nat \<times> 'h" where
  "storage_allocate allocate_zeroed bytes h = allocate_zeroed bytes 16 h"

definition storage_deallocate :: "(nat \<Rightarrow> 'h \<Rightarrow> bool \<times> 'h) \<Rightarrow> nat \<Rightarrow> 'h \<Rightarrow> 'h option" where
  "storage_deallocate heap_deallocate pointer h =
     (let (ok, h) = heap_deallocate pointer h in do { assert_that ok; Some h })"

definition storage_largest_allocatable :: "(nat \<Rightarrow> 'h \<Rightarrow> nat) \<Rightarrow> 'h \<Rightarrow> nat" where
  "storage_largest_allocatable heap_largest h = heap_largest 16 h"

subsection \<open>Properties\<close>

text \<open>A history of installation attempts: capacity, arena and its size.\<close>

fun install_all ::
  "(nat \<Rightarrow> nat \<Rightarrow> 'h \<Rightarrow> bool \<times> 'h) \<Rightarrow> (nat \<times> nat \<times> nat) list \<Rightarrow> 'h scheduler_storage
    \<Rightarrow> (storage_error + erased_storage) list \<times> 'h scheduler_storage" where
  "install_all heap_init [] st = ([], st)"
| "install_all heap_init ((n, arena, bytes) # xs) st =
     (let (r, st) = install heap_init n arena bytes st; (rs, st) = install_all heap_init xs st
      in (r # rs, st))"

definition successes :: "(storage_error + erased_storage) list \<Rightarrow> nat" where
  "successes rs = length (filter (\<lambda>r. \<exists>c. r = Inr c) rs)"

lemma install_cases:
  assumes "install heap_init n arena bytes st = (r, st')"
  shows "st_installed st \<Longrightarrow> (\<forall>c. r \<noteq> Inr c) \<and> st' = st"
    "\<not> st_installed st \<Longrightarrow> st_installed st' = (\<exists>c. r = Inr c)"
    "r = Inr c \<Longrightarrow> er_dynamic_capacity c = n \<and> 0 < n \<and> n \<le> DYNAMIC_TASK_CAPACITY"
  using assms by (auto simp: install_def Let_def split: if_splits prod.splits)

lemma install_all_after:
  "st_installed st \<Longrightarrow> install_all heap_init xs st = (rs, st') \<Longrightarrow> successes rs = 0 \<and> st' = st"
proof (induction xs arbitrary: rs st st')
  case Nil
  then show ?case by (simp add: successes_def)
next
  case (Cons x xs)
  obtain n arena bytes where x: "x = (n, arena, bytes)" by (cases x)
  obtain r st1 where r: "install heap_init n arena bytes st = (r, st1)" by fastforce
  obtain rs1 st2 where rs1: "install_all heap_init xs st1 = (rs1, st2)" by fastforce
  from install_cases(1) [OF r Cons.prems(1)] have c: "\<forall>c. r \<noteq> Inr c" "st1 = st" by auto
  from Cons.IH [OF Cons.prems(1)] rs1 c(2) have "successes rs1 = 0" "st2 = st" by auto
  with Cons.prems(2) x r rs1 c(1) show ?case by (auto simp: successes_def)
qed

lemma install_all_once:
  "install_all heap_init xs st = (rs, st') \<Longrightarrow> \<not> st_installed st \<Longrightarrow>
    successes rs \<le> 1 \<and> st_installed st' = (successes rs = 1)"
proof (induction xs arbitrary: rs st st')
  case Nil
  then show ?case by (auto simp: successes_def)
next
  case (Cons x xs)
  obtain n arena bytes where x: "x = (n, arena, bytes)" by (cases x)
  obtain r st1 where r: "install heap_init n arena bytes st = (r, st1)" by fastforce
  obtain rs1 st2 where rs1: "install_all heap_init xs st1 = (rs1, st2)" by fastforce
  have eq: "rs = r # rs1" "st' = st2" using Cons.prems(1) x r rs1 by auto
  show ?case
  proof (cases "st_installed st1")
    case True
    then have "\<exists>c. r = Inr c" using install_cases(2) [OF r Cons.prems(2)] by simp
    moreover have "successes rs1 = 0" "st2 = st1" using install_all_after [OF True rs1] by auto
    ultimately show ?thesis using eq True by (auto simp: successes_def)
  next
    case False
    then have "\<forall>c. r \<noteq> Inr c" using install_cases(2) [OF r Cons.prems(2)] by auto
    moreover from Cons.IH [OF rs1 False] have "successes rs1 \<le> 1 \<and> st_installed st2 = (successes rs1 = 1)" .
    ultimately show ?thesis using eq by (auto simp: successes_def)
  qed
qed

lemma install_all_capacity:
  "install_all heap_init xs st = (rs, st') \<Longrightarrow> Inr c \<in> set rs \<Longrightarrow>
    0 < er_dynamic_capacity c \<and> er_dynamic_capacity c \<le> DYNAMIC_TASK_CAPACITY"
proof (induction xs arbitrary: rs st st')
  case Nil
  then show ?case by simp
next
  case (Cons x xs)
  obtain n arena bytes where x: "x = (n, arena, bytes)" by (cases x)
  obtain r st1 where r: "install heap_init n arena bytes st = (r, st1)" by fastforce
  obtain rs1 st2 where rs1: "install_all heap_init xs st1 = (rs1, st2)" by fastforce
  have "rs = r # rs1" using Cons.prems(1) x r rs1 by simp
  with Cons.prems(2) Cons.IH [OF rs1] install_cases(3) [OF r, of c] show ?case by auto
qed

text \<open>
  An arena is owned by at most one runtime: however often installation is attempted on fresh
  storage, with any capacities, arenas and any behaviour of the heap, at most one attempt succeeds;
  the storage counts as installed exactly when one did, so a failed initialisation can be retried;
  and a capability carries a capacity between 1 and the table size.
\<close>

theorem storage_installed_at_most_once:
  assumes "install_all heap_init xs (scheduler_storage_new h) = (rs, st)"
  shows "successes rs \<le> 1 \<and> (st_installed st \<longleftrightarrow> successes rs = 1)
    \<and> (\<forall>c. Inr c \<in> set rs \<longrightarrow> 0 < er_dynamic_capacity c \<and> er_dynamic_capacity c \<le> DYNAMIC_TASK_CAPACITY)"
  using install_all_once [OF assms] install_all_capacity [OF assms] by (simp add: scheduler_storage_new_def)

theorem storage_installed_at_most_once_witness:
  "install_all (\<lambda>arena bytes h. (4096 \<le> bytes, h)) [(3, 100, 16), (3, 100, 4096), (3, 100, 4096)]
      (scheduler_storage_new ())
    = ([Inl InvalidArena, Inr \<lparr>er_dynamic_capacity = 3\<rparr>, Inl StorageAlreadyInstalled],
       \<lparr>st_heap = (), st_installed = True\<rparr>)
    \<and> successes [Inl InvalidArena, Inr \<lparr>er_dynamic_capacity = 3\<rparr>, Inl StorageAlreadyInstalled] \<le> 1"
    (is "?run = (?rs, ?st) \<and> _")
proof -
  have run: "?run = (?rs, ?st)"
    by (simp add: install_def scheduler_storage_new_def DYNAMIC_TASK_CAPACITY_def)
  with storage_installed_at_most_once [OF run] show ?thesis by simp
qed

end
