(* ===== verification/Ws63.thy ===== *)
theory Ws63
  imports Driver Storage
begin

text \<open>
  The WS63 port (\<open>ws63.rs\<close>): its configuration, its clock and the order in which its interrupt
  handlers and its start function call the runtime. The peripherals are outside the repository:
  their effect on the runtime state is the identity, and the largest timer delay and the counter
  are parameters.
\<close>

record ws63_config =
  wc_minimum_stack_size :: nat
  wc_radio_task_policy :: run_policy
  wc_max_scheduler_lock_duration :: nat

definition ws63_config_default :: ws63_config where
  "ws63_config_default = \<lparr>
     wc_minimum_stack_size = pc_minimum_stack_size ported_config_default,
     wc_radio_task_policy = pc_radio_task_policy ported_config_default,
     wc_max_scheduler_lock_duration = pc_max_scheduler_lock_duration ported_config_default\<rparr>"

definition ported_config_of :: "ws63_config \<Rightarrow> ported_config" where
  "ported_config_of c = \<lparr>
     pc_minimum_stack_size = wc_minimum_stack_size c,
     pc_radio_task_policy = wc_radio_task_policy c,
     pc_max_scheduler_lock_duration = wc_max_scheduler_lock_duration c\<rparr>"

text \<open>The boot counter runs at 24 MHz.\<close>

definition ws63_monotonic_ms :: "nat \<Rightarrow> nat" where
  "ws63_monotonic_ms raw = raw div 24000"

definition handle_timer_interrupt :: "'h env \<Rightarrow> 'h rt \<Rightarrow> (contract_violation option \<times> 'h rt) option" where
  "handle_timer_interrupt e g = do {
     g \<leftarrow> interrupt_enter e g;
     (violation, g) \<leftarrow> timer_interrupt e g;
     (case violation of
        Some v \<Rightarrow> Some (Some v, g)
      | None \<Rightarrow> do { g \<leftarrow> interrupt_exit e g; Some (None, g) })
   }"

definition handle_software_interrupt :: "'h env \<Rightarrow> 'h rt \<Rightarrow> 'h rt option" where
  "handle_software_interrupt e g = do {
     g \<leftarrow> interrupt_enter e g;
     interrupt_exit e (software_interrupt g)
   }"

definition ws63_start ::
  "'h env \<Rightarrow> ws63_config \<Rightarrow> nat \<Rightarrow> erased_storage \<Rightarrow> 'h rt \<Rightarrow> ((start_error + unit) \<times> 'h rt) option" where
  "ws63_start e config max_delay_ms storage g = do {
     assert_that (max_delay_ms \<noteq> 0);
     (r, g) \<leftarrow> start_with_port_and_storage e (ported_config_of config) (er_dynamic_capacity storage)
                max_delay_ms g;
     (case r of
        Inl err \<Rightarrow> Some (Inl err, g)
      | Inr _ \<Rightarrow> do {
          g \<leftarrow> request_reschedule e (g\<lparr>g_machine_interrupts := True\<rparr>);
          Some (Inr (), g)
        })
   }"

end
