(* ===== verification/Interrupts.thy ===== *)
theory Interrupts
  imports Frames Startup Ws63
begin

text \<open>
  The interrupts of a started runtime, from the vector to the return: the handlers of the board with
  the bookkeeping around them and the epilogue that switches tasks. Each is a sequence of critical
  sections, clock readings and commands to the port; the invariant \<open>rt_inv\<close> of the runtime holds
  whenever none of them is under way.
\<close>

subsection \<open>A runtime at rest\<close>

text \<open>Started with a port, and with a clock that stays below the sentinel for no time at all.\<close>

definition wired :: "'h env \<Rightarrow> 'h rt \<Rightarrow> nat \<Rightarrow> nat \<Rightarrow> bool" where
  "wired e g max_delay limit \<longleftrightarrow> 0 < max_delay \<and> (\<forall>k. e_monotonic_ms e k < NO_TIMESTAMP)
     \<and> (\<exists>st. g_start g = Some st \<and> ss_port st = Some max_delay \<and> sc_max_scheduler_lock_duration (ss_config st) = Some limit)"

text \<open>What the entry points rely on beside the kernel invariant.\<close>

definition tidy :: "sched \<Rightarrow> bool" where
  "tidy s \<longleftrightarrow> irq_task s = NIL \<and> retired_count s \<le> TASK_SLOT_COUNT \<and> spec (t_budget (tasks s ! IDLE_SLOT)) = None"

definition rt_inv :: "'h env \<Rightarrow> 'h rt \<Rightarrow> nat \<Rightarrow> nat \<Rightarrow> (nat \<Rightarrow> nat list) \<Rightarrow> (nat \<Rightarrow> nat list) \<Rightarrow> (nat \<Rightarrow> nat list) \<Rightarrow> bool" where
  "rt_inv e g max_delay limit Q S M \<longleftrightarrow> kernel_inv (g_sched g) Q S M \<and> tidy (g_sched g) \<and> wired e g max_delay limit
     \<and> g_interrupt_depth g = 0"

lemma wired_now: "wired e g max_delay limit \<Longrightarrow> e_monotonic_ms e k \<le> U64_MAX \<and> e_monotonic_ms e k \<noteq> NO_TIMESTAMP"
  unfolding wired_def NO_TIMESTAMP_def by (blast intro: less_imp_le dest: less_imp_neq)

lemma wired_cong: "g_start g' = g_start g \<Longrightarrow> wired e g' max_delay limit = wired e g max_delay limit"
  by (simp add: wired_def)

lemma tidy_aside:
  assumes "tidy s" "aside s' = aside s" "IDLE_SLOT < length (tasks s)"
  shows "tidy s'"
  using assms asideD [OF assms(2)] by (simp add: tidy_def)

lemma idle_in: "kernel_inv s Q S M \<Longrightarrow> IDLE_SLOT < length (tasks s)"
  using kernel_invD(7) by (simp add: IDLE_SLOT_def TASK_SLOT_COUNT_eq)

text \<open>A pass of the timer that nothing interrupts.\<close>

definition rearmed :: "nat \<Rightarrow> timer_command \<Rightarrow> 'h rt \<Rightarrow> 'h rt" where
  "rearmed n c g = g\<lparr>g_sched := (g_sched g)\<lparr>time_slice_deadline := n\<rparr>, g_timer_cell := g_timer_cell g + 1,
     g_reads := g_reads g + 1, g_calls := g_calls g @ [command_call c]\<rparr>"

lemma rearmed_sel [simp]:
  "g_sched (rearmed n c g) = (g_sched g)\<lparr>time_slice_deadline := n\<rparr>" "g_start (rearmed n c g) = g_start g"
  "g_interrupt_depth (rearmed n c g) = g_interrupt_depth g" "g_machine_interrupts (rearmed n c g) = g_machine_interrupts g"
  "g_reads (rearmed n c g) = g_reads g + 1" "g_calls (rearmed n c g) = g_calls g @ [command_call c]"
  by (simp_all add: rearmed_def)

lemma kernel_fields:
  assumes "kernel_inv s Q S M"
  shows "kernel_inv (s\<lparr>time_slice_deadline := n\<rparr>) Q S M" "kernel_inv (s\<lparr>time_slice_pending := b, time_slice_deadline := n\<rparr>) Q S M"
    "kernel_inv (s\<lparr>irq_task := i, irq_started_at := t\<rparr>) Q S M"
    "length r = TASK_SLOT_COUNT \<Longrightarrow> kernel_inv (s\<lparr>retired_stacks := r, retired_count := n\<rparr>) Q S M"
  using shape_okD(5) [OF owned_butD(1) [OF kernel_invD(8) [OF assms]]]
  by (auto intro!: kernel_inv_frame [OF assms] simp: same_view_def steady_def)

lemma permits_fields [simp]:
  "permits (s\<lparr>time_slice_deadline := n\<rparr>) b = permits s b" "permits (s\<lparr>time_slice_pending := q\<rparr>) b = permits s b"
  "permits (s\<lparr>irq_task := i\<rparr>) b = permits s b" "permits (s\<lparr>irq_started_at := t\<rparr>) b = permits s b"
  "permits (diag f s) b = permits s b"
  by (simp_all add: permits_def grants_def)

lemma rearm_spec:
  assumes k: "kernel_inv (g_sched g) Q S M" and w: "wired e g max_delay limit" and now: "now = e_monotonic_ms e (g_reads g)"
  shows "\<exists>n c. rearm_timer e g = Some (rearmed n c g) \<and> kernel_inv (g_sched (rearmed n c g)) Q S M
    \<and> arms_for max_delay now (timer_events limit (e_embassy_deadline e now) now (g_sched g) Q) c"
proof -
  note o = owned_butD [OF kernel_invD(8) [OF k]]
  have "timer_ready g max_delay limit Q" using w o(1,2) by (auto simp: timer_ready_def wired_def)
  from rearm_timer_spec [OF this now] show ?thesis using kernel_fields(1) [OF k] by (auto simp: rearmed_def)
qed

subsection \<open>Interrupts\<close>

text \<open>Changing the metrics of a task changes nothing the kernel relies on.\<close>

lemma kernel_metrics:
  assumes inv: "kernel_inv s Q S M" and i: "i < TASK_SLOT_COUNT"
  shows "kernel_inv (mod_task i (\<lambda>t. t\<lparr>t_metrics := m t\<rparr>) s) Q S M" "permits (mod_task i (\<lambda>t. t\<lparr>t_metrics := m t\<rparr>) s) b = permits s b"
proof -
  let ?s = "mod_task i (\<lambda>t. t\<lparr>t_metrics := m t\<rparr>) s"
  note k = kernel_invD [OF inv]
  have t: "tame i s ?s" by (rule tame_mod_task) (use i k(7) in \<open>simp_all add: kept_def trap_kept_def\<close>)
  have "owned_but {} ?s Q" by (rule owned_but_view [OF k(8)]) (rule same_view_mod_task; simp)
  from kernel_tame [OF inv t this] show "kernel_inv ?s Q S M" "permits ?s b = permits s b" by simp_all
qed

text \<open>Only the metrics of the tasks have changed.\<close>

definition metered :: "sched \<Rightarrow> sched \<Rightarrow> bool" where
  "metered s s' \<longleftrightarrow> current s' = current s \<and> pending_switch s' = pending_switch s \<and> length (tasks s') = length (tasks s)
     \<and> (\<forall>j < length (tasks s). tasks s' ! j = (tasks s ! j)\<lparr>t_metrics := t_metrics (tasks s' ! j)\<rparr>)
     \<and> (\<forall>b. permits s' b = permits s b)"

lemma metered_sel:
  assumes "metered s s'"
  shows "current s' = current s" "length (tasks s') = length (tasks s)" "permits s' b = permits s b"
    "pending_switch s' = pending_switch s"
  using assms unfolding metered_def by blast+

lemma metered_fields:
  assumes "metered s s'" "j < length (tasks s)"
  shows "state_of s' j = state_of s j" "t_budget (tasks s' ! j) = t_budget (tasks s ! j)" "clock (tasks s' ! j) = clock (tasks s ! j)"
    "overdue now (tasks s' ! j) = overdue now (tasks s ! j)"
    "t_scheduler_lock_started_at (tasks s' ! j) = t_scheduler_lock_started_at (tasks s ! j)"
proof -
  from assms have e: "tasks s' ! j = (tasks s ! j)\<lparr>t_metrics := t_metrics (tasks s' ! j)\<rparr>" by (simp add: metered_def)
  show "state_of s' j = state_of s j" "t_budget (tasks s' ! j) = t_budget (tasks s ! j)" "clock (tasks s' ! j) = clock (tasks s ! j)"
    "overdue now (tasks s' ! j) = overdue now (tasks s ! j)"
    "t_scheduler_lock_started_at (tasks s' ! j) = t_scheduler_lock_started_at (tasks s ! j)"
    by (subst e, simp add: clock_def overdue_def)+
qed

lemma metered_trans:
  assumes "metered s1 s2" "metered s s1"
  shows "metered s s2"
proof -
  have "tasks s2 ! j = (tasks s ! j)\<lparr>t_metrics := t_metrics (tasks s2 ! j)\<rparr>" if "j < length (tasks s)" for j
  proof -
    define a where "a = t_metrics (tasks s1 ! j)"
    define b where "b = t_metrics (tasks s2 ! j)"
    have "tasks s1 ! j = (tasks s ! j)\<lparr>t_metrics := a\<rparr>" "tasks s2 ! j = (tasks s1 ! j)\<lparr>t_metrics := b\<rparr>"
      using assms that metered_sel(2) [OF assms(2)] by (simp_all add: metered_def a_def b_def)
    then have "tasks s2 ! j = (tasks s ! j)\<lparr>t_metrics := b\<rparr>" by simp
    then show ?thesis by (simp only: b_def)
  qed
  with metered_sel [OF assms(1)] metered_sel [OF assms(2)] show ?thesis unfolding metered_def by simp
qed

lemma metered_metrics:
  assumes inv: "kernel_inv s Q S M" and i: "i < TASK_SLOT_COUNT" and s': "s' = mod_task i (\<lambda>t. t\<lparr>t_metrics := m t\<rparr>) s"
  shows "metered s s'"
  using i kernel_invD(7) [OF inv] kernel_metrics(2) [OF inv i, of m] unfolding s' by (simp add: metered_def mod_task_at)

text \<open>An interrupt that is being handled: the interrupted task is charged for it.\<close>

definition handling :: "'h env \<Rightarrow> 'h rt \<Rightarrow> nat \<Rightarrow> nat \<Rightarrow> bool" where
  "handling e g max_delay limit \<longleftrightarrow> wired e g max_delay limit \<and> g_interrupt_depth g = 1 \<and> irq_task (g_sched g) < TASK_SLOT_COUNT
     \<and> irq_started_at (g_sched g) \<noteq> NO_TIMESTAMP \<and> retired_count (g_sched g) \<le> TASK_SLOT_COUNT
     \<and> spec (t_budget (tasks (g_sched g) ! IDLE_SLOT)) = None"

lemma interrupt_enter_spec:
  assumes "rt_inv e g max_delay limit Q S M"
  shows "\<exists>s'. interrupt_enter e g = Some (g\<lparr>g_reads := g_reads g + 1, g_sched := s', g_interrupt_depth := 1\<rparr>)
    \<and> kernel_inv s' Q S M \<and> handling e (g\<lparr>g_reads := g_reads g + 1, g_sched := s', g_interrupt_depth := 1\<rparr>) max_delay limit
    \<and> metered (g_sched g) s'"
proof -
  from assms have inv: "kernel_inv (g_sched g) Q S M" and td: "tidy (g_sched g)" and w: "wired e g max_delay limit"
    and d: "g_interrupt_depth g = 0" by (simp_all add: rt_inv_def)
  note k = kernel_invD [OF inv]
  let ?s = "g_sched g" and ?now = "e_monotonic_ms e (g_reads g)"
  define m :: "tcb \<Rightarrow> task_metrics" where "m = (\<lambda>t. (t_metrics t)\<lparr>m_irq_entries := bump32 (m_irq_entries (t_metrics t))\<rparr>)"
  define s1 where "s1 = ?s\<lparr>irq_task := current ?s, irq_started_at := ?now\<rparr>"
  define s' where "s' = mod_task (current ?s) (\<lambda>t. t\<lparr>t_metrics := m t\<rparr>) s1"
  obtain st where st: "g_start g = Some st" using w by (auto simp: wired_def)
  have "sched_interrupt_enter ?now ?s = Some s'"
    using td k(7,9) by (simp add: sched_interrupt_enter_def tidy_def s'_def s1_def m_def)
  then have run: "interrupt_enter e g = Some (g\<lparr>g_reads := g_reads g + 1, g_sched := s', g_interrupt_depth := 1\<rparr>)"
    using st d by (simp add: interrupt_enter_def Let_def sat_add_def)
  have k1: "kernel_inv s1 Q S M" unfolding s1_def by (rule kernel_fields(3) [OF inv])
  have "metered s1 s'" by (rule metered_metrics [OF k1 k(9) s'_def])
  then have mt: "metered ?s s'" by (simp add: metered_def s1_def)
  have "spec (t_budget (tasks s' ! IDLE_SLOT)) = None" using metered_fields(2) [OF mt idle_in [OF inv]] td by (simp add: tidy_def)
  then have "handling e (g\<lparr>g_reads := g_reads g + 1, g_sched := s', g_interrupt_depth := 1\<rparr>) max_delay limit"
    using w td k(9) wired_now [OF w] by (simp add: handling_def wired_def tidy_def s'_def s1_def)
  with run kernel_metrics(1) [OF k1 k(9), of m] mt show ?thesis unfolding s'_def [symmetric] by blast
qed

lemma interrupt_exit_spec:
  assumes inv: "kernel_inv (g_sched g) Q S M" and h: "handling e g max_delay limit"
  shows "\<exists>s'. interrupt_exit e g = Some (g\<lparr>g_reads := g_reads g + 1, g_sched := s', g_interrupt_depth := 0\<rparr>)
    \<and> rt_inv e (g\<lparr>g_reads := g_reads g + 1, g_sched := s', g_interrupt_depth := 0\<rparr>) max_delay limit Q S M \<and> metered (g_sched g) s'"
proof -
  note k = kernel_invD [OF inv]
  let ?s = "g_sched g"
  from h have w: "wired e g max_delay limit" and d: "g_interrupt_depth g = 1" and i: "irq_task ?s < TASK_SLOT_COUNT"
    and r: "irq_started_at ?s \<noteq> NO_TIMESTAMP" "retired_count ?s \<le> TASK_SLOT_COUNT" "spec (t_budget (tasks ?s ! IDLE_SLOT)) = None"
    by (simp_all add: handling_def)
  obtain st where st: "g_start g = Some st" using w by (auto simp: wired_def)
  define el where "el = sat_sub (e_monotonic_ms e (g_reads g)) (irq_started_at ?s)"
  define m :: "tcb \<Rightarrow> task_metrics" where "m = (\<lambda>t. (t_metrics t)\<lparr>m_irq_time_ms := sat_add U64_MAX (m_irq_time_ms (t_metrics t)) el,
      m_max_irq_span_ms := max (m_max_irq_span_ms (t_metrics t)) el\<rparr>)"
  define s1 where "s1 = mod_task (irq_task ?s) (\<lambda>t. t\<lparr>t_metrics := m t\<rparr>) ?s"
  define s' where "s' = s1\<lparr>irq_task := NIL, irq_started_at := NO_TIMESTAMP\<rparr>"
  have "sched_interrupt_exit (e_monotonic_ms e (g_reads g)) ?s = Some s'"
    using r(1) i k(7) slot_not_NIL [OF i] by (simp add: sched_interrupt_exit_def Let_def s'_def s1_def m_def el_def)
  then have run: "interrupt_exit e g = Some (g\<lparr>g_reads := g_reads g + 1, g_sched := s', g_interrupt_depth := 0\<rparr>)"
    using st d by (simp add: interrupt_exit_def Let_def)
  have k1: "kernel_inv s1 Q S M" unfolding s1_def by (rule kernel_metrics(1) [OF inv i])
  have mt: "metered ?s s'" using metered_metrics [OF inv i s1_def] by (simp add: metered_def s'_def)
  have "kernel_inv s' Q S M" unfolding s'_def by (rule kernel_fields(3) [OF k1])
  moreover have "tidy s'" using metered_fields(2) [OF mt idle_in [OF inv]] r by (simp add: tidy_def s'_def s1_def)
  ultimately show ?thesis using run mt w by (auto simp: rt_inv_def wired_def)
qed

subsection \<open>The timer interrupt\<close>

text \<open>A violation is reported exactly for a running task that held the scheduler lock too long.\<close>

definition overran :: "nat \<Rightarrow> nat \<Rightarrow> sched \<Rightarrow> contract_violation option" where
  "overran now limit s = (case t_scheduler_lock_started_at (tasks s ! current s) of
       None \<Rightarrow> None
     | Some at \<Rightarrow> if limit \<le> now - at then Some (SchedulerLockOverrun (current s) (now - at) limit) else None)"

lemma on_timer_violation:
  assumes "on_timer now limit s = Some (v, s')"
  shows "v = None \<or> v = overran now limit s'" "state_of s' (current s') = Running \<Longrightarrow> v = overran now limit s'"
proof -
  from assms obtain s1 where w: "wake_sleepers now s = Some s1" by (auto simp: on_timer_def bind_eq_Some)
  let ?c = "current s1"
  from assms w have c: "?c < length (tasks s1)" by (auto simp: on_timer_def task_at_def bind_eq_Some Let_def split: if_splits)
  obtain x b where b: "budget_on_timer now (t_scheduler_lock_depth (tasks s1 ! ?c) \<noteq> 0) (t_budget (tasks s1 ! ?c)) = (x, b)" by fastforce
  have r: "if state_of s1 ?c \<noteq> Running then v = None \<and> s' = s1 else v = overran now limit s' \<and> current s' = ?c"
    using assms w c b
    by (cases x) (auto simp: on_timer_def overran_def bind_eq_Some Let_def mod_task_at split: if_split_asm option.splits)
  then show "v = None \<or> v = overran now limit s'" by (auto split: if_splits)
  show "v = overran now limit s'" if "state_of s' (current s') = Running" using r that by (auto split: if_splits)
qed

text \<open>What the timer does to every task: wake what is due, refill quotas, charge the running task.\<close>

definition timed :: "nat \<Rightarrow> sched \<Rightarrow> sched \<Rightarrow> bool" where
  "timed now s s' \<longleftrightarrow> (\<forall>j < TASK_SLOT_COUNT. if overdue now (tasks s ! j) then state_of s' j = Ready
     else if state_of s j = Throttled then refilled now (tasks s ! j) (tasks s' ! j)
     else if state_of s j = Running then charged now (tasks s ! j) (tasks s' ! j)
     else clock (tasks s' ! j) = clock (tasks s ! j))"

lemma metrics_aside [simp]:
  "overdue now (t\<lparr>t_metrics := a\<rparr>) = overdue now t" "clock (t\<lparr>t_metrics := a\<rparr>) = clock t"
  "refilled now (t\<lparr>t_metrics := a\<rparr>) t' = refilled now t t'" "refilled now t (t'\<lparr>t_metrics := a\<rparr>) = refilled now t t'"
  "charged now (t\<lparr>t_metrics := a\<rparr>) t' = charged now t t'" "charged now t (t'\<lparr>t_metrics := a\<rparr>) = charged now t t'"
  by (simp_all add: overdue_def clock_def refilled_def charged_def)

lemma timed_metered:
  assumes m: "metered s s1" "metered s2 s3" and t: "timed now s1 s2"
    and len: "length (tasks s) = TASK_SLOT_COUNT" "length (tasks s2) = TASK_SLOT_COUNT"
  shows "timed now s s3"
  unfolding timed_def
proof (intro allI impI)
  fix j
  assume j: "j < TASK_SLOT_COUNT"
  define a where "a = t_metrics (tasks s1 ! j)"
  define b where "b = t_metrics (tasks s3 ! j)"
  have e: "tasks s1 ! j = (tasks s ! j)\<lparr>t_metrics := a\<rparr>" "tasks s3 ! j = (tasks s2 ! j)\<lparr>t_metrics := b\<rparr>"
    using m j len by (simp_all add: metered_def a_def b_def)
  have "if overdue now (tasks s1 ! j) then state_of s2 j = Ready
     else if state_of s1 j = Throttled then refilled now (tasks s1 ! j) (tasks s2 ! j)
     else if state_of s1 j = Running then charged now (tasks s1 ! j) (tasks s2 ! j)
     else clock (tasks s2 ! j) = clock (tasks s1 ! j)" using t j by (simp add: timed_def)
  then show "if overdue now (tasks s ! j) then state_of s3 j = Ready
     else if state_of s j = Throttled then refilled now (tasks s ! j) (tasks s3 ! j)
     else if state_of s j = Running then charged now (tasks s ! j) (tasks s3 ! j)
     else clock (tasks s3 ! j) = clock (tasks s ! j)"
    unfolding e by (auto split: if_split_asm)
qed

lemma on_timer_interrupt_spec:
  assumes inv: "kernel_inv s Q S M" and now: "now \<le> U64_MAX" and idle: "spec (t_budget (tasks s ! IDLE_SLOT)) = None"
  shows "\<exists>v s' Q' S' M'. on_timer_interrupt now limit s = Some (v, s') \<and> kernel_inv s' Q' S' M' \<and> timed now s s' \<and> aside s' = aside s
    \<and> (\<forall>b. b \<noteq> 0 \<longrightarrow> permits s' b = permits s b) \<and> (v = None \<or> v = overran now limit s')
    \<and> (state_of s' (current s') = Running \<longrightarrow> v = overran now limit s')"
proof -
  let ?s = "diag (\<lambda>d. d\<lparr>d_timer_interrupts := bump32 (d_timer_interrupts d)\<rparr>) s"
  have "kernel_inv ?s Q S M" "spec (t_budget (tasks ?s ! IDLE_SLOT)) = None" using inv idle by simp_all
  from on_timer_spec [OF this(1) now this(2), of limit, folded timed_def] obtain v s1 where
    1: "on_timer now limit ?s = Some (v, s1)" "served ?s s1" "timed now ?s s1" by blast
  from 1(2) obtain Q' S' M' where k: "kernel_inv s1 Q' S' M'" "\<forall>b. b \<noteq> 0 \<longrightarrow> permits s1 b = permits s b" by (auto simp: served_def)
  define s' where "s' = (if time_slice_deadline s1 \<noteq> 0 \<and> time_slice_deadline s1 \<le> now
    then s1\<lparr>time_slice_pending := True, time_slice_deadline := 0\<rparr> else s1)"
  have f: "tasks s' = tasks s1" "current s' = current s1" "aside s' = aside s1" "permits s' b = permits s1 b" for b by (simp_all add: s'_def)
  have "on_timer_interrupt now limit s = Some (v, s')" using 1(1) by (simp add: on_timer_interrupt_def s'_def)
  moreover have "kernel_inv s' Q' S' M'" using k(1) kernel_fields(2) [OF k(1)] by (simp add: s'_def)
  moreover have "timed now s s'" using 1(3) unfolding timed_def f diag_sel .
  moreover have "aside s' = aside s" using on_timer_aside [OF 1(1)] f by simp
  moreover have "overran now limit s' = overran now limit s1" unfolding overran_def f ..
  ultimately show ?thesis using on_timer_violation [OF 1(1)] k(2) f by metis
qed

lemma overran_metered: "metered s s' \<Longrightarrow> current s < length (tasks s) \<Longrightarrow> overran now limit s' = overran now limit s"
  unfolding overran_def by (simp only: metered_fields(5) metered_sel(1))

lemma timed_refl_metered: "metered s s1 \<Longrightarrow> timed now s1 s2 \<Longrightarrow> length (tasks s) = TASK_SLOT_COUNT \<Longrightarrow>
    length (tasks s2) = TASK_SLOT_COUNT \<Longrightarrow> timed now s s2"
  by (rule timed_metered [of s s1 s2 s2]) (simp_all add: metered_def)

text \<open>The handler of the board up to the point where the timer has been served.\<close>

lemma timer_served:
  assumes "rt_inv e g max_delay limit Q S M" and now: "now = e_monotonic_ms e (g_reads g + 1)"
  shows "\<exists>g1 v s2 Q' S' M'. interrupt_enter e g = Some g1 \<and> g_start g1 = g_start g \<and> g_reads g1 = g_reads g + 1 \<and> g_calls g1 = g_calls g
    \<and> on_timer_interrupt now limit (g_sched g1) = Some (v, s2) \<and> kernel_inv s2 Q' S' M' \<and> timed now (g_sched g) s2
    \<and> handling e (g1\<lparr>g_reads := g_reads g1 + 1, g_sched := s2\<rparr>) max_delay limit
    \<and> (\<forall>b. b \<noteq> 0 \<longrightarrow> permits s2 b = permits (g_sched g) b) \<and> (v = None \<or> v = overran now limit s2)
    \<and> (state_of s2 (current s2) = Running \<longrightarrow> v = overran now limit s2)"
proof -
  from assms(1) have w: "wired e g max_delay limit" and inv: "kernel_inv (g_sched g) Q S M" by (simp_all add: rt_inv_def)
  from interrupt_enter_spec [OF assms(1)] obtain s1 where
    1: "interrupt_enter e g = Some (g\<lparr>g_reads := g_reads g + 1, g_sched := s1, g_interrupt_depth := 1\<rparr>)" "kernel_inv s1 Q S M"
      "handling e (g\<lparr>g_reads := g_reads g + 1, g_sched := s1, g_interrupt_depth := 1\<rparr>) max_delay limit" "metered (g_sched g) s1" by blast
  have i1: "spec (t_budget (tasks s1 ! IDLE_SLOT)) = None" using 1(3) by (simp add: handling_def)
  have nw: "now \<le> U64_MAX" using wired_now [OF w] now by blast
  from on_timer_interrupt_spec [OF 1(2) nw i1, of limit] obtain v s2 Q2 S2 M2 where
    2: "on_timer_interrupt now limit s1 = Some (v, s2)" "kernel_inv s2 Q2 S2 M2" "timed now s1 s2" "aside s2 = aside s1"
      "\<forall>b. b \<noteq> 0 \<longrightarrow> permits s2 b = permits s1 b" "v = None \<or> v = overran now limit s2"
      "state_of s2 (current s2) = Running \<longrightarrow> v = overran now limit s2" by blast
  let ?g1 = "g\<lparr>g_reads := g_reads g + 1, g_sched := s1, g_interrupt_depth := 1\<rparr>"
  have "handling e (?g1\<lparr>g_reads := g_reads ?g1 + 1, g_sched := s2\<rparr>) max_delay limit"
    using 1(3) w asideD [OF 2(4)] idle_in [OF 1(2)] by (simp add: handling_def wired_def)
  moreover have "timed now (g_sched g) s2" by (rule timed_refl_metered [OF 1(4) 2(3)]) (use kernel_invD(7) inv 2(2) in blast)+
  moreover have "\<forall>b. b \<noteq> 0 \<longrightarrow> permits s2 b = permits (g_sched g) b" using 2(5) 1(4) by (simp add: metered_def)
  ultimately show ?thesis using 1(1) 2 by (intro exI [of _ ?g1] exI [of _ v] exI [of _ s2]) auto
qed

text \<open>The whole handler: enter, serve the timer, arm it again, exit.\<close>

lemma handle_timer_spec:
  assumes "rt_inv e g max_delay limit Q S M" and now: "now = e_monotonic_ms e (g_reads g + 1)"
  shows "\<exists>v g' Q' S' M'. handle_timer_interrupt e g = Some (v, g') \<and> kernel_inv (g_sched g') Q' S' M'
    \<and> timed now (g_sched g) (g_sched g') \<and> (\<forall>b. b \<noteq> 0 \<longrightarrow> permits (g_sched g') b = permits (g_sched g) b)
    \<and> (v = None \<or> v = overran now limit (g_sched g')) \<and> (state_of (g_sched g') (current (g_sched g')) = Running \<longrightarrow> v = overran now limit (g_sched g'))
    \<and> (case v of Some x \<Rightarrow> g_calls g' = g_calls g @ [ReportViolation x]
        | None \<Rightarrow> rt_inv e g' max_delay limit Q' S' M' \<and> (\<exists>c. g_calls g' = g_calls g @ [command_call c]))"
proof -
  from assms(1) obtain st where st: "g_start g = Some st" "ss_port st = Some max_delay" "sc_max_scheduler_lock_duration (ss_config st) = Some limit"
    by (auto simp: rt_inv_def wired_def)
  from timer_served [OF assms] obtain g1 v s2 Q' S' M' where
    1: "interrupt_enter e g = Some g1" "g_start g1 = g_start g" "g_reads g1 = g_reads g + 1" "g_calls g1 = g_calls g"
      "on_timer_interrupt now limit (g_sched g1) = Some (v, s2)" "kernel_inv s2 Q' S' M'" "timed now (g_sched g) s2"
    and h: "handling e (g1\<lparr>g_reads := g_reads g1 + 1, g_sched := s2\<rparr>) max_delay limit"
    and 2: "\<forall>b. b \<noteq> 0 \<longrightarrow> permits s2 b = permits (g_sched g) b" "v = None \<or> v = overran now limit s2"
      "state_of s2 (current s2) = Running \<longrightarrow> v = overran now limit s2" by blast
  note k = kernel_invD [OF 1(6)]
  define g2 where "g2 = g1\<lparr>g_reads := g_reads g1 + 1, g_sched := s2\<rparr>"
  have g2: "g_sched g2 = s2" "g_calls g2 = g_calls g" by (simp_all add: g2_def 1(4))
  have ti: "timer_interrupt e g1 = (case v of None \<Rightarrow> do { g \<leftarrow> rearm_timer e g2; Some (None, g) }
      | Some x \<Rightarrow> Some (Some x, port_log (ReportViolation x) g2))"
    using 1(2,3,5) st now by (simp add: timer_interrupt_def now_ms_def on_sched_def g2_def split: option.split)
  show ?thesis
  proof (cases v)
    case (Some x)
    have "handle_timer_interrupt e g = Some (Some x, port_log (ReportViolation x) g2)" using 1(1) ti Some by (simp add: handle_timer_interrupt_def)
    moreover have "overran now limit s2 = Some x" using 2(2) Some by simp
    ultimately show ?thesis using 1(6,7) 2(1) g2 by (auto simp: port_log_def)
  next
    case None
    have "kernel_inv (g_sched g2) Q' S' M'" "wired e g2 max_delay limit" using 1(6) g2(1) h by (simp_all add: g2_def handling_def)
    from rearm_spec [OF this refl] obtain n c where
      3: "rearm_timer e g2 = Some (rearmed n c g2)" "kernel_inv (g_sched (rearmed n c g2)) Q' S' M'" by blast
    have "handling e (rearmed n c g2) max_delay limit" using h by (simp add: handling_def wired_def g2_def)
    from interrupt_exit_spec [OF 3(2) this] obtain s4 g4 where
      4: "interrupt_exit e (rearmed n c g2) = Some g4" "rt_inv e g4 max_delay limit Q' S' M'" "metered s2 s4" "g_sched g4 = s4"
        "g_calls g4 = g_calls g @ [command_call c]" by (auto simp: metered_def g2)
    have run: "handle_timer_interrupt e g = Some (None, g4)" using 1(1) ti None 3(1) 4(1) by (simp add: handle_timer_interrupt_def)
    have "timed now (g_sched g) s4"
      by (rule timed_metered [OF _ 4(3) 1(7)]) (use kernel_invD(7) assms(1) k(7) in \<open>auto simp: rt_inv_def metered_def\<close>)
    moreover have "state_of s4 (current s4) = state_of s2 (current s2)" "overran now limit s4 = overran now limit s2"
      using metered_fields(1) [OF 4(3), of "current s2"] overran_metered [OF 4(3)] 4(3) k(7,9) by (simp_all add: metered_def)
    moreover have "kernel_inv s4 Q' S' M'" using 4(2,4) by (simp add: rt_inv_def)
    ultimately show ?thesis using run 4 None 2 metered_sel(3) [OF 4(3)] by auto
  qed
qed

text \<open>The epilogue that ends every interrupt: the trap picks the next task and the timer is armed for it.\<close>

lemma epilogue_spec:
  assumes "rt_inv e g max_delay limit Q S M" "frame \<noteq> 0"
  shows "\<exists>f s2 Q' n c g'. hisi_irq_epilogue e frame g = Some (f, g') \<and> f \<noteq> 0
    \<and> schedule_from_trap frame 0 (e_monotonic_ms e (g_reads g)) (g_sched g) = Some (f, s2)
    \<and> g' = rearmed n c (g\<lparr>g_reads := g_reads g + 1, g_sched := s2\<rparr>) \<and> rt_inv e g' max_delay limit Q' S M
    \<and> current s2 = next_task (g_sched g) Q \<and> state_of s2 (current s2) = Running \<and> pending_switch s2 = None
    \<and> arms_for max_delay (e_monotonic_ms e (g_reads g + 1))
        (timer_events limit (e_embassy_deadline e (e_monotonic_ms e (g_reads g + 1))) (e_monotonic_ms e (g_reads g + 1)) s2 Q') c"
proof -
  from assms(1) have inv: "kernel_inv (g_sched g) Q S M" and td: "tidy (g_sched g)" and w: "wired e g max_delay limit"
    and d: "g_interrupt_depth g = 0" by (simp_all add: rt_inv_def)
  obtain st where st: "g_start g = Some st" using w by (auto simp: wired_def)
  have "e_monotonic_ms e (g_reads g) \<le> U64_MAX" using wired_now [OF w] by blast
  from kernel_trap [OF inv this assms(2)] obtain f s2 Q' where
    1: "schedule_from_trap frame 0 (e_monotonic_ms e (g_reads g)) (g_sched g) = Some (f, s2)" "f \<noteq> 0" "kernel_inv s2 Q' S M"
      "pending_switch s2 = None" "current s2 = next_task (g_sched g) Q" "state_of s2 (current s2) = Running" by blast
  let ?g = "g\<lparr>g_reads := g_reads g + 1, g_sched := s2\<rparr>"
  have "kernel_inv (g_sched ?g) Q' S M" "wired e ?g max_delay limit" using 1(3) w by (simp_all add: wired_def)
  from rearm_spec [OF this refl] obtain n c where
    2: "rearm_timer e ?g = Some (rearmed n c ?g)" "kernel_inv (g_sched (rearmed n c ?g)) Q' S M"
      "arms_for max_delay (e_monotonic_ms e (g_reads g + 1))
        (timer_events limit (e_embassy_deadline e (e_monotonic_ms e (g_reads g + 1))) (e_monotonic_ms e (g_reads g + 1)) s2 Q') c" by auto
  have "tidy s2" by (rule tidy_aside [OF td trap_aside [OF 1(1)] idle_in [OF inv]])
  then have "rt_inv e (rearmed n c ?g) max_delay limit Q' S M" using 2(2) w d by (simp add: rt_inv_def wired_def tidy_def)
  moreover have "hisi_irq_epilogue e frame g = Some (f, rearmed n c ?g)"
    using st d 1(1) 2(1) by (simp add: hisi_irq_epilogue_def now_ms_def on_sched_def)
  ultimately show ?thesis using 1 2(3) by blast
qed

lemma handle_software_spec:
  assumes "rt_inv e g max_delay limit Q S M"
  shows "\<exists>g'. handle_software_interrupt e g = Some g' \<and> rt_inv e g' max_delay limit Q S M \<and> g_calls g' = g_calls g
    \<and> metered (g_sched g) (g_sched g') \<and> g_machine_interrupts g' = g_machine_interrupts g"
proof -
  from interrupt_enter_spec [OF assms] obtain s1 g1 where
    1: "interrupt_enter e g = Some g1" "kernel_inv (g_sched g1) Q S M" "handling e g1 max_delay limit" "metered (g_sched g) (g_sched g1)"
      "g_calls g1 = g_calls g" "g_machine_interrupts g1 = g_machine_interrupts g" by auto
  let ?g = "software_interrupt g1"
  have "kernel_inv (g_sched ?g) Q S M" "handling e ?g max_delay limit"
    using 1(2,3) by (simp_all add: software_interrupt_def on_software_interrupt_def handling_def wired_def)
  from interrupt_exit_spec [OF this] obtain g2 where
    2: "interrupt_exit e ?g = Some g2" "rt_inv e g2 max_delay limit Q S M" "metered (g_sched ?g) (g_sched g2)" "g_calls g2 = g_calls ?g"
      "g_machine_interrupts g2 = g_machine_interrupts ?g" by auto
  have "metered (g_sched g1) (g_sched g2)" using 2(3) by (simp add: metered_def software_interrupt_def on_software_interrupt_def)
  then have "metered (g_sched g) (g_sched g2)" using 1(4) by (rule metered_trans)
  then show ?thesis using 1 2 by (simp add: handle_software_interrupt_def software_interrupt_def)
qed

text \<open>A pending switch is made by the software interrupt that was requested for it.\<close>

lemma switch_delivered:
  assumes inv: "rt_inv e g max_delay limit Q S M" and p: "pending_target (g_sched g) = Some t" and f: "frame \<noteq> 0"
  shows "\<exists>g1 f g2 Q'. handle_software_interrupt e g = Some g1 \<and> hisi_irq_epilogue e frame g1 = Some (f, g2) \<and> f \<noteq> 0
    \<and> rt_inv e g2 max_delay limit Q' S M \<and> current (g_sched g2) = t \<and> state_of (g_sched g2) t = Running"
proof -
  from handle_software_spec [OF inv] obtain g1 where
    1: "handle_software_interrupt e g = Some g1" "rt_inv e g1 max_delay limit Q S M" "metered (g_sched g) (g_sched g1)" by blast
  have "pending_target (g_sched g1) = Some t" using p unfolding pending_target_def metered_sel(4) [OF 1(3)] .
  then have "next_task (g_sched g1) Q = t" by (simp add: next_task_def)
  with epilogue_spec [OF 1(2) f] 1(1) show ?thesis by fastforce
qed

end
