(* ===== verification/Entry_Points.thy ===== *)
theory Entry_Points
  imports Interrupts
begin

text \<open>
  The calls that give up the processor (\<open>sleep_ms\<close>, \<open>yield_now\<close>, \<open>task_exit\<close>, the idle loop), from the
  call to the point where the caller stops running: the checks around the critical section, the
  assertions on the prepared switch, the timer and the request to the port. The next trap completes
  the switch.
\<close>

subsection \<open>Prepared switches\<close>

text \<open>A committed intent is the pending switch, whatever the state was.\<close>

definition pending_of :: "switch_intent \<Rightarrow> pending_switch" where
  "pending_of intent = \<lparr>ps_sequence = si_sequence intent, ps_previous = si_previous intent, ps_target = si_target intent\<rparr>"

lemma commit_pending: "commit_switch_intent intent s = Some (True, s') \<Longrightarrow> pending_switch s' = Some (pending_of intent)"
  by (auto simp: commit_switch_intent_def pending_of_def bind_eq_Some Let_def assert_that_def split: if_splits)

lemma intent_ends:
  "prepare_switch_intent p t s = Some (intent, s') \<Longrightarrow> ref_slot (si_previous intent) = p \<and> ref_slot (si_target intent) = t \<and> pending_switch s' = None"
  by (auto simp: prepare_switch_intent_def task_ref_of_def bind_eq_Some Let_def assert_that_def split: if_splits)

lemma away_pending:
  "prepare_switch_away_locked True p r s = Some (Some intent, s') \<Longrightarrow>
    pending_switch s' = Some (pending_of intent) \<and> ref_slot (si_previous intent) = p"
  by (auto simp: prepare_switch_away_locked_def prepare_switch_away_decision_def bind_eq_Some split: if_split_asm
      dest!: intent_ends dest: commit_pending)

lemma switch_pending:
  "prepare_switch True p t s = Some (intent, s') \<Longrightarrow> pending_switch s' \<noteq> None \<Longrightarrow>
    pending_switch s' = Some (pending_of intent) \<and> ref_slot (si_previous intent) = p \<and> ref_slot (si_target intent) = t \<and> t \<noteq> p"
  by (auto simp: prepare_switch_def prepare_committed_switch_intent_def bind_eq_Some assert_that_def split: if_split_asm
      dest!: intent_ends dest: commit_pending)

text \<open>Executing it: the assertions hold, the timer is armed and the switch is requested.\<close>

lemma execute_switch_spec:
  assumes inv: "kernel_inv (g_sched g) Q S M" and w: "wired e g max_delay limit" and mi: "g_machine_interrupts g"
    and p: "pending_switch (g_sched g) = Some (pending_of intent)" and ne: "ref_slot (si_target intent) \<noteq> current (g_sched g)"
  shows "\<exists>n c. execute_switch e intent g = Some (False, port_log PendReschedule (rearmed n c g))
    \<and> kernel_inv (g_sched (rearmed n c g)) Q S M"
proof -
  note k = kernel_invD [OF inv]
  let ?s = "g_sched g" and ?t = "ref_slot (si_target intent)"
  have ok: "pending_ok ?s Q (pending_of intent)" using owned_butD(6) [OF k(8) p] .
  then have pv: "ref_slot (si_previous intent) = current ?s" and tl: "?t < TASK_SLOT_COUNT" and tr: "state_of ?s ?t = Ready"
    using k(7) by (auto simp: pending_ok_def pending_of_def task_ref_is_current_iff)
  have "t_saved_frame (tasks ?s ! ?t) \<noteq> 0" using k(2) tl tr ne by (auto simp: trap_inv_def frames_ok_def)
  moreover from rearm_spec [OF inv w refl] obtain n c where
    "rearm_timer e g = Some (rearmed n c g)" "kernel_inv (g_sched (rearmed n c g)) Q S M" by blast
  moreover obtain st where "g_start g = Some st" "ported st" using w by (auto simp: wired_def ported_def)
  ultimately show ?thesis using mi p ne pv tl k(7,9) by (auto simp: execute_switch_def pending_of_def)
qed

text \<open>Choosing and committing a target changes no task but its links.\<close>

lemma intent_tasks: "prepare_switch_intent p t s = Some (intent, s') \<Longrightarrow> tasks s' = tasks s \<and> current s' = current s"
  by (auto simp: prepare_switch_intent_def bind_eq_Some Let_def assert_that_def split: if_splits)

lemma commit_tasks: "commit_switch_intent intent s = Some (True, s') \<Longrightarrow> tasks s' = tasks s \<and> current s' = current s"
  by (auto simp: commit_switch_intent_def bind_eq_Some Let_def assert_that_def split: if_splits)

lemma away_tasks:
  assumes "prepare_switch_away_locked True p r s = Some (Some intent, s')"
  shows "current s' = current s" "j < length (tasks s) \<Longrightarrow> \<exists>n. tasks s' ! j = (tasks s ! j)\<lparr>t_next := n\<rparr>"
proof -
  from assms obtain t s1 s2 where "ready_pop_or_idle s = Some (t, s1)" "prepare_switch_intent p t s1 = Some (intent, s2)"
    "commit_switch_intent intent s2 = Some (True, s')"
    by (auto simp: prepare_switch_away_locked_def prepare_switch_away_decision_def bind_eq_Some split: if_split_asm)
  moreover from this(1) have "relinked UNIV s s1"
    by (auto simp: ready_pop_or_idle_def ready_pop_def bind_eq_Some dest: ready_pop_scan_relinks)
  ultimately show "current s' = current s" "j < length (tasks s) \<Longrightarrow> \<exists>n. tasks s' ! j = (tasks s ! j)\<lparr>t_next := n\<rparr>"
    using intent_tasks commit_tasks relinked_task(1) [of UNIV s s1 j] relinked_sel(4) [of UNIV s s1] by metis+
qed

subsection \<open>Sleeping\<close>

lemma sleep_effect:
  assumes r: "sleep_locked True w s = Some (Inr intent, s')" and c: "current s < length (tasks s)"
  shows "pending_switch s' = Some (pending_of intent)" "state_of s' (current s) = Sleeping" "t_wake_at (tasks s' ! current s) = w"
    "current s' = current s"
proof -
  let ?f = "\<lambda>t. t\<lparr>t_state := Sleeping, t_wake_at := w\<rparr>" and ?c = "current s"
  from r obtain g rg where a: "prepare_switch_away_locked True ?c rg (mod_task ?c ?f (diag g s)) = Some (Some intent, s')"
    by (auto simp: sleep_locked_def current_switch_guard_def upd_task_def bind_eq_Some Let_def split: if_split_asm)
  show "pending_switch s' = Some (pending_of intent)" using away_pending [OF a] by blast
  show "current s' = current s" using away_tasks(1) [OF a] by simp
  from away_tasks(2) [OF a, of ?c] c show "state_of s' ?c = Sleeping" "t_wake_at (tasks s' ! ?c) = w" by (auto simp: mod_task_at)
qed

text \<open>A critical section that leaves a committed switch, followed by its execution.\<close>

lemma rt_inv_switched:
  assumes inv: "rt_inv e g max_delay limit Q S M" and mi: "g_machine_interrupts g"
    and p: "pending_switch (g_sched g) = Some (pending_of intent)" and ne: "ref_slot (si_target intent) \<noteq> current (g_sched g)"
  shows "\<exists>n c. execute_switch e intent g = Some (False, port_log PendReschedule (rearmed n c g))
    \<and> rt_inv e (port_log PendReschedule (rearmed n c g)) max_delay limit Q S M"
proof -
  have k: "kernel_inv (g_sched g) Q S M" and w: "wired e g max_delay limit" using inv by (simp_all add: rt_inv_def)
  from execute_switch_spec [OF k w mi p ne] obtain n c where
    r: "execute_switch e intent g = Some (False, port_log PendReschedule (rearmed n c g))" "kernel_inv (g_sched (rearmed n c g)) Q S M" by blast
  have "rt_inv e (port_log PendReschedule (rearmed n c g)) max_delay limit Q S M"
    using r(2) inv by (simp add: rt_inv_def port_log_def wired_def tidy_def)
  with r(1) show ?thesis by blast
qed

lemma target_elsewhere:
  assumes inv: "kernel_inv s Q S M" and p: "pending_switch s = Some (pending_of intent)" and c: "state_of s (current s) \<noteq> Ready"
  shows "ref_slot (si_target intent) \<noteq> current s"
  using owned_butD(6) [OF kernel_invD(8) [OF inv] p] c by (auto simp: pending_ok_def pending_of_def)

lemma sleep_ms_spec:
  assumes inv: "rt_inv e g max_delay limit Q S M" and c: "in_task (g_sched g)" and mi: "g_machine_interrupts g"
    and ms: "ms \<noteq> 0" and d: "t_scheduler_lock_depth (tasks (g_sched g) ! current (g_sched g)) = 0"
  shows "\<exists>g' Q' n1 c1 n2 c2 s'. sleep_ms e ms g = Some (Inr False, g') \<and> rt_inv e g' max_delay limit Q' S M
    \<and> g' = port_log PendReschedule (rearmed n2 c2 (rearmed n1 c1 (g\<lparr>g_reads := g_reads g + 1, g_sched := s'\<rparr>)))
    \<and> state_of s' (current (g_sched g)) = Sleeping
    \<and> t_wake_at (tasks s' ! current (g_sched g)) = sat_add U64_MAX (e_monotonic_ms e (g_reads g)) ms
    \<and> pending_target s' = Some (best_ready Q) \<and> (\<forall>b. permits s' b = permits (g_sched g) b)"
proof -
  let ?s = "g_sched g" and ?w = "sat_add U64_MAX (e_monotonic_ms e (g_reads g)) ms"
  from inv have k: "kernel_inv ?s Q S M" and td: "tidy ?s" and w: "wired e g max_delay limit" by (simp_all add: rt_inv_def)
  from w obtain st where st: "g_start g = Some st" "ported st" by (auto simp: wired_def ported_def)
  from sleep_spec [OF k c, of ?w] d obtain intent s' Q' where
    1: "sleep_locked True ?w ?s = Some (Inr intent, s')" "kernel_inv s' Q' S M" "pending_target s' = Some (best_ready Q)"
      "\<forall>b. permits s' b = permits ?s b" by auto
  have "current ?s < length (tasks ?s)" using kernel_invD(7,9) [OF k] by simp
  note ef = sleep_effect [OF 1(1) this]
  have t': "tidy s'" by (rule tidy_aside [OF td sleep_aside [OF 1(1)] idle_in [OF k]])
  let ?g1 = "g\<lparr>g_reads := g_reads g + 1, g_sched := s'\<rparr>"
  have r1: "rt_inv e ?g1 max_delay limit Q' S M" using inv 1(2) t' by (simp add: rt_inv_def wired_def)
  then have "kernel_inv (g_sched ?g1) Q' S M" "wired e ?g1 max_delay limit" by (simp_all add: rt_inv_def)
  from rearm_spec [OF this refl] obtain n1 c1 where
    2: "rearm_timer e ?g1 = Some (rearmed n1 c1 ?g1)" "kernel_inv (s'\<lparr>time_slice_deadline := n1\<rparr>) Q' S M" by auto
  have r2: "rt_inv e (rearmed n1 c1 ?g1) max_delay limit Q' S M" using r1 2(2) by (simp add: rt_inv_def wired_def tidy_def)
  let ?g2 = "rearmed n1 c1 ?g1"
  have pe: "pending_switch (g_sched ?g2) = Some (pending_of intent)" "ref_slot (si_target intent) \<noteq> current (g_sched ?g2)" "g_machine_interrupts ?g2"
    using target_elsewhere [OF 1(2) ef(1)] ef mi by simp_all
  from rt_inv_switched [OF r2 pe(3,1,2)] obtain n2 c2 where
    3: "execute_switch e intent (rearmed n1 c1 ?g1) = Some (False, port_log PendReschedule (rearmed n2 c2 (rearmed n1 c1 ?g1)))"
      "rt_inv e (port_log PendReschedule (rearmed n2 c2 (rearmed n1 c1 ?g1))) max_delay limit Q' S M"
    by blast
  have "ensure_switch_delivery g = Some (Inr ())" using st mi by (simp add: ensure_switch_delivery_def switch_delivery_is_valid_def)
  then have "sleep_ms e ms g = Some (Inr False, port_log PendReschedule (rearmed n2 c2 (rearmed n1 c1 ?g1)))"
    using ms st 1(1) 2(1) 3(1) by (simp add: sleep_ms_def now_ms_def on_sched_def leave_def)
  with 3(2) ef 1 show ?thesis by blast
qed

subsection \<open>Yielding\<close>

text \<open>Retired stacks go back to their allocator.\<close>

lemma deallocate_all: "g_start g \<noteq> None \<Longrightarrow> \<exists>h. for_each (deallocate e) ps g = Some (g\<lparr>g_heap := h\<rparr>)"
proof (induction ps arbitrary: g)
  case Nil
  then show ?case by (auto intro: exI [of _ "g_heap g"])
next
  case (Cons p ps)
  then obtain h where h: "deallocate e p g = Some (g\<lparr>g_heap := h\<rparr>)" by (auto simp: deallocate_def)
  from Cons.IH [of "g\<lparr>g_heap := h\<rparr>"] Cons.prems h show ?case by auto
qed

lemma reclaim_spec:
  assumes inv: "rt_inv e g max_delay limit Q S M"
  shows "\<exists>g'. reclaim_retired_stacks e g = Some g' \<and> rt_inv e g' max_delay limit Q S M \<and> g_calls g' = g_calls g
    \<and> tasks (g_sched g') = tasks (g_sched g) \<and> sem_mem (g_sched g') = sem_mem (g_sched g) \<and> retired_count (g_sched g') = 0"
proof -
  let ?s = "(g_sched g)\<lparr>retired_stacks := replicate TASK_SLOT_COUNT 0, retired_count := 0\<rparr>"
  from inv have k: "kernel_inv (g_sched g) Q S M" and td: "tidy (g_sched g)" by (simp_all add: rt_inv_def)
  have "g_start (g\<lparr>g_sched := ?s\<rparr>) \<noteq> None" using inv by (auto simp: rt_inv_def wired_def)
  from deallocate_all [OF this, of e "take (retired_count (g_sched g)) (retired_stacks (g_sched g))"] obtain h where
    h: "for_each (deallocate e) (take (retired_count (g_sched g)) (retired_stacks (g_sched g))) (g\<lparr>g_sched := ?s\<rparr>) = Some (g\<lparr>g_sched := ?s, g_heap := h\<rparr>)" by auto
  have "retired_count (g_sched g) \<le> length (retired_stacks (g_sched g))"
    using td shape_okD(5) [OF owned_butD(1) [OF kernel_invD(8) [OF k]]] by (simp add: tidy_def)
  then have "reclaim_retired_stacks e g = Some (g\<lparr>g_sched := ?s, g_heap := h\<rparr>)" using h by (simp add: reclaim_retired_stacks_def Let_def)
  moreover have "rt_inv e (g\<lparr>g_sched := ?s, g_heap := h\<rparr>) max_delay limit Q S M"
    using inv kernel_fields(4) [OF k, of "replicate TASK_SLOT_COUNT 0" 0] by (simp add: rt_inv_def wired_def tidy_def)
  ultimately show ?thesis by auto
qed

lemma yield_pending:
  assumes "yield_locked True now s = Some (Inr (Some intent), s')" "pending_switch s' \<noteq> None"
  shows "pending_switch s' = Some (pending_of intent)" "ref_slot (si_target intent) \<noteq> ref_slot (si_previous intent)"
proof -
  from assms(1) obtain p t s1 where "prepare_switch True p t s1 = Some (intent, s')"
    by (auto simp: yield_locked_def current_switch_guard_def bind_eq_Some Let_def split: if_split_asm option.split_asm)
  from switch_pending [OF this assms(2)] show "pending_switch s' = Some (pending_of intent)"
    "ref_slot (si_target intent) \<noteq> ref_slot (si_previous intent)" by auto
qed

lemma yield_now_spec:
  assumes inv: "rt_inv e g max_delay limit Q S M" and c: "state_of (g_sched g) (current (g_sched g)) = Running"
      "next_switch_sequence (g_sched g) < U64_MAX" "t_scheduler_lock_depth (tasks (g_sched g) ! current (g_sched g)) = 0"
    and mi: "g_machine_interrupts g"
  shows "\<exists>s1 Q1 S1 M1 g' Q'. wake_sleepers (e_monotonic_ms e (g_reads g)) (diag (\<lambda>d. d\<lparr>d_yields := bump32 (d_yields d)\<rparr>) (g_sched g)) = Some s1
    \<and> kernel_inv s1 Q1 S1 M1 \<and> yield_now e g = Some (Inr (queued Q1 = {}), g') \<and> rt_inv e g' max_delay limit Q' S1 M1
    \<and> (\<forall>b. b \<noteq> 0 \<longrightarrow> permits (g_sched g') b = permits (g_sched g) b)
    \<and> (if queued Q1 = {} then g_calls g' = g_calls g \<and> retired_count (g_sched g') = 0 \<and> tasks (g_sched g') = tasks s1
       else pending_target (g_sched g') = Some (best_ready Q1) \<and> (\<exists>c. g_calls g' = g_calls g @ [command_call c, PendReschedule]))"
proof -
  let ?s = "g_sched g" and ?now = "e_monotonic_ms e (g_reads g)"
  from inv have k: "kernel_inv ?s Q S M" and td: "tidy ?s" and w: "wired e g max_delay limit" by (simp_all add: rt_inv_def)
  from w obtain st where st: "g_start g = Some st" "ported st" by (auto simp: wired_def ported_def)
  have "?now \<le> U64_MAX" using wired_now [OF w] by blast
  from yield_spec [OF k c(1,2) this] c(3) obtain s1 Q1 S1 M1 r s' Q' where
    1: "wake_sleepers ?now (diag (\<lambda>d. d\<lparr>d_yields := bump32 (d_yields d)\<rparr>) ?s) = Some s1" "kernel_inv s1 Q1 S1 M1"
      "yield_locked True ?now ?s = Some (Inr r, s')" "kernel_inv s' Q' S1 M1"
      "if queued Q1 = {} then r = None \<and> s' = s1 else r \<noteq> None \<and> pending_target s' = Some (best_ready Q1)"
      "\<forall>b. b \<noteq> 0 \<longrightarrow> permits s' b = permits ?s b" by auto
  have t': "tidy s'" by (rule tidy_aside [OF td yield_aside [OF 1(3)] idle_in [OF k]])
  let ?g1 = "g\<lparr>g_reads := g_reads g + 1, g_sched := s'\<rparr>"
  have r1: "rt_inv e ?g1 max_delay limit Q' S1 M1" using inv 1(4) t' by (simp add: rt_inv_def wired_def)
  have del: "ensure_switch_delivery g = Some (Inr ())" using st mi by (simp add: ensure_switch_delivery_def switch_delivery_is_valid_def)
  show ?thesis
  proof (cases "queued Q1 = {}")
    case True
    from reclaim_spec [OF r1] obtain g' where
      2: "reclaim_retired_stacks e ?g1 = Some g'" "rt_inv e g' max_delay limit Q' S1 M1" "g_calls g' = g_calls g"
        "tasks (g_sched g') = tasks s'" "retired_count (g_sched g') = 0" "sem_mem (g_sched g') = sem_mem s'" by auto
    have "yield_now e g = Some (Inr True, g')" using del st 1(3,5) True 2(1) by (simp add: yield_now_def now_ms_def on_sched_def)
    moreover have "permits (g_sched g') b = permits s' b" for b by (rule permits_map) (simp_all add: 2)
    ultimately show ?thesis using 1 2 True by (intro exI [of _ s1]) auto
  next
    case False
    with 1(5) obtain intent where i: "r = Some intent" "pending_target s' = Some (best_ready Q1)" by auto
    then have "pending_switch s' \<noteq> None" by (auto simp: pending_target_def)
    note yp = yield_pending [OF 1(3) [unfolded i(1)] this]
    have ne: "ref_slot (si_target intent) \<noteq> current s'"
      using owned_butD(6) [OF kernel_invD(8) [OF 1(4)] yp(1)] yp(2) by (simp add: pending_ok_def pending_of_def)
    from rt_inv_switched [OF r1, of intent] mi yp(1) ne obtain n cm where
      2: "execute_switch e intent ?g1 = Some (False, port_log PendReschedule (rearmed n cm ?g1))"
        "rt_inv e (port_log PendReschedule (rearmed n cm ?g1)) max_delay limit Q' S1 M1" by auto
    let ?g' = "port_log PendReschedule (rearmed n cm ?g1)"
    have "yield_now e g = Some (Inr (queued Q1 = {}), ?g')"
      using False del st 1(3) i(1) 2(1) by (simp add: yield_now_def now_ms_def on_sched_def leave_def)
    moreover have "\<forall>b. b \<noteq> 0 \<longrightarrow> permits (g_sched ?g') b = permits ?s b"
      "if queued Q1 = {} then g_calls ?g' = g_calls g \<and> retired_count (g_sched ?g') = 0 \<and> tasks (g_sched ?g') = tasks s1
       else pending_target (g_sched ?g') = Some (best_ready Q1) \<and> (\<exists>c. g_calls ?g' = g_calls g @ [command_call c, PendReschedule])"
      using i(2) 1(6) False by (auto simp: port_log_def pending_target_def)
    ultimately show ?thesis using 1(1,2) 2(2) by blast
  qed
qed

subsection \<open>Ending\<close>

text \<open>What the end of a task leaves: a free slot, its stack retired, the switch committed.\<close>

lemma exit_effect:
  assumes r: "task_exit_locked True s = Some (intent, s')" and c: "current s < length (tasks s)"
  shows "pending_switch s' = Some (pending_of intent)" "state_of s' (current s) = Free" "current s' = current s" "irq_task s' = irq_task s"
    "retired_count s' = retired_count s + of_bool (t_stack (tasks s ! current s) \<noteq> 0)" "current s \<noteq> IDLE_SLOT"
    "IDLE_SLOT < length (tasks s) \<Longrightarrow> spec (t_budget (tasks s' ! IDLE_SLOT)) = spec (t_budget (tasks s ! IDLE_SLOT))"
proof -
  let ?c = "current s" and ?s1 = "mod_task (current s) (\<lambda>_. tcb_empty) s"
  from r c obtain s2 where ni: "?c \<noteq> IDLE_SLOT" and rt: "retire_stack (t_stack (tasks s ! ?c)) ?s1 = Some s2"
    and a: "prepare_switch_away_locked True ?c (t_resume_generation tcb_empty) s2 = Some (Some intent, s')"
    by (auto simp: task_exit_locked_def bind_eq_Some Let_def assert_that_def split: if_split_asm)
  have s2: "tasks s2 = tasks ?s1" "current s2 = ?c" "irq_task s2 = irq_task s" "retired_count s2 = retired_count s + of_bool (t_stack (tasks s ! ?c) \<noteq> 0)"
    using rt by (auto simp: retire_stack_def bind_eq_Some assert_that_def chk_add_def split: if_split_asm)
  note as = asideD [OF switch_away_aside [OF a]]
  show "?c \<noteq> IDLE_SLOT" by (rule ni)
  show "pending_switch s' = Some (pending_of intent)" using away_pending [OF a] by blast
  show "current s' = current s" "irq_task s' = irq_task s" "retired_count s' = retired_count s + of_bool (t_stack (tasks s ! ?c) \<noteq> 0)"
    using away_tasks(1) [OF a] as s2 by simp_all
  show "state_of s' ?c = Free" using away_tasks(2) [OF a, of ?c] s2(1) c by (auto simp: mod_task_at tcb_empty_def)
  show "spec (t_budget (tasks s' ! IDLE_SLOT)) = spec (t_budget (tasks s ! IDLE_SLOT))" if "IDLE_SLOT < length (tasks s)"
    using as(7) [of IDLE_SLOT] s2(1) that c ni by (simp add: mod_task_at)
qed

lemma task_exit_spec:
  assumes inv: "rt_inv e g max_delay limit Q S M" and c: "in_task (g_sched g)" and mi: "g_machine_interrupts g"
    and d: "t_scheduler_lock_depth (tasks (g_sched g) ! current (g_sched g)) = 0"
    and own: "t_inherited_waiters (tasks (g_sched g) ! current (g_sched g)) = replicate PRIORITY_LEVELS 0"
    and room: "retired_count (g_sched g) < TASK_SLOT_COUNT"
  shows "\<exists>g' Q'. task_exit e g = Some g' \<and> rt_inv e g' max_delay limit Q' S M \<and> pending_target (g_sched g') = Some (best_ready Q)
    \<and> state_of (g_sched g') (current (g_sched g)) = Free
    \<and> retired_count (g_sched g') = retired_count (g_sched g) + of_bool (t_stack (tasks (g_sched g) ! current (g_sched g)) \<noteq> 0)
    \<and> (\<forall>b. permits (g_sched g') b = permits (g_sched g) b)"
proof -
  let ?s = "g_sched g"
  from inv have k: "kernel_inv ?s Q S M" and td: "tidy ?s" and w: "wired e g max_delay limit" by (simp_all add: rt_inv_def)
  from w obtain st where st: "g_start g = Some st" "ported st" by (auto simp: wired_def ported_def)
  from exit_spec [OF k _ _ _ _ d own room] c obtain intent s' Q' where
    1: "task_exit_locked True ?s = Some (intent, s')" "kernel_inv s' Q' S M" "pending_target s' = Some (best_ready Q)"
      "\<forall>b. permits s' b = permits ?s b" unfolding in_task_def by blast
  have "current ?s < length (tasks ?s)" using kernel_invD(7,9) [OF k] by simp
  note ef = exit_effect [OF 1(1) this]
  have "tidy s'" using td room ef(4,5) ef(7) [OF idle_in [OF k]] by (auto simp: tidy_def)
  then have r1: "rt_inv e (g\<lparr>g_sched := s'\<rparr>) max_delay limit Q' S M" using inv 1(2) by (simp add: rt_inv_def wired_def)
  have "ref_slot (si_target intent) \<noteq> current s'" using target_elsewhere [OF 1(2) ef(1)] ef(2,3) by simp
  with rt_inv_switched [OF r1, of intent] mi ef(1) obtain n cm where
    2: "execute_switch e intent (g\<lparr>g_sched := s'\<rparr>) = Some (False, port_log PendReschedule (rearmed n cm (g\<lparr>g_sched := s'\<rparr>)))"
      "rt_inv e (port_log PendReschedule (rearmed n cm (g\<lparr>g_sched := s'\<rparr>))) max_delay limit Q' S M" by auto
  have "ensure_switch_delivery g = Some (Inr ())" using st mi by (simp add: ensure_switch_delivery_def switch_delivery_is_valid_def)
  then have "task_exit e g = Some (port_log PendReschedule (rearmed n cm (g\<lparr>g_sched := s'\<rparr>)))"
    using st 1(1) 2(1) by (simp add: task_exit_def on_sched_def)
  with 2(2) 1(3,4) ef(2,5) show ?thesis
    by (intro exI [of _ "port_log PendReschedule (rearmed n cm (g\<lparr>g_sched := s'\<rparr>))"] exI [of _ Q']) (simp add: port_log_def pending_target_def)
qed

subsection \<open>Properties\<close>

text \<open>The runtime of three tasks at rest, with a clock that stops after a second.\<close>

definition trio_env :: "unit env" where
  "trio_env = demo_env\<lparr>e_monotonic_ms := (\<lambda>k. 10 * min k 100)\<rparr>"

definition trio_rt :: "unit rt" where
  "trio_rt = demo_rt\<lparr>g_sched := trio, g_reads := 20\<rparr>"

lemma trio_rt_inv: "rt_inv trio_env trio_rt 1000 100 (\<lambda>_. []) (\<lambda>_. []) (\<lambda>_. [])"
proof -
  have "irq_task trio = NIL" "retired_count trio = 0" by (simp_all add: trio_def sched_new_def)
  moreover have "spec (t_budget (tasks trio ! IDLE_SLOT)) = None" using trio_tasks(2) by (simp add: IDLE_SLOT_def tcb_empty_def)
  moreover have "10 * min k 100 < NO_TIMESTAMP" for k :: nat using min.cobounded2 [of k 100] by (simp add: NO_TIMESTAMP_def)
  ultimately show ?thesis using trio_inv by (simp add: rt_inv_def trio_rt_def trio_env_def tidy_def wired_def demo_rt_def demo_env_def)
qed



text \<open>
  C14. Sleeping hands the processor over. A call with interrupts disabled or under the scheduler lock is
  refused. Any other call returns with every assertion on the way satisfied: the caller sleeps until
  the requested time, the timer was programmed, the switch was requested from the port, and the
  software interrupt that answers it resumes the most urgent ready task, or the idle task, with a real
  frame. Permits are kept, and before and after the switch the runtime is at rest.
\<close>

theorem sleep_hands_over:
  assumes "rt_inv e g max_delay limit Q S M" "in_task (g_sched g)" "ms \<noteq> 0" "frame \<noteq> 0"
  shows "if \<not> g_machine_interrupts g then sleep_ms e ms g = Some (Inl InvalidContext, g)
    else if t_scheduler_lock_depth (tasks (g_sched g) ! current (g_sched g)) \<noteq> 0
      then sleep_ms e ms g = Some (Inl InvalidContext, g\<lparr>g_reads := g_reads g + 1\<rparr>)
    else \<exists>g1 g2 f g3 Q1 Q3 c c'. sleep_ms e ms g = Some (Inr False, g1) \<and> rt_inv e g1 max_delay limit Q1 S M
      \<and> state_of (g_sched g1) (current (g_sched g)) = Sleeping
      \<and> t_wake_at (tasks (g_sched g1) ! current (g_sched g)) = sat_add U64_MAX (e_monotonic_ms e (g_reads g)) ms
      \<and> (\<forall>b. permits (g_sched g1) b = permits (g_sched g) b)
      \<and> g_calls g1 = g_calls g @ [command_call c, command_call c', PendReschedule]
      \<and> handle_software_interrupt e g1 = Some g2 \<and> hisi_irq_epilogue e frame g2 = Some (f, g3) \<and> f \<noteq> 0
      \<and> rt_inv e g3 max_delay limit Q3 S M \<and> current (g_sched g3) = best_ready Q \<and> state_of (g_sched g3) (best_ready Q) = Running"
proof -
  from assms(1) have k: "kernel_inv (g_sched g) Q S M" and w: "wired e g max_delay limit" and d0: "g_interrupt_depth g = 0" by (simp_all add: rt_inv_def)
  from w obtain st where st: "g_start g = Some st" "ported st" by (auto simp: wired_def ported_def)
  consider (off) "\<not> g_machine_interrupts g"
    | (locked) "g_machine_interrupts g" "t_scheduler_lock_depth (tasks (g_sched g) ! current (g_sched g)) \<noteq> 0"
    | (go) "g_machine_interrupts g" "t_scheduler_lock_depth (tasks (g_sched g) ! current (g_sched g)) = 0" by blast
  then show ?thesis
  proof cases
    case off
    then show ?thesis using st d0 assms(3) by (simp add: sleep_ms_def ensure_switch_delivery_def switch_delivery_is_valid_def)
  next
    case locked
    from sleep_spec [OF k assms(2)] locked(2)
    have "sleep_locked True wk (g_sched g) = Some (Inl InvalidContext, g_sched g)" for wk by simp
    with locked st assms(3) show ?thesis
      by (simp add: sleep_ms_def ensure_switch_delivery_def switch_delivery_is_valid_def now_ms_def on_sched_def)
  next
    case go
    from sleep_ms_spec [OF assms(1,2) go(1) assms(3) go(2)] obtain g1 Q1 n1 c1 n2 c2 s' where
      1: "sleep_ms e ms g = Some (Inr False, g1)" "rt_inv e g1 max_delay limit Q1 S M"
        "g1 = port_log PendReschedule (rearmed n2 c2 (rearmed n1 c1 (g\<lparr>g_reads := g_reads g + 1, g_sched := s'\<rparr>)))"
        "state_of s' (current (g_sched g)) = Sleeping" "t_wake_at (tasks s' ! current (g_sched g)) = sat_add U64_MAX (e_monotonic_ms e (g_reads g)) ms"
        "pending_target s' = Some (best_ready Q)" "\<forall>b. permits s' b = permits (g_sched g) b" by blast
    have g1: "tasks (g_sched g1) = tasks s'" "permits (g_sched g1) b = permits s' b" "pending_target (g_sched g1) = Some (best_ready Q)"
      "g_calls g1 = g_calls g @ [command_call c1, command_call c2, PendReschedule]" for b
      using 1(3,6) by (simp_all add: port_log_def pending_target_def)
    from switch_delivered [OF 1(2) g1(3) assms(4)] 1(1,2,4,5,7) g1 go show ?thesis by auto
  qed
qed

theorem sleep_hands_over_witness:
  "\<exists>g1 g2 f g3. sleep_ms trio_env 5 trio_rt = Some (Inr False, g1) \<and> handle_software_interrupt trio_env g1 = Some g2
    \<and> hisi_irq_epilogue trio_env 4096 g2 = Some (f, g3) \<and> current (g_sched g3) = IDLE_SLOT"
proof -
  have t: "g_sched trio_rt = trio" "g_machine_interrupts trio_rt" by (simp_all add: trio_rt_def demo_rt_def)
  have "best_ready (\<lambda>_. []) = IDLE_SLOT" using first_bucket_None [of "\<lambda>_. []"] by (simp add: best_ready_def queued_def)
  with sleep_hands_over [OF trio_rt_inv, of 5 4096] t trio_task(1,2) show ?thesis by auto
qed

text \<open>
  C15. Yielding, also from the idle loop: the call wakes what is due and then either finds nobody ready,
  empties the list of retired stacks and goes on, or leaves for the most urgent ready task,
  which the requested software interrupt then runs; every assertion on the way holds, permits are kept,
  and the runtime is at rest again.
\<close>

theorem yield_hands_over:
  assumes "rt_inv e g max_delay limit Q S M" "state_of (g_sched g) (current (g_sched g)) = Running"
    "next_switch_sequence (g_sched g) < U64_MAX" "t_scheduler_lock_depth (tasks (g_sched g) ! current (g_sched g)) = 0"
    "g_machine_interrupts g" "frame \<noteq> 0"
  shows "\<exists>s1 Q1 S1 M1 g1 Q2. wake_sleepers (e_monotonic_ms e (g_reads g)) (diag (\<lambda>d. d\<lparr>d_yields := bump32 (d_yields d)\<rparr>) (g_sched g)) = Some s1
    \<and> kernel_inv s1 Q1 S1 M1 \<and> yield_now e g = Some (Inr (queued Q1 = {}), g1) \<and> idle_round e g = Some g1
    \<and> rt_inv e g1 max_delay limit Q2 S1 M1 \<and> (\<forall>b. b \<noteq> 0 \<longrightarrow> permits (g_sched g1) b = permits (g_sched g) b)
    \<and> (if queued Q1 = {} then tasks (g_sched g1) = tasks s1 \<and> retired_count (g_sched g1) = 0 \<and> g_calls g1 = g_calls g
       else \<exists>g2 f g3 Q3. handle_software_interrupt e g1 = Some g2 \<and> hisi_irq_epilogue e frame g2 = Some (f, g3) \<and> f \<noteq> 0
         \<and> rt_inv e g3 max_delay limit Q3 S1 M1 \<and> current (g_sched g3) = best_ready Q1 \<and> state_of (g_sched g3) (best_ready Q1) = Running)"
proof -
  from yield_now_spec [OF assms(1-5)] obtain s1 Q1 S1 M1 g1 Q2 where
    1: "wake_sleepers (e_monotonic_ms e (g_reads g)) (diag (\<lambda>d. d\<lparr>d_yields := bump32 (d_yields d)\<rparr>) (g_sched g)) = Some s1"
      "kernel_inv s1 Q1 S1 M1" "yield_now e g = Some (Inr (queued Q1 = {}), g1)" "rt_inv e g1 max_delay limit Q2 S1 M1"
      "\<forall>b. b \<noteq> 0 \<longrightarrow> permits (g_sched g1) b = permits (g_sched g) b"
      "if queued Q1 = {} then g_calls g1 = g_calls g \<and> retired_count (g_sched g1) = 0 \<and> tasks (g_sched g1) = tasks s1
       else pending_target (g_sched g1) = Some (best_ready Q1) \<and> (\<exists>c. g_calls g1 = g_calls g @ [command_call c, PendReschedule])" by blast
  have "if queued Q1 = {} then tasks (g_sched g1) = tasks s1 \<and> retired_count (g_sched g1) = 0 \<and> g_calls g1 = g_calls g
       else \<exists>g2 f g3 Q3. handle_software_interrupt e g1 = Some g2 \<and> hisi_irq_epilogue e frame g2 = Some (f, g3) \<and> f \<noteq> 0
         \<and> rt_inv e g3 max_delay limit Q3 S1 M1 \<and> current (g_sched g3) = best_ready Q1 \<and> state_of (g_sched g3) (best_ready Q1) = Running"
    using 1(6) switch_delivered [OF 1(4) _ assms(6), of "best_ready Q1"] by (cases "queued Q1 = {}") auto
  moreover have "idle_round e g = Some g1" using 1(3) by (simp add: idle_round_def)
  ultimately show ?thesis using 1(1-5) by blast
qed

theorem yield_hands_over_witness:
  "\<exists>r g1 Q S M. yield_now trio_env trio_rt = Some (Inr r, g1) \<and> rt_inv trio_env g1 1000 100 Q S M"
proof -
  have t: "g_sched trio_rt = trio" "g_machine_interrupts trio_rt" by (simp_all add: trio_rt_def demo_rt_def)
  have "state_of (g_sched trio_rt) (current (g_sched trio_rt)) = Running" "next_switch_sequence (g_sched trio_rt) < U64_MAX"
    "t_scheduler_lock_depth (tasks (g_sched trio_rt) ! current (g_sched trio_rt)) = 0" "(4096 :: nat) \<noteq> 0"
    using t(1) trio_task(2,3) trio_sel(5) by simp_all
  from yield_hands_over [OF trio_rt_inv this(1-3) t(2) this(4)] show ?thesis by blast
qed



end
