(* ===== verification/Context_Switch.thy ===== *)
theory Context_Switch
  imports Runtime
begin

unbundle bit_operations_syntax

text \<open>
  The switch of the runtime without a port (\<open>context.rs\<close>): the code that saves the registers of the
  task that leaves into its context and resumes the context of the next one. The code is a list of
  instructions of the RISC-V hart; a machine has the registers the code uses, the control registers
  and a memory of words, and an instruction that would trap is \<open>None\<close>: an access that is misaligned
  or outside the memory, a privileged instruction outside machine mode, a floating point instruction
  while \<open>mstatus.FS\<close> is off. The lemmas show that the code saves and restores exactly a context of the
  layout of the source, and that a task that is switched away and back finds what a call must keep.
\<close>

subsection \<open>The hart\<close>

datatype gpr = RA | SP | TP | Tr nat | Ar nat | Sr nat

datatype fpr = FTr nat | FAr nat | FSr nat

record machine =
  mc_x :: "gpr \<Rightarrow> 32 word"
  mc_f :: "fpr \<Rightarrow> 32 word"
  mc_mstatus :: "32 word"
  mc_mepc :: "32 word"
  mc_fcsr :: "32 word"
  mc_pc :: "32 word"
  mc_machine_mode :: bool
  mc_least_privilege :: "32 word"
  mc_mem :: "32 word \<rightharpoonup> 32 word"

datatype instr =
    Li gpr "32 word" | Mv gpr gpr | Andi gpr gpr "32 word" | Slli gpr gpr nat | And gpr gpr gpr | Or gpr gpr gpr
  | Sw gpr nat gpr | Lw gpr nat gpr | Fsw fpr nat gpr | Flw fpr nat gpr | Frcsr gpr | Fscsr gpr
  | Csrrc_mstatus gpr gpr | Csrw_mstatus gpr | Csrw_mepc gpr | Mret

text \<open>Bits of \<open>mstatus\<close>: MIE is bit 3, MPIE bit 7, MPP bits 11 and 12, FS bits 13 and 14, MPRV bit 17.\<close>

definition fs_on :: "32 word \<Rightarrow> bool" where
  "fs_on s \<longleftrightarrow> bit s 13 \<or> bit s 14"

definition set_x :: "gpr \<Rightarrow> 32 word \<Rightarrow> machine \<Rightarrow> machine" where
  "set_x r v m = m\<lparr>mc_x := (mc_x m)(r := v)\<rparr>"

definition load_word :: "32 word \<Rightarrow> machine \<Rightarrow> 32 word option" where
  "load_word a m = (if take_bit 2 a = 0 then mc_mem m a else None)"

definition store_word :: "32 word \<Rightarrow> 32 word \<Rightarrow> machine \<Rightarrow> machine option" where
  "store_word a v m = do { _ \<leftarrow> load_word a m; Some (m\<lparr>mc_mem := (mc_mem m)(a \<mapsto> v)\<rparr>) }"

text \<open>A write to the floating point state leaves FS dirty.\<close>

definition fp_dirty :: "machine \<Rightarrow> machine" where
  "fp_dirty m = m\<lparr>mc_mstatus := mc_mstatus m OR 0x6000\<rparr>"

text \<open>
  The return from a trap: MIE is taken from MPIE, MPIE is set, the privilege is that of MPP, MPP becomes
  the least privilege of the hart, and MPRV is cleared on the way to a mode below machine mode.
\<close>

definition mret :: "machine \<Rightarrow> machine" where
  "mret m = (let s = mc_mstatus m; to_machine = (bit s 11 \<and> bit s 12);
                 s' = (s AND NOT 0x1888) OR (drop_bit 4 s AND 8) OR 0x80 OR (push_bit 11 (mc_least_privilege m AND 3))
             in m\<lparr>mc_pc := mc_mepc m, mc_machine_mode := to_machine,
                  mc_mstatus := (if to_machine then s' else s' AND NOT 0x20000)\<rparr>)"

fun step_instr :: "instr \<Rightarrow> machine \<Rightarrow> machine option" where
  "step_instr (Li d v) m = Some (set_x d v m)"
| "step_instr (Mv d s) m = Some (set_x d (mc_x m s) m)"
| "step_instr (Andi d s v) m = Some (set_x d (mc_x m s AND v) m)"
| "step_instr (Slli d s n) m = Some (set_x d (push_bit n (mc_x m s)) m)"
| "step_instr (And d s t) m = Some (set_x d (mc_x m s AND mc_x m t) m)"
| "step_instr (Or d s t) m = Some (set_x d (mc_x m s OR mc_x m t) m)"
| "step_instr (Sw s n b) m = store_word (mc_x m b + of_nat n) (mc_x m s) m"
| "step_instr (Lw d n b) m = do { v \<leftarrow> load_word (mc_x m b + of_nat n) m; Some (set_x d v m) }"
| "step_instr (Fsw s n b) m = do {
     assert_that (fs_on (mc_mstatus m));
     store_word (mc_x m b + of_nat n) (mc_f m s) m
   }"
| "step_instr (Flw d n b) m = do {
     assert_that (fs_on (mc_mstatus m));
     v \<leftarrow> load_word (mc_x m b + of_nat n) m;
     Some (fp_dirty (m\<lparr>mc_f := (mc_f m)(d := v)\<rparr>))
   }"
| "step_instr (Frcsr d) m = do { assert_that (fs_on (mc_mstatus m)); Some (set_x d (mc_fcsr m) m) }"
| "step_instr (Fscsr s) m = do {
     assert_that (fs_on (mc_mstatus m));
     Some (fp_dirty (m\<lparr>mc_fcsr := mc_x m s\<rparr>))
   }"
| "step_instr (Csrrc_mstatus d s) m = do {
     assert_that (mc_machine_mode m);
     Some ((set_x d (mc_mstatus m) m)\<lparr>mc_mstatus := mc_mstatus m AND NOT (mc_x m s)\<rparr>)
   }"
| "step_instr (Csrw_mstatus s) m = do { assert_that (mc_machine_mode m); Some (m\<lparr>mc_mstatus := mc_x m s\<rparr>) }"
| "step_instr (Csrw_mepc s) m = do { assert_that (mc_machine_mode m); Some (m\<lparr>mc_mepc := mc_x m s AND NOT 1\<rparr>) }"
| "step_instr Mret m = do { assert_that (mc_machine_mode m); Some (mret m) }"

fun run_code :: "instr list \<Rightarrow> machine \<Rightarrow> machine option" where
  "run_code [] m = Some m"
| "run_code (i # is) m = do { m \<leftarrow> step_instr i m; run_code is m }"

subsection \<open>The code and the layout of a context\<close>

definition cooperative_context_switch_fallback :: "instr list" where
  "cooperative_context_switch_fallback =
    [Li (Tr 1) 8, Csrrc_mstatus (Tr 0) (Tr 1), Andi (Tr 2) (Tr 0) 8, Slli (Tr 2) (Tr 2) 4, Li (Tr 1) (- 137),
     And (Tr 0) (Tr 0) (Tr 1), Or (Tr 0) (Tr 0) (Tr 2), Li (Tr 1) 0x1800, Or (Tr 0) (Tr 0) (Tr 1),
     Sw (Tr 0) 0 (Ar 0), Sw RA 4 (Ar 0), Sw TP 8 (Ar 0), Sw SP 12 (Ar 0), Sw (Sr 11) 16 (Ar 0),
     Sw (Sr 10) 20 (Ar 0), Sw (Sr 9) 24 (Ar 0), Sw (Sr 8) 28 (Ar 0), Sw (Sr 7) 32 (Ar 0), Sw (Sr 6) 36 (Ar 0),
     Sw (Sr 5) 40 (Ar 0), Sw (Sr 4) 44 (Ar 0), Sw (Sr 3) 48 (Ar 0), Sw (Sr 2) 52 (Ar 0), Sw (Sr 1) 56 (Ar 0),
     Sw (Sr 0) 60 (Ar 0), Fsw (FSr 11) 128 (Ar 0), Fsw (FSr 10) 132 (Ar 0), Fsw (FSr 9) 136 (Ar 0),
     Fsw (FSr 8) 140 (Ar 0), Fsw (FSr 7) 144 (Ar 0), Fsw (FSr 6) 148 (Ar 0), Fsw (FSr 5) 152 (Ar 0),
     Fsw (FSr 4) 156 (Ar 0), Fsw (FSr 3) 160 (Ar 0), Fsw (FSr 2) 164 (Ar 0), Fsw (FSr 1) 168 (Ar 0),
     Fsw (FSr 0) 172 (Ar 0), Frcsr (Tr 0), Sw (Tr 0) 256 (Ar 0), Mv (Tr 0) (Ar 1), Lw (Tr 1) 0 (Tr 0),
     Csrw_mstatus (Tr 1), Lw (Tr 1) 4 (Tr 0), Csrw_mepc (Tr 1), Lw (Tr 1) 256 (Tr 0), Fscsr (Tr 1),
     Flw (FSr 11) 128 (Tr 0), Flw (FSr 10) 132 (Tr 0), Flw (FSr 9) 136 (Tr 0), Flw (FSr 8) 140 (Tr 0),
     Flw (FSr 7) 144 (Tr 0), Flw (FSr 6) 148 (Tr 0), Flw (FSr 5) 152 (Tr 0), Flw (FSr 4) 156 (Tr 0),
     Flw (FSr 3) 160 (Tr 0), Flw (FSr 2) 164 (Tr 0), Flw (FSr 1) 168 (Tr 0), Flw (FSr 0) 172 (Tr 0),
     Flw (FTr 11) 176 (Tr 0), Flw (FTr 10) 180 (Tr 0), Flw (FTr 9) 184 (Tr 0), Flw (FTr 8) 188 (Tr 0),
     Flw (FAr 7) 192 (Tr 0), Flw (FAr 6) 196 (Tr 0), Flw (FAr 5) 200 (Tr 0), Flw (FAr 4) 204 (Tr 0),
     Flw (FAr 3) 208 (Tr 0), Flw (FAr 2) 212 (Tr 0), Flw (FAr 1) 216 (Tr 0), Flw (FAr 0) 220 (Tr 0),
     Flw (FTr 7) 224 (Tr 0), Flw (FTr 6) 228 (Tr 0), Flw (FTr 5) 232 (Tr 0), Flw (FTr 4) 236 (Tr 0),
     Flw (FTr 3) 240 (Tr 0), Flw (FTr 2) 244 (Tr 0), Flw (FTr 1) 248 (Tr 0), Flw (FTr 0) 252 (Tr 0),
     Lw TP 8 (Tr 0), Lw (Sr 11) 16 (Tr 0), Lw (Sr 10) 20 (Tr 0), Lw (Sr 9) 24 (Tr 0), Lw (Sr 8) 28 (Tr 0),
     Lw (Sr 7) 32 (Tr 0), Lw (Sr 6) 36 (Tr 0), Lw (Sr 5) 40 (Tr 0), Lw (Sr 4) 44 (Tr 0), Lw (Sr 3) 48 (Tr 0),
     Lw (Sr 2) 52 (Tr 0), Lw (Sr 1) 56 (Tr 0), Lw (Sr 0) 60 (Tr 0), Lw (Tr 6) 64 (Tr 0), Lw (Tr 5) 68 (Tr 0),
     Lw (Tr 4) 72 (Tr 0), Lw (Tr 3) 76 (Tr 0), Lw (Ar 7) 80 (Tr 0), Lw (Ar 6) 84 (Tr 0), Lw (Ar 5) 88 (Tr 0),
     Lw (Ar 4) 92 (Tr 0), Lw (Ar 3) 96 (Tr 0), Lw (Ar 2) 100 (Tr 0), Lw (Ar 1) 104 (Tr 0),
     Lw (Ar 0) 108 (Tr 0), Lw (Tr 2) 112 (Tr 0), Lw (Tr 1) 116 (Tr 0), Lw RA 124 (Tr 0), Lw SP 12 (Tr 0),
     Lw (Tr 0) 120 (Tr 0), Mret]"

text \<open>A context in memory, field by field in the order of the source.\<close>

definition context_words :: "task_context \<Rightarrow> 32 word list" where
  "context_words c = [cx_mstatus c, cx_mepc c, cx_tp c, cx_sp c] @ cx_s c @ cx_caller_gpr c @ cx_f c
     @ [cx_fcsr c] @ cx_reserved c"

definition context_ok :: "task_context \<Rightarrow> bool" where
  "context_ok c \<longleftrightarrow> length (cx_s c) = 12 \<and> length (cx_caller_gpr c) = 16 \<and> length (cx_f c) = 32 \<and> length (cx_reserved c) = 3"

text \<open>The registers of the fields, in the order the comments of the source give.\<close>

definition s_regs :: "gpr list" where
  "s_regs = map Sr [11, 10, 9, 8, 7, 6, 5, 4, 3, 2, 1, 0]"

definition caller_regs :: "gpr list" where
  "caller_regs = map Tr [6, 5, 4, 3] @ map Ar [7, 6, 5, 4, 3, 2, 1, 0] @ map Tr [2, 1, 0] @ [RA]"

definition fs_regs :: "fpr list" where
  "fs_regs = map FSr [11, 10, 9, 8, 7, 6, 5, 4, 3, 2, 1, 0]"

definition f_regs :: "fpr list" where
  "f_regs = fs_regs @ map FTr [11, 10, 9, 8] @ map FAr [7, 6, 5, 4, 3, 2, 1, 0] @ map FTr [7, 6, 5, 4, 3, 2, 1, 0]"

text \<open>The addresses of a context, and a memory that holds given words there.\<close>

definition context_addr :: "32 word \<Rightarrow> nat \<Rightarrow> 32 word" where
  "context_addr p i = p + of_nat (4 * i)"

definition placed :: "32 word \<Rightarrow> bool" where
  "placed p \<longleftrightarrow> take_bit 4 p = 0 \<and> unat p + 4 * TASK_CONTEXT_WORDS \<le> 2 ^ 32"

definition apart :: "32 word \<Rightarrow> 32 word \<Rightarrow> bool" where
  "apart p q \<longleftrightarrow> unat p + 4 * TASK_CONTEXT_WORDS \<le> unat q \<or> unat q + 4 * TASK_CONTEXT_WORDS \<le> unat p"

definition holds_words :: "(32 word \<rightharpoonup> 32 word) \<Rightarrow> 32 word \<Rightarrow> 32 word list \<Rightarrow> bool" where
  "holds_words h p ws \<longleftrightarrow> length ws = TASK_CONTEXT_WORDS \<and> (\<forall>i < TASK_CONTEXT_WORDS. h (context_addr p i) = Some (ws ! i))"

definition holds_context :: "machine \<Rightarrow> 32 word \<Rightarrow> task_context \<Rightarrow> bool" where
  "holds_context m p c \<longleftrightarrow> context_ok c \<and> holds_words (mc_mem m) p (context_words c)"

text \<open>What is saved over the old content \<open>c\<close> of the context, and a machine that continues a context.\<close>

definition saved_mstatus :: "32 word \<Rightarrow> 32 word" where
  "saved_mstatus s = (s AND (- 137)) OR push_bit 4 (s AND 8) OR 0x1800"

definition saved_context :: "machine \<Rightarrow> task_context \<Rightarrow> task_context" where
  "saved_context m c = c\<lparr>cx_mstatus := saved_mstatus (mc_mstatus m), cx_mepc := mc_x m RA, cx_tp := mc_x m TP,
     cx_sp := mc_x m SP, cx_s := map (mc_x m) s_regs, cx_f := map (mc_f m) fs_regs @ drop 12 (cx_f c), cx_fcsr := mc_fcsr m\<rparr>"

definition continues :: "machine \<Rightarrow> task_context \<Rightarrow> bool" where
  "continues m c \<longleftrightarrow> mc_x m TP = cx_tp c \<and> mc_x m SP = cx_sp c \<and> map (mc_x m) s_regs = cx_s c
     \<and> map (mc_x m) caller_regs = cx_caller_gpr c \<and> map (mc_f m) f_regs = cx_f c \<and> mc_fcsr m = cx_fcsr c
     \<and> mc_pc m = cx_mepc c AND NOT 1 \<and> bit (mc_mstatus m) 3 = bit (cx_mstatus c) 7
     \<and> mc_machine_mode m = (bit (cx_mstatus c) 11 \<and> bit (cx_mstatus c) 12)"

subsection \<open>Blocks of loads and stores\<close>

fun stores :: "gpr list \<Rightarrow> nat \<Rightarrow> instr list" where
  "stores [] k = []"
| "stores (r # rs) k = Sw r (4 * k) (Ar 0) # stores rs (Suc k)"

fun fstores :: "fpr list \<Rightarrow> nat \<Rightarrow> instr list" where
  "fstores [] k = []"
| "fstores (r # rs) k = Fsw r (4 * k) (Ar 0) # fstores rs (Suc k)"

fun loads :: "gpr list \<Rightarrow> nat \<Rightarrow> instr list" where
  "loads [] k = []"
| "loads (r # rs) k = Lw r (4 * k) (Tr 0) # loads rs (Suc k)"

fun floads :: "fpr list \<Rightarrow> nat \<Rightarrow> instr list" where
  "floads [] k = []"
| "floads (r # rs) k = Flw r (4 * k) (Tr 0) # floads rs (Suc k)"

lemma run_code_append: "run_code (is @ js) m = do { m \<leftarrow> run_code is m; run_code js m }"
  by (induction "is" arbitrary: m) (auto split: bind_splits)

text \<open>Updates of a machine in the order of its fields.\<close>

lemma machine_order:
  fixes m :: machine
  shows "m\<lparr>mc_f := f, mc_x := x\<rparr> = m\<lparr>mc_x := x, mc_f := f\<rparr>"
    "m\<lparr>mc_mstatus := u, mc_x := x\<rparr> = m\<lparr>mc_x := x, mc_mstatus := u\<rparr>"
    "m\<lparr>mc_mstatus := u, mc_f := f\<rparr> = m\<lparr>mc_f := f, mc_mstatus := u\<rparr>"
    "m\<lparr>mc_mepc := u, mc_x := x\<rparr> = m\<lparr>mc_x := x, mc_mepc := u\<rparr>"
    "m\<lparr>mc_mepc := u, mc_f := f\<rparr> = m\<lparr>mc_f := f, mc_mepc := u\<rparr>"
    "m\<lparr>mc_mepc := v, mc_mstatus := u\<rparr> = m\<lparr>mc_mstatus := u, mc_mepc := v\<rparr>"
    "m\<lparr>mc_fcsr := v, mc_x := x\<rparr> = m\<lparr>mc_x := x, mc_fcsr := v\<rparr>"
    "m\<lparr>mc_fcsr := v, mc_f := f\<rparr> = m\<lparr>mc_f := f, mc_fcsr := v\<rparr>"
    "m\<lparr>mc_fcsr := v, mc_mstatus := u\<rparr> = m\<lparr>mc_mstatus := u, mc_fcsr := v\<rparr>"
    "m\<lparr>mc_fcsr := v, mc_mepc := u\<rparr> = m\<lparr>mc_mepc := u, mc_fcsr := v\<rparr>"
    "m\<lparr>mc_mem := h, mc_x := x\<rparr> = m\<lparr>mc_x := x, mc_mem := h\<rparr>"
    "m\<lparr>mc_mem := h, mc_f := f\<rparr> = m\<lparr>mc_f := f, mc_mem := h\<rparr>"
    "m\<lparr>mc_mem := h, mc_mstatus := u\<rparr> = m\<lparr>mc_mstatus := u, mc_mem := h\<rparr>"
    "m\<lparr>mc_mem := h, mc_mepc := u\<rparr> = m\<lparr>mc_mepc := u, mc_mem := h\<rparr>"
    "m\<lparr>mc_mem := h, mc_fcsr := v\<rparr> = m\<lparr>mc_fcsr := v, mc_mem := h\<rparr>"
  by simp_all

lemma context_addr_unat:
  assumes "placed p" "i < TASK_CONTEXT_WORDS"
  shows "unat (context_addr p i) = unat p + 4 * i"
proof -
  have u: "unat (of_nat (4 * i) :: 32 word) = 4 * i"
    using assms(2) by (subst unat_of_nat) (simp add: TASK_CONTEXT_WORDS_def)
  have "unat p + 4 * i < 2 ^ 32" using assms by (simp add: placed_def TASK_CONTEXT_WORDS_def)
  then show ?thesis unfolding context_addr_def unat_plus_if_size u by (simp add: word_size)
qed

lemma context_addr_eq:
  assumes "placed p" "i < TASK_CONTEXT_WORDS" "j < TASK_CONTEXT_WORDS"
  shows "context_addr p i = context_addr p j \<longleftrightarrow> i = j"
proof
  assume "context_addr p i = context_addr p j"
  from arg_cong [OF this, of unat] have "unat p + 4 * i = unat p + 4 * j"
    unfolding context_addr_unat [OF assms(1,2)] context_addr_unat [OF assms(1,3)] .
  then show "i = j" by simp
qed simp

lemma context_addr_apart:
  assumes "placed p" "placed q" "apart p q" "i < TASK_CONTEXT_WORDS" "j < TASK_CONTEXT_WORDS"
  shows "context_addr p i \<noteq> context_addr q j"
proof
  assume "context_addr p i = context_addr q j"
  from arg_cong [OF this, of unat] have "unat p + 4 * i = unat q + 4 * j"
    unfolding context_addr_unat [OF assms(1,4)] context_addr_unat [OF assms(2,5)] .
  with assms(3-5) show False by (auto simp: apart_def)
qed

lemma take_bit_word_zero: "take_bit n (a :: 32 word) = 0 \<longleftrightarrow> unat a mod 2 ^ n = 0"
  by (metis unsigned_take_bit_eq take_bit_eq_mod unat_eq_zero)

lemma context_addr_aligned:
  assumes "placed p" "i < TASK_CONTEXT_WORDS"
  shows "take_bit 2 (context_addr p i) = 0"
proof -
  have "unat p mod 16 = 0" using assms(1) by (simp add: placed_def take_bit_word_zero)
  then have "(unat p + 4 * i) mod 4 = 0" by presburger
  then show ?thesis by (simp add: take_bit_word_zero context_addr_unat [OF assms])
qed

lemma load_context:
  assumes "placed p" "holds_words (mc_mem m) p ws" "i < TASK_CONTEXT_WORDS"
  shows "load_word (context_addr p i) m = Some (ws ! i)"
  using assms context_addr_aligned [OF assms(1,3)] by (simp add: load_word_def holds_words_def)

lemma holds_update:
  assumes "placed p" "holds_words h p ws" "i < TASK_CONTEXT_WORDS"
  shows "holds_words (h(context_addr p i \<mapsto> v)) p (ws[i := v])"
  using assms context_addr_eq [OF assms(1) _ assms(3)] by (auto simp: holds_words_def nth_list_update)

abbreviation outside :: "32 word \<Rightarrow> (32 word \<rightharpoonup> 32 word) \<Rightarrow> (32 word \<rightharpoonup> 32 word) \<Rightarrow> bool" where
  "outside p h h' \<equiv> \<forall>a. (\<forall>i < TASK_CONTEXT_WORDS. a \<noteq> context_addr p i) \<longrightarrow> h' a = h a"

lemma store_context:
  assumes "placed p" "holds_words (mc_mem m) p ws" "i < TASK_CONTEXT_WORDS"
  shows "store_word (p + of_nat (4 * i)) v m = Some (m\<lparr>mc_mem := (mc_mem m)(context_addr p i \<mapsto> v)\<rparr>)"
  using load_context [OF assms] by (simp add: store_word_def context_addr_def)

lemma spliced: "k < length ws \<Longrightarrow> take (Suc k) (ws[k := v]) @ us @ drop (Suc k + n) (ws[k := v]) = take k ws @ (v # us) @ drop (k + Suc n) ws"
  by (simp add: take_Suc_conv_app_nth)

lemma stores_run:
  assumes "placed p" "mc_x m (Ar 0) = p" "holds_words (mc_mem m) p ws" "k + length rs \<le> TASK_CONTEXT_WORDS"
  shows "\<exists>h. run_code (stores rs k) m = Some (m\<lparr>mc_mem := h\<rparr>) \<and> outside p (mc_mem m) h
    \<and> holds_words h p (take k ws @ map (mc_x m) rs @ drop (k + length rs) ws)"
  using assms(2-4)
proof (induction rs arbitrary: k m ws)
  case Nil
  then show ?case by (auto intro!: exI [of _ "mc_mem m"])
next
  case (Cons r rs)
  let ?m = "m\<lparr>mc_mem := (mc_mem m)(context_addr p k \<mapsto> mc_x m r)\<rparr>"
  have k: "k < TASK_CONTEXT_WORDS" "k < length ws" using Cons.prems by (auto simp: holds_words_def)
  have "step_instr (Sw r (4 * k) (Ar 0)) m = Some ?m"
    using store_context [OF assms(1) Cons.prems(2) k(1)] Cons.prems(1) by simp
  moreover have pre: "mc_x ?m (Ar 0) = p" "holds_words (mc_mem ?m) p (ws[k := mc_x m r])" "Suc k + length rs \<le> TASK_CONTEXT_WORDS"
    using holds_update [OF assms(1) Cons.prems(2) k(1)] Cons.prems by simp_all
  from Cons.IH [OF pre] obtain h where "run_code (stores rs (Suc k)) ?m = Some (?m\<lparr>mc_mem := h\<rparr>)" "outside p (mc_mem ?m) h"
    and h: "holds_words h p (take (Suc k) (ws[k := mc_x m r]) @ map (mc_x ?m) rs @ drop (Suc k + length rs) (ws[k := mc_x m r]))" by blast
  ultimately have "run_code (stores (r # rs) k) m = Some (m\<lparr>mc_mem := h\<rparr>) \<and> outside p (mc_mem m) h" using k(1) by simp
  moreover have "holds_words h p (take k ws @ map (mc_x m) (r # rs) @ drop (k + length (r # rs)) ws)"
    using h spliced [OF k(2), of "mc_x m r" "map (mc_x m) rs" "length rs"] by simp
  ultimately show ?case by blast
qed

lemma fstores_run:
  assumes "placed p" "mc_x m (Ar 0) = p" "holds_words (mc_mem m) p ws" "k + length rs \<le> TASK_CONTEXT_WORDS" "fs_on (mc_mstatus m)"
  shows "\<exists>h. run_code (fstores rs k) m = Some (m\<lparr>mc_mem := h\<rparr>) \<and> outside p (mc_mem m) h
    \<and> holds_words h p (take k ws @ map (mc_f m) rs @ drop (k + length rs) ws)"
  using assms(2-5)
proof (induction rs arbitrary: k m ws)
  case Nil
  then show ?case by (auto intro!: exI [of _ "mc_mem m"])
next
  case (Cons r rs)
  let ?m = "m\<lparr>mc_mem := (mc_mem m)(context_addr p k \<mapsto> mc_f m r)\<rparr>"
  have k: "k < TASK_CONTEXT_WORDS" "k < length ws" using Cons.prems by (auto simp: holds_words_def)
  have "step_instr (Fsw r (4 * k) (Ar 0)) m = Some ?m"
    using store_context [OF assms(1) Cons.prems(2) k(1)] Cons.prems(1,4) by (simp add: assert_that_def)
  moreover have pre: "mc_x ?m (Ar 0) = p" "holds_words (mc_mem ?m) p (ws[k := mc_f m r])" "Suc k + length rs \<le> TASK_CONTEXT_WORDS" "fs_on (mc_mstatus ?m)"
    using holds_update [OF assms(1) Cons.prems(2) k(1)] Cons.prems by simp_all
  from Cons.IH [OF pre] obtain h where "run_code (fstores rs (Suc k)) ?m = Some (?m\<lparr>mc_mem := h\<rparr>)" "outside p (mc_mem ?m) h"
    and h: "holds_words h p (take (Suc k) (ws[k := mc_f m r]) @ map (mc_f ?m) rs @ drop (Suc k + length rs) (ws[k := mc_f m r]))" by blast
  ultimately have "run_code (fstores (r # rs) k) m = Some (m\<lparr>mc_mem := h\<rparr>) \<and> outside p (mc_mem m) h" using k(1) by simp
  moreover have "holds_words h p (take k ws @ map (mc_f m) (r # rs) @ drop (k + length (r # rs)) ws)"
    using h spliced [OF k(2), of "mc_f m r" "map (mc_f m) rs" "length rs"] by simp
  ultimately show ?case by blast
qed

lemma loads_run:
  assumes "placed p" "mc_x m (Tr 0) = p" "holds_words (mc_mem m) p ws" "k + length rs \<le> TASK_CONTEXT_WORDS"
    "distinct rs" "Tr 0 \<notin> set rs"
  shows "\<exists>x. run_code (loads rs k) m = Some (m\<lparr>mc_x := x\<rparr>) \<and> map x rs = take (length rs) (drop k ws)
    \<and> (\<forall>r. r \<notin> set rs \<longrightarrow> x r = mc_x m r)"
  using assms(2-6)
proof (induction rs arbitrary: k m)
  case Nil
  then show ?case by (auto intro!: exI [of _ "mc_x m"])
next
  case (Cons r rs)
  let ?m = "set_x r (ws ! k) m"
  have k: "k < TASK_CONTEXT_WORDS" "k < length ws" using Cons.prems by (auto simp: holds_words_def)
  have "step_instr (Lw r (4 * k) (Tr 0)) m = Some ?m"
    using load_context [OF assms(1) Cons.prems(2) k(1)] Cons.prems(1) by (simp add: context_addr_def)
  moreover obtain x where "run_code (loads rs (Suc k)) ?m = Some (?m\<lparr>mc_x := x\<rparr>)"
      "map x rs = take (length rs) (drop (Suc k) ws)" "\<forall>r'. r' \<notin> set rs \<longrightarrow> x r' = mc_x ?m r'"
    using Cons.IH [of ?m "Suc k"] Cons.prems by (auto simp: set_x_def)
  ultimately show ?case using Cons.prems(4) k(2) by (auto simp: set_x_def Cons_nth_drop_Suc [symmetric] intro!: exI [of _ x])
qed

lemma floads_run:
  assumes "placed p" "mc_x m (Tr 0) = p" "holds_words (mc_mem m) p ws" "k + length rs \<le> TASK_CONTEXT_WORDS"
    "distinct rs" "mc_mstatus m OR 0x6000 = mc_mstatus m" "fs_on (mc_mstatus m)"
  shows "\<exists>f. run_code (floads rs k) m = Some (m\<lparr>mc_f := f\<rparr>) \<and> map f rs = take (length rs) (drop k ws)
    \<and> (\<forall>r. r \<notin> set rs \<longrightarrow> f r = mc_f m r)"
  using assms(2-7)
proof (induction rs arbitrary: k m)
  case Nil
  then show ?case by (auto intro!: exI [of _ "mc_f m"])
next
  case (Cons r rs)
  let ?m = "m\<lparr>mc_f := (mc_f m)(r := ws ! k)\<rparr>"
  have k: "k < TASK_CONTEXT_WORDS" "k < length ws" using Cons.prems by (auto simp: holds_words_def)
  have "step_instr (Flw r (4 * k) (Tr 0)) m = Some ?m"
    using load_context [OF assms(1) Cons.prems(2) k(1)] Cons.prems(1,5,6) by (simp add: context_addr_def assert_that_def fp_dirty_def)
  moreover obtain f where "run_code (floads rs (Suc k)) ?m = Some (?m\<lparr>mc_f := f\<rparr>)"
      "map f rs = take (length rs) (drop (Suc k) ws)" "\<forall>r'. r' \<notin> set rs \<longrightarrow> f r' = mc_f ?m r'"
    using Cons.IH [of ?m "Suc k"] Cons.prems by auto
  ultimately show ?case using Cons.prems(4) k(2) by (auto simp: Cons_nth_drop_Suc [symmetric] intro!: exI [of _ f])
qed

subsection \<open>The parts of the switch\<close>

definition switch_entry :: "instr list" where
  "switch_entry = [Li (Tr 1) 8, Csrrc_mstatus (Tr 0) (Tr 1), Andi (Tr 2) (Tr 0) 8, Slli (Tr 2) (Tr 2) 4, Li (Tr 1) (- 137),
     And (Tr 0) (Tr 0) (Tr 1), Or (Tr 0) (Tr 0) (Tr 2), Li (Tr 1) 0x1800, Or (Tr 0) (Tr 0) (Tr 1)]"

definition switch_save :: "instr list" where
  "switch_save = stores ([Tr 0, RA, TP, SP] @ s_regs) 0 @ fstores fs_regs 32 @ Frcsr (Tr 0) # stores [Tr 0] 64"

definition switch_control :: "instr list" where
  "switch_control = [Lw (Tr 1) 4 (Tr 0), Csrw_mepc (Tr 1), Lw (Tr 1) 256 (Tr 0), Fscsr (Tr 1)]"

definition switch_restore :: "instr list" where
  "switch_restore = floads f_regs 32 @ loads [TP] 2 @ loads (s_regs @ take 14 caller_regs) 4 @ loads [RA] 31 @ loads [SP] 3
     @ [Lw (Tr 0) 120 (Tr 0)]"

lemmas switch_parts = switch_entry_def switch_save_def switch_control_def switch_restore_def
  s_regs_def caller_regs_def fs_regs_def f_regs_def

lemma switch_code:
  "cooperative_context_switch_fallback = (switch_entry @ switch_save) @ [Mv (Tr 0) (Ar 1), Lw (Tr 1) 0 (Tr 0)]
     @ Csrw_mstatus (Tr 1) # (switch_control @ switch_restore) @ [Mret]"
  by (simp add: cooperative_context_switch_fallback_def switch_parts)

lemma saved_mstatus_bits:
  "\<not> bit (saved_mstatus s) 3" "bit (saved_mstatus s) 7 = bit s 3" "bit (saved_mstatus s) 11" "bit (saved_mstatus s) 12"
  "bit (saved_mstatus s) 13 = bit s 13" "bit (saved_mstatus s) 14 = bit s 14"
  by (simp_all add: saved_mstatus_def bit_simps)

lemma entry_run:
  assumes "mc_machine_mode m"
  shows "\<exists>x. run_code switch_entry m = Some (m\<lparr>mc_x := x, mc_mstatus := mc_mstatus m AND NOT 8\<rparr>)
    \<and> x (Tr 0) = saved_mstatus (mc_mstatus m) \<and> (\<forall>r. r \<notin> {Tr 0, Tr 1, Tr 2} \<longrightarrow> x r = mc_x m r)"
  using assms by (simp add: switch_entry_def set_x_def saved_mstatus_def or.assoc machine_order)
    (intro exI, rule conjI, rule refl, simp)

text \<open>The words of the context after the save, with \<open>v\<close> the status that is saved.\<close>

definition saved_words :: "machine \<Rightarrow> 32 word list \<Rightarrow> 32 word list" where
  "saved_words m ws = map (mc_x m) ([Tr 0, RA, TP, SP] @ s_regs) @ take 16 (drop 16 ws) @ map (mc_f m) fs_regs
     @ take 20 (drop 44 ws) @ mc_fcsr m # drop 65 ws"

lemma save_run:
  assumes "placed p" "mc_x m (Ar 0) = p" "holds_words (mc_mem m) p ws" "fs_on (mc_mstatus m)"
  shows "\<exists>h. run_code switch_save m = Some (m\<lparr>mc_x := (mc_x m)(Tr 0 := mc_fcsr m), mc_mem := h\<rparr>) \<and> outside p (mc_mem m) h
    \<and> holds_words h p (saved_words m ws)"
proof -
  have len: "length ws = 68" using assms(3) by (simp add: holds_words_def TASK_CONTEXT_WORDS_def)
  have n: "length s_regs = 12" "length fs_regs = 12" by (simp_all add: s_regs_def fs_regs_def)
  let ?ws1 = "take 0 ws @ map (mc_x m) ([Tr 0, RA, TP, SP] @ s_regs) @ drop (0 + length ([Tr 0, RA, TP, SP] @ s_regs)) ws"
  obtain h1 where h1: "run_code (stores ([Tr 0, RA, TP, SP] @ s_regs) 0) m = Some (m\<lparr>mc_mem := h1\<rparr>)" "outside p (mc_mem m) h1"
      "holds_words h1 p ?ws1"
    using stores_run [OF assms(1-3), of 0 "[Tr 0, RA, TP, SP] @ s_regs"] n by (auto simp: TASK_CONTEXT_WORDS_def)
  let ?m1 = "m\<lparr>mc_mem := h1\<rparr>"
  let ?ws2 = "take 32 ?ws1 @ map (mc_f ?m1) fs_regs @ drop (32 + length fs_regs) ?ws1"
  obtain h2 where h2: "run_code (fstores fs_regs 32) ?m1 = Some (?m1\<lparr>mc_mem := h2\<rparr>)" "outside p (mc_mem ?m1) h2" "holds_words h2 p ?ws2"
    using fstores_run [OF assms(1), of ?m1 ?ws1 32 fs_regs] h1(3) assms(2,4) n by (auto simp: TASK_CONTEXT_WORDS_def)
  let ?m2 = "m\<lparr>mc_x := (mc_x m)(Tr 0 := mc_fcsr m), mc_mem := h2\<rparr>"
  let ?ws3 = "take 64 ?ws2 @ map (mc_x ?m2) [Tr 0] @ drop (64 + length [Tr 0]) ?ws2"
  obtain h3 where h3: "run_code (stores [Tr 0] 64) ?m2 = Some (?m2\<lparr>mc_mem := h3\<rparr>)" "outside p (mc_mem ?m2) h3" "holds_words h3 p ?ws3"
    using stores_run [OF assms(1), of ?m2 ?ws2 64 "[Tr 0]"] h2(3) assms(2) by (auto simp: TASK_CONTEXT_WORDS_def)
  have "run_code switch_save m = Some (?m2\<lparr>mc_mem := h3\<rparr>)"
    using h1(1) h2(1) h3(1) assms(4) by (simp add: switch_save_def run_code_append set_x_def machine_order del: stores.simps)
  moreover have "?ws3 = saved_words m ws" using len n by (simp add: saved_words_def)
  moreover have "outside p (mc_mem m) h3" using h1(2) h2(2) h3(2) by simp
  ultimately show ?thesis using h3(3) by auto
qed

lemma load_word_upd [simp]:
  "load_word a (m\<lparr>mc_x := x\<rparr>) = load_word a m" "load_word a (m\<lparr>mc_f := f\<rparr>) = load_word a m"
  "load_word a (m\<lparr>mc_mstatus := u\<rparr>) = load_word a m" "load_word a (m\<lparr>mc_mepc := u\<rparr>) = load_word a m"
  by (simp_all add: load_word_def)

lemma control_run:
  assumes "placed q" "mc_x m (Tr 0) = q" "holds_words (mc_mem m) q ws" "mc_machine_mode m" "fs_on (mc_mstatus m)"
  shows "run_code switch_control m = Some (m\<lparr>mc_x := (mc_x m)(Tr 1 := ws ! 64), mc_mstatus := mc_mstatus m OR 0x6000,
    mc_mepc := ws ! 1 AND NOT 1, mc_fcsr := ws ! 64\<rparr>)"
proof -
  have "load_word (q + 4) m = Some (ws ! 1)" "load_word (q + 256) m = Some (ws ! 64)"
    using load_context [OF assms(1,3), of 1] load_context [OF assms(1,3), of 64] by (simp_all add: context_addr_def TASK_CONTEXT_WORDS_def)
  with assms(2,4,5) show ?thesis by (simp add: switch_control_def set_x_def fp_dirty_def machine_order)
qed

lemma regs_distinct:
  "distinct (s_regs @ take 14 caller_regs)" "Tr 0 \<notin> set (s_regs @ take 14 caller_regs)" "TP \<notin> set (s_regs @ take 14 caller_regs)"
  "SP \<notin> set (s_regs @ take 14 caller_regs)" "RA \<notin> set (s_regs @ take 14 caller_regs)" "distinct f_regs"
  "caller_regs = take 14 caller_regs @ [Tr 0, RA]" "length s_regs = 12" "length (take 14 caller_regs) = 14" "length f_regs = 32"
  by (simp_all add: s_regs_def caller_regs_def f_regs_def fs_regs_def)

lemma restore_run:
  assumes "placed q" "mc_x m (Tr 0) = q" "holds_words (mc_mem m) q ws" "mc_mstatus m OR 0x6000 = mc_mstatus m" "fs_on (mc_mstatus m)"
  shows "\<exists>x f. run_code switch_restore m = Some (m\<lparr>mc_x := x, mc_f := f\<rparr>) \<and> map f f_regs = take 32 (drop 32 ws)
    \<and> x TP = ws ! 2 \<and> x SP = ws ! 3 \<and> map x s_regs = take 12 (drop 4 ws) \<and> map x caller_regs = take 16 (drop 16 ws)"
proof -
  let ?R = "s_regs @ take 14 caller_regs"
  have len: "length ws = 68" using assms(3) by (simp add: holds_words_def TASK_CONTEXT_WORDS_def)
  obtain f where f: "run_code (floads f_regs 32) m = Some (m\<lparr>mc_f := f\<rparr>)" "map f f_regs = take 32 (drop 32 ws)"
    using floads_run [OF assms(1-3) _ regs_distinct(6) assms(4,5), of 32] regs_distinct(10) by (auto simp: TASK_CONTEXT_WORDS_def)
  have l: "load_word (q + of_nat (4 * i)) m = Some (ws ! i)" if "i < 68" for i
    using load_context [OF assms(1,3), of i] that by (simp add: context_addr_def TASK_CONTEXT_WORDS_def)
  let ?m1 = "m\<lparr>mc_x := (mc_x m)(TP := ws ! 2), mc_f := f\<rparr>"
  have r1: "run_code (loads [TP] 2) (m\<lparr>mc_f := f\<rparr>) = Some ?m1"
    using l [of 2] assms(2) by (simp add: set_x_def machine_order)
  have "mc_x ?m1 (Tr 0) = q" "holds_words (mc_mem ?m1) q ws" "4 + length ?R \<le> TASK_CONTEXT_WORDS"
    using assms(2,3) regs_distinct(8,9) by (simp_all add: TASK_CONTEXT_WORDS_def)
  from loads_run [OF assms(1) this regs_distinct(1,2)] obtain x where
    x: "run_code (loads ?R 4) ?m1 = Some (?m1\<lparr>mc_x := x\<rparr>)" "map x ?R = take (length ?R) (drop 4 ws)"
      "\<forall>r. r \<notin> set ?R \<longrightarrow> x r = mc_x ?m1 r" by blast
  let ?x = "x(RA := ws ! 31, SP := ws ! 3, Tr 0 := ws ! 30)"
  have t0: "x (Tr 0) = q" "x TP = ws ! 2" using x(3) regs_distinct(2,3) assms(2) by auto
  have "run_code (loads [RA] 31 @ loads [SP] 3 @ [Lw (Tr 0) 120 (Tr 0)]) (?m1\<lparr>mc_x := x\<rparr>) = Some (m\<lparr>mc_x := ?x, mc_f := f\<rparr>)"
    using l [of 31] l [of 3] l [of 30] t0(1) by (simp add: set_x_def machine_order)
  with f(1) r1 x(1) have "run_code switch_restore m = Some (m\<lparr>mc_x := ?x, mc_f := f\<rparr>)"
    by (simp add: switch_restore_def run_code_append machine_order del: loads.simps)
  moreover have same: "map ?x ?R = map x ?R" using regs_distinct(2,4,5) by (intro map_cong refl) auto
  have "take 26 (drop 4 ws) = take 12 (drop 4 ws) @ take 14 (drop 16 ws)"
    using take_add [of 12 14 "drop 4 ws"] by simp
  with x(2) same have "map ?x s_regs @ map ?x (take 14 caller_regs) = take 12 (drop 4 ws) @ take 14 (drop 16 ws)"
    by (simp only: map_append length_append regs_distinct(8,9)) simp
  then have "map ?x s_regs = take 12 (drop 4 ws)" "map ?x (take 14 caller_regs) = take 14 (drop 16 ws)"
    using len regs_distinct(8) by (simp_all add: append_eq_append_conv)
  moreover have "take 16 (drop 16 ws) = take 14 (drop 16 ws) @ [ws ! 30, ws ! 31]"
    using len take_add [of 14 2 "drop 16 ws"] by (simp add: take_Suc_conv_app_nth numeral_2_eq_2)
  moreover have "map ?x caller_regs = map ?x (take 14 caller_regs) @ [ws ! 30, ws ! 31]"
    using arg_cong [OF regs_distinct(7), of "map ?x"] by simp
  moreover have "?x TP = ws ! 2" "?x SP = ws ! 3" using t0(2) by simp_all
  ultimately show ?thesis using f(2) by (intro exI [of _ ?x] exI [of _ f] conjI) (simp_all only:)
qed

subsection \<open>Interrupts stay off\<close>

fun quiet :: "instr \<Rightarrow> bool" where
  "quiet (Csrw_mstatus s) = False"
| "quiet Mret = False"
| "quiet i = True"

definition masked :: "instr list \<Rightarrow> machine \<Rightarrow> bool" where
  "masked is m \<longleftrightarrow> (\<forall>k m'. run_code (take k is) m = Some m' \<longrightarrow> \<not> bit (mc_mstatus m') 3)"

lemma quiet_step: "quiet i \<Longrightarrow> step_instr i m = Some m' \<Longrightarrow> \<not> bit (mc_mstatus m) 3 \<Longrightarrow> \<not> bit (mc_mstatus m') 3"
  by (cases i) (auto simp: set_x_def fp_dirty_def store_word_def bit_simps split: bind_splits)

lemma masked_cons:
  assumes "\<not> bit (mc_mstatus m) 3" "\<And>m'. step_instr i m = Some m' \<Longrightarrow> masked is m'"
  shows "masked (i # is) m"
proof -
  have "\<not> bit (mc_mstatus m') 3" if "run_code (take k (i # is)) m = Some m'" for k m'
    using that assms by (cases k) (auto simp: masked_def split: bind_splits)
  then show ?thesis by (simp add: masked_def)
qed

lemma masked_quiet: "list_all quiet is \<Longrightarrow> \<not> bit (mc_mstatus m) 3 \<Longrightarrow> masked is m"
proof (induction "is" arbitrary: m)
  case Nil
  then show ?case by (simp add: masked_def)
next
  case (Cons i "is")
  then show ?case by (intro masked_cons) (auto dest: quiet_step)
qed

lemma masked_append:
  assumes "masked is m" "\<And>m'. run_code is m = Some m' \<Longrightarrow> masked js m'"
  shows "masked (is @ js) m"
proof -
  have "\<not> bit (mc_mstatus m') 3" if "run_code (take k (is @ js)) m = Some m'" for k m'
  proof (cases "k \<le> length is")
    case True
    with that assms(1) show ?thesis by (simp add: masked_def)
  next
    case False
    then have "take k (is @ js) = is @ take (k - length is) js" by simp
    with that obtain n where "run_code is m = Some n" "run_code (take (k - length is) js) n = Some m'"
      by (auto simp: run_code_append split: bind_splits)
    with assms(2) show ?thesis by (auto simp: masked_def)
  qed
  then show ?thesis by (simp add: masked_def)
qed

lemma quiet_gpr_blocks [simp]: "list_all quiet (stores rs k)" "list_all quiet (loads rs k)"
  by (induction rs arbitrary: k) simp_all

lemma quiet_fpr_blocks [simp]: "list_all quiet (fstores fs k)" "list_all quiet (floads fs k)"
  by (induction fs arbitrary: k) simp_all

lemma quiet_parts:
  "list_all quiet switch_entry" "list_all quiet switch_save" "list_all quiet (switch_control @ switch_restore)"
  by (simp_all add: switch_entry_def switch_save_def switch_control_def switch_restore_def)

lemma run_code_prefix: "run_code is m = Some m' \<Longrightarrow> \<exists>n. run_code (take k is) m = Some n"
proof (induction "is" arbitrary: k m)
  case (Cons i "is")
  then show ?case by (cases k) (auto split: bind_splits)
qed simp

subsection \<open>The switch as a whole\<close>

lemma context_words_nth:
  assumes "context_ok c"
  shows "context_words c ! 0 = cx_mstatus c" "context_words c ! 1 = cx_mepc c" "context_words c ! 2 = cx_tp c" "context_words c ! 3 = cx_sp c"
    "take 12 (drop 4 (context_words c)) = cx_s c" "take 16 (drop 16 (context_words c)) = cx_caller_gpr c"
    "take 32 (drop 32 (context_words c)) = cx_f c" "context_words c ! 64 = cx_fcsr c" "length (context_words c) = TASK_CONTEXT_WORDS"
  using assms by (simp_all add: context_words_def context_ok_def nth_append TASK_CONTEXT_WORDS_def nth_Cons')

lemma saved_context_words:
  assumes "context_ok c" "mc_x m (Tr 0) = saved_mstatus (mc_mstatus m0)" "\<forall>r. r \<notin> {Tr 0, Tr 1, Tr 2} \<longrightarrow> mc_x m r = mc_x m0 r"
    "mc_f m = mc_f m0" "mc_fcsr m = mc_fcsr m0"
  shows "saved_words m (context_words c) = context_words (saved_context m0 c)"
proof -
  have "map (mc_x m) s_regs = map (mc_x m0) s_regs" using assms(3) by (intro map_cong refl) (auto simp: s_regs_def)
  moreover have "take 16 (drop 16 (context_words c)) = cx_caller_gpr c" using context_words_nth(6) [OF assms(1)] .
  moreover have "take 20 (drop 44 (context_words c)) = drop 12 (cx_f c)" "drop 65 (context_words c) = cx_reserved c"
    using assms(1) by (simp_all add: context_words_def context_ok_def)
  ultimately show ?thesis using assms(2-5) by (simp add: saved_words_def context_words_def saved_context_def)
qed

lemma saved_context_ok: "context_ok c \<Longrightarrow> context_ok (saved_context m c)"
  by (simp add: context_ok_def saved_context_def s_regs_def fs_regs_def)

definition ready_to_switch :: "machine \<Rightarrow> 32 word \<Rightarrow> task_context \<Rightarrow> 32 word \<Rightarrow> task_context \<Rightarrow> bool" where
  "ready_to_switch m p c0 q c \<longleftrightarrow> placed p \<and> placed q \<and> apart p q \<and> mc_x m (Ar 0) = p \<and> mc_x m (Ar 1) = q
     \<and> mc_machine_mode m \<and> fs_on (mc_mstatus m) \<and> fs_on (cx_mstatus c) \<and> holds_context m p c0 \<and> holds_context m q c"

lemma holds_outside:
  assumes "placed p" "placed q" "apart p q" "outside p h h'" "holds_words h q ws"
  shows "holds_words h' q ws"
proof -
  have "h' (context_addr q i) = h (context_addr q i)" if "i < TASK_CONTEXT_WORDS" for i
    using assms(4) context_addr_apart [OF assms(1-3) _ that] by metis
  with assms(5) show ?thesis by (simp add: holds_words_def)
qed

lemma save_phase:
  assumes "ready_to_switch m p c0 q c"
  shows "\<exists>x h. run_code (switch_entry @ switch_save) m = Some (m\<lparr>mc_x := x, mc_mstatus := mc_mstatus m AND NOT 8, mc_mem := h\<rparr>)
    \<and> x (Ar 1) = q \<and> outside p (mc_mem m) h \<and> holds_words h p (context_words (saved_context m c0)) \<and> holds_words h q (context_words c)"
proof -
  note r = assms [unfolded ready_to_switch_def holds_context_def]
  from entry_run [of m] r obtain x where
    x: "run_code switch_entry m = Some (m\<lparr>mc_x := x, mc_mstatus := mc_mstatus m AND NOT 8\<rparr>)"
      "x (Tr 0) = saved_mstatus (mc_mstatus m)" "\<forall>r. r \<notin> {Tr 0, Tr 1, Tr 2} \<longrightarrow> x r = mc_x m r" by blast
  let ?m = "m\<lparr>mc_x := x, mc_mstatus := mc_mstatus m AND NOT 8\<rparr>"
  have pre: "mc_x ?m (Ar 0) = p" "holds_words (mc_mem ?m) p (context_words c0)" "fs_on (mc_mstatus ?m)"
    using x(3) r by (simp_all add: fs_on_def bit_simps)
  from save_run [OF _ pre] r obtain h where
    h: "run_code switch_save ?m = Some (?m\<lparr>mc_x := (mc_x ?m)(Tr 0 := mc_fcsr ?m), mc_mem := h\<rparr>)" "outside p (mc_mem ?m) h"
      "holds_words h p (saved_words ?m (context_words c0))" by blast
  have "saved_words ?m (context_words c0) = context_words (saved_context m c0)"
    using saved_context_words [of c0 ?m m] r x(2,3) by simp
  moreover have "holds_words h q (context_words c)" using holds_outside [OF _ _ _ h(2), of q] r by simp
  ultimately show ?thesis using x h r
    by (intro exI [of _ "x(Tr 0 := mc_fcsr m)"] exI [of _ h]) (simp add: run_code_append machine_order)
qed

lemma resume_phase:
  assumes "placed q" "mc_x m (Ar 1) = q" "holds_words (mc_mem m) q (context_words c)" "context_ok c" "mc_machine_mode m" "fs_on (cx_mstatus c)"
  shows "\<exists>m1 m2. run_code [Mv (Tr 0) (Ar 1), Lw (Tr 1) 0 (Tr 0)] m = Some m1 \<and> mc_mstatus m1 = mc_mstatus m \<and> mc_x m1 (Tr 1) = cx_mstatus c
    \<and> run_code (Csrw_mstatus (Tr 1) # (switch_control @ switch_restore) @ [Mret]) m1 = Some m2 \<and> mc_mem m2 = mc_mem m \<and> continues m2 c"
proof -
  let ?ws = "context_words c"
  note w = context_words_nth [OF assms(4)]
  let ?m1 = "m\<lparr>mc_x := (mc_x m)(Tr 0 := q, Tr 1 := cx_mstatus c)\<rparr>"
  have "load_word q m = Some (cx_mstatus c)"
    using load_context [OF assms(1,3), of 0] w(1) by (simp add: context_addr_def TASK_CONTEXT_WORDS_def)
  then have r1: "run_code [Mv (Tr 0) (Ar 1), Lw (Tr 1) 0 (Tr 0)] m = Some ?m1" using assms(2) by (simp add: set_x_def)
  let ?m2 = "?m1\<lparr>mc_mstatus := cx_mstatus c\<rparr>"
  have r2: "step_instr (Csrw_mstatus (Tr 1)) ?m1 = Some ?m2" using assms(5) by simp
  let ?s = "cx_mstatus c OR 0x6000"
  let ?m3 = "?m2\<lparr>mc_x := (mc_x ?m2)(Tr 1 := cx_fcsr c), mc_mstatus := ?s, mc_mepc := cx_mepc c AND NOT 1, mc_fcsr := cx_fcsr c\<rparr>"
  have r3: "run_code switch_control ?m2 = Some ?m3"
    using control_run [OF assms(1), of ?m2 ?ws] assms(3,5,6) w(2,8) by simp
  have "?s OR 0x6000 = ?s" "fs_on ?s" by (simp_all add: or.assoc fs_on_def bit_simps)
  with restore_run [OF assms(1), of ?m3 ?ws] assms(3) obtain x f where
    r4: "run_code switch_restore ?m3 = Some (?m3\<lparr>mc_x := x, mc_f := f\<rparr>)" "map f f_regs = take 32 (drop 32 ?ws)"
      "x TP = ?ws ! 2" "x SP = ?ws ! 3" "map x s_regs = take 12 (drop 4 ?ws)" "map x caller_regs = take 16 (drop 16 ?ws)" by auto
  let ?m4 = "?m3\<lparr>mc_x := x, mc_f := f\<rparr>"
  have "run_code (Csrw_mstatus (Tr 1) # (switch_control @ switch_restore) @ [Mret]) ?m1 = Some (mret ?m4)"
    using r2 r3 r4(1) assms(5) by (simp add: run_code_append)
  moreover have "continues (mret ?m4) c" "mc_mem (mret ?m4) = mc_mem m"
    using r4(2-6) w by (simp_all add: continues_def mret_def Let_def bit_simps)
  ultimately show ?thesis using r1 by (intro exI [of _ ?m1] exI [of _ "mret ?m4"]) simp
qed

lemma run_code_then: "run_code is m = Some m' \<Longrightarrow> run_code (is @ js) m = run_code js m'"
  by (simp add: run_code_append)

lemma take_between: "xs = a @ b @ [z] \<Longrightarrow> length a \<le> k \<Longrightarrow> k < length xs \<Longrightarrow> take k xs = a @ take (k - length a) b"
  by simp

lemma switch_run:
  assumes "ready_to_switch m p c0 q c"
  shows "\<exists>m'. run_code cooperative_context_switch_fallback m = Some m' \<and> outside p (mc_mem m) (mc_mem m')
    \<and> holds_context m' p (saved_context m c0) \<and> continues m' c"
proof -
  note r = assms [unfolded ready_to_switch_def holds_context_def]
  obtain x h where s: "run_code (switch_entry @ switch_save) m = Some (m\<lparr>mc_x := x, mc_mstatus := mc_mstatus m AND NOT 8, mc_mem := h\<rparr>)"
      "x (Ar 1) = q" "outside p (mc_mem m) h" "holds_words h p (context_words (saved_context m c0))" "holds_words h q (context_words c)"
    using save_phase [OF assms] by blast
  let ?m = "m\<lparr>mc_x := x, mc_mstatus := mc_mstatus m AND NOT 8, mc_mem := h\<rparr>"
  obtain m1 m2 where t: "run_code [Mv (Tr 0) (Ar 1), Lw (Tr 1) 0 (Tr 0)] ?m = Some m1"
      "run_code (Csrw_mstatus (Tr 1) # (switch_control @ switch_restore) @ [Mret]) m1 = Some m2" "mc_mem m2 = h" "continues m2 c"
    using resume_phase [of q ?m c] s(2,5) r by auto
  have "run_code cooperative_context_switch_fallback m = Some m2"
    unfolding switch_code run_code_then [OF s(1)] run_code_then [OF t(1)] by (rule t(2))
  with s(3,4) t(3,4) saved_context_ok r show ?thesis by (auto simp: holds_context_def)
qed

lemma switch_masked:
  assumes "ready_to_switch m p c0 q c" "\<not> bit (cx_mstatus c) 3" "2 \<le> k" "k < length cooperative_context_switch_fallback"
  shows "\<exists>n. run_code (take k cooperative_context_switch_fallback) m = Some n \<and> \<not> bit (mc_mstatus n) 3"
proof -
  note r = assms(1) [unfolded ready_to_switch_def holds_context_def]
  let ?head = "switch_entry @ switch_save" and ?pick = "[Mv (Tr 0) (Ar 1), Lw (Tr 1) 0 (Tr 0)]"
  let ?tail = "Csrw_mstatus (Tr 1) # (switch_control @ switch_restore)"
  let ?code = "drop 2 ?head @ ?pick @ ?tail"
  obtain n where n: "run_code (take k cooperative_context_switch_fallback) m = Some n"
    using switch_run [OF assms(1)] run_code_prefix by blast
  let ?m0 = "m\<lparr>mc_x := (mc_x m)(Tr 1 := 8, Tr 0 := mc_mstatus m), mc_mstatus := mc_mstatus m AND NOT 8\<rparr>"
  have "take 2 ?head = [Li (Tr 1) 8, Csrrc_mstatus (Tr 0) (Tr 1)]" by (simp add: switch_entry_def)
  then have two: "run_code (take 2 ?head) m = Some ?m0" using r by (simp add: set_x_def machine_order)
  have split: "take 2 ?head @ drop 2 ?head = ?head" by (rule append_take_drop_id)
  have "masked ?tail m'" if head: "run_code (drop 2 ?head) ?m0 = Some m0" "run_code ?pick m0 = Some m'" for m0 m'
  proof -
    have "run_code ?head m = Some m0" using two head(1) run_code_append [of "take 2 ?head" "drop 2 ?head" m] split by simp
    with save_phase [OF assms(1)] obtain x h where m0: "m0 = m\<lparr>mc_x := x, mc_mstatus := mc_mstatus m AND NOT 8, mc_mem := h\<rparr>"
        "x (Ar 1) = q" "holds_words h q (context_words c)" by auto
    with resume_phase [of q m0 c] r head(2) have m': "mc_mstatus m' = mc_mstatus m0" "mc_x m' (Tr 1) = cx_mstatus c" by auto
    show ?thesis
    proof (rule masked_cons)
      show "\<not> bit (mc_mstatus m') 3" using m'(1) m0(1) by (simp add: bit_simps)
      show "masked (switch_control @ switch_restore) m''" if "step_instr (Csrw_mstatus (Tr 1)) m' = Some m''" for m''
        using that m'(2) assms(2) by (intro masked_quiet quiet_parts(3)) (auto split: bind_splits)
    qed
  qed
  moreover have "list_all quiet (drop 2 ?head)" using quiet_parts(1,2) by (auto simp: list_all_iff dest: in_set_dropD)
  then have "masked (drop 2 ?head) ?m0" by (rule masked_quiet) (simp add: bit_simps)
  moreover have "masked ?pick m0" if "run_code (drop 2 ?head) ?m0 = Some m0" for m0
    using that \<open>masked (drop 2 ?head) ?m0\<close> [unfolded masked_def, rule_format, of "length (drop 2 ?head)" m0]
    by (intro masked_quiet) auto
  ultimately have q: "masked ?code ?m0" by (intro masked_append) auto
  have "cooperative_context_switch_fallback = take 2 ?head @ ?code @ [Mret]" unfolding switch_code append_assoc [symmetric] split by simp
  moreover have "length (take 2 ?head) = 2" by (simp add: switch_entry_def)
  ultimately have "take k cooperative_context_switch_fallback = take 2 ?head @ take (k - 2) ?code"
    using take_between [of cooperative_context_switch_fallback "take 2 ?head" ?code Mret k] assms(3,4) by metis
  with n run_code_then [OF two] have "run_code (take (k - 2) ?code) ?m0 = Some n" by (simp only:)
  with q n show ?thesis unfolding masked_def by blast
qed

lemma saved_context_fs: "fs_on (mc_mstatus m) \<Longrightarrow> fs_on (cx_mstatus (saved_context m c))"
  by (simp add: fs_on_def saved_context_def saved_mstatus_bits)

lemma continues_saved:
  assumes "continues m' (saved_context m c)"
  shows "mc_x m' SP = mc_x m SP" "mc_x m' TP = mc_x m TP" "map (mc_x m') s_regs = map (mc_x m) s_regs"
    "map (mc_f m') fs_regs = map (mc_f m) fs_regs" "mc_fcsr m' = mc_fcsr m" "mc_pc m' = mc_x m RA AND NOT 1"
    "bit (mc_mstatus m') 3 = bit (mc_mstatus m) 3" "mc_machine_mode m'"
proof -
  have "map (mc_f m') fs_regs = take 12 (map (mc_f m') f_regs)" by (simp add: f_regs_def fs_regs_def)
  also have "\<dots> = map (mc_f m) fs_regs" using assms by (simp add: continues_def saved_context_def fs_regs_def)
  finally show "map (mc_f m') fs_regs = map (mc_f m) fs_regs" .
qed (use assms in \<open>simp_all add: continues_def saved_context_def saved_mstatus_bits\<close>)

subsection \<open>The first dispatch of a task\<close>

text \<open>
  A task starts from the same words with and without a port: the context that the cooperative switch
  resumes and the frame on the stack that the epilogue of an interrupt resumes agree word by word.
\<close>

lemma initial_context_frame:
  "context_words (initial_context e top_addr) = irq_frame_words top_addr (e_trampoline e) (e_tp e) (e_fcsr e)"
  by (simp add: context_words_def initial_context_def task_context_zero_def irq_frame_words_def TASK_CONTEXT_WORDS_def
      numeral_eq_Suc)

lemma initial_context_ok:
  "context_ok (initial_context e top_addr)" "fs_on (cx_mstatus (initial_context e top_addr))" "\<not> bit (cx_mstatus (initial_context e top_addr)) 3"
  by (simp_all add: context_ok_def initial_context_def task_context_zero_def fs_on_def)

lemma first_dispatch:
  assumes "ready_to_switch m p c0 q (initial_context e top_addr)"
  shows "\<exists>m'. run_code cooperative_context_switch_fallback m = Some m' \<and> mc_pc m' = of_nat (e_trampoline e) AND NOT 1
    \<and> mc_x m' SP = of_nat top_addr \<and> mc_x m' TP = e_tp e \<and> mc_fcsr m' = e_fcsr e
    \<and> (\<forall>r \<in> set (s_regs @ caller_regs). mc_x m' r = 0) \<and> bit (mc_mstatus m') 3 \<and> mc_machine_mode m'"
proof -
  obtain m' where m': "run_code cooperative_context_switch_fallback m = Some m'" "continues m' (initial_context e top_addr)"
    using switch_run [OF assms] by blast
  have "map (mc_x m') (s_regs @ caller_regs) = replicate 28 0"
    using m'(2) by (simp add: continues_def initial_context_def task_context_zero_def replicate_add [symmetric])
  then have "\<forall>r \<in> set (s_regs @ caller_regs). mc_x m' r = 0" by (metis image_eqI in_set_replicate list.set_map)
  with m' show ?thesis by (auto simp: continues_def initial_context_def task_context_zero_def)
qed

subsection \<open>Properties\<close>

definition uniform_context :: task_context where
  "uniform_context = \<lparr>cx_mstatus = 0x6000, cx_mepc = 0x6000, cx_tp = 0x6000, cx_sp = 0x6000, cx_s = replicate 12 0x6000,
     cx_caller_gpr = replicate 16 0x6000, cx_f = replicate 32 0x6000, cx_fcsr = 0x6000, cx_reserved = replicate 3 0x6000\<rparr>"

text \<open>A machine in a task with interrupts enabled, about to switch from the context at 4096 to the one at 8192.\<close>

definition uniform_machine :: machine where
  "uniform_machine = \<lparr>mc_x = (\<lambda>r. 7)(Ar 0 := 0x1000, Ar 1 := 0x2000), mc_f = (\<lambda>r. 5), mc_mstatus = 0x6008, mc_mepc = 0, mc_fcsr = 0,
     mc_pc = 0, mc_machine_mode = True, mc_least_privilege = 3, mc_mem = (\<lambda>a. Some 0x6000)\<rparr>"

lemma uniform_holds: "mc_mem m = (\<lambda>a. Some 0x6000) \<Longrightarrow> holds_context m p uniform_context"
proof -
  have "context_words uniform_context = replicate 68 0x6000"
    by (simp add: context_words_def uniform_context_def replicate_add [symmetric] numeral_eq_Suc)
  then show "mc_mem m = (\<lambda>a. Some 0x6000) \<Longrightarrow> holds_context m p uniform_context"
    by (simp add: holds_context_def holds_words_def TASK_CONTEXT_WORDS_def) (simp add: context_ok_def uniform_context_def)
qed

lemma uniform_ready: "ready_to_switch uniform_machine 0x1000 uniform_context 0x2000 uniform_context"
  using uniform_holds [of uniform_machine]
  by (simp add: ready_to_switch_def uniform_machine_def placed_def apart_def TASK_CONTEXT_WORDS_def fs_on_def take_bit_eq_mod
      uniform_context_def)

text \<open>
  C12. The switch without a port is exact. Called in machine mode with the floating point unit on, on two
  contexts in memory that do not overlap, the code runs to its end without a trap: the context of the
  task that leaves holds what it must find again and no other word of memory changes; the processor
  continues the other context in every register, at its return address and with its interrupt state.
  From the second instruction to the last before the return, interrupts are disabled.
\<close>

theorem context_switch_exact:
  assumes "ready_to_switch m p c0 q c" "\<not> bit (cx_mstatus c) 3"
  shows "\<exists>m'. run_code cooperative_context_switch_fallback m = Some m' \<and> holds_context m' p (saved_context m c0)
    \<and> (\<forall>a. (\<forall>i < TASK_CONTEXT_WORDS. a \<noteq> context_addr p i) \<longrightarrow> mc_mem m' a = mc_mem m a) \<and> continues m' c
    \<and> (\<forall>k. 2 \<le> k \<and> k < length cooperative_context_switch_fallback
        \<longrightarrow> (\<exists>n. run_code (take k cooperative_context_switch_fallback) m = Some n \<and> \<not> bit (mc_mstatus n) 3))"
  using switch_run [OF assms(1)] switch_masked [OF assms] by blast

theorem context_switch_exact_witness:
  "\<exists>m'. run_code cooperative_context_switch_fallback uniform_machine = Some m'
    \<and> holds_context m' 0x1000 (saved_context uniform_machine uniform_context) \<and> continues m' uniform_context"
proof -
  have "\<not> bit (cx_mstatus uniform_context) 3" by (simp add: uniform_context_def)
  from context_switch_exact [OF uniform_ready this] show ?thesis by blast
qed

text \<open>
  C11. A task that is switched away comes back as from a call. Let its switch run, and let later any task
  switch to it from a machine whose memory still has the words of its context: that switch runs to its
  end and the task goes on at the return address of its own call, in machine mode, with its stack and
  thread pointer, its callee-saved integer and floating point registers, its floating point control
  word and its interrupt state as they were, whatever ran in between.
\<close>

theorem switched_task_comes_back:
  assumes "ready_to_switch m p c0 q c" "run_code cooperative_context_switch_fallback m = Some m1"
    "\<forall>i < TASK_CONTEXT_WORDS. mc_mem m2 (context_addr p i) = mc_mem m1 (context_addr p i)"
    "placed q'" "apart q' p" "mc_x m2 (Ar 0) = q'" "mc_x m2 (Ar 1) = p" "mc_machine_mode m2" "fs_on (mc_mstatus m2)" "holds_context m2 q' c'"
  shows "\<exists>m3. run_code cooperative_context_switch_fallback m2 = Some m3 \<and> mc_pc m3 = mc_x m RA AND NOT 1 \<and> mc_machine_mode m3
    \<and> (\<forall>r \<in> set s_regs \<union> {SP, TP}. mc_x m3 r = mc_x m r) \<and> (\<forall>r \<in> set fs_regs. mc_f m3 r = mc_f m r)
    \<and> mc_fcsr m3 = mc_fcsr m \<and> bit (mc_mstatus m3) 3 = bit (mc_mstatus m) 3"
proof -
  have "holds_context m1 p (saved_context m c0)" using switch_run [OF assms(1)] assms(2) by auto
  then have "holds_context m2 p (saved_context m c0)" using assms(3) by (simp add: holds_context_def holds_words_def)
  moreover have "placed p" "fs_on (mc_mstatus m)" using assms(1) by (simp_all add: ready_to_switch_def)
  ultimately have "ready_to_switch m2 q' c' p (saved_context m c0)"
    using assms(4-10) saved_context_fs by (simp add: ready_to_switch_def)
  from switch_run [OF this] obtain m3 where
    m3: "run_code cooperative_context_switch_fallback m2 = Some m3" "continues m3 (saved_context m c0)" by blast
  note k = continues_saved [OF m3(2)]
  have "\<forall>r \<in> set s_regs. mc_x m3 r = mc_x m r" "\<forall>r \<in> set fs_regs. mc_f m3 r = mc_f m r"
    using k(3,4) by (simp_all only: map_eq_conv)
  with m3(1) k show ?thesis by blast
qed

theorem switched_task_comes_back_witness:
  "\<exists>m1 m3. run_code cooperative_context_switch_fallback uniform_machine = Some m1
    \<and> run_code cooperative_context_switch_fallback
        (m1\<lparr>mc_x := (\<lambda>r. 0)(Ar 0 := 0x2000, Ar 1 := 0x1000), mc_machine_mode := True, mc_mstatus := 0x6000\<rparr>) = Some m3
    \<and> mc_x m3 SP = 7 \<and> mc_f m3 (FSr 3) = 5 \<and> mc_pc m3 = 6 \<and> bit (mc_mstatus m3) 3"
proof -
  from switch_run [OF uniform_ready] obtain m1 where
    m1: "run_code cooperative_context_switch_fallback uniform_machine = Some m1" "outside 0x1000 (mc_mem uniform_machine) (mc_mem m1)" by blast
  let ?m2 = "m1\<lparr>mc_x := (\<lambda>r. 0)(Ar 0 := 0x2000, Ar 1 := 0x1000), mc_machine_mode := True, mc_mstatus := 0x6000\<rparr>"
  have pl: "placed 0x1000" "placed 0x2000" "apart 0x1000 0x2000" "apart 0x2000 0x1000"
    by (simp_all add: placed_def apart_def TASK_CONTEXT_WORDS_def take_bit_eq_mod)
  have "holds_words (mc_mem m1) 0x2000 (context_words uniform_context)"
    using holds_outside [OF pl(1-3) m1(2)] uniform_ready by (simp add: ready_to_switch_def holds_context_def)
  then have h: "holds_context ?m2 0x2000 uniform_context" using uniform_ready by (simp add: ready_to_switch_def holds_context_def)
  have fs: "fs_on (mc_mstatus ?m2)" by (simp add: fs_on_def)
  from switched_task_comes_back [OF uniform_ready m1(1), of ?m2 "0x2000" uniform_context] pl(2,4) h fs obtain m3 where
    m3: "run_code cooperative_context_switch_fallback ?m2 = Some m3" "mc_pc m3 = mc_x uniform_machine RA AND NOT 1"
      "\<forall>r \<in> set s_regs \<union> {SP, TP}. mc_x m3 r = mc_x uniform_machine r" "\<forall>r \<in> set fs_regs. mc_f m3 r = mc_f uniform_machine r"
      "bit (mc_mstatus m3) 3 = bit (mc_mstatus uniform_machine) 3" by auto
  have "FSr 3 \<in> set fs_regs" by (simp add: fs_regs_def)
  with m1(1) m3 show ?thesis by (intro exI [of _ m1] exI [of _ m3]) (auto simp: uniform_machine_def)
qed

end
