(* ===== verification/References.thy ===== *)
theory References
  imports Kernel_Properties
begin

text \<open>
  The references of the kernel: addresses of semaphores and mutexes in the tasks, slots of tasks in the
  objects and in the ready queues. In Rust they are raw pointers and plain indices, so no compiler
  checks them; here they are shown to stay valid on every run, through creation and destruction.
\<close>

definition slot_ref :: "nat \<Rightarrow> bool" where
  "slot_ref i \<longleftrightarrow> i = NIL \<or> i < TASK_SLOT_COUNT"

text \<open>The references of a task: to live objects, to one of them while it waits, and only while it is blocked.\<close>

definition task_refs :: "sched \<Rightarrow> tcb \<Rightarrow> bool" where
  "task_refs s t \<longleftrightarrow> (t_waiting_sem t \<noteq> 0 \<longrightarrow> sem_mem s (t_waiting_sem t) \<noteq> None \<and> t_waiting_mutex t = 0 \<and> t_state t = Blocked)
     \<and> (t_waiting_mutex t \<noteq> 0 \<longrightarrow> mutex_mem s (t_waiting_mutex t) \<noteq> None \<and> t_state t = Blocked)
     \<and> (t_granted_sem t \<noteq> 0 \<longrightarrow> sem_mem s (t_granted_sem t) \<noteq> None) \<and> (t_granted_mutex t \<noteq> 0 \<longrightarrow> mutex_mem s (t_granted_mutex t) \<noteq> None)
     \<and> t_priority t < PRIORITY_LEVELS \<and> t_base_priority t < PRIORITY_LEVELS"

text \<open>The references of an object: to tasks that wait for it, and to its owner.\<close>

definition sem_refs :: "sched \<Rightarrow> nat \<Rightarrow> sem_state \<Rightarrow> bool" where
  "sem_refs s a st \<longleftrightarrow> a \<noteq> 0 \<and> 0 \<le> sm_count st \<and> sm_count st \<le> I32_MAX \<and> slot_ref (sm_wait_head st) \<and> slot_ref (sm_wait_tail st)
     \<and> (sm_wait_head st \<noteq> NIL \<longrightarrow> t_waiting_sem (tasks s ! sm_wait_head st) = a \<and> t_waiting_sem (tasks s ! sm_wait_tail st) = a)"

definition mutex_refs :: "sched \<Rightarrow> nat \<Rightarrow> mutex_state \<Rightarrow> bool" where
  "mutex_refs s a m \<longleftrightarrow> a \<noteq> 0 \<and> slot_ref (mx_owner m) \<and> (mx_owner m = NIL \<longleftrightarrow> mx_depth m = 0) \<and> mx_depth m \<le> U32_MAX
     \<and> slot_ref (mx_wait_head m) \<and> slot_ref (mx_wait_tail m)
     \<and> (mx_wait_head m \<noteq> NIL \<longrightarrow> mx_owner m \<noteq> NIL \<and> t_waiting_mutex (tasks s ! mx_wait_head m) = a
          \<and> t_waiting_mutex (tasks s ! mx_wait_tail m) = a)"

definition refs_ok :: "sched \<Rightarrow> bool" where
  "refs_ok s \<longleftrightarrow> length (tasks s) = TASK_SLOT_COUNT \<and> slot_ref (current s) \<and> current s \<noteq> NIL
     \<and> (\<forall>i < TASK_SLOT_COUNT. task_refs s (tasks s ! i))
     \<and> (\<forall>a st. sem_mem s a = Some st \<longrightarrow> sem_refs s a st) \<and> (\<forall>a m. mutex_mem s a = Some m \<longrightarrow> mutex_refs s a m)
     \<and> (\<forall>p < PRIORITY_LEVELS. slot_ref (ready_head s ! p) \<and> slot_ref (ready_tail s ! p)
          \<and> (ready_head s ! p \<noteq> NIL \<longrightarrow> state_of s (ready_head s ! p) = Ready \<and> prio_of s (ready_head s ! p) = p))"

text \<open>The ends of a queue are members of it.\<close>

lemma queue_ends:
  assumes "wait_rep s e xs"
  shows "slot_ref (fst e)" "slot_ref (snd e)" "fst e \<noteq> NIL \<Longrightarrow> fst e \<in> set xs \<and> snd e \<in> set xs"
  using assms by (cases xs; auto simp: wait_rep_def slot_ref_def)+

lemma refs_of_inv:
  assumes inv: "kernel_inv s Q S M"
  shows "refs_ok s"
proof -
  note k = kernel_invD [OF inv] and d = sync_invD [OF kernel_invD(1) [OF inv]] and o = owned_butD [OF kernel_invD(8) [OF inv]]
  note r = waits_repD [OF d(2)]
  have "task_refs s (tasks s ! i)" if i: "i < TASK_SLOT_COUNT" for i
    unfolding task_refs_def
  proof (intro conjI impI)
    show "sem_mem s (t_waiting_sem (tasks s ! i)) \<noteq> None" "t_waiting_mutex (tasks s ! i) = 0" "state_of s i = Blocked"
      if "t_waiting_sem (tasks s ! i) \<noteq> 0" using sem_waiter(2-4) [OF k(1) i refl that] by auto
    show "mutex_mem s (t_waiting_mutex (tasks s ! i)) \<noteq> None" "state_of s i = Blocked"
      if "t_waiting_mutex (tasks s ! i) \<noteq> 0" using fam_waiting(2,3) [OF r(2) i _ refl that] by (auto simp: mutex_view_def)
    show "sem_mem s (t_granted_sem (tasks s ! i)) \<noteq> None" if "t_granted_sem (tasks s ! i) \<noteq> 0"
      using d(10) [OF i] that by (simp add: grant_ok_def Let_def)
    show "mutex_mem s (t_granted_mutex (tasks s ! i)) \<noteq> None" if "t_granted_mutex (tasks s ! i) \<noteq> 0"
      using d(10) [OF i] that by (auto simp: grant_ok_def Let_def)
  qed (use shape_okD(7) [OF o(1) i] d(6) i in \<open>auto simp: bases_ok_def\<close>)
  moreover have "sem_refs s a st" if a: "sem_mem s a = Some st" for a st
  proof -
    have v: "sem_view s a = Some (sem_ends st)" using a by (simp add: sem_view_def)
    show ?thesis using queue_ends [OF fam_repD(3) [OF r(1) v]] fam_repD(2) [OF r(1) v] fam_repD(7) [OF r(1), of _ a] d(9) a
      by (auto simp: sem_refs_def sem_ends_def objects_ok_def)
  qed
  moreover have "mutex_refs s a m" if a: "mutex_mem s a = Some m" for a m
  proof -
    have v: "mutex_view s a = Some (mutex_ends m)" using a by (simp add: mutex_view_def)
    have m: "slot_ref (mx_owner m)" "mx_owner m = NIL \<longleftrightarrow> mx_depth m = 0" "mx_depth m \<le> U32_MAX" "mx_owner m = NIL \<longrightarrow> M a = []"
      using d(4,9) a unfolding owners_ok_def objects_ok_def slot_ref_def by blast+
    show ?thesis using queue_ends [OF fam_repD(3) [OF r(2) v]] fam_repD(2) [OF r(2) v] fam_repD(7) [OF r(2), of _ a] m
      unfolding mutex_refs_def mutex_ends_def by (metis empty_iff fst_conv set_empty snd_conv)
  qed
  moreover have "slot_ref (ready_head s ! p) \<and> slot_ref (ready_tail s ! p)
      \<and> (ready_head s ! p \<noteq> NIL \<longrightarrow> state_of s (ready_head s ! p) = Ready \<and> prio_of s (ready_head s ! p) = p)" if p: "p < PRIORITY_LEVELS" for p
  proof -
    have "wait_rep s (ready_head s ! p, ready_tail s ! p) (Q p)" using ready_repD(1-3) [OF o(2) p] by (simp add: wait_rep_def)
    from queue_ends [OF this] show ?thesis using ready_repD(4) [OF o(2) p] o(3) bucket_subset [OF p, of Q] by auto
  qed
  ultimately show ?thesis using k(7,9) slot_not_NIL [OF k(9)] by (simp add: refs_ok_def slot_ref_def)
qed



end
