(* ===== verification/Ownership_Check.thy ===== *)
theory Ownership_Check
  imports Inspection
begin

text \<open>
  The audit is exact: on a started scheduler with tables of the right size it reports no violation
  if and only if the ownership invariant \<open>owned\<close> holds. Each phase of the audit is characterised by
  the part of the invariant it decides.
\<close>

subsection \<open>Counting\<close>

abbreviation clean :: "ready_audit \<Rightarrow> bool" where
  "clean a \<equiv> a_violations a = 0"

abbreviation member :: "ready_audit \<Rightarrow> nat \<Rightarrow> nat" where
  "member a i \<equiv> a_memberships a ! i"

lemma violation_sel [simp]:
  "\<not> clean (violation a)" "a_memberships (violation a) = a_memberships a"
  "clean (violation_if b a) \<longleftrightarrow> \<not> b \<and> clean a" "a_memberships (violation_if b a) = a_memberships a"
  "clean (invalid_link_if b a) \<longleftrightarrow> \<not> b \<and> clean a" "a_memberships (invalid_link_if b a) = a_memberships a"
  "clean (wrong_priority_if b a) \<longleftrightarrow> \<not> b \<and> clean a" "a_memberships (wrong_priority_if b a) = a_memberships a"
  by (auto simp: violation_def violation_if_def invalid_link_if_def wrong_priority_if_def sat_add_def)

lemma count_member_spec:
  assumes "i < length (a_memberships a)"
  shows "\<exists>a'. count_member p i a = Some a' \<and> a_memberships a' = (a_memberships a)[i := bump8 (member a i)]
    \<and> (clean a' \<longleftrightarrow> clean a \<and> member a i = 0)"
  using assms by (auto simp: count_member_def Let_def)

definition marked :: "nat list \<Rightarrow> ready_audit \<Rightarrow> ready_audit \<Rightarrow> bool" where
  "marked xs a a' \<longleftrightarrow> (\<forall>i < TASK_SLOT_COUNT. member a' i = (if i \<in> set xs then 1 else member a i))"

definition fits :: "sched \<Rightarrow> nat \<Rightarrow> ready_audit \<Rightarrow> nat list \<Rightarrow> bool" where
  "fits s p a xs \<longleftrightarrow> (\<forall>x \<in> set xs. x < TASK_SLOT_COUNT \<and> member a x = 0 \<and> prio_of s x = p)"

subsection \<open>One bucket\<close>

definition walked :: "nat \<Rightarrow> nat \<Rightarrow> nat \<Rightarrow> nat \<Rightarrow> sched \<Rightarrow> ready_audit \<Rightarrow> nat \<Rightarrow> nat \<Rightarrow> ready_audit \<Rightarrow> bool" where
  "walked n p cur prev s a c q a' \<longleftrightarrow> length (a_memberships a') = TASK_SLOT_COUNT
    \<and> (clean a' \<and> c = NIL \<longleftrightarrow> clean a \<and> (\<exists>xs. chain (links s) cur xs \<and> length xs \<le> n \<and> fits s p a xs))
    \<and> (\<forall>xs. clean a' \<and> c = NIL \<and> chain (links s) cur xs \<longrightarrow>
         q = (if xs = [] then prev else last xs) \<and> marked xs a a')"

lemma walked_step:
  assumes cur: "cur \<noteq> NIL" "cur < TASK_SLOT_COUNT"
    and a1: "a_memberships a1 = (a_memberships a)[cur := bump8 (member a cur)]"
      "clean a1 \<longleftrightarrow> clean a \<and> member a cur = 0 \<and> prio_of s cur = p"
    and len: "length (a_memberships a) = TASK_SLOT_COUNT"
    and ih: "walked n p (links s cur) cur s a1 c q a'"
  shows "walked (Suc n) p cur prev s a c q a'"
proof -
  have m1: "member a1 i = (if i = cur then bump8 (member a cur) else member a i)" if "i < TASK_SLOT_COUNT" for i
    using that a1(1) len cur by (simp add: nth_list_update)
  have zero: "member a cur = 0 \<Longrightarrow> member a1 cur = 1" using m1 cur by (simp add: sat_add_def)
  have fit: "fits s p a (cur # xs) \<longleftrightarrow> member a cur = 0 \<and> prio_of s cur = p \<and> fits s p a1 xs"
    if "chain (links s) cur (cur # xs)" for xs
  proof -
    have "cur \<notin> set xs" using chain_distinct [OF that] by simp
    then have "member a1 x = member a x" if "x \<in> set xs" "x < TASK_SLOT_COUNT" for x
      using m1 [OF that(2)] that(1) by auto
    then show ?thesis using cur unfolding fits_def by auto
  qed
  have chains: "chain (links s) cur xs \<longleftrightarrow> (\<exists>ys. xs = cur # ys \<and> chain (links s) (links s cur) ys)" for xs
    using cur by (cases xs) auto
  have tail: "chain (links s) cur (cur # ys)" if "chain (links s) (links s cur) ys" for ys using that cur by simp
  have iff: "clean a1 \<and> (\<exists>ys. chain (links s) (links s cur) ys \<and> length ys \<le> n \<and> fits s p a1 ys)
      \<longleftrightarrow> clean a \<and> (\<exists>xs. chain (links s) cur xs \<and> length xs \<le> Suc n \<and> fits s p a xs)"
    using chains a1(2) fit tail by (metis Suc_le_mono length_Cons)
  have last: "q = (if xs = [] then prev else last xs) \<and> marked xs a a'"
    if fin: "clean a'" "c = NIL" "chain (links s) cur xs" for xs
  proof -
    from fin(3) chains obtain ys where ys: "xs = cur # ys" "chain (links s) (links s cur) ys" by blast
    have q: "q = (if ys = [] then cur else last ys)" "marked ys a1 a'"
      using ih fin ys(2) unfolding walked_def by blast+
    have "clean a1" using ih fin unfolding walked_def by blast
    then have "member a1 cur = 1" using a1(2) zero by simp
    then have "marked xs a a'" using q(2) m1 ys(1) unfolding marked_def by auto
    with q(1) ys(1) show ?thesis by simp
  qed
  show ?thesis using ih iff last unfolding walked_def by blast
qed

lemma audit_walk_spec:
  assumes "length (tasks s) = TASK_SLOT_COUNT" "length (a_memberships a) = TASK_SLOT_COUNT"
  shows "\<exists>c q a'. audit_walk n p cur prev s a = Some (c, q, a') \<and> walked n p cur prev s a c q a'"
  using assms(2)
proof (induction n arbitrary: cur prev a)
  case 0
  have "(\<exists>xs. chain (links s) cur xs \<and> length xs \<le> 0 \<and> fits s p a xs) \<longleftrightarrow> cur = NIL"
    by (auto simp: fits_def)
  moreover have "marked [] a a" by (simp add: marked_def)
  moreover have "xs = []" if "chain (links s) NIL xs" for xs using that by (cases xs) auto
  ultimately show ?case using 0 unfolding walked_def by auto
next
  case (Suc n)
  consider "cur = NIL" | "cur \<noteq> NIL" "TASK_SLOT_COUNT \<le> cur" | "cur \<noteq> NIL" "cur < TASK_SLOT_COUNT" by fastforce
  then show ?case
  proof cases
    case 1
    have only: "xs = []" if "chain (links s) NIL xs" for xs using that by (cases xs) auto
    have "chain (links s) NIL [] \<and> fits s p a [] \<and> marked [] a a" by (simp add: fits_def marked_def)
    then have "walked (Suc n) p cur prev s a NIL prev a"
      using 1 Suc.prems only unfolding walked_def by fastforce
    with 1 show ?thesis by simp
  next
    case 2
    then have "\<not> (chain (links s) cur xs \<and> fits s p a xs)" for xs by (cases xs) (auto simp: fits_def)
    then have "walked (Suc n) p cur prev s a NIL prev (invalid_link_if True a)"
      using Suc.prems unfolding walked_def by auto
    with 2 show ?thesis by simp
  next
    case 3
    have lt: "cur < length (a_memberships a)" using 3 Suc.prems by simp
    from count_member_spec [OF lt, of p] obtain a0 where
      a0: "count_member p cur a = Some a0" "a_memberships a0 = (a_memberships a)[cur := bump8 (member a cur)]"
        "clean a0 \<longleftrightarrow> clean a \<and> member a cur = 0" by (elim exE conjE) (rule that)
    let ?a1 = "wrong_priority_if (prio_of s cur \<noteq> p) a0"
    have a1: "a_memberships ?a1 = (a_memberships a)[cur := bump8 (member a cur)]"
      "clean ?a1 \<longleftrightarrow> clean a \<and> member a cur = 0 \<and> prio_of s cur = p" using a0 by auto
    have "length (a_memberships ?a1) = TASK_SLOT_COUNT" using a1(1) Suc.prems by simp
    from Suc.IH [OF this, of "links s cur" cur] obtain c q a' where
      r: "audit_walk n p (links s cur) cur s ?a1 = Some (c, q, a')" "walked n p (links s cur) cur s ?a1 c q a'" by blast
    have "audit_walk (Suc n) p cur prev s a = Some (c, q, a')"
      using 3 a0(1) r(1) assms(1) by (simp add: links_def)
    with walked_step [OF 3 a1 Suc.prems r(2)] show ?thesis by blast
  qed
qed

lemma audit_bucket_spec:
  assumes sh: "shape_ok s" and len: "length (a_memberships a) = TASK_SLOT_COUNT" and p: "p < PRIORITY_LEVELS"
  shows "\<exists>a'. audit_bucket s p a = Some a' \<and> length (a_memberships a') = TASK_SLOT_COUNT
    \<and> (clean a' \<longleftrightarrow> clean a \<and> (\<exists>q. bucket_ok s p q \<and> (\<forall>x \<in> set q. member a x = 0)))
    \<and> (\<forall>q. clean a' \<and> bucket_ok s p q \<longrightarrow> marked q a a')"
proof -
  note d = shape_okD [OF sh]
  let ?h = "ready_head s ! p" and ?t = "ready_tail s ! p"
  define a0 where "a0 = invalid_link_if (?t \<noteq> NIL \<and> TASK_SLOT_COUNT \<le> ?t) (invalid_link_if ((?h = NIL) \<noteq> (?t = NIL)) a)"
  have a0: "a_memberships a0 = a_memberships a"
    "clean a0 \<longleftrightarrow> clean a \<and> (?h = NIL \<longleftrightarrow> ?t = NIL) \<and> (?t = NIL \<or> ?t < TASK_SLOT_COUNT)"
    by (auto simp: a0_def)
  from audit_walk_spec [OF d(1), of a0 TASK_SLOT_COUNT p ?h NIL] len a0(1) obtain c q a1 where
    w: "audit_walk TASK_SLOT_COUNT p ?h NIL s a0 = Some (c, q, a1)" "walked TASK_SLOT_COUNT p ?h NIL s a0 c q a1" by auto
  define a2 where "a2 = invalid_link_if (c \<noteq> NIL \<or> (?h \<noteq> NIL \<and> q \<noteq> ?t)) a1"
  define a3 where "a3 = (if ?t < TASK_SLOT_COUNT then invalid_link_if (links s ?t \<noteq> NIL) a2 else a2)"
  have run: "audit_bucket s p a = Some a3"
    using d(1-3) p w(1) by (simp add: audit_bucket_def Let_def a0_def a2_def a3_def links_def)
  have len3: "length (a_memberships a3) = TASK_SLOT_COUNT" "a_memberships a3 = a_memberships a1"
    using w(2) by (auto simp: a3_def a2_def walked_def)
  have c3: "clean a3 \<longleftrightarrow> clean a1 \<and> c = NIL \<and> (?h = NIL \<or> q = ?t) \<and> (?t < TASK_SLOT_COUNT \<longrightarrow> links s ?t = NIL)"
    by (auto simp: a3_def a2_def)
  have last_nil: "links s (last xs) = NIL" if "chain (links s) ?h xs" "xs \<noteq> []" for xs
    using chain_successor [of "links s" ?h "butlast xs" "last xs" "[]"] that by simp
  have walk_done: "q = last_or_NIL xs \<and> marked xs a a3" if "clean a1" "c = NIL" "chain (links s) ?h xs" for xs
    using w(2) that len3(2) a0(1) unfolding walked_def marked_def last_or_NIL_def by auto
  have sound: "\<exists>q. bucket_ok s p q \<and> (\<forall>x \<in> set q. member a x = 0)" "clean a" if "clean a3"
  proof -
    from that c3 have 1: "clean a1" "c = NIL" "?h = NIL \<or> q = ?t" by auto
    with w(2) obtain xs where xs: "clean a0" "chain (links s) ?h xs" "fits s p a0 xs" unfolding walked_def by blast
    have "?t = last_or_NIL xs"
    proof (cases "?h = NIL")
      case True
      then have "xs = []" using xs(2) by (cases xs) auto
      with True xs(1) a0(2) show ?thesis by simp
    next
      case False
      with 1 walk_done [OF 1(1,2) xs(2)] show ?thesis by simp
    qed
    with xs a0(1) show "\<exists>q. bucket_ok s p q \<and> (\<forall>x \<in> set q. member a x = 0)"
      unfolding bucket_ok_def fits_def by auto
    show "clean a" using xs(1) a0(2) by simp
  qed
  have complete: "clean a3" if "clean a" "bucket_ok s p xs" "\<forall>x \<in> set xs. member a x = 0" for xs
  proof -
    have ch: "chain (links s) ?h xs" and tl: "?t = last_or_NIL xs" and fit: "fits s p a0 xs"
      using that(2,3) a0(1) by (auto simp: bucket_ok_def fits_def)
    have slots: "\<forall>x \<in> set xs. x < TASK_SLOT_COUNT" using that(2) by (simp add: bucket_ok_def)
    have "length xs \<le> TASK_SLOT_COUNT" using distinct_slots_length chain_distinct [OF ch] slots by blast
    moreover have hn: "?h = NIL \<longleftrightarrow> xs = []" using ch chain_not_NIL [OF ch] by (cases xs) auto
    moreover have lt: "xs \<noteq> [] \<Longrightarrow> ?t < TASK_SLOT_COUNT" "xs = [] \<Longrightarrow> ?t = NIL"
      using tl slots last_in_set [of xs] by auto
    ultimately have "clean a0" using a0(2) that(1) slot_not_NIL by metis
    with w(2) ch fit \<open>length xs \<le> TASK_SLOT_COUNT\<close> have 1: "clean a1" "c = NIL" unfolding walked_def by blast+
    have "?t < TASK_SLOT_COUNT \<longrightarrow> links s ?t = NIL"
      using last_nil [OF ch] tl lt(2) by (cases "xs = []") auto
    with c3 1 walk_done [OF 1 ch] tl hn show ?thesis by auto
  qed
  have "marked xs a a3" if "clean a3" "bucket_ok s p xs" for xs
    using walk_done [of xs] that c3 by (auto simp: bucket_ok_def)
  moreover have "clean a3 \<longleftrightarrow> clean a \<and> (\<exists>q. bucket_ok s p q \<and> (\<forall>x \<in> set q. member a x = 0))"
    using sound complete by metis
  ultimately show ?thesis using run len3(1) by (intro exI [of _ a3]) simp
qed

subsection \<open>All buckets\<close>

lemma audit_buckets_spec:
  assumes sh: "shape_ok s" and "m \<le> PRIORITY_LEVELS"
  shows "\<exists>a. for_each (audit_bucket s) [0..<m] audit_empty = Some a
    \<and> length (a_memberships a) = TASK_SLOT_COUNT
    \<and> (clean a \<longleftrightarrow> (\<exists>Q. \<forall>p < m. bucket_ok s p (Q p)))
    \<and> (\<forall>Q. clean a \<and> (\<forall>p < m. bucket_ok s p (Q p)) \<longrightarrow>
         (\<forall>i < TASK_SLOT_COUNT. member a i = of_bool (\<exists>p < m. i \<in> set (Q p))))"
  using assms(2)
proof (induction m)
  case 0
  then show ?case by (simp add: audit_empty_def)
next
  case (Suc m)
  have "m \<le> PRIORITY_LEVELS" using Suc.prems by simp
  from Suc.IH [OF this] obtain a where a: "for_each (audit_bucket s) [0..<m] audit_empty = Some a"
    "length (a_memberships a) = TASK_SLOT_COUNT" "clean a \<longleftrightarrow> (\<exists>Q. \<forall>p < m. bucket_ok s p (Q p))"
    "\<forall>Q. clean a \<and> (\<forall>p < m. bucket_ok s p (Q p)) \<longrightarrow>
       (\<forall>i < TASK_SLOT_COUNT. member a i = of_bool (\<exists>p < m. i \<in> set (Q p)))" by (elim exE conjE) (rule that)
  have m: "m < PRIORITY_LEVELS" using Suc.prems by simp
  from audit_bucket_spec [OF sh a(2) m] obtain a' where
    a': "audit_bucket s m a = Some a'" "length (a_memberships a') = TASK_SLOT_COUNT"
      "clean a' \<longleftrightarrow> clean a \<and> (\<exists>q. bucket_ok s m q \<and> (\<forall>x \<in> set q. member a x = 0))"
      "\<forall>q. clean a' \<and> bucket_ok s m q \<longrightarrow> marked q a a'" by (elim exE conjE) (rule that)
  have fresh: "\<forall>x \<in> set q. member a x = 0" if "\<forall>p < m. bucket_ok s p (Q p)" "bucket_ok s m q" "clean a" for Q q
  proof
    fix x
    assume x: "x \<in> set q"
    then have px: "x < TASK_SLOT_COUNT" "prio_of s x = m" using that(2) by (auto simp: bucket_ok_def)
    then have "\<not> (\<exists>p < m. x \<in> set (Q p))" using that(1) by (auto simp: bucket_ok_def)
    with a(4) that(1,3) px(1) show "member a x = 0" by auto
  qed
  have iff: "clean a' \<longleftrightarrow> (\<exists>Q. \<forall>p < Suc m. bucket_ok s p (Q p))"
  proof
    assume "clean a'"
    with a'(3) a(3) obtain q Q where "bucket_ok s m q" "\<forall>p < m. bucket_ok s p (Q p)" by blast
    then have "\<forall>p < Suc m. bucket_ok s p ((Q(m := q)) p)" by (simp add: less_Suc_eq)
    then show "\<exists>Q. \<forall>p < Suc m. bucket_ok s p (Q p)" by blast
  next
    assume "\<exists>Q. \<forall>p < Suc m. bucket_ok s p (Q p)"
    then obtain Q where Q: "\<forall>p < m. bucket_ok s p (Q p)" "bucket_ok s m (Q m)"
      by (metis less_Suc_eq)
    then have "clean a" using a(3) by blast
    with a'(3) Q fresh show "clean a'" by blast
  qed
  have marks: "member a' i = of_bool (\<exists>p < Suc m. i \<in> set (Q p))"
    if "clean a'" "\<forall>p < Suc m. bucket_ok s p (Q p)" "i < TASK_SLOT_COUNT" for Q i
  proof -
    have "clean a" "marked (Q m) a a'" using a'(3,4) that by auto
    moreover from this a(4) that have "member a i = of_bool (\<exists>p < m. i \<in> set (Q p))" by simp
    ultimately show ?thesis using that(3) by (auto simp: marked_def less_Suc_eq)
  qed
  have "for_each (audit_bucket s) [0..<Suc m] audit_empty = Some a'"
    using a(1) a'(1) by (simp add: for_each_append)
  with a'(2) iff marks show ?case by (intro exI [of _ a']) blast
qed

subsection \<open>All tasks\<close>

definition task_fine :: "sched \<Rightarrow> nat \<Rightarrow> nat \<Rightarrow> bool" where
  "task_fine s i n \<longleftrightarrow>
     (case state_of s i of
        Ready \<Rightarrow> if i = IDLE_SLOT then n = 0 else sat_add U8_MAX n (of_bool (audited_target s = Some i)) = 1
      | Running \<Rightarrow> i = current s \<and> n = 0 \<and> audited_target s \<noteq> Some i
      | _ \<Rightarrow> n = 0 \<and> audited_target s \<noteq> Some i)"

lemma audit_task_spec:
  assumes "i < length (tasks s)" "i < length (a_memberships a)"
  shows "\<exists>a'. audit_task s i a = Some a' \<and> a_memberships a' = a_memberships a
    \<and> (clean a' \<longleftrightarrow> clean a \<and> task_fine s i (member a i))"
  using assms by (cases "state_of s i") (auto simp: audit_task_def task_fine_def Let_def)

lemma audit_tasks_spec:
  assumes "length (tasks s) = TASK_SLOT_COUNT" "length (a_memberships a) = TASK_SLOT_COUNT"
    "\<forall>i \<in> set is. i < TASK_SLOT_COUNT"
  shows "\<exists>a'. for_each (audit_task s) is a = Some a' \<and> a_memberships a' = a_memberships a
    \<and> (clean a' \<longleftrightarrow> clean a \<and> (\<forall>i \<in> set is. task_fine s i (member a i)))"
  using assms(2,3)
proof (induction "is" arbitrary: a)
  case Nil
  then show ?case by simp
next
  case (Cons i "is")
  have "i < length (tasks s)" "i < length (a_memberships a)" using Cons.prems assms(1) by simp_all
  from audit_task_spec [OF this] obtain a1 where a1: "audit_task s i a = Some a1"
    "a_memberships a1 = a_memberships a" "clean a1 \<longleftrightarrow> clean a \<and> task_fine s i (member a i)"
    by (elim exE conjE) (rule that)
  have "length (a_memberships a1) = TASK_SLOT_COUNT" "\<forall>i \<in> set is. i < TASK_SLOT_COUNT"
    using a1(2) Cons.prems by simp_all
  from Cons.IH [OF this] obtain a' where "for_each (audit_task s) is a1 = Some a'"
    "a_memberships a' = a_memberships a1"
    "clean a' \<longleftrightarrow> clean a1 \<and> (\<forall>i \<in> set is. task_fine s i (member a1 i))"
    by (elim exE conjE) (rule that)
  then show ?case unfolding for_each.simps a1(1) using a1(2,3) by (intro exI [of _ a']) simp
qed

subsection \<open>The running task\<close>

lemma running_tasks_zero:
  "length (tasks s) = TASK_SLOT_COUNT \<Longrightarrow>
    running_tasks s = 0 \<longleftrightarrow> (\<forall>i < TASK_SLOT_COUNT. state_of s i \<noteq> Running)"
  by (auto simp: running_tasks_def filter_empty_conv all_set_conv_all_nth)

lemma running_tasks_one:
  assumes "length (tasks s) = TASK_SLOT_COUNT" "\<And>i. i < TASK_SLOT_COUNT \<Longrightarrow> state_of s i = Running \<Longrightarrow> i = c"
    "c < TASK_SLOT_COUNT" "state_of s c = Running"
  shows "running_tasks s = 1"
proof -
  have "{i. i < length (tasks s) \<and> t_state (tasks s ! i) = Running} = {c}"
    unfolding assms(1) using assms(3,4) by (intro equalityI subsetI) (auto dest: assms(2))
  then show ?thesis using assms(1) by (simp add: running_tasks_def length_filter_conv_card)
qed

definition current_fine :: "sched \<Rightarrow> bool" where
  "current_fine s \<longleftrightarrow>
     (case pending_switch s of
        Some p \<Rightarrow> running_tasks s = 0 \<and> current s = ref_slot (ps_previous p) \<and> state_of s (current s) \<noteq> Running
      | None \<Rightarrow> running_tasks s = 1 \<and> state_of s (current s) = Running)"

lemma audit_current_spec:
  assumes "shape_ok s" "started s"
  shows "clean (audit_current s a) \<longleftrightarrow> clean a \<and> current_fine s"
  using assms shape_okD(1,6) [OF assms(1)]
  by (auto simp: audit_current_def current_fine_def Let_def split: option.split)

subsection \<open>The audit decides the invariant\<close>

lemma owned_fine:
  assumes own: "owned s Q" and i: "i < TASK_SLOT_COUNT"
  shows "task_fine s i (of_bool (i \<in> queued Q))"
proof -
  have ob: "owned_but {} s Q" using own by (simp add: owned_def)
  note d = owned_butD [OF ob]
  have tgt: "audited_target s = pending_target s"
    using d(6) by (auto simp: audited_target_def pending_target_def pending_ok_def split: option.split)
  have pt: "state_of s j = Ready \<and> j \<notin> queued Q" if "pending_target s = Some j" for j
    using that d(6) by (auto simp: pending_target_def pending_ok_def)
  show ?thesis
  proof (cases "state_of s i")
    case Ready
    then show ?thesis using d(4,5) [of i] i pt [of i] by (auto simp: task_fine_def tgt sat_add_def)
  next
    case Running
    then have "i = current s" "i \<notin> queued Q" "pending_target s \<noteq> Some i"
      using d(7) [OF i] d(3) [of i] pt [of i] by auto
    with Running show ?thesis by (simp add: task_fine_def tgt)
  qed (use d(3) [of i] pt [of i] in \<open>auto simp: task_fine_def tgt\<close>)
qed

lemma owned_current_fine:
  assumes "owned s Q"
  shows "current_fine s"
proof -
  have ob: "owned_but {} s Q" and run: "pending_switch s = None \<Longrightarrow> state_of s (current s) = Running"
    using assms by (simp_all add: owned_def)
  note d = owned_butD [OF ob]
  show ?thesis
  proof (cases "pending_switch s")
    case None
    then show ?thesis using running_tasks_one [OF d(8) d(7) d(9) run [OF None]] run by (simp add: current_fine_def)
  next
    case (Some p)
    with d(6) have "current s = ref_slot (ps_previous p)" "state_of s (current s) \<noteq> Running"
      by (auto simp: pending_ok_def)
    moreover from this d(7,8) have "running_tasks s = 0" using running_tasks_zero by metis
    ultimately show ?thesis using Some by (simp add: current_fine_def)
  qed
qed

lemma fine_owned:
  assumes sh: "shape_ok s" and rep: "ready_rep s Q"
    and fine: "\<And>i. i < TASK_SLOT_COUNT \<Longrightarrow> task_fine s i (of_bool (i \<in> queued Q))"
    and tgt: "pending_switch s \<noteq> None \<Longrightarrow> audited_target s \<noteq> None" and cur: "current_fine s"
  shows "owned s Q"
proof -
  note d = shape_okD [OF sh]
  have at: "audited_target s = pending_target s"
    using tgt by (auto simp: audited_target_def pending_target_def split: option.splits)
  have "owned_but {} s Q"
  proof (rule owned_butI [OF sh rep])
    fix i
    assume q: "i \<in> queued Q"
    have "i < TASK_SLOT_COUNT" using queued_slot [OF rep q] .
    from fine [OF this] q show "state_of s i = Ready \<and> i \<noteq> IDLE_SLOT"
      by (cases "state_of s i") (auto simp: task_fine_def split: if_splits)
  next
    fix i
    assume i: "i < TASK_SLOT_COUNT" and r: "state_of s i = Ready" "i \<noteq> IDLE_SLOT"
    with fine [OF i] show "i \<in> queued Q \<or> pending_target s = Some i"
      by (cases "i \<in> queued Q"; cases "pending_target s = Some i") (simp_all add: task_fine_def at sat_add_def)
  next
    fix p
    assume p: "pending_switch s = Some p"
    let ?t = "ref_slot (ps_target p)"
    have c: "task_ref_is_current (ps_target p) s" using tgt p by (auto simp: audited_target_def split: if_splits)
    then have t: "?t < TASK_SLOT_COUNT" using d(1) by (simp add: task_ref_is_current_iff)
    have pt: "audited_target s = Some ?t" using p at by (simp add: pending_target_def)
    have "state_of s ?t = Ready \<and> ?t \<notin> queued Q"
      using fine [OF t] pt by (cases "state_of s ?t") (auto simp: task_fine_def sat_add_def split: if_splits)
    moreover have "current s = ref_slot (ps_previous p) \<and> state_of s (current s) \<noteq> Running"
      using cur unfolding current_fine_def p option.case by blast
    ultimately show "pending_ok s Q p" using c by (auto simp: pending_ok_def)
  next
    fix i
    assume i: "i < TASK_SLOT_COUNT" and r: "state_of s i = Running"
    with fine [OF i] show "i = current s" by (simp add: task_fine_def)
  qed
  then show ?thesis using cur by (auto simp: owned_def current_fine_def)
qed

lemma audit_decides:
  assumes sh: "shape_ok s" and st: "started s"
  shows "\<exists>a. ready_ownership_audit s = Some a \<and> (clean a \<longleftrightarrow> (\<exists>Q. owned s Q))"
proof -
  note d = shape_okD [OF sh]
  from audit_buckets_spec [OF sh order_refl] obtain a1 where
    a1: "for_each (audit_bucket s) [0..<PRIORITY_LEVELS] audit_empty = Some a1"
      "length (a_memberships a1) = TASK_SLOT_COUNT" "clean a1 \<longleftrightarrow> (\<exists>Q. ready_rep s Q)"
      "\<forall>Q. clean a1 \<and> ready_rep s Q \<longrightarrow> (\<forall>i < TASK_SLOT_COUNT. member a1 i = of_bool (i \<in> queued Q))"
    unfolding ready_rep_def [symmetric] queued_iff [symmetric] by (elim exE conjE) (rule that)
  define a2 where "a2 = violation_if (pending_switch s \<noteq> None \<and> audited_target s = None) a1"
  have len2: "length (a_memberships a2) = TASK_SLOT_COUNT" using a1(2) by (simp add: a2_def)
  have c2: "clean a2 \<longleftrightarrow> clean a1 \<and> (pending_switch s \<noteq> None \<longrightarrow> audited_target s \<noteq> None)" by (auto simp: a2_def)
  have m2: "a_memberships a2 = a_memberships a1" by (simp add: a2_def)
  have "\<forall>i \<in> set [0..<TASK_SLOT_COUNT]. i < TASK_SLOT_COUNT" by simp
  from audit_tasks_spec [OF d(1) len2 this] obtain a3 where
    a3: "for_each (audit_task s) [0..<TASK_SLOT_COUNT] a2 = Some a3"
      "clean a3 \<longleftrightarrow> clean a2 \<and> (\<forall>i \<in> set [0..<TASK_SLOT_COUNT]. task_fine s i (member a1 i))"
    unfolding m2 by (elim exE conjE) (rule that)
  have run: "ready_ownership_audit s = Some (audit_current s a3)"
    using a1(1) a3(1) by (simp add: ready_ownership_audit_def a2_def)
  have "clean (audit_current s a3) \<longleftrightarrow> (\<exists>Q. owned s Q)"
  proof
    assume "clean (audit_current s a3)"
    with audit_current_spec [OF sh st] a3(2) c2 have c: "clean a1" "current_fine s"
      "pending_switch s \<noteq> None \<longrightarrow> audited_target s \<noteq> None" "\<forall>i < TASK_SLOT_COUNT. task_fine s i (member a1 i)" by auto
    from c(1) a1(3) obtain Q where Q: "ready_rep s Q" by blast
    with a1(4) c have "task_fine s i (of_bool (i \<in> queued Q))" if "i < TASK_SLOT_COUNT" for i using that by auto
    from fine_owned [OF sh Q this] c(2,3) show "\<exists>Q. owned s Q" by blast
  next
    assume "\<exists>Q. owned s Q"
    then obtain Q where Q: "owned s Q" by blast
    then have ob: "owned_but {} s Q" by (simp add: owned_def)
    have rep: "ready_rep s Q" using owned_butD(2) [OF ob] .
    with a1(3,4) have "clean a1" "\<forall>i < TASK_SLOT_COUNT. member a1 i = of_bool (i \<in> queued Q)" by auto
    moreover have "audited_target s \<noteq> None" if "pending_switch s \<noteq> None"
      using that owned_butD(6) [OF ob] by (auto simp: audited_target_def pending_ok_def)
    ultimately have "clean a3" using a3(2) c2 owned_fine [OF Q] by auto
    with audit_current_spec [OF sh st] owned_current_fine [OF Q] show "clean (audit_current s a3)" by simp
  qed
  with run show ?thesis by (intro exI [of _ "audit_current s a3"] conjI)
qed

text \<open>
  C28. The run-time audit is exact: on a started scheduler whose tables have their sizes, whatever
  the links, heads, tails, states and the pending switch contain, the audit terminates without an
  out-of-range access and counts no violation if and only if the ownership invariant holds: every
  bucket is a well-formed list of ready tasks of its priority, every other ready task is the target
  of the pending switch, the idle task is in no bucket, and at most the current task runs.
\<close>

theorem ownership_audit_exact:
  assumes "shape_ok s" "started s"
  shows "\<exists>a. ready_ownership_audit s = Some a \<and> (a_violations a = 0 \<longleftrightarrow> (\<exists>Q. owned s Q))"
  using audit_decides [OF assms] .

theorem ownership_audit_exact_witness:
  "\<exists>a. ready_ownership_audit demo_running = Some a \<and> a_violations a = 0"
proof -
  have own: "owned demo_running demo_queue"
    using demo_running_owned demo_sel demo_tasks(1) by (simp add: owned_def demo_running_def)
  have "shape_ok demo_running" using owned_butD(1) [OF demo_running_owned] .
  moreover have "started demo_running" using demo_sel by (simp add: demo_running_def)
  ultimately show ?thesis using ownership_audit_exact own by blast
qed

end
