(* ===== verification/Ready_Refinement.thy ===== *)
theory Ready_Refinement
  imports Wait_Queues
begin

text \<open>
  The ready queue as its callers see it. The scheduler keeps one intrusive list per priority, linked
  through the task table; together they implement one list of tasks, sorted by priority and stable.
  The abstraction relation is \<open>ready_abs\<close>, and each operation of the queue refines the operation on
  the list.
\<close>

definition flat :: "(nat \<Rightarrow> nat list) \<Rightarrow> nat list" where
  "flat Q = concat (map Q [0..<PRIORITY_LEVELS])"

definition ready_abs :: "sched \<Rightarrow> nat list \<Rightarrow> bool" where
  "ready_abs s L \<longleftrightarrow> shape_ok s \<and> (\<exists>Q. ready_rep s Q \<and> L = flat Q)"

lemma set_flat [simp]: "set (flat Q) = queued Q"
  by (auto simp: flat_def queued_def)

abbreviation better :: "nat \<Rightarrow> (nat \<Rightarrow> nat list) \<Rightarrow> nat list" where
  "better p Q \<equiv> concat (map Q [0..<p])"

abbreviation worse :: "nat \<Rightarrow> (nat \<Rightarrow> nat list) \<Rightarrow> nat list" where
  "worse p Q \<equiv> concat (map Q [Suc p..<PRIORITY_LEVELS])"

text \<open>A change of one bucket changes one segment of the list.\<close>

lemma flat_update:
  assumes "p < PRIORITY_LEVELS"
  shows "flat (Q(p := q)) = better p Q @ q @ worse p Q"
proof -
  have "[0..<PRIORITY_LEVELS] = [0..<p] @ p # [Suc p..<PRIORITY_LEVELS]"
    using assms upt_add_eq_append [of 0 p "PRIORITY_LEVELS - p"] upt_conv_Cons [of p PRIORITY_LEVELS] by simp
  then show ?thesis by (simp add: flat_def)
qed

lemma flat_split: "p < PRIORITY_LEVELS \<Longrightarrow> flat Q = better p Q @ Q p @ worse p Q"
  using flat_update [of p Q "Q p"] by simp

lemma segments:
  assumes "ready_rep s Q" "p < PRIORITY_LEVELS"
  shows "i \<in> set (better p Q) \<Longrightarrow> prio_of s i < p" "i \<in> set (Q p) \<Longrightarrow> prio_of s i = p" "i \<in> set (worse p Q) \<Longrightarrow> p < prio_of s i"
proof -
  have q: "prio_of s i = q" if "i \<in> set (Q q)" "q < PRIORITY_LEVELS" for q i using ready_repD(4) [OF assms(1) that(2,1)] .
  show "i \<in> set (better p Q) \<Longrightarrow> prio_of s i < p" using q assms(2) by fastforce
  show "i \<in> set (Q p) \<Longrightarrow> prio_of s i = p" using q assms(2) by blast
  show "i \<in> set (worse p Q) \<Longrightarrow> p < prio_of s i" using q by fastforce
qed

lemma flat_push:
  assumes "ready_rep s Q" "p = prio_of s i" "p < PRIORITY_LEVELS"
  shows "flat (Q(p := Q p @ [i])) = insert_prio (prio_of s) i (flat Q)"
proof -
  note seg = segments [OF assms(1,3)]
  have none: "takeWhile P W = [] \<and> dropWhile P W = W" if "\<forall>j \<in> set W. \<not> P j" for P and W :: "nat list" using that by (cases W) auto
  have "takeWhile (\<lambda>j. prio_of s j \<le> prio_of s i) (worse p Q) = [] \<and> dropWhile (\<lambda>j. prio_of s j \<le> prio_of s i) (worse p Q) = worse p Q"
    using seg(3) assms(2) by (intro none) (simp add: not_le)
  moreover have "\<forall>j \<in> set (better p Q @ Q p). prio_of s j \<le> prio_of s i" using seg(1,2) assms(2) by force
  ultimately show ?thesis
    unfolding insert_prio_def flat_split [OF assms(3), of Q] flat_update [OF assms(3)] append_assoc [symmetric]
    by (simp add: takeWhile_append dropWhile_append)
qed

lemma flat_remove:
  assumes "ready_rep s Q" "p = prio_of s i" "p < PRIORITY_LEVELS"
  shows "flat (Q(p := remove1 i (Q p))) = remove1 i (flat Q)"
proof -
  note seg = segments [OF assms(1,3)]
  have "i \<notin> set (better p Q)" "i \<notin> set (worse p Q)" using seg(1,3) [of i] assms(2) by auto
  then show ?thesis unfolding flat_split [OF assms(3), of Q] flat_update [OF assms(3)] by (simp add: remove1_append remove1_idem)
qed

lemma flat_pop:
  assumes "first_bucket Q = Some p"
  shows "hd (flat Q) = hd (Q p)" "flat (Q(p := tl (Q p))) = tl (flat Q)" "flat Q \<noteq> []"
proof -
  note b = first_bucket_Some [OF assms]
  have e: "better p Q = []" using b(3) by simp
  show "hd (flat Q) = hd (Q p)" "flat (Q(p := tl (Q p))) = tl (flat Q)" "flat Q \<noteq> []"
    unfolding flat_split [OF b(1), of Q] flat_update [OF b(1)] e using b(2) by simp_all
qed

lemma flat_sorted: "ready_rep s Q \<Longrightarrow> sorted (map (prio_of s) (flat Q))"
proof -
  assume rep: "ready_rep s Q"
  have "sorted (map (prio_of s) (concat (map Q [0..<n])))" if "n \<le> PRIORITY_LEVELS" for n using that
  proof (induction n)
    case (Suc n)
    have "prio_of s i \<le> prio_of s j" if "i \<in> set (better n Q)" "j \<in> set (Q n)" for i j
      using segments [OF rep, of n] Suc.prems that by fastforce
    moreover have "sorted (map (prio_of s) (Q n))"
      using segments(2) [OF rep, of n] Suc.prems by (simp add: sorted_iff_nth_mono)
    ultimately show ?case using Suc by (auto simp: sorted_append)
  qed simp
  then show ?thesis by (simp add: flat_def)
qed

text \<open>
  C20. The intrusive ready lists refine one sorted list. Whatever list they stand for, it is sorted by
  priority; making a task ready inserts it behind every task of its priority or better; the next
  task is the first one, and none when the list is empty; taking a task out removes it and nothing
  else; and asking for a task answers membership. Every operation returns, and the state it leaves
  stands for the new list.
\<close>

theorem ready_queue_refines_sorted_list:
  assumes "ready_abs s L" "i < TASK_SLOT_COUNT"
  shows "sorted (map (prio_of s) L)
    \<and> (i \<notin> set L \<longrightarrow> (\<exists>s'. ready_push i s = Some s' \<and> ready_abs s' (insert_prio (prio_of s) i L)))
    \<and> (\<exists>s'. ready_pop s = Some (if L = [] then NIL else hd L, s') \<and> ready_abs s' (tl L))
    \<and> (\<exists>s'. ready_remove i s = Some s' \<and> ready_abs s' (remove1 i L))
    \<and> ready_contains i s = Some (i \<in> set L)"
proof -
  from assms(1) obtain Q where ok: "shape_ok s" and rep: "ready_rep s Q" and L: "L = flat Q" by (auto simp: ready_abs_def)
  have p: "prio_of s i < PRIORITY_LEVELS" using shape_okD(7) [OF ok assms(2)] .
  have absI: "ready_abs s' (flat Q')" if "ready_rep s' Q'" "relinked X s s'" for s' Q' X
    using that relinked_shape [OF that(2) ok] unfolding ready_abs_def by blast
  have "\<exists>s'. ready_push i s = Some s' \<and> ready_abs s' (insert_prio (prio_of s) i L)" if "i \<notin> set L"
  proof -
    have "i \<notin> queued Q" using that L by simp
    from ready_push_spec [OF ok rep assms(2) this refl] absI flat_push [OF rep refl p] L show ?thesis by fastforce
  qed
  moreover have "\<exists>s'. ready_pop s = Some (if L = [] then NIL else hd L, s') \<and> ready_abs s' (tl L)"
  proof (cases "first_bucket Q")
    case None
    then have "L = []" using L first_bucket_None [of Q] set_flat [of Q] by (metis set_empty)
    with ready_pop_spec(1) [OF ok rep None] assms(1) show ?thesis by simp
  next
    case (Some b)
    from ready_pop_spec(2) [OF ok rep Some] obtain s' where
      "ready_pop s = Some (hd (Q b), s')" "ready_rep s' (Q(b := tl (Q b)))" "relinked {hd (Q b)} s s'" by blast
    with flat_pop [OF Some] absI L show ?thesis by fastforce
  qed
  moreover have "\<exists>s'. ready_remove i s = Some s' \<and> ready_abs s' (remove1 i L)"
  proof (cases "i \<in> queued Q")
    case False
    with ready_remove_spec(1) [OF ok rep assms(2) refl] assms(1) L show ?thesis by (auto simp: remove1_idem)
  next
    case True
    with ready_remove_spec(2) [OF ok rep assms(2) refl] flat_remove [OF rep refl p] absI L show ?thesis by fastforce
  qed
  moreover have "ready_contains i s = Some (i \<in> set L)" using ready_contains_spec [OF ok rep] L by simp
  ultimately show ?thesis using flat_sorted [OF rep] L by blast
qed

theorem ready_queue_refines_sorted_list_witness:
  "ready_abs (sched_new 8) [] \<and> (\<exists>s'. ready_push 3 (sched_new 8) = Some s' \<and> ready_abs s' [3])
    \<and> (\<exists>s'. ready_pop (sched_new 8) = Some (NIL, s'))"
proof -
  have "flat (\<lambda>_. []) = []" by (simp add: flat_def)
  then have a: "ready_abs (sched_new 8) []" using sched_new_shape ready_rep_new unfolding ready_abs_def by metis
  from ready_queue_refines_sorted_list [OF a, of 3] a show ?thesis by (auto simp: TASK_SLOT_COUNT_eq insert_prio_def)
qed

end
