(* ===== verification/Destruction.thy ===== *)
theory Destruction
  imports Startup
begin

text \<open>
  Destroying semaphores and mutexes through the handles of the driver (\<open>semaphore_destroy\<close> and
  \<open>mutex_destroy\<close> of \<open>runtime/driver.rs\<close>): an object in use is never freed.
\<close>

subsection \<open>Destroying\<close>

lemma resource_remove_spec:
  assumes "resource_table_ok t" "resource_resolve h kind t = Inr a"
  shows "\<exists>t'. resource_remove h kind t = (Inr a, t') \<and> (\<forall>k. resource_resolve h k t' = Inl InvalidHandle) \<and> a \<noteq> 0"
proof -
  from assms(2) obtain t' where rem: "resource_remove h kind t = (Inr a, t')"
    by (auto simp: resource_remove_def resource_resolve_def split: sum.splits)
  from resource_remove_InrD [OF assms(1) rem] obtain i where
    i: "i < length t" "h = slot_handle i (rs_generation (t ! i))" "a \<noteq> 0" "t' = t[i := (t ! i)\<lparr>rs_pointer := 0\<rparr>]" "rs_pointer (t ! i) = a"
    by blast
  have "retired_slot i (rs_generation (t ! i)) 0 t'" using i resource_remove_ok [OF assms(1) rem] by (simp add: retired_slot_def)
  moreover have "rs_generation (t ! i) \<noteq> 0"
    using i(3,5) resource_table_nth(2) [OF assms(1) i(1)] by (simp add: handle_valid_def)
  ultimately show ?thesis
    using rem i(2,3) retired_slot_dead [of i "rs_generation (t ! i)" 0 t'] resource_table_nth [OF assms(1) i(1)] by auto
qed

lemma destroy_object_spec:
  assumes "resource_table_ok (g_handles g)" "g_start g \<noteq> None" "resource_resolve h kind (g_handles g) = Inr a" "busy a (g_sched g) = Some b"
  shows "if b then destroy_object e h kind busy free g = Some (Inl InvalidContext, g)
    else \<exists>g'. destroy_object e h kind busy free g = Some (Inr (), g') \<and> g_sched g' = free a (g_sched g)
      \<and> (\<forall>k. resource_resolve h k (g_handles g') = Inl InvalidHandle)"
proof -
  from resource_remove_spec [OF assms(1,3)] obtain t' where
    "resource_remove h kind (g_handles g) = (Inr a, t')" "\<forall>k. resource_resolve h k t' = Inl InvalidHandle" by blast
  with assms(2-4) show ?thesis by (auto simp: destroy_object_def resource_pointer_def deallocate_def Let_def)
qed

text \<open>Every handle names an object that exists.\<close>

definition handles_live :: "'h rt \<Rightarrow> bool" where
  "handles_live g \<longleftrightarrow> resource_table_ok (g_handles g)
     \<and> (\<forall>h a. resource_resolve h KSemaphore (g_handles g) = Inr a \<longrightarrow> sem_mem (g_sched g) a \<noteq> None)
     \<and> (\<forall>h a. resource_resolve h KMutex (g_handles g) = Inr a \<longrightarrow> mutex_mem (g_sched g) a \<noteq> None)"

text \<open>
  C31. An object in use is never freed. A dead handle is refused; a semaphore with a waiter or with a
  permit handed to a task that has not resumed yet, and a mutex with an owner, are refused with
  \<open>InvalidContext\<close>, and nothing changes; any other object is freed, its handle is dead under every
  kind, and the kernel is consistent without the object: no task refers to the freed memory.
\<close>

theorem destroy_spares_objects_in_use:
  assumes "kernel_inv (g_sched g) Q S M" "handles_live g" "g_start g \<noteq> None"
  shows "(case resource_resolve h KSemaphore (g_handles g) of
       Inl err \<Rightarrow> semaphore_destroy e h g = Some (Inl InvalidHandle, g)
     | Inr a \<Rightarrow>
         if S a \<noteq> [] \<or> (\<exists>i < TASK_SLOT_COUNT. t_granted_sem (tasks (g_sched g) ! i) = a)
         then semaphore_destroy e h g = Some (Inl InvalidContext, g)
         else \<exists>g'. semaphore_destroy e h g = Some (Inr (), g') \<and> kernel_inv (g_sched g') Q S M
           \<and> sem_mem (g_sched g') = (sem_mem (g_sched g))(a := None) \<and> (\<forall>k. resource_resolve h k (g_handles g') = Inl InvalidHandle))
    \<and> (case resource_resolve h KMutex (g_handles g) of
       Inl err \<Rightarrow> mutex_destroy e h g = Some (Inl InvalidHandle, g)
     | Inr a \<Rightarrow>
         if mx_owner (the (mutex_mem (g_sched g) a)) \<noteq> NIL then mutex_destroy e h g = Some (Inl InvalidContext, g)
         else \<exists>g'. mutex_destroy e h g = Some (Inr (), g') \<and> kernel_inv (g_sched g') Q S M
           \<and> mutex_mem (g_sched g') = (mutex_mem (g_sched g))(a := None) \<and> (\<forall>k. resource_resolve h k (g_handles g') = Inl InvalidHandle))"
    (is "?sem \<and> ?mutex")
proof
  have ok: "resource_table_ok (g_handles g)" using assms(2) by (simp add: handles_live_def)
  show ?sem
  proof (cases "resource_resolve h KSemaphore (g_handles g)")
    case (Inl err)
    then show ?thesis using resource_resolve_Inl [OF Inl] by (simp add: semaphore_destroy_def destroy_object_def resource_pointer_def)
  next
    case (Inr a)
    then have "sem_mem (g_sched g) a \<noteq> None" using assms(2) by (auto simp: handles_live_def)
    note busy = semaphore_busy_spec [OF assms(1) this]
    have "a \<noteq> 0" using resource_remove_spec [OF ok Inr] by blast
    with destroy_object_spec [where e = e and free = free_sem and busy = semaphore_busy, OF ok assms(3) Inr busy] kernel_free_sem [OF assms(1), of a]
    show ?thesis using Inr by (auto simp: semaphore_destroy_def free_sem_def split: if_splits)
  qed
  show ?mutex
  proof (cases "resource_resolve h KMutex (g_handles g)")
    case (Inl err)
    then show ?thesis using resource_resolve_Inl [OF Inl] by (simp add: mutex_destroy_def destroy_object_def resource_pointer_def)
  next
    case (Inr a)
    then obtain m where m: "mutex_mem (g_sched g) a = Some m" using assms(2) unfolding handles_live_def by blast
    from destroy_object_spec [where e = e and free = free_mutex and busy = mutex_busy, OF ok assms(3) Inr mutex_busy_spec(1) [OF assms(1) m]]
      kernel_free_mutex [OF assms(1) m]
    show ?thesis using Inr m by (auto simp: mutex_destroy_def free_mutex_def)
  qed
qed

text \<open>The mutex at 64, which task 2 owns, behind the handle 257.\<close>

theorem destroy_spares_objects_in_use_witness:
  "mutex_destroy demo_env 257 (demo_rt\<lparr>g_sched := trio_owned, g_handles := [\<lparr>rs_pointer = 64, rs_generation = 1, rs_kind = KMutex\<rparr>]\<rparr>)
    = Some (Inl InvalidContext, demo_rt\<lparr>g_sched := trio_owned, g_handles := [\<lparr>rs_pointer = 64, rs_generation = 1, rs_kind = KMutex\<rparr>]\<rparr>)"
proof -
  let ?t = "[\<lparr>rs_pointer = 64, rs_generation = 1, rs_kind = KMutex\<rparr>]"
  define g where "g = demo_rt\<lparr>g_sched := trio_owned, g_handles := ?t\<rparr>"
  have sel: "g_sched g = trio_owned" "g_handles g = ?t" "g_start g \<noteq> None" by (simp_all add: g_def demo_rt_def)
  have ok: "resource_table_ok ?t" by (simp add: resource_table_ok_def handle_constants)
  have h: "resource_resolve h k ?t = Inr a \<longleftrightarrow> h = slot_handle 0 1 \<and> a = 64 \<and> k = KMutex" for h k a
    unfolding resource_resolve_Inr [OF ok] by auto
  have "handles_live g" unfolding handles_live_def sel using ok trio_owned_inv(5) by (auto simp: h)
  moreover have "slot_handle 0 1 = (257 :: 32 word)" by (simp add: slot_handle_def pack8_def push_bit_eq_mult)
  ultimately show ?thesis
    using destroy_spares_objects_in_use [of g "\<lambda>_. []" "\<lambda>_. []" "\<lambda>_. []" demo_env 257] trio_owned_inv(1,5) sel h [of 257 KMutex 64]
    unfolding g_def [symmetric] by (simp add: NIL_def)
qed

end
