(* ===== verification/Stack_Ledger.thy ===== *)
theory Stack_Ledger
  imports Driver "HOL-Library.Multiset"
begin

text \<open>
  No stack is lost or released twice. Whatever the allocators of the runtime do, a ledger beside
  them records the pointers they handed out and that are not yet given back, and the pointers given
  back that were not handed out. The interface \<open>stack_heap\<close> is what the preallocation of stacks
  (\<open>runtime/driver.rs\<close>) needs of such an allocator.
\<close>

subsection \<open>Preallocated plans\<close>

text \<open>The stacks a plan holds, and what its arrays promise.\<close>

definition plan_stacks :: "preallocated_plan \<Rightarrow> nat list" where
  "plan_stacks p = concat (map2 take (pp_counts p) (pp_stacks p))"

definition plan_ok :: "nat \<Rightarrow> preallocated_plan \<Rightarrow> bool" where
  "plan_ok groups p \<longleftrightarrow> length (pp_counts p) = groups \<and> length (pp_stacks p) = groups
     \<and> (\<forall>k < groups. length (pp_stacks p ! k) = DYNAMIC_TASK_CAPACITY \<and> pp_counts p ! k \<le> DYNAMIC_TASK_CAPACITY
          \<and> 0 \<notin> set (take (pp_counts p ! k) (pp_stacks p ! k)))"

lemma plan_okD:
  assumes "plan_ok groups p" "k < groups"
  shows "k < length (pp_counts p)" "k < length (pp_stacks p)" "length (pp_stacks p ! k) = DYNAMIC_TASK_CAPACITY"
    "pp_counts p ! k \<le> DYNAMIC_TASK_CAPACITY" "0 \<notin> set (take (pp_counts p ! k) (pp_stacks p ! k))"
  using assms by (simp_all add: plan_ok_def)

text \<open>One group of a plan replaced.\<close>

definition plan_set :: "nat \<Rightarrow> nat \<Rightarrow> nat list \<Rightarrow> preallocated_plan \<Rightarrow> preallocated_plan" where
  "plan_set k c stacks p = p\<lparr>pp_stacks := (pp_stacks p)[k := stacks], pp_counts := (pp_counts p)[k := c]\<rparr>"

lemma plan_set_sel [simp]:
  "pp_counts (plan_set k c stacks p) = (pp_counts p)[k := c]" "pp_stacks (plan_set k c stacks p) = (pp_stacks p)[k := stacks]"
  by (simp_all add: plan_set_def)

lemma plan_set_ok:
  assumes "plan_ok groups p" "k < groups" "length stacks = DYNAMIC_TASK_CAPACITY" "c \<le> DYNAMIC_TASK_CAPACITY" "0 \<notin> set (take c stacks)"
  shows "plan_ok groups (plan_set k c stacks p)"
  using assms by (auto simp: plan_ok_def nth_list_update)

lemma mset_concat_update: "k < length xss \<Longrightarrow> mset (concat (xss[k := ys])) + mset (xss ! k) = mset (concat xss) + mset ys"
proof -
  assume k: "k < length xss"
  then have "xss = take k xss @ xss ! k # drop (Suc k) xss" by (rule id_take_nth_drop)
  then have "mset (concat xss) = mset (concat (take k xss)) + mset (xss ! k) + mset (concat (drop (Suc k) xss))"
    by (metis (no_types) concat.simps(2) concat_append mset_append union_assoc)
  with k show ?thesis by (simp add: upd_conv_take_nth_drop)
qed

lemma plan_set_stacks:
  assumes "plan_ok groups p" "k < groups"
  shows "mset (plan_stacks (plan_set k c stacks p)) + mset (take (pp_counts p ! k) (pp_stacks p ! k))
    = mset (plan_stacks p) + mset (take c stacks)"
proof -
  have "map2 take ((pp_counts p)[k := c]) ((pp_stacks p)[k := stacks]) = (map2 take (pp_counts p) (pp_stacks p))[k := take c stacks]"
    by (simp add: zip_update map_update)
  with assms mset_concat_update [of k "map2 take (pp_counts p) (pp_stacks p)" "take c stacks"]
  show ?thesis by (simp add: plan_stacks_def plan_ok_def)
qed

lemma plan_empty:
  "plan_ok groups (preallocated_empty groups)" "plan_stacks (preallocated_empty groups) = []"
  by (simp_all add: plan_ok_def plan_stacks_def preallocated_empty_def zip_replicate)

lemma plan_no_stacks: "plan_ok groups p \<Longrightarrow> (\<forall>k < groups. pp_counts p ! k = 0) \<Longrightarrow> plan_stacks p = []"
  by (auto simp: plan_ok_def plan_stacks_def set_zip)

text \<open>What the arrays of a plan can hold, and the slots a plan asks for.\<close>

definition group_fits :: "'o task_resource_group \<Rightarrow> bool" where
  "group_fits grp \<longleftrightarrow> task_slots (group_resources grp) \<le> DYNAMIC_TASK_CAPACITY
     \<and> DYNAMIC_TASK_CAPACITY * stack_bytes_per_task (group_resources grp) \<le> USIZE_MAX"

definition group_slots :: "'o task_resource_group list \<Rightarrow> nat list" where
  "group_slots plan = map (\<lambda>grp. task_slots (group_resources grp)) plan"

subsection \<open>The interface\<close>

text \<open>\<open>live\<close> are the pointers in use, \<open>frame\<close> is everything an allocation leaves alone.\<close>

locale stack_heap =
  fixes allocate_stack :: "'s stack_alloc" and release_stack :: "'s stack_release"
    and usable :: "'s \<Rightarrow> bool" and live :: "'s \<Rightarrow> nat multiset" and frame :: "'s \<Rightarrow> 'f"
  assumes allocates: "usable x \<Longrightarrow> \<exists>p x'. allocate_stack n x = Some (p, x') \<and> usable x'
      \<and> live x' = (if p = 0 then live x else add_mset p (live x)) \<and> frame x' = frame x"
    and releases: "usable x \<Longrightarrow> p \<in># live x \<Longrightarrow> \<exists>x'. release_stack p x = Some x' \<and> usable x'
      \<and> live x' = live x - {#p#} \<and> frame x' = frame x"
begin

lemma release_each:
  assumes "usable x" "live x = base + mset ps"
  shows "\<exists>x'. for_each release_stack ps x = Some x' \<and> usable x' \<and> live x' = base \<and> frame x' = frame x"
  using assms
proof (induction ps arbitrary: x)
  case (Cons p ps)
  from releases [of x p] Cons.prems obtain x1 where
    x1: "release_stack p x = Some x1" "usable x1" "live x1 = base + mset ps" "frame x1 = frame x" by auto
  from Cons.IH [OF x1(2,3)] x1 show ?case by auto
qed simp

text \<open>The loop of \<open>preallocate_task_stacks\<close>: \<open>allocated\<close> stacks are held, \<open>n\<close> are missing.\<close>

lemma preallocate_loop_spec:
  assumes "usable x" "allocated + n \<le> length stacks" "live x = base + mset (take allocated stacks)"
    "0 \<notin> set (take allocated stacks)" "length stacks * stack_bytes_per_task required \<le> USIZE_MAX"
  shows "\<exists>r x'. preallocate_loop allocate_stack release_stack required n allocated stacks x = Some (r, x')
    \<and> usable x' \<and> frame x' = frame x
    \<and> (case r of Inl err \<Rightarrow> live x' = base
        | Inr ps \<Rightarrow> length ps = length stacks \<and> 0 \<notin> set (take (allocated + n) ps) \<and> live x' = base + mset (take (allocated + n) ps))"
  using assms
proof (induction n arbitrary: allocated stacks x)
  case (Suc n)
  from allocates [OF Suc.prems(1)] obtain p x1 where
    x1: "allocate_stack (stack_bytes_per_task required) x = Some (p, x1)" "usable x1"
      "live x1 = (if p = 0 then live x else add_mset p (live x))" "frame x1 = frame x" by blast
  show ?case
  proof (cases "p = 0")
    case True
    with x1(3) Suc.prems(3) have "live x1 = base + mset (take allocated stacks)" by simp
    from release_each [OF x1(2) this] obtain x2 where
      "for_each release_stack (take allocated stacks) x1 = Some x2" "usable x2" "live x2 = base" "frame x2 = frame x" using x1(4) by auto
    moreover have "allocated * stack_bytes_per_task required \<le> USIZE_MAX"
      using Suc.prems(2,5) by (meson add_leD1 le_trans mult_le_mono1)
    ultimately show ?thesis using x1(1) True by (simp add: chk_mul_def)
  next
    case False
    let ?st = "stacks[allocated := p]"
    have t: "take (Suc allocated) ?st = take allocated stacks @ [p]"
      using Suc.prems(2) by (simp add: take_Suc_conv_app_nth)
    have a: "allocated + 1 + n \<le> length ?st" "live x1 = base + mset (take (allocated + 1) ?st)" "0 \<notin> set (take (allocated + 1) ?st)"
      "length ?st * stack_bytes_per_task required \<le> USIZE_MAX"
      using Suc.prems x1(3) False t by simp_all
    from Suc.IH [OF x1(2) a] show ?thesis using x1(1,4) False by (simp cong: sum.case_cong)
  qed
qed simp

lemma preallocate_task_stacks_spec:
  assumes "usable x" "DYNAMIC_TASK_CAPACITY * stack_bytes_per_task required \<le> USIZE_MAX"
    "n = min DYNAMIC_TASK_CAPACITY (task_slots required)"
  shows "\<exists>r x'. preallocate_task_stacks allocate_stack release_stack required x = Some (r, x') \<and> usable x' \<and> frame x' = frame x
    \<and> (case r of Inl err \<Rightarrow> live x' = live x
        | Inr ps \<Rightarrow> length ps = DYNAMIC_TASK_CAPACITY \<and> 0 \<notin> set (take n ps) \<and> live x' = live x + mset (take n ps))"
  using preallocate_loop_spec [of x 0 n "replicate DYNAMIC_TASK_CAPACITY 0" "live x" required] assms
  by (simp add: preallocate_task_stacks_def cong: sum.case_cong)

text \<open>Releasing the first groups of a plan.\<close>

lemma release_groups:
  assumes "usable x" "plan_ok groups p" "live x = base + mset (plan_stacks p)" "j \<le> groups"
  shows "\<exists>p' x'. for_each (release_group release_stack) [0..<j] (p, x) = Some (p', x') \<and> usable x' \<and> frame x' = frame x
    \<and> plan_ok groups p' \<and> live x' = base + mset (plan_stacks p') \<and> (\<forall>k < j. pp_counts p' ! k = 0)"
  using assms(4)
proof (induction j)
  case (Suc j)
  then obtain p1 x1 where
    p1: "for_each (release_group release_stack) [0..<j] (p, x) = Some (p1, x1)" "usable x1" "frame x1 = frame x"
      "plan_ok groups p1" "live x1 = base + mset (plan_stacks p1)" "\<forall>k < j. pp_counts p1 ! k = 0" by auto
  let ?c = "pp_counts p1 ! j" and ?s = "pp_stacks p1 ! j"
  let ?p = "plan_set j 0 (replicate ?c 0 @ drop ?c ?s) p1"
  have j: "j < groups" using Suc.prems by simp
  note ok = plan_okD [OF p1(4) j]
  have "filter (\<lambda>stack. stack \<noteq> 0) ps = ps" if "0 \<notin> set ps" for ps :: "nat list"
    using that by (induction ps) auto
  note f = this [OF ok(5)]
  have m: "mset (plan_stacks p1) = mset (plan_stacks ?p) + mset (take ?c ?s)"
    using plan_set_stacks [OF p1(4) j, of 0] by simp
  then have "live x1 = base + mset (plan_stacks ?p) + mset (take ?c ?s)" using p1(5) by simp
  from release_each [OF p1(2) this] obtain x2 where
    x2: "for_each release_stack (take ?c ?s) x1 = Some x2" "usable x2" "live x2 = base + mset (plan_stacks ?p)" "frame x2 = frame x"
    using p1(3) by auto
  have "release_group release_stack j (p1, x1) = Some (?p, x2)"
    using ok x2(1) f by (simp add: release_group_def arr_at_def plan_set_def)
  moreover have "plan_ok groups ?p" by (rule plan_set_ok [OF p1(4) j]) (use ok in simp_all)
  moreover have "\<forall>k < Suc j. pp_counts ?p ! k = 0" using p1(6) ok(1) by (auto simp: nth_list_update less_Suc_eq)
  ultimately show ?case using p1(1) x2 by (simp add: for_each_append)
qed (use assms in simp)

lemma plan_release_all_spec:
  assumes "usable x" "plan_ok groups p" "live x = base + mset (plan_stacks p)"
  shows "\<exists>p' x'. plan_release_all release_stack groups p x = Some (p', x') \<and> usable x' \<and> frame x' = frame x \<and> live x' = base"
proof -
  from release_groups [OF assms order_refl] obtain p' x' where
    "for_each (release_group release_stack) [0..<groups] (p, x) = Some (p', x')" "usable x'" "frame x' = frame x"
    "plan_ok groups p'" "live x' = base + mset (plan_stacks p')" "\<forall>k < groups. pp_counts p' ! k = 0" by blast
  then show ?thesis using plan_no_stacks [of groups p'] by (simp add: plan_release_all_def)
qed

text \<open>The slots of one group.\<close>

lemma preallocate_group_spec:
  assumes "usable x" "plan_ok groups p" "live x = base + mset (plan_stacks p)" "k < groups" "pp_counts p ! k = slot"
    "slot + n \<le> DYNAMIC_TASK_CAPACITY" "DYNAMIC_TASK_CAPACITY * stack_bytes_per_task required \<le> USIZE_MAX"
  shows "\<exists>r p' x'. preallocate_group allocate_stack required k n slot p x = Some (r, p', x') \<and> usable x' \<and> frame x' = frame x
    \<and> plan_ok groups p' \<and> live x' = base + mset (plan_stacks p')
    \<and> (r = None \<longrightarrow> pp_counts p' = (pp_counts p)[k := slot + n])"
  using assms(1-6)
proof (induction n arbitrary: slot p x)
  case 0
  then show ?case by (auto simp: list_update_id)
next
  case (Suc n)
  from allocates [OF Suc.prems(1)] obtain s x1 where
    x1: "allocate_stack (stack_bytes_per_task required) x = Some (s, x1)" "usable x1"
      "live x1 = (if s = 0 then live x else add_mset s (live x))" "frame x1 = frame x" by blast
  show ?case
  proof (cases "s = 0")
    case True
    have "slot * stack_bytes_per_task required \<le> USIZE_MAX"
      using Suc.prems(6) assms(7) by (meson add_leD1 le_trans mult_le_mono1)
    then show ?thesis using True x1 Suc.prems(2,3) by (simp add: chk_mul_def)
  next
    case False
    let ?s = "pp_stacks p ! k"
    let ?p = "plan_set k (slot + 1) (?s[slot := s]) p"
    note k = plan_okD [OF Suc.prems(2,4), unfolded Suc.prems(5)]
    have t: "take (Suc slot) (?s[slot := s]) = take slot ?s @ [s]"
      using k(3) Suc.prems(6) by (simp add: take_Suc_conv_app_nth)
    have ok: "plan_ok groups ?p"
      by (rule plan_set_ok [OF Suc.prems(2,4)]) (use k t False Suc.prems(6) in simp_all)
    have "mset (plan_stacks ?p) + mset (take slot ?s) = mset (plan_stacks p) + mset (take slot ?s @ [s])"
      using plan_set_stacks [OF Suc.prems(2,4), of "slot + 1" "?s[slot := s]"] Suc.prems(5) t by simp
    then have l: "live x1 = base + mset (plan_stacks ?p)" using x1(3) False Suc.prems(3) by simp
    have "pp_counts ?p ! k = slot + 1" "slot + 1 + n \<le> DYNAMIC_TASK_CAPACITY" using k Suc.prems(4,6) by simp_all
    from Suc.IH [OF x1(2) ok l Suc.prems(4) this] obtain r p' x' where
      "preallocate_group allocate_stack required k n (slot + 1) ?p x1 = Some (r, p', x')" "usable x'" "frame x' = frame x"
      "plan_ok groups p'" "live x' = base + mset (plan_stacks p')" "r = None \<longrightarrow> pp_counts p' = (pp_counts p)[k := slot + Suc n]"
      using x1(4) by auto
    moreover have "slot + 1 \<le> USIZE_MAX" using Suc.prems(6) by (simp add: DYNAMIC_TASK_CAPACITY_def)
    ultimately show ?thesis
      using x1(1) False k Suc.prems(4,5,6) by (simp add: arr_at_def chk_add_def plan_set_def)
  qed
qed

lemma preallocate_groups_spec:
  assumes "usable x" "plan_ok groups p" "live x = base + mset (plan_stacks p)" "k + length plan \<le> groups"
    "drop k (pp_counts p) = replicate (groups - k) 0" "\<forall>grp \<in> set plan. group_fits grp"
    and largest: "\<And>x. usable x \<Longrightarrow> \<exists>m. largest x = Some m"
  shows "\<exists>r x'. preallocate_groups allocate_stack release_stack largest groups plan k p x = Some (r, x')
    \<and> usable x' \<and> frame x' = frame x
    \<and> (case r of Inl err \<Rightarrow> live x' = base
        | Inr p' \<Rightarrow> plan_ok groups p' \<and> live x' = base + mset (plan_stacks p')
            \<and> pp_counts p' = take k (pp_counts p) @ group_slots plan @ replicate (groups - (k + length plan)) 0)"
  using assms(1-6)
proof (induction plan arbitrary: k p x)
  case Nil
  then show ?case by (simp add: group_slots_def) (metis append_take_drop_id)
next
  case (Cons grp plan)
  let ?n = "task_slots (group_resources grp)"
  have k: "k < groups" using Cons.prems(4) by simp
  have len: "length (pp_counts p) = groups" using Cons.prems(2) by (simp add: plan_ok_def)
  have c: "pp_counts p ! k = 0" using nth_drop [of k "pp_counts p" 0] len k by (simp add: Cons.prems(5))
  have fits: "0 + ?n \<le> DYNAMIC_TASK_CAPACITY" "DYNAMIC_TASK_CAPACITY * stack_bytes_per_task (group_resources grp) \<le> USIZE_MAX"
    using Cons.prems(6) by (simp_all add: group_fits_def)
  from preallocate_group_spec [OF Cons.prems(1-3) k c fits] obtain f p1 x1 where
    p1: "preallocate_group allocate_stack (group_resources grp) k ?n 0 p x = Some (f, p1, x1)" "usable x1" "frame x1 = frame x"
      "plan_ok groups p1" "live x1 = base + mset (plan_stacks p1)" "f = None \<longrightarrow> pp_counts p1 = (pp_counts p)[k := ?n]"
    by auto
  show ?case
  proof (cases f)
    case None
    have t: "take (k + 1) (pp_counts p1) = take k (pp_counts p) @ [?n]" using None p1(6) len k by (simp add: take_Suc_conv_app_nth)
    have "drop (k + 1) (pp_counts p) = drop 1 (replicate (groups - k) 0)" unfolding Cons.prems(5) [symmetric] by simp
    then have d: "drop (k + 1) (pp_counts p1) = replicate (groups - (k + 1)) 0" using None p1(6) by (simp add: drop_update_cancel)
    have "k + 1 + length plan \<le> groups" "\<forall>grp \<in> set plan. group_fits grp" using Cons.prems(4,6) by simp_all
    from Cons.IH [OF p1(2,4,5) this(1) d this(2)] show ?thesis
      using p1(1,3) None t by (simp add: group_slots_def cong: sum.case_cong)
  next
    case (Some m)
    from plan_release_all_spec [OF p1(2,4,5)] largest [OF p1(2)] p1(1,3) Some show ?thesis by auto
  qed
qed

lemma preallocate_plan_spec:
  assumes "usable x" "length plan \<le> groups" "\<forall>grp \<in> set plan. group_fits grp" "\<And>x. usable x \<Longrightarrow> \<exists>m. largest x = Some m"
  shows "\<exists>r x'. preallocate_task_resource_plan allocate_stack release_stack largest groups plan x = Some (r, x')
    \<and> usable x' \<and> frame x' = frame x
    \<and> (case r of Inl err \<Rightarrow> live x' = live x
        | Inr p \<Rightarrow> plan_ok groups p \<and> live x' = live x + mset (plan_stacks p)
            \<and> pp_counts p = group_slots plan @ replicate (groups - length plan) 0)"
  using preallocate_groups_spec [of x groups "preallocated_empty groups" "live x" 0 plan largest] assms plan_empty [of groups]
  by (simp add: preallocate_task_resource_plan_def preallocated_empty_def cong: sum.case_cong)

end

subsection \<open>The ledger\<close>

record 'h ledger =
  l_heap :: 'h
  l_live :: "nat multiset"
  l_strays :: "nat multiset"

definition ledger_alloc :: "(nat \<Rightarrow> 'h \<Rightarrow> nat \<times> 'h) \<Rightarrow> nat \<Rightarrow> 'h ledger \<Rightarrow> nat \<times> 'h ledger" where
  "ledger_alloc alloc n l = (let (p, h) = alloc n (l_heap l)
     in (p, l\<lparr>l_heap := h, l_live := (if p = 0 then l_live l else add_mset p (l_live l))\<rparr>))"

definition ledger_free :: "(nat \<Rightarrow> 'h \<Rightarrow> 'h) \<Rightarrow> nat \<Rightarrow> 'h ledger \<Rightarrow> 'h ledger" where
  "ledger_free dealloc p l = (let h = dealloc p (l_heap l)
     in if p \<in># l_live l then l\<lparr>l_heap := h, l_live := l_live l - {#p#}\<rparr>
        else l\<lparr>l_heap := h, l_strays := add_mset p (l_strays l)\<rparr>)"

text \<open>The same runtime, with both of its allocators on the books.\<close>

definition audited :: "'h env \<Rightarrow> 'h ledger env" where
  "audited e = \<lparr>e_monotonic_ms = e_monotonic_ms e,
     e_storage_allocate = ledger_alloc (e_storage_allocate e), e_storage_deallocate = ledger_free (e_storage_deallocate e),
     e_storage_largest = (\<lambda>l. e_storage_largest e (l_heap l)),
     e_app_allocate = ledger_alloc (e_app_allocate e), e_app_deallocate = ledger_free (e_app_deallocate e),
     e_embassy_deadline = e_embassy_deadline e, e_install = e_install e, e_idle_stack = e_idle_stack e,
     e_idle_entry = e_idle_entry e, e_trampoline = e_trampoline e, e_tp = e_tp e, e_fcsr = e_fcsr e\<rparr>"

definition live_stacks :: "'h ledger rt \<Rightarrow> nat multiset" where
  "live_stacks g = l_live (g_heap g)"

definition heap_frame :: "'h ledger rt \<Rightarrow> ('h ledger \<Rightarrow> 'h ledger rt) \<times> nat multiset" where
  "heap_frame g = (\<lambda>h. g\<lparr>g_heap := h\<rparr>, l_strays (g_heap g))"

lemma heap_frameD: "heap_frame g' = heap_frame g \<Longrightarrow> g' = g\<lparr>g_heap := g_heap g'\<rparr> \<and> l_strays (g_heap g') = l_strays (g_heap g)"
  by (auto simp: heap_frame_def dest: fun_cong [where x = "g_heap g'"])

lemma heap_frame_sel:
  assumes "heap_frame g' = heap_frame g"
  shows "g_sched g' = g_sched g" "g_start g' = g_start g" "dynamic_capacity g' = dynamic_capacity g"
proof -
  from heap_frameD [OF assms] obtain h where "g' = g\<lparr>g_heap := h\<rparr>" by blast
  then show "g_sched g' = g_sched g" "g_start g' = g_start g" "dynamic_capacity g' = dynamic_capacity g"
    by (simp_all add: dynamic_capacity_def)
qed

lemma dynamic_capacity_started: "dynamic_capacity g = Some cap \<Longrightarrow> g_start g \<noteq> None"
  by (auto simp: dynamic_capacity_def bind_eq_Some)

interpretation ledger: stack_heap "allocate (audited e)" "deallocate (audited e)" "\<lambda>g. g_start g \<noteq> None" live_stacks heap_frame
  for e
proof
  fix g :: "'a ledger rt" and n
  assume "g_start g \<noteq> None"
  then obtain st where st: "g_start g = Some st" by blast
  have "\<exists>p l. (case ss_storage st of Some _ \<Rightarrow> e_storage_allocate (audited e) n (g_heap g) | None \<Rightarrow> e_app_allocate (audited e) n (g_heap g)) = (p, l)
      \<and> l_live l = (if p = 0 then l_live (g_heap g) else add_mset p (l_live (g_heap g))) \<and> l_strays l = l_strays (g_heap g)"
    by (auto simp: audited_def ledger_alloc_def Let_def split: prod.splits option.splits)
  then show "\<exists>p g'. allocate (audited e) n g = Some (p, g') \<and> g_start g' \<noteq> None
      \<and> live_stacks g' = (if p = 0 then live_stacks g else add_mset p (live_stacks g)) \<and> heap_frame g' = heap_frame g"
    using st by (auto simp: allocate_def live_stacks_def heap_frame_def)
next
  fix g :: "'a ledger rt" and p
  assume "g_start g \<noteq> None" and p: "p \<in># live_stacks g"
  then obtain st where st: "g_start g = Some st" by blast
  have "l_live (case ss_storage st of Some _ \<Rightarrow> e_storage_deallocate (audited e) p (g_heap g) | None \<Rightarrow> e_app_deallocate (audited e) p (g_heap g))
      = l_live (g_heap g) - {#p#}"
    "l_strays (case ss_storage st of Some _ \<Rightarrow> e_storage_deallocate (audited e) p (g_heap g) | None \<Rightarrow> e_app_deallocate (audited e) p (g_heap g))
      = l_strays (g_heap g)"
    using p by (auto simp: audited_def ledger_free_def Let_def live_stacks_def split: option.splits)
  then show "\<exists>g'. deallocate (audited e) p g = Some g' \<and> g_start g' \<noteq> None
      \<and> live_stacks g' = live_stacks g - {#p#} \<and> heap_frame g' = heap_frame g"
    using st by (auto simp: deallocate_def live_stacks_def heap_frame_def)
qed

subsection \<open>Admission\<close>

lemma available_dynamic_spec:
  assumes "cap \<le> DYNAMIC_TASK_CAPACITY" "length (tasks s) = TASK_SLOT_COUNT"
  shows "\<exists>a \<le> DYNAMIC_TASK_CAPACITY. available_dynamic cap s = Some a"
proof -
  have "IDLE_SLOT + 1 + cap \<le> length (tasks s)"
    using assms by (simp add: TASK_SLOT_COUNT_def ADOPTED_MAIN_TASKS_def INTERNAL_IDLE_TASKS_def DYNAMIC_TASK_CAPACITY_def IDLE_SLOT_def)
  moreover from this have "length (filter P (drop (IDLE_SLOT + 1) (take (IDLE_SLOT + 1 + cap) (tasks s)))) \<le> cap" for P
    by (rule_tac order_trans [OF length_filter_le]) simp
  ultimately show ?thesis using assms(1)
    by (auto simp: available_dynamic_def free_dynamic_def dynamic_slot_end_def task_slice_def intro: diff_le_self le_trans)
qed

lemma audited_largest: "g_start g \<noteq> None \<Longrightarrow> \<exists>m. largest_allocatable_stack (audited e) g = Some m"
  by (auto simp: largest_allocatable_stack_def)

lemma nonzero_fit: "0 \<notin> set (take n ps) \<Longrightarrow> n \<le> length ps \<Longrightarrow> \<forall>i < n. ps ! i \<noteq> (0 :: nat)"
  by (auto simp: in_set_conv_nth)

lemma reserve_with_stacks_outcome:
  assumes "reservation_table_ok t" "task_slots required \<le> a \<longrightarrow> stacks_fit required ps"
  shows "(\<exists>err. reserve_with_stacks required a ps t = Some (Inl (err :: 'o task_admission_error), t))
    \<or> (\<exists>raw t' en. task_slots required \<le> a \<and> reserve_with_stacks required a ps t = Some (Inr raw :: 'o task_admission_error + 32 word, t')
        \<and> reservation_table_ok t' \<and> holds_entry raw en t' \<and> granted_entry required ps en)"
proof (cases "task_slots required \<le> a \<and> 0 < free_entries t")
  case True
  then have "task_slots required \<le> a" "0 < free_entries t" by simp_all
  from reserve_with_stacks_granted [OF assms(1) assms(2) [rule_format, OF this(1)] this, where 'a = 'o] this show ?thesis by metis
next
  case False
  moreover have "position (\<lambda>entry. \<not> re_active entry) (rt_entries t) = None" if "free_entries t = 0"
    using that position_SomeD(1,2) [of "\<lambda>entry. \<not> re_active entry" "rt_entries t"]
    by (cases "position (\<lambda>entry. \<not> re_active entry) (rt_entries t)") (auto simp: free_entries_def filter_empty_conv dest!: nth_mem)
  ultimately show ?thesis using reserve_with_stacks_cases [OF assms(1), of required a ps, where 'a = 'o] by auto
qed

text \<open>A reservation that is given back: its unconsumed stacks return to the allocator.\<close>

lemma release_reservation_spec:
  assumes "reservation_table_ok (reservations (g_sched g))" "holds_entry token en (reservations (g_sched g))" "g_start g \<noteq> None"
    "live_stacks g = base + mset (unconsumed en)"
  shows "\<exists>g'. release_task_reservation (audited e) token g = Some (Inr (), g') \<and> live_stacks g' = base
    \<and> l_strays (g_heap g') = l_strays (g_heap g)"
proof -
  from release_holds [OF assms(1,2)] obtain t where
    t: "release token (reservations (g_sched g)) = Some (Inr (released_of en), t)" by blast
  let ?g = "g\<lparr>g_sched := (g_sched g)\<lparr>reservations := t\<rparr>\<rparr>"
  have "g_start ?g \<noteq> None" "live_stacks ?g = base + mset (unconsumed en)" using assms(3,4) by (simp_all add: live_stacks_def)
  from ledger.release_each [OF this, of e] obtain g' where
    g': "for_each (deallocate (audited e)) (unconsumed en) ?g = Some g'" "live_stacks g' = base" "heap_frame g' = heap_frame ?g" by blast
  then show ?thesis using t heap_frameD [OF g'(3)]
    by (simp add: release_task_reservation_def on_sched_def sched_release_task_reservation_def on_reservations_def released_of_def)
qed

text \<open>After the stacks are allocated: the two ends of \<open>reserve_task_resources\<close>.\<close>

lemma refused_returns_stacks:
  assumes pre: "preallocate_task_stacks (allocate (audited e)) (deallocate (audited e)) required g = Some (Inr ps :: 'o task_admission_error + nat list, g1)"
      "g_start g1 \<noteq> None" "heap_frame g1 = heap_frame g" "live_stacks g1 = live_stacks g + mset (take (min DYNAMIC_TASK_CAPACITY (task_slots required)) ps)"
    and cap: "dynamic_capacity g = Some cap" "available_dynamic cap (g_sched g) = Some a"
    and no: "reserve_with_stacks required a ps (reservations (g_sched g)) = Some (Inl (err :: 'o task_admission_error), reservations (g_sched g))"
  shows "\<exists>g'. reserve_task_resources (audited e) required g = Some (Inl err, g') \<and> live_stacks g' = live_stacks g \<and> heap_frame g' = heap_frame g"
proof -
  note s1 = heap_frame_sel [OF pre(3)]
  have same: "g1\<lparr>g_sched := g_sched g\<rparr> = g1" using s1(1) by (cases g1) simp
  have ms: "min (task_slots required) DYNAMIC_TASK_CAPACITY = min DYNAMIC_TASK_CAPACITY (task_slots required)" by simp
  from ledger.release_each [OF pre(2,4), of e] obtain g2 where
    "for_each (deallocate (audited e)) (take (min DYNAMIC_TASK_CAPACITY (task_slots required)) ps) g1 = Some g2" "live_stacks g2 = live_stacks g"
    "heap_frame g2 = heap_frame g" using pre(3) by auto
  with pre(1) cap no s1 show ?thesis
    by (simp add: reserve_task_resources_def reserve_dynamic_task_resources_with_capacity_def on_sched_def on_reservations_def ms same)
qed

lemma granted_holds_stacks:
  assumes pre: "preallocate_task_stacks (allocate (audited e)) (deallocate (audited e)) required g = Some (Inr ps :: 'o task_admission_error + nat list, g1)"
      "g_start g1 \<noteq> None" "heap_frame g1 = heap_frame g" "live_stacks g1 = live_stacks g + mset (take (task_slots required) ps)"
    and cap: "dynamic_capacity g = Some cap" "available_dynamic cap (g_sched g) = Some a"
    and yes: "reserve_with_stacks required a ps (reservations (g_sched g)) = Some (Inr raw :: 'o task_admission_error + 32 word, t)"
      "reservation_table_ok t" "holds_entry raw en t" "granted_entry required ps en"
  shows "\<exists>g' g''. reserve_task_resources (audited e) required g = Some (Inr raw :: 'o task_admission_error + 32 word, g')
    \<and> live_stacks g' = live_stacks g + mset (take (task_slots required) ps) \<and> l_strays (g_heap g') = l_strays (g_heap g)
    \<and> release_task_reservation (audited e) raw g' = Some (Inr (), g'') \<and> live_stacks g'' = live_stacks g \<and> l_strays (g_heap g'') = l_strays (g_heap g)"
proof -
  note s1 = heap_frame_sel [OF pre(3)] and g1 = heap_frameD [OF pre(3)]
  let ?g = "g1\<lparr>g_sched := (g_sched g)\<lparr>reservations := t\<rparr>\<rparr>"
  have u: "unconsumed en = take (task_slots required) ps" using yes(4) by (simp add: unconsumed_def granted_entry_def)
  have live: "live_stacks ?g = live_stacks g + mset (unconsumed en)" using pre(4) u by (simp add: live_stacks_def)
  have "reservation_table_ok (reservations (g_sched ?g))" "holds_entry raw en (reservations (g_sched ?g))" "g_start ?g \<noteq> None" using yes(2,3) pre(2) by simp_all
  from release_reservation_spec [OF this live, of e] obtain g2 where
    "release_task_reservation (audited e) raw ?g = Some (Inr (), g2)" "live_stacks g2 = live_stacks g" "l_strays (g_heap g2) = l_strays (g_heap g)"
    using g1 by auto
  moreover have "reserve_task_resources (audited e) required g = Some (Inr raw :: 'o task_admission_error + 32 word, ?g)"
    using yes(1) pre(1) cap s1
    by (simp add: reserve_task_resources_def reserve_dynamic_task_resources_with_capacity_def on_sched_def on_reservations_def)
  ultimately show ?thesis using live u g1 by auto
qed

text \<open>
  C24. Reserving tasks with their stacks never loses or double-frees a stack, whatever the allocator
  does: a refused reservation has given back every stack it allocated and changed nothing else, and
  a granted one holds exactly one fresh stack per task, all of which return to the allocator when
  the reservation is released unused. The routine always returns.
\<close>

theorem reserved_stacks_return:
  assumes "dynamic_capacity g = Some cap" "cap \<le> DYNAMIC_TASK_CAPACITY" "length (tasks (g_sched g)) = TASK_SLOT_COUNT"
    "reservation_table_ok (reservations (g_sched g))" "0 < task_slots required"
    "DYNAMIC_TASK_CAPACITY * stack_bytes_per_task required \<le> USIZE_MAX"
  shows "\<exists>(r :: 'o task_admission_error + 32 word) g'. reserve_task_resources (audited e) required g = Some (r, g')
    \<and> l_strays (g_heap g') = l_strays (g_heap g)
    \<and> (case r of
         Inl err \<Rightarrow> live_stacks g' = live_stacks g \<and> g' = g\<lparr>g_heap := g_heap g'\<rparr>
       | Inr token \<Rightarrow> (\<exists>stacks. live_stacks g' = live_stacks g + mset stacks \<and> length stacks = task_slots required \<and> 0 \<notin> set stacks)
           \<and> (\<exists>g''. release_task_reservation (audited e) token g' = Some (Inr (), g'') \<and> live_stacks g'' = live_stacks g
                \<and> l_strays (g_heap g'') = l_strays (g_heap g)))"
proof -
  let ?n = "min DYNAMIC_TASK_CAPACITY (task_slots required)"
  from ledger.preallocate_task_stacks_spec [where required = required, OF dynamic_capacity_started [OF assms(1)] assms(6) refl, of e, where 'a = 'o]
  obtain r g1 where
    r: "preallocate_task_stacks (allocate (audited e)) (deallocate (audited e)) required g = Some (r :: 'o task_admission_error + nat list, g1)"
      "g_start g1 \<noteq> None" "heap_frame g1 = heap_frame g"
      "case r of Inl err \<Rightarrow> live_stacks g1 = live_stacks g
        | Inr ps \<Rightarrow> length ps = DYNAMIC_TASK_CAPACITY \<and> 0 \<notin> set (take ?n ps) \<and> live_stacks g1 = live_stacks g + mset (take ?n ps)"
    by blast
  show ?thesis
  proof (cases r)
    case (Inl err)
    with r heap_frameD [OF r(3)] show ?thesis by (simp add: reserve_task_resources_def)
  next
    case (Inr ps)
    with r(4) have ps: "length ps = DYNAMIC_TASK_CAPACITY" "0 \<notin> set (take ?n ps)" "live_stacks g1 = live_stacks g + mset (take ?n ps)" by simp_all
    note pre = r(1) [unfolded Inr] r(2,3)
    from available_dynamic_spec [OF assms(2,3)] obtain a where a: "a \<le> DYNAMIC_TASK_CAPACITY" "available_dynamic cap (g_sched g) = Some a" by blast
    have fit: "task_slots required \<le> a \<longrightarrow> stacks_fit required ps"
      using ps(1,2) a(1) nonzero_fit [of "task_slots required" ps] by (intro impI) (simp add: stacks_fit_def)
    from reserve_with_stacks_outcome [OF assms(4) fit, where 'o = 'o] show ?thesis
    proof (elim disjE exE conjE)
      fix err :: "'o task_admission_error"
      assume "reserve_with_stacks required a ps (reservations (g_sched g)) = Some (Inl err, reservations (g_sched g))"
      from refused_returns_stacks [OF pre ps(3) assms(1) a(2) this] show ?thesis using heap_frameD by fastforce
    next
      fix raw t en
      assume yes: "task_slots required \<le> a" "reserve_with_stacks required a ps (reservations (g_sched g)) = Some (Inr raw :: 'o task_admission_error + 32 word, t)"
        "reservation_table_ok t" "holds_entry raw en t" "granted_entry required ps en"
      then have n: "?n = task_slots required" using a(1) by simp
      from granted_holds_stacks [OF pre ps(3) [unfolded n] assms(1) a(2) yes(2-5)] ps(1,2) n show ?thesis
        by (elim exE conjE) (rule exI, rule exI, intro conjI, assumption, auto)
    qed
  qed
qed

text \<open>A small allocator that runs out of memory: addresses from the heap state up to a limit.\<close>

definition bump_env :: "nat env" where
  "bump_env = \<lparr>e_monotonic_ms = (\<lambda>k. k), e_storage_allocate = (\<lambda>n h. (0, h)), e_storage_deallocate = (\<lambda>p h. h),
     e_storage_largest = (\<lambda>h. 0), e_app_allocate = (\<lambda>n h. if h + n \<le> 8192 then (h, h + n) else (0, h)),
     e_app_deallocate = (\<lambda>p h. h), e_embassy_deadline = (\<lambda>now. None), e_install = None,
     e_idle_stack = 4096, e_idle_entry = 8, e_trampoline = 16, e_tp = 0, e_fcsr = 0\<rparr>"

definition bump_rt :: "nat ledger rt" where
  "bump_rt = \<lparr>g_sched = sched_new 4, g_interrupt_depth = 0,
     g_start = Some \<lparr>ss_config = \<lparr>sc_minimum_stack_size = 1024, sc_radio_task_policy = Cooperative,
         sc_max_scheduler_lock_duration = None\<rparr>, ss_storage = None, ss_port = None\<rparr>,
     g_handles = [], g_timer_cell = 0, g_machine_interrupts = True, g_reads = 0,
     g_heap = \<lparr>l_heap = 4096, l_live = {#}, l_strays = {#}\<rparr>, g_frames = Map.empty, g_calls = []\<rparr>"

lemma bump_rt_ok:
  "dynamic_capacity bump_rt = Some DYNAMIC_TASK_CAPACITY" "length (tasks (g_sched bump_rt)) = TASK_SLOT_COUNT"
  "reservation_table_ok (reservations (g_sched bump_rt))" "live_stacks bump_rt = {#}" "length (rt_entries (reservations (g_sched bump_rt))) = 4"
  "l_strays (g_heap bump_rt) = {#}"
  using reservation_table_new_ok [of 4]
  by (simp_all add: bump_rt_def dynamic_capacity_def sched_new_def live_stacks_def) (simp add: reservation_table_new_def)

theorem reserved_stacks_return_witness:
  "\<exists>(r :: unit task_admission_error + 32 word) g'. reserve_task_resources (audited bump_env)
      \<lparr>task_slots = 3, stack_bytes_per_task = 2048, total_stack_bytes = 6144\<rparr> bump_rt = Some (r, g')
    \<and> (case r of Inl err \<Rightarrow> live_stacks g' = {#}
        | Inr token \<Rightarrow> \<exists>g''. release_task_reservation (audited bump_env) token g' = Some (Inr (), g'') \<and> live_stacks g'' = {#})"
proof -
  have "(0::nat) < task_slots \<lparr>task_slots = 3, stack_bytes_per_task = 2048, total_stack_bytes = 6144\<rparr>"
    "DYNAMIC_TASK_CAPACITY * stack_bytes_per_task \<lparr>task_slots = 3, stack_bytes_per_task = 2048, total_stack_bytes = 6144\<rparr> \<le> USIZE_MAX"
    by (simp_all add: DYNAMIC_TASK_CAPACITY_def)
  from reserved_stacks_return [OF bump_rt_ok(1) order_refl bump_rt_ok(2,3) this, of bump_env, where 'o = unit] bump_rt_ok(4)
  show ?thesis by (auto split: sum.splits) blast+
qed

subsection \<open>Plans\<close>

lemma plan_stacks_padded:
  assumes "pp_counts p = group_slots plan @ replicate m 0" "length plan \<le> length (pp_stacks p)"
  shows "plan_stacks p = concat (map2 take (group_slots plan) (pp_stacks p))"
proof -
  have "concat (map2 take (xs @ replicate m 0) ys) = concat (map2 take xs (ys :: nat list list))" for xs ys
  proof (induction xs arbitrary: ys)
    case Nil
    have "\<forall>zs \<in> set (map2 take (replicate m 0) ys). zs = []" by (auto dest: set_zip_leftD)
    then show ?case by auto
  next
    case (Cons x xs)
    then show ?case by (cases ys) simp_all
  qed
  with assms(1) show ?thesis by (simp add: plan_stacks_def)
qed

lemma plan_fits:
  assumes "plan_ok groups p" "pp_counts p = group_slots plan @ replicate m 0" "length plan \<le> groups"
  shows "\<forall>k < length plan. stacks_fit (group_resources (plan ! k)) (pp_stacks p ! k)"
proof (intro allI impI)
  fix k
  assume k: "k < length plan"
  then have "pp_counts p ! k = task_slots (group_resources (plan ! k))" using assms(2) by (simp add: group_slots_def nth_append)
  with plan_okD [OF assms(1), of k] nonzero_fit [of "pp_counts p ! k" "pp_stacks p ! k"] k assms(3)
  show "stacks_fit (group_resources (plan ! k)) (pp_stacks p ! k)" by (simp add: stacks_fit_def)
qed

text \<open>
  C25. Admitting a whole plan of task groups is all or nothing, for the slots and for the memory: a
  refused plan, whichever group failed and why, has given back every stack it allocated and left the
  reservations exactly as they were; a granted one gives every group a live reservation of its own
  with the slots and the stacks it asked for, loses no earlier reservation, and the allocator has
  handed out exactly those stacks. No stack is released twice, and the routine always returns.
\<close>

theorem plan_admission_all_or_nothing:
  assumes "dynamic_capacity g = Some cap" "cap \<le> DYNAMIC_TASK_CAPACITY" "length (tasks (g_sched g)) = TASK_SLOT_COUNT"
    "reservation_table_ok (reservations (g_sched g))" "length (rt_entries (reservations (g_sched g))) = groups"
    "length plan \<le> groups" "\<forall>grp \<in> set plan. group_fits grp"
  shows "\<exists>r g'. reserve_task_resource_plan (audited e) groups plan g = Some (r, g') \<and> l_strays (g_heap g') = l_strays (g_heap g)
    \<and> (case r of
         Inl err \<Rightarrow> live_stacks g' = live_stacks g \<and> g' = g\<lparr>g_heap := g_heap g'\<rparr>
       | Inr tokens \<Rightarrow> \<exists>stacks. plan_granted plan stacks tokens (reservations (g_sched g)) (reservations (g_sched g'))
           \<and> live_stacks g' = live_stacks g + mset (concat (map2 take (group_slots plan) stacks)))"
proof -
  let ?t = "reservations (g_sched g)"
  from ledger.preallocate_plan_spec [where e = e and largest = "largest_allocatable_stack (audited e)",
      OF dynamic_capacity_started [OF assms(1)] assms(6,7) audited_largest] obtain r g1 where
    r: "preallocate_task_resource_plan (allocate (audited e)) (deallocate (audited e)) (largest_allocatable_stack (audited e)) groups plan g = Some (r, g1)"
      "g_start g1 \<noteq> None" "heap_frame g1 = heap_frame g"
      "case r of Inl err \<Rightarrow> live_stacks g1 = live_stacks g
        | Inr p \<Rightarrow> plan_ok groups p \<and> live_stacks g1 = live_stacks g + mset (plan_stacks p)
            \<and> pp_counts p = group_slots plan @ replicate (groups - length plan) 0"
    by blast
  note g1 = heap_frameD [OF r(3)] and s1 = heap_frame_sel [OF r(3)]
  show ?thesis
  proof (cases r)
    case (Inl err)
    with r g1 show ?thesis by (simp add: reserve_task_resource_plan_def)
  next
    case (Inr p)
    with r(4) have p: "plan_ok groups p" "live_stacks g1 = live_stacks g + mset (plan_stacks p)"
      "pp_counts p = group_slots plan @ replicate (groups - length plan) 0" by simp_all
    have same: "g1\<lparr>g_sched := g_sched g\<rparr> = g1" using s1(1) by (cases g1) simp
    from available_dynamic_spec [OF assms(2,3)] obtain a where a: "available_dynamic cap (g_sched g) = Some a" by blast
    have len: "length plan \<le> length (pp_stacks p)" "length plan \<le> length (rt_entries ?t)" using p(1) assms(5,6) by (simp_all add: plan_ok_def)
    from plan_admission_atomic [OF assms(4) len plan_fits [OF p(1,3) assms(6)]]
    consider (refused) err where "reserve_plan_with_stacks plan a (pp_stacks p) ?t = Some (Inl err, ?t)"
      | (granted) tokens t' where "reserve_plan_with_stacks plan a (pp_stacks p) ?t = Some (Inr tokens, t')"
        "plan_granted plan (pp_stacks p) tokens ?t t'" by metis
    then show ?thesis
    proof cases
      case refused
      moreover from ledger.plan_release_all_spec [OF r(2) p(1,2), of e] obtain p' g2 where
        "plan_release_all (deallocate (audited e)) groups p g1 = Some (p', g2)" "live_stacks g2 = live_stacks g" "heap_frame g2 = heap_frame g"
        using r(3) by auto
      moreover note heap_frameD [OF this(3)]
      ultimately show ?thesis using r(1) Inr a s1 assms(1)
        by (simp add: reserve_task_resource_plan_def reserve_dynamic_task_resource_plan_with_capacity_def on_sched_def on_reservations_def same)
    next
      case granted
      then have "reserve_task_resource_plan (audited e) groups plan g = Some (Inr tokens, g1\<lparr>g_sched := (g_sched g)\<lparr>reservations := t'\<rparr>\<rparr>)"
        using r(1) Inr a s1 assms(1)
        by (simp add: reserve_task_resource_plan_def reserve_dynamic_task_resource_plan_with_capacity_def on_sched_def on_reservations_def)
      moreover have "live_stacks (g1\<lparr>g_sched := (g_sched g)\<lparr>reservations := t'\<rparr>\<rparr>) = live_stacks g + mset (concat (map2 take (group_slots plan) (pp_stacks p)))"
        using p(2) plan_stacks_padded [OF p(3) len(1)] by (simp add: live_stacks_def)
      ultimately show ?thesis using granted(2) g1 by auto
    qed
  qed
qed

theorem plan_admission_all_or_nothing_witness:
  "\<exists>r g'. reserve_task_resource_plan (audited bump_env) 4 [\<lparr>group_owner = (), group_resources =
        \<lparr>task_slots = 3, stack_bytes_per_task = 2048, total_stack_bytes = 6144\<rparr>\<rparr>] bump_rt = Some (r, g')
    \<and> l_strays (g_heap g') = {#} \<and> (\<forall>err. r = Inl err \<longrightarrow> live_stacks g' = {#})"
proof -
  let ?plan = "[\<lparr>group_owner = (), group_resources = \<lparr>task_slots = 3, stack_bytes_per_task = 2048, total_stack_bytes = 6144\<rparr>\<rparr>]"
  have "length ?plan \<le> 4" "\<forall>grp \<in> set ?plan. group_fits grp" by (simp_all add: group_fits_def DYNAMIC_TASK_CAPACITY_def)
  from plan_admission_all_or_nothing [OF bump_rt_ok(1) order_refl bump_rt_ok(2,3,5) this, of bump_env] bump_rt_ok(4,6)
  show ?thesis by (elim exE conjE) (rule exI, rule exI, intro conjI, assumption, auto)
qed

end
