(* ===== verification/Promises.thy ===== *)
theory Promises
  imports Stack_Ledger
begin

text \<open>
  What a reservation is worth: however tasks are admitted, created and ended, the slots promised to
  reservations stay free until they are claimed, so that a task created from a reservation always
  finds its slot.
\<close>

subsection \<open>Free slots\<close>

definition dynamic_slots :: "nat \<Rightarrow> nat set" where
  "dynamic_slots cap = {IDLE_SLOT + 1..<IDLE_SLOT + 1 + cap}"

definition free_slots :: "nat \<Rightarrow> sched \<Rightarrow> nat set" where
  "free_slots cap s = {i \<in> dynamic_slots cap. t_state (tasks s ! i) = Free}"

definition table_fits :: "nat \<Rightarrow> sched \<Rightarrow> bool" where
  "table_fits cap s \<longleftrightarrow> cap \<le> DYNAMIC_TASK_CAPACITY \<and> length (tasks s) = TASK_SLOT_COUNT \<and> reservation_table_ok (reservations s)"

lemma finite_free [simp]: "finite (free_slots cap s)"
  by (simp add: free_slots_def dynamic_slots_def)

lemma table_fits_slots: "table_fits cap s \<Longrightarrow> IDLE_SLOT + 1 + cap \<le> length (tasks s)"
  by (simp add: table_fits_def TASK_SLOT_COUNT_eq DYNAMIC_TASK_CAPACITY_def IDLE_SLOT_def)

lemma slice_filter_card:
  assumes "b \<le> length xs"
  shows "length (filter P (drop a (take b xs))) = card {i \<in> {a..<b}. P (xs ! i)}"
proof -
  have "drop a (take b xs) = map (\<lambda>i. xs ! i) [a..<b]" using assms by (intro nth_equalityI) simp_all
  then have "length (filter P (drop a (take b xs))) = length (filter (\<lambda>i. P (xs ! i)) [a..<b])" by (simp add: filter_map comp_def)
  also have "\<dots> = card (set (filter (\<lambda>i. P (xs ! i)) [a..<b]))" by (rule distinct_card [symmetric]) simp
  also have "set (filter (\<lambda>i. P (xs ! i)) [a..<b]) = {i \<in> {a..<b}. P (xs ! i)}" by auto
  finally show ?thesis .
qed

lemma free_dynamic_card: "table_fits cap s \<Longrightarrow> free_dynamic cap s = Some (card (free_slots cap s))"
  using slice_filter_card [OF table_fits_slots, of cap s "\<lambda>t. t_state t = Free" "IDLE_SLOT + 1"] table_fits_slots [of cap s]
  by (simp add: free_dynamic_def dynamic_slot_end_def task_slice_def table_fits_def free_slots_def dynamic_slots_def)

lemma find_free_spec:
  "\<forall>i \<in> set is. i < length (tasks s) \<Longrightarrow> \<exists>r. find_free is s = Some r
    \<and> (case r of None \<Rightarrow> \<forall>i \<in> set is. t_state (tasks s ! i) \<noteq> Free | Some i \<Rightarrow> i \<in> set is \<and> t_state (tasks s ! i) = Free)"
proof (induction "is")
  case (Cons i "is")
  then obtain r where "find_free is s = Some r"
    "case r of None \<Rightarrow> \<forall>i \<in> set is. t_state (tasks s ! i) \<noteq> Free | Some i \<Rightarrow> i \<in> set is \<and> t_state (tasks s ! i) = Free" by auto
  with Cons.prems show ?case by (auto split: option.splits)
qed simp

lemma first_free_spec:
  assumes "table_fits cap s"
  shows "\<exists>r. first_free_dynamic cap s = Some r
    \<and> (case r of None \<Rightarrow> free_slots cap s = {} | Some i \<Rightarrow> i \<in> free_slots cap s)"
proof -
  let ?is = "[IDLE_SLOT + 1..<IDLE_SLOT + 1 + cap]"
  have "\<forall>i \<in> set ?is. i < length (tasks s)" unfolding set_upt using table_fits_slots [OF assms] by auto
  from find_free_spec [OF this] obtain r where "find_free ?is s = Some r"
    "case r of None \<Rightarrow> \<forall>i \<in> set ?is. t_state (tasks s ! i) \<noteq> Free | Some i \<Rightarrow> i \<in> set ?is \<and> t_state (tasks s ! i) = Free" by blast
  then show ?thesis unfolding set_upt using assms
    by (auto simp: first_free_dynamic_def dynamic_slot_end_def table_fits_def free_slots_def dynamic_slots_def split: option.splits)
qed

subsection \<open>The promise\<close>

definition promise_kept :: "nat \<Rightarrow> sched \<Rightarrow> bool" where
  "promise_kept cap s \<longleftrightarrow> table_fits cap s \<and> rt_total_remaining (reservations s) \<le> card (free_slots cap s)"

text \<open>A step that takes no free slot but those of \<open>I\<close>, and leaves the reservations alone.\<close>

definition takes_only :: "nat set \<Rightarrow> sched \<Rightarrow> sched \<Rightarrow> bool" where
  "takes_only I s s' \<longleftrightarrow> length (tasks s') = length (tasks s) \<and> reservations s' = reservations s
     \<and> (\<forall>j. j \<notin> I \<longrightarrow> t_state (tasks s ! j) = Free \<longrightarrow> t_state (tasks s' ! j) = Free)"

lemma takes_only_trans: "takes_only I s s1 \<Longrightarrow> takes_only J s1 s2 \<Longrightarrow> takes_only (I \<union> J) s s2"
  by (auto simp: takes_only_def)

lemma takes_only_free:
  assumes "takes_only I s s'"
  shows "card (free_slots cap s) - card (I \<inter> free_slots cap s) \<le> card (free_slots cap s')"
proof -
  have "free_slots cap s - I \<inter> free_slots cap s \<subseteq> free_slots cap s'" using assms by (auto simp: takes_only_def free_slots_def)
  then have "card (free_slots cap s - I \<inter> free_slots cap s) \<le> card (free_slots cap s')" by (rule card_mono [OF finite_free])
  then show ?thesis by (simp add: card_Diff_subset)
qed

lemma takes_only_upd: "upd_task i f s = Some s' \<Longrightarrow> i \<in> I \<or> (\<forall>t. t_state (f t) = t_state t) \<Longrightarrow> takes_only I s s'"
  by (auto simp: takes_only_def upd_task_def mod_task_at split: if_splits)

lemma takes_only_same: "tasks s' = tasks s \<Longrightarrow> reservations s' = reservations s \<Longrightarrow> takes_only I s s'"
  by (simp add: takes_only_def)

lemma takes_only_chain: "takes_only I s s1 \<Longrightarrow> takes_only I s1 s2 \<Longrightarrow> takes_only I s s2"
  using takes_only_trans [of I s s1 I s2] by simp

lemma ready_push_takes:
  assumes "ready_push i s = Some s'"
  shows "takes_only I s s'"
proof -
  from assms obtain p tail s1 s2 where 1: "upd_task i (\<lambda>t. t\<lparr>t_next := NIL\<rparr>) s = Some s1"
    "(if tail = NIL then set_ready_head p i s1 else upd_task tail (\<lambda>t. t\<lparr>t_next := i\<rparr>) s1) = Some s2" "set_ready_tail p i s2 = Some s'"
    by (auto simp: ready_push_def bind_eq_Some)
  have "takes_only I s s1" by (rule takes_only_upd [OF 1(1)]) simp
  moreover have "takes_only I s1 s2"
    using 1(2) takes_only_upd [of tail "\<lambda>t. t\<lparr>t_next := i\<rparr>" s1 s2 I] takes_only_same [of s2 s1 I]
    by (auto simp: set_ready_head_def mod_head_def split: if_splits)
  moreover have "takes_only I s2 s'" using 1(3) by (auto simp: set_ready_tail_def mod_tail_def intro: takes_only_same split: if_splits)
  ultimately show ?thesis by (blast intro: takes_only_chain)
qed

text \<open>Placing a task takes its slot and no other.\<close>

lemma spawn_place_takes:
  assumes "spawn_place i prepare now s = Some s'"
  shows "takes_only {i} s s'"
proof -
  from assms obtain k s1 s2 where 1: "upd_task i (prepare k) (s\<lparr>slot_generations := (slot_generations s)[i := k]\<rparr>) = Some s1"
    "upd_task i (\<lambda>t. t\<lparr>t_state := Ready, t_metrics := metrics_on_ready now (t_metrics t)\<rparr>) s1 = Some s2"
    "(if i \<noteq> IDLE_SLOT then ready_push i s2 else Some s2) = Some s'"
    by (auto simp: spawn_place_def make_ready_def Let_def bind_eq_Some)
  have "takes_only {i} s (s\<lparr>slot_generations := (slot_generations s)[i := k]\<rparr>)" by (simp add: takes_only_same)
  moreover have "takes_only {i} s2 s'" using 1(3) ready_push_takes [of i s2 s' "{i}"] by (auto simp: takes_only_same split: if_splits)
  ultimately show ?thesis using takes_only_upd [OF 1(1), of "{i}"] takes_only_upd [OF 1(2), of "{i}"] by (blast intro: takes_only_chain)
qed

subsection \<open>The operations\<close>

lemma promise_table:
  assumes "promise_kept cap s" "reservation_table_ok t" "rt_total_remaining t \<le> card (free_slots cap s)"
  shows "promise_kept cap (s\<lparr>reservations := t\<rparr>)"
  using assms by (simp add: promise_kept_def table_fits_def free_slots_def)

lemma promise_takes:
  assumes "table_fits cap s" "takes_only {i} s s'" "rt_total_remaining (reservations s) < card (free_slots cap s)"
  shows "promise_kept cap s'"
proof -
  have "card ({i} \<inter> free_slots cap s) \<le> card {i}" by (rule card_mono) simp_all
  then have "rt_total_remaining (reservations s) \<le> card (free_slots cap s')" using takes_only_free [OF assms(2), of cap] assms(3) by simp
  then show ?thesis using assms(1,2) by (simp add: promise_kept_def table_fits_def takes_only_def)
qed

lemma promise_other: "promise_kept cap s \<Longrightarrow> takes_only {} s s' \<Longrightarrow> promise_kept cap s'"
  using takes_only_free [of "{}" s s' cap] by (auto simp: promise_kept_def table_fits_def takes_only_def)

lemma available_spec:
  "table_fits cap s \<Longrightarrow> available_dynamic cap s = Some (card (free_slots cap s) - rt_total_remaining (reservations s))"
  by (simp add: available_dynamic_def free_dynamic_card)

lemma reserve_total:
  assumes "reservation_table_ok t"
  shows "\<exists>r t'. reserve n a t = Some (r :: 'o task_admission_error + 32 word, t') \<and> reservation_table_ok t'
    \<and> rt_total_remaining t' \<le> rt_total_remaining t + a"
proof -
  from reserve_inv [OF assms, of n a, where 'a = 'o] obtain r t' where
    r: "reserve n a t = Some (r :: 'o task_admission_error + 32 word, t')" "reservation_table_ok t'" by blast
  then have "rt_total_remaining t' \<le> rt_total_remaining t + a"
    by (auto simp: reserve_cases [OF assms] after_reserve_def split: if_splits option.splits)
  with r show ?thesis by blast
qed

lemma reserve_stacks_total:
  assumes "reservation_table_ok t" "stacks_fit required stacks"
    "reserve_with_stacks required a stacks t = Some (r :: 'o task_admission_error + 32 word, t')"
  shows "reservation_table_ok t' \<and> rt_total_remaining t' \<le> rt_total_remaining t + a"
proof -
  from reserve_with_stacks_inv [OF assms(1,2), of a, where 'a = 'o] assms(3) have "reservation_table_ok t'" by auto
  moreover have "rt_total_remaining t' \<le> rt_total_remaining t + a"
    using assms(3) by (auto simp: reserve_with_stacks_cases [OF assms(1)] after_reserve_stacks_def after_reserve_def Let_def
        split: if_splits option.splits)
  ultimately show ?thesis by simp
qed

lemma plan_check_sum: "plan_check plan a = None \<Longrightarrow> sum_list (group_slots plan) \<le> a"
proof (induction plan arbitrary: a)
  case (Cons grp plan)
  let ?n = "task_slots (group_resources grp)"
  from Cons.prems have "?n \<le> a" "plan_check plan (a - ?n) = None" by (auto simp: Let_def split: if_splits)
  with Cons.IH [of "a - ?n"] show ?case by (simp add: group_slots_def)
qed (simp add: group_slots_def)

lemma reserve_plan_total:
  assumes "reservation_table_ok t" "length plan \<le> length stacks" "length plan \<le> length (rt_entries t)"
    "\<forall>k < length plan. stacks_fit (group_resources (plan ! k)) (stacks ! k)"
    "reserve_plan_with_stacks plan a stacks t = Some (r, t')"
  shows "reservation_table_ok t' \<and> rt_total_remaining t' \<le> rt_total_remaining t + a"
proof -
  have "plan_granted plan stacks tokens t t' \<Longrightarrow> plan_check plan a = None \<Longrightarrow> ?thesis" for tokens
    using plan_check_sum [of plan a] by (simp add: plan_granted_def group_slots_def)
  moreover have "t' \<noteq> t \<Longrightarrow> plan_check plan a = None"
    using assms(5) by (auto simp: reserve_plan_with_stacks_def split: option.splits)
  ultimately show ?thesis using plan_admission_atomic [OF assms(1-4), of a] assms(1,5) by fastforce
qed

lemma alloc_reserved_spec:
  assumes "promise_kept cap s" "ensure_consumable token (reservations s) = Inr ()"
  shows "\<exists>i stack t. alloc_reserved_dynamic_slot_with_capacity token cap s = Some (Inr (i, stack), s\<lparr>reservations := t\<rparr>)
    \<and> i \<in> free_slots cap s \<and> reservation_table_ok t \<and> rt_total_remaining t < rt_total_remaining (reservations s)"
proof -
  have fits: "table_fits cap s" and ok: "reservation_table_ok (reservations s)" and le: "rt_total_remaining (reservations s) \<le> card (free_slots cap s)"
    using assms(1) by (simp_all add: promise_kept_def table_fits_def)
  from assms(2) obtain k where k: "reservation_resolve_slot token (reservations s) = Inr k" "re_remaining (rt_entries (reservations s) ! k) \<noteq> 0"
    by (auto simp: ensure_consumable_def reservation_resolve_def split: sum.splits if_splits)
  then have pos: "0 < rt_total_remaining (reservations s)"
    using total_remaining_entry [OF ok, of k] resolve_slot_iff [OF ok, of token k] by linarith
  with le have "free_slots cap s \<noteq> {}" by auto
  with first_free_spec [OF fits] obtain i where i: "first_free_dynamic cap s = Some (Some i)" "i \<in> free_slots cap s"
    by (auto split: option.splits)
  from consume_inv [OF ok, of token] consume_live [OF ok k(1)] k(2) pos obtain stack t where
    "consume token (reservations s) = Some (Inr stack, t)" "reservation_table_ok t" "rt_total_remaining t < rt_total_remaining (reservations s)"
    by (auto simp: Let_def)
  with i assms(2) show ?thesis
    by (auto simp: alloc_reserved_dynamic_slot_with_capacity_def on_reservations_def)
qed

lemma alloc_dynamic_spec:
  assumes "promise_kept cap s"
  shows "alloc_dynamic_slot_with_capacity cap s = Some (Inl NoTaskSlots) \<and> card (free_slots cap s) = rt_total_remaining (reservations s)
    \<or> (\<exists>i. alloc_dynamic_slot_with_capacity cap s = Some (Inr i) \<and> i \<in> free_slots cap s
        \<and> rt_total_remaining (reservations s) < card (free_slots cap s))"
proof (cases "card (free_slots cap s) \<le> rt_total_remaining (reservations s)")
  case True
  with assms show ?thesis by (simp add: alloc_dynamic_slot_with_capacity_def promise_kept_def free_dynamic_card)
next
  case False
  then have "free_slots cap s \<noteq> {}" by auto
  with assms first_free_spec [of cap s] False show ?thesis
    by (auto simp: alloc_dynamic_slot_with_capacity_def promise_kept_def free_dynamic_card split: option.splits)
qed

subsection \<open>Histories of admission\<close>

text \<open>
  The scheduler states that any order of reservations, releases and creations of tasks leads to, mixed with any
  other operation: it leaves the reservations alone and takes no free slot. A task is created by
  \<open>spawn_slot\<close> and \<open>spawn_place\<close>, as in the critical section of \<open>spawn\<close>. Owners are numbers.
\<close>

inductive admission :: "nat \<Rightarrow> sched \<Rightarrow> bool" for cap where
  boot: "table_fits cap s \<Longrightarrow> rt_total_remaining (reservations s) = 0 \<Longrightarrow> admission cap s"
| reserve: "admission cap s
    \<Longrightarrow> reserve_dynamic_slots_with_capacity n cap s = Some (r :: nat task_admission_error + 32 word, s') \<Longrightarrow> admission cap s'"
| reserve_stacks: "admission cap s \<Longrightarrow> stacks_fit required stacks
    \<Longrightarrow> reserve_dynamic_task_resources_with_capacity required stacks cap s = Some (r :: nat task_admission_error + 32 word, s') \<Longrightarrow> admission cap s'"
| plan: "admission cap s \<Longrightarrow> length groups \<le> length stacks \<Longrightarrow> length groups \<le> length (rt_entries (reservations s))
    \<Longrightarrow> \<forall>k < length groups. stacks_fit (group_resources (groups ! k)) (stacks ! k)
    \<Longrightarrow> reserve_dynamic_task_resource_plan_with_capacity groups stacks cap s = Some (rs :: nat task_admission_error + 32 word list, s') \<Longrightarrow> admission cap s'"
| release: "admission cap s \<Longrightarrow> sched_release_task_reservation token s = Some (released, s') \<Longrightarrow> admission cap s'"
| spawn: "admission cap s \<Longrightarrow> spawn_slot reservation cap s = Some (Inr (i, stack), s1)
    \<Longrightarrow> spawn_place i prepare now s1 = Some s' \<Longrightarrow> admission cap s'"
| other: "admission cap s \<Longrightarrow> takes_only {} s s' \<Longrightarrow> admission cap s'"

lemma spawn_promise:
  assumes "promise_kept cap s" "spawn_slot reservation cap s = Some (Inr (i, stack), s1)" "spawn_place i prepare now s1 = Some s'"
  shows "promise_kept cap s'"
proof (cases reservation)
  case None
  with assms(2) have "alloc_dynamic_slot_with_capacity cap s = Some (Inr i)" "s1 = s"
    using alloc_dynamic_spec [OF assms(1)] by (auto simp: spawn_slot_def)
  with alloc_dynamic_spec [OF assms(1)] assms(1) promise_takes [OF _ spawn_place_takes [OF assms(3)], of cap] show ?thesis
    by (auto simp: promise_kept_def)
next
  case (Some token)
  with assms(2) have "ensure_consumable token (reservations s) = Inr ()"
    by (cases "ensure_consumable token (reservations s)") (auto simp: spawn_slot_def alloc_reserved_dynamic_slot_with_capacity_def)
  from alloc_reserved_spec [OF assms(1) this] Some assms(2) obtain t where
    t: "s1 = s\<lparr>reservations := t\<rparr>" "reservation_table_ok t" "rt_total_remaining t < rt_total_remaining (reservations s)"
    by (auto simp: spawn_slot_def)
  with assms(1) have "table_fits cap s1" "rt_total_remaining (reservations s1) < card (free_slots cap s1)"
    by (auto simp: promise_kept_def table_fits_def free_slots_def)
  with spawn_place_takes [OF assms(3)] show ?thesis by (blast intro: promise_takes)
qed

lemma admission_promise: "admission cap s \<Longrightarrow> promise_kept cap s"
proof (induction rule: admission.induct)
  case (boot s)
  then show ?case by (simp add: promise_kept_def)
next
  case (reserve s n r s')
  then have p: "table_fits cap s" "rt_total_remaining (reservations s) \<le> card (free_slots cap s)" "reservation_table_ok (reservations s)"
    by (simp_all add: promise_kept_def table_fits_def)
  from reserve_total [OF p(3), of n "card (free_slots cap s) - rt_total_remaining (reservations s)", where 'o = nat] reserve.hyps(2) p(1,2)
  obtain t where "s' = s\<lparr>reservations := t\<rparr>" "reservation_table_ok t" "rt_total_remaining t \<le> card (free_slots cap s)"
    by (auto simp: reserve_dynamic_slots_with_capacity_def available_spec on_reservations_def)
  with promise_table [OF reserve.IH] show ?case by simp
next
  case (reserve_stacks s required stacks r s')
  then have p: "table_fits cap s" "rt_total_remaining (reservations s) \<le> card (free_slots cap s)" "reservation_table_ok (reservations s)"
    by (simp_all add: promise_kept_def table_fits_def)
  from reserve_stacks.hyps(3) p(1) obtain t where
    t: "reserve_with_stacks required (card (free_slots cap s) - rt_total_remaining (reservations s)) stacks (reservations s) = Some (r, t)"
      "s' = s\<lparr>reservations := t\<rparr>"
    by (auto simp: reserve_dynamic_task_resources_with_capacity_def available_spec on_reservations_def bind_eq_Some)
  from reserve_stacks_total [OF p(3) reserve_stacks.hyps(2) t(1)] p(2) t(2) promise_table [OF reserve_stacks.IH] show ?case by simp
next
  case (plan s groups stacks rs s')
  then have p: "table_fits cap s" "rt_total_remaining (reservations s) \<le> card (free_slots cap s)" "reservation_table_ok (reservations s)"
    by (simp_all add: promise_kept_def table_fits_def)
  from plan.hyps(5) p(1) obtain t where
    t: "reserve_plan_with_stacks groups (card (free_slots cap s) - rt_total_remaining (reservations s)) stacks (reservations s) = Some (rs, t)"
      "s' = s\<lparr>reservations := t\<rparr>"
    by (auto simp: reserve_dynamic_task_resource_plan_with_capacity_def available_spec on_reservations_def bind_eq_Some)
  from reserve_plan_total [OF p(3) plan.hyps(2-4) t(1)] p(2) t(2) promise_table [OF plan.IH] show ?case by simp
next
  case (release s token released s')
  have ok: "reservation_table_ok (reservations s)" using release.IH by (simp add: promise_kept_def table_fits_def)
  from release.hyps(2) obtain t where t: "release token (reservations s) = Some (released, t)" "s' = s\<lparr>reservations := t\<rparr>"
    by (auto simp: sched_release_task_reservation_def on_reservations_def bind_eq_Some)
  moreover from release_inv [OF ok, of token] t(1) have "reservation_table_ok t" by simp
  moreover have "rt_total_remaining t \<le> rt_total_remaining (reservations s)"
    using t(1) release_live [OF ok, of token] by (cases "reservation_resolve_slot token (reservations s)") (auto simp: release_def)
  ultimately show ?case using promise_table [OF release.IH, of t] release.IH by (simp add: promise_kept_def)
next
  case (spawn s reservation i stack s1 prepare now s')
  then show ?case by (blast intro: spawn_promise)
next
  case (other s s')
  then show ?case by (blast intro: promise_other)
qed

text \<open>
  C23. A reservation is honoured. In whatever order tasks are reserved, created with or without a
  reservation, ended and their reservations released, the free slots of the table always cover what the
  reservations still promise: creating a task from a reservation that has a slot left always finds a free
  slot, and a task without a reservation is refused exactly when every free slot is promised.
\<close>

theorem reservations_honoured:
  assumes "admission cap s"
  shows "rt_total_remaining (reservations s) \<le> card (free_slots cap s)
    \<and> (\<forall>token. ensure_consumable token (reservations s) = Inr ()
         \<longrightarrow> (\<exists>i stack s'. spawn_slot (Some token) cap s = Some (Inr (i, stack), s') \<and> i \<in> free_slots cap s
              \<and> rt_total_remaining (reservations s') < rt_total_remaining (reservations s)))
    \<and> (if card (free_slots cap s) = rt_total_remaining (reservations s) then spawn_slot None cap s = Some (Inl NoTaskSlots, s)
       else \<exists>i \<in> free_slots cap s. spawn_slot None cap s = Some (Inr (i, None), s))"
proof -
  note p = admission_promise [OF assms]
  have "\<exists>i stack s'. spawn_slot (Some token) cap s = Some (Inr (i, stack), s') \<and> i \<in> free_slots cap s
      \<and> rt_total_remaining (reservations s') < rt_total_remaining (reservations s)"
    if "ensure_consumable token (reservations s) = Inr ()" for token
    using alloc_reserved_spec [OF p that] by (auto simp: spawn_slot_def)
  moreover have "rt_total_remaining (reservations s) \<le> card (free_slots cap s)" using p by (simp add: promise_kept_def)
  ultimately show ?thesis using alloc_dynamic_spec [OF p] by (auto simp: spawn_slot_def)
qed

theorem reservations_honoured_witness:
  "\<exists>s' i stack s''. reserve_dynamic_slots_with_capacity 2 15 (sched_new 4) = Some (Inr 257 :: nat task_admission_error + 32 word, s')
    \<and> spawn_slot (Some 257) 15 s' = Some (Inr (i, stack), s'')"
proof -
  let ?t = "reservation_table_new 4"
  have ok: "reservation_table_ok ?t" by (simp add: reservation_table_new_ok)
  have fits: "table_fits 15 (sched_new 4)" by (simp add: table_fits_def sched_new_def DYNAMIC_TASK_CAPACITY_def ok)
  have res: "reservations (sched_new 4) = ?t" "rt_total_remaining ?t = 0" by (simp_all add: sched_new_def reservation_table_new_def)
  have "free_slots 15 (sched_new 4) = {2..<17}"
    by (auto simp: free_slots_def dynamic_slots_def sched_new_def IDLE_SLOT_def TASK_SLOT_COUNT_eq tcb_empty_def)
  then have a: "available_dynamic 15 (sched_new 4) = Some 15" using res by (simp add: available_spec [OF fits])
  have e: "rt_entries ?t = reservation_entry_EMPTY # replicate 3 reservation_entry_EMPTY"
    by (simp add: reservation_table_new_def flip: replicate_Suc)
  let ?r = "after_reserve 0 2 ?t"
  have r0: "rt_entries ?r ! 0 = reserved_entry 2 reservation_entry_EMPTY" "0 < length (rt_entries ?r)"
    using after_reserve_at [of 0 ?t 2] e by simp_all
  have tok: "token_at ?r 0 = 257"
    using r0 by (simp add: reserved_entry_def reservation_entry_EMPTY_def bump_generation_def slot_handle_def pack8_def push_bit_eq_mult)
  have t: "reserve 2 15 ?t = Some (Inr 257 :: nat task_admission_error + 32 word, ?r)"
    unfolding reserve_cases [OF ok] by (simp add: e reservation_entry_EMPTY_def tok)
  have "reservation_table_ok ?r" by (rule after_reserve_ok [OF ok]) (simp_all add: e reservation_entry_EMPTY_def)
  from resolve_slot_iff [OF this, of 257 0] r0 tok have c: "ensure_consumable 257 ?r = Inr ()"
    by (simp add: ensure_consumable_def reservation_resolve_def reserved_entry_def)
  let ?s = "(sched_new 4)\<lparr>reservations := ?r\<rparr>"
  have r: "reserve_dynamic_slots_with_capacity 2 15 (sched_new 4) = Some (Inr 257 :: nat task_admission_error + 32 word, ?s)"
    using a t res by (simp add: reserve_dynamic_slots_with_capacity_def on_reservations_def)
  have "admission 15 (sched_new 4)" using fits res by (intro admission.boot) simp_all
  then have "admission 15 ?s" using r by (rule admission.reserve)
  from reservations_honoured [OF this] r c show ?thesis by auto
qed

end
