(* ===== verification/Sync_Properties.thy ===== *)
theory Sync_Properties
  imports Kernel_Properties
begin

text \<open>
  What each operation of semaphores, mutexes, cancellation and the timer does in a consistent
  kernel, on every branch. \<open>S a\<close> and \<open>M a\<close> are the queues of the semaphore and of the mutex at \<open>a\<close>,
  front first.
\<close>

subsection \<open>Semaphores\<close>

lemma front_is_first:
  assumes "kernel_inv s Q S M"
  shows "S a = x # xs \<Longrightarrow> i \<in> set xs \<Longrightarrow> prio_of s x \<le> prio_of s i" "M a = x # xs \<Longrightarrow> i \<in> set xs \<Longrightarrow> prio_of s x \<le> prio_of s i"
proof -
  note w = waits_repD [OF sync_invD(2) [OF kernel_invD(1) [OF assms]]]
  have s: "sorted (map (prio_of s) (S a))"
    using fam_repD(1,4) [OF w(1), of a] by (cases "sem_view s a") auto
  have m: "sorted (map (prio_of s) (M a))"
    using fam_repD(1,4) [OF w(2), of a] by (cases "mutex_view s a") auto
  show "S a = x # xs \<Longrightarrow> i \<in> set xs \<Longrightarrow> prio_of s x \<le> prio_of s i" using s by simp
  show "M a = x # xs \<Longrightarrow> i \<in> set xs \<Longrightarrow> prio_of s x \<le> prio_of s i" using m by simp
qed

text \<open>
  C19. Releasing a semaphore returns and adds exactly one permit: with nobody waiting the count grows
  by one and no task changes; otherwise the permit goes to the front of the queue, the task of the
  best priority that waited longest, which becomes ready with the grant recorded, and everybody
  else keeps its state and its place. A switch is requested exactly when a task was woken outside
  an interrupt.
\<close>

theorem semaphore_up_hands_over:
  assumes "kernel_inv s Q S M" "sem_mem s a = Some st" "S a = [] \<longrightarrow> sm_count st < I32_MAX"
  shows "\<exists>s' Q' S'. semaphore_up depth a now s = Some (S a \<noteq> [] \<and> depth = 0, s') \<and> kernel_inv s' Q' S' M
    \<and> (\<forall>b. b \<noteq> 0 \<longrightarrow> permits s' b = permits s b + of_bool (b = a))
    \<and> (case S a of
         [] \<Rightarrow> tasks s' = tasks s \<and> sem_mem s' = (sem_mem s)(a \<mapsto> st\<lparr>sm_count := sm_count st + 1\<rparr>)
       | x # xs \<Rightarrow> S' = S(a := xs) \<and> state_of s' x = Ready \<and> t_granted_sem (tasks s' ! x) = a
           \<and> (\<forall>i \<in> set xs. prio_of s x \<le> prio_of s i)
           \<and> (\<forall>j < TASK_SLOT_COUNT. j \<noteq> x \<longrightarrow> state_of s' j = state_of s j))"
proof -
  note k = kernel_invD [OF assms(1)]
  from semaphore_up_spec [OF assms(1,2), of depth now] assms(3) obtain s' Q' S' where
    r: "semaphore_up depth a now s = Some (S a \<noteq> [] \<and> depth = 0, s')" "kernel_inv s' Q' S' M"
      "\<forall>b. b \<noteq> 0 \<longrightarrow> permits s' b = permits s b + of_bool (b = a)"
      "S a = [] \<longrightarrow> tasks s' = tasks s \<and> sem_mem s' = (sem_mem s)(a \<mapsto> st\<lparr>sm_count := sm_count st + 1\<rparr>)"
      "\<forall>x xs. S a = x # xs \<longrightarrow> S' = S(a := xs) \<and> changed x (\<lambda>t. ready_mark now (granted_by a t)) s s'" by blast
  show ?thesis
  proof (cases "S a")
    case Nil
    with r show ?thesis by auto
  next
    case (Cons x xs)
    have x: "x < length (tasks s)"
      using waiters_iff [OF sync_invD(2) [OF k(1)], of x] Cons k(7) by (auto simp: members_def intro: exI [of _ a])
    from r(5) Cons have ch: "S' = S(a := xs)" "changed x (\<lambda>t. ready_mark now (granted_by a t)) s s'" by auto
    from ch(2) have t: "\<exists>n. tasks s' ! j = (if j = x then ready_mark now (granted_by a (tasks s ! x)) else tasks s ! j)\<lparr>t_next := n\<rparr>"
      if "j < length (tasks s)" for j using that by (simp add: changed_def)
    have "state_of s' x = Ready" "t_granted_sem (tasks s' ! x) = a" using t [OF x] by (auto simp: ready_mark_def granted_by_def)
    moreover have "state_of s' j = state_of s j" if "j < TASK_SLOT_COUNT" "j \<noteq> x" for j using t [of j] that k(7) by auto
    moreover have "\<forall>i \<in> set xs. prio_of s x \<le> prio_of s i" using front_is_first(1) [OF assms(1) Cons] by blast
    ultimately show ?thesis using r(1-3) ch(1) Cons by auto
  qed
qed

text \<open>Task 0 of the example waits for the semaphore at 64.\<close>

lemma trio_waits:
  "\<exists>s Q. kernel_inv s Q ((\<lambda>_. [])(64 := [0])) (\<lambda>_. []) \<and> (\<exists>st. sem_mem s 64 = Some st)
    \<and> (\<exists>intent. semaphore_down_timeout True True 64 U32_MAX 5 (write_sem 0 64 trio) = Some (Inr (None, Some intent), s))"
proof -
  have k: "kernel_inv (write_sem 0 64 trio) (\<lambda>_. []) (\<lambda>_. []) (\<lambda>_. [])" by (rule kernel_new_sem [OF trio_inv]) (simp_all add: trio_sel)
  have c: "in_task (write_sem 0 64 trio)" "sem_mem (write_sem 0 64 trio) 64 = Some (semaphore_new 0)"
    "t_scheduler_lock_depth (tasks (write_sem 0 64 trio) ! current (write_sem 0 64 trio)) = 0" "current (write_sem 0 64 trio) = 0"
    using trio_task trio_sel(2) by (simp_all add: write_sem_def in_task_def)
  from down_timeout_spec [OF k c(1,2), of U32_MAX 5] c(3,4) obtain intent s Q where
    r: "semaphore_down_timeout True True 64 U32_MAX 5 (write_sem 0 64 trio) = Some (Inr (None, Some intent), s)"
      "kernel_inv s Q ((\<lambda>_. [])(64 := [0])) (\<lambda>_. [])" by (auto simp: semaphore_new_def insert_prio_def)
  have "sem_view s 64 \<noteq> None" using fam_member(2) [OF waits_repD(1) [OF sync_invD(2) [OF kernel_invD(1) [OF r(2)]]], of 0 64] by simp
  then show ?thesis using r by (auto simp: sem_view_def)
qed

theorem semaphore_up_hands_over_witness:
  "\<exists>s s'. semaphore_up 0 64 7 s = Some (True, s') \<and> state_of s' 0 = Ready \<and> t_granted_sem (tasks s' ! 0) = 64"
proof -
  from trio_waits obtain s Q st where s: "kernel_inv s Q ((\<lambda>_. [])(64 := [0])) (\<lambda>_. [])" "sem_mem s 64 = Some st" by blast
  from semaphore_up_hands_over [OF s, of 0 7] show ?thesis by auto
qed

text \<open>
  C18. Taking a permit has exactly these outcomes: a positive count is lowered and the call succeeds;
  with no permit a call without a timeout fails at once and changes nothing, and one made under the
  scheduler lock is refused; otherwise the caller is queued behind the tasks of its priority or
  better, the processor goes to the best ready task, and the caller stays parked with its permits
  untouched. No branch panics or loops.
\<close>

theorem semaphore_down_outcomes:
  assumes "kernel_inv s Q S M" "in_task s" "sem_mem s a = Some st"
  shows "if 0 < sm_count st then \<exists>s'. semaphore_down_timeout True True a timeout now s = Some (Inr (Some True, None), s')
        \<and> kernel_inv s' Q S M \<and> (\<forall>b. permits s' b = permits s b - of_bool (b = a))
    else if timeout = 0 then semaphore_down_timeout True True a timeout now s = Some (Inr (Some False, None), s)
    else if t_scheduler_lock_depth (tasks s ! current s) \<noteq> 0
      then semaphore_down_timeout True True a timeout now s = Some (Inl InvalidContext, s)
    else \<exists>intent s' Q'. semaphore_down_timeout True True a timeout now s = Some (Inr (None, Some intent), s')
        \<and> kernel_inv s' Q' (S(a := insert_prio (prio_of s) (current s) (S a))) M
        \<and> pending_target s' = Some (best_ready Q) \<and> (\<forall>b. permits s' b = permits s b)"
  by (rule down_timeout_spec [OF assms])

theorem semaphore_down_outcomes_witness:
  "(\<exists>s'. semaphore_down_timeout True True 64 9 5 (write_sem 2 64 trio) = Some (Inr (Some True, None), s'))
    \<and> semaphore_down_timeout True True 64 0 5 (write_sem 0 64 trio) = Some (Inr (Some False, None), write_sem 0 64 trio)"
proof -
  have k: "kernel_inv (write_sem n 64 trio) (\<lambda>_. []) (\<lambda>_. []) (\<lambda>_. [])" if "0 \<le> n" "n \<le> 2" for n
    by (rule kernel_new_sem [OF trio_inv]) (use that in \<open>simp_all add: trio_sel\<close>)
  have c: "in_task (write_sem n 64 trio)" "sem_mem (write_sem n 64 trio) 64 = Some (semaphore_new n)" for n
    using trio_task(1) by (simp_all add: write_sem_def in_task_def)
  from semaphore_down_outcomes [OF k c, of 2 9 5] semaphore_down_outcomes [OF k c, of 0 0 5] show ?thesis by (auto simp: semaphore_new_def)
qed

subsection \<open>Mutexes\<close>

text \<open>
  C9. Locking a mutex has exactly these outcomes. The owner takes one more level, and the deepest
  level is refused with an error and no change; a free mutex is taken. A call without a timeout on
  a mutex of somebody else fails at once and changes nothing. A call under the scheduler lock, or one
  that would close a cycle of owners, is refused and changes nothing; every other call parks the
  caller behind the owner and hands the processor over. So a refusal for a cycle is never wrong and
  a cycle is never let in.
\<close>

theorem mutex_lock_outcomes:
  assumes "kernel_inv s Q S M" "in_task s" "mutex_mem s a = Some m"
  shows "if mx_owner m = current s \<and> mx_depth m = U32_MAX then mutex_lock True True a timeout now s = Some (Inl RuntimeError, s)
    else if mx_owner m = current s \<or> mx_owner m = NIL then \<exists>s'. mutex_lock True True a timeout now s = Some (Inr (Some True, None), s')
        \<and> s' = s\<lparr>mutex_mem := (mutex_mem s)(a \<mapsto> m\<lparr>mx_owner := current s, mx_depth := mx_depth m + 1\<rparr>)\<rparr> \<and> kernel_inv s' Q S M
    else if timeout = 0 then mutex_lock True True a timeout now s = Some (Inr (Some False, None), s)
    else if t_scheduler_lock_depth (tasks s ! current s) \<noteq> 0 \<or> (mx_owner m, current s) \<in> (wait_edges s)\<^sup>*
      then mutex_lock True True a timeout now s = Some (Inl InvalidContext, s)
    else \<exists>intent s' Q' S' M'. mutex_lock True True a timeout now s = Some (Inr (None, Some intent), s') \<and> kernel_inv s' Q' S' M'
        \<and> current s' = current s \<and> current s \<in> set (M' a) \<and> waits_for s' (current s) = Some (mx_owner m)
        \<and> pending_target s' \<noteq> None \<and> (\<forall>b. permits s' b = permits s b)"
  using assms(2) by (intro mutex_lock_spec [OF assms(1,3)]) (simp_all add: in_task_def)

theorem mutex_lock_outcomes_witness:
  "(\<exists>intent s. mutex_lock True True 64 U32_MAX 5 trio_owned = Some (Inr (None, Some intent), s) \<and> waits_for s 0 = Some 2)
    \<and> mutex_lock True True 64 0 5 trio_owned = Some (Inr (Some False, None), trio_owned)"
proof -
  note o = trio_owned_inv
  have n: "\<not> (t_scheduler_lock_depth (tasks trio_owned ! current trio_owned) \<noteq> 0 \<or> (2, current trio_owned) \<in> (wait_edges trio_owned)\<^sup>*)"
    using trio_task(2) trio_sel(2) o(3,4,6) by simp
  from mutex_lock_outcomes [OF o(1,2,5), of U32_MAX 5] mutex_lock_outcomes [OF o(1,2,5), of 0 5] n o(3) show ?thesis by (auto simp: NIL_def)
qed

text \<open>What the front of the queue gets when the mutex is handed to it.\<close>

lemma handed_over:
  assumes inv: "kernel_inv s Q S M" and q: "M a = x # xs" and re: "reprio (handed a x now s) s'"
  shows "state_of s' x = Ready" "t_granted_mutex (tasks s' ! x) = a" "waits_for s' x = None"
    "\<exists>m'. mutex_mem s' a = Some m' \<and> mx_owner m' = x \<and> mx_depth m' = 1"
    "j < TASK_SLOT_COUNT \<Longrightarrow> j \<noteq> x \<Longrightarrow> state_of s' j = state_of s j"
proof -
  note k = kernel_invD [OF inv]
  note w = mutex_waiter [OF k(1), of x a, unfolded q, simplified]
  have xl: "x < length (tasks s)" using w(1) k(7) by simp
  note h = handed_sel [OF xl, of a now]
  have xh: "x < length (tasks (handed a x now s))" using xl h(2) by simp
  note f = reprio_fields [OF re xh]
  show "state_of s' x = Ready" "t_granted_mutex (tasks s' ! x) = a"
    using f h(1) [of x] w(3) by (simp_all add: ready_mark_def mutex_granted_def)
  show "waits_for s' x = None" using reprio_waits_for [OF re xh] h(1) [of x] by (simp add: waits_for_def ready_mark_def mutex_granted_def)
  obtain m where "mutex_mem s a = Some m" using w(6) by blast
  then have "map_option (\<lambda>m. (mx_owner m, mx_depth m)) (mutex_mem (handed a x now s) a) = Some (x, 1)"
    using h(7) by (simp add: owned_by_def)
  with reprio_mem(2) [OF re, of a] show "\<exists>m'. mutex_mem s' a = Some m' \<and> mx_owner m' = x \<and> mx_depth m' = 1"
    by (cases "mutex_mem s' a") auto
  show "j < TASK_SLOT_COUNT \<Longrightarrow> j \<noteq> x \<Longrightarrow> state_of s' j = state_of s j"
    using reprio_fields(1) [OF re, of j] h(1,2) k(7) by simp
qed

text \<open>
  C10. Unlocking: a task that does not own the mutex is refused and nothing changes; an inner level is
  given back and the mutex stays owned; the last level frees a mutex nobody waits for, and hands any
  other to the front of its queue, the task of the best priority that waited longest, which becomes
  its owner, ready, at depth one. Everybody else stays as it was, and the priorities of the old and
  the new owner follow their remaining waiters.
\<close>

theorem mutex_unlock_hands_over:
  assumes "kernel_inv s Q S M" "in_task s" "mutex_mem s a = Some m"
  shows "if mx_owner m \<noteq> current s then mutex_unlock idepth a now s = Some (Inl InvalidContext, s)
    else if 1 < mx_depth m then mutex_unlock idepth a now s
      = Some (Inr False, s\<lparr>mutex_mem := (mutex_mem s)(a \<mapsto> m\<lparr>mx_depth := mx_depth m - 1\<rparr>)\<rparr>)
    else \<exists>s' Q' S'. mutex_unlock idepth a now s = Some (Inr (M a \<noteq> [] \<and> idepth = 0), s') \<and> kernel_inv s' Q' S' (M(a := tl (M a)))
      \<and> (case M a of
           [] \<Rightarrow> s' = s\<lparr>mutex_mem := (mutex_mem s)(a \<mapsto> m\<lparr>mx_owner := NIL, mx_depth := 0\<rparr>)\<rparr>
         | x # xs \<Rightarrow> state_of s' x = Ready \<and> t_granted_mutex (tasks s' ! x) = a \<and> waits_for s' x = None
             \<and> (\<exists>m'. mutex_mem s' a = Some m' \<and> mx_owner m' = x \<and> mx_depth m' = 1)
             \<and> (\<forall>i \<in> set xs. prio_of s x \<le> prio_of s i)
             \<and> (\<forall>j < TASK_SLOT_COUNT. j \<noteq> x \<longrightarrow> state_of s' j = state_of s j))"
proof -
  note k = kernel_invD [OF assms(1)]
  have c: "state_of s (current s) = Running" "t_granted_mutex (tasks s ! current s) = 0"
    using assms(2) sync_invD(10) [OF k(1) k(9)] by (auto simp: in_task_def grant_ok_def Let_def)
  note u = mutex_unlock_spec [OF assms(1,3) c, of idepth now]
  consider "mx_owner m \<noteq> current s" | "\<not> mx_owner m \<noteq> current s" "1 < mx_depth m" | "\<not> mx_owner m \<noteq> current s" "\<not> 1 < mx_depth m" by blast
  then show ?thesis
  proof cases
    case 1
    with u show ?thesis by simp
  next
    case 2
    with u show ?thesis unfolding if_not_P [OF 2(1)] if_P [OF 2(2)] by blast
  next
    case 3
    from u [unfolded if_not_P [OF 3(1)] if_not_P [OF 3(2)]] obtain s' Q' S' where
      r: "mutex_unlock idepth a now s = Some (Inr (M a \<noteq> [] \<and> idepth = 0), s')" "kernel_inv s' Q' S' (M(a := tl (M a)))"
        "M a = [] \<longrightarrow> s' = s\<lparr>mutex_mem := (mutex_mem s)(a \<mapsto> m\<lparr>mx_owner := NIL, mx_depth := 0\<rparr>)\<rparr>"
        "\<forall>x xs. M a = x # xs \<longrightarrow> reprio (handed a x now s) s'" by blast
    show ?thesis unfolding if_not_P [OF 3(1)] if_not_P [OF 3(2)]
    proof (intro exI conjI)
      show "mutex_unlock idepth a now s = Some (Inr (M a \<noteq> [] \<and> idepth = 0), s')" "kernel_inv s' Q' S' (M(a := tl (M a)))" using r by simp_all
      show "case M a of [] \<Rightarrow> s' = s\<lparr>mutex_mem := (mutex_mem s)(a \<mapsto> m\<lparr>mx_owner := NIL, mx_depth := 0\<rparr>)\<rparr>
         | x # xs \<Rightarrow> state_of s' x = Ready \<and> t_granted_mutex (tasks s' ! x) = a \<and> waits_for s' x = None
             \<and> (\<exists>m'. mutex_mem s' a = Some m' \<and> mx_owner m' = x \<and> mx_depth m' = 1)
             \<and> (\<forall>i \<in> set xs. prio_of s x \<le> prio_of s i)
             \<and> (\<forall>j < TASK_SLOT_COUNT. j \<noteq> x \<longrightarrow> state_of s' j = state_of s j)"
      proof (cases "M a")
        case Nil
        with r(3) show ?thesis by simp
      next
        case (Cons x xs)
        note h = handed_over [OF assms(1) Cons r(4) [rule_format, OF Cons]]
        with front_is_first(2) [OF assms(1) Cons] show ?thesis unfolding Cons by simp
      qed
    qed
  qed
qed

text \<open>The example with task 0 as owner of the mutex at 64 and task 2 waiting for it.\<close>

definition trio_waited :: sched where
  "trio_waited = (mod_task 2 (\<lambda>t. t\<lparr>t_state := Blocked, t_wake_at := 0, t_waiting_mutex := 64\<rparr>)
     (mod_task 0 (\<lambda>t. t\<lparr>t_inherited_waiters := (replicate PRIORITY_LEVELS 0)[20 := 1]\<rparr>) trio))
     \<lparr>mutex_mem := [64 \<mapsto> \<lparr>mx_owner = 0, mx_depth = 1, mx_wait_head = 2, mx_wait_tail = 2\<rparr>]\<rparr>"

lemma trio_waited_tasks:
  "tasks trio_waited ! i = (if i = 0 then (tasks trio ! 0)\<lparr>t_inherited_waiters := (replicate PRIORITY_LEVELS 0)[20 := 1]\<rparr>
     else if i = 2 then (tasks trio ! 2)\<lparr>t_state := Blocked, t_wake_at := 0, t_waiting_mutex := 64\<rparr> else tasks trio ! i)"
  using trio_sel(1) by (simp add: trio_waited_def mod_task_at)

lemma trio_waited_inv: "kernel_inv trio_waited (\<lambda>_. []) (\<lambda>_. []) ((\<lambda>_. [])(64 := [2]))"
proof -
  let ?s = trio_waited and ?M = "(\<lambda>_. [])(64 := [2 :: nat])"
  note k = kernel_invD [OF trio_inv] and d = sync_invD [OF kernel_invD(1) [OF trio_inv]] and at = trio_waited_tasks
  have sl: "IDLE_SLOT = 1" "TASK_SLOT_COUNT = 17" by (simp_all add: IDLE_SLOT_def TASK_SLOT_COUNT_eq)
  have each: "i = 0 \<or> i = 1 \<or> i = 2 \<or> 2 < i" for i :: nat by arith
  have un: "unused (tasks trio ! i)" if "i < 17" for i using each [of i] trio_tasks that by (auto simp: unused_def tcb_empty_def)
  have sel: "length (tasks ?s) = 17" "current ?s = 0" "pending_switch ?s = None" "sem_mem ?s = Map.empty"
    "mutex_mem ?s = [64 \<mapsto> \<lparr>mx_owner = 0, mx_depth = 1, mx_wait_head = 2, mx_wait_tail = 2\<rparr>]"
    using trio_sel by (simp_all add: trio_waited_def)
  have own: "owned_but {} ?s (\<lambda>_. [])"
  proof -
    have "owned_but {} (mod_task 0 (\<lambda>t. t\<lparr>t_inherited_waiters := (replicate PRIORITY_LEVELS 0)[20 := 1]\<rparr>) trio) (\<lambda>_. [])"
      by (rule owned_mod_task [OF k(8)]) (use trio_sel trio_tasks(1) in \<open>auto simp: sl queued_def pending_target_def tcb_empty_def PRIORITY_LEVELS_def\<close>)
    from owned_mod_task [OF this, of 2 "\<lambda>t. t\<lparr>t_state := Blocked, t_wake_at := 0, t_waiting_mutex := 64\<rparr>" "{}"]
    have "owned_but {} (mod_task 2 (\<lambda>t. t\<lparr>t_state := Blocked, t_wake_at := 0, t_waiting_mutex := 64\<rparr>)
        (mod_task 0 (\<lambda>t. t\<lparr>t_inherited_waiters := (replicate PRIORITY_LEVELS 0)[20 := 1]\<rparr>) trio)) (\<lambda>_. [])"
      using trio_sel trio_tasks(3) by (simp add: sl queued_def pending_target_def tcb_empty_def PRIORITY_LEVELS_def mod_task_at)
    then show ?thesis by (rule owned_but_view) (simp add: same_view_def trio_waited_def)
  qed
  have wf: "waits_for ?s i = (if i = 2 then Some 0 else None)" if "i < 17" for i
    using un [OF that] un [of 0] by (auto simp: waits_for_def at sel unused_def NIL_def)
  have p2: "prio_of ?s 2 = 20" using trio_tasks(3) by (simp add: at)
  have dn: "donors ?s i p = (if i = 0 \<and> p = 20 then {2} else {})" for i p
    using wf p2 by (auto simp: donors_def sl split: if_splits)
  have "waits_rep {} {} ?s (\<lambda>_. []) ?M"
    using un trio_tasks(3) by (auto simp: waits_rep_def fam_rep_def sem_view_def mutex_view_def mutex_ends_def sel members_def sl wait_rep_def
        links_def at unused_def tcb_empty_def NIL_def split: if_splits)
  moreover have "donations_but {} ?s" using un by (auto simp: donations_but_def dn at unused_def sl PRIORITY_LEVELS_def nth_list_update)
  moreover have "owners_ok ?s" "objects_ok ?s (\<lambda>_. []) ?M" by (simp_all add: owners_ok_def objects_ok_def sel sl NIL_def)
  moreover have "wait_edges ?s = {(2, 0)}" using wf by (auto simp: wait_edges_def sl split: if_splits)
  then have "acyclic (wait_edges ?s)" using acyclic_insert [of 2 "0 :: nat" "{}"] by (simp add: acyclic_def)
  moreover have "bases_ok ?s" using d(6) by (simp add: bases_ok_def at)
  moreover have "settled ?s i" if "i < 17" for i
  proof (cases "i = 0")
    case True
    have "wanted_priority (tasks ?s ! 0) = 3"
      using trio_tasks(1) by (simp add: at wanted_priority_def inherited_priority_def tcb_empty_def PRIORITY_LEVELS_def numeral_eq_Suc)
    then show ?thesis using True trio_tasks(1) by (simp add: settled_def at)
  next
    case False
    then show ?thesis using un [OF that] unused_wanted [OF un [OF that]]
      by (auto simp: settled_def at unused_def wanted_priority_def inherited_priority_def split: option.splits)
  qed
  moreover have "grant_ok ?s i" if "i < 17" for i using un [OF that] by (auto simp: grant_ok_def Let_def at unused_def)
  ultimately have sy: "sync_inv ?s (\<lambda>_. []) (\<lambda>_. []) ?M" using own by (simp add: sync_inv_def prop_inv_def settled_but_def sel sl)
  show ?thesis
  proof (rule kernel_transfer [OF trio_inv sy])
    show "trap_kept (tasks trio ! i) (tasks ?s ! i)" for i using trio_tasks(3) by (simp add: trap_kept_def at)
    show "state_of ?s IDLE_SLOT = Ready \<or> state_of ?s IDLE_SLOT = Running" using trio_tasks(2) by (simp add: at sl)
  qed (use trio_sel sel in \<open>simp_all add: steady_def trio_waited_def\<close>)
qed

theorem mutex_unlock_hands_over_witness:
  "\<exists>s'. mutex_unlock 0 64 9 trio_waited = Some (Inr True, s') \<and> state_of s' 2 = Ready
    \<and> (\<exists>m'. mutex_mem s' 64 = Some m' \<and> mx_owner m' = 2 \<and> mx_depth m' = 1)"
proof -
  have c: "in_task trio_waited" "current trio_waited = 0"
    "mutex_mem trio_waited 64 = Some \<lparr>mx_owner = 0, mx_depth = 1, mx_wait_head = 2, mx_wait_tail = 2\<rparr>"
    using trio_task(1) trio_sel by (simp_all add: in_task_def trio_waited_tasks) (simp_all add: trio_waited_def)
  from mutex_unlock_hands_over [OF trio_waited_inv c(1,3), of 0 9] c(2) show ?thesis by auto
qed

subsection \<open>Cancellation and time\<close>



text \<open>
  C29. The timer serves exactly what is due: it returns, every sleeper and every timed wait whose time
  has come is ready afterwards, a throttled task is ready exactly when its replenishment time has
  come, the running task is charged for its time and throttled exactly when its quota is used up and
  it holds no scheduler lock, and no other task changes its state, its wait or its quota. Permits are
  kept, and the kernel stays consistent.
\<close>

theorem timer_serves_what_is_due:
  assumes "kernel_inv s Q S M" "now \<le> U64_MAX" "spec (t_budget (tasks s ! IDLE_SLOT)) = None"
  shows "\<exists>v s' Q' S' M'. on_timer now limit s = Some (v, s') \<and> kernel_inv s' Q' S' M'
    \<and> (\<forall>b. b \<noteq> 0 \<longrightarrow> permits s' b = permits s b)
    \<and> (\<forall>j < TASK_SLOT_COUNT. if overdue now (tasks s ! j) then state_of s' j = Ready
       else if state_of s j = Throttled then refilled now (tasks s ! j) (tasks s' ! j)
       else if state_of s j = Running then charged now (tasks s ! j) (tasks s' ! j)
       else clock (tasks s' ! j) = clock (tasks s ! j))"
proof -
  from on_timer_spec [OF assms, of limit] obtain v s' where
    "on_timer now limit s = Some (v, s')" "served s s'"
    "\<forall>j < TASK_SLOT_COUNT. if overdue now (tasks s ! j) then state_of s' j = Ready
       else if state_of s j = Throttled then refilled now (tasks s ! j) (tasks s' ! j)
       else if state_of s j = Running then charged now (tasks s ! j) (tasks s' ! j)
       else clock (tasks s' ! j) = clock (tasks s ! j)" by blast
  moreover from this(2) obtain Q' S' M' where "kernel_inv s' Q' S' M'" "\<forall>b. b \<noteq> 0 \<longrightarrow> permits s' b = permits s b"
    by (auto simp: served_def)
  ultimately show ?thesis by blast
qed

theorem timer_serves_what_is_due_witness:
  "\<exists>v s'. on_timer 150 10 trio = Some (v, s') \<and> state_of s' 2 = Ready"
proof -
  have i: "spec (t_budget (tasks trio ! IDLE_SLOT)) = None" using trio_tasks(2) by (simp add: IDLE_SLOT_def tcb_empty_def)
  have "overdue 150 (tasks trio ! 2)" using trio_tasks(3) by (simp add: overdue_def)
  with timer_serves_what_is_due [OF trio_inv _ i, of 150 10] show ?thesis by (fastforce simp: TASK_SLOT_COUNT_eq)
qed



end
