(* ===== verification/Hazards.thy ===== *)
theory Hazards
  imports Sync_Properties Stack_Ledger
begin

text \<open>
  Inputs on which the source panics, and which the theorems about it therefore exclude by hypothesis.
\<close>

subsection \<open>Ending a task that owns a mutex\<close>

text \<open>
  A task may end while it owns a mutex that another task waits for: \<open>task_exit\<close> clears the slot,
  with the counters of the donations it received, and neither releases the mutex nor refuses. The
  mutex then belongs to a free slot, and the next cancellation or timeout of a waiter panics on the
  missing donation. This is why ending a task is a step of \<open>Kernel_Steps\<close> only while nobody waits
  for it.
\<close>

lemma abandon_undonated:
  assumes len: "length (tasks s) = TASK_SLOT_COUNT" and x: "x < TASK_SLOT_COUNT" and m: "mutex_mem s a = Some m" "mx_owner m = c" "c < TASK_SLOT_COUNT"
    and z: "t_inherited_waiters (tasks s ! c) = replicate PRIORITY_LEVELS 0"
  shows "abandon_mutex_wait x a s = None"
proof (rule ccontr)
  assume "abandon_mutex_wait x a s \<noteq> None"
  then obtain s1 st s' where
    1: "on_mutex a (\<lambda>st s. remove_mutex_waiter st x s) s = Some s1" "mutex_mem s1 a = Some st"
      "(if mx_owner st \<noteq> NIL then do { t \<leftarrow> task_at x s1; remove_inheritance (mx_owner st) (t_priority t) s1 } else Some s1) = Some s'"
    by (auto simp: abandon_mutex_wait_def bind_eq_Some)
  from 1(1) m(1) obtain m' s0 where
    2: "remove_mutex_waiter m x s = Some (m', s0)" "s1 = s0\<lparr>mutex_mem := (mutex_mem s0)(a \<mapsto> m')\<rparr>"
    by (auto simp: on_mutex_def bind_eq_Some)
  have "mx_owner m' = c" using 2(1) m(2) by (auto simp: remove_mutex_waiter_def mutex_with_ends_def bind_eq_Some)
  moreover have "st = m'" using 1(2) 2(2) by simp
  ultimately have o: "mx_owner st = c" "c \<noteq> NIL" using m(3) by (auto simp: NIL_def TASK_SLOT_COUNT_eq)
  have "t_inherited_waiters (tasks s1 ! c) = replicate PRIORITY_LEVELS 0"
    using relinked_fields [OF waiter_relinks(4) [OF 2(1)], of c] z m(3) len 2(2) by simp
  with 1(3) o show False
    by (auto simp: remove_inheritance_def bind_eq_Some task_at_def arr_at_def chk_sub_def split: if_splits)
qed

text \<open>The switch away from a task that has just been cleared, whatever waits for it.\<close>

lemma exit_leaves:
  assumes inv: "kernel_inv s Q S M" and run: "state_of s (current s) = Running" "current s \<noteq> IDLE_SLOT" "next_switch_sequence s < U64_MAX"
      "t_scheduler_lock_depth (tasks s ! current s) = 0" and room: "retired_count s < TASK_SLOT_COUNT"
  shows "\<exists>intent s'. task_exit_locked True s = Some (intent, s') \<and> calm (mod_task (current s) (\<lambda>_. tcb_empty) s) s'
    \<and> state_of s' (current s) = Free"
proof -
  let ?c = "current s"
  define s1 where "s1 = mod_task ?c (\<lambda>_. tcb_empty) s"
  note k = kernel_invD [OF inv] and al = running_alone [OF inv run(1)]
  have cl: "?c < length (tasks s)" using k(7,9) by simp
  have at: "tasks s1 ! j = (if j = ?c then tcb_empty else tasks s ! j)" for j using cl by (simp add: s1_def mod_task_at)
  have rl: "length (retired_stacks s) = TASK_SLOT_COUNT" using shape_okD(5) [OF owned_butD(1) [OF k(8)]] .
  from retire_returns [of s1 "t_stack (tasks s ! ?c)"] rl room obtain r n where
    rt: "retire_stack (t_stack (tasks s ! ?c)) s1 = Some (s1\<lparr>retired_stacks := r, retired_count := n\<rparr>)" "length r = TASK_SLOT_COUNT"
    by (auto simp: s1_def)
  define s2 where "s2 = s1\<lparr>retired_stacks := r, retired_count := n\<rparr>"
  have t2: "tasks s2 = tasks s1" "current s2 = ?c" "pending_switch s2 = None" "next_switch_sequence s2 = next_switch_sequence s"
    "last_consumed_switch_sequence s2 = last_consumed_switch_sequence s" "sem_mem s2 = sem_mem s" "mutex_mem s2 = mutex_mem s"
    using al(1) by (simp_all add: s2_def s1_def)
  have "owned_but {} s1 Q" unfolding s1_def
    by (rule owned_mod_task [where f = "\<lambda>_. tcb_empty", OF k(8,9) al(3)]) (use al(2) in \<open>simp_all add: tcb_empty_def PRIORITY_LEVELS_def\<close>)
  then have own: "owned_but {} s2 Q" by (rule owned_but_view) (use rl rt(2) in \<open>simp add: same_view_def s2_def s1_def\<close>)
  have tk: "budgets_ok s" "frames_ok s" using k(2) by (simp_all add: trap_inv_def)
  have "budgets_ok s2" using tk(1) by (simp add: budgets_ok_def t2 at tcb_empty_def)
  moreover have "frames_ok s2" using tk(2) run(2) by (auto simp: frames_ok_def t2 at)
  ultimately have tr: "trap_inv s2 Q" using own t2(3) by (simp add: trap_inv_def ticket_ok_def)
  have il: "IDLE_SLOT < TASK_SLOT_COUNT" by (simp add: TASK_SLOT_COUNT_eq IDLE_SLOT_def)
  have idle: "state_of s2 IDLE_SLOT = Ready" using k(4) owned_butD(7) [OF k(8) il] run(2) by (auto simp: t2 at)
  have "still_away ?c (t_resume_generation tcb_empty) s2" by (simp add: still_away_def t2 at tcb_empty_def)
  from switch_away_spec [OF tr t2(3) idle _ _ this] run(3) k(5) t2 obtain intent s' s3 where
    w: "prepare_switch_away_decision ?c (t_resume_generation tcb_empty) True s2 = Some (Some intent, s')"
      "relinked {best_ready Q} s2 s3" "tasks s' = tasks s3" "sem_mem s' = sem_mem s2" "mutex_mem s' = mutex_mem s2" by auto
  have "state_of s2 (best_ready Q) \<noteq> Blocked" using best_ready_state [OF own] idle by auto
  then have "calm s2 s3" by (intro calm_relinked [OF w(2)]) simp
  then have "calm s1 s'" using w(3-5) t2 by (simp add: calm_def s2_def)
  moreover have "state_of s' ?c = Free" using relinked_fields(4) [OF w(2), of ?c] w(3) t2(1) cl at by (simp add: s1_def tcb_empty_def)
  moreover have "task_exit_locked True s = Some (intent, s')"
    using cl run(2,4) rt(1) w(1) by (simp add: task_exit_locked_def s1_def s2_def prepare_switch_away_locked_def)
  ultimately show ?thesis unfolding s1_def by blast
qed

text \<open>
  C33. The exit of an owner strands its waiters: it succeeds, the mutex keeps the slot as its owner although
  the slot is free for the next task, and giving up the wait, by cancellation or by timeout, panics.
\<close>

theorem owner_exit_strands_waiters:
  assumes "kernel_inv s Q S M" "in_task s" "t_scheduler_lock_depth (tasks s ! current s) = 0" "retired_count s < TASK_SLOT_COUNT"
    "mutex_mem s a = Some m" "mx_owner m = current s" "x \<in> set (M a)"
  shows "\<exists>intent s'. task_exit_locked True s = Some (intent, s') \<and> mutex_mem s' a = Some m \<and> state_of s' (current s) = Free
    \<and> abandon_mutex_wait x a s' = None \<and> cancel_wait_locked x now s' = None"
proof -
  have run: "state_of s (current s) = Running" "current s \<noteq> IDLE_SLOT" "next_switch_sequence s < U64_MAX" using assms(2) by (simp_all add: in_task_def)
  note k = kernel_invD [OF assms(1)] and w = sync_invD(2) [OF kernel_invD(1) [OF assms(1)]]
  let ?c = "current s"
  from exit_leaves [OF assms(1) run assms(3,4)] obtain intent s' where
    r: "task_exit_locked True s = Some (intent, s')" "calm (mod_task ?c (\<lambda>_. tcb_empty) s) s'" "state_of s' ?c = Free" by blast
  have x: "x < TASK_SLOT_COUNT" "t_waiting_mutex (tasks s ! x) = a" "x \<in> waiters S M"
    using waits_repD(2) [OF w] assms(7) waiters_iff [OF w, of x] by (auto simp: fam_rep_def members_def)
  have ne: "x \<noteq> ?c" using running_alone(4) [OF assms(1) run(1)] x(3) by blast
  have kc: "kept tcb_empty (tasks s' ! ?c)" and kx: "kept (tasks s ! x) (tasks s' ! x)"
    using r(2) k(7,9) x(1) ne by (auto simp: calm_def mod_task_at)
  have st: "length (tasks s') = TASK_SLOT_COUNT" "mutex_mem s' a = Some m" using r(2) k(7) assms(5) by (simp_all add: calm_def)
  have "t_inherited_waiters (tasks s' ! ?c) = replicate PRIORITY_LEVELS 0" using kc by (simp add: kept_def tcb_empty_def)
  note ab = abandon_undonated [OF st(1) x(1) st(2) assms(6) k(9) this]
  have "a \<noteq> 0" using fam_repD(2) [OF waits_repD(2) [OF w]] assms(5) by (auto simp: mutex_view_def)
  moreover have "t_waiting_sem (tasks s ! x) = 0" "t_granted_sem (tasks s ! x) = 0"
    using waits_for_one [OF kernel_invD(1) [OF assms(1)] x(1)] x(2) \<open>a \<noteq> 0\<close> by (auto, fastforce)
  ultimately have "cancel_wait_locked x now s' = None"
    using kx x(1,2) st(1) ab by (simp add: cancel_wait_locked_def cancel_semaphore_wait_locked_def kept_def)
  with r ab st show ?thesis by blast
qed

text \<open>Task 0 ends while task 2 waits for its mutex; cancelling that wait panics.\<close>

theorem owner_exit_strands_waiters_witness:
  "\<exists>intent s'. task_exit_locked True trio_waited = Some (intent, s') \<and> cancel_wait_locked 2 9 s' = None"
proof -
  have c: "in_task trio_waited" "current trio_waited = 0" "t_scheduler_lock_depth (tasks trio_waited ! current trio_waited) = 0"
    "retired_count trio_waited < TASK_SLOT_COUNT"
    "mutex_mem trio_waited 64 = Some \<lparr>mx_owner = 0, mx_depth = 1, mx_wait_head = 2, mx_wait_tail = 2\<rparr>"
    using trio_task(1,2) trio_sel by (simp_all add: in_task_def trio_waited_tasks)
      (simp_all add: trio_waited_def trio_def sched_new_def TASK_SLOT_COUNT_eq trio_waited_tasks)
  from owner_exit_strands_waiters [OF trio_waited_inv c(1,3-5), of 2 9] c(2) show ?thesis by auto
qed

subsection \<open>The largest count of a semaphore\<close>

text \<open>
  The count is an \<open>i32\<close> that \<open>up\<close> increments without a check, and \<open>semaphore_create\<close> accepts every
  initial count up to the largest.
\<close>

theorem semaphore_up_overflows:
  assumes "kernel_inv s Q S M" "sem_mem s a = Some st" "sm_count st = I32_MAX"
  shows "semaphore_up depth a now s = None"
proof -
  note d = sync_invD [OF kernel_invD(1) [OF assms(1)]]
  have "S a = []" using d(9) assms(2,3) by (auto simp: objects_ok_def)
  then have "sm_wait_head st = NIL"
    using fam_repD(3) [OF waits_repD(1) [OF d(2)], of a] assms(2) by (auto simp: sem_view_def sem_ends_def wait_rep_def)
  with assms(2,3) show ?thesis by (simp add: semaphore_up_def with_sem_def release_semaphore_locked_def chk_i32_def)
qed

subsection \<open>A group larger than the table\<close>

text \<open>
  \<open>preallocate_task_stacks\<close> never allocates more stacks than there are dynamic slots; the preallocation of a
  plan has no such bound, and with enough memory it writes past the array of the group.
\<close>

lemma oversized_group_fails:
  assumes "k < length (pp_counts p)" "k < length (pp_stacks p)" "length (pp_stacks p ! k) = DYNAMIC_TASK_CAPACITY" "DYNAMIC_TASK_CAPACITY < slot + n"
    "slot \<le> DYNAMIC_TASK_CAPACITY"
    and "\<And>x. \<exists>stack x'. allocate_stack (stack_bytes_per_task required) x = Some (stack, x') \<and> stack \<noteq> 0"
  shows "preallocate_group allocate_stack required k n slot p x = None"
  using assms(1-5)
proof (induction n arbitrary: slot p x)
  case (Suc n)
  from assms(6) obtain stack x1 where a: "allocate_stack (stack_bytes_per_task required) x = Some (stack, x1)" "stack \<noteq> 0" by blast
  show ?case
  proof (cases "slot < DYNAMIC_TASK_CAPACITY")
    case True
    let ?p = "\<lambda>c. p\<lparr>pp_stacks := (pp_stacks p)[k := (pp_stacks p ! k)[slot := stack]], pp_counts := (pp_counts p)[k := c]\<rparr>"
    have "preallocate_group allocate_stack required k n (slot + 1) (?p c) x1 = None" for c
      by (rule Suc.IH) (use Suc.prems True in simp_all)
    then show ?thesis using a Suc.prems True by (simp add: arr_at_def chk_add_def)
  next
    case False
    then show ?thesis using a Suc.prems by (simp add: arr_at_def assert_that_def)
  qed
qed simp

theorem oversized_group_panics:
  assumes "0 < groups" "DYNAMIC_TASK_CAPACITY < task_slots (group_resources grp)"
    and "\<And>n x. \<exists>stack x'. allocate_stack n x = Some (stack, x') \<and> stack \<noteq> 0"
  shows "preallocate_task_resource_plan allocate_stack release_stack largest groups (grp # plan) x = None"
  using oversized_group_fails [of 0 "preallocated_empty groups" 0 "task_slots (group_resources grp)" allocate_stack "group_resources grp"] assms
  by (simp add: preallocate_task_resource_plan_def preallocated_empty_def)

end
