(* ===== verification/Spec2Isabelle.thy ===== *)
theory Spec2Isabelle
  imports Entry_Points Context_Switch References Ownership_Check Ready_Refinement Destruction Promises Hazards
begin

text \<open>
  A verification development for hisi-rtos, a small preemptive real-time kernel in Rust for the
  HiSilicon WS63: fixed task slots, 32 priorities, quotas of processor time, semaphores, recursive
  mutexes with priority inheritance, a tickless one-shot timer, and the services a radio driver needs.

  \<^bold>\<open>How the code is read.\<close> The kernel runs every operation inside a critical section, so an operation
  is a function on the state; a blocking operation is two of them, one that parks the caller and one
  that runs when it is resumed. Functions return \<open>option\<close>: \<open>None\<close> is a panic, a failed
  \<open>debug_assert\<close>, an overflow that the build checks, an access out of bounds, undefined behaviour or
  a loop that does not end. A \<open>Result\<close> of the source is a sum inside it, \<open>Inl\<close> the error. Counters
  and times are \<open>nat\<close> with the saturating, checked or wrapping operation of the source written out;
  identities and tickets whose wrap-around matters are \<open>word\<close>s. Pointers to semaphores and mutexes
  are addresses in the maps \<open>sem_mem\<close> and \<open>mutex_mem\<close>; 0 is the null pointer. The links of the
  intrusive queues are the field \<open>t_next\<close> of the task table, with the sentinel \<open>NIL\<close> of the source.

  \<^bold>\<open>Parts and theories.\<close>
  \<^item> \<open>Prelude\<close>: options, checked arithmetic, array access, loops over indices.
  \<^item> \<open>Budget\<close> (\<open>scheduling.rs\<close>): \<open>BudgetState\<close> and all its operations.
  \<^item> \<open>Config\<close> (\<open>config.rs\<close>, constants of \<open>runtime.rs\<close>): sizes, configurations, diagnostics.
  \<^item> \<open>Handles\<close> (\<open>runtime/resource.rs\<close>, task identities of \<open>runtime.rs\<close>): generation-bearing handles,
    with the interfaces \<open>slot_codec\<close> and \<open>registry\<close>.
  \<^item> \<open>Reservation\<close> (\<open>runtime/reservation.rs\<close>): promises of task slots and stacks.
  \<^item> \<open>Sched_State\<close>, \<open>Ready_Queue\<close>, \<open>Inheritance\<close>, \<open>Switching\<close>, \<open>Timer\<close>, \<open>Inspection\<close>, \<open>Admission\<close>
    (\<open>runtime/scheduler.rs\<close>, \<open>runtime/time.rs\<close>): the record \<open>Sched\<close> and its operations, with the
    interface \<open>priority_fifo\<close> of the ready queue.
  \<^item> \<open>Wait_Queues\<close>, \<open>Sync\<close> (\<open>runtime/sync.rs\<close>): the wait queues, with the interface \<open>wait_queue\<close>
    shared by semaphores and mutexes, and every critical section of both.
  \<^item> \<open>Runtime\<close> (\<open>runtime.rs\<close>), \<open>Driver\<close> (\<open>runtime/driver.rs\<close>), \<open>Storage\<close> (\<open>storage.rs\<close>), \<open>Ws63\<close>
    (\<open>ws63.rs\<close>): starting, spawning, sleeping, exiting, interrupts, the driver services, the stack
    storage and the board. The allocator, the clock, the port and the embassy queue are parameters
    (the record \<open>env\<close>); what the port is asked to do is logged in order.
  \<^item> \<open>Ownership\<close>, \<open>Handoff\<close>, \<open>Ownership_Check\<close>: every ready task is in exactly one place (its queue,
    the pending switch, or the processor); the trap and the switch-away path keep it so and run the
    task the policy demands; the audit of the source decides exactly this invariant.
  \<^item> \<open>Wait_Invariant\<close>, \<open>Sync_Invariant\<close>, \<open>Sync_Ops\<close>, \<open>Donations\<close>: the wait queues are well linked and
    sorted, the counters of donations are exact, and a propagation along the chain of owners ends and
    settles every priority.
  \<^item> \<open>Kernel_Invariant\<close>, \<open>Semaphores\<close>, \<open>Mutexes\<close>, \<open>Locking\<close>, \<open>Timeouts\<close>, \<open>Expiry\<close>, \<open>Lifecycle\<close>,
    \<open>Policies\<close>: the invariant \<open>kernel_inv\<close> of the whole kernel and its preservation by every critical
    section: start, creation and end of tasks, new and freed objects, take, park, hand over, cancel, time
    out, sleep, yield of any task and of the idle loop, changes of priority and of run policy, the
    scheduler lock, the timer and the trap.
  \<^item> \<open>Kernel_Steps\<close>, \<open>Kernel_Properties\<close>: the kernel as a transition system over these events, and what
    holds on every run from the booted state: no event panics, permits are conserved, waits for mutexes
    are acyclic, an owner is never less urgent than those who wait for it.
  \<^item> \<open>References\<close>: on every such run no reference of a task, a queue or an owner dangles, and counts,
    depths and priorities stay in the ranges of their types.
  \<^item> \<open>Frames\<close>, \<open>Interrupts\<close>, \<open>Entry_Points\<close>: what the scheduling operations leave alone; the invariant
    \<open>rt_inv\<close> of a runtime at rest (the kernel invariant, a wired port, no interrupt in progress), kept by
    the interrupt handlers of the board with the epilogue and by \<open>sleep_ms\<close>, \<open>yield_now\<close>, the idle loop
    and \<open>task_exit\<close>, each followed to the task that runs next. It asks of the clock that it stays below
    the largest value of its type, which the source uses for the absence of a time.
  \<^item> \<open>Context_Switch\<close> (\<open>context.rs\<close>): the RISC-V code of the switch without a port on a model of the hart;
    it saves and resumes exactly a context of the layout of the source with interrupts disabled, a task
    that was switched away comes back as from a call, and a new task starts from the same words with
    and without a port.
  \<^item> \<open>Sync_Properties\<close>: each outcome of semaphores, mutexes, cancellation, the timer and a change of
    policy, branch by branch.
  \<^item> \<open>Ready_Refinement\<close>: the ready queue as an implementation of an abstract sorted list.
  \<^item> \<open>Deadlines\<close>: the timer is armed for the earliest event, and concurrent passes that arm it cannot
    leave a stale deadline behind.
  \<^item> \<open>Startup\<close>, \<open>Destruction\<close>: the runtime starts once; objects in use are never freed.
  \<^item> \<open>Stack_Ledger\<close>, \<open>Promises\<close>: with the interface \<open>stack_heap\<close> of an allocator, interpreted on the
    runtime's own allocation calls with a ledger beside them, admission neither loses nor double-frees a
    stack; promised slots stay free until they are claimed.
  \<^item> \<open>Hazards\<close>: three inputs on which the source panics, which the theorems above exclude.

  \<^bold>\<open>What the invariant needs.\<close> An event of \<open>Kernel_Steps\<close> is enabled by what its caller must be (a
  running task that may block, the resumed waiter, an interrupt) and by these limits: the counts of
  semaphores and switch sequences have not reached the end of their types, a task that ends has no
  task waiting for a mutex it owns, the slot of a new task is vacant as the allocation of slots
  guarantees, and the idle task has no quota.

  \<^bold>\<open>Bounds and fuel.\<close> Walks of the source that are bounded by the number of task slots are bounded in
  the same way, with the same outcome when the bound is hit (\<open>chain_walk\<close>, the depth of
  \<open>refresh_inherited_priority\<close>, the walks of the audit); loops without a bound in the source are
  \<open>partial_function (option)\<close> (\<open>ready_remove_loop\<close>, \<open>each_waiter\<close>, \<open>rearm_loop\<close>), and the theorems
  say that they return on the states the kernel reaches.

  \<^bold>\<open>Not modelled.\<close> The trap entry that saves the frame of an interrupted task is in another crate: with a
  port, a switch is the request to the port that the runtime logs and the frame that the epilogue
  returns. The register writes of the board and the re-exports of \<open>lib.rs\<close> hold no state of the kernel;
  the unit, conformance and Kani tests call the modelled operations. The hart of \<open>Context_Switch\<close> has the
  registers and the bits of \<open>mstatus\<close> that the code touches; other control registers are left out.
\<close>

end
